(* ===== verification/Prelude.thy ===== *)
theory Prelude
  imports Main "HOL-Library.Word"
begin

text \<open>
  Generic material the components share: thrown errors as the left side of a sum, the string and
  array primitives of the language the sources use (\<open>substring\<close>, \<open>slice\<close>, \<open>splice\<close>, the 32-bit
  coercion \<open>x | 0\<close>, the remainder operator) and the lemmas on them that carry the component proofs.
  Line numbers, columns and offsets are the language's integral numbers and are modelled as
  \<open>int\<close>; strings are lists of UTF-16 code units.
\<close>

section \<open>Errors\<close>

text \<open>The errors the modelled code throws: an assertion of the code itself
  (\<open>BugIndicatingError\<close>), an illegal argument (\<open>illegalArgument\<close>), an out-of-range typed array
  operation of the runtime (\<open>RangeError\<close>), the use of an undefined value, and an error without a
  class of its own (\<open>new Error\<close>). \<open>OutOfFuel\<close> is not
  an error of the code: it marks that a bound on the nesting of calls was too small.\<close>

datatype error = BugIndicatingError | IllegalArgument | RangeErr | TypeErr | PlainError | OutOfFuel

type_synonym 'a result = "error + 'a"

definition bindr :: "'a result \<Rightarrow> ('a \<Rightarrow> 'b result) \<Rightarrow> 'b result" where
  "bindr r f = (case r of Inl e \<Rightarrow> Inl e | Inr x \<Rightarrow> f x)"

lemma bindr_Inr [simp]: "bindr (Inr x) f = f x"
  by (simp add: bindr_def)

lemma bindr_Inl [simp]: "bindr (Inl e) f = Inl e"
  by (simp add: bindr_def)

lemma bindr_eq_Inr_iff: "bindr r f = Inr y \<longleftrightarrow> (\<exists>x. r = Inr x \<and> f x = Inr y)"
  by (cases r) auto

lemma bindr_cong [fundef_cong]:
  "r = r' \<Longrightarrow> (\<And>x. r' = Inr x \<Longrightarrow> f x = f' x) \<Longrightarrow> bindr r f = bindr r' f'"
  by (cases r') auto

text \<open>A loop that pushes the results of a function that may throw.\<close>

fun mapr :: "('a \<Rightarrow> 'b result) \<Rightarrow> 'a list \<Rightarrow> 'b list result" where
  "mapr f [] = Inr []"
| "mapr f (x # xs) = bindr (f x) (\<lambda>y. bindr (mapr f xs) (\<lambda>ys. Inr (y # ys)))"

lemma mapr_Inr: "(\<And>x. x \<in> set xs \<Longrightarrow> f x = Inr (g x)) \<Longrightarrow> mapr f xs = Inr (map g xs)"
  by (induction xs) auto

section \<open>Numbers\<close>

text \<open>\<open>x | 0\<close> of the language: the low 32 bits, read as two's complement.\<close>

definition toInt32 :: "int \<Rightarrow> int" where
  "toInt32 x = sint (word_of_int x :: 32 word)"

definition int32 :: "int \<Rightarrow> bool" where
  "int32 x \<longleftrightarrow> - 2147483648 \<le> x \<and> x < 2147483648"

lemma toInt32_id: "int32 x \<Longrightarrow> toInt32 x = x"
  by (simp add: toInt32_def int32_def sint_sbintrunc' signed_take_bit_int_eq_self)

text \<open>The remainder operator \<open>%\<close>: the sign of the dividend.\<close>

definition js_rem :: "int \<Rightarrow> int \<Rightarrow> int" where
  "js_rem a b = sgn a * (\<bar>a\<bar> mod \<bar>b\<bar>)"

lemma js_rem_nonneg: "0 \<le> a \<Longrightarrow> 0 < b \<Longrightarrow> js_rem a b = a mod b"
  by (cases "a = 0") (auto simp: js_rem_def)

text \<open>Decimal printing of an integer (\<open>Number.prototype.toString\<close> on integers).\<close>

fun nat_str :: "nat \<Rightarrow> string" where
  "nat_str n = (let d = [char_of (48 + n mod 10)] in if n < 10 then d else nat_str (n div 10) @ d)"

declare nat_str.simps [simp del]

definition int_str :: "int \<Rightarrow> string" where
  "int_str i = (if i < 0 then CHR ''-'' # nat_str (nat (- i)) else nat_str (nat i))"

lemma between_nonempty_iff: "{p :: 'a :: order. s \<le> p \<and> p \<le> e} \<noteq> {} \<longleftrightarrow> s \<le> e"
  by (auto intro: order_trans)

section \<open>Strings and arrays\<close>

text \<open>A string is a list of 16-bit code units.\<close>

type_synonym utf16 = "16 word list"

text \<open>An index clamped into \<open>0 .. length\<close>.\<close>

definition clampIdx :: "'a list \<Rightarrow> int \<Rightarrow> nat" where
  "clampIdx xs i = nat (max 0 (min i (int (length xs))))"

text \<open>\<open>s.substring(a, b)\<close>: both indices are clamped, and swapped when they are out of order.\<close>

definition js_substring :: "'a list \<Rightarrow> int \<Rightarrow> int \<Rightarrow> 'a list" where
  "js_substring xs a b =
     (let i = clampIdx xs a; j = clampIdx xs b
      in take (max i j - min i j) (drop (min i j) xs))"

definition js_substring_from :: "'a list \<Rightarrow> int \<Rightarrow> 'a list" where
  "js_substring_from xs a = drop (clampIdx xs a) xs"

text \<open>\<open>arr.slice(a, b)\<close> and the start index of \<open>splice\<close>: a negative index counts from the end.\<close>

definition relIdx :: "'a list \<Rightarrow> int \<Rightarrow> nat" where
  "relIdx xs i = (if i < 0 then nat (max 0 (int (length xs) + i)) else min (nat i) (length xs))"

definition js_slice :: "'a list \<Rightarrow> int \<Rightarrow> int \<Rightarrow> 'a list" where
  "js_slice xs a b = take (relIdx xs b - relIdx xs a) (drop (relIdx xs a) xs)"

definition js_splice :: "'a list \<Rightarrow> int \<Rightarrow> int \<Rightarrow> 'a list \<Rightarrow> 'a list" where
  "js_splice xs start del ins =
     (let s = relIdx xs start in take s xs @ ins @ drop (s + nat (max 0 del)) xs)"

lemma clampIdx_le [simp]: "clampIdx xs i \<le> length xs"
  by (auto simp: clampIdx_def)

lemma clampIdx_mono: "i \<le> j \<Longrightarrow> clampIdx xs i \<le> clampIdx xs j"
  by (auto simp: clampIdx_def)

lemma drop_clampIdx: "drop (clampIdx xs i) xs = drop (nat i) xs"
  by (auto simp: clampIdx_def min_def max_def)

lemma js_substring_from_eq: "js_substring_from xs a = drop (nat a) xs"
  by (simp add: js_substring_from_def drop_clampIdx)

lemma js_substring_eq:
  assumes "0 \<le> a" and "a \<le> b"
  shows "js_substring xs a b = take (nat (b - a)) (drop (nat a) xs)"
proof -
  let ?i = "clampIdx xs a" and ?j = "clampIdx xs b"
  have "?i \<le> ?j" using assms(2) by (rule clampIdx_mono)
  then have "js_substring xs a b = take (?j - ?i) (drop (nat a) xs)"
    by (simp add: js_substring_def Let_def max_def min_def drop_clampIdx)
  also have "\<dots> = take (nat (b - a)) (drop (nat a) xs)"
  proof (cases "b \<le> int (length xs)")
    case True
    then have "?j - ?i = nat (b - a)" using assms by (simp add: clampIdx_def nat_diff_distrib)
    then show ?thesis by simp
  next
    case False
    then show ?thesis using assms by (simp add: clampIdx_def)
  qed
  finally show ?thesis .
qed

lemma js_substring_self [simp]: "js_substring xs a a = []"
  by (simp add: js_substring_def Let_def)

lemma length_js_substring:
  "0 \<le> a \<Longrightarrow> a \<le> b \<Longrightarrow> b \<le> int (length xs) \<Longrightarrow> length (js_substring xs a b) = nat (b - a)"
  by (auto simp: js_substring_eq)

lemma js_substring_split:
  assumes "0 \<le> a" and "a \<le> b"
  shows "js_substring xs a b @ drop (nat b) xs = drop (nat a) xs"
proof -
  have "drop (nat b) xs = drop (nat (b - a)) (drop (nat a) xs)"
    using assms by (simp add: nat_diff_distrib)
  then show ?thesis by (simp only: js_substring_eq [OF assms] append_take_drop_id)
qed

lemma js_splice_nonneg:
  "0 \<le> s \<Longrightarrow> s \<le> int (length xs) \<Longrightarrow> 0 \<le> d \<Longrightarrow>
   js_splice xs s d ins = take (nat s) xs @ ins @ drop (nat (s + d)) xs"
  by (simp add: js_splice_def relIdx_def Let_def nat_add_distrib)

text \<open>\<open>arr.join(sep)\<close> on an array of strings.\<close>

fun join_str :: "string \<Rightarrow> string list \<Rightarrow> string" where
  "join_str sep [] = []"
| "join_str sep [s] = s"
| "join_str sep (s # ss) = s @ sep @ join_str sep ss"

text \<open>The loop \<open>while (i < length && p(arr[i])) i++\<close> from an index.\<close>

function skipWhile :: "('a \<Rightarrow> bool) \<Rightarrow> 'a list \<Rightarrow> nat \<Rightarrow> nat" where
  "skipWhile p xs i = (if i < length xs \<and> p (xs ! i) then skipWhile p xs (i + 1) else i)"
  by pat_completeness auto
termination by (relation "measure (\<lambda>(p, xs, i). length xs - i)") auto

declare skipWhile.simps [simp del]

lemma skipWhile_eq:
  "i \<le> length xs \<Longrightarrow> skipWhile p xs i = i + length (takeWhile p (drop i xs))"
proof (induction "length xs - i" arbitrary: i)
  case (Suc n)
  then have "i < length xs" and "drop i xs = xs ! i # drop (Suc i) xs"
    by (simp_all add: Cons_nth_drop_Suc)
  with Suc.hyps(1) [of "Suc i"] Suc.hyps(2) show ?case by (simp add: skipWhile.simps [of p xs i])
qed (simp add: skipWhile.simps)

lemma skipWhile_append:
  "skipWhile p (A @ xs) (length A) = length A + length (takeWhile p xs)"
  by (simp add: skipWhile_eq)

lemma js_splice_middle:
  "js_splice (A @ M @ B) (int (length A)) (int (length A + length M) - int (length A)) ins = A @ ins @ B"
  by (simp add: js_splice_nonneg nat_int_add)

lemma js_splice_insert: "js_splice (A @ B) (int (length A)) 0 ins = A @ ins @ B"
  using js_splice_middle [of A "[]" B ins] by simp

lemma nth_middle_hd: "M \<noteq> [] \<Longrightarrow> (A @ M @ B) ! length A = hd M"
  by (simp add: nth_append hd_conv_nth)

lemma nth_middle_last: "M \<noteq> [] \<Longrightarrow> (A @ M @ B) ! (length A + length M - 1) = last M"
proof -
  assume "M \<noteq> []"
  then have "length A + length M - 1 = length A + (length M - 1)" "length M - 1 < length M"
    by (simp_all add: Suc_leI)
  then show ?thesis using \<open>M \<noteq> []\<close>
    by (simp only: nth_append_length_plus) (simp add: nth_append last_conv_nth)
qed

end
