(* ===== verification/Position_Range.thy ===== *)
theory Position_Range
  imports Prelude
begin

text \<open>
  Positions and ranges of the editor: \<open>src/vs/editor/common/core/position.ts\<close> and \<open>range.ts\<close>.
  A position is a record of a line number and a column, ordered lexicographically (the instance of
  \<open>linorder\<close> below, which every comparison of the code is proved to decide); a range is a record of
  its four fields, which is what both an \<open>IRange\<close> and a \<open>Range\<close> are. \<open>range_wf\<close> is the invariant the
  constructor of \<open>Range\<close> establishes. The static methods take any \<open>IRange\<close>, the instance methods
  of the class only delegate to them. \<open>null\<close> and \<open>undefined\<close> arguments are \<open>None\<close>.
\<close>

section \<open>Positions\<close>

record position =
  lineNumber :: int
  column :: int

definition Position_new :: "int \<Rightarrow> int \<Rightarrow> position" where
  "Position_new l c = \<lparr>lineNumber = l, column = c\<rparr>"

text \<open>The omitted arguments of \<open>with\<close> and \<open>delta\<close> are \<open>None\<close>.\<close>

definition Position_with :: "position \<Rightarrow> int option \<Rightarrow> int option \<Rightarrow> position" where
  "Position_with p newLine newColumn =
     (let l = (case newLine of None \<Rightarrow> lineNumber p | Some l \<Rightarrow> l);
          c = (case newColumn of None \<Rightarrow> column p | Some c \<Rightarrow> c)
      in if l = lineNumber p \<and> c = column p then p else Position_new l c)"

definition Position_delta :: "position \<Rightarrow> int \<Rightarrow> int \<Rightarrow> position" where
  "Position_delta p deltaLine deltaColumn =
     Position_with p (Some (max 1 (lineNumber p + deltaLine))) (Some (max 1 (column p + deltaColumn)))"

definition Position_equals :: "position option \<Rightarrow> position option \<Rightarrow> bool" where
  "Position_equals a b =
     (if a = None \<and> b = None then True
      else case (a, b) of (Some p, Some q) \<Rightarrow> lineNumber p = lineNumber q \<and> column p = column q
           | _ \<Rightarrow> False)"

definition Position_isBefore :: "position \<Rightarrow> position \<Rightarrow> bool" where
  "Position_isBefore a b =
     (if lineNumber a < lineNumber b then True
      else if lineNumber b < lineNumber a then False
      else column a < column b)"

definition Position_isBeforeOrEqual :: "position \<Rightarrow> position \<Rightarrow> bool" where
  "Position_isBeforeOrEqual a b =
     (if lineNumber a < lineNumber b then True
      else if lineNumber b < lineNumber a then False
      else column a \<le> column b)"

definition Position_compare :: "position \<Rightarrow> position \<Rightarrow> int" where
  "Position_compare a b =
     (let al = toInt32 (lineNumber a); bl = toInt32 (lineNumber b)
      in if al = bl then toInt32 (column a) - toInt32 (column b) else al - bl)"

definition Position_clone :: "position \<Rightarrow> position" where
  "Position_clone p = Position_new (lineNumber p) (column p)"

definition Position_toString :: "position \<Rightarrow> string" where
  "Position_toString p = ''('' @ int_str (lineNumber p) @ '','' @ int_str (column p) @ '')''"

definition Position_lift :: "position \<Rightarrow> position" where
  "Position_lift p = Position_new (lineNumber p) (column p)"

definition Position_toJSON :: "position \<Rightarrow> position" where
  "Position_toJSON p = \<lparr>lineNumber = lineNumber p, column = column p\<rparr>"

subsection \<open>The order of positions\<close>

instantiation position_ext :: (linorder) linorder
begin

definition less_eq_position_ext :: "'a position_scheme \<Rightarrow> 'a position_scheme \<Rightarrow> bool" where
  "less_eq_position_ext p q \<longleftrightarrow>
     lineNumber p < lineNumber q
     \<or> lineNumber p = lineNumber q \<and> (column p < column q
        \<or> column p = column q \<and> position.more p \<le> position.more q)"

definition less_position_ext :: "'a position_scheme \<Rightarrow> 'a position_scheme \<Rightarrow> bool" where
  "less_position_ext p q \<longleftrightarrow>
     lineNumber p < lineNumber q
     \<or> lineNumber p = lineNumber q \<and> (column p < column q
        \<or> column p = column q \<and> position.more p < position.more q)"

instance
  by standard
    (auto simp: less_eq_position_ext_def less_position_ext_def intro: position.equality)

end

lemma position_le_iff:
  "p \<le> q \<longleftrightarrow> lineNumber p < lineNumber q \<or> lineNumber p = lineNumber q \<and> column p \<le> column q"
  for p q :: position
  by (auto simp: less_eq_position_ext_def)

lemma position_less_iff:
  "p < q \<longleftrightarrow> lineNumber p < lineNumber q \<or> lineNumber p = lineNumber q \<and> column p < column q"
  for p q :: position
  by (auto simp: less_position_ext_def)

lemma position_eq_iff: "p = q \<longleftrightarrow> lineNumber p = lineNumber q \<and> column p = column q"
  for p q :: position
  by (auto intro: position.equality)

lemmas position_order = position_le_iff position_less_iff position_eq_iff

lemma Position_isBefore_iff: "Position_isBefore a b \<longleftrightarrow> a < b"
  by (auto simp: Position_isBefore_def position_order)

lemma Position_isBeforeOrEqual_iff: "Position_isBeforeOrEqual a b \<longleftrightarrow> a \<le> b"
  by (auto simp: Position_isBeforeOrEqual_def position_order)

lemma Position_equals_iff: "Position_equals a b \<longleftrightarrow> a = b"
  by (auto simp: Position_equals_def position_eq_iff split: option.splits)

lemma Position_new_sel [simp]:
  "lineNumber (Position_new l c) = l" "column (Position_new l c) = c"
  by (simp_all add: Position_new_def)

definition position_int32 :: "position \<Rightarrow> bool" where
  "position_int32 p \<longleftrightarrow> int32 (lineNumber p) \<and> int32 (column p)"

text \<open>On positions whose line and column fit 32 bits, the comparison function used for sorting
  decides the lexicographic order of positions: its sign is negative, zero or positive exactly when
  \<open>isBefore\<close> holds, the positions are equal, or \<open>isBefore\<close> holds the other way round.\<close>

theorem Position_compare_sign:
  assumes "position_int32 a" and "position_int32 b"
  shows "(Position_compare a b < 0 \<longleftrightarrow> Position_isBefore a b)
       \<and> (Position_compare a b = 0 \<longleftrightarrow> Position_equals (Some a) (Some b))
       \<and> (Position_compare a b > 0 \<longleftrightarrow> Position_isBefore b a)"
  using assms
  by (auto simp: Position_compare_def position_int32_def toInt32_id Let_def Position_isBefore_iff
      Position_equals_iff position_order)

theorem Position_compare_sign_witness:
  "Position_compare (Position_new 3 9) (Position_new 4 1) < 0
   \<and> Position_isBefore (Position_new 3 9) (Position_new 4 1)"
proof -
  have "position_int32 (Position_new 3 9)" "position_int32 (Position_new 4 1)"
    by (simp_all add: position_int32_def int32_def)
  from Position_compare_sign [OF this] show ?thesis
    by (simp add: Position_isBefore_def)
qed

section \<open>Ranges\<close>

record range =
  startLineNumber :: int
  startColumn :: int
  endLineNumber :: int
  endColumn :: int

definition Range_new :: "int \<Rightarrow> int \<Rightarrow> int \<Rightarrow> int \<Rightarrow> range" where
  "Range_new sl sc el ec =
     (if sl > el \<or> (sl = el \<and> sc > ec)
      then \<lparr>startLineNumber = el, startColumn = ec, endLineNumber = sl, endColumn = sc\<rparr>
      else \<lparr>startLineNumber = sl, startColumn = sc, endLineNumber = el, endColumn = ec\<rparr>)"

definition Range_isEmpty :: "'a range_scheme \<Rightarrow> bool" where
  "Range_isEmpty r \<longleftrightarrow> startLineNumber r = endLineNumber r \<and> startColumn r = endColumn r"

definition Range_containsPosition :: "'a range_scheme \<Rightarrow> position \<Rightarrow> bool" where
  "Range_containsPosition r p =
     (if lineNumber p < startLineNumber r \<or> lineNumber p > endLineNumber r then False
      else if lineNumber p = startLineNumber r \<and> column p < startColumn r then False
      else if lineNumber p = endLineNumber r \<and> column p > endColumn r then False
      else True)"

definition Range_strictContainsPosition :: "'a range_scheme \<Rightarrow> position \<Rightarrow> bool" where
  "Range_strictContainsPosition r p =
     (if lineNumber p < startLineNumber r \<or> lineNumber p > endLineNumber r then False
      else if lineNumber p = startLineNumber r \<and> column p \<le> startColumn r then False
      else if lineNumber p = endLineNumber r \<and> column p \<ge> endColumn r then False
      else True)"

definition Range_containsRange :: "'a range_scheme \<Rightarrow> 'b range_scheme \<Rightarrow> bool" where
  "Range_containsRange r other =
     (if startLineNumber other < startLineNumber r \<or> endLineNumber other < startLineNumber r then False
      else if startLineNumber other > endLineNumber r \<or> endLineNumber other > endLineNumber r then False
      else if startLineNumber other = startLineNumber r \<and> startColumn other < startColumn r then False
      else if endLineNumber other = endLineNumber r \<and> endColumn other > endColumn r then False
      else True)"

definition Range_strictContainsRange :: "'a range_scheme \<Rightarrow> 'b range_scheme \<Rightarrow> bool" where
  "Range_strictContainsRange r other =
     (if startLineNumber other < startLineNumber r \<or> endLineNumber other < startLineNumber r then False
      else if startLineNumber other > endLineNumber r \<or> endLineNumber other > endLineNumber r then False
      else if startLineNumber other = startLineNumber r \<and> startColumn other \<le> startColumn r then False
      else if endLineNumber other = endLineNumber r \<and> endColumn other \<ge> endColumn r then False
      else True)"

definition Range_plusRange :: "'a range_scheme \<Rightarrow> 'b range_scheme \<Rightarrow> range" where
  "Range_plusRange a b =
     (let (sl, sc) =
        (if startLineNumber b < startLineNumber a then (startLineNumber b, startColumn b)
         else if startLineNumber b = startLineNumber a
              then (startLineNumber b, min (startColumn b) (startColumn a))
         else (startLineNumber a, startColumn a));
          (el, ec) =
        (if endLineNumber b > endLineNumber a then (endLineNumber b, endColumn b)
         else if endLineNumber b = endLineNumber a
              then (endLineNumber b, max (endColumn b) (endColumn a))
         else (endLineNumber a, endColumn a))
      in Range_new sl sc el ec)"

definition Range_intersectRanges :: "'a range_scheme \<Rightarrow> 'b range_scheme \<Rightarrow> range option" where
  "Range_intersectRanges a b =
     (let (sl, sc) =
        (if startLineNumber a < startLineNumber b then (startLineNumber b, startColumn b)
         else if startLineNumber a = startLineNumber b
              then (startLineNumber a, max (startColumn a) (startColumn b))
         else (startLineNumber a, startColumn a));
          (el, ec) =
        (if endLineNumber a > endLineNumber b then (endLineNumber b, endColumn b)
         else if endLineNumber a = endLineNumber b
              then (endLineNumber a, min (endColumn a) (endColumn b))
         else (endLineNumber a, endColumn a))
      in if sl > el then None
         else if sl = el \<and> sc > ec then None
         else Some (Range_new sl sc el ec))"

definition Range_equalsRange :: "range option \<Rightarrow> range option \<Rightarrow> bool" where
  "Range_equalsRange a b =
     (if a = None \<and> b = None then True
      else case (a, b) of
        (Some r, Some s) \<Rightarrow> startLineNumber r = startLineNumber s \<and> startColumn r = startColumn s
                           \<and> endLineNumber r = endLineNumber s \<and> endColumn r = endColumn s
      | _ \<Rightarrow> False)"

definition Range_getEndPosition :: "'a range_scheme \<Rightarrow> position" where
  "Range_getEndPosition r = Position_new (endLineNumber r) (endColumn r)"

definition Range_getStartPosition :: "'a range_scheme \<Rightarrow> position" where
  "Range_getStartPosition r = Position_new (startLineNumber r) (startColumn r)"

definition Range_toString :: "'a range_scheme \<Rightarrow> string" where
  "Range_toString r = ''['' @ int_str (startLineNumber r) @ '','' @ int_str (startColumn r)
     @ '' -> '' @ int_str (endLineNumber r) @ '','' @ int_str (endColumn r) @ '']''"

definition Range_setEndPosition :: "range \<Rightarrow> int \<Rightarrow> int \<Rightarrow> range" where
  "Range_setEndPosition r el ec = Range_new (startLineNumber r) (startColumn r) el ec"

definition Range_setStartPosition :: "range \<Rightarrow> int \<Rightarrow> int \<Rightarrow> range" where
  "Range_setStartPosition r sl sc = Range_new sl sc (endLineNumber r) (endColumn r)"

definition Range_collapseToStart :: "'a range_scheme \<Rightarrow> range" where
  "Range_collapseToStart r =
     Range_new (startLineNumber r) (startColumn r) (startLineNumber r) (startColumn r)"

definition Range_collapseToEnd :: "'a range_scheme \<Rightarrow> range" where
  "Range_collapseToEnd r = Range_new (endLineNumber r) (endColumn r) (endLineNumber r) (endColumn r)"

definition Range_delta :: "'a range_scheme \<Rightarrow> int \<Rightarrow> range" where
  "Range_delta r n = Range_new (startLineNumber r + n) (startColumn r) (endLineNumber r + n) (endColumn r)"

definition Range_isSingleLine :: "'a range_scheme \<Rightarrow> bool" where
  "Range_isSingleLine r \<longleftrightarrow> startLineNumber r = endLineNumber r"

definition Range_fromPositions :: "position \<Rightarrow> position option \<Rightarrow> range" where
  "Range_fromPositions s e =
     (let e' = (case e of None \<Rightarrow> s | Some p \<Rightarrow> p)
      in Range_new (lineNumber s) (column s) (lineNumber e') (column e'))"

definition Range_lift :: "range option \<Rightarrow> range option" where
  "Range_lift r = (case r of None \<Rightarrow> None
     | Some r \<Rightarrow> Some (Range_new (startLineNumber r) (startColumn r) (endLineNumber r) (endColumn r)))"

definition Range_areIntersectingOrTouching :: "'a range_scheme \<Rightarrow> 'b range_scheme \<Rightarrow> bool" where
  "Range_areIntersectingOrTouching a b =
     (if endLineNumber a < startLineNumber b
         \<or> (endLineNumber a = startLineNumber b \<and> endColumn a < startColumn b) then False
      else if endLineNumber b < startLineNumber a
         \<or> (endLineNumber b = startLineNumber a \<and> endColumn b < startColumn a) then False
      else True)"

definition Range_areIntersecting :: "'a range_scheme \<Rightarrow> 'b range_scheme \<Rightarrow> bool" where
  "Range_areIntersecting a b =
     (if endLineNumber a < startLineNumber b
         \<or> (endLineNumber a = startLineNumber b \<and> endColumn a \<le> startColumn b) then False
      else if endLineNumber b < startLineNumber a
         \<or> (endLineNumber b = startLineNumber a \<and> endColumn b \<le> startColumn a) then False
      else True)"

definition Range_areOnlyIntersecting :: "'a range_scheme \<Rightarrow> 'b range_scheme \<Rightarrow> bool" where
  "Range_areOnlyIntersecting a b =
     (if endLineNumber a < startLineNumber b - 1
         \<or> (endLineNumber a = startLineNumber b \<and> endColumn a < startColumn b - 1) then False
      else if endLineNumber b < startLineNumber a - 1
         \<or> (endLineNumber b = startLineNumber a \<and> endColumn b < startColumn a - 1) then False
      else True)"

definition Range_compareRangesUsingStarts :: "range option \<Rightarrow> range option \<Rightarrow> int" where
  "Range_compareRangesUsingStarts a b =
     (case (a, b) of
        (Some a, Some b) \<Rightarrow>
          (let asl = toInt32 (startLineNumber a); bsl = toInt32 (startLineNumber b);
               asc = toInt32 (startColumn a); bsc = toInt32 (startColumn b);
               ael = toInt32 (endLineNumber a); bel = toInt32 (endLineNumber b);
               aec = toInt32 (endColumn a); bec = toInt32 (endColumn b)
           in if asl = bsl
              then (if asc = bsc then (if ael = bel then aec - bec else ael - bel) else asc - bsc)
              else asl - bsl)
      | _ \<Rightarrow> (case a of None \<Rightarrow> 0 | Some _ \<Rightarrow> 1) - (case b of None \<Rightarrow> 0 | Some _ \<Rightarrow> 1))"

definition Range_compareRangesUsingEnds :: "'a range_scheme \<Rightarrow> 'b range_scheme \<Rightarrow> int" where
  "Range_compareRangesUsingEnds a b =
     (if endLineNumber a = endLineNumber b
      then (if endColumn a = endColumn b
            then (if startLineNumber a = startLineNumber b then startColumn a - startColumn b
                  else startLineNumber a - startLineNumber b)
            else endColumn a - endColumn b)
      else endLineNumber a - endLineNumber b)"

definition Range_spansMultipleLines :: "'a range_scheme \<Rightarrow> bool" where
  "Range_spansMultipleLines r \<longleftrightarrow> endLineNumber r > startLineNumber r"

section \<open>Laws of ranges\<close>

definition range_wf :: "'a range_scheme \<Rightarrow> bool" where
  "range_wf r \<longleftrightarrow> Range_getStartPosition r \<le> Range_getEndPosition r"

text \<open>The positions a range covers, its edges included.\<close>

definition range_set :: "'a range_scheme \<Rightarrow> position set" where
  "range_set r = {p. Range_getStartPosition r \<le> p \<and> p \<le> Range_getEndPosition r}"

named_theorems range_defs

lemmas [range_defs] = Range_getStartPosition_def Range_getEndPosition_def range_wf_def position_order

lemma Range_new_start:
  "Range_getStartPosition (Range_new sl sc el ec) = min (Position_new sl sc) (Position_new el ec)"
  by (auto simp: Range_new_def range_defs min_def)

lemma Range_new_end:
  "Range_getEndPosition (Range_new sl sc el ec) = max (Position_new sl sc) (Position_new el ec)"
  by (auto simp: Range_new_def range_defs max_def)

lemma range_wf_new [simp]: "range_wf (Range_new sl sc el ec)"
  by (simp add: range_wf_def Range_new_start Range_new_end min_le_iff_disj)

lemma range_eq_iff:
  "r = s \<longleftrightarrow> Range_getStartPosition r = Range_getStartPosition s
            \<and> Range_getEndPosition r = Range_getEndPosition s"
  for r s :: range
  by (cases r; cases s) (auto simp: range_defs)

lemma Range_equalsRange_iff: "Range_equalsRange a b \<longleftrightarrow> a = b"
  by (auto simp: Range_equalsRange_def range_eq_iff range_defs split: option.splits)

lemma Range_containsPosition_iff: "Range_containsPosition r p \<longleftrightarrow> p \<in> range_set r"
  by (auto simp: Range_containsPosition_def range_set_def range_defs)

lemma Range_strictContainsPosition_iff:
  "Range_strictContainsPosition r p \<longleftrightarrow> Range_getStartPosition r < p \<and> p < Range_getEndPosition r"
  by (auto simp: Range_strictContainsPosition_def range_defs)

lemma Range_containsRange_iff:
  assumes "range_wf other"
  shows "Range_containsRange r other \<longleftrightarrow>
     Range_getStartPosition r \<le> Range_getStartPosition other
     \<and> Range_getEndPosition other \<le> Range_getEndPosition r"
  using assms by (auto simp: Range_containsRange_def range_defs)

lemma Range_strictContainsRange_iff:
  assumes "range_wf other"
  shows "Range_strictContainsRange r other \<longleftrightarrow>
     Range_getStartPosition r < Range_getStartPosition other
     \<and> Range_getEndPosition other < Range_getEndPosition r"
  using assms by (auto simp: Range_strictContainsRange_def range_defs)

lemma range_set_mono_iff:
  assumes "range_wf b"
  shows "range_set b \<subseteq> range_set a \<longleftrightarrow>
     Range_getStartPosition a \<le> Range_getStartPosition b \<and> Range_getEndPosition b \<le> Range_getEndPosition a"
  using assms by (force simp: range_set_def range_wf_def)

lemma Position_new_id [simp]: "Position_new (lineNumber p) (column p) = p"
  by (simp add: position_eq_iff)

lemma Range_plusRange_eq:
  "Range_plusRange a b =
     (let s = min (Range_getStartPosition b) (Range_getStartPosition a);
          e = max (Range_getEndPosition b) (Range_getEndPosition a)
      in Range_new (lineNumber s) (column s) (lineNumber e) (column e))"
  by (simp add: Range_plusRange_def Range_getStartPosition_def Range_getEndPosition_def Let_def
      min_def max_def position_le_iff)

lemma Range_plusRange_start:
  "range_wf a \<Longrightarrow> range_wf b \<Longrightarrow>
   Range_getStartPosition (Range_plusRange a b) = min (Range_getStartPosition a) (Range_getStartPosition b)"
  by (simp add: Range_plusRange_eq Let_def Range_new_start range_wf_def min.commute
      min_absorb1 min_le_iff_disj le_max_iff_disj)

lemma Range_plusRange_end:
  "range_wf a \<Longrightarrow> range_wf b \<Longrightarrow>
   Range_getEndPosition (Range_plusRange a b) = max (Range_getEndPosition a) (Range_getEndPosition b)"
  by (simp add: Range_plusRange_eq Let_def Range_new_end range_wf_def max.commute
      max_absorb2 min_le_iff_disj le_max_iff_disj)

lemma range_wf_plusRange [simp]: "range_wf (Range_plusRange a b)"
  by (simp add: Range_plusRange_def Let_def split: prod.splits)

text \<open>The \<open>Range\<close> constructor puts its two positions in order, whatever order it gets them in:
  the start is the lesser, the end the greater, so every \<open>Range\<close> is well formed. The derived
  constructors (\<open>plusRange\<close>, \<open>setStartPosition\<close>, \<open>setEndPosition\<close>, \<open>delta\<close>, the two collapses and
  \<open>fromPositions\<close>) inherit it.\<close>

theorem Range_new_ordered:
  "Range_getStartPosition (Range_new sl sc el ec) = min (Position_new sl sc) (Position_new el ec)
   \<and> Range_getEndPosition (Range_new sl sc el ec) = max (Position_new sl sc) (Position_new el ec)
   \<and> range_wf (Range_plusRange a b) \<and> range_wf (Range_setStartPosition r sl sc)
   \<and> range_wf (Range_setEndPosition r el ec) \<and> range_wf (Range_delta r n)
   \<and> range_wf (Range_collapseToStart r) \<and> range_wf (Range_collapseToEnd r)
   \<and> range_wf (Range_fromPositions p q)"
  by (simp add: Range_new_start Range_new_end Range_setStartPosition_def Range_setEndPosition_def
      Range_delta_def Range_collapseToStart_def Range_collapseToEnd_def Range_fromPositions_def Let_def)

text \<open>On well-formed ranges \<open>containsRange\<close> decides set inclusion of the positions covered, and
  \<open>plusRange\<close> is the least range that contains both arguments: a range contains the union exactly
  when it contains both.\<close>

theorem Range_plusRange_least:
  assumes "range_wf a" and "range_wf b"
  shows "(Range_containsRange c a \<longleftrightarrow> range_set a \<subseteq> range_set c)
       \<and> (Range_containsRange c (Range_plusRange a b) \<longleftrightarrow>
          Range_containsRange c a \<and> Range_containsRange c b)"
  using assms
  by (auto simp: Range_containsRange_iff range_set_mono_iff Range_plusRange_start Range_plusRange_end)

theorem Range_plusRange_least_witness:
  "Range_containsRange (Range_new 1 1 9 9) (Range_plusRange (Range_new 2 5 3 1) (Range_new 3 4 4 2))
   \<longleftrightarrow> Range_containsRange (Range_new 1 1 9 9) (Range_new 2 5 3 1)
       \<and> Range_containsRange (Range_new 1 1 9 9) (Range_new 3 4 4 2)"
  using Range_plusRange_least [OF range_wf_new range_wf_new] by blast

lemma Range_areIntersectingOrTouching_iff:
  "Range_areIntersectingOrTouching a b \<longleftrightarrow>
     Range_getStartPosition b \<le> Range_getEndPosition a \<and> Range_getStartPosition a \<le> Range_getEndPosition b"
  by (auto simp: Range_areIntersectingOrTouching_def range_defs)

lemma Range_intersectRanges_cases:
  assumes "range_wf a" and "range_wf b"
  shows "Range_intersectRanges a b =
     (let s = max (Range_getStartPosition a) (Range_getStartPosition b);
          e = min (Range_getEndPosition a) (Range_getEndPosition b)
      in if e < s then None else Some (Range_new (lineNumber s) (column s) (lineNumber e) (column e)))"
  using assms
  by (auto simp: Range_intersectRanges_def range_defs min_def max_def Let_def)

text \<open>\<open>intersectRanges\<close> computes the intersection: it is \<open>null\<close> exactly when the two ranges share
  no position, and otherwise a well-formed range covering exactly the shared positions.
  \<open>areIntersectingOrTouching\<close> is the test for a shared position.\<close>

theorem Range_intersectRanges_correct:
  assumes "range_wf a" and "range_wf b"
  shows "(case Range_intersectRanges a b of
            None \<Rightarrow> range_set a \<inter> range_set b = {}
          | Some c \<Rightarrow> range_wf c \<and> range_set c = range_set a \<inter> range_set b)
       \<and> (Range_areIntersectingOrTouching a b \<longleftrightarrow> range_set a \<inter> range_set b \<noteq> {})"
proof
  let ?s = "max (Range_getStartPosition a) (Range_getStartPosition b)"
  let ?e = "min (Range_getEndPosition a) (Range_getEndPosition b)"
  have inter: "range_set a \<inter> range_set b = {p. ?s \<le> p \<and> p \<le> ?e}"
    by (auto simp: range_set_def)
  show "case Range_intersectRanges a b of None \<Rightarrow> range_set a \<inter> range_set b = {}
      | Some c \<Rightarrow> range_wf c \<and> range_set c = range_set a \<inter> range_set b"
  proof (cases "?e < ?s")
    case True
    then have "range_set a \<inter> range_set b = {}"
      unfolding inter by (blast dest: leD order_trans)
    with True show ?thesis by (simp add: Range_intersectRanges_cases [OF assms] Let_def)
  next
    case False
    define c where "c = Range_new (lineNumber ?s) (column ?s) (lineNumber ?e) (column ?e)"
    have "?s \<le> ?e" using False by (simp only: not_less)
    then have "range_set c = {p. ?s \<le> p \<and> p \<le> ?e}"
      by (simp only: c_def range_set_def Range_new_start Range_new_end Position_new_id
          min_absorb1 max_absorb2)
    moreover have "Range_intersectRanges a b = Some c"
      using False by (simp only: Range_intersectRanges_cases [OF assms] Let_def c_def if_False)
    ultimately show ?thesis
      unfolding inter by (simp add: c_def)
  qed
  have "range_set a \<inter> range_set b \<noteq> {} \<longleftrightarrow> ?s \<le> ?e"
    unfolding inter by (rule between_nonempty_iff)
  also have "\<dots> \<longleftrightarrow> Range_areIntersectingOrTouching a b"
    using assms by (simp add: Range_areIntersectingOrTouching_iff range_wf_def)
  finally show "Range_areIntersectingOrTouching a b \<longleftrightarrow> range_set a \<inter> range_set b \<noteq> {}" ..
qed

theorem Range_intersectRanges_correct_witness:
  "range_set (Range_new 1 4 2 1) = range_set (Range_new 1 1 2 1) \<inter> range_set (Range_new 1 4 5 1)"
  using Range_intersectRanges_correct [of "Range_new 1 1 2 1" "Range_new 1 4 5 1"]
  by (simp add: Range_intersectRanges_def Range_new_def range_wf_def range_defs)

text \<open>\<open>areIntersecting\<close> holds exactly when each range starts strictly before the other ends: ranges
  that only touch do not intersect, although the comment on the method says that touching ranges
  yield true. Its order-free form also gives symmetry.\<close>

theorem Range_areIntersecting_strict:
  "(Range_areIntersecting a b \<longleftrightarrow>
      Range_getStartPosition a < Range_getEndPosition b \<and> Range_getStartPosition b < Range_getEndPosition a)
   \<and> Range_areIntersecting a b = Range_areIntersecting b a
   \<and> \<not> Range_areIntersecting (Range_new 1 1 1 5) (Range_new 1 5 1 9)"
  by (auto simp: Range_areIntersecting_def Range_new_def range_defs)

text \<open>\<open>areOnlyIntersecting\<close> accepts ranges that share no position at all: one column or one line of
  distance still passes.\<close>

lemma Range_areOnlyIntersecting_adjacent:
  "Range_areOnlyIntersecting (Range_new 1 1 1 5) (Range_new 1 6 1 9)
   \<and> Range_areOnlyIntersecting (Range_new 1 1 1 5) (Range_new 2 3 2 9)"
  by (simp add: Range_areOnlyIntersecting_def Range_new_def)

definition range_int32 :: "'a range_scheme \<Rightarrow> bool" where
  "range_int32 r \<longleftrightarrow> position_int32 (Range_getStartPosition r) \<and> position_int32 (Range_getEndPosition r)"

text \<open>The two comparison functions for sorting ranges decide the two lexicographic orders: by start,
  then end, on ranges whose fields fit 32 bits; by end, then start, on all ranges. In particular they
  return 0 only on equal ranges.\<close>

theorem Range_compare_orders:
  fixes a b :: range
  assumes "range_int32 a" and "range_int32 b"
  defines "sa \<equiv> Range_getStartPosition a" and "ea \<equiv> Range_getEndPosition a"
    and "sb \<equiv> Range_getStartPosition b" and "eb \<equiv> Range_getEndPosition b"
  shows "(Range_compareRangesUsingStarts (Some a) (Some b) < 0 \<longleftrightarrow> sa < sb \<or> sa = sb \<and> ea < eb)
       \<and> (Range_compareRangesUsingStarts (Some a) (Some b) = 0 \<longleftrightarrow> a = b)
       \<and> (Range_compareRangesUsingEnds a b < 0 \<longleftrightarrow> ea < eb \<or> ea = eb \<and> sa < sb)
       \<and> (Range_compareRangesUsingEnds a b = 0 \<longleftrightarrow> a = b)"
proof -
  have id: "toInt32 (startLineNumber a) = startLineNumber a" "toInt32 (startColumn a) = startColumn a"
    "toInt32 (endLineNumber a) = endLineNumber a" "toInt32 (endColumn a) = endColumn a"
    "toInt32 (startLineNumber b) = startLineNumber b" "toInt32 (startColumn b) = startColumn b"
    "toInt32 (endLineNumber b) = endLineNumber b" "toInt32 (endColumn b) = endColumn b"
    using assms(1,2)
    by (simp_all add: range_int32_def position_int32_def toInt32_id Range_getStartPosition_def
        Range_getEndPosition_def)
  show ?thesis
    unfolding sa_def ea_def sb_def eb_def range_eq_iff
    by (simp add: Range_compareRangesUsingStarts_def Range_compareRangesUsingEnds_def Let_def id range_defs)
qed

theorem Range_compare_orders_witness:
  "Range_compareRangesUsingStarts (Some (Range_new 1 1 2 2)) (Some (Range_new 1 1 2 3)) < 0"
proof -
  have "range_int32 (Range_new 1 1 2 2)" "range_int32 (Range_new 1 1 2 3)"
    by (simp_all add: range_int32_def position_int32_def int32_def Range_new_def range_defs)
  from Range_compare_orders [OF this] show ?thesis
    by (simp add: Range_new_def range_defs)
qed

end
