(* ===== verification/Interval_Lists.thy ===== *)
theory Interval_Lists
  imports Prelude
begin

text \<open>
  Two classes of the editor core are half-open integer intervals with different field names: offset
  ranges and line ranges. This theory states what they share as a locale over the two accessors and
  the constructor, together with the laws of sorted lists of such intervals that never touch, which
  is the invariant of both interval set classes. The components interpret the locale on their own
  records.
\<close>

text \<open>Sorted, with at least one missing integer between neighbours; empty intervals may occur.\<close>

definition separated :: "('r \<Rightarrow> int) \<Rightarrow> ('r \<Rightarrow> int) \<Rightarrow> 'r list \<Rightarrow> bool" where
  "separated lo hi rs \<longleftrightarrow> sorted_wrt (\<lambda>a b. hi a < lo b) rs \<and> (\<forall>r \<in> set rs. lo r \<le> hi r)"

text \<open>The integers that the intervals of a list contain.\<close>

definition covered :: "('r \<Rightarrow> int) \<Rightarrow> ('r \<Rightarrow> int) \<Rightarrow> 'r list \<Rightarrow> int set" where
  "covered lo hi rs = (\<Union>r \<in> set rs. {lo r ..< hi r})"

lemma covered_simps [simp]:
  "covered lo hi [] = {}"
  "covered lo hi (r # rs) = {lo r ..< hi r} \<union> covered lo hi rs"
  "covered lo hi (rs @ ss) = covered lo hi rs \<union> covered lo hi ss"
  by (auto simp: covered_def)

lemma separated_Nil [simp]: "separated lo hi []"
  by (simp add: separated_def)

lemma separated_Cons:
  "separated lo hi (r # rs) \<longleftrightarrow>
     lo r \<le> hi r \<and> (\<forall>s \<in> set rs. hi r < lo s) \<and> separated lo hi rs"
  by (auto simp: separated_def)

lemma separated_append:
  "separated lo hi (rs @ ss) \<longleftrightarrow>
     separated lo hi rs \<and> separated lo hi ss \<and> (\<forall>r \<in> set rs. \<forall>s \<in> set ss. hi r < lo s)"
  by (auto simp: separated_def sorted_wrt_append)

lemma finite_covered [simp]: "finite (covered lo hi rs)"
  by (simp add: covered_def)

lemma card_covered:
  "separated lo hi rs \<Longrightarrow> int (card (covered lo hi rs)) = (\<Sum>r \<leftarrow> rs. hi r - lo r)"
proof (induction rs)
  case (Cons r rs)
  have "{lo r ..< hi r} \<inter> covered lo hi rs = {}"
    using Cons.prems by (fastforce simp: separated_Cons covered_def)
  then have "card (covered lo hi (r # rs)) = card {lo r ..< hi r} + card (covered lo hi rs)"
    by (simp add: card_Un_disjoint)
  then show ?case using Cons by (simp add: separated_Cons)
qed simp

text \<open>In a separated list later intervals lie entirely behind earlier ones.\<close>

lemma separated_bounds:
  "separated lo hi M \<Longrightarrow> m \<in> set M \<Longrightarrow> lo (hd M) \<le> lo m \<and> hi m \<le> hi (last M)"
proof (induction M)
  case (Cons a M)
  show ?case
  proof (cases "M = []")
    case False
    have sep: "separated lo hi M" and a: "lo a \<le> hi a" and lt: "\<forall>s \<in> set M. hi a < lo s"
      and wf: "\<forall>s \<in> set M. lo s \<le> hi s"
      using Cons.prems(1) by (auto simp: separated_Cons separated_def)
    have "last M \<in> set M" using False by simp
    then have "hi a < hi (last M)" using lt wf by force
    moreover have "lo a \<le> lo m" "m \<noteq> a \<longrightarrow> hi m \<le> hi (last M)"
      using Cons.IH [OF sep] Cons.prems(2) lt a by auto
    ultimately show ?thesis using False by auto
  qed (use Cons in auto)
qed simp

text \<open>The prefix that ends strictly before an offset and the following block that starts by another
  offset, as the loops and the binary searches of the set classes find them.\<close>

lemma separated_falls:
  assumes "separated lo hi rs"
  shows "sorted_wrt (\<lambda>x y. hi y < v \<longrightarrow> hi x < v) rs"
    and "sorted_wrt (\<lambda>x y. hi y \<le> v \<longrightarrow> hi x \<le> v) rs"
    and "sorted_wrt (\<lambda>x y. lo y \<le> v \<longrightarrow> lo x \<le> v) rs"
    and "sorted_wrt (\<lambda>x y. lo y < v \<longrightarrow> lo x < v) rs"
  using assms by (induction rs) (fastforce simp: separated_Cons separated_def)+

lemma takeWhile_split:
  assumes "sorted_wrt (\<lambda>x y. p y \<longrightarrow> p x) rs" and "y \<in> set (dropWhile p rs)"
  shows "\<not> p y"
  using assms by (induction rs) (auto split: if_splits)

locale interval_class =
  fixes lo :: "'r \<Rightarrow> int" and hi :: "'r \<Rightarrow> int" and mk :: "int \<Rightarrow> int \<Rightarrow> 'r"
  assumes lo_mk [simp]: "lo (mk a b) = a"
    and hi_mk [simp]: "hi (mk a b) = b"
begin

lemma insert_separated:
  assumes "separated lo hi (A @ B)" and "lo x \<le> hi x"
    and "\<forall>a \<in> set A. hi a < lo x" and "\<forall>b \<in> set B. hi x < lo b"
  shows "separated lo hi (A @ [x] @ B)"
    and "covered lo hi (A @ [x] @ B) = covered lo hi (A @ B) \<union> {lo x ..< hi x}"
  using assms by (auto simp: separated_append separated_Cons)

lemma replace_separated:
  assumes sep: "separated lo hi (A @ M @ B)" and "M \<noteq> []" and x: "lo x \<le> hi x"
    and A: "\<forall>a \<in> set A. hi a < lo x" and B: "\<forall>b \<in> set B. hi x < lo b"
    and M: "\<forall>m \<in> set M. lo x \<le> hi m \<and> lo m \<le> hi x"
  defines "j \<equiv> mk (min (lo x) (lo (hd M))) (max (hi x) (hi (last M)))"
  shows "separated lo hi (A @ [j] @ B)"
    and "covered lo hi (A @ [j] @ B) = covered lo hi (A @ M @ B) \<union> {lo x ..< hi x}"
proof -
  have sepM: "separated lo hi M" and hd: "hd M \<in> set M" and last: "last M \<in> set M"
    using sep \<open>M \<noteq> []\<close> by (auto simp: separated_append)
  have AB: "separated lo hi A" "separated lo hi B"
    and Alo: "\<forall>a \<in> set A. hi a < lo j" and Bhi: "\<forall>b \<in> set B. hi j < lo b"
    using sep A B hd last by (auto simp: separated_append j_def)
  have "\<forall>a \<in> set A. \<forall>b \<in> set B. hi a < lo b"
    using sep by (auto simp: separated_append)
  moreover have "lo j \<le> hi j" using x by (auto simp: j_def)
  ultimately show "separated lo hi (A @ [j] @ B)"
    using AB Alo Bhi by (auto simp: separated_append separated_Cons)
  have "{lo j ..< hi j} \<subseteq> covered lo hi M \<union> {lo x ..< hi x}"
  proof
    fix n assume n: "n \<in> {lo j ..< hi j}"
    have "lo (hd M) \<le> hi x" "lo x \<le> hi (last M)" using M hd last by auto
    show "n \<in> covered lo hi M \<union> {lo x ..< hi x}"
    proof (cases "n < lo x")
      case True
      then have "n \<in> {lo (hd M) ..< hi (hd M)}"
        using n M hd by (fastforce simp: j_def)
      then show ?thesis using hd by (auto simp: covered_def)
    next
      case False
      show ?thesis
      proof (cases "n < hi x")
        case False
        then have "n \<in> {lo (last M) ..< hi (last M)}"
          using n M last x by (fastforce simp: j_def)
        then show ?thesis using last by (auto simp: covered_def)
      qed (use \<open>\<not> n < lo x\<close> in auto)
    qed
  qed
  moreover have "covered lo hi M \<union> {lo x ..< hi x} \<subseteq> {lo j ..< hi j}"
    using separated_bounds [OF sepM] by (fastforce simp: covered_def j_def)
  ultimately show "covered lo hi (A @ [j] @ B) = covered lo hi (A @ M @ B) \<union> {lo x ..< hi x}"
    by auto
qed

text \<open>The split every insertion works on.\<close>

lemma insertion_split:
  assumes sep: "separated lo hi rs"
  obtains A M B where "A = takeWhile (\<lambda>r. hi r < l) rs"
    and "M = takeWhile (\<lambda>r. lo r \<le> h) (dropWhile (\<lambda>r. hi r < l) rs)"
    and "rs = A @ M @ B" and "\<forall>a \<in> set A. hi a < l"
    and "\<forall>m \<in> set M. l \<le> hi m \<and> lo m \<le> h" and "\<forall>b \<in> set B. h < lo b"
proof
  let ?R = "dropWhile (\<lambda>r. hi r < l) rs"
  let ?B = "dropWhile (\<lambda>r. lo r \<le> h) ?R"
  show "rs = takeWhile (\<lambda>r. hi r < l) rs @ takeWhile (\<lambda>r. lo r \<le> h) ?R @ ?B" by simp
  show "\<forall>a \<in> set (takeWhile (\<lambda>r. hi r < l) rs). hi a < l" by (auto dest: set_takeWhileD)
  have "separated lo hi (takeWhile (\<lambda>r. hi r < l) rs @ ?R)" using sep by simp
  then have sepR: "separated lo hi ?R" by (simp only: separated_append)
  have "\<forall>r \<in> set ?R. l \<le> hi r"
    using takeWhile_split [OF separated_falls(1) [OF sep, of l]] by (meson not_less)
  then show "\<forall>m \<in> set (takeWhile (\<lambda>r. lo r \<le> h) ?R). l \<le> hi m \<and> lo m \<le> h"
    by (metis set_takeWhileD)
  show "\<forall>b \<in> set ?B. h < lo b"
    using takeWhile_split [OF separated_falls(3) [OF sepR, of h]] by (meson not_le)
qed (rule refl)+

end

end
