(* ===== verification/Offset_Range.thy ===== *)
theory Offset_Range
  imports Interval_Lists
begin

text \<open>
  Offset ranges: \<open>src/vs/editor/common/core/ranges/offsetRange.ts\<close>. An \<open>OffsetRange\<close> is a half-open
  interval of offsets whose constructor throws when the start lies after the end; the methods that
  construct ranges are therefore results that may be \<open>Inl BugIndicatingError\<close>. An \<open>OffsetRangeSet\<close>
  is its sorted array of ranges. \<open>or_set\<close> and \<open>ors_set\<close> give the offsets they contain.
\<close>

record OffsetRange =
  start :: int
  endExclusive :: int

definition OffsetRange_new :: "int \<Rightarrow> int \<Rightarrow> OffsetRange result" where
  "OffsetRange_new s e =
     (if s > e then Inl BugIndicatingError else Inr \<lparr>start = s, endExclusive = e\<rparr>)"

definition OffsetRange_fromTo :: "int \<Rightarrow> int \<Rightarrow> OffsetRange result" where
  "OffsetRange_fromTo s e = OffsetRange_new s e"

definition OffsetRange_equals :: "OffsetRange \<Rightarrow> OffsetRange \<Rightarrow> bool" where
  "OffsetRange_equals r1 r2 \<longleftrightarrow> start r1 = start r2 \<and> endExclusive r1 = endExclusive r2"

definition OffsetRange_addRange :: "OffsetRange \<Rightarrow> OffsetRange list \<Rightarrow> OffsetRange list result" where
  "OffsetRange_addRange rng sortedRanges =
     (let i = skipWhile (\<lambda>r. endExclusive r < start rng) sortedRanges 0;
          j = skipWhile (\<lambda>r. start r \<le> endExclusive rng) sortedRanges i
      in if i = j then Inr (js_splice sortedRanges (int i) 0 [rng])
         else bindr (OffsetRange_new (min (start rng) (start (sortedRanges ! i)))
                       (max (endExclusive rng) (endExclusive (sortedRanges ! (j - 1)))))
                (\<lambda>joined. Inr (js_splice sortedRanges (int i) (int j - int i) [joined])))"

definition OffsetRange_tryCreate :: "int \<Rightarrow> int \<Rightarrow> OffsetRange option result" where
  "OffsetRange_tryCreate s e =
     (if s > e then Inr None else bindr (OffsetRange_new s e) (\<lambda>r. Inr (Some r)))"

definition OffsetRange_ofLength :: "int \<Rightarrow> OffsetRange result" where
  "OffsetRange_ofLength len = OffsetRange_new 0 len"

definition OffsetRange_ofStartAndLength :: "int \<Rightarrow> int \<Rightarrow> OffsetRange result" where
  "OffsetRange_ofStartAndLength s len = OffsetRange_new s (s + len)"

definition OffsetRange_emptyAt :: "int \<Rightarrow> OffsetRange result" where
  "OffsetRange_emptyAt offset = OffsetRange_new offset offset"

definition OffsetRange_isEmpty :: "OffsetRange \<Rightarrow> bool" where
  "OffsetRange_isEmpty r \<longleftrightarrow> start r = endExclusive r"

definition OffsetRange_delta :: "OffsetRange \<Rightarrow> int \<Rightarrow> OffsetRange result" where
  "OffsetRange_delta r offset = OffsetRange_new (start r + offset) (endExclusive r + offset)"

definition OffsetRange_deltaStart :: "OffsetRange \<Rightarrow> int \<Rightarrow> OffsetRange result" where
  "OffsetRange_deltaStart r offset = OffsetRange_new (start r + offset) (endExclusive r)"

definition OffsetRange_deltaEnd :: "OffsetRange \<Rightarrow> int \<Rightarrow> OffsetRange result" where
  "OffsetRange_deltaEnd r offset = OffsetRange_new (start r) (endExclusive r + offset)"

definition OffsetRange_length :: "OffsetRange \<Rightarrow> int" where
  "OffsetRange_length r = endExclusive r - start r"

definition OffsetRange_toString :: "OffsetRange \<Rightarrow> string" where
  "OffsetRange_toString r = ''['' @ int_str (start r) @ '', '' @ int_str (endExclusive r) @ '')''"

definition OffsetRange_containsRange :: "OffsetRange \<Rightarrow> OffsetRange \<Rightarrow> bool" where
  "OffsetRange_containsRange r other \<longleftrightarrow> start r \<le> start other \<and> endExclusive other \<le> endExclusive r"

definition OffsetRange_contains :: "OffsetRange \<Rightarrow> int \<Rightarrow> bool" where
  "OffsetRange_contains r offset \<longleftrightarrow> start r \<le> offset \<and> offset < endExclusive r"

definition OffsetRange_join :: "OffsetRange \<Rightarrow> OffsetRange \<Rightarrow> OffsetRange result" where
  "OffsetRange_join r other =
     OffsetRange_new (min (start r) (start other)) (max (endExclusive r) (endExclusive other))"

definition OffsetRange_intersect :: "OffsetRange \<Rightarrow> OffsetRange \<Rightarrow> OffsetRange option result" where
  "OffsetRange_intersect r other =
     (let s = max (start r) (start other); e = min (endExclusive r) (endExclusive other)
      in if s \<le> e then bindr (OffsetRange_new s e) (\<lambda>x. Inr (Some x)) else Inr None)"

definition OffsetRange_intersectionLength :: "OffsetRange \<Rightarrow> OffsetRange \<Rightarrow> int" where
  "OffsetRange_intersectionLength r other =
     (let s = max (start r) (start other); e = min (endExclusive r) (endExclusive other)
      in max 0 (e - s))"

definition OffsetRange_intersects :: "OffsetRange \<Rightarrow> OffsetRange \<Rightarrow> bool" where
  "OffsetRange_intersects r other =
     (let s = max (start r) (start other); e = min (endExclusive r) (endExclusive other) in s < e)"

definition OffsetRange_intersectsOrTouches :: "OffsetRange \<Rightarrow> OffsetRange \<Rightarrow> bool" where
  "OffsetRange_intersectsOrTouches r other =
     (let s = max (start r) (start other); e = min (endExclusive r) (endExclusive other) in s \<le> e)"

definition OffsetRange_isBefore :: "OffsetRange \<Rightarrow> OffsetRange \<Rightarrow> bool" where
  "OffsetRange_isBefore r other \<longleftrightarrow> endExclusive r \<le> start other"

definition OffsetRange_isAfter :: "OffsetRange \<Rightarrow> OffsetRange \<Rightarrow> bool" where
  "OffsetRange_isAfter r other \<longleftrightarrow> start r \<ge> endExclusive other"

definition OffsetRange_slice :: "OffsetRange \<Rightarrow> 'a list \<Rightarrow> 'a list" where
  "OffsetRange_slice r arr = js_slice arr (start r) (endExclusive r)"

definition OffsetRange_substring :: "OffsetRange \<Rightarrow> 'a list \<Rightarrow> 'a list" where
  "OffsetRange_substring r str = js_substring str (start r) (endExclusive r)"

definition OffsetRange_clip :: "OffsetRange \<Rightarrow> int \<Rightarrow> int result" where
  "OffsetRange_clip r v =
     (if OffsetRange_isEmpty r then Inl BugIndicatingError
      else Inr (max (start r) (min (endExclusive r - 1) v)))"

definition OffsetRange_clipCyclic :: "OffsetRange \<Rightarrow> int \<Rightarrow> int result" where
  "OffsetRange_clipCyclic r v =
     (if OffsetRange_isEmpty r then Inl BugIndicatingError
      else if v < start r then Inr (endExclusive r - js_rem (start r - v) (OffsetRange_length r))
      else if v \<ge> endExclusive r then Inr (start r + js_rem (v - start r) (OffsetRange_length r))
      else Inr v)"

definition OffsetRange_map :: "OffsetRange \<Rightarrow> (int \<Rightarrow> 'a) \<Rightarrow> 'a list" where
  "OffsetRange_map r f = map f [start r .. endExclusive r - 1]"

text \<open>\<open>forEach\<close> runs an effect for each offset in order; the effect acts on an explicit state.\<close>

definition OffsetRange_forEach :: "OffsetRange \<Rightarrow> (int \<Rightarrow> 's \<Rightarrow> 's) \<Rightarrow> 's \<Rightarrow> 's" where
  "OffsetRange_forEach r f s = fold f [start r .. endExclusive r - 1] s"

definition OffsetRange_joinRightTouching :: "OffsetRange \<Rightarrow> OffsetRange \<Rightarrow> OffsetRange result" where
  "OffsetRange_joinRightTouching r other =
     (if endExclusive r \<noteq> start other then Inl BugIndicatingError
      else OffsetRange_new (start r) (endExclusive other))"

definition OffsetRange_withMargin :: "OffsetRange \<Rightarrow> int \<Rightarrow> int option \<Rightarrow> OffsetRange result" where
  "OffsetRange_withMargin r marginStart marginEnd =
     (let m = (case marginEnd of None \<Rightarrow> marginStart | Some x \<Rightarrow> x)
      in OffsetRange_new (start r - marginStart) (endExclusive r + m))"

section \<open>Sets of offset ranges\<close>

record OffsetRangeSet =
  sortedRanges :: "OffsetRange list"

definition OffsetRangeSet_empty :: OffsetRangeSet where
  "OffsetRangeSet_empty = \<lparr>sortedRanges = []\<rparr>"

definition OffsetRangeSet_addRange :: "OffsetRangeSet \<Rightarrow> OffsetRange \<Rightarrow> OffsetRangeSet result" where
  "OffsetRangeSet_addRange this rng =
     (let rs = sortedRanges this;
          i = skipWhile (\<lambda>r. endExclusive r < start rng) rs 0;
          j = skipWhile (\<lambda>r. start r \<le> endExclusive rng) rs i
      in if i = j then Inr (this\<lparr>sortedRanges := js_splice rs (int i) 0 [rng]\<rparr>)
         else bindr (OffsetRange_new (min (start rng) (start (rs ! i)))
                       (max (endExclusive rng) (endExclusive (rs ! (j - 1)))))
                (\<lambda>joined. Inr (this\<lparr>sortedRanges := js_splice rs (int i) (int j - int i) [joined]\<rparr>)))"

definition OffsetRangeSet_toString :: "OffsetRangeSet \<Rightarrow> string" where
  "OffsetRangeSet_toString this = join_str '', '' (map OffsetRange_toString (sortedRanges this))"

definition OffsetRangeSet_intersectsStrict :: "OffsetRangeSet \<Rightarrow> OffsetRange \<Rightarrow> bool" where
  "OffsetRangeSet_intersectsStrict this other =
     (let rs = sortedRanges this; i = skipWhile (\<lambda>r. endExclusive r \<le> start other) rs 0
      in i < length rs \<and> start (rs ! i) < endExclusive other)"

fun OffsetRangeSet_intersectWithRange_loop ::
  "OffsetRange list \<Rightarrow> OffsetRange \<Rightarrow> OffsetRangeSet \<Rightarrow> OffsetRangeSet result" where
  "OffsetRangeSet_intersectWithRange_loop [] other res = Inr res"
| "OffsetRangeSet_intersectWithRange_loop (rng # rs) other res =
     bindr (OffsetRange_intersect rng other) (\<lambda>i.
       case i of None \<Rightarrow> OffsetRangeSet_intersectWithRange_loop rs other res
       | Some x \<Rightarrow> bindr (OffsetRangeSet_addRange res x) (\<lambda>res'.
           OffsetRangeSet_intersectWithRange_loop rs other res'))"

definition OffsetRangeSet_intersectWithRange ::
  "OffsetRangeSet \<Rightarrow> OffsetRange \<Rightarrow> OffsetRangeSet result" where
  "OffsetRangeSet_intersectWithRange this other =
     OffsetRangeSet_intersectWithRange_loop (sortedRanges this) other OffsetRangeSet_empty"

definition OffsetRangeSet_length :: "OffsetRangeSet \<Rightarrow> int" where
  "OffsetRangeSet_length this = foldl (\<lambda>prev cur. prev + OffsetRange_length cur) 0 (sortedRanges this)"

definition OffsetRangeSet_intersectWithRangeLength :: "OffsetRangeSet \<Rightarrow> OffsetRange \<Rightarrow> int result" where
  "OffsetRangeSet_intersectWithRangeLength this other =
     bindr (OffsetRangeSet_intersectWithRange this other) (\<lambda>s. Inr (OffsetRangeSet_length s))"

section \<open>Laws of offset ranges\<close>

definition or_wf :: "OffsetRange \<Rightarrow> bool" where
  "or_wf r \<longleftrightarrow> start r \<le> endExclusive r"

definition or_set :: "OffsetRange \<Rightarrow> int set" where
  "or_set r = {start r ..< endExclusive r}"

definition OR :: "int \<Rightarrow> int \<Rightarrow> OffsetRange" where
  "OR s e = \<lparr>start = s, endExclusive = e\<rparr>"

lemma OR_sel [simp]: "start (OR s e) = s" "endExclusive (OR s e) = e"
  by (simp_all add: OR_def)

lemma OR_collapse [simp]: "OR (start r) (endExclusive r) = r"
  by (simp add: OR_def)

lemma OffsetRange_new_eq: "OffsetRange_new s e = (if s \<le> e then Inr (OR s e) else Inl BugIndicatingError)"
  by (simp add: OffsetRange_new_def OR_def)

lemma OffsetRange_new_Inr [simp]: "s \<le> e \<Longrightarrow> OffsetRange_new s e = Inr (OR s e)"
  by (simp add: OffsetRange_new_eq)

lemma OffsetRange_new_eq_Inr_iff: "OffsetRange_new s e = Inr r \<longleftrightarrow> s \<le> e \<and> r = OR s e"
  by (auto simp: OffsetRange_new_eq)

lemma OffsetRange_contains_iff: "OffsetRange_contains r n \<longleftrightarrow> n \<in> or_set r"
  by (auto simp: OffsetRange_contains_def or_set_def)

lemma OffsetRange_isEmpty_iff: "or_wf r \<Longrightarrow> OffsetRange_isEmpty r \<longleftrightarrow> or_set r = {}"
  by (auto simp: OffsetRange_isEmpty_def or_set_def or_wf_def)

lemma OffsetRange_equals_iff: "OffsetRange_equals a b \<longleftrightarrow> a = b"
  by (cases a; cases b) (auto simp: OffsetRange_equals_def)

lemma OffsetRange_intersect_eq:
  "OffsetRange_intersect a b =
     (let s = max (start a) (start b); e = min (endExclusive a) (endExclusive b)
      in Inr (if s \<le> e then Some (OR s e) else None))"
  by (simp add: OffsetRange_intersect_def Let_def)

interpretation offset_interval: interval_class start endExclusive OR
  by unfold_locales simp_all

text \<open>Join and intersection of well-formed ranges never throw. The join is the smallest range
  containing both; the intersection contains exactly the common offsets, is undefined only when there
  is none, and \<open>intersects\<close> and \<open>intersectionLength\<close> decide whether there is one and how many.\<close>

theorem OffsetRange_join_intersect:
  assumes "or_wf a" and "or_wf b"
  shows "(\<exists>j. OffsetRange_join a b = Inr j \<and> or_wf j \<and>
            (\<forall>c. OffsetRange_containsRange c j \<longleftrightarrow>
                 OffsetRange_containsRange c a \<and> OffsetRange_containsRange c b))
       \<and> (\<exists>i. OffsetRange_intersect a b = Inr i \<and>
            (case i of None \<Rightarrow> {} | Some x \<Rightarrow> or_set x) = or_set a \<inter> or_set b)
       \<and> (OffsetRange_intersects a b \<longleftrightarrow> or_set a \<inter> or_set b \<noteq> {})
       \<and> OffsetRange_intersectionLength a b = int (card (or_set a \<inter> or_set b))"
proof (intro conjI)
  show "\<exists>j. OffsetRange_join a b = Inr j \<and> or_wf j \<and>
            (\<forall>c. OffsetRange_containsRange c j \<longleftrightarrow>
                 OffsetRange_containsRange c a \<and> OffsetRange_containsRange c b)"
    using assms by (auto simp: OffsetRange_join_def or_wf_def OffsetRange_containsRange_def)
  show "\<exists>i. OffsetRange_intersect a b = Inr i \<and>
            (case i of None \<Rightarrow> {} | Some x \<Rightarrow> or_set x) = or_set a \<inter> or_set b"
    by (auto simp: OffsetRange_intersect_eq or_set_def Let_def)
  show "OffsetRange_intersects a b \<longleftrightarrow> or_set a \<inter> or_set b \<noteq> {}"
    by (auto simp: OffsetRange_intersects_def or_set_def Let_def)
  show "OffsetRange_intersectionLength a b = int (card (or_set a \<inter> or_set b))"
    by (auto simp: OffsetRange_intersectionLength_def or_set_def Let_def)
qed

theorem OffsetRange_join_intersect_witness:
  "or_set (OR 2 5) \<inter> or_set (OR 4 9) \<noteq> {} \<and> OffsetRange_intersectionLength (OR 2 5) (OR 4 9) = 1"
proof -
  have "or_wf (OR 2 5)" "or_wf (OR 4 9)" by (simp_all add: or_wf_def)
  from OffsetRange_join_intersect [OF this] show ?thesis
    by (simp add: OffsetRange_intersects_def OffsetRange_intersectionLength_def Let_def)
qed

text \<open>\<open>clip\<close> returns the contained offset closest to its argument. \<open>clipCyclic\<close> returns a value that
  differs from its argument by a multiple of the length and lies between the start and the end of the
  range, but it is contained in the range exactly when the argument does not lie a positive multiple
  of the length before the start: for those arguments it returns the exclusive end.\<close>

theorem OffsetRange_clip_spec:
  assumes "start r < endExclusive r"
  shows "(\<exists>c. OffsetRange_clip r v = Inr c \<and> OffsetRange_contains r c \<and>
            (\<forall>n. OffsetRange_contains r n \<longrightarrow> \<bar>v - c\<bar> \<le> \<bar>v - n\<bar>))
       \<and> (\<exists>c. OffsetRange_clipCyclic r v = Inr c \<and> start r \<le> c \<and> c \<le> endExclusive r \<and>
            OffsetRange_length r dvd c - v \<and>
            (OffsetRange_contains r c \<longleftrightarrow>
               \<not> (v < start r \<and> OffsetRange_length r dvd start r - v)))"
proof (rule conjI)
  have ne: "\<not> OffsetRange_isEmpty r" using assms by (simp add: OffsetRange_isEmpty_def)
  define n where "n = endExclusive r - start r"
  then have n: "0 < n" "endExclusive r = start r + n" using assms by simp_all
  show "\<exists>c. OffsetRange_clip r v = Inr c \<and> OffsetRange_contains r c \<and>
            (\<forall>n. OffsetRange_contains r n \<longrightarrow> \<bar>v - c\<bar> \<le> \<bar>v - n\<bar>)"
    using assms ne by (auto simp: OffsetRange_clip_def OffsetRange_contains_def)
  consider "v < start r" | "start r \<le> v" "v < start r + n" | "start r + n \<le> v" by linarith
  then show "\<exists>c. OffsetRange_clipCyclic r v = Inr c \<and> start r \<le> c \<and> c \<le> endExclusive r \<and>
            OffsetRange_length r dvd c - v \<and>
            (OffsetRange_contains r c \<longleftrightarrow>
               \<not> (v < start r \<and> OffsetRange_length r dvd start r - v))"
  proof cases
    case 1
    define m where "m = (start r - v) mod n"
    have m: "0 \<le> m" "m < n" "n dvd start r - v - m" "m = 0 \<longleftrightarrow> n dvd start r - v"
      using n(1) by (auto simp: m_def minus_mod_eq_mult_div dvd_eq_mod_eq_0)
    have "start r + n - m - v = (start r - v - m) + n" by simp
    then have "n dvd start r + n - m - v" using m(3) by (metis dvd_add_triv_right_iff)
    then show ?thesis
      using 1 ne n m
      by (auto simp: OffsetRange_clipCyclic_def OffsetRange_length_def js_rem_nonneg
          OffsetRange_contains_def simp flip: m_def)
  next
    case 2
    then show ?thesis
      using ne n by (auto simp: OffsetRange_clipCyclic_def OffsetRange_contains_def OffsetRange_length_def)
  next
    case 3
    define m where "m = (v - start r) mod n"
    have m: "0 \<le> m" "m < n" "n dvd v - start r - m"
      using n(1) by (auto simp: m_def minus_mod_eq_mult_div)
    have "start r + m - v = - (v - start r - m)" by simp
    then have "n dvd start r + m - v" using m(3) by (metis dvd_minus_iff)
    then show ?thesis
      using 3 ne n m
      by (auto simp: OffsetRange_clipCyclic_def OffsetRange_length_def js_rem_nonneg
          OffsetRange_contains_def simp flip: m_def)
  qed
qed

theorem OffsetRange_clip_spec_witness:
  "OffsetRange_clipCyclic (OR 5 10) 0 = Inr 10 \<and> \<not> OffsetRange_contains (OR 5 10) 10
   \<and> OffsetRange_clipCyclic (OR 5 10) 4 = Inr 9 \<and> OffsetRange_contains (OR 5 10) 9"
proof -
  have "start (OR 5 10) < endExclusive (OR 5 10)" by simp
  note spec = OffsetRange_clip_spec [OF this, of 0] OffsetRange_clip_spec [OF this, of 4]
  show ?thesis
    using spec
    by (simp add: OffsetRange_clipCyclic_def OffsetRange_isEmpty_def OffsetRange_length_def
        js_rem_def OffsetRange_contains_def)
qed

section \<open>Laws of offset range sets\<close>

text \<open>The invariant of the set: sorted and never touching, each range well formed.\<close>

definition ors_wf :: "OffsetRangeSet \<Rightarrow> bool" where
  "ors_wf s \<longleftrightarrow> separated start endExclusive (sortedRanges s)"

definition ors_set :: "OffsetRangeSet \<Rightarrow> int set" where
  "ors_set s = covered start endExclusive (sortedRanges s)"

lemma addRange_indices:
  assumes "A = takeWhile p rs" and "M = takeWhile q (dropWhile p rs)"
  shows "skipWhile p rs 0 = length A" and "skipWhile q rs (length A) = length A + length M"
proof -
  show "skipWhile p rs 0 = length A" by (simp add: skipWhile_eq assms(1))
  have "rs = A @ dropWhile p rs" by (simp add: assms(1))
  then show "skipWhile q rs (length A) = length A + length M"
    by (metis skipWhile_append assms(2))
qed

lemma OffsetRange_addRange_correct:
  assumes sep: "separated start endExclusive rs" and x: "or_wf x"
  shows "\<exists>rs'. OffsetRange_addRange x rs = Inr rs' \<and> separated start endExclusive rs'
     \<and> covered start endExclusive rs' = covered start endExclusive rs \<union> or_set x"
proof -
  obtain A M B where A: "A = takeWhile (\<lambda>r. endExclusive r < start x) rs"
    and M: "M = takeWhile (\<lambda>r. start r \<le> endExclusive x) (dropWhile (\<lambda>r. endExclusive r < start x) rs)"
    and parts: "rs = A @ M @ B" "\<forall>a \<in> set A. endExclusive a < start x"
      "\<forall>m \<in> set M. start x \<le> endExclusive m \<and> start m \<le> endExclusive x"
      "\<forall>b \<in> set B. endExclusive x < start b"
    by (rule offset_interval.insertion_split [OF sep])
  note idx = addRange_indices [OF A M]
  have eq: "OffsetRange_addRange x rs =
     (if M = [] then Inr (js_splice rs (int (length A)) 0 [x])
      else bindr (OffsetRange_new (min (start x) (start (rs ! length A)))
                    (max (endExclusive x) (endExclusive (rs ! (length A + length M - 1)))))
             (\<lambda>j. Inr (js_splice rs (int (length A)) (int (length A + length M) - int (length A)) [j])))"
    by (simp add: OffsetRange_addRange_def idx Let_def)
  have le: "start x \<le> endExclusive x" using x by (simp add: or_wf_def)
  show ?thesis
  proof (cases "M = []")
    case True
    have "OffsetRange_addRange x rs = Inr (A @ [x] @ B)"
      unfolding eq using True js_splice_insert [of A B "[x]"] by (simp add: parts(1))
    with offset_interval.insert_separated [OF _ le parts(2,4)] sep parts(1) True
    show ?thesis by (simp add: or_set_def)
  next
    case False
    define j where "j = OR (min (start x) (start (hd M))) (max (endExclusive x) (endExclusive (last M)))"
    have "rs ! length A = hd M" "rs ! (length A + length M - 1) = last M"
      unfolding parts(1) by (rule nth_middle_hd [OF False], rule nth_middle_last [OF False])
    moreover have "min (start x) (start (hd M)) \<le> max (endExclusive x) (endExclusive (last M))"
      using le by simp
    ultimately have "OffsetRange_addRange x rs = Inr (A @ [j] @ B)"
      unfolding eq using False js_splice_middle [of A M B "[j]"] by (simp add: parts(1) j_def)
    with offset_interval.replace_separated [OF _ False le parts(2,4,3), folded j_def] sep parts(1)
    show ?thesis by (simp add: or_set_def)
  qed
qed

lemma OffsetRangeSet_addRange_eq:
  "OffsetRangeSet_addRange s x =
     bindr (OffsetRange_addRange x (sortedRanges s)) (\<lambda>rs. Inr (s\<lparr>sortedRanges := rs\<rparr>))"
  by (auto simp: OffsetRangeSet_addRange_def OffsetRange_addRange_def Let_def OffsetRange_new_def)

text \<open>C36. Adding a well-formed range to an offset range set never throws, keeps the ranges sorted and
  apart, and adds exactly the offsets of the range.\<close>

theorem OffsetRangeSet_addRange_correct:
  assumes "ors_wf s" and "or_wf x"
  shows "\<exists>s'. OffsetRangeSet_addRange s x = Inr s' \<and> ors_wf s' \<and> ors_set s' = ors_set s \<union> or_set x"
proof -
  from OffsetRange_addRange_correct assms obtain rs where
    "OffsetRange_addRange x (sortedRanges s) = Inr rs" "separated start endExclusive rs"
    "covered start endExclusive rs = covered start endExclusive (sortedRanges s) \<union> or_set x"
    unfolding ors_wf_def by blast
  then show ?thesis by (simp add: OffsetRangeSet_addRange_eq ors_wf_def ors_set_def)
qed

theorem OffsetRangeSet_addRange_correct_witness:
  "\<exists>s'. OffsetRangeSet_addRange \<lparr>sortedRanges = [OR 1 3, OR 7 9]\<rparr> (OR 3 8) = Inr s' \<and> ors_wf s'
      \<and> ors_set s' = {1 ..< 9}"
proof -
  have "ors_wf \<lparr>sortedRanges = [OR 1 3, OR 7 9]\<rparr>" "or_wf (OR 3 8)"
    by (simp_all add: ors_wf_def separated_Cons or_wf_def)
  moreover have "ors_set \<lparr>sortedRanges = [OR 1 3, OR 7 9]\<rparr> \<union> or_set (OR 3 8) = {1 ..< 9}"
    by (auto simp: ors_set_def or_set_def)
  ultimately show ?thesis using OffsetRangeSet_addRange_correct by metis
qed

lemma intersectWithRange_loop_correct:
  assumes "ors_wf res" and "\<forall>r \<in> set rs. or_wf r" and "or_wf other"
  shows "\<exists>s'. OffsetRangeSet_intersectWithRange_loop rs other res = Inr s' \<and> ors_wf s'
     \<and> ors_set s' = ors_set res \<union> (covered start endExclusive rs \<inter> or_set other)"
  using assms
proof (induction rs arbitrary: res)
  case (Cons r rs)
  let ?s = "max (start r) (start other)" and ?e = "min (endExclusive r) (endExclusive other)"
  have inter: "{start r ..< endExclusive r} \<inter> or_set other = {?s ..< ?e}"
    by (auto simp: or_set_def)
  show ?case
  proof (cases "?s \<le> ?e")
    case True
    from OffsetRangeSet_addRange_correct [OF Cons.prems(1), of "OR ?s ?e"] True
    obtain s1 where s1: "OffsetRangeSet_addRange res (OR ?s ?e) = Inr s1" "ors_wf s1"
      "ors_set s1 = ors_set res \<union> {?s ..< ?e}"
      by (auto simp: or_wf_def or_set_def)
    from Cons.IH [OF s1(2)] Cons.prems obtain s' where
      "OffsetRangeSet_intersectWithRange_loop rs other s1 = Inr s'" "ors_wf s'"
      "ors_set s' = ors_set s1 \<union> (covered start endExclusive rs \<inter> or_set other)"
      by auto
    with s1 True inter show ?thesis
      by (simp add: OffsetRange_intersect_eq Let_def Int_Un_distrib2 Un_assoc del: max.bounded_iff min.bounded_iff)
  next
    case False
    then have "?e < ?s" by (simp only: not_le)
    then have "{?s ..< ?e} = {}" by (intro atLeastLessThan_empty less_imp_le)
    with Cons False inter show ?thesis
      by (simp add: OffsetRange_intersect_eq Let_def Int_Un_distrib2 del: max.bounded_iff min.bounded_iff)
  qed
qed simp

lemma OffsetRangeSet_length_eq: "ors_wf s \<Longrightarrow> OffsetRangeSet_length s = int (card (ors_set s))"
proof -
  have "foldl (\<lambda>p c. p + OffsetRange_length c) a rs = a + (\<Sum>r \<leftarrow> rs. endExclusive r - start r)" for a rs
    by (induction rs arbitrary: a) (simp_all add: OffsetRange_length_def)
  then show "ors_wf s \<Longrightarrow> ?thesis"
    by (simp add: OffsetRangeSet_length_def ors_wf_def ors_set_def card_covered)
qed

text \<open>Intersecting an offset range set with a range never throws and keeps exactly the offsets in
  both; the length reported for the intersection is the number of common offsets.\<close>

theorem OffsetRangeSet_intersectWithRange_correct:
  assumes "ors_wf s" and "or_wf other"
  shows "\<exists>s'. OffsetRangeSet_intersectWithRange s other = Inr s' \<and> ors_wf s'
            \<and> ors_set s' = ors_set s \<inter> or_set other
            \<and> OffsetRangeSet_intersectWithRangeLength s other = Inr (int (card (ors_set s \<inter> or_set other)))"
proof -
  have "ors_wf OffsetRangeSet_empty" "ors_set OffsetRangeSet_empty = {}"
    by (simp_all add: ors_wf_def ors_set_def OffsetRangeSet_empty_def)
  moreover have "\<forall>r \<in> set (sortedRanges s). or_wf r"
    using assms(1) by (simp add: ors_wf_def separated_def or_wf_def)
  ultimately obtain s' where "OffsetRangeSet_intersectWithRange s other = Inr s'" "ors_wf s'"
    "ors_set s' = ors_set s \<inter> or_set other"
    using intersectWithRange_loop_correct [OF _ _ assms(2), of OffsetRangeSet_empty "sortedRanges s"]
    by (auto simp: OffsetRangeSet_intersectWithRange_def ors_set_def)
  then show ?thesis
    by (simp add: OffsetRangeSet_intersectWithRangeLength_def OffsetRangeSet_length_eq)
qed

theorem OffsetRangeSet_intersectWithRange_correct_witness:
  "OffsetRangeSet_intersectWithRangeLength \<lparr>sortedRanges = [OR 1 3, OR 7 9]\<rparr> (OR 2 8) = Inr 2"
proof -
  have h: "ors_wf \<lparr>sortedRanges = [OR 1 3, OR 7 9]\<rparr>" "or_wf (OR 2 8)"
    by (simp_all add: ors_wf_def separated_Cons or_wf_def)
  have "ors_set \<lparr>sortedRanges = [OR 1 3, OR 7 9]\<rparr> \<inter> or_set (OR 2 8) = {2, 7}"
    by (auto simp: ors_set_def or_set_def)
  then have "int (card (ors_set \<lparr>sortedRanges = [OR 1 3, OR 7 9]\<rparr> \<inter> or_set (OR 2 8))) = 2"
    by simp
  with OffsetRangeSet_intersectWithRange_correct [OF h] show ?thesis by metis
qed

text \<open>On non-empty ranges, \<open>intersectsStrict\<close> decides whether the set and the range have an offset
  in common. For an empty argument it can answer yes although nothing is in common, against its
  comment: \<open>[4, 4)\<close> and the set of \<open>[1, 10)\<close>.\<close>

theorem OffsetRangeSet_intersectsStrict_correct:
  assumes "ors_wf s" and "\<forall>r \<in> set (sortedRanges s). \<not> OffsetRange_isEmpty r"
    and "start other < endExclusive other"
  shows "(OffsetRangeSet_intersectsStrict s other \<longleftrightarrow> ors_set s \<inter> or_set other \<noteq> {})
       \<and> OffsetRangeSet_intersectsStrict \<lparr>sortedRanges = [OR 1 10]\<rparr> (OR 4 4)"
proof
  let ?rs = "sortedRanges s" and ?p = "\<lambda>r. endExclusive r \<le> start other"
  define R where "R = dropWhile ?p ?rs"
  have sep: "separated start endExclusive (takeWhile ?p ?rs @ R)" and
    ne: "\<forall>r \<in> set ?rs. start r < endExclusive r"
    using assms(1,2) by (auto simp: ors_wf_def R_def separated_def OffsetRange_isEmpty_def less_le)
  have out: "covered start endExclusive (takeWhile ?p ?rs) \<inter> or_set other = {}"
    by (force simp: covered_def or_set_def dest: set_takeWhileD)
  have split: "ors_set s = covered start endExclusive (takeWhile ?p ?rs) \<union> covered start endExclusive R"
    unfolding ors_set_def R_def by (metis covered_simps(3) takeWhile_dropWhile_id)
  have idx: "skipWhile ?p ?rs 0 = length (takeWhile ?p ?rs)" by (simp add: skipWhile_eq)
  have rs: "?rs = takeWhile ?p ?rs @ R" by (simp add: R_def)
  have "length ?rs = length (takeWhile ?p ?rs) + length R" by (metis rs length_append)
  then have rs_len: "length (takeWhile ?p ?rs) < length ?rs \<longleftrightarrow> R \<noteq> []" by auto
  have rs_nth: "?rs ! length (takeWhile ?p ?rs) = hd R" if "R \<noteq> []"
    using that by (metis rs nth_append_length_plus add_0_right hd_conv_nth)
  have "OffsetRangeSet_intersectsStrict s other \<longleftrightarrow> R \<noteq> [] \<and> start (hd R) < endExclusive other"
    unfolding OffsetRangeSet_intersectsStrict_def Let_def idx rs_len by (auto simp: rs_nth)
  also have "\<dots> \<longleftrightarrow> covered start endExclusive R \<inter> or_set other \<noteq> {}"
  proof (cases R)
    case (Cons r R')
    have r: "start other < endExclusive r" "start r < endExclusive r"
      using Cons ne hd_dropWhile [of ?p ?rs] set_dropWhileD [of r ?p ?rs] by (auto simp: R_def)
    have "\<forall>x \<in> set R. start r \<le> start x"
      using sep Cons by (auto simp: separated_append separated_Cons intro: order_trans less_imp_le)
    then have "covered start endExclusive R \<inter> or_set other = {}" if "\<not> start r < endExclusive other"
      using that by (force simp: covered_def or_set_def)
    moreover have "max (start r) (start other) \<in> covered start endExclusive R \<inter> or_set other"
      if "start r < endExclusive other"
      using that r assms(3) Cons by (auto simp: or_set_def)
    ultimately have "start r < endExclusive other \<longleftrightarrow> covered start endExclusive R \<inter> or_set other \<noteq> {}"
      by blast
    then show ?thesis by (simp only: Cons list.sel(1)) simp
  qed simp
  finally show "OffsetRangeSet_intersectsStrict s other \<longleftrightarrow> ors_set s \<inter> or_set other \<noteq> {}"
    using out split by auto
  show "OffsetRangeSet_intersectsStrict \<lparr>sortedRanges = [OR 1 10]\<rparr> (OR 4 4)"
    by (simp add: OffsetRangeSet_intersectsStrict_def Let_def skipWhile.simps)
qed

theorem OffsetRangeSet_intersectsStrict_correct_witness:
  "OffsetRangeSet_intersectsStrict \<lparr>sortedRanges = [OR 1 3, OR 7 9]\<rparr> (OR 2 8)
   \<and> \<not> OffsetRangeSet_intersectsStrict \<lparr>sortedRanges = [OR 1 3, OR 7 9]\<rparr> (OR 3 7)"
proof -
  have h: "ors_wf \<lparr>sortedRanges = [OR 1 3, OR 7 9]\<rparr>"
    "\<forall>r \<in> set (sortedRanges \<lparr>sortedRanges = [OR 1 3, OR 7 9]\<rparr>). \<not> OffsetRange_isEmpty r"
    by (simp_all add: ors_wf_def separated_Cons OffsetRange_isEmpty_def)
  have "2 \<in> ors_set \<lparr>sortedRanges = [OR 1 3, OR 7 9]\<rparr> \<inter> or_set (OR 2 8)"
    "ors_set \<lparr>sortedRanges = [OR 1 3, OR 7 9]\<rparr> \<inter> or_set (OR 3 7) = {}"
    by (auto simp: ors_set_def or_set_def)
  with OffsetRangeSet_intersectsStrict_correct [OF h, of "OR 2 8"]
    OffsetRangeSet_intersectsStrict_correct [OF h, of "OR 3 7"]
  show ?thesis by auto
qed

end
