(* ===== verification/Arrays_Find.thy ===== *)
theory Arrays_Find
  imports Prelude
begin

text \<open>
  The searches of \<open>src/vs/base/common/arraysFind.ts\<close>: linear searches from either end, and
  binary searches for the border of a monotonous predicate. The binary searches are proved
  equal to the linear ones on arrays where the predicate is monotonous, which is what their
  callers (the line range sets) rely on. Indices are passed as the code passes them; an end
  index is at most the length of the array, as at every call in the sources.
\<close>

section \<open>Linear searches\<close>

fun findLastIdx_loop :: "'a list \<Rightarrow> ('a \<Rightarrow> int \<Rightarrow> bool) \<Rightarrow> nat \<Rightarrow> int" where
  "findLastIdx_loop array predicate 0 = -1"
| "findLastIdx_loop array predicate (Suc i) =
     (if predicate (array ! i) (int i) then int i else findLastIdx_loop array predicate i)"

definition findLastIdx :: "'a list \<Rightarrow> ('a \<Rightarrow> int \<Rightarrow> bool) \<Rightarrow> int \<Rightarrow> int" where
  "findLastIdx array predicate fromIndex = findLastIdx_loop array predicate (nat (fromIndex + 1))"

definition findLast :: "'a list \<Rightarrow> ('a \<Rightarrow> int \<Rightarrow> bool) \<Rightarrow> int \<Rightarrow> 'a option" where
  "findLast array predicate fromIndex =
     (let idx = findLastIdx array predicate fromIndex
      in if idx = -1 then None else Some (array ! nat idx))"

function findFirstIdx_loop :: "'a list \<Rightarrow> ('a \<Rightarrow> int \<Rightarrow> bool) \<Rightarrow> nat \<Rightarrow> int" where
  "findFirstIdx_loop array predicate i =
     (if i < length array
      then (if predicate (array ! i) (int i) then int i
            else findFirstIdx_loop array predicate (i + 1))
      else -1)"
  by pat_completeness auto
termination by (relation "measure (\<lambda>(array, predicate, i). length array - i)") auto

declare findFirstIdx_loop.simps [simp del]

definition findFirstIdx :: "'a list \<Rightarrow> ('a \<Rightarrow> int \<Rightarrow> bool) \<Rightarrow> nat \<Rightarrow> int" where
  "findFirstIdx array predicate fromIndex = findFirstIdx_loop array predicate fromIndex"

definition findFirst :: "'a list \<Rightarrow> ('a \<Rightarrow> int \<Rightarrow> bool) \<Rightarrow> nat \<Rightarrow> 'a option" where
  "findFirst array predicate fromIndex =
     (let idx = findFirstIdx array predicate fromIndex
      in if idx = -1 then None else Some (array ! nat idx))"

section \<open>Binary searches\<close>

function findLastIdxMonotonous_loop :: "'a list \<Rightarrow> ('a \<Rightarrow> bool) \<Rightarrow> nat \<Rightarrow> nat \<Rightarrow> nat" where
  "findLastIdxMonotonous_loop array predicate i j =
     (if i < j
      then let k = (i + j) div 2
           in if predicate (array ! k) then findLastIdxMonotonous_loop array predicate (k + 1) j
              else findLastIdxMonotonous_loop array predicate i k
      else i)"
  by pat_completeness auto
termination
  by (relation "measure (\<lambda>(array, predicate, i, j). j - i)") auto

declare findLastIdxMonotonous_loop.simps [simp del]

definition findLastIdxMonotonous :: "'a list \<Rightarrow> ('a \<Rightarrow> bool) \<Rightarrow> nat \<Rightarrow> nat \<Rightarrow> int" where
  "findLastIdxMonotonous array predicate startIdx endIdxEx =
     int (findLastIdxMonotonous_loop array predicate startIdx endIdxEx) - 1"

definition findLastMonotonous :: "'a list \<Rightarrow> ('a \<Rightarrow> bool) \<Rightarrow> 'a option" where
  "findLastMonotonous array predicate =
     (let idx = findLastIdxMonotonous array predicate 0 (length array)
      in if idx = -1 then None else Some (array ! nat idx))"

function findFirstIdxMonotonousOrArrLen_loop :: "'a list \<Rightarrow> ('a \<Rightarrow> bool) \<Rightarrow> nat \<Rightarrow> nat \<Rightarrow> nat" where
  "findFirstIdxMonotonousOrArrLen_loop array predicate i j =
     (if i < j
      then let k = (i + j) div 2
           in if predicate (array ! k) then findFirstIdxMonotonousOrArrLen_loop array predicate i k
              else findFirstIdxMonotonousOrArrLen_loop array predicate (k + 1) j
      else i)"
  by pat_completeness auto
termination
  by (relation "measure (\<lambda>(array, predicate, i, j). j - i)") auto

declare findFirstIdxMonotonousOrArrLen_loop.simps [simp del]

definition findFirstIdxMonotonousOrArrLen :: "'a list \<Rightarrow> ('a \<Rightarrow> bool) \<Rightarrow> nat \<Rightarrow> nat \<Rightarrow> nat" where
  "findFirstIdxMonotonousOrArrLen array predicate startIdx endIdxEx =
     findFirstIdxMonotonousOrArrLen_loop array predicate startIdx endIdxEx"

definition findFirstMonotonous :: "'a list \<Rightarrow> ('a \<Rightarrow> bool) \<Rightarrow> 'a option" where
  "findFirstMonotonous array predicate =
     (let idx = findFirstIdxMonotonousOrArrLen array predicate 0 (length array)
      in if idx = length array then None else Some (array ! idx))"

definition findFirstIdxMonotonous :: "'a list \<Rightarrow> ('a \<Rightarrow> bool) \<Rightarrow> nat \<Rightarrow> nat \<Rightarrow> int" where
  "findFirstIdxMonotonous array predicate startIdx endIdxEx =
     (let idx = findFirstIdxMonotonousOrArrLen array predicate startIdx endIdxEx
      in if idx = length array then -1 else int idx)"

text \<open>The stateful search over one array with predicates that get weaker: the state is the index
  after the last hit and, when the run-time assertion is on, the previous predicate.\<close>

record 'a MonotonousArray =
  marr_array :: "'a list"
  findLastMonotonousLastIdx :: nat
  prevFindLastPredicate :: "('a \<Rightarrow> bool) option"

definition MonotonousArray_new :: "'a list \<Rightarrow> 'a MonotonousArray" where
  "MonotonousArray_new array =
     \<lparr>marr_array = array, findLastMonotonousLastIdx = 0, prevFindLastPredicate = None\<rparr>"

definition MonotonousArray_findLastMonotonous ::
  "bool \<Rightarrow> ('a \<Rightarrow> bool) \<Rightarrow> 'a MonotonousArray \<Rightarrow> ('a option \<times> 'a MonotonousArray) result" where
  "MonotonousArray_findLastMonotonous assertInvariants predicate m =
     (if assertInvariants \<and>
         (case prevFindLastPredicate m of None \<Rightarrow> False
          | Some prev \<Rightarrow> list_ex (\<lambda>item. prev item \<and> \<not> predicate item) (marr_array m))
      then Inl BugIndicatingError
      else let m1 = (if assertInvariants then m\<lparr>prevFindLastPredicate := Some predicate\<rparr> else m);
               idx = findLastIdxMonotonous (marr_array m1) predicate
                       (findLastMonotonousLastIdx m1) (length (marr_array m1))
           in Inr (if idx = -1 then None else Some (marr_array m1 ! nat idx),
                   m1\<lparr>findLastMonotonousLastIdx := nat (idx + 1)\<rparr>))"

section \<open>Extremal elements\<close>

definition findFirstMax :: "'a list \<Rightarrow> ('a \<Rightarrow> 'a \<Rightarrow> int) \<Rightarrow> 'a option" where
  "findFirstMax array comparator =
     (case array of [] \<Rightarrow> None
      | x # xs \<Rightarrow> Some (foldl (\<lambda>max item. if comparator item max > 0 then item else max) x xs))"

definition findLastMax :: "'a list \<Rightarrow> ('a \<Rightarrow> 'a \<Rightarrow> int) \<Rightarrow> 'a option" where
  "findLastMax array comparator =
     (case array of [] \<Rightarrow> None
      | x # xs \<Rightarrow> Some (foldl (\<lambda>max item. if comparator item max \<ge> 0 then item else max) x xs))"

definition findFirstMin :: "'a list \<Rightarrow> ('a \<Rightarrow> 'a \<Rightarrow> int) \<Rightarrow> 'a option" where
  "findFirstMin array comparator = findFirstMax array (\<lambda>a b. - comparator a b)"

definition findMaxIdx :: "'a list \<Rightarrow> ('a \<Rightarrow> 'a \<Rightarrow> int) \<Rightarrow> int" where
  "findMaxIdx array comparator =
     (if length array = 0 then -1
      else int (foldl (\<lambda>maxIdx i. if comparator (array ! i) (array ! maxIdx) > 0 then i else maxIdx)
                  0 [1 ..< length array]))"

fun mapFindFirst :: "'a list \<Rightarrow> ('a \<Rightarrow> 'b option) \<Rightarrow> 'b option" where
  "mapFindFirst [] mapFn = None"
| "mapFindFirst (value # items) mapFn =
     (case mapFn value of Some mapped \<Rightarrow> Some mapped | None \<Rightarrow> mapFindFirst items mapFn)"

section \<open>Lemmas\<close>

text \<open>The shapes the binary searches ask for: \<open>[true, .., true, false, .., false]\<close> and
  \<open>[false, .., false, true, .., true]\<close>.\<close>

definition trueThenFalse :: "('a \<Rightarrow> bool) \<Rightarrow> 'a list \<Rightarrow> bool" where
  "trueThenFalse p xs \<longleftrightarrow> sorted_wrt (\<lambda>x y. p y \<longrightarrow> p x) xs"

definition falseThenTrue :: "('a \<Rightarrow> bool) \<Rightarrow> 'a list \<Rightarrow> bool" where
  "falseThenTrue p xs \<longleftrightarrow> sorted_wrt (\<lambda>x y. p x \<longrightarrow> p y) xs"

lemma falseThenTrue_iff: "falseThenTrue p xs = trueThenFalse (\<lambda>x. \<not> p x) xs"
  by (auto simp: falseThenTrue_def trueThenFalse_def elim!: sorted_wrt_mono_rel [rotated])

text \<open>Without any assumption the search stops at a border between true and false.\<close>

lemma findLast_loop_border:
  assumes "i \<le> j"
  shows "(let r = findLastIdxMonotonous_loop xs p i j
          in i \<le> r \<and> r \<le> j \<and> (i < r \<longrightarrow> p (xs ! (r - 1))) \<and> (r < j \<longrightarrow> \<not> p (xs ! r)))"
  using assms
proof (induction xs p i j rule: findLastIdxMonotonous_loop.induct)
  case (1 xs p i j)
  show ?case
  proof (cases "i < j")
    case True
    define k where "k = (i + j) div 2"
    have k: "i \<le> k" "k < j" using True by (auto simp: k_def)
    note unfold = findLastIdxMonotonous_loop.simps [of xs p i j]
    show ?thesis
    proof (cases "p (xs ! k)")
      case True
      define r where "r = findLastIdxMonotonous_loop xs p (k + 1) j"
      have eq: "findLastIdxMonotonous_loop xs p i j = r"
        using True \<open>i < j\<close> by (simp add: unfold Let_def k_def r_def)
      have "k + 1 \<le> r" "r \<le> j" "k + 1 < r \<longrightarrow> p (xs ! (r - 1))" "r < j \<longrightarrow> \<not> p (xs ! r)"
        using "1.IH"(1) [OF \<open>i < j\<close> k_def True] k(2) by (auto simp: Let_def r_def)
      moreover have "p (xs ! (r - 1))" if "r = k + 1" using True that by simp
      ultimately show ?thesis
        using k(1) unfolding eq Let_def by (cases "r = k + 1") auto
    next
      case False
      define r where "r = findLastIdxMonotonous_loop xs p i k"
      have eq: "findLastIdxMonotonous_loop xs p i j = r"
        using False \<open>i < j\<close> by (simp add: unfold Let_def k_def r_def)
      have "i \<le> r" "r \<le> k" "i < r \<longrightarrow> p (xs ! (r - 1))" "r < k \<longrightarrow> \<not> p (xs ! r)"
        using "1.IH"(2) [OF \<open>i < j\<close> k_def False] k(1) by (auto simp: Let_def r_def)
      then show ?thesis
        using k(2) False unfolding eq Let_def by (cases "r = k") auto
    qed
  next
    case False
    then have "findLastIdxMonotonous_loop xs p i j = i"
      by (simp add: findLastIdxMonotonous_loop.simps [of xs p i j])
    with False "1.prems" show ?thesis by (simp add: Let_def)
  qed
qed

lemma findLast_loop_from:
  assumes "trueThenFalse p xs" and "s \<le> length (takeWhile p xs)"
  shows "findLastIdxMonotonous_loop xs p s (length xs) = length (takeWhile p xs)"
proof -
  define r where "r = findLastIdxMonotonous_loop xs p s (length xs)"
  have "s \<le> length xs" using assms(2) length_takeWhile_le [of p xs] by linarith
  then have r: "s \<le> r" "r \<le> length xs" "s < r \<longrightarrow> p (xs ! (r - 1))" "r < length xs \<longrightarrow> \<not> p (xs ! r)"
    using findLast_loop_border [of s "length xs" xs p] by (auto simp: Let_def r_def)
  have below: "p (xs ! i)" if "i < r" for i
  proof (cases "i < s")
    case True
    then have "i < length (takeWhile p xs)" using assms(2) by simp
    then show ?thesis by (metis nth_mem set_takeWhileD takeWhile_nth)
  next
    case False
    show ?thesis
    proof (cases "i = r - 1")
      case False
      then have "i < r - 1" "r - 1 < length xs" using that r(2) by auto
      with assms(1) r(3) that \<open>\<not> i < s\<close> show ?thesis
        by (auto simp: trueThenFalse_def sorted_wrt_iff_nth_less)
    qed (use r that \<open>\<not> i < s\<close> in auto)
  qed
  have "takeWhile p xs = take r xs"
    using below r by (intro takeWhile_eq_take_P_nth) auto
  then have "length (takeWhile p xs) = r" using r(2) by simp
  then show ?thesis by (simp add: r_def)
qed

lemmas findLast_loop_eq_takeWhile = findLast_loop_from [where s = 0, simplified]

lemma findFirst_loop_as_findLast_loop:
  "findFirstIdxMonotonousOrArrLen_loop xs p i j = findLastIdxMonotonous_loop xs (\<lambda>x. \<not> p x) i j"
proof (induction xs p i j rule: findFirstIdxMonotonousOrArrLen_loop.induct)
  case (1 xs p i j)
  then show ?case
    by (subst findFirstIdxMonotonousOrArrLen_loop.simps, subst findLastIdxMonotonous_loop.simps)
      (auto simp: Let_def)
qed

lemma findLastIdxMonotonous_eq:
  "trueThenFalse p xs \<Longrightarrow>
   findLastIdxMonotonous xs p 0 (length xs) = int (length (takeWhile p xs)) - 1"
  by (simp add: findLastIdxMonotonous_def findLast_loop_eq_takeWhile)

lemma findFirstIdxMonotonousOrArrLen_eq:
  "falseThenTrue p xs \<Longrightarrow>
   findFirstIdxMonotonousOrArrLen xs p 0 (length xs) = length (takeWhile (\<lambda>x. \<not> p x) xs)"
  by (simp add: findFirstIdxMonotonousOrArrLen_def findFirst_loop_as_findLast_loop
      falseThenTrue_iff findLast_loop_eq_takeWhile)

lemma findLastMonotonous_eq:
  assumes "trueThenFalse p xs"
  shows "findLastMonotonous xs p = (if filter p xs = [] then None else Some (last (filter p xs)))"
proof -
  let ?n = "length (takeWhile p xs)"
  have ft: "filter p xs = takeWhile p xs"
    using assms unfolding trueThenFalse_def
    by (induction xs) (auto simp: filter_empty_conv)
  show ?thesis
  proof (cases "?n = 0")
    case True
    with assms show ?thesis
      by (simp add: findLastMonotonous_def findLastIdxMonotonous_eq ft)
  next
    case False
    then have "last (takeWhile p xs) = takeWhile p xs ! (?n - 1)" by (simp add: last_conv_nth)
    also have "\<dots> = xs ! (?n - 1)" using False by (intro takeWhile_nth) simp
    also have "?n - 1 = nat (int ?n - 1)" by simp
    finally show ?thesis using assms False
      by (simp add: findLastMonotonous_def findLastIdxMonotonous_eq ft)
  qed
qed

section \<open>Binary search against linear search\<close>

lemma findFirstIdx_eq:
  "i \<le> length xs \<Longrightarrow>
   findFirstIdx_loop xs (\<lambda>x _. p x) i =
     (let k = i + length (takeWhile (\<lambda>x. \<not> p x) (drop i xs)) in if k = length xs then -1 else int k)"
proof (induction "length xs - i" arbitrary: i)
  case 0
  then show ?case by (simp add: findFirstIdx_loop.simps [of xs _ i])
next
  case (Suc n)
  then have "i < length xs" by simp
  then have "drop i xs = xs ! i # drop (Suc i) xs" by (simp add: Cons_nth_drop_Suc)
  with Suc.hyps(1) [of "Suc i"] Suc.hyps(2) \<open>i < length xs\<close> show ?case
    by (auto simp: findFirstIdx_loop.simps [of xs _ i] Let_def)
qed

lemma findLastIdx_eq:
  "trueThenFalse p xs \<Longrightarrow> n \<le> length xs \<Longrightarrow>
   findLastIdx_loop xs (\<lambda>x _. p x) n = int (min n (length (takeWhile p xs))) - 1"
proof (induction n)
  case (Suc n)
  let ?m = "length (takeWhile p xs)"
  have "p (xs ! n) \<longleftrightarrow> n < ?m"
  proof
    assume "n < ?m"
    then show "p (xs ! n)" by (metis nth_mem set_takeWhileD takeWhile_nth)
  next
    assume p: "p (xs ! n)"
    have "p (xs ! i)" if "i \<le> n" for i
      using that Suc.prems p by (auto simp: trueThenFalse_def sorted_wrt_iff_nth_less le_less)
    then have "Suc n \<le> ?m"
      using Suc.prems(2) by (intro length_takeWhile_less_P_nth) auto
    then show "n < ?m" by simp
  qed
  with Suc show ?case by (auto simp: min_def)
qed simp

text \<open>C40. The binary searches agree with the linear searches on every array where the predicate is
  monotonous: the last index (or \<open>-1\<close>) where a predicate that turns false holds, and the first
  index (or \<open>-1\<close>) where a predicate that turns true holds.\<close>

theorem binary_search_agrees_with_linear:
  assumes "trueThenFalse p xs" and "falseThenTrue q xs"
  shows "findLastIdxMonotonous xs p 0 (length xs) = findLastIdx xs (\<lambda>x _. p x) (int (length xs) - 1)
       \<and> findFirstIdxMonotonous xs q 0 (length xs) = findFirstIdx xs (\<lambda>x _. q x) 0"
proof
  show "findLastIdxMonotonous xs p 0 (length xs) = findLastIdx xs (\<lambda>x _. p x) (int (length xs) - 1)"
    using assms(1) length_takeWhile_le [of p xs]
    by (simp add: findLastIdxMonotonous_eq findLastIdx_def findLastIdx_eq min_def)
  show "findFirstIdxMonotonous xs q 0 (length xs) = findFirstIdx xs (\<lambda>x _. q x) 0"
    using assms(2)
    by (simp add: findFirstIdxMonotonous_def findFirstIdxMonotonousOrArrLen_eq findFirstIdx_def
        findFirstIdx_eq Let_def)
qed

theorem binary_search_agrees_with_linear_witness:
  "findLastIdxMonotonous [1, 3, 5 :: int] (\<lambda>x. x \<le> 4) 0 (length [1, 3, 5 :: int]) = 1
   \<and> findFirstIdxMonotonous [1, 3, 5 :: int] (\<lambda>x. 4 < x) 0 (length [1, 3, 5 :: int]) = 2"
proof -
  have h: "trueThenFalse (\<lambda>x. x \<le> 4) [1, 3, 5 :: int]" "falseThenTrue (\<lambda>x. 4 < x) [1, 3, 5 :: int]"
    by (simp_all add: trueThenFalse_def falseThenTrue_def)
  show ?thesis using binary_search_agrees_with_linear [OF h]
    by (simp add: findLastIdx_def findFirstIdx_def findFirstIdx_loop.simps eval_nat_numeral)
qed

definition MonotonousArray_inv :: "('a \<Rightarrow> bool) \<Rightarrow> 'a MonotonousArray \<Rightarrow> bool" where
  "MonotonousArray_inv prev m \<longleftrightarrow>
     findLastMonotonousLastIdx m = length (takeWhile prev (marr_array m))
     \<and> (\<forall>q. prevFindLastPredicate m = Some q \<longrightarrow> q = prev)"

lemma length_takeWhile_mono:
  "(\<And>x. x \<in> set xs \<Longrightarrow> p x \<Longrightarrow> q x) \<Longrightarrow> length (takeWhile p xs) \<le> length (takeWhile q xs)"
  by (induction xs) auto

text \<open>Over one array, with predicates that only get weaker, the stateful search that resumes
  where the previous call stopped returns what a fresh binary search returns, never trips its
  run-time assertion, and leaves a state from which this holds again.\<close>

theorem MonotonousArray_findLastMonotonous_correct:
  assumes "MonotonousArray_inv prev m" and "trueThenFalse q (marr_array m)"
    and "\<And>x. x \<in> set (marr_array m) \<Longrightarrow> prev x \<Longrightarrow> q x"
  shows "\<exists>m'. MonotonousArray_findLastMonotonous True q m = Inr (findLastMonotonous (marr_array m) q, m')
            \<and> MonotonousArray_inv q m' \<and> marr_array m' = marr_array m"
proof -
  let ?xs = "marr_array m" and ?s = "findLastMonotonousLastIdx m"
  have "?s \<le> length (takeWhile q ?xs)"
    using assms(1,3) by (simp add: MonotonousArray_inv_def length_takeWhile_mono)
  then have "findLastIdxMonotonous ?xs q ?s (length ?xs) = int (length (takeWhile q ?xs)) - 1"
    using assms(2) by (simp add: findLastIdxMonotonous_def findLast_loop_from)
  moreover have "\<not> (case prevFindLastPredicate m of None \<Rightarrow> False
      | Some prev \<Rightarrow> list_ex (\<lambda>item. prev item \<and> \<not> q item) ?xs)"
    using assms(1,3) by (auto simp: MonotonousArray_inv_def list_ex_iff split: option.splits)
  ultimately show ?thesis using assms(2)
    by (simp add: MonotonousArray_findLastMonotonous_def findLastMonotonous_def
        findLastIdxMonotonous_eq Let_def MonotonousArray_inv_def)
qed

theorem MonotonousArray_findLastMonotonous_correct_witness:
  "\<exists>m'. MonotonousArray_findLastMonotonous True (\<lambda>x. x \<le> 4) (MonotonousArray_new [1, 3, 5 :: int])
      = Inr (Some 3, m') \<and> MonotonousArray_inv (\<lambda>x. x \<le> 4) m'"
proof -
  let ?m = "MonotonousArray_new [1, 3, 5 :: int]"
  have h: "MonotonousArray_inv (\<lambda>_. False) ?m" "trueThenFalse (\<lambda>x. x \<le> 4) (marr_array ?m)"
    by (simp_all add: MonotonousArray_inv_def MonotonousArray_new_def trueThenFalse_def)
  have "findLastMonotonous (marr_array ?m) (\<lambda>x. x \<le> 4) = Some 3"
    using h(2) by (simp add: findLastMonotonous_eq) (simp add: MonotonousArray_new_def)
  with MonotonousArray_findLastMonotonous_correct [OF h] show ?thesis by auto
qed

end
