(* ===== verification/Line_Range.thy ===== *)
theory Line_Range
  imports Position_Range Offset_Range Arrays_Find
begin

text \<open>
  Line ranges: \<open>src/vs/editor/common/core/ranges/lineRange.ts\<close>. A \<open>LineRange\<close> is a half-open
  interval of line numbers whose constructor throws when it is reversed. A \<open>LineRangeSet\<close> keeps its
  ranges sorted and never touching, and finds its way with the binary searches of \<open>arraysFind.ts\<close>.
  The fields \<open>startLineNumber\<close> and \<open>endLineNumberExclusive\<close> are \<open>lrStart\<close> and \<open>lrEnd\<close> here.
\<close>

record LineRange =
  lrStart :: int
  lrEnd :: int

definition LineRange_new :: "int \<Rightarrow> int \<Rightarrow> LineRange result" where
  "LineRange_new s e = (if s > e then Inl BugIndicatingError else Inr \<lparr>lrStart = s, lrEnd = e\<rparr>)"

definition LineRange_ofLength :: "int \<Rightarrow> int \<Rightarrow> LineRange result" where
  "LineRange_ofLength s len = LineRange_new s (s + len)"

definition LineRange_fromRange :: "'a range_scheme \<Rightarrow> LineRange result" where
  "LineRange_fromRange r = LineRange_new (startLineNumber r) (endLineNumber r)"

definition LineRange_fromRangeInclusive :: "'a range_scheme \<Rightarrow> LineRange result" where
  "LineRange_fromRangeInclusive r = LineRange_new (startLineNumber r) (endLineNumber r + 1)"

definition LineRange_compareByStart :: "LineRange \<Rightarrow> LineRange \<Rightarrow> int" where
  "LineRange_compareByStart a b = lrStart a - lrStart b"

definition LineRange_subtract :: "LineRange \<Rightarrow> LineRange option \<Rightarrow> LineRange list result" where
  "LineRange_subtract a ob =
     (case ob of None \<Rightarrow> Inr [a]
      | Some b \<Rightarrow>
         if lrStart a < lrStart b \<and> lrEnd b < lrEnd a
         then bindr (LineRange_new (lrStart a) (lrStart b)) (\<lambda>x.
              bindr (LineRange_new (lrEnd b) (lrEnd a)) (\<lambda>y. Inr [x, y]))
         else if lrStart b \<le> lrStart a \<and> lrEnd a \<le> lrEnd b then Inr []
         else if lrEnd b < lrEnd a
         then bindr (LineRange_new (max (lrEnd b) (lrStart a)) (lrEnd a)) (\<lambda>x. Inr [x])
         else bindr (LineRange_new (lrStart a) (min (lrStart b) (lrEnd a))) (\<lambda>x. Inr [x]))"

definition LineRange_joinList :: "LineRange list \<Rightarrow> LineRange result" where
  "LineRange_joinList lineRanges =
     (case lineRanges of [] \<Rightarrow> Inl BugIndicatingError
      | r # rs \<Rightarrow>
         (let (s, e) = foldl (\<lambda>(s, e) x. (min s (lrStart x), max e (lrEnd x))) (lrStart r, lrEnd r) rs
          in LineRange_new s e))"

definition LineRange_deserialize :: "int \<times> int \<Rightarrow> LineRange result" where
  "LineRange_deserialize p = LineRange_new (fst p) (snd p)"

definition LineRange_contains :: "LineRange \<Rightarrow> int \<Rightarrow> bool" where
  "LineRange_contains r n \<longleftrightarrow> lrStart r \<le> n \<and> n < lrEnd r"

definition LineRange_containsRange :: "LineRange \<Rightarrow> LineRange \<Rightarrow> bool" where
  "LineRange_containsRange r other \<longleftrightarrow> lrStart r \<le> lrStart other \<and> lrEnd other \<le> lrEnd r"

definition LineRange_isEmpty :: "LineRange \<Rightarrow> bool" where
  "LineRange_isEmpty r \<longleftrightarrow> lrStart r = lrEnd r"

definition LineRange_delta :: "LineRange \<Rightarrow> int \<Rightarrow> LineRange result" where
  "LineRange_delta r offset = LineRange_new (lrStart r + offset) (lrEnd r + offset)"

definition LineRange_deltaLength :: "LineRange \<Rightarrow> int \<Rightarrow> LineRange result" where
  "LineRange_deltaLength r offset = LineRange_new (lrStart r) (lrEnd r + offset)"

definition LineRange_length :: "LineRange \<Rightarrow> int" where
  "LineRange_length r = lrEnd r - lrStart r"

definition LineRange_join :: "LineRange \<Rightarrow> LineRange \<Rightarrow> LineRange result" where
  "LineRange_join r other = LineRange_new (min (lrStart r) (lrStart other)) (max (lrEnd r) (lrEnd other))"

definition LineRange_toString :: "LineRange \<Rightarrow> string" where
  "LineRange_toString r = ''['' @ int_str (lrStart r) @ '','' @ int_str (lrEnd r) @ '')''"

definition LineRange_intersect :: "LineRange \<Rightarrow> LineRange \<Rightarrow> LineRange option result" where
  "LineRange_intersect r other =
     (let s = max (lrStart r) (lrStart other); e = min (lrEnd r) (lrEnd other)
      in if s \<le> e then bindr (LineRange_new s e) (\<lambda>x. Inr (Some x)) else Inr None)"

definition LineRange_intersectsStrict :: "LineRange \<Rightarrow> LineRange \<Rightarrow> bool" where
  "LineRange_intersectsStrict r other \<longleftrightarrow> lrStart r < lrEnd other \<and> lrStart other < lrEnd r"

definition LineRange_intersectsOrTouches :: "LineRange \<Rightarrow> LineRange \<Rightarrow> bool" where
  "LineRange_intersectsOrTouches r other \<longleftrightarrow> lrStart r \<le> lrEnd other \<and> lrStart other \<le> lrEnd r"

definition LineRange_equals :: "LineRange \<Rightarrow> LineRange \<Rightarrow> bool" where
  "LineRange_equals r b \<longleftrightarrow> lrStart r = lrStart b \<and> lrEnd r = lrEnd b"

definition LineRange_toInclusiveRange :: "LineRange \<Rightarrow> range option" where
  "LineRange_toInclusiveRange r =
     (if LineRange_isEmpty r then None
      else Some (Range_new (lrStart r) 1 (lrEnd r - 1) 9007199254740991))"

definition LineRange_toExclusiveRange :: "LineRange \<Rightarrow> range" where
  "LineRange_toExclusiveRange r = Range_new (lrStart r) 1 (lrEnd r) 1"

definition LineRange_mapToLineArray :: "LineRange \<Rightarrow> (int \<Rightarrow> 'a) \<Rightarrow> 'a list" where
  "LineRange_mapToLineArray r f = map f [lrStart r .. lrEnd r - 1]"

definition LineRange_forEach :: "LineRange \<Rightarrow> (int \<Rightarrow> 's \<Rightarrow> 's) \<Rightarrow> 's \<Rightarrow> 's" where
  "LineRange_forEach r f s = fold f [lrStart r .. lrEnd r - 1] s"

definition LineRange_serialize :: "LineRange \<Rightarrow> int \<times> int" where
  "LineRange_serialize r = (lrStart r, lrEnd r)"

definition LineRange_toOffsetRange :: "LineRange \<Rightarrow> OffsetRange result" where
  "LineRange_toOffsetRange r = OffsetRange_new (lrStart r - 1) (lrEnd r - 1)"

definition LineRange_distanceToRange :: "LineRange \<Rightarrow> LineRange \<Rightarrow> int" where
  "LineRange_distanceToRange r other =
     (if lrEnd r \<le> lrStart other then lrStart other - lrEnd r
      else if lrEnd other \<le> lrStart r then lrStart r - lrEnd other
      else 0)"

definition LineRange_distanceToLine :: "LineRange \<Rightarrow> int \<Rightarrow> int" where
  "LineRange_distanceToLine r n =
     (if LineRange_contains r n then 0
      else if n < lrStart r then lrStart r - n
      else n - lrEnd r)"

definition LineRange_addMargin :: "LineRange \<Rightarrow> int \<Rightarrow> int \<Rightarrow> LineRange result" where
  "LineRange_addMargin r marginTop marginBottom =
     LineRange_new (lrStart r - marginTop) (lrEnd r + marginBottom)"

section \<open>Line range sets\<close>

record LineRangeSet =
  normalizedRanges :: "LineRange list"

definition LineRangeSet_new :: "LineRange list \<Rightarrow> LineRangeSet" where
  "LineRangeSet_new rs = \<lparr>normalizedRanges = rs\<rparr>"

text \<open>The two indices that \<open>addRange\<close> and \<open>subtractFrom\<close> compute: the first range that touches the
  argument or lies behind it, and the position after the last one that touches it or lies before.\<close>

definition joinRangeStartIdx :: "LineRange list \<Rightarrow> LineRange \<Rightarrow> nat" where
  "joinRangeStartIdx rs x = findFirstIdxMonotonousOrArrLen rs (\<lambda>r. lrEnd r \<ge> lrStart x) 0 (length rs)"

definition joinRangeEndIdxExclusive :: "LineRange list \<Rightarrow> LineRange \<Rightarrow> int" where
  "joinRangeEndIdxExclusive rs x = findLastIdxMonotonous rs (\<lambda>r. lrStart r \<le> lrEnd x) 0 (length rs) + 1"

definition LineRangeSet_addRange :: "LineRangeSet \<Rightarrow> LineRange \<Rightarrow> LineRangeSet result" where
  "LineRangeSet_addRange this x =
     (if LineRange_length x = 0 then Inr this
      else let rs = normalizedRanges this;
               i = joinRangeStartIdx rs x;
               j = joinRangeEndIdxExclusive rs x
           in if int i = j then Inr (this\<lparr>normalizedRanges := js_splice rs (int i) 0 [x]\<rparr>)
              else if int i = j - 1
              then bindr (LineRange_join (rs ! i) x) (\<lambda>r. Inr (this\<lparr>normalizedRanges := rs[i := r]\<rparr>))
              else bindr (LineRange_join (rs ! i) (rs ! nat (j - 1))) (\<lambda>r.
                   bindr (LineRange_join r x) (\<lambda>r'.
                   Inr (this\<lparr>normalizedRanges := js_splice rs (int i) (j - int i) [r']\<rparr>))))"

definition LineRangeSet_contains :: "LineRangeSet \<Rightarrow> int \<Rightarrow> bool" where
  "LineRangeSet_contains this n =
     (case findLastMonotonous (normalizedRanges this) (\<lambda>r. lrStart r \<le> n) of
        None \<Rightarrow> False | Some r \<Rightarrow> lrEnd r > n)"

definition LineRangeSet_intersects :: "LineRangeSet \<Rightarrow> LineRange \<Rightarrow> bool" where
  "LineRangeSet_intersects this x =
     (case findLastMonotonous (normalizedRanges this) (\<lambda>r. lrStart r < lrEnd x) of
        None \<Rightarrow> False | Some r \<Rightarrow> lrEnd r > lrStart x)"

text \<open>\<open>getUnion\<close>: the merge loop over the remaining ranges of both sets, with the range being
  assembled and the ranges already pushed.\<close>

definition getUnion_take ::
  "LineRange option \<Rightarrow> LineRange list \<Rightarrow> LineRange \<Rightarrow> (LineRange option \<times> LineRange list) result" where
  "getUnion_take current res next =
     (case current of None \<Rightarrow> Inr (Some next, res)
      | Some c \<Rightarrow>
         if lrEnd c \<ge> lrStart next
         then bindr (LineRange_new (lrStart c) (max (lrEnd c) (lrEnd next))) (\<lambda>m. Inr (Some m, res))
         else Inr (Some next, res @ [c]))"

function getUnion_loop ::
  "LineRange list \<Rightarrow> LineRange list \<Rightarrow> LineRange option \<Rightarrow> LineRange list \<Rightarrow> LineRange list result" where
  "getUnion_loop [] [] current res =
     Inr (case current of None \<Rightarrow> res | Some c \<Rightarrow> res @ [c])"
| "getUnion_loop (r1 # rs1) [] current res =
     bindr (getUnion_take current res r1) (\<lambda>(c, res'). getUnion_loop rs1 [] c res')"
| "getUnion_loop [] (r2 # rs2) current res =
     bindr (getUnion_take current res r2) (\<lambda>(c, res'). getUnion_loop [] rs2 c res')"
| "getUnion_loop (r1 # rs1) (r2 # rs2) current res =
     (if lrStart r1 < lrStart r2
      then bindr (getUnion_take current res r1) (\<lambda>(c, res'). getUnion_loop rs1 (r2 # rs2) c res')
      else bindr (getUnion_take current res r2) (\<lambda>(c, res'). getUnion_loop (r1 # rs1) rs2 c res'))"
  by pat_completeness auto
termination
  by (relation "measure (\<lambda>(rs1, rs2, c, res). length rs1 + length rs2)") auto

definition LineRangeSet_getUnion :: "LineRangeSet \<Rightarrow> LineRangeSet \<Rightarrow> LineRangeSet result" where
  "LineRangeSet_getUnion this other =
     (if length (normalizedRanges this) = 0 then Inr other
      else if length (normalizedRanges other) = 0 then Inr this
      else bindr (getUnion_loop (normalizedRanges this) (normalizedRanges other) None [])
             (\<lambda>rs. Inr (LineRangeSet_new rs)))"

fun LineRange_joinMany_loop :: "LineRange list list \<Rightarrow> LineRangeSet \<Rightarrow> LineRangeSet result" where
  "LineRange_joinMany_loop [] res = Inr res"
| "LineRange_joinMany_loop (rs # rss) res =
     bindr (LineRangeSet_getUnion res (LineRangeSet_new rs)) (LineRange_joinMany_loop rss)"

definition LineRange_joinMany :: "LineRange list list \<Rightarrow> LineRange list result" where
  "LineRange_joinMany lineRanges =
     (case lineRanges of [] \<Rightarrow> Inr []
      | rs # rss \<Rightarrow> bindr (LineRange_joinMany_loop rss (LineRangeSet_new rs)) (\<lambda>s. Inr (normalizedRanges s)))"

fun subtractFrom_loop :: "LineRange list \<Rightarrow> int \<Rightarrow> LineRange list \<Rightarrow> (int \<times> LineRange list) result" where
  "subtractFrom_loop [] startLine res = Inr (startLine, res)"
| "subtractFrom_loop (r # rs) startLine res =
     bindr (if lrStart r > startLine
            then bindr (LineRange_new startLine (lrStart r)) (\<lambda>x. Inr (res @ [x])) else Inr res)
       (\<lambda>res'. subtractFrom_loop rs (lrEnd r) res')"

definition LineRangeSet_subtractFrom :: "LineRangeSet \<Rightarrow> LineRange \<Rightarrow> LineRangeSet result" where
  "LineRangeSet_subtractFrom this x =
     (let rs = normalizedRanges this;
          i = joinRangeStartIdx rs x;
          j = joinRangeEndIdxExclusive rs x
      in if int i = j then Inr (LineRangeSet_new [x])
         else bindr (subtractFrom_loop (take (nat j - i) (drop i rs)) (lrStart x) []) (\<lambda>(startLine, res).
              bindr (if startLine < lrEnd x
                     then bindr (LineRange_new startLine (lrEnd x)) (\<lambda>r. Inr (res @ [r])) else Inr res)
                (\<lambda>res'. Inr (LineRangeSet_new res'))))"

definition LineRangeSet_toString :: "LineRangeSet \<Rightarrow> string" where
  "LineRangeSet_toString this = join_str '', '' (map LineRange_toString (normalizedRanges this))"

function getIntersection_loop ::
  "LineRange list \<Rightarrow> LineRange list \<Rightarrow> LineRange list \<Rightarrow> LineRange list result" where
  "getIntersection_loop (r1 # rs1) (r2 # rs2) res =
     bindr (LineRange_intersect r1 r2) (\<lambda>i.
       let res' = (case i of None \<Rightarrow> res | Some x \<Rightarrow> if LineRange_isEmpty x then res else res @ [x])
       in if lrEnd r1 < lrEnd r2 then getIntersection_loop rs1 (r2 # rs2) res'
          else getIntersection_loop (r1 # rs1) rs2 res')"
| "getIntersection_loop [] rs2 res = Inr res"
| "getIntersection_loop rs1 [] res = Inr res"
  by pat_completeness auto
termination
  by (relation "measure (\<lambda>(rs1, rs2, res). length rs1 + length rs2)") auto

definition LineRangeSet_getIntersection :: "LineRangeSet \<Rightarrow> LineRangeSet \<Rightarrow> LineRangeSet result" where
  "LineRangeSet_getIntersection this other =
     bindr (getIntersection_loop (normalizedRanges this) (normalizedRanges other) [])
       (\<lambda>rs. Inr (LineRangeSet_new rs))"

definition LineRangeSet_getWithDelta :: "LineRangeSet \<Rightarrow> int \<Rightarrow> LineRangeSet result" where
  "LineRangeSet_getWithDelta this d =
     bindr (mapr (\<lambda>r. LineRange_delta r d) (normalizedRanges this)) (\<lambda>rs. Inr (LineRangeSet_new rs))"

section \<open>Laws of line ranges\<close>

definition lr_wf :: "LineRange \<Rightarrow> bool" where
  "lr_wf r \<longleftrightarrow> lrStart r \<le> lrEnd r"

definition lr_set :: "LineRange \<Rightarrow> int set" where
  "lr_set r = {lrStart r ..< lrEnd r}"

definition LR :: "int \<Rightarrow> int \<Rightarrow> LineRange" where
  "LR s e = \<lparr>lrStart = s, lrEnd = e\<rparr>"

lemma LR_sel [simp]: "lrStart (LR s e) = s" "lrEnd (LR s e) = e"
  by (simp_all add: LR_def)

lemma LR_collapse [simp]: "LR (lrStart r) (lrEnd r) = r"
  by (simp add: LR_def)

lemma LR_eq_iff [simp]: "LR a b = LR c d \<longleftrightarrow> a = c \<and> b = d"
  by (auto simp: LR_def)

lemma LineRange_new_Inr [simp]: "s \<le> e \<Longrightarrow> LineRange_new s e = Inr (LR s e)"
  by (simp add: LineRange_new_def LR_def)

lemma LineRange_contains_iff: "LineRange_contains r n \<longleftrightarrow> n \<in> lr_set r"
  by (auto simp: LineRange_contains_def lr_set_def)

lemma LineRange_join_wf:
  "lr_wf a \<Longrightarrow> LineRange_join a b = Inr (LR (min (lrStart a) (lrStart b)) (max (lrEnd a) (lrEnd b)))"
  by (simp add: LineRange_join_def lr_wf_def min_le_iff_disj le_max_iff_disj)

interpretation line_interval: interval_class lrStart lrEnd LR
  by unfold_locales simp_all

text \<open>Subtracting a line range never throws, and the ranges it returns contain exactly the lines of
  the first range that are not in the second.\<close>

theorem LineRange_subtract_correct:
  assumes "lr_wf a" and "lr_wf b"
  shows "\<exists>rs. LineRange_subtract a (Some b) = Inr rs \<and> (\<forall>r \<in> set rs. lr_wf r)
            \<and> covered lrStart lrEnd rs = lr_set a - lr_set b"
proof -
  have le: "lrStart a \<le> lrEnd a" "lrStart b \<le> lrEnd b" using assms by (simp_all add: lr_wf_def)
  consider "lrStart a < lrStart b \<and> lrEnd b < lrEnd a"
    | "lrStart b \<le> lrStart a \<and> lrEnd a \<le> lrEnd b"
    | "lrStart b \<le> lrStart a \<and> lrEnd b < lrEnd a"
    | "lrStart a < lrStart b \<and> lrEnd a \<le> lrEnd b" by linarith
  then show ?thesis
    using le by cases (auto simp: LineRange_subtract_def lr_set_def lr_wf_def min_def max_def)
qed

theorem LineRange_subtract_correct_witness:
  "LineRange_subtract (LR 1 9) (Some (LR 3 5)) = Inr [LR 1 3, LR 5 9]
   \<and> lr_set (LR 1 9) - lr_set (LR 3 5) = {1 ..< 3} \<union> {5 ..< 9}"
proof -
  have "lr_wf (LR 1 9)" "lr_wf (LR 3 5)" by (simp_all add: lr_wf_def)
  from LineRange_subtract_correct [OF this] show ?thesis
    by (auto simp: LineRange_subtract_def)
qed

section \<open>Laws of line range sets\<close>

text \<open>The invariant: non-empty ranges, sorted, at least one line between neighbours.\<close>

definition lr_ok :: "LineRange list \<Rightarrow> bool" where
  "lr_ok rs \<longleftrightarrow> separated lrStart lrEnd rs \<and> (\<forall>r \<in> set rs. lrStart r < lrEnd r)"

definition lrs_wf :: "LineRangeSet \<Rightarrow> bool" where
  "lrs_wf s \<longleftrightarrow> lr_ok (normalizedRanges s)"

abbreviation lines :: "LineRange list \<Rightarrow> int set" where
  "lines rs \<equiv> covered lrStart lrEnd rs"

definition lrs_set :: "LineRangeSet \<Rightarrow> int set" where
  "lrs_set s = lines (normalizedRanges s)"

lemma lr_ok_separated: "lr_ok rs \<Longrightarrow> separated lrStart lrEnd rs"
  by (simp add: lr_ok_def)

lemma lr_ok_Nil [simp]: "lr_ok []"
  by (simp add: lr_ok_def)

lemma lr_ok_Cons:
  "lr_ok (r # rs) \<longleftrightarrow> lrStart r < lrEnd r \<and> (\<forall>s \<in> set rs. lrEnd r < lrStart s) \<and> lr_ok rs"
  by (auto simp: lr_ok_def separated_Cons)

lemma lr_ok_append:
  "lr_ok (rs @ ss) \<longleftrightarrow> lr_ok rs \<and> lr_ok ss \<and> (\<forall>r \<in> set rs. \<forall>s \<in> set ss. lrEnd r < lrStart s)"
  by (auto simp: lr_ok_def separated_append)

lemma LineRangeSet_new_sel [simp]: "normalizedRanges (LineRangeSet_new rs) = rs"
  by (simp add: LineRangeSet_new_def)

subsection \<open>The indices of the touching block\<close>

lemma joinRange_split:
  assumes sep: "separated lrStart lrEnd rs" and x: "lrStart x \<le> lrEnd x"
  obtains A M B where "rs = A @ M @ B" and "joinRangeStartIdx rs x = length A"
    and "joinRangeEndIdxExclusive rs x = int (length A + length M)"
    and "\<forall>a \<in> set A. lrEnd a < lrStart x"
    and "\<forall>m \<in> set M. lrStart x \<le> lrEnd m \<and> lrStart m \<le> lrEnd x"
    and "\<forall>b \<in> set B. lrEnd x < lrStart b"
proof -
  obtain A M B where A: "A = takeWhile (\<lambda>r. lrEnd r < lrStart x) rs"
    and rs: "rs = A @ M @ B" and parts: "\<forall>a \<in> set A. lrEnd a < lrStart x"
      "\<forall>m \<in> set M. lrStart x \<le> lrEnd m \<and> lrStart m \<le> lrEnd x"
      "\<forall>b \<in> set B. lrEnd x < lrStart b"
    by (rule line_interval.insertion_split [OF sep])
  have "falseThenTrue (\<lambda>r. lrEnd r \<ge> lrStart x) rs"
    using separated_falls(1) [OF sep, of "lrStart x"]
    by (auto simp: falseThenTrue_def not_less elim!: sorted_wrt_mono_rel [rotated])
  then have i: "joinRangeStartIdx rs x = length A"
    by (simp add: joinRangeStartIdx_def findFirstIdxMonotonousOrArrLen_eq A not_le)
  have "\<forall>a \<in> set A. lrStart a \<le> lrEnd x"
    using sep rs parts(1) x by (force simp: separated_def)
  moreover have "takeWhile (\<lambda>r. lrStart r \<le> lrEnd x) B = []"
    using parts(3) by (cases B) auto
  ultimately have "takeWhile (\<lambda>r. lrStart r \<le> lrEnd x) rs = A @ M"
    using parts(2) by (simp add: rs takeWhile_append)
  moreover have "trueThenFalse (\<lambda>r. lrStart r \<le> lrEnd x) rs"
    using separated_falls(3) [OF sep] by (simp add: trueThenFalse_def)
  ultimately have "joinRangeEndIdxExclusive rs x = int (length A + length M)"
    by (simp add: joinRangeEndIdxExclusive_def findLastIdxMonotonous_eq)
  with i rs parts that show thesis by blast
qed

text \<open>C6. Adding a line range to a set never throws, keeps the invariant of the class (sorted, no two
  ranges touching, none empty) and adds exactly the lines of the range.\<close>

theorem LineRangeSet_addRange_correct:
  assumes wf: "lrs_wf s" and x: "lr_wf x"
  shows "\<exists>s'. LineRangeSet_addRange s x = Inr s' \<and> lrs_wf s' \<and> lrs_set s' = lrs_set s \<union> lr_set x"
proof (cases "lrStart x = lrEnd x")
  case True
  then show ?thesis using wf by (simp add: LineRangeSet_addRange_def LineRange_length_def lr_set_def)
next
  case ne: False
  let ?rs = "normalizedRanges s"
  have le: "lrStart x \<le> lrEnd x" and lt: "lrStart x < lrEnd x" using x ne by (auto simp: lr_wf_def)
  have ok: "lr_ok ?rs" and sep: "separated lrStart lrEnd ?rs"
    using wf by (auto simp: lrs_wf_def lr_ok_def)
  obtain A M B where rs: "?rs = A @ M @ B" and i: "joinRangeStartIdx ?rs x = length A"
    and j: "joinRangeEndIdxExclusive ?rs x = int (length A + length M)"
    and parts: "\<forall>a \<in> set A. lrEnd a < lrStart x"
      "\<forall>m \<in> set M. lrStart x \<le> lrEnd m \<and> lrStart m \<le> lrEnd x"
      "\<forall>b \<in> set B. lrEnd x < lrStart b"
    by (rule joinRange_split [OF sep le])
  have finish: ?thesis if eq: "LineRangeSet_addRange s x = Inr (s\<lparr>normalizedRanges := A @ [y] @ B\<rparr>)"
    and y: "separated lrStart lrEnd (A @ [y] @ B)" "lines (A @ [y] @ B) = lines (A @ M @ B) \<union> lr_set x"
      "lrStart y < lrEnd y" for y
    using ok rs y unfolding eq by (auto simp: lrs_wf_def lr_ok_def lrs_set_def)
  have unfold: "LineRangeSet_addRange s x =
     (if M = [] then Inr (s\<lparr>normalizedRanges := js_splice ?rs (int (length A)) 0 [x]\<rparr>)
      else if length M = 1
      then bindr (LineRange_join (?rs ! length A) x) (\<lambda>r. Inr (s\<lparr>normalizedRanges := ?rs[length A := r]\<rparr>))
      else bindr (LineRange_join (?rs ! length A) (?rs ! (length A + length M - 1))) (\<lambda>r.
           bindr (LineRange_join r x) (\<lambda>r'.
           Inr (s\<lparr>normalizedRanges :=
             js_splice ?rs (int (length A)) (int (length A + length M) - int (length A)) [r']\<rparr>))))"
  proof -
    have "nat (int (length A) + int (length M) - 1) = length A + length M - Suc 0" by arith
    with ne show ?thesis by (simp add: LineRangeSet_addRange_def LineRange_length_def i j Let_def)
  qed
  show ?thesis
  proof (cases "M = []")
    case True
    with finish [of x] lt line_interval.insert_separated [of A B x, OF _ le parts(1,3)] sep rs
    show ?thesis by (simp add: unfold js_splice_insert [of A B "[x]", simplified] lr_set_def)
  next
    case False
    define y where "y = LR (min (lrStart x) (lrStart (hd M))) (max (lrEnd x) (lrEnd (last M)))"
    have M: "hd M \<in> set M" "last M \<in> set M" using False by auto
    then have wfM: "lr_wf (hd M)" "lrStart (hd M) \<le> lrStart (last M)" "lrEnd (hd M) \<le> lrEnd (last M)"
    proof -
      have sepM: "separated lrStart lrEnd M" using sep rs by (simp add: separated_append)
      then show "lr_wf (hd M)" using M by (simp add: separated_def lr_wf_def)
      show "lrStart (hd M) \<le> lrStart (last M)" "lrEnd (hd M) \<le> lrEnd (last M)"
        using separated_bounds [OF sepM] M by blast+
    qed
    have "LineRangeSet_addRange s x = Inr (s\<lparr>normalizedRanges := A @ [y] @ B\<rparr>)"
    proof (cases "length M = 1")
      case True
      then obtain m where "M = [m]" by (cases M) auto
      with wfM(1) show ?thesis
        unfolding unfold by (simp add: rs LineRange_join_wf y_def min.commute max.commute)
    next
      case False
      have "LineRange_join (hd M) (last M) = Inr (LR (lrStart (hd M)) (lrEnd (last M)))"
        using wfM by (simp add: LineRange_join_wf min_absorb1 max_absorb2)
      moreover have "LineRange_join (LR (lrStart (hd M)) (lrEnd (last M))) x = Inr y"
        using wfM by (simp add: LineRange_join_wf lr_wf_def y_def min.commute max.commute)
      ultimately show ?thesis
        unfolding unfold using False \<open>M \<noteq> []\<close> js_splice_middle [of A M B "[y]"]
        by (simp add: rs nth_middle_hd nth_middle_last [simplified])
    qed
    moreover have "lrStart y < lrEnd y" using lt by (simp add: y_def min_less_iff_disj less_max_iff_disj)
    ultimately show ?thesis
      using finish line_interval.replace_separated [OF _ False le parts(1,3,2), folded y_def] sep rs
      by (simp add: lr_set_def)
  qed
qed

theorem LineRangeSet_addRange_correct_witness:
  "\<exists>s'. LineRangeSet_addRange (LineRangeSet_new [LR 1 3, LR 5 7, LR 9 10]) (LR 3 9) = Inr s' \<and> lrs_wf s'
      \<and> lrs_set s' = {1 ..< 10}"
proof -
  have "lrs_wf (LineRangeSet_new [LR 1 3, LR 5 7, LR 9 10])" "lr_wf (LR 3 9)"
    by (simp_all add: lrs_wf_def lr_ok_Cons lr_wf_def)
  moreover have "lrs_set (LineRangeSet_new [LR 1 3, LR 5 7, LR 9 10]) \<union> lr_set (LR 3 9) = {1 ..< 10}"
    by (auto simp: lrs_set_def lr_set_def)
  ultimately show ?thesis using LineRangeSet_addRange_correct by metis
qed


section \<open>Queries\<close>

lemma find_last_query:
  assumes sep: "separated lrStart lrEnd rs" and p: "trueThenFalse p rs"
  shows "(case findLastMonotonous rs p of None \<Rightarrow> False | Some r \<Rightarrow> lrEnd r > w) \<longleftrightarrow>
         (\<exists>r \<in> set rs. p r \<and> lrEnd r > w)"
proof (cases "filter p rs = []")
  case True
  then show ?thesis by (auto simp: findLastMonotonous_eq [OF p] filter_empty_conv)
next
  case False
  have "separated lrStart lrEnd (filter p rs)"
    using sep by (auto simp: separated_def sorted_wrt_filter)
  then have "lrEnd r \<le> lrEnd (last (filter p rs))" if "r \<in> set rs" "p r" for r
    using separated_bounds [of lrStart lrEnd "filter p rs" r] that by simp
  moreover have "last (filter p rs) \<in> set rs" "p (last (filter p rs))"
    using last_in_set [OF False] by auto
  ultimately show ?thesis using False by (auto simp: findLastMonotonous_eq [OF p]) (meson less_le_trans)
qed

lemma lines_iff: "n \<in> lines rs \<longleftrightarrow> (\<exists>r \<in> set rs. lrStart r \<le> n \<and> n < lrEnd r)"
  by (auto simp: covered_def)

text \<open>The binary searches of a line range set answer membership of a line and strict intersection
  with a line range exactly.\<close>

theorem LineRangeSet_queries_correct:
  assumes "lrs_wf s"
  shows "LineRangeSet_contains s n = (n \<in> lrs_set s)
    \<and> LineRangeSet_intersects s x = (\<exists>r \<in> set (normalizedRanges s). LineRange_intersectsStrict r x)"
proof -
  have sep: "separated lrStart lrEnd (normalizedRanges s)"
    using assms by (simp add: lrs_wf_def lr_ok_separated)
  have "trueThenFalse (\<lambda>r. lrStart r \<le> n) (normalizedRanges s)"
    "trueThenFalse (\<lambda>r. lrStart r < lrEnd x) (normalizedRanges s)"
    using separated_falls(3,4) [OF sep] by (simp_all add: trueThenFalse_def)
  from this [THEN find_last_query [OF sep]] show ?thesis
    by (auto simp: LineRangeSet_contains_def LineRangeSet_intersects_def lrs_set_def lines_iff
        LineRange_intersectsStrict_def)
qed

theorem LineRangeSet_queries_correct_witness:
  "LineRangeSet_contains (LineRangeSet_new [LR 1 3, LR 5 7]) 5
   \<and> \<not> LineRangeSet_intersects (LineRangeSet_new [LR 1 3, LR 5 7]) (LR 3 5)"
proof -
  have "lrs_wf (LineRangeSet_new [LR 1 3, LR 5 7])" by (simp add: lrs_wf_def lr_ok_Cons)
  from LineRangeSet_queries_correct [OF this, of 5 "LR 3 5"] show ?thesis
    by (simp add: lrs_set_def LineRange_intersectsStrict_def)
qed

section \<open>Union\<close>

definition pending :: "LineRange option \<Rightarrow> LineRange list" where
  "pending c = (case c of None \<Rightarrow> [] | Some r \<Rightarrow> [r])"

definition getUnion_inv :: "LineRange option \<Rightarrow> LineRange list \<Rightarrow> LineRange list \<Rightarrow> bool" where
  "getUnion_inv c res rest \<longleftrightarrow> lr_ok (res @ pending c) \<and> (c = None \<longrightarrow> res = [])
     \<and> (\<forall>x \<in> set (pending c). \<forall>r \<in> set rest. lrStart x \<le> lrStart r)"

lemma getUnion_take_step:
  assumes "getUnion_inv c res (n # rest)" and "lrStart n < lrEnd n" and "\<forall>r \<in> set rest. lrStart n \<le> lrStart r"
  shows "\<exists>c' res'. getUnion_take c res n = Inr (c', res') \<and> getUnion_inv c' res' rest
    \<and> lines (res' @ pending c') = lines (res @ pending c) \<union> lr_set n"
proof (cases c)
  case None
  with assms show ?thesis by (auto simp: getUnion_take_def getUnion_inv_def pending_def lr_ok_Cons lr_set_def)
next
  case (Some x)
  with assms show ?thesis
    by (fastforce simp: getUnion_take_def getUnion_inv_def pending_def lr_ok_Cons lr_ok_append lr_set_def
        split: if_splits)
qed

lemma getUnion_loop_correct:
  "getUnion_inv c res (rs1 @ rs2) \<Longrightarrow> lr_ok rs1 \<Longrightarrow> lr_ok rs2 \<Longrightarrow>
   \<exists>out. getUnion_loop rs1 rs2 c res = Inr out \<and> lr_ok out
     \<and> lines out = lines (res @ pending c) \<union> lines rs1 \<union> lines rs2"
proof (induction rs1 rs2 c res rule: getUnion_loop.induct)
  case (1 c res)
  then show ?case by (cases c) (auto simp: getUnion_inv_def pending_def)
next
  case (2 r1 rs1 c res)
  have ok: "lrStart r1 < lrEnd r1" "lr_ok rs1" "\<forall>r \<in> set rs1. lrStart r1 \<le> lrStart r"
    using "2.prems"(2) by (auto simp: lr_ok_Cons)
  from getUnion_take_step [of c res r1 rs1] 2 ok obtain c' res' where
    t: "getUnion_take c res r1 = Inr (c', res')" "getUnion_inv c' res' rs1"
      "lines (res' @ pending c') = lines (res @ pending c) \<union> lr_set r1" by auto
  from "2.IH" [OF t(1) refl] t ok show ?case by (auto simp: lr_set_def)
next
  case (3 r2 rs2 c res)
  have ok: "lrStart r2 < lrEnd r2" "lr_ok rs2" "\<forall>r \<in> set rs2. lrStart r2 \<le> lrStart r"
    using "3.prems"(3) by (auto simp: lr_ok_Cons)
  from getUnion_take_step [of c res r2 rs2] 3 ok obtain c' res' where
    t: "getUnion_take c res r2 = Inr (c', res')" "getUnion_inv c' res' rs2"
      "lines (res' @ pending c') = lines (res @ pending c) \<union> lr_set r2" by auto
  from "3.IH" [OF t(1) refl] t ok show ?case by (auto simp: lr_set_def)
next
  case (4 r1 rs1 r2 rs2 c res)
  have ok: "lrStart r1 < lrEnd r1" "lr_ok rs1" "\<forall>r \<in> set rs1. lrStart r1 \<le> lrStart r"
    "lrStart r2 < lrEnd r2" "lr_ok rs2" "\<forall>r \<in> set rs2. lrStart r2 \<le> lrStart r"
    using "4.prems"(2,3) by (auto simp: lr_ok_Cons)
  show ?case
  proof (cases "lrStart r1 < lrStart r2")
    case True
    then have "\<forall>r \<in> set (rs1 @ r2 # rs2). lrStart r1 \<le> lrStart r" using ok by force
    with getUnion_take_step [of c res r1 "rs1 @ r2 # rs2"] 4(3) ok obtain c' res' where
      t: "getUnion_take c res r1 = Inr (c', res')" "getUnion_inv c' res' (rs1 @ r2 # rs2)"
        "lines (res' @ pending c') = lines (res @ pending c) \<union> lr_set r1" by auto
    from 4(1) [OF True t(1) refl] t ok 4(5) True show ?thesis by (auto simp: lr_set_def)
  next
    case False
    then have "\<forall>r \<in> set (r1 # rs1 @ rs2). lrStart r2 \<le> lrStart r" using ok by force
    moreover have "getUnion_inv c res (r2 # r1 # rs1 @ rs2)"
      using 4(3) by (auto simp: getUnion_inv_def)
    ultimately obtain c' res' where
      t: "getUnion_take c res r2 = Inr (c', res')" "getUnion_inv c' res' ((r1 # rs1) @ rs2)"
        "lines (res' @ pending c') = lines (res @ pending c) \<union> lr_set r2"
      using getUnion_take_step [of c res r2 "r1 # rs1 @ rs2"] ok by auto
    from 4(2) [OF False t(1) refl] t ok 4(4) False show ?thesis by (auto simp: lr_set_def)
  qed
qed

lemma LineRangeSet_getUnion_loop:
  assumes "lrs_wf a" and "lr_ok rs"
  shows "\<exists>u. LineRangeSet_getUnion a (LineRangeSet_new rs) = Inr u \<and> lrs_wf u \<and> lrs_set u = lrs_set a \<union> lines rs"
proof -
  have "getUnion_inv None [] (normalizedRanges a @ rs)"
    by (simp add: getUnion_inv_def pending_def)
  from getUnion_loop_correct [OF this] assms show ?thesis
    by (auto simp: LineRangeSet_getUnion_def lrs_wf_def lrs_set_def pending_def)
qed

text \<open>C33. The merge of two line range sets never throws and yields the invariant and the union of their
  lines.\<close>

theorem LineRangeSet_getUnion_correct:
  assumes "lrs_wf a" and "lrs_wf b"
  shows "\<exists>u. LineRangeSet_getUnion a b = Inr u \<and> lrs_wf u \<and> lrs_set u = lrs_set a \<union> lrs_set b"
proof -
  have "lr_ok (normalizedRanges b)" "LineRangeSet_new (normalizedRanges b) = b"
    using assms(2) by (simp_all add: lrs_wf_def LineRangeSet_new_def)
  with LineRangeSet_getUnion_loop [OF assms(1)] show ?thesis by (metis lrs_set_def)
qed

theorem LineRangeSet_getUnion_correct_witness:
  "\<exists>u. LineRangeSet_getUnion (LineRangeSet_new [LR 1 3, LR 8 9]) (LineRangeSet_new [LR 3 5]) = Inr u
     \<and> lrs_wf u \<and> lrs_set u = {1 ..< 5} \<union> {8 ..< 9}"
proof -
  have "lrs_wf (LineRangeSet_new [LR 1 3, LR 8 9])" "lrs_wf (LineRangeSet_new [LR 3 5])"
    by (simp_all add: lrs_wf_def lr_ok_Cons)
  moreover have "lrs_set (LineRangeSet_new [LR 1 3, LR 8 9]) \<union> lrs_set (LineRangeSet_new [LR 3 5])
      = {1 ..< 5} \<union> {8 ..< 9}"
    by (auto simp: lrs_set_def)
  ultimately show ?thesis using LineRangeSet_getUnion_correct by metis
qed

text \<open>\<open>LineRange.joinMany\<close> folds the union over arrays of ranges.\<close>

lemma LineRange_joinMany_loop_correct:
  "lrs_wf res \<Longrightarrow> \<forall>rs \<in> set rss. lr_ok rs \<Longrightarrow>
   \<exists>u. LineRange_joinMany_loop rss res = Inr u \<and> lrs_wf u \<and> lrs_set u = lrs_set res \<union> (\<Union>rs \<in> set rss. lines rs)"
proof (induction rss arbitrary: res)
  case (Cons rs rss)
  from LineRangeSet_getUnion_loop [of res rs] Cons.prems obtain u where
    u: "LineRangeSet_getUnion res (LineRangeSet_new rs) = Inr u" "lrs_wf u" "lrs_set u = lrs_set res \<union> lines rs"
    by auto
  with Cons.IH [of u] Cons.prems show ?case by auto
qed auto

lemma LineRange_joinMany_correct:
  assumes "\<forall>rs \<in> set rss. lr_ok rs"
  shows "\<exists>out. LineRange_joinMany rss = Inr out \<and> lr_ok out \<and> lines out = (\<Union>rs \<in> set rss. lines rs)"
proof (cases rss)
  case Nil
  then show ?thesis by (simp add: LineRange_joinMany_def)
next
  case (Cons rs rss')
  then have "lrs_wf (LineRangeSet_new rs)" "\<forall>rs \<in> set rss'. lr_ok rs"
    using assms by (simp_all add: lrs_wf_def)
  from LineRange_joinMany_loop_correct [OF this] Cons show ?thesis
    by (auto simp: LineRange_joinMany_def lrs_wf_def lrs_set_def)
qed

section \<open>Subtraction\<close>

lemma subtractFrom_loop_correct:
  "lr_ok M \<Longrightarrow> M \<noteq> [] \<longrightarrow> s \<le> lrEnd (hd M) \<Longrightarrow> lr_ok res \<Longrightarrow> \<forall>p \<in> set res. lrEnd p < s \<Longrightarrow>
   \<exists>res'. subtractFrom_loop M s res = Inr (if M = [] then s else lrEnd (last M), res') \<and> lr_ok res'
     \<and> (\<forall>p \<in> set res'. lrEnd p < (if M = [] then s else lrEnd (last M)))
     \<and> lines res' = lines res \<union> ({s ..< (if M = [] then s else lrEnd (last M))} - lines M)"
proof (induction M arbitrary: s res)
  case (Cons r rs)
  define res1 where "res1 = (if lrStart r > s then res @ [LR s (lrStart r)] else res)"
  have r: "lrStart r < lrEnd r" "lr_ok rs" "\<forall>x \<in> set rs. lrEnd r < lrStart x" "s \<le> lrEnd r"
    using Cons.prems by (auto simp: lr_ok_Cons)
  have step: "subtractFrom_loop (r # rs) s res = subtractFrom_loop rs (lrEnd r) res1"
    by (simp add: res1_def)
  have nxt: "rs \<noteq> [] \<longrightarrow> lrEnd r \<le> lrEnd (hd rs)"
    using r(2,3) by (cases rs) (auto simp: lr_ok_Cons)
  have ok1: "lr_ok res1" "\<forall>p \<in> set res1. lrEnd p < lrEnd r"
    using Cons.prems(3,4) r(1,4) by (auto simp: res1_def lr_ok_append lr_ok_Cons split: if_splits)
  have l1: "lines res1 = lines res \<union> ({s ..< lrEnd r} - lr_set r)"
    using r(1) by (auto simp: res1_def lr_set_def)
  define e where "e = (if rs = [] then lrEnd r else lrEnd (last rs))"
  have "lrEnd r \<le> e"
    using nxt r(2,3) separated_bounds [of lrStart lrEnd rs "hd rs"] by (auto simp: e_def lr_ok_def)
  moreover from Cons.IH [OF r(2) nxt ok1, folded e_def] obtain res' where
    "subtractFrom_loop rs (lrEnd r) res1 = Inr (e, res')" "lr_ok res'" "\<forall>p \<in> set res'. lrEnd p < e"
    "lines res' = lines res1 \<union> ({lrEnd r ..< e} - lines rs)" by blast
  moreover have "lines rs \<inter> {s ..< lrEnd r} = {}" using r(3) by (fastforce simp: lines_iff)
  moreover have "(if r # rs = [] then s else lrEnd (last (r # rs))) = e" by (simp add: e_def)
  ultimately show ?case using r(1,4) unfolding step l1 by (auto simp: lr_set_def)
qed simp

text \<open>C34. \<open>subtractFrom\<close> never throws on a non-empty line range and returns, in the invariant of the
  class, exactly the lines of the range that the set does not contain.\<close>

theorem LineRangeSet_subtractFrom_correct:
  assumes wf: "lrs_wf s" and x: "lrStart x < lrEnd x"
  shows "\<exists>d. LineRangeSet_subtractFrom s x = Inr d \<and> lrs_wf d \<and> lrs_set d = lr_set x - lrs_set s"
proof -
  let ?rs = "normalizedRanges s"
  have ok: "lr_ok ?rs" and sep: "separated lrStart lrEnd ?rs"
    using wf by (simp_all add: lrs_wf_def lr_ok_separated)
  obtain A M B where rs: "?rs = A @ M @ B" and i: "joinRangeStartIdx ?rs x = length A"
    and j: "joinRangeEndIdxExclusive ?rs x = int (length A + length M)"
    and parts: "\<forall>a \<in> set A. lrEnd a < lrStart x"
      "\<forall>m \<in> set M. lrStart x \<le> lrEnd m \<and> lrStart m \<le> lrEnd x"
      "\<forall>b \<in> set B. lrEnd x < lrStart b"
    by (rule joinRange_split [OF sep less_imp_le [OF x]])
  have out: "lr_set x \<inter> lines A = {}" "lr_set x \<inter> lines B = {}"
    using parts(1,3) by (fastforce simp: lr_set_def lines_iff)+
  have call: "LineRangeSet_subtractFrom s x =
     (if M = [] then Inr (LineRangeSet_new [x])
      else bindr (subtractFrom_loop M (lrStart x) []) (\<lambda>(startLine, res).
           bindr (if startLine < lrEnd x
                  then bindr (LineRange_new startLine (lrEnd x)) (\<lambda>r. Inr (res @ [r])) else Inr res)
             (\<lambda>res'. Inr (LineRangeSet_new res'))))"
    using i [unfolded rs] j [unfolded rs] by (simp add: LineRangeSet_subtractFrom_def Let_def rs)
  show ?thesis
  proof (cases "M = []")
    case True
    then show ?thesis using out x unfolding call
      by (auto simp: lrs_wf_def lr_ok_Cons lrs_set_def lr_set_def rs)
  next
    case False
    define e where "e = lrEnd (last M)"
    have M: "lr_ok M" "hd M \<in> set M" "last M \<in> set M" using ok rs False by (auto simp: lr_ok_append)
    from subtractFrom_loop_correct [OF M(1), of "lrStart x" "[]"] M(2) parts(2) False obtain res where
      res: "subtractFrom_loop M (lrStart x) [] = Inr (e, res)" "lr_ok res" "\<forall>p \<in> set res. lrEnd p < e"
        "lines res = {lrStart x ..< e} - lines M" by (auto simp: e_def)
    have e: "lrStart x \<le> e" "{lrEnd x ..< e} \<subseteq> lines M"
      using bspec [OF parts(2) M(3)] M(3)
      by (auto simp: e_def lines_iff intro!: bexI [of _ "last M"])
    have "lines M \<inter> {e ..< lrEnd x} = {}"
      using separated_bounds [of lrStart lrEnd M] M(1) by (fastforce simp: e_def lines_iff lr_ok_def)
    with e out have "lr_set x - lines ?rs = ({lrStart x ..< e} - lines M) \<union> {e ..< lrEnd x}"
      unfolding rs by (simp add: set_eq_iff subset_iff lr_set_def) (meson not_less order.trans)
    then show ?thesis
      using res False unfolding call by (auto simp: lrs_wf_def lrs_set_def lr_ok_append lr_ok_Cons)
  qed
qed

theorem LineRangeSet_subtractFrom_correct_witness:
  "\<exists>d. LineRangeSet_subtractFrom (LineRangeSet_new [LR 1 3, LR 5 7]) (LR 2 9) = Inr d \<and> lrs_wf d
     \<and> lrs_set d = {3 ..< 5} \<union> {7 ..< 9}"
proof -
  have "lrs_wf (LineRangeSet_new [LR 1 3, LR 5 7])" "lrStart (LR 2 9) < lrEnd (LR 2 9)"
    by (simp_all add: lrs_wf_def lr_ok_Cons)
  moreover have "lr_set (LR 2 9) - lrs_set (LineRangeSet_new [LR 1 3, LR 5 7]) = {3 ..< 5} \<union> {7 ..< 9}"
    by (auto simp: lrs_set_def lr_set_def)
  ultimately show ?thesis using LineRangeSet_subtractFrom_correct by metis
qed

text \<open>On an empty range next to no range of the set, the result holds that empty range.\<close>

lemma LineRangeSet_subtractFrom_empty:
  "LineRangeSet_subtractFrom (LineRangeSet_new []) (LR 4 4) = Inr (LineRangeSet_new [LR 4 4])"
proof -
  have "joinRangeStartIdx [] x = 0" "joinRangeEndIdxExclusive [] x = 0" for x
    by (simp_all add: joinRangeStartIdx_def joinRangeEndIdxExclusive_def findLastIdxMonotonous_def
      findFirstIdxMonotonousOrArrLen_def findFirstIdxMonotonousOrArrLen_loop.simps
      findLastIdxMonotonous_loop.simps)
  then show ?thesis by (simp add: LineRangeSet_subtractFrom_def)
qed

section \<open>Intersection and translation\<close>

definition behind :: "LineRange list \<Rightarrow> LineRange list \<Rightarrow> LineRange list \<Rightarrow> bool" where
  "behind res rs1 rs2 \<longleftrightarrow>
     (\<forall>p \<in> set res. (\<forall>r \<in> set rs1. lrEnd p < lrStart r) \<or> (\<forall>r \<in> set rs2. lrEnd p < lrStart r))"

definition getIntersection_push :: "LineRange \<Rightarrow> LineRange \<Rightarrow> LineRange list \<Rightarrow> LineRange list" where
  "getIntersection_push r1 r2 res =
     (let s = max (lrStart r1) (lrStart r2); e = min (lrEnd r1) (lrEnd r2)
      in if s < e then res @ [LR s e] else res)"

lemma getIntersection_loop_step:
  "getIntersection_loop (r1 # rs1) (r2 # rs2) res =
     (if lrEnd r1 < lrEnd r2 then getIntersection_loop rs1 (r2 # rs2) (getIntersection_push r1 r2 res)
      else getIntersection_loop (r1 # rs1) rs2 (getIntersection_push r1 r2 res))"
  by (auto simp: LineRange_intersect_def getIntersection_push_def LineRange_isEmpty_def Let_def
      simp del: max_less_iff_conj min_less_iff_conj)

lemma getIntersection_push_ok:
  assumes res: "lr_ok res" and behind: "behind res (r1 # rs1) (r2 # rs2)"
    and ok: "lr_ok (r1 # rs1)" "lr_ok (r2 # rs2)"
  shows "lr_ok (getIntersection_push r1 r2 res)"
    and "lines (getIntersection_push r1 r2 res) = lines res \<union> (lr_set r1 \<inter> lr_set r2)"
    and "lrEnd r1 < lrEnd r2 \<Longrightarrow> behind (getIntersection_push r1 r2 res) rs1 (r2 # rs2)"
    and "\<not> lrEnd r1 < lrEnd r2 \<Longrightarrow> behind (getIntersection_push r1 r2 res) (r1 # rs1) rs2"
proof -
  have "lrEnd p < max (lrStart r1) (lrStart r2)" if "p \<in> set res" for p
    using behind that by (auto simp: behind_def less_max_iff_disj)
  with res show "lr_ok (getIntersection_push r1 r2 res)"
    by (simp add: getIntersection_push_def Let_def lr_ok_append lr_ok_Cons
        del: max_less_iff_conj min_less_iff_conj)
  show "lines (getIntersection_push r1 r2 res) = lines res \<union> (lr_set r1 \<inter> lr_set r2)"
    by (auto simp: getIntersection_push_def Let_def lr_set_def)
  have "set (getIntersection_push r1 r2 res) \<subseteq>
      insert (LR (max (lrStart r1) (lrStart r2)) (min (lrEnd r1) (lrEnd r2))) (set res)"
    by (auto simp: getIntersection_push_def Let_def)
  moreover have "\<forall>r \<in> set rs1. lrEnd r1 < lrStart r" "\<forall>r \<in> set rs2. lrEnd r2 < lrStart r"
    using ok by (simp_all add: lr_ok_Cons)
  ultimately show "lrEnd r1 < lrEnd r2 \<Longrightarrow> behind (getIntersection_push r1 r2 res) rs1 (r2 # rs2)"
    "\<not> lrEnd r1 < lrEnd r2 \<Longrightarrow> behind (getIntersection_push r1 r2 res) (r1 # rs1) rs2"
    using behind by (fastforce simp: behind_def)+
qed

lemma getIntersection_loop_correct:
  "lr_ok rs1 \<Longrightarrow> lr_ok rs2 \<Longrightarrow> lr_ok res \<Longrightarrow> behind res rs1 rs2 \<Longrightarrow>
   \<exists>out. getIntersection_loop rs1 rs2 res = Inr out \<and> lr_ok out
     \<and> lines out = lines res \<union> (lines rs1 \<inter> lines rs2)"
proof (induction "length rs1 + length rs2" arbitrary: rs1 rs2 res rule: less_induct)
  case less
  show ?case
  proof (cases "rs1 = [] \<or> rs2 = []")
    case True
    then show ?thesis using less.prems(3) by (cases rs1; cases rs2) auto
  next
    case False
    then obtain r1 t1 r2 t2 where rs: "rs1 = r1 # t1" "rs2 = r2 # t2" by (meson list.exhaust)
    note push = getIntersection_push_ok [OF less.prems(3,4,1,2) [unfolded rs]]
    have ok: "lr_ok t1" "lr_ok t2" "\<forall>r \<in> set t1. lrEnd r1 < lrStart r" "\<forall>r \<in> set t2. lrEnd r2 < lrStart r"
      using less.prems(1,2) by (auto simp: rs lr_ok_Cons)
    show ?thesis
    proof (cases "lrEnd r1 < lrEnd r2")
      case True
      have "lr_set r1 \<inter> lines t2 = {}" using ok(4) True by (fastforce simp: lr_set_def lines_iff)
      then show ?thesis
        using less.hyps [of t1 "r2 # t2" "getIntersection_push r1 r2 res"] push ok less.prems(2) True
        unfolding rs getIntersection_loop_step by (auto simp: lr_set_def)
    next
      case False
      have "lr_set r2 \<inter> lines t1 = {}" using ok(3) False by (fastforce simp: lr_set_def lines_iff)
      then show ?thesis
        using less.hyps [of "r1 # t1" t2 "getIntersection_push r1 r2 res"] push ok less.prems(1) False
        unfolding rs getIntersection_loop_step by (auto simp: lr_set_def)
    qed
  qed
qed

text \<open>C35. The intersection of two line range sets never throws and yields the invariant and the
  intersection of their lines.\<close>

theorem LineRangeSet_getIntersection_correct:
  assumes "lrs_wf a" and "lrs_wf b"
  shows "\<exists>u. LineRangeSet_getIntersection a b = Inr u \<and> lrs_wf u \<and> lrs_set u = lrs_set a \<inter> lrs_set b"
  using getIntersection_loop_correct [of "normalizedRanges a" "normalizedRanges b" "[]"] assms
  by (auto simp: LineRangeSet_getIntersection_def lrs_wf_def lrs_set_def behind_def)

theorem LineRangeSet_getIntersection_correct_witness:
  "\<exists>u. LineRangeSet_getIntersection (LineRangeSet_new [LR 1 3, LR 5 9]) (LineRangeSet_new [LR 2 6]) = Inr u
     \<and> lrs_wf u \<and> lrs_set u = {2 ..< 3} \<union> {5 ..< 6}"
proof -
  have "lrs_wf (LineRangeSet_new [LR 1 3, LR 5 9])" "lrs_wf (LineRangeSet_new [LR 2 6])"
    by (simp_all add: lrs_wf_def lr_ok_Cons)
  moreover have "lrs_set (LineRangeSet_new [LR 1 3, LR 5 9]) \<inter> lrs_set (LineRangeSet_new [LR 2 6])
      = {2 ..< 3} \<union> {5 ..< 6}"
    by (auto simp: lrs_set_def)
  ultimately show ?thesis using LineRangeSet_getIntersection_correct by metis
qed

lemma LineRangeSet_getWithDelta_correct:
  assumes "lrs_wf s"
  shows "\<exists>t. LineRangeSet_getWithDelta s d = Inr t \<and> lrs_wf t \<and> lrs_set t = (\<lambda>n. n + d) ` lrs_set s"
proof -
  let ?f = "\<lambda>r. LR (lrStart r + d) (lrEnd r + d)"
  have "mapr (\<lambda>r. LineRange_delta r d) (normalizedRanges s) = Inr (map ?f (normalizedRanges s))"
    using assms by (intro mapr_Inr) (auto simp: LineRange_delta_def lrs_wf_def lr_ok_def)
  moreover have "lr_ok (map ?f rs)" if "lr_ok rs" for rs
    using that by (induction rs) (auto simp: lr_ok_Cons)
  moreover have "lines (map ?f rs) = (\<lambda>n. n + d) ` lines rs" for rs
    by (induction rs) (auto simp: image_Un image_add_atLeastLessThan')
  ultimately show ?thesis
    using assms by (auto simp: LineRangeSet_getWithDelta_def lrs_wf_def lrs_set_def)
qed

end
