(* ===== verification/Text_Length.thy ===== *)
theory Text_Length
  imports Line_Range
begin

text \<open>
  Text lengths: \<open>src/vs/editor/common/core/text/textLength.ts\<close>. A length counts line breaks and the
  columns of the last line. Lengths of concatenated texts add up, positions are moved by adding a
  length, and the distance of two positions is a length; the laws below say that these three views
  agree. \<open>for (const c of text)\<close> walks over code points, so a surrogate pair counts as one column.
\<close>

record TextLength =
  lineCount :: int
  columnCount :: int

definition TextLength_new :: "int \<Rightarrow> int \<Rightarrow> TextLength" where
  "TextLength_new l c = \<lparr>lineCount = l, columnCount = c\<rparr>"

definition TextLength_zero :: TextLength where
  "TextLength_zero = TextLength_new 0 0"

definition TextLength_isZero :: "TextLength \<Rightarrow> bool" where
  "TextLength_isZero t \<longleftrightarrow> lineCount t = 0 \<and> columnCount t = 0"

definition TextLength_isLessThan :: "TextLength \<Rightarrow> TextLength \<Rightarrow> bool" where
  "TextLength_isLessThan t other =
     (if lineCount t \<noteq> lineCount other then lineCount t < lineCount other
      else columnCount t < columnCount other)"

definition TextLength_isGreaterThan :: "TextLength \<Rightarrow> TextLength \<Rightarrow> bool" where
  "TextLength_isGreaterThan t other =
     (if lineCount t \<noteq> lineCount other then lineCount t > lineCount other
      else columnCount t > columnCount other)"

definition TextLength_isGreaterThanOrEqualTo :: "TextLength \<Rightarrow> TextLength \<Rightarrow> bool" where
  "TextLength_isGreaterThanOrEqualTo t other =
     (if lineCount t \<noteq> lineCount other then lineCount t > lineCount other
      else columnCount t \<ge> columnCount other)"

definition TextLength_equals :: "TextLength \<Rightarrow> TextLength \<Rightarrow> bool" where
  "TextLength_equals t other \<longleftrightarrow> lineCount t = lineCount other \<and> columnCount t = columnCount other"

definition TextLength_compare :: "TextLength \<Rightarrow> TextLength \<Rightarrow> int" where
  "TextLength_compare t other =
     (if lineCount t \<noteq> lineCount other then lineCount t - lineCount other
      else columnCount t - columnCount other)"

definition TextLength_lengthDiffNonNegative :: "TextLength \<Rightarrow> TextLength \<Rightarrow> TextLength" where
  "TextLength_lengthDiffNonNegative s e =
     (if TextLength_isLessThan e s then TextLength_zero
      else if lineCount s = lineCount e then TextLength_new 0 (columnCount e - columnCount s)
      else TextLength_new (lineCount e - lineCount s) (columnCount e))"

definition TextLength_betweenPositions :: "position \<Rightarrow> position \<Rightarrow> TextLength" where
  "TextLength_betweenPositions p1 p2 =
     (if lineNumber p1 = lineNumber p2 then TextLength_new 0 (column p2 - column p1)
      else TextLength_new (lineNumber p2 - lineNumber p1) (column p2 - 1))"

definition TextLength_fromPosition :: "position \<Rightarrow> TextLength" where
  "TextLength_fromPosition pos = TextLength_new (lineNumber pos - 1) (column pos - 1)"

definition TextLength_ofRange :: "'a range_scheme \<Rightarrow> TextLength" where
  "TextLength_ofRange r = TextLength_betweenPositions (Range_getStartPosition r) (Range_getEndPosition r)"

text \<open>String iteration: the code points of a string, each as its one or two code units.\<close>

definition is_high :: "16 word \<Rightarrow> bool" where
  "is_high u \<longleftrightarrow> 0xD800 \<le> u \<and> u < 0xDC00"

definition is_low :: "16 word \<Rightarrow> bool" where
  "is_low u \<longleftrightarrow> 0xDC00 \<le> u \<and> u < 0xE000"

fun code_points :: "utf16 \<Rightarrow> utf16 list" where
  "code_points [] = []"
| "code_points [u] = [[u]]"
| "code_points (u # v # us) =
     (if is_high u \<and> is_low v then [u, v] # code_points us else [u] # code_points (v # us))"

definition ofText_step :: "int \<times> int \<Rightarrow> utf16 \<Rightarrow> int \<times> int" where
  "ofText_step = (\<lambda>(line, col) c. if c = [10] then (line + 1, 0) else (line, col + 1))"

definition TextLength_ofText :: "utf16 \<Rightarrow> TextLength" where
  "TextLength_ofText text =
     (let (line, col) = foldl ofText_step (0, 0) (code_points text) in TextLength_new line col)"

definition TextLength_ofSubstr :: "utf16 \<Rightarrow> OffsetRange \<Rightarrow> TextLength" where
  "TextLength_ofSubstr str r = TextLength_ofText (OffsetRange_substring r str)"

definition TextLength_add :: "TextLength \<Rightarrow> TextLength \<Rightarrow> TextLength" where
  "TextLength_add t other =
     (if lineCount other = 0 then TextLength_new (lineCount t) (columnCount t + columnCount other)
      else TextLength_new (lineCount t + lineCount other) (columnCount other))"

definition TextLength_sum :: "'a list \<Rightarrow> ('a \<Rightarrow> TextLength) \<Rightarrow> TextLength" where
  "TextLength_sum fragments getLength =
     foldl (\<lambda>acc f. TextLength_add acc (getLength f)) TextLength_zero fragments"

definition TextLength_createRange :: "TextLength \<Rightarrow> position \<Rightarrow> range" where
  "TextLength_createRange t p =
     (if lineCount t = 0
      then Range_new (lineNumber p) (column p) (lineNumber p) (column p + columnCount t)
      else Range_new (lineNumber p) (column p) (lineNumber p + lineCount t) (columnCount t + 1))"

definition TextLength_toRange :: "TextLength \<Rightarrow> range" where
  "TextLength_toRange t = Range_new 1 1 (lineCount t + 1) (columnCount t + 1)"

definition TextLength_toLineRange :: "TextLength \<Rightarrow> LineRange result" where
  "TextLength_toLineRange t = LineRange_ofLength 1 (lineCount t + 1)"

definition TextLength_addToPosition :: "TextLength \<Rightarrow> position \<Rightarrow> position" where
  "TextLength_addToPosition t p =
     (if lineCount t = 0 then Position_new (lineNumber p) (column p + columnCount t)
      else Position_new (lineNumber p + lineCount t) (columnCount t + 1))"

definition TextLength_addToRange :: "TextLength \<Rightarrow> 'a range_scheme \<Rightarrow> range" where
  "TextLength_addToRange t r =
     Range_fromPositions (TextLength_addToPosition t (Range_getStartPosition r))
       (Some (TextLength_addToPosition t (Range_getEndPosition r)))"

definition TextLength_toString :: "TextLength \<Rightarrow> string" where
  "TextLength_toString t = int_str (lineCount t) @ '','' @ int_str (columnCount t)"

section \<open>The order of lengths\<close>

instantiation TextLength_ext :: (linorder) linorder
begin

definition less_eq_TextLength_ext :: "'a TextLength_scheme \<Rightarrow> 'a TextLength_scheme \<Rightarrow> bool" where
  "less_eq_TextLength_ext s t \<longleftrightarrow>
     lineCount s < lineCount t
     \<or> lineCount s = lineCount t \<and> (columnCount s < columnCount t
        \<or> columnCount s = columnCount t \<and> TextLength.more s \<le> TextLength.more t)"

definition less_TextLength_ext :: "'a TextLength_scheme \<Rightarrow> 'a TextLength_scheme \<Rightarrow> bool" where
  "less_TextLength_ext s t \<longleftrightarrow>
     lineCount s < lineCount t
     \<or> lineCount s = lineCount t \<and> (columnCount s < columnCount t
        \<or> columnCount s = columnCount t \<and> TextLength.more s < TextLength.more t)"

instance
  by standard
    (auto simp: less_eq_TextLength_ext_def less_TextLength_ext_def intro: TextLength.equality)

end

lemma TextLength_less_iff:
  "s < t \<longleftrightarrow> lineCount s < lineCount t \<or> lineCount s = lineCount t \<and> columnCount s < columnCount t"
  for s t :: TextLength
  by (auto simp: less_TextLength_ext_def)

lemma TextLength_le_iff:
  "s \<le> t \<longleftrightarrow> lineCount s < lineCount t \<or> lineCount s = lineCount t \<and> columnCount s \<le> columnCount t"
  for s t :: TextLength
  by (auto simp: less_eq_TextLength_ext_def)

lemma TextLength_eq_iff: "s = t \<longleftrightarrow> lineCount s = lineCount t \<and> columnCount s = columnCount t"
  for s t :: TextLength
  by (auto intro: TextLength.equality)

lemmas TextLength_order = TextLength_less_iff TextLength_le_iff TextLength_eq_iff

lemma TextLength_comparisons:
  "TextLength_isLessThan s t \<longleftrightarrow> s < t"
  "TextLength_isGreaterThan s t \<longleftrightarrow> t < s"
  "TextLength_isGreaterThanOrEqualTo s t \<longleftrightarrow> t \<le> s"
  "TextLength_equals s t \<longleftrightarrow> s = t"
  "TextLength_compare s t < 0 \<longleftrightarrow> s < t"
  "TextLength_compare s t = 0 \<longleftrightarrow> s = t"
  by (auto simp: TextLength_isLessThan_def TextLength_isGreaterThan_def TextLength_compare_def
      TextLength_isGreaterThanOrEqualTo_def TextLength_equals_def TextLength_order)

section \<open>Lengths form a monoid\<close>

text \<open>What \<open>sum\<close> relies on, for any kind of length: an associative addition with a unit on the
  values that are proper lengths.\<close>

locale length_monoid =
  fixes ok :: "'l \<Rightarrow> bool" and zero :: 'l and add :: "'l \<Rightarrow> 'l \<Rightarrow> 'l"
  assumes zero_ok: "ok zero"
    and add_ok: "ok a \<Longrightarrow> ok b \<Longrightarrow> ok (add a b)"
    and zero_left: "add zero a = a"
    and zero_right: "add a zero = a"
    and assoc: "ok a \<Longrightarrow> ok b \<Longrightarrow> ok c \<Longrightarrow> add (add a b) c = add a (add b c)"
begin

lemma foldl_ok:
  "ok a \<Longrightarrow> \<forall>x \<in> set xs. ok (g x) \<Longrightarrow> ok (foldl (\<lambda>acc x. add acc (g x)) a xs)"
  by (induction xs arbitrary: a) (auto simp: add_ok)

lemma foldl_shift:
  "ok a \<Longrightarrow> \<forall>x \<in> set xs. ok (g x) \<Longrightarrow>
   foldl (\<lambda>acc x. add acc (g x)) a xs = add a (foldl (\<lambda>acc x. add acc (g x)) zero xs)"
proof (induction xs arbitrary: a)
  case Nil
  then show ?case by (simp add: zero_right)
next
  case (Cons x xs)
  let ?f = "foldl (\<lambda>acc x. add acc (g x))"
  have "?f (add a (g x)) xs = add (add a (g x)) (?f zero xs)"
    using Cons by (simp add: add_ok)
  also have "\<dots> = add a (add (g x) (?f zero xs))"
    using Cons.prems by (simp add: assoc foldl_ok zero_ok)
  also have "add (g x) (?f zero xs) = ?f (add zero (g x)) xs"
    using Cons by (simp add: zero_left)
  finally show ?case by simp
qed

lemma foldl_append:
  assumes "\<forall>x \<in> set (xs @ ys). ok (g x)"
  shows "foldl (\<lambda>acc x. add acc (g x)) zero (xs @ ys)
       = add (foldl (\<lambda>acc x. add acc (g x)) zero xs) (foldl (\<lambda>acc x. add acc (g x)) zero ys)"
  using assms foldl_shift [OF foldl_ok [OF zero_ok, of xs g], of ys g] by simp

end

text \<open>A proper length: no negative line count. (Column counts of proper texts are not negative either,
  but the laws of addition do not need it.)\<close>

definition tl_wf :: "TextLength \<Rightarrow> bool" where
  "tl_wf t \<longleftrightarrow> 0 \<le> lineCount t"

lemma TextLength_new_sel [simp]:
  "lineCount (TextLength_new l c) = l" "columnCount (TextLength_new l c) = c"
  by (simp_all add: TextLength_new_def)

lemma TextLength_zero_sel [simp]: "lineCount TextLength_zero = 0" "columnCount TextLength_zero = 0"
  by (simp_all add: TextLength_zero_def)

lemma TextLength_add_sel:
  "lineCount (TextLength_add a b) = lineCount a + lineCount b"
  "columnCount (TextLength_add a b) = (if lineCount b = 0 then columnCount a + columnCount b else columnCount b)"
  by (simp_all add: TextLength_add_def)

interpretation tl: length_monoid tl_wf TextLength_zero TextLength_add
  by unfold_locales (auto simp: tl_wf_def TextLength_eq_iff TextLength_add_sel)

text \<open>Lengths add like texts: \<open>add\<close> is associative on proper lengths with \<open>zero\<close> as unit, the sum
  of a concatenation is the sum of the sums, and \<open>lengthDiffNonNegative\<close> is the inverse of \<open>add\<close>: it
  recovers the second summand, and fills the gap between any two ordered lengths.\<close>

theorem TextLength_add_laws:
  assumes "tl_wf a" and "tl_wf b" and "tl_wf c" and "\<forall>x \<in> set (xs @ ys). tl_wf (g x)"
  shows "TextLength_add (TextLength_add a b) c = TextLength_add a (TextLength_add b c)
    \<and> TextLength_add TextLength_zero a = a \<and> TextLength_add a TextLength_zero = a
    \<and> TextLength_sum (xs @ ys) g = TextLength_add (TextLength_sum xs g) (TextLength_sum ys g)
    \<and> (0 \<le> columnCount b \<longrightarrow> TextLength_lengthDiffNonNegative a (TextLength_add a b) = b)
    \<and> (a \<le> b \<longrightarrow> TextLength_add a (TextLength_lengthDiffNonNegative a b) = b)"
proof (intro conjI impI)
  show "TextLength_add (TextLength_add a b) c = TextLength_add a (TextLength_add b c)"
    using assms by (simp add: tl.assoc)
  show "TextLength_sum (xs @ ys) g = TextLength_add (TextLength_sum xs g) (TextLength_sum ys g)"
    using assms(4) unfolding TextLength_sum_def by (rule tl.foldl_append)
  show "TextLength_lengthDiffNonNegative a (TextLength_add a b) = b" if "0 \<le> columnCount b"
    using that assms
    by (auto simp: TextLength_lengthDiffNonNegative_def TextLength_isLessThan_def TextLength_add_sel
        TextLength_eq_iff tl_wf_def)
  show "TextLength_add a (TextLength_lengthDiffNonNegative a b) = b" if "a \<le> b"
    using that
    by (auto simp: TextLength_lengthDiffNonNegative_def TextLength_comparisons TextLength_add_sel
        TextLength_order)
qed (simp_all add: tl.zero_left tl.zero_right)

theorem TextLength_add_laws_witness:
  "TextLength_sum [1, 2, 3] (\<lambda>n. TextLength_new (n - 1) 4)
     = TextLength_add (TextLength_sum [1, 2] (\<lambda>n. TextLength_new (n - 1) 4)) (TextLength_sum [3] (\<lambda>n. TextLength_new (n - 1) 4))
   \<and> TextLength_lengthDiffNonNegative (TextLength_new 1 5) (TextLength_add (TextLength_new 1 5) (TextLength_new 0 2))
     = TextLength_new 0 2"
proof -
  have "tl_wf (TextLength_new 1 5)" "tl_wf (TextLength_new 0 2)"
    "\<forall>x \<in> set ([1, 2] @ [3]). tl_wf (TextLength_new (x - 1) 4)"
    by (simp_all add: tl_wf_def)
  from TextLength_add_laws [OF this(1,2,2,3)] show ?thesis by simp
qed

section \<open>Lengths of texts\<close>

definition splits_pair :: "utf16 \<Rightarrow> utf16 \<Rightarrow> bool" where
  "splits_pair x y \<longleftrightarrow> x \<noteq> [] \<and> y \<noteq> [] \<and> is_high (last x) \<and> is_low (hd y)"

lemma code_points_append:
  "\<not> splits_pair x y \<Longrightarrow> code_points (x @ y) = code_points x @ code_points y"
proof (induction x rule: code_points.induct)
  case (2 u)
  then show ?case by (cases y) (auto simp: splits_pair_def)
next
  case (3 u v us)
  then show ?case by (cases us) (auto simp: splits_pair_def)
qed simp

lemma code_points_concat: "concat (code_points x) = x"
  by (induction x rule: code_points.induct) auto

lemma ofText_step_length:
  "TextLength_new (fst (ofText_step p c)) (snd (ofText_step p c))
   = TextLength_add (TextLength_new (fst p) (snd p)) (if c = [10] then TextLength_new 1 0 else TextLength_new 0 1)"
  by (auto simp: ofText_step_def TextLength_add_def split: prod.splits)

lemma TextLength_ofText_sum:
  "TextLength_ofText x =
     TextLength_sum (code_points x) (\<lambda>c. if c = [10] then TextLength_new 1 0 else TextLength_new 0 1)"
proof -
  let ?g = "\<lambda>c. if c = [10] then TextLength_new 1 0 else TextLength_new 0 1"
  have "(case foldl ofText_step p cs of (l, c) \<Rightarrow> TextLength_new l c)
      = foldl (\<lambda>acc f. TextLength_add acc (?g f)) (TextLength_new (fst p) (snd p)) cs" for p cs
  proof (induction cs arbitrary: p)
    case (Cons c cs)
    show ?case using Cons [of "ofText_step p c"] by (simp add: ofText_step_length)
  qed (simp add: split: prod.splits)
  from this [of "(0, 0)" "code_points x"] show ?thesis
    by (simp add: TextLength_ofText_def TextLength_sum_def TextLength_zero_def)
qed

text \<open>The length of a concatenation is the sum of the lengths, unless the cut separates a
  surrogate pair; in that case the whole has one column fewer than the parts together. Lengths
  computed from texts are proper.\<close>

theorem TextLength_ofText_append:
  assumes "\<not> splits_pair x y"
  shows "TextLength_ofText (x @ y) = TextLength_add (TextLength_ofText x) (TextLength_ofText y)
    \<and> tl_wf (TextLength_ofText x)
    \<and> TextLength_ofText [0xD83D, 0xDE00] = TextLength_new 0 1
    \<and> TextLength_add (TextLength_ofText [0xD83D]) (TextLength_ofText [0xDE00]) = TextLength_new 0 2"
proof -
  let ?g = "\<lambda>c :: utf16. if c = [10] then TextLength_new 1 0 else TextLength_new 0 1"
  have ok: "\<forall>c \<in> set cs. tl_wf (?g c)" for cs by (simp add: tl_wf_def)
  have "TextLength_ofText (x @ y) = TextLength_add (TextLength_ofText x) (TextLength_ofText y)"
    unfolding TextLength_ofText_sum code_points_append [OF assms] TextLength_sum_def
    by (rule tl.foldl_append [OF ok])
  moreover have "tl_wf (TextLength_ofText x)"
    unfolding TextLength_ofText_sum TextLength_sum_def by (rule tl.foldl_ok [OF tl.zero_ok ok])
  moreover have "TextLength_ofText [0xD83D, 0xDE00] = TextLength_new 0 1"
    "TextLength_add (TextLength_ofText [0xD83D]) (TextLength_ofText [0xDE00]) = TextLength_new 0 2"
    by (simp_all add: TextLength_ofText_def is_high_def is_low_def ofText_step_def TextLength_add_def)
  ultimately show ?thesis by blast
qed

theorem TextLength_ofText_append_witness:
  "TextLength_ofText ([97, 10] @ [98, 99]) = TextLength_new 1 2"
proof -
  have "\<not> splits_pair [97, 10] [98, 99]" by (simp add: splits_pair_def is_high_def)
  from TextLength_ofText_append [OF this]
  have "TextLength_ofText ([97, 10] @ [98, 99])
      = TextLength_add (TextLength_ofText [97, 10]) (TextLength_ofText [98, 99])" by simp
  then show ?thesis
    by (simp add: TextLength_ofText_def is_high_def is_low_def ofText_step_def TextLength_add_def)
qed

section \<open>Lengths move positions\<close>

text \<open>Adding a length to a position is an action of the monoid of lengths on positions, and
  \<open>betweenPositions\<close> is its difference: it recovers the length that was added, and leads from any
  position to any other. \<open>createRange\<close> is the range from a position to its translate, and
  \<open>ofRange\<close> is the length that spans a range.\<close>

theorem TextLength_position_action:
  assumes "tl_wf a" and "tl_wf b" and "0 \<le> columnCount a" and "1 \<le> column p"
  shows "TextLength_addToPosition b (TextLength_addToPosition a p) = TextLength_addToPosition (TextLength_add a b) p
    \<and> TextLength_addToPosition TextLength_zero p = p
    \<and> TextLength_betweenPositions p (TextLength_addToPosition a p) = a
    \<and> TextLength_addToPosition (TextLength_betweenPositions p q) p = q
    \<and> Range_getStartPosition (TextLength_createRange a p) = p
    \<and> Range_getEndPosition (TextLength_createRange a p) = TextLength_addToPosition a p
    \<and> TextLength_ofRange (TextLength_createRange a p) = a"
proof -
  have range: "Range_getStartPosition (TextLength_createRange a p) = p
    \<and> Range_getEndPosition (TextLength_createRange a p) = TextLength_addToPosition a p"
    using assms
    by (auto simp: TextLength_createRange_def Range_new_start Range_new_end TextLength_addToPosition_def
        position_order tl_wf_def min_def max_def)
  have "TextLength_betweenPositions p (TextLength_addToPosition a p) = a"
    by (auto simp: TextLength_betweenPositions_def TextLength_addToPosition_def TextLength_eq_iff)
  with range show ?thesis
    using assms
    by (auto simp: TextLength_addToPosition_def TextLength_add_sel TextLength_ofRange_def
        TextLength_betweenPositions_def position_eq_iff tl_wf_def)
qed

theorem TextLength_position_action_witness:
  "TextLength_addToPosition (TextLength_new 0 4) (TextLength_addToPosition (TextLength_new 2 3) (Position_new 5 7))
     = Position_new 7 8"
proof -
  have "tl_wf (TextLength_new 2 3)" "tl_wf (TextLength_new 0 4)" "0 \<le> columnCount (TextLength_new 2 3)"
    "1 \<le> column (Position_new 5 7)"
    by (simp_all add: tl_wf_def)
  from TextLength_position_action [OF this, of "Position_new 5 7"] show ?thesis
    by (simp add: TextLength_add_def TextLength_addToPosition_def)
qed

text \<open>\<open>fromPosition\<close> and \<open>toRange\<close> count from the first position of a document.\<close>

lemma TextLength_fromPosition_eq:
  "TextLength_addToPosition (TextLength_fromPosition p) (Position_new 1 1) = p"
  by (auto simp: TextLength_addToPosition_def TextLength_fromPosition_def position_eq_iff)

lemma TextLength_toRange_eq:
  "tl_wf t \<Longrightarrow> 0 \<le> columnCount t \<Longrightarrow> TextLength_toRange t = TextLength_createRange t (Position_new 1 1)"
  by (simp add: TextLength_toRange_def TextLength_createRange_def add.commute)

lemma TextLength_toLineRange_Inr:
  "tl_wf t \<Longrightarrow> TextLength_toLineRange t = Inr (LR 1 (lineCount t + 2))"
  by (simp add: TextLength_toLineRange_def LineRange_ofLength_def tl_wf_def)

end
