(* ===== verification/Selections.thy ===== *)
theory Selections
  imports Position_Range
begin

text \<open>
  Selections: \<open>src/vs/editor/common/core/selection.ts\<close>. A selection is a range with an orientation;
  the class extends \<open>Range\<close>, and so does its record, which adds the two positions as they were given
  (the anchor and the active end) to the ordered fields of the range.
\<close>

datatype SelectionDirection = LTR | RTL

record selection = range +
  selectionStartLineNumber :: int
  selectionStartColumn :: int
  positionLineNumber :: int
  positionColumn :: int

definition Selection_new :: "int \<Rightarrow> int \<Rightarrow> int \<Rightarrow> int \<Rightarrow> selection" where
  "Selection_new sl sc pl pc =
     (let r = Range_new sl sc pl pc
      in \<lparr>startLineNumber = startLineNumber r, startColumn = startColumn r,
          endLineNumber = endLineNumber r, endColumn = endColumn r,
          selectionStartLineNumber = sl, selectionStartColumn = sc,
          positionLineNumber = pl, positionColumn = pc\<rparr>)"

definition Selection_toString :: "selection \<Rightarrow> string" where
  "Selection_toString s = ''['' @ int_str (selectionStartLineNumber s) @ '','' @ int_str (selectionStartColumn s)
     @ '' -> '' @ int_str (positionLineNumber s) @ '','' @ int_str (positionColumn s) @ '']''"

definition Selection_selectionsEqual :: "selection \<Rightarrow> selection \<Rightarrow> bool" where
  "Selection_selectionsEqual a b \<longleftrightarrow>
     selectionStartLineNumber a = selectionStartLineNumber b
     \<and> selectionStartColumn a = selectionStartColumn b
     \<and> positionLineNumber a = positionLineNumber b \<and> positionColumn a = positionColumn b"

definition Selection_getDirection :: "selection \<Rightarrow> SelectionDirection" where
  "Selection_getDirection s =
     (if selectionStartLineNumber s = startLineNumber s \<and> selectionStartColumn s = startColumn s
      then LTR else RTL)"

definition Selection_setEndPosition :: "selection \<Rightarrow> int \<Rightarrow> int \<Rightarrow> selection" where
  "Selection_setEndPosition s el ec =
     (if Selection_getDirection s = LTR
      then Selection_new (startLineNumber s) (startColumn s) el ec
      else Selection_new el ec (startLineNumber s) (startColumn s))"

definition Selection_getPosition :: "selection \<Rightarrow> position" where
  "Selection_getPosition s = Position_new (positionLineNumber s) (positionColumn s)"

definition Selection_getSelectionStart :: "selection \<Rightarrow> position" where
  "Selection_getSelectionStart s = Position_new (selectionStartLineNumber s) (selectionStartColumn s)"

definition Selection_setStartPosition :: "selection \<Rightarrow> int \<Rightarrow> int \<Rightarrow> selection" where
  "Selection_setStartPosition s sl sc =
     (if Selection_getDirection s = LTR
      then Selection_new sl sc (endLineNumber s) (endColumn s)
      else Selection_new (endLineNumber s) (endColumn s) sl sc)"

definition Selection_fromPositions :: "position \<Rightarrow> position option \<Rightarrow> selection" where
  "Selection_fromPositions s e =
     (let e' = (case e of None \<Rightarrow> s | Some p \<Rightarrow> p)
      in Selection_new (lineNumber s) (column s) (lineNumber e') (column e'))"

definition Selection_fromRange :: "'a range_scheme \<Rightarrow> SelectionDirection \<Rightarrow> selection" where
  "Selection_fromRange r direction =
     (if direction = LTR
      then Selection_new (startLineNumber r) (startColumn r) (endLineNumber r) (endColumn r)
      else Selection_new (endLineNumber r) (endColumn r) (startLineNumber r) (startColumn r))"

definition Selection_liftSelection :: "selection \<Rightarrow> selection" where
  "Selection_liftSelection s =
     Selection_new (selectionStartLineNumber s) (selectionStartColumn s)
       (positionLineNumber s) (positionColumn s)"

text \<open>Arrays may be \<open>null\<close>; \<open>a && !b || !a && b\<close> is the first test of the code.\<close>

definition Selection_selectionsArrEqual :: "selection list option \<Rightarrow> selection list option \<Rightarrow> bool" where
  "Selection_selectionsArrEqual a b =
     (case (a, b) of
        (Some _, None) \<Rightarrow> False
      | (None, Some _) \<Rightarrow> False
      | (None, None) \<Rightarrow> True
      | (Some xs, Some ys) \<Rightarrow>
          if length xs \<noteq> length ys then False
          else list_all (\<lambda>(x, y). Selection_selectionsEqual x y) (zip xs ys))"

definition Selection_createWithDirection ::
  "int \<Rightarrow> int \<Rightarrow> int \<Rightarrow> int \<Rightarrow> SelectionDirection \<Rightarrow> selection" where
  "Selection_createWithDirection sl sc el ec direction =
     (if direction = LTR then Selection_new sl sc el ec else Selection_new el ec sl sc)"

section \<open>Laws\<close>

text \<open>A selection as the constructor makes it: the range fields are the ordered anchor and position.\<close>

definition selection_wf :: "selection \<Rightarrow> bool" where
  "selection_wf s \<longleftrightarrow>
     Range_getStartPosition s = min (Selection_getSelectionStart s) (Selection_getPosition s)
     \<and> Range_getEndPosition s = max (Selection_getSelectionStart s) (Selection_getPosition s)"

lemma Selection_new_sel [simp]:
  "Selection_getSelectionStart (Selection_new sl sc pl pc) = Position_new sl sc"
  "Selection_getPosition (Selection_new sl sc pl pc) = Position_new pl pc"
  by (simp_all add: Selection_new_def Let_def Selection_getSelectionStart_def Selection_getPosition_def)

lemma Selection_new_range [simp]:
  "Range_getStartPosition (Selection_new sl sc pl pc) = min (Position_new sl sc) (Position_new pl pc)"
  "Range_getEndPosition (Selection_new sl sc pl pc) = max (Position_new sl sc) (Position_new pl pc)"
  using Range_new_start [of sl sc pl pc] Range_new_end [of sl sc pl pc]
  by (simp_all add: Selection_new_def Let_def Range_getStartPosition_def Range_getEndPosition_def)

lemma selection_wf_new [simp]: "selection_wf (Selection_new sl sc pl pc)"
  by (simp add: selection_wf_def)

lemma Selection_getDirection_iff:
  "Selection_getDirection s = LTR \<longleftrightarrow> Selection_getSelectionStart s = Range_getStartPosition s"
  by (auto simp: Selection_getDirection_def Selection_getSelectionStart_def range_defs)

lemma Selection_getDirection_wf:
  "selection_wf s \<Longrightarrow> Selection_getDirection s = LTR \<longleftrightarrow>
     Selection_getSelectionStart s \<le> Selection_getPosition s"
  by (auto simp: Selection_getDirection_iff selection_wf_def min_def)

lemma Selection_fromRange_positions:
  "Selection_getSelectionStart (Selection_fromRange r d) =
     (if d = LTR then Range_getStartPosition r else Range_getEndPosition r)"
  "Selection_getPosition (Selection_fromRange r d) =
     (if d = LTR then Range_getEndPosition r else Range_getStartPosition r)"
  by (simp_all add: Selection_fromRange_def Range_getStartPosition_def Range_getEndPosition_def)

text \<open>Building a selection from a range and a direction loses neither: the selection covers the
  range again, and reports the direction it was given, except that an empty range always reports
  left-to-right.\<close>

theorem Selection_fromRange_roundtrip:
  assumes "range_wf r"
  shows "Range_getStartPosition (Selection_fromRange r d) = Range_getStartPosition r
       \<and> Range_getEndPosition (Selection_fromRange r d) = Range_getEndPosition r
       \<and> Selection_getDirection (Selection_fromRange r d) = (if Range_isEmpty r then LTR else d)"
proof -
  have empty: "Range_isEmpty r \<longleftrightarrow> Range_getStartPosition r = Range_getEndPosition r"
    by (auto simp: Range_isEmpty_def range_defs)
  have wf: "selection_wf (Selection_fromRange r d)"
    by (simp add: Selection_fromRange_def)
  have "Selection_getDirection (Selection_fromRange r d) = LTR \<longleftrightarrow> Range_isEmpty r \<or> d = LTR"
    using assms unfolding Selection_getDirection_wf [OF wf] empty
    by (auto simp: Selection_fromRange_positions range_wf_def)
  moreover have "x = LTR \<or> x = RTL" for x by (cases x) auto
  ultimately have "Selection_getDirection (Selection_fromRange r d) = (if Range_isEmpty r then LTR else d)"
    by (metis SelectionDirection.distinct(1))
  with wf assms show ?thesis
    by (auto simp: selection_wf_def Selection_fromRange_positions range_wf_def)
qed

theorem Selection_fromRange_roundtrip_witness:
  "Selection_getDirection (Selection_fromRange (Range_new 1 1 2 5) RTL) = RTL"
  using Selection_fromRange_roundtrip [OF range_wf_new, of 1 1 2 5 RTL]
  by (simp add: Range_isEmpty_def Range_new_def)

text \<open>Moving the end of a selection to a position after its start keeps the start of the range and
  the orientation of a non-empty selection; it never swaps the anchor and the active end.\<close>

theorem Selection_setEndPosition_keeps_direction:
  assumes "selection_wf s" and "Range_getStartPosition s < Position_new el ec"
  shows "Selection_getDirection (Selection_setEndPosition s el ec) = Selection_getDirection s
       \<and> Range_getStartPosition (Selection_setEndPosition s el ec) = Range_getStartPosition s
       \<and> Range_getEndPosition (Selection_setEndPosition s el ec) = Position_new el ec"
proof -
  let ?t = "Selection_setEndPosition s el ec"
  have start: "Position_new (startLineNumber s) (startColumn s) = Range_getStartPosition s"
    by (simp add: Range_getStartPosition_def)
  have wf: "selection_wf ?t" by (simp add: Selection_setEndPosition_def)
  have le: "Range_getStartPosition s \<le> Position_new el ec" using assms(2) by simp
  have "Selection_getDirection ?t = LTR \<longleftrightarrow> Selection_getDirection s = LTR"
    using assms(2) unfolding Selection_getDirection_wf [OF wf]
    by (auto simp: Selection_setEndPosition_def start)
  then have "Selection_getDirection ?t = Selection_getDirection s"
    by (metis (full_types) SelectionDirection.exhaust)
  then show ?thesis using le
    by (simp add: Selection_setEndPosition_def start min_absorb1 min_absorb2 max_absorb1 max_absorb2)
qed

theorem Selection_setEndPosition_keeps_direction_witness:
  "Selection_getDirection (Selection_setEndPosition (Selection_new 3 1 1 1) 9 9) = RTL"
proof -
  have "Range_getStartPosition (Selection_new 3 1 1 1) < Position_new 9 9"
    by (simp add: min_def position_order)
  from Selection_setEndPosition_keeps_direction [OF selection_wf_new this]
  show ?thesis by (simp add: Selection_getDirection_def Selection_new_def Range_new_def Let_def)
qed

lemma Selection_selectionsEqual_wf:
  "selection_wf a \<Longrightarrow> selection_wf b \<Longrightarrow> Selection_selectionsEqual a b \<longleftrightarrow> a = b"
  by (cases a; cases b)
    (auto simp: Selection_selectionsEqual_def selection_wf_def Selection_getSelectionStart_def
      Selection_getPosition_def range_defs)

lemma Selection_selectionsArrEqual_iff:
  "\<forall>s \<in> set xs \<union> set ys. selection_wf s \<Longrightarrow>
   Selection_selectionsArrEqual (Some xs) (Some ys) \<longleftrightarrow> xs = ys"
  by (auto simp: Selection_selectionsArrEqual_def list_all_length list_eq_iff_nth_eq
      Selection_selectionsEqual_wf)

end
