(* ===== verification/Edit_Model.thy ===== *)
theory Edit_Model
  imports Prelude
begin

text \<open>
  The specification of an edit, independent of any class: a list of splices, each an interval of the
  original sequence with the material that replaces it, applied all at once. \<open>out\<close> is the text
  that an edit produces from a position on, \<open>fits\<close> says that its splices are sorted, disjoint and inside
  the sequence. The lemmas are the facts that composition, rebasing and decomposition of edits rest
  on; the edit classes are shown to implement this specification in \<open>Base_Edit\<close> and \<open>String_Edit\<close>.
\<close>

type_synonym 'c splice = "int \<times> int \<times> 'c list"

fun out :: "int \<Rightarrow> 'c splice list \<Rightarrow> 'c list \<Rightarrow> 'c list" where
  "out p [] s = drop (nat p) s"
| "out p ((a, b, t) # es) s = take (nat (a - p)) (drop (nat p) s) @ t @ out b es s"

fun fits :: "int \<Rightarrow> int \<Rightarrow> 'c splice list \<Rightarrow> bool" where
  "fits p n [] \<longleftrightarrow> p \<le> n"
| "fits p n ((a, b, t) # es) \<longleftrightarrow> p \<le> a \<and> a \<le> b \<and> fits b n es"

text \<open>The difference between positions in the result and in the original after a list of splices.\<close>

fun shift :: "int \<Rightarrow> 'c splice list \<Rightarrow> int" where
  "shift d [] = d"
| "shift d ((a, b, t) # es) = shift (d + int (length t) - (b - a)) es"

fun endp :: "int \<Rightarrow> 'c splice list \<Rightarrow> int" where
  "endp p [] = p"
| "endp p ((a, b, t) # es) = endp b es"

fun pre :: "int \<Rightarrow> 'c splice list \<Rightarrow> 'c list \<Rightarrow> 'c list" where
  "pre p [] s = []"
| "pre p ((a, b, t) # es) s = take (nat (a - p)) (drop (nat p) s) @ t @ pre b es s"

lemma shift_add: "shift (d + k) es = shift d es + k"
proof (induction es arbitrary: d)
  case (Cons e es)
  obtain a b t where "e = (a, b, t)" by (cases e)
  then show ?case using Cons [of "d + int (length t) - (b - a)"] by (simp add: algebra_simps)
qed simp

lemma shift_0: "shift d es = shift 0 es + d"
  using shift_add [of 0 d es] by simp

lemma fits_le: "fits p n es \<Longrightarrow> p \<le> n"
  by (induction p n es rule: fits.induct) auto

lemma fits_endp: "fits p n es \<Longrightarrow> p \<le> endp p es \<and> endp p es \<le> n"
  by (induction p n es rule: fits.induct) auto

lemma drop_nat_le: "0 \<le> p \<Longrightarrow> p \<le> q \<Longrightarrow> drop (nat q) s = drop (nat (q - p)) (drop (nat p) s)"
  by (simp add: nat_diff_distrib)

lemma fits_mono: "fits p n es \<Longrightarrow> q \<le> p \<Longrightarrow> fits q n es"
  by (cases es) auto

lemma fits_upper: "fits p m es \<Longrightarrow> m \<le> n \<Longrightarrow> fits p n es"
  by (induction p m es rule: fits.induct) auto

lemma fits_append: "fits p n (A @ B) \<longleftrightarrow> fits p (endp p A) A \<and> fits (endp p A) n B"
  by (induction p A rule: endp.induct) auto

lemma endp_append [simp]: "endp p (A @ B) = endp (endp p A) B"
  by (induction p A rule: endp.induct) auto

lemma shift_append [simp]: "shift d (A @ B) = shift (shift d A) B"
  by (induction d A rule: shift.induct) auto

lemma out_append: "out p (A @ B) s = pre p A s @ out (endp p A) B s"
  by (induction p A s rule: pre.induct) auto

lemma pre_append: "pre p (A @ B) s = pre p A s @ pre (endp p A) B s"
  by (induction p A s rule: pre.induct) auto

lemma fits_raise:
  "fits p n es \<Longrightarrow> (es = [] \<Longrightarrow> q \<le> n) \<Longrightarrow> (es \<noteq> [] \<Longrightarrow> q \<le> fst (hd es)) \<Longrightarrow> fits q n es"
  by (cases es) auto

lemma fits_filter: "fits p n (map f xs) \<Longrightarrow> fits p n (map f (filter q xs))"
proof (induction xs arbitrary: p)
  case (Cons x xs)
  obtain a b t where x: "f x = (a, b, t)" by (cases "f x")
  with Cons.prems have "fits b n (map f (filter q xs))" "p \<le> a" "a \<le> b" using Cons.IH by auto
  then show ?case using x fits_mono [of b n _ p] by auto
qed simp

lemma length_pre:
  "0 \<le> p \<Longrightarrow> fits p (int (length s)) es \<Longrightarrow>
   int (length (pre p es s)) = endp p es + shift d es - (p + d)"
proof (induction p es s arbitrary: d rule: pre.induct)
  case (2 p a b t es s)
  have "p \<le> a" "a \<le> b" "b \<le> int (length s)" using "2.prems" fits_le by auto
  then show ?case using "2.prems" "2.IH" [of "d + int (length t) - (b - a)"] by simp
qed simp

lemma out_skip:
  assumes "0 \<le> p" and "p \<le> q" and "fits q (int (length s)) es"
  shows "out p es s = take (nat (q - p)) (drop (nat p) s) @ out q es s"
proof (cases es)
  case Nil
  have "drop (nat q) s = drop (nat (q - p)) (drop (nat p) s)"
    using assms by (simp add: nat_diff_distrib)
  then show ?thesis using Nil by (simp only: out.simps append_take_drop_id)
next
  case (Cons e es')
  obtain a b t where e: "e = (a, b, t)" by (cases e)
  have qa: "q \<le> a" using assms Cons e by simp
  have "take (nat (a - p)) (drop (nat p) s)
      = take (nat (q - p)) (drop (nat p) s) @ take (nat (a - q)) (drop (nat (q - p)) (drop (nat p) s))"
    using assms qa take_add [of "nat (q - p)" "nat (a - q)" "drop (nat p) s"]
    by (simp add: nat_add_distrib [symmetric])
  moreover have "drop (nat (q - p)) (drop (nat p) s) = drop (nat q) s"
    using assms by (simp add: nat_diff_distrib)
  ultimately show ?thesis using Cons e by simp
qed

lemma take_out:
  assumes "0 \<le> p" and "p \<le> q" and "fits q (int (length s)) es"
  shows "take (nat (q - p)) (out p es s) = take (nat (q - p)) (drop (nat p) s)"
    and "drop (nat (q - p)) (out p es s) = out q es s"
proof -
  have "length (take (nat (q - p)) (drop (nat p) s)) = nat (q - p)"
    using assms fits_le [OF assms(3)] by auto
  then show "take (nat (q - p)) (out p es s) = take (nat (q - p)) (drop (nat p) s)"
    "drop (nat (q - p)) (out p es s) = out q es s"
    using out_skip [OF assms] by simp_all
qed

lemma drop_out_append:
  assumes "0 \<le> p" and "fits p (int (length s)) (A @ B)"
  shows "drop (nat (endp p A + shift d A - (p + d))) (out p (A @ B) s) = out (endp p A) B s"
proof -
  have "fits p (int (length s)) A"
    using assms(2) fits_le by (auto simp: fits_append intro: fits_upper)
  then have "nat (endp p A + shift d A - (p + d)) = length (pre p A s)"
    using length_pre [OF assms(1), of s A d] by simp
  then show ?thesis by (simp add: out_append)
qed

lemma length_out:
  assumes "0 \<le> p" and "fits p (int (length s)) es"
  shows "int (length (out p es s)) = int (length s) - p + shift 0 es"
proof -
  have e: "p \<le> endp p es" "endp p es \<le> int (length s)" using fits_endp [OF assms(2)] by simp_all
  have "out p es s = pre p es s @ drop (nat (endp p es)) s" using out_append [of p es "[]" s] by simp
  then have "int (length (out p es s)) = endp p es + shift 0 es - p + (int (length s) - endp p es)"
    using length_pre [OF assms, of 0] e assms(1) by (simp add: of_nat_diff nat_le_iff)
  then show ?thesis by simp
qed

text \<open>Two touching splices are one, and an empty splice at its own place does nothing.\<close>

lemma out_join: "out p ((a, b, t) # (b, c, u) # es) s = out p ((a, c, t @ u) # es) s"
  by simp

lemma out_empty_splice:
  "0 \<le> p \<Longrightarrow> fits p (int (length s)) ((a, a, []) # es) \<Longrightarrow> out p ((a, a, []) # es) s = out p es s"
  using out_skip [of p a s es] by simp

section \<open>Splitting an edit in two\<close>

text \<open>A list of splices of which some (marked \<open>True\<close>) are applied first; the others then apply to the
  result, moved by what the marked ones before them inserted and removed.\<close>

fun shifted :: "int \<Rightarrow> (bool \<times> 'c splice) list \<Rightarrow> 'c splice list" where
  "shifted d [] = []"
| "shifted d ((m, (a, b, t)) # W) =
     (if m then shifted (d + int (length t) - (b - a)) W else (a + d, b + d, t) # shifted d W)"

definition marked :: "(bool \<times> 'c splice) list \<Rightarrow> 'c splice list" where
  "marked W = map snd (filter fst W)"

lemma marked_simps [simp]:
  "marked [] = []"
  "marked ((m, e) # W) = (if m then e # marked W else marked W)"
  by (simp_all add: marked_def)

lemma out_shifted:
  assumes "0 \<le> p" and "0 \<le> p + d" and "fits p (int (length s)) (map snd W)"
    and "drop (nat (p + d)) m = out p (marked W) s" and "p + d \<le> int (length m)"
  shows "out (p + d) (shifted d W) m = out p (map snd W) s \<and> fits (p + d) (int (length m)) (shifted d W)"
  using assms
proof (induction W arbitrary: p d)
  case (Cons w W)
  obtain k a b t where w: "w = (k, a, b, t)" by (cases w)
  have ab: "p \<le> a" "a \<le> b" and fitsW: "fits b (int (length s)) (map snd W)"
    using Cons.prems(3) w by auto
  have fitsM: "fits b (int (length s)) (marked W)"
    unfolding marked_def by (rule fits_filter [OF fitsW])
  have bn: "b \<le> int (length s)" by (rule fits_le [OF fitsW])
  show ?case
  proof (cases k)
    case True
    let ?d = "d + int (length t) - (b - a)"
    let ?x = "take (nat (a - p)) (drop (nat p) s)"
    have m: "drop (nat (p + d)) m = (?x @ t) @ out b (marked W) s"
      using Cons.prems(4) w True by simp
    have lx: "int (length (?x @ t)) = (b + ?d) - (p + d)" using ab bn Cons.prems(1) by simp
    have ge: "p + d \<le> b + ?d" using lx by linarith
    have "drop (nat (b + ?d)) m = drop (length (?x @ t)) (drop (nat (p + d)) m)"
      unfolding drop_nat_le [OF Cons.prems(2) ge] lx [symmetric] nat_int ..
    also have "\<dots> = out b (marked W) s" unfolding m by simp
    finally have dm: "drop (nat (b + ?d)) m = out b (marked W) s" .
    have "length (?x @ t) \<le> length (drop (nat (p + d)) m)" unfolding m by simp
    then have le: "b + ?d \<le> int (length m)"
      using lx Cons.prems(2,5) by (simp del: length_append length_take)
    have IH: "out (b + ?d) (shifted ?d W) m = out b (map snd W) s \<and> fits (b + ?d) (int (length m)) (shifted ?d W)"
      using Cons.prems(1,2) ab ge by (intro Cons.IH fitsW dm le) simp_all
    have "out (p + d) (shifted ?d W) m
        = take (nat (b + ?d - (p + d))) (drop (nat (p + d)) m) @ out (b + ?d) (shifted ?d W) m"
      using out_skip [OF Cons.prems(2) ge] IH by blast
    also have "take (nat (b + ?d - (p + d))) (drop (nat (p + d)) m) = ?x @ t"
      unfolding m lx [symmetric] nat_int by (metis append_eq_conv_conj)
    finally show ?thesis
      using IH w True ge by (auto intro: fits_mono)
  next
    case False
    have m: "drop (nat (p + d)) m = out p (marked W) s" using Cons.prems(4) w False by simp
    have pb: "p \<le> b" using ab by simp
    note skip = take_out [OF Cons.prems(1) pb fitsM]
    have fitsA: "fits a (int (length s)) (marked W)" using fitsM ab by (auto intro: fits_mono)
    have "drop (nat (b + d)) m = drop (nat (b - p)) (drop (nat (p + d)) m)"
      using drop_nat_le [of "p + d" "b + d" m] Cons.prems(2) pb by simp
    with skip m have dm: "drop (nat (b + d)) m = out b (marked W) s" by simp
    have "int (length (out p (marked W) s)) \<ge> b - p"
      using out_skip [OF Cons.prems(1) pb fitsM] Cons.prems(1) bn by simp
    then have "b - p \<le> int (length (drop (nat (p + d)) m))" unfolding m .
    then have le: "b + d \<le> int (length m)"
      using Cons.prems(2,5) by (simp add: of_nat_diff nat_le_iff)
    have IH: "out (b + d) (shifted d W) m = out b (map snd W) s \<and> fits (b + d) (int (length m)) (shifted d W)"
      using Cons.prems(1,2) pb by (intro Cons.IH fitsW dm le) simp_all
    have "take (nat (a + d - (p + d))) (drop (nat (p + d)) m) = take (nat (a - p)) (drop (nat p) s)"
      using take_out(1) [OF Cons.prems(1) ab(1) fitsA] m by simp
    with IH w False ab show ?thesis by simp
  qed
qed simp

end
