(* ===== verification/Base_Edit.thy ===== *)
theory Base_Edit
  imports Offset_Range Edit_Model
begin

text \<open>
  The generic edit algorithms: \<open>src/vs/editor/common/core/edits/edit.ts\<close>. \<open>BaseEdit<T>\<close> is written over
  an abstract replacement class \<open>T\<close>; its abstract methods are the fields of \<open>replacement_methods\<close>, and
  every operation takes them as its first argument. The locale \<open>replacement_class\<close> states what the
  methods have to satisfy, and inside it the algorithms are shown to implement the specification of
  \<open>Edit_Model\<close>. \<open>AnnotationReplacement\<close>, the concrete class of this file, is interpreted at the end.
\<close>

record BaseReplacement =
  replaceRange :: OffsetRange

text \<open>The abstract methods of \<open>BaseReplacement\<close>. \<open>tryJoinTouching\<close> may throw; \<open>slice\<close> takes an
  optional range in the replacement.\<close>

record 't replacement_methods =
  getNewLength :: "'t \<Rightarrow> int"
  tryJoinTouching :: "'t \<Rightarrow> 't \<Rightarrow> 't option result"
  sliceRepl :: "'t \<Rightarrow> OffsetRange \<Rightarrow> OffsetRange option \<Rightarrow> 't"
  equalsRepl :: "'t \<Rightarrow> 't \<Rightarrow> bool"

type_synonym 'x methods = "'x BaseReplacement_scheme replacement_methods"

definition BaseReplacement_delta ::
  "'x methods \<Rightarrow> 'x BaseReplacement_scheme \<Rightarrow> int \<Rightarrow> 'x BaseReplacement_scheme result" where
  "BaseReplacement_delta M r offset =
     bindr (OffsetRange_delta (replaceRange r) offset) (\<lambda>rng.
     bindr (OffsetRange_new 0 (getNewLength M r)) (\<lambda>full. Inr (sliceRepl M r rng (Some full))))"

definition BaseReplacement_getLengthDelta :: "'x methods \<Rightarrow> 'x BaseReplacement_scheme \<Rightarrow> int" where
  "BaseReplacement_getLengthDelta M r = getNewLength M r - OffsetRange_length (replaceRange r)"

definition BaseReplacement_isEmpty :: "'x methods \<Rightarrow> 'x BaseReplacement_scheme \<Rightarrow> bool" where
  "BaseReplacement_isEmpty M r \<longleftrightarrow> getNewLength M r = 0 \<and> OffsetRange_length (replaceRange r) = 0"

definition BaseReplacement_getRangeAfterReplace ::
  "'x methods \<Rightarrow> 'x BaseReplacement_scheme \<Rightarrow> OffsetRange result" where
  "BaseReplacement_getRangeAfterReplace M r =
     OffsetRange_new (start (replaceRange r)) (start (replaceRange r) + getNewLength M r)"

section \<open>Edits\<close>

record 't BaseEdit =
  replacements :: "'t list"

text \<open>The constructor throws unless the replacements are sorted and disjoint.\<close>

fun BaseEdit_check :: "'x BaseReplacement_scheme list \<Rightarrow> int \<Rightarrow> unit result" where
  "BaseEdit_check [] lastEndEx = Inr ()"
| "BaseEdit_check (r # rs) lastEndEx =
     (if \<not> start (replaceRange r) \<ge> lastEndEx then Inl BugIndicatingError
      else BaseEdit_check rs (endExclusive (replaceRange r)))"

definition BaseEdit_new :: "'x BaseReplacement_scheme list \<Rightarrow> 'x BaseReplacement_scheme BaseEdit result" where
  "BaseEdit_new rs = bindr (BaseEdit_check rs (- 1)) (\<lambda>_. Inr \<lparr>replacements = rs\<rparr>)"

definition BaseEdit_equals ::
  "'x methods \<Rightarrow> 'x BaseReplacement_scheme BaseEdit \<Rightarrow> 'x BaseReplacement_scheme BaseEdit \<Rightarrow> bool" where
  "BaseEdit_equals M this other \<longleftrightarrow>
     length (replacements this) = length (replacements other)
     \<and> list_all (\<lambda>(a, b). equalsRepl M a b) (zip (replacements this) (replacements other))"

definition pendingRepl :: "'t option \<Rightarrow> 't list" where
  "pendingRepl l = (case l of None \<Rightarrow> [] | Some r \<Rightarrow> [r])"

fun normalize_loop ::
  "'x methods \<Rightarrow> 'x BaseReplacement_scheme list \<Rightarrow> 'x BaseReplacement_scheme option
   \<Rightarrow> 'x BaseReplacement_scheme list \<Rightarrow> 'x BaseReplacement_scheme list result" where
  "normalize_loop M [] lastReplacement newReplacements = Inr (newReplacements @ pendingRepl lastReplacement)"
| "normalize_loop M (r # rs) lastReplacement newReplacements =
     (if getNewLength M r = 0 \<and> OffsetRange_length (replaceRange r) = 0
      then normalize_loop M rs lastReplacement newReplacements
      else case lastReplacement of
             None \<Rightarrow> normalize_loop M rs (Some r) newReplacements
           | Some l \<Rightarrow>
               if endExclusive (replaceRange l) = start (replaceRange r)
               then bindr (tryJoinTouching M l r) (\<lambda>joined.
                      case joined of
                        Some j \<Rightarrow> normalize_loop M rs (Some j) newReplacements
                      | None \<Rightarrow> normalize_loop M rs (Some r) (newReplacements @ [l]))
               else normalize_loop M rs (Some r) (newReplacements @ [l]))"

definition BaseEdit_normalize ::
  "'x methods \<Rightarrow> 'x BaseReplacement_scheme BaseEdit \<Rightarrow> 'x BaseReplacement_scheme BaseEdit result" where
  "BaseEdit_normalize M this =
     bindr (normalize_loop M (replacements this) None []) BaseEdit_new"

definition BaseEdit_isEmpty :: "'t BaseEdit \<Rightarrow> bool" where
  "BaseEdit_isEmpty this \<longleftrightarrow> length (replacements this) = 0"

subsection \<open>Composition\<close>

text \<open>The first inner loop: copy replacements of the first edit that end before the current
  replacement of the second starts.\<close>

fun compose_copy ::
  "'x methods \<Rightarrow> 'x BaseReplacement_scheme list \<Rightarrow> int \<Rightarrow> 'x BaseReplacement_scheme
   \<Rightarrow> 'x BaseReplacement_scheme list \<Rightarrow> 'x BaseReplacement_scheme list \<times> int \<times> 'x BaseReplacement_scheme list" where
  "compose_copy M [] d r2 res = ([], d, res)"
| "compose_copy M (r1 # q) d r2 res =
     (if start (replaceRange r1) + d + getNewLength M r1 \<ge> start (replaceRange r2)
      then (r1 # q, d, res)
      else compose_copy M q (d + (getNewLength M r1 - OffsetRange_length (replaceRange r1))) r2 (res @ [r1]))"

text \<open>The second inner loop: take the replacements of the first edit that the current one intersects
  or touches; it keeps only the first and the last of them.\<close>

fun compose_block ::
  "'x methods \<Rightarrow> 'x BaseReplacement_scheme list \<Rightarrow> int \<Rightarrow> 'x BaseReplacement_scheme
   \<Rightarrow> 'x BaseReplacement_scheme option \<Rightarrow> 'x BaseReplacement_scheme option
   \<Rightarrow> 'x BaseReplacement_scheme list \<times> int \<times> 'x BaseReplacement_scheme option \<times> 'x BaseReplacement_scheme option" where
  "compose_block M [] d r2 firstI lastI = ([], d, firstI, lastI)"
| "compose_block M (r1 # q) d r2 firstI lastI =
     (if start (replaceRange r1) + d > endExclusive (replaceRange r2) then (r1 # q, d, firstI, lastI)
      else compose_block M q (d + (getNewLength M r1 - OffsetRange_length (replaceRange r1))) r2
             (case firstI of None \<Rightarrow> Some r1 | Some f \<Rightarrow> Some f) (Some r1))"

text \<open>What one replacement of the second edit becomes, once the touching block is known: an optional
  rest of the first block element, the replacement itself, and an optional rest of the last block
  element, which goes back to the queue.\<close>

definition compose_merge ::
  "'x methods \<Rightarrow> 'x BaseReplacement_scheme list \<Rightarrow> int \<Rightarrow> int \<Rightarrow> 'x BaseReplacement_scheme
   \<Rightarrow> 'x BaseReplacement_scheme \<Rightarrow> 'x BaseReplacement_scheme option \<Rightarrow> 'x BaseReplacement_scheme list
   \<Rightarrow> ('x BaseReplacement_scheme list \<times> int \<times> 'x BaseReplacement_scheme list) result" where
  "compose_merge M queue firstEdit1ToEdit2 d r2 firstI lastI res =
     (let newStart = min (start (replaceRange firstI)) (start (replaceRange r2) - firstEdit1ToEdit2);
          prefixLength = start (replaceRange r2) - (start (replaceRange firstI) + firstEdit1ToEdit2)
      in bindr (if prefixLength > 0
                then bindr (OffsetRange_emptyAt newStart) (\<lambda>at.
                     bindr (OffsetRange_new 0 prefixLength) (\<lambda>h. Inr (res @ [sliceRepl M firstI at (Some h)])))
                else Inr res) (\<lambda>res1.
         case lastI of None \<Rightarrow> Inl BugIndicatingError
         | Some l \<Rightarrow>
           (let suffixLength = (endExclusive (replaceRange l) + d) - endExclusive (replaceRange r2)
            in bindr (if suffixLength > 0
                      then bindr (OffsetRange_ofStartAndLength (endExclusive (replaceRange l)) 0) (\<lambda>at.
                           bindr (OffsetRange_new (getNewLength M l - suffixLength) (getNewLength M l)) (\<lambda>h.
                           let e = sliceRepl M l at (Some h)
                           in Inr (e # queue, d - (getNewLength M e - OffsetRange_length (replaceRange e)))))
                      else Inr (queue, d)) (\<lambda>(queue', d').
               bindr (OffsetRange_new newStart (endExclusive (replaceRange r2) - d')) (\<lambda>rng.
               bindr (OffsetRange_new 0 (getNewLength M r2)) (\<lambda>full.
               Inr (queue', d', res1 @ [sliceRepl M r2 rng (Some full)])))))))"

definition compose_step ::
  "'x methods \<Rightarrow> 'x BaseReplacement_scheme list \<Rightarrow> int \<Rightarrow> 'x BaseReplacement_scheme
   \<Rightarrow> 'x BaseReplacement_scheme list
   \<Rightarrow> ('x BaseReplacement_scheme list \<times> int \<times> 'x BaseReplacement_scheme list) result" where
  "compose_step M queue d r2 res =
     (let (queue1, d1, res1) = compose_copy M queue d r2 res;
          (queue2, d2, firstI, lastI) = compose_block M queue1 d1 r2 None None
      in case firstI of
           None \<Rightarrow> bindr (BaseReplacement_delta M r2 (- d2)) (\<lambda>r. Inr (queue2, d2, res1 @ [r]))
         | Some f \<Rightarrow> compose_merge M queue2 d1 d2 r2 f lastI res1)"

fun compose_loop ::
  "'x methods \<Rightarrow> 'x BaseReplacement_scheme list \<Rightarrow> 'x BaseReplacement_scheme list \<Rightarrow> int
   \<Rightarrow> 'x BaseReplacement_scheme list \<Rightarrow> 'x BaseReplacement_scheme list result" where
  "compose_loop M [] queue d res = Inr (res @ queue)"
| "compose_loop M (r2 # rs) queue d res =
     bindr (compose_step M queue d r2 res) (\<lambda>(queue', d', res'). compose_loop M rs queue' d' res')"

definition BaseEdit_compose ::
  "'x methods \<Rightarrow> 'x BaseReplacement_scheme BaseEdit \<Rightarrow> 'x BaseReplacement_scheme BaseEdit
   \<Rightarrow> 'x BaseReplacement_scheme BaseEdit result" where
  "BaseEdit_compose M this other =
     bindr (BaseEdit_normalize M this) (\<lambda>edits1.
     bindr (BaseEdit_normalize M other) (\<lambda>edits2.
     if BaseEdit_isEmpty edits1 then Inr edits2
     else if BaseEdit_isEmpty edits2 then Inr edits1
     else bindr (compose_loop M (replacements edits2) (replacements edits1) 0 []) (\<lambda>result.
          bindr (BaseEdit_new result) (BaseEdit_normalize M))))"

subsection \<open>Decomposition and ranges\<close>

fun decomposeSplit_loop ::
  "'x methods \<Rightarrow> ('x BaseReplacement_scheme \<Rightarrow> bool) \<Rightarrow> 'x BaseReplacement_scheme list \<Rightarrow> int
   \<Rightarrow> 'x BaseReplacement_scheme list \<Rightarrow> 'x BaseReplacement_scheme list
   \<Rightarrow> ('x BaseReplacement_scheme list \<times> 'x BaseReplacement_scheme list) result" where
  "decomposeSplit_loop M inE1 [] e2delta e1 e2 = Inr (e1, e2)"
| "decomposeSplit_loop M inE1 (edit # rs) e2delta e1 e2 =
     (if inE1 edit
      then decomposeSplit_loop M inE1 rs
             (e2delta + (getNewLength M edit - OffsetRange_length (replaceRange edit))) (e1 @ [edit]) e2
      else bindr (OffsetRange_delta (replaceRange edit) e2delta) (\<lambda>rng.
           bindr (OffsetRange_new 0 (getNewLength M edit)) (\<lambda>full.
           decomposeSplit_loop M inE1 rs e2delta e1 (e2 @ [sliceRepl M edit rng (Some full)]))))"

definition BaseEdit_decomposeSplit ::
  "'x methods \<Rightarrow> 'x BaseReplacement_scheme BaseEdit \<Rightarrow> ('x BaseReplacement_scheme \<Rightarrow> bool)
   \<Rightarrow> ('x BaseReplacement_scheme BaseEdit \<times> 'x BaseReplacement_scheme BaseEdit) result" where
  "BaseEdit_decomposeSplit M this inE1 =
     bindr (decomposeSplit_loop M inE1 (replacements this) 0 [] []) (\<lambda>(e1, e2).
     bindr (BaseEdit_new e1) (\<lambda>x. bindr (BaseEdit_new e2) (\<lambda>y. Inr (x, y))))"

fun getNewRanges_loop ::
  "'x methods \<Rightarrow> 'x BaseReplacement_scheme list \<Rightarrow> int \<Rightarrow> OffsetRange list result" where
  "getNewRanges_loop M [] offset = Inr []"
| "getNewRanges_loop M (e # es) offset =
     bindr (OffsetRange_ofStartAndLength (start (replaceRange e) + offset) (getNewLength M e)) (\<lambda>r.
     bindr (getNewRanges_loop M es (offset + BaseReplacement_getLengthDelta M e)) (\<lambda>rs. Inr (r # rs)))"

definition BaseEdit_getNewRanges ::
  "'x methods \<Rightarrow> 'x BaseReplacement_scheme BaseEdit \<Rightarrow> OffsetRange list result" where
  "BaseEdit_getNewRanges M this = getNewRanges_loop M (replacements this) 0"

definition BaseEdit_getJoinedReplaceRange ::
  "'x BaseReplacement_scheme BaseEdit \<Rightarrow> OffsetRange option result" where
  "BaseEdit_getJoinedReplaceRange this =
     (case replacements this of [] \<Rightarrow> Inr None
      | r # rs \<Rightarrow> bindr (OffsetRange_join (replaceRange r) (replaceRange (last (r # rs)))) (\<lambda>x. Inr (Some x)))"

definition BaseEdit_getLengthDelta :: "'x methods \<Rightarrow> 'x BaseReplacement_scheme BaseEdit \<Rightarrow> int" where
  "BaseEdit_getLengthDelta M this =
     foldl (\<lambda>acc r. acc + BaseReplacement_getLengthDelta M r) 0 (replacements this)"

definition BaseEdit_getNewDataLength :: "'x methods \<Rightarrow> 'x BaseReplacement_scheme BaseEdit \<Rightarrow> int \<Rightarrow> int" where
  "BaseEdit_getNewDataLength M this dataLength = dataLength + BaseEdit_getLengthDelta M this"

subsection \<open>Offsets\<close>

fun applyToOffset_loop :: "'x methods \<Rightarrow> 'x BaseReplacement_scheme list \<Rightarrow> int \<Rightarrow> int \<Rightarrow> int" where
  "applyToOffset_loop M [] originalOffset accumulatedDelta = originalOffset + accumulatedDelta"
| "applyToOffset_loop M (r # rs) originalOffset accumulatedDelta =
     (if start (replaceRange r) \<le> originalOffset
      then (if originalOffset < endExclusive (replaceRange r)
            then start (replaceRange r) + accumulatedDelta
            else applyToOffset_loop M rs originalOffset
                   (accumulatedDelta + (getNewLength M r - OffsetRange_length (replaceRange r))))
      else originalOffset + accumulatedDelta)"

definition BaseEdit_applyToOffset :: "'x methods \<Rightarrow> 'x BaseReplacement_scheme BaseEdit \<Rightarrow> int \<Rightarrow> int" where
  "BaseEdit_applyToOffset M this originalOffset = applyToOffset_loop M (replacements this) originalOffset 0"

definition BaseEdit_applyToOffsetRange ::
  "'x methods \<Rightarrow> 'x BaseReplacement_scheme BaseEdit \<Rightarrow> OffsetRange \<Rightarrow> OffsetRange result" where
  "BaseEdit_applyToOffsetRange M this rng =
     OffsetRange_new (BaseEdit_applyToOffset M this (start rng)) (BaseEdit_applyToOffset M this (endExclusive rng))"

fun applyInverseToOffset_loop :: "'x methods \<Rightarrow> 'x BaseReplacement_scheme list \<Rightarrow> int \<Rightarrow> int \<Rightarrow> int" where
  "applyInverseToOffset_loop M [] postEditsOffset accumulatedDelta = postEditsOffset - accumulatedDelta"
| "applyInverseToOffset_loop M (edit # rs) postEditsOffset accumulatedDelta =
     (let editLength = getNewLength M edit
      in if start (replaceRange edit) \<le> postEditsOffset - accumulatedDelta
         then (if postEditsOffset - accumulatedDelta < start (replaceRange edit) + editLength
               then start (replaceRange edit)
               else applyInverseToOffset_loop M rs postEditsOffset
                      (accumulatedDelta + (editLength - OffsetRange_length (replaceRange edit))))
         else postEditsOffset - accumulatedDelta)"

definition BaseEdit_applyInverseToOffset ::
  "'x methods \<Rightarrow> 'x BaseReplacement_scheme BaseEdit \<Rightarrow> int \<Rightarrow> int" where
  "BaseEdit_applyInverseToOffset M this postEditsOffset =
     applyInverseToOffset_loop M (replacements this) postEditsOffset 0"

fun applyToOffsetOrUndefined_loop ::
  "'x methods \<Rightarrow> 'x BaseReplacement_scheme list \<Rightarrow> int \<Rightarrow> int \<Rightarrow> int option" where
  "applyToOffsetOrUndefined_loop M [] originalOffset accumulatedDelta = Some (originalOffset + accumulatedDelta)"
| "applyToOffsetOrUndefined_loop M (edit # rs) originalOffset accumulatedDelta =
     (if start (replaceRange edit) \<le> originalOffset
      then (if originalOffset < endExclusive (replaceRange edit) then None
            else applyToOffsetOrUndefined_loop M rs originalOffset
                   (accumulatedDelta + (getNewLength M edit - OffsetRange_length (replaceRange edit))))
      else Some (originalOffset + accumulatedDelta))"

definition BaseEdit_applyToOffsetOrUndefined ::
  "'x methods \<Rightarrow> 'x BaseReplacement_scheme BaseEdit \<Rightarrow> int \<Rightarrow> int option" where
  "BaseEdit_applyToOffsetOrUndefined M this originalOffset =
     applyToOffsetOrUndefined_loop M (replacements this) originalOffset 0"

definition BaseEdit_applyToOffsetRangeOrUndefined ::
  "'x methods \<Rightarrow> 'x BaseReplacement_scheme BaseEdit \<Rightarrow> OffsetRange \<Rightarrow> OffsetRange option result" where
  "BaseEdit_applyToOffsetRangeOrUndefined M this rng =
     (case BaseEdit_applyToOffsetOrUndefined M this (start rng) of None \<Rightarrow> Inr None
      | Some s \<Rightarrow>
          (case BaseEdit_applyToOffsetOrUndefined M this (endExclusive rng) of None \<Rightarrow> Inr None
           | Some e \<Rightarrow> bindr (OffsetRange_new s e) (\<lambda>r. Inr (Some r))))"

section \<open>Concrete classes: \<open>Edit\<close> and \<open>AnnotationReplacement\<close>\<close>

definition Edit_empty :: "'x BaseReplacement_scheme BaseEdit result" where
  "Edit_empty = BaseEdit_new []"

definition Edit_create :: "'x BaseReplacement_scheme list \<Rightarrow> 'x BaseReplacement_scheme BaseEdit result" where
  "Edit_create rs = BaseEdit_new rs"

definition Edit_single :: "'x BaseReplacement_scheme \<Rightarrow> 'x BaseReplacement_scheme BaseEdit result" where
  "Edit_single r = BaseEdit_new [r]"

record 'a AnnotationReplacement = BaseReplacement +
  newLength :: int
  annotation :: 'a

definition AnnotationReplacement_new :: "OffsetRange \<Rightarrow> int \<Rightarrow> 'a \<Rightarrow> 'a AnnotationReplacement" where
  "AnnotationReplacement_new rng len a = \<lparr>replaceRange = rng, newLength = len, annotation = a\<rparr>"

definition AnnotationReplacement_equals ::
  "'a AnnotationReplacement \<Rightarrow> 'a AnnotationReplacement \<Rightarrow> bool" where
  "AnnotationReplacement_equals r other \<longleftrightarrow>
     OffsetRange_equals (replaceRange r) (replaceRange other)
     \<and> newLength r = newLength other \<and> annotation r = annotation other"

definition AnnotationReplacement_tryJoinTouching ::
  "'a AnnotationReplacement \<Rightarrow> 'a AnnotationReplacement \<Rightarrow> 'a AnnotationReplacement option result" where
  "AnnotationReplacement_tryJoinTouching r other =
     (if annotation r \<noteq> annotation other then Inr None
      else bindr (OffsetRange_joinRightTouching (replaceRange r) (replaceRange other)) (\<lambda>rng.
           Inr (Some (AnnotationReplacement_new rng (newLength r + newLength other) (annotation r)))))"

definition AnnotationReplacement_slice ::
  "'a AnnotationReplacement \<Rightarrow> OffsetRange \<Rightarrow> OffsetRange option \<Rightarrow> 'a AnnotationReplacement" where
  "AnnotationReplacement_slice r rng inRepl =
     AnnotationReplacement_new rng
       (case inRepl of None \<Rightarrow> newLength r | Some h \<Rightarrow> OffsetRange_length h) (annotation r)"

definition AnnotationReplacement_methods :: "'a AnnotationReplacement replacement_methods" where
  "AnnotationReplacement_methods =
     \<lparr>getNewLength = newLength, tryJoinTouching = AnnotationReplacement_tryJoinTouching,
      sliceRepl = AnnotationReplacement_slice, equalsRepl = AnnotationReplacement_equals\<rparr>"

section \<open>Laws\<close>

text \<open>A replacement as a splice, given the material it inserts.\<close>

definition view :: "('x BaseReplacement_scheme \<Rightarrow> 'c list) \<Rightarrow> 'x BaseReplacement_scheme \<Rightarrow> 'c splice" where
  "view mat r = (start (replaceRange r), endExclusive (replaceRange r), mat r)"

lemma view_sel [simp]:
  "fst (view mat r) = start (replaceRange r)"
  "view mat r = (a, b, t) \<longleftrightarrow> start (replaceRange r) = a \<and> endExclusive (replaceRange r) = b \<and> mat r = t"
  by (simp_all add: view_def)

lemma view_simps [simp]:
  "out p (view mat r # es) s =
     take (nat (start (replaceRange r) - p)) (drop (nat p) s) @ mat r @ out (endExclusive (replaceRange r)) es s"
  "fits p n (view mat r # es) \<longleftrightarrow> p \<le> start (replaceRange r)
     \<and> start (replaceRange r) \<le> endExclusive (replaceRange r) \<and> fits (endExclusive (replaceRange r)) n es"
  "shift d (view mat r # es) =
     shift (d + int (length (mat r)) - (endExclusive (replaceRange r) - start (replaceRange r))) es"
  "endp p (view mat r # es) = endp (endExclusive (replaceRange r)) es"
  "pre p (view mat r # es) s =
     take (nat (start (replaceRange r) - p)) (drop (nat p) s) @ mat r @ pre (endExclusive (replaceRange r)) es s"
  by (simp_all add: view_def)

lemma BaseEdit_check_fits:
  "fits p n (map (view mat) rs) \<Longrightarrow> q \<le> p \<Longrightarrow> BaseEdit_check rs q = Inr ()"
  by (induction rs arbitrary: p q) (auto simp: view_def)

lemma BaseEdit_new_fits:
  "fits p n (map (view mat) rs) \<Longrightarrow> 0 \<le> p \<Longrightarrow> BaseEdit_new rs = Inr \<lparr>replacements = rs\<rparr>"
  using BaseEdit_check_fits [of p n mat rs "- 1"] by (simp add: BaseEdit_new_def)

text \<open>What \<open>BaseEdit\<close> expects of a replacement class: the length is the length of the material, a
  slice has the requested range and the requested part of the material, and joining two touching
  replacements does not throw and, where it succeeds, concatenates them.\<close>

locale replacement_class =
  fixes M :: "'x methods" and mat :: "'x BaseReplacement_scheme \<Rightarrow> 'c list"
    and ok :: "'x BaseReplacement_scheme \<Rightarrow> bool"
  assumes len: "ok r \<Longrightarrow> getNewLength M r = int (length (mat r))"
    and slice_range: "replaceRange (sliceRepl M r g h) = g"
    and slice_txt: "ok r \<Longrightarrow> 0 \<le> a \<Longrightarrow> a \<le> b \<Longrightarrow> b \<le> int (length (mat r)) \<Longrightarrow>
      ok (sliceRepl M r g (Some (OR a b)))
      \<and> mat (sliceRepl M r g (Some (OR a b))) = take (nat (b - a)) (drop (nat a) (mat r))"
    and join: "ok x \<Longrightarrow> ok y \<Longrightarrow> or_wf (replaceRange x) \<Longrightarrow> or_wf (replaceRange y) \<Longrightarrow>
      endExclusive (replaceRange x) = start (replaceRange y) \<Longrightarrow>
      \<exists>j. tryJoinTouching M x y = Inr j \<and> (\<forall>z. j = Some z \<longrightarrow> ok z
        \<and> replaceRange z = OR (start (replaceRange x)) (endExclusive (replaceRange y))
        \<and> mat z = mat x @ mat y)"
begin

abbreviation V :: "'x BaseReplacement_scheme list \<Rightarrow> 'c splice list" where
  "V rs \<equiv> map (view mat) rs"

definition good :: "int \<Rightarrow> int \<Rightarrow> 'x BaseReplacement_scheme list \<Rightarrow> bool" where
  "good p n rs \<longleftrightarrow> (\<forall>r \<in> set rs. ok r) \<and> fits p n (V rs)"

lemma good_simps [simp]:
  "good p n [] \<longleftrightarrow> p \<le> n"
  "good p n (r # rs) \<longleftrightarrow> ok r \<and> p \<le> start (replaceRange r)
     \<and> start (replaceRange r) \<le> endExclusive (replaceRange r) \<and> good (endExclusive (replaceRange r)) n rs"
  by (auto simp: good_def view_def)

lemma good_mono: "good p n rs \<Longrightarrow> q \<le> p \<Longrightarrow> good q n rs"
  by (auto simp: good_def intro: fits_mono)

lemma good_new: "good p n rs \<Longrightarrow> 0 \<le> p \<Longrightarrow> BaseEdit_new rs = Inr \<lparr>replacements = rs\<rparr>"
  by (auto simp: good_def intro: BaseEdit_new_fits)

lemma slice_all: "ok r \<Longrightarrow> ok (sliceRepl M r g (Some (OR 0 (getNewLength M r))))
    \<and> mat (sliceRepl M r g (Some (OR 0 (getNewLength M r)))) = mat r"
  using slice_txt [of r 0 "int (length (mat r))" g] by (simp add: len)

subsection \<open>Normalisation\<close>

lemma isEmpty_iff:
  "ok r \<Longrightarrow> BaseReplacement_isEmpty M r \<longleftrightarrow>
     mat r = [] \<and> endExclusive (replaceRange r) = start (replaceRange r)"
  by (auto simp: BaseReplacement_isEmpty_def len OffsetRange_length_def)

lemma normalize_loop_correct:
  assumes "0 \<le> p" and "good p (int (length s)) (pendingRepl l @ rs)"
    and "\<forall>r \<in> set (acc @ pendingRepl l). \<not> BaseReplacement_isEmpty M r"
  shows "\<exists>N. normalize_loop M rs l acc = Inr (acc @ N) \<and> good p (int (length s)) N
    \<and> out p (V N) s = out p (V (pendingRepl l @ rs)) s
    \<and> (\<forall>r \<in> set (acc @ N). \<not> BaseReplacement_isEmpty M r)"
  using assms
proof (induction rs arbitrary: l acc p)
  case Nil
  then show ?case by auto
next
  case (Cons r rs)
  show ?case
  proof (cases "BaseReplacement_isEmpty M r")
    case True
    have ok: "ok r" using Cons.prems(2) by (auto simp: good_def)
    have e: "endExclusive (replaceRange r) = start (replaceRange r)" "mat r = []"
      using True ok by (simp_all add: isEmpty_iff)
    have good: "good p (int (length s)) (pendingRepl l @ rs)"
      using Cons.prems(2) e by (cases l) (auto simp: pendingRepl_def good_def view_def intro: fits_mono)
    have "out p (V (pendingRepl l @ r # rs)) s = out p (V (pendingRepl l @ rs)) s"
      using Cons.prems(1,2) e
      by (cases l) (auto simp: pendingRepl_def good_def view_def out_skip [symmetric])
    then show ?thesis
      using Cons.IH [OF Cons.prems(1) good Cons.prems(3)] True
      by (simp add: BaseReplacement_isEmpty_def)
  next
    case False
    have step: "normalize_loop M (r # rs) l acc = (case l of None \<Rightarrow> normalize_loop M rs (Some r) acc
      | Some l \<Rightarrow>
         if endExclusive (replaceRange l) = start (replaceRange r)
         then bindr (tryJoinTouching M l r) (\<lambda>joined. case joined of
            Some j \<Rightarrow> normalize_loop M rs (Some j) acc | None \<Rightarrow> normalize_loop M rs (Some r) (acc @ [l]))
         else normalize_loop M rs (Some r) (acc @ [l]))"
      using False unfolding BaseReplacement_isEmpty_def by (simp only: normalize_loop.simps if_False)
    show ?thesis
    proof (cases l)
      case None
      with Cons.IH [OF Cons.prems(1), of "Some r" acc] Cons.prems False show ?thesis
        unfolding step by (auto simp: pendingRepl_def)
    next
      case (Some x)
      have g: "ok x" "p \<le> start (replaceRange x)" "or_wf (replaceRange x)"
        "good (endExclusive (replaceRange x)) (int (length s)) (r # rs)"
        using Cons.prems(2) Some by (auto simp: pendingRepl_def or_wf_def)
      have push: ?thesis if "normalize_loop M (r # rs) l acc = normalize_loop M rs (Some r) (acc @ [x])"
      proof -
        have "0 \<le> endExclusive (replaceRange x)" using g(2,3) Cons.prems(1) by (simp add: or_wf_def)
        from Cons.IH [OF this, of "Some r" "acc @ [x]"] g(4) Cons.prems(3) Some False obtain N where
          N: "normalize_loop M rs (Some r) (acc @ [x]) = Inr (acc @ x # N)"
            "good (endExclusive (replaceRange x)) (int (length s)) N"
            "out (endExclusive (replaceRange x)) (V N) s = out (endExclusive (replaceRange x)) (V (r # rs)) s"
            "\<forall>r \<in> set (acc @ x # N). \<not> BaseReplacement_isEmpty M r"
          by (auto simp: pendingRepl_def)
        show ?thesis unfolding that
          using N g Some by (intro exI [of _ "x # N"]) (auto simp: pendingRepl_def or_wf_def)
      qed
      show ?thesis
      proof (cases "endExclusive (replaceRange x) = start (replaceRange r)")
        case True
        with join [of x r] g obtain j where j: "tryJoinTouching M x r = Inr j"
          "\<forall>z. j = Some z \<longrightarrow> ok z \<and> replaceRange z = OR (start (replaceRange x)) (endExclusive (replaceRange r))
             \<and> mat z = mat x @ mat r" by (auto simp: or_wf_def)
        show ?thesis
        proof (cases j)
          case None
          with j(1) Some True push step show ?thesis by simp
        next
          case (Some z)
          with j(2) have z: "ok z" "replaceRange z = OR (start (replaceRange x)) (endExclusive (replaceRange r))"
            "mat z = mat x @ mat r" by auto
          have ne: "\<not> BaseReplacement_isEmpty M z"
            using z g(1,3,4) False True by (auto simp: isEmpty_iff or_wf_def)
          have "good p (int (length s)) (pendingRepl (Some z) @ rs)"
            using z g by (auto simp: pendingRepl_def or_wf_def)
          from Cons.IH [OF Cons.prems(1) this, of acc] Cons.prems(3) ne j(1) \<open>l = Some x\<close> Some True show ?thesis
            unfolding step by (auto simp: pendingRepl_def z)
        qed
      next
        case False
        with Some push step show ?thesis by simp
      qed
    qed
  qed
qed

lemma normalize_correct:
  assumes "good 0 (int (length s)) (replacements e)"
  shows "\<exists>N. BaseEdit_normalize M e = Inr \<lparr>replacements = N\<rparr> \<and> good 0 (int (length s)) N
    \<and> out 0 (V N) s = out 0 (V (replacements e)) s \<and> (\<forall>r \<in> set N. \<not> BaseReplacement_isEmpty M r)"
proof -
  from normalize_loop_correct [of 0 s None "replacements e" "[]"] assms obtain N where
    N: "normalize_loop M (replacements e) None [] = Inr N" "good 0 (int (length s)) N"
      "out 0 (V N) s = out 0 (V (replacements e)) s" "\<forall>r \<in> set N. \<not> BaseReplacement_isEmpty M r"
    by (auto simp: pendingRepl_def)
  with good_new [OF N(2)] show ?thesis by (auto simp: BaseEdit_normalize_def)
qed

subsection \<open>Composition\<close>

text \<open>The state between two replacements of the second edit: \<open>queue\<close> is what is left of the first edit
  from position \<open>p\<close> of the original on, \<open>p + d\<close> is the matching position in the text \<open>m\<close> between
  the two edits, and the rest of \<open>m\<close> is what the queue makes of the rest of the original.\<close>

definition compose_inv ::
  "int \<Rightarrow> 'c list \<Rightarrow> 'c list \<Rightarrow> 'x BaseReplacement_scheme list \<Rightarrow> int \<Rightarrow> bool" where
  "compose_inv p s m queue d \<longleftrightarrow>
     0 \<le> p \<and> 0 \<le> p + d \<and> p + d \<le> int (length m) \<and> good p (int (length s)) queue
     \<and> drop (nat (p + d)) m = out p (V queue) s"

lemma compose_inv_advance:
  assumes inv: "compose_inv p s m (C @ q) d"
  defines "p' \<equiv> endp p (V C)" and "d' \<equiv> shift d (V C)"
  shows "compose_inv p' s m q d'" and "p \<le> p'" and "p + d \<le> p' + d'"
    and "drop (nat (p + d)) m = pre p (V C) s @ drop (nat (p' + d')) m"
    and "int (length (pre p (V C) s)) = (p' + d') - (p + d)"
    and "fits p p' (V C)"
proof -
  let ?n = "int (length s)"
  have p: "0 \<le> p" "0 \<le> p + d" and m: "drop (nat (p + d)) m = out p (V (C @ q)) s"
    and le: "p + d \<le> int (length m)" and ok: "\<forall>r \<in> set (C @ q). ok r"
    and fits: "fits p p' (V C)" "fits p' ?n (V q)"
    using inv by (auto simp: compose_inv_def good_def fits_append p'_def)
  show "fits p p' (V C)" by (rule fits(1))
  show pp: "p \<le> p'" by (rule fits_le [OF fits(1)])
  have "fits p ?n (V C)" using fits fits_le fits_upper by blast
  from length_pre [OF p(1) this, of d]
  show lp: "int (length (pre p (V C) s)) = (p' + d') - (p + d)" by (simp add: p'_def d'_def)
  then show pd: "p + d \<le> p' + d'" by linarith
  have split: "drop (nat (p + d)) m = pre p (V C) s @ out p' (V q) s"
    using m by (simp add: out_append p'_def)
  have "nat (p' + d' - (p + d)) = length (pre p (V C) s)" using lp by simp
  then have dm: "drop (nat (p' + d')) m = out p' (V q) s"
    unfolding drop_nat_le [OF p(2) pd] split by simp
  with split show "drop (nat (p + d)) m = pre p (V C) s @ drop (nat (p' + d')) m" by simp
  have "length (pre p (V C) s) \<le> length (drop (nat (p + d)) m)" unfolding split by simp
  then have "p' + d' \<le> int (length m)" using lp p(2) le by (simp add: nat_le_iff of_nat_diff)
  with dm fits(2) ok pp p pd show "compose_inv p' s m q d'"
    by (auto simp: compose_inv_def good_def)
qed

lemma shift_view: "shift (shift d [view mat r]) (V C) = shift d (V (r # C))"
  by simp

lemma compose_copy_correct:
  assumes "\<forall>r \<in> set queue. ok r" and "p + d \<le> start (replaceRange r2)"
    and "fits p n (V queue)"
  shows "\<exists>C q. compose_copy M queue d r2 res = (q, shift d (V C), res @ C) \<and> queue = C @ q
    \<and> endp p (V C) + shift d (V C) \<le> start (replaceRange r2)
    \<and> (q \<noteq> [] \<longrightarrow> start (replaceRange r2)
         \<le> start (replaceRange (hd q)) + shift d (V C) + int (length (mat (hd q))))"
  using assms
proof (induction queue arbitrary: p d res)
  case Nil
  then show ?case by auto
next
  case (Cons r q)
  show ?case
  proof (cases "start (replaceRange r) + d + getNewLength M r \<ge> start (replaceRange r2)")
    case True
    with Cons.prems show ?thesis
      by (intro exI [of _ "[]"] exI [of _ "r # q"]) (auto simp: len add.assoc)
  next
    case False
    let ?d = "shift d [view mat r]"
    have le: "endExclusive (replaceRange r) + ?d \<le> start (replaceRange r2)"
      using False Cons.prems(1) by (simp add: len)
    have "fits (endExclusive (replaceRange r)) n (V q)" using Cons.prems(3) by simp
    with Cons.IH [OF _ le, of "res @ [r]"] Cons.prems(1) obtain C q' where
      C: "compose_copy M q ?d r2 (res @ [r]) = (q', shift ?d (V C), (res @ [r]) @ C)" "q = C @ q'"
      "endp (endExclusive (replaceRange r)) (V C) + shift ?d (V C) \<le> start (replaceRange r2)"
      "q' \<noteq> [] \<longrightarrow> start (replaceRange r2)
         \<le> start (replaceRange (hd q')) + shift ?d (V C) + int (length (mat (hd q')))"
      by auto
    have "compose_copy M (r # q) d r2 res = compose_copy M q ?d r2 (res @ [r])"
      using False Cons.prems(1) by (simp add: len OffsetRange_length_def algebra_simps)
    with C show ?thesis by (intro exI [of _ "r # C"] exI [of _ q']) (simp add: shift_view)
  qed
qed

lemma compose_block_correct:
  assumes "\<forall>r \<in> set queue. ok r"
  shows "\<exists>P q. compose_block M queue d r2 f l =
       (q, shift d (V P), (if f = None \<and> P \<noteq> [] then Some (hd P) else f), (if P = [] then l else Some (last P)))
    \<and> queue = P @ q
    \<and> (P \<noteq> [] \<longrightarrow> start (replaceRange (last P)) + shift d (V (butlast P)) \<le> endExclusive (replaceRange r2))
    \<and> (q \<noteq> [] \<longrightarrow> endExclusive (replaceRange r2) < start (replaceRange (hd q)) + shift d (V P))"
  using assms
proof (induction queue arbitrary: d f l)
  case Nil
  then show ?case by auto
next
  case (Cons r q)
  show ?case
  proof (cases "start (replaceRange r) + d > endExclusive (replaceRange r2)")
    case True
    then show ?thesis by (intro exI [of _ "[]"] exI [of _ "r # q"]) auto
  next
    case False
    let ?d = "shift d [view mat r]"
    obtain x where x: "(case f of None \<Rightarrow> Some r | Some x \<Rightarrow> Some x) = Some x"
      "x = (if f = None then r else the f)" by (cases f) auto
    from Cons.IH [of ?d "Some x" "Some r"] Cons.prems obtain P q' where
      P: "compose_block M q ?d r2 (Some x) (Some r) =
         (q', shift ?d (V P), Some x, (if P = [] then Some r else Some (last P)))" "q = P @ q'"
      "P \<noteq> [] \<longrightarrow> start (replaceRange (last P)) + shift ?d (V (butlast P)) \<le> endExclusive (replaceRange r2)"
      "q' \<noteq> [] \<longrightarrow> endExclusive (replaceRange r2) < start (replaceRange (hd q')) + shift ?d (V P)"
      by (simp del: view_simps) blast
    have "compose_block M (r # q) d r2 f l = compose_block M q ?d r2 (Some x) (Some r)"
      using False Cons.prems x by (simp add: len OffsetRange_length_def algebra_simps)
    with P False x(2) show ?thesis
      by (intro exI [of _ "r # P"] exI [of _ q']) (cases f; simp add: shift_view)
  qed
qed

text \<open>Moving forward inside a gap that the first edit leaves untouched.\<close>

lemma compose_inv_forward:
  assumes inv: "compose_inv p s m q d" and le: "p \<le> p'" "p' + d \<le> int (length m)"
    and gap: "q \<noteq> [] \<Longrightarrow> p' \<le> start (replaceRange (hd q))"
  shows "compose_inv p' s m q d"
    and "take (nat (p' - p)) (drop (nat (p + d)) m) = take (nat (p' - p)) (drop (nat p) s)"
proof -
  have p: "0 \<le> p" "0 \<le> p + d" and m: "drop (nat (p + d)) m = out p (V q) s"
    and lm: "p + d \<le> int (length m)" and ok: "\<forall>r \<in> set q. ok r" and fits: "fits p (int (length s)) (V q)"
    using inv by (auto simp: compose_inv_def good_def)
  have "p' \<le> int (length s)" if "q = []"
  proof -
    have "length (drop (nat (p + d)) m) = length (drop (nat p) s)" using m that by simp
    then show ?thesis using p lm le fits_le [OF fits] by (simp add: nat_le_iff)
  qed
  with fits have f: "fits p' (int (length s)) (V q)"
    by (rule fits_raise) (auto simp: gap hd_map)
  note t = take_out [OF p(1) le(1) f]
  have "drop (nat (p' + d)) m = drop (nat (p' - p)) (drop (nat (p + d)) m)"
    using drop_nat_le [of "p + d" "p' + d" m] p le by simp
  with t(2) m p le ok f show "compose_inv p' s m q d"
    by (simp add: compose_inv_def good_def)
  show "take (nat (p' - p)) (drop (nat (p + d)) m) = take (nat (p' - p)) (drop (nat p) s)"
    using t(1) m by simp
qed

lemma take_append_length: "length xs \<le> k \<Longrightarrow> take k (xs @ ys) = xs @ take (k - length xs) ys"
  by simp

lemma merge_prefix:
  assumes inv: "compose_inv p s m (f # R) d" and a: "p + d \<le> a"
    and touch: "a \<le> start (replaceRange f) + d + int (length (mat f))"
  defines "ns \<equiv> min (start (replaceRange f)) (a - d)" and "pl \<equiv> a - (start (replaceRange f) + d)"
  defines "T \<equiv> (if pl > 0 then [sliceRepl M f (OR ns ns) (Some (OR 0 pl))] else [])"
  shows "(\<forall>r \<in> set T. ok r) \<and> fits p ns (V T)"
    and "pre p (V T) s @ take (nat (ns - endp p (V T))) (drop (nat (endp p (V T))) s)
       = take (nat (a - (p + d))) (drop (nat (p + d)) m)"
proof -
  have p: "0 \<le> p" "p \<le> start (replaceRange f)" and ok: "ok f"
    and fn: "start (replaceRange f) \<le> int (length s)"
    and m: "drop (nat (p + d)) m = take (nat (start (replaceRange f) - p)) (drop (nat p) s) @ mat f
      @ out (endExclusive (replaceRange f)) (V R) s"
    using inv fits_le [of "endExclusive (replaceRange f)" "int (length s)"]
    by (force simp: compose_inv_def good_def)+
  have lt: "length (take (nat (start (replaceRange f) - p)) (drop (nat p) s)) = nat (start (replaceRange f) - p)"
    using p fn by simp
  have "(\<forall>r \<in> set T. ok r) \<and> fits p ns (V T)
    \<and> pre p (V T) s @ take (nat (ns - endp p (V T))) (drop (nat (endp p (V T))) s)
       = take (nat (a - (p + d))) (drop (nat (p + d)) m)"
  proof (cases "pl > 0")
    case True
    then have ns: "ns = start (replaceRange f)" by (simp add: ns_def pl_def)
    have "0 \<le> pl" "pl \<le> int (length (mat f))" using True touch by (simp_all add: pl_def)
    then have e: "ok (sliceRepl M f (OR ns ns) (Some (OR 0 pl)))"
      "mat (sliceRepl M f (OR ns ns) (Some (OR 0 pl))) = take (nat pl) (mat f)"
      using slice_txt [OF ok order_refl, of pl "OR ns ns"] by simp_all
    have "nat (a - (p + d)) = nat (start (replaceRange f) - p) + nat pl"
      using True p by (simp add: pl_def nat_add_distrib [symmetric])
    moreover have "nat pl \<le> length (mat f)" using \<open>pl \<le> int (length (mat f))\<close> by simp
    ultimately have "take (nat (a - (p + d))) (drop (nat (p + d)) m)
        = take (nat (start (replaceRange f) - p)) (drop (nat p) s) @ take (nat pl) (mat f)"
      unfolding m using lt by (simp del: length_take)
    then show ?thesis
      using True e p by (simp add: T_def ns slice_range)
  next
    case False
    then have ns: "ns = a - d" "a - d \<le> start (replaceRange f)" by (auto simp: ns_def pl_def)
    have "take (nat (a - (p + d))) (drop (nat (p + d)) m) = take (nat (a - d - p)) (drop (nat p) s)"
      unfolding m using lt ns(2) by (simp del: length_take add: diff_diff_eq add.commute)
    then show ?thesis using False ns a by (simp add: T_def)
  qed
  then show "(\<forall>r \<in> set T. ok r) \<and> fits p ns (V T)"
    and "pre p (V T) s @ take (nat (ns - endp p (V T))) (drop (nat (endp p (V T))) s)
       = take (nat (a - (p + d))) (drop (nat (p + d)) m)" by blast+
qed

lemma merge_suffix:
  assumes inv: "compose_inv p s m (l # q) d" and b: "start (replaceRange l) + d \<le> b" "b \<le> int (length m)"
    and gap: "q \<noteq> [] \<Longrightarrow> b < start (replaceRange (hd q)) + shift d [view mat l]"
  defines "sl \<equiv> endExclusive (replaceRange l) + shift d [view mat l] - b"
  defines "e \<equiv> sliceRepl M l (OR (endExclusive (replaceRange l)) (endExclusive (replaceRange l)))
                  (Some (OR (getNewLength M l - sl) (getNewLength M l)))"
  shows "sl > 0 \<Longrightarrow> compose_inv (endExclusive (replaceRange l)) s m (e # q) (b - endExclusive (replaceRange l))
            \<and> getNewLength M e = sl \<and> sl \<le> getNewLength M l"
    and "\<not> sl > 0 \<Longrightarrow> compose_inv (b - shift d [view mat l]) s m q (shift d [view mat l])
            \<and> endExclusive (replaceRange l) \<le> b - shift d [view mat l]"
proof -
  let ?d = "shift d [view mat l]" and ?e = "endExclusive (replaceRange l)"
  have adv: "compose_inv ?e s m q ?d"
    using compose_inv_advance(1) [of p s m "[l]" q d] inv by simp
  have p: "0 \<le> p" "0 \<le> p + d" "p \<le> start (replaceRange l)" "start (replaceRange l) \<le> ?e" and ok: "ok l"
    and ln: "?e \<le> int (length s)"
    and m: "drop (nat (p + d)) m = take (nat (start (replaceRange l) - p)) (drop (nat p) s) @ mat l @ out ?e (V q) s"
    using inv fits_le [of ?e "int (length s)"] by (force simp: compose_inv_def good_def)+
  show "compose_inv (b - ?d) s m q ?d \<and> ?e \<le> b - ?d" if "\<not> sl > 0"
  proof
    show le: "?e \<le> b - ?d" using that by (simp add: sl_def del: view_simps)
    show "compose_inv (b - ?d) s m q ?d"
    proof (rule compose_inv_forward(1) [OF adv le])
      show "b - ?d + ?d \<le> int (length m)" using b(2) by simp
      show "b - ?d \<le> start (replaceRange (hd q))" if "q \<noteq> []"
        using gap [OF that] by (simp del: view_simps)
    qed
  qed
  show "compose_inv ?e s m (e # q) (b - ?e) \<and> getNewLength M e = sl \<and> sl \<le> getNewLength M l" if sl: "sl > 0"
  proof -
    have d: "?d = d + int (length (mat l)) - (?e - start (replaceRange l))" by simp
    have le: "sl \<le> int (length (mat l))" "int (length (mat l)) - sl = b - (start (replaceRange l) + d)"
      using b(1) by (simp_all add: sl_def d)
    then have e: "ok e" "mat e = drop (nat (int (length (mat l)) - sl)) (mat l)" "replaceRange e = OR ?e ?e"
      using sl slice_txt [OF ok, of "int (length (mat l)) - sl" "int (length (mat l))"]
      by (simp_all add: e_def len [OF ok] slice_range)
    have "drop (nat (start (replaceRange l) + d)) m = mat l @ out ?e (V q) s"
      using drop_nat_le [of "p + d" "start (replaceRange l) + d" m] p m ln by simp
    then have "drop (nat b) m = mat e @ out ?e (V q) s"
      using drop_nat_le [of "start (replaceRange l) + d" b m] b(1) p le e(2) sl by simp
    moreover have "getNewLength M e = sl" using le(1) sl by (simp add: len [OF e(1)] e(2))
    ultimately show ?thesis
      using adv b p e le by (auto simp: compose_inv_def len [OF ok])
  qed
qed

text \<open>What one step of the outer loop achieves: the pushed replacements \<open>T\<close> turn the original up to
  \<open>p'\<close> into what the second edit makes of \<open>m\<close> up to the end of its replacement \<open>r2\<close>.\<close>

definition step_ok ::
  "int \<Rightarrow> int \<Rightarrow> 'c list \<Rightarrow> 'c list \<Rightarrow> 'x BaseReplacement_scheme \<Rightarrow> int
   \<Rightarrow> 'x BaseReplacement_scheme list \<Rightarrow> 'x BaseReplacement_scheme list \<Rightarrow> int \<Rightarrow> bool" where
  "step_ok p d s m r2 p' T q' d' \<longleftrightarrow>
     compose_inv p' s m q' d' \<and> p' + d' = endExclusive (replaceRange r2)
     \<and> (\<forall>r \<in> set T. ok r) \<and> fits p p' (V T) \<and> endp p (V T) = p'
     \<and> pre p (V T) s = take (nat (start (replaceRange r2) - (p + d))) (drop (nat (p + d)) m) @ mat r2"

lemma compose_merge_correct:
  assumes inv: "compose_inv p s m (P @ q) d" and P: "P \<noteq> []" and r2: "ok r2"
    and ab: "p + d \<le> start (replaceRange r2)" "start (replaceRange r2) \<le> endExclusive (replaceRange r2)"
      "endExclusive (replaceRange r2) \<le> int (length m)"
    and touch: "start (replaceRange r2) \<le> start (replaceRange (hd P)) + d + int (length (mat (hd P)))"
    and lst: "start (replaceRange (last P)) + shift d (V (butlast P)) \<le> endExclusive (replaceRange r2)"
    and gap: "q \<noteq> [] \<Longrightarrow> endExclusive (replaceRange r2) < start (replaceRange (hd q)) + shift d (V P)"
  shows "\<exists>q' d' p' T. compose_merge M q d (shift d (V P)) r2 (hd P) (Some (last P)) res = Inr (q', d', res @ T)
    \<and> step_ok p d s m r2 p' T q' d'"
proof -
  let ?a = "start (replaceRange r2)" and ?b = "endExclusive (replaceRange r2)"
  define f l A where fl: "f = hd P" "l = last P" "A = butlast P"
  have PA: "P = A @ [l]" and Pf: "P = f # tl P" using P by (simp_all add: fl)
  define ns pl where nspl: "ns = min (start (replaceRange f)) (?a - d)" "pl = ?a - (start (replaceRange f) + d)"
  define T1 where "T1 = (if pl > 0 then [sliceRepl M f (OR ns ns) (Some (OR 0 pl))] else [])"
  have inv_f: "compose_inv p s m (f # tl P @ q) d" using inv Pf by (metis append_Cons)
  note prefix = merge_prefix [OF inv_f ab(1) touch [folded fl(1)], folded nspl, folded T1_def]
  define pA dl where "pA = endp p (V A)" and "dl = shift d (V A)"
  have inv_l: "compose_inv pA s m (l # q) dl" "p \<le> pA"
    using compose_inv_advance(1,2) [of p s m A "l # q" d] inv PA by (simp_all add: pA_def dl_def)
  define d2 where "d2 = shift d (V P)"
  have d2: "d2 = shift dl [view mat l]" by (simp add: d2_def dl_def PA del: view_simps)
  define sl where "sl = endExclusive (replaceRange l) + d2 - ?b"
  define e where "e = sliceRepl M l (OR (endExclusive (replaceRange l)) (endExclusive (replaceRange l)))
                  (Some (OR (getNewLength M l - sl) (getNewLength M l)))"
  have gap2: "?b < start (replaceRange (hd q)) + shift dl [view mat l]" if "q \<noteq> []"
    using gap [OF that] unfolding d2 [symmetric] d2_def .
  note suffix = merge_suffix [OF inv_l(1) lst [folded fl, folded dl_def] ab(3) gap2, folded d2, folded sl_def, folded e_def]
  define q' d' where q'd': "q' = (if sl > 0 then e # q else q)" "d' = (if sl > 0 then d2 - sl else d2)"
  have inv': "compose_inv (?b - d') s m q' d'" and le: "endExclusive (replaceRange l) \<le> ?b - d'"
    using suffix by (auto simp: q'd' sl_def)
  have fl_le: "start (replaceRange f) \<le> endExclusive (replaceRange l)"
  proof (cases A)
    case Nil
    then show ?thesis using inv_l(1) Pf PA by (simp add: compose_inv_def)
  next
    case (Cons x xs)
    then have "f = x" using Pf PA by (metis append_Cons list.inject)
    then have "fits p pA (view mat f # V xs)"
      using compose_inv_advance(6) [of p s m A "l # q" d] inv PA Cons by (simp add: pA_def)
    then have "start (replaceRange f) \<le> pA" using fits_le by fastforce
    then show ?thesis using inv_l(1) by (simp add: compose_inv_def)
  qed
  then have nsb: "ns \<le> ?b - d'" "p \<le> ns"
    using le ab(1) inv_f by (auto simp: nspl compose_inv_def)
  define mid where "mid = sliceRepl M r2 (OR ns (?b - d')) (Some (OR 0 (getNewLength M r2)))"
  have mid: "ok mid" "mat mid = mat r2" "replaceRange mid = OR ns (?b - d')"
    using slice_all [OF r2] by (simp_all add: mid_def slice_range)
  have "ok l" using inv_l(1) by (simp add: compose_inv_def)
  then have ranges: "OffsetRange_new (getNewLength M l - sl) (getNewLength M l) = Inr (OR (getNewLength M l - sl) (getNewLength M l))"
      "OffsetRange_length (replaceRange e) = 0" "0 \<le> getNewLength M r2" if "sl > 0"
    using that r2 by (simp_all add: len e_def slice_range OffsetRange_length_def)
  have "compose_merge M q d d2 r2 f (Some l) res = Inr (q', d', res @ T1 @ [mid])"
    using suffix(1) ranges nsb r2
    by (auto simp: compose_merge_def Let_def T1_def q'd' OffsetRange_emptyAt_def nspl [symmetric]
        OffsetRange_ofStartAndLength_def mid_def len sl_def [symmetric] e_def [symmetric])
  moreover have "step_ok p d s m r2 (?b - d') (T1 @ [mid]) q' d'"
    using inv' prefix mid nsb fits_le
    by (auto simp: step_ok_def fits_append pre_append T1_def)
  ultimately show ?thesis unfolding fl [symmetric] d2_def by blast
qed

lemma compose_step_correct:
  assumes inv: "compose_inv p s m queue d" and r2: "ok r2"
    and ab: "p + d \<le> start (replaceRange r2)" "start (replaceRange r2) \<le> endExclusive (replaceRange r2)"
      "endExclusive (replaceRange r2) \<le> int (length m)"
  shows "\<exists>q' d' p' T. compose_step M queue d r2 res = Inr (q', d', res @ T) \<and> step_ok p d s m r2 p' T q' d'"
proof -
  let ?a = "start (replaceRange r2)" and ?b = "endExclusive (replaceRange r2)"
  have ok: "\<forall>r \<in> set queue. ok r" and fits: "fits p (int (length s)) (V queue)"
    using inv by (auto simp: compose_inv_def good_def)
  from compose_copy_correct [OF ok ab(1) fits, of res] obtain C q where
    copy: "compose_copy M queue d r2 res = (q, shift d (V C), res @ C)" and queue: "queue = C @ q"
    and ca: "endp p (V C) + shift d (V C) \<le> ?a"
    and touch: "q \<noteq> [] \<longrightarrow> ?a \<le> start (replaceRange (hd q)) + shift d (V C) + int (length (mat (hd q)))"
    by blast
  define p1 d1 where p1: "p1 = endp p (V C)" and d1: "d1 = shift d (V C)"
  note adv = compose_inv_advance [OF inv [unfolded queue], folded p1 d1]
  have okq: "\<forall>r \<in> set q. ok r" and okC: "\<forall>r \<in> set C. ok r" using ok queue by auto
  from compose_block_correct [OF okq, of d1 r2 None None] obtain P q2 where
    raw: "compose_block M q d1 r2 None None = (q2, shift d1 (V P),
       (if None = (None :: 'x BaseReplacement_scheme option) \<and> P \<noteq> [] then Some (hd P) else None),
       (if P = [] then None else Some (last P)))"
    and q: "q = P @ q2"
    and lst: "P \<noteq> [] \<longrightarrow> start (replaceRange (last P)) + shift d1 (V (butlast P)) \<le> ?b"
    and gap: "q2 \<noteq> [] \<longrightarrow> ?b < start (replaceRange (hd q2)) + shift d1 (V P)" by blast
  have block: "compose_block M q d1 r2 None None =
       (q2, shift d1 (V P), (if P = [] then None else Some (hd P)), (if P = [] then None else Some (last P)))"
    using raw by simp
  have lift: "step_ok p d s m r2 p' (C @ T) q' d'" if "step_ok p1 d1 s m r2 p' T q' d'" for p' T q' d'
  proof -
    have "take (nat (?a - (p + d))) (drop (nat (p + d)) m)
        = pre p (V C) s @ take (nat (?a - (p1 + d1))) (drop (nat (p1 + d1)) m)"
    proof -
      have "length (pre p (V C) s) = nat (p1 + d1 - (p + d))" "nat (?a - (p + d)) = nat (p1 + d1 - (p + d)) + nat (?a - (p1 + d1))"
        using adv(3,5) ca by (simp_all add: p1 d1)
      then show ?thesis unfolding adv(4) by simp
    qed
    with that adv(6) okC show ?thesis
      by (auto simp: step_ok_def fits_append pre_append p1)
  qed
  have step: "compose_step M queue d r2 res =
     (if P = [] then bindr (BaseReplacement_delta M r2 (- d1)) (\<lambda>r. Inr (q2, d1, (res @ C) @ [r]))
      else compose_merge M q2 d1 (shift d1 (V P)) r2 (hd P) (Some (last P)) (res @ C))"
    using copy block by (simp add: compose_step_def d1)
  show ?thesis
  proof (cases "P = []")
    case True
    define r where "r = sliceRepl M r2 (OR (?a - d1) (?b - d1)) (Some (OR 0 (getNewLength M r2)))"
    have r: "ok r" "mat r = mat r2" "replaceRange r = OR (?a - d1) (?b - d1)"
      using slice_all [OF r2] by (simp_all add: r_def slice_range)
    have "BaseReplacement_delta M r2 (- d1) = Inr r"
      using ab(2) r2 by (simp add: BaseReplacement_delta_def OffsetRange_delta_def r_def len)
    moreover have gap1: "x \<le> start (replaceRange (hd q2))" if "q2 \<noteq> []" "x \<le> ?b - d1" for x
      using gap that True by auto
    have inv1: "compose_inv p1 s m q2 d1" using adv(1) q True by simp
    have le: "p1 \<le> ?a - d1" "p1 \<le> ?b - d1" using ca ab(2) by (simp_all add: p1 d1)
    have "compose_inv (?b - d1) s m q2 d1"
      using ab(3) by (intro compose_inv_forward(1) [OF inv1 le(2)] gap1) simp_all
    moreover have "take (nat (?a - d1 - p1)) (drop (nat (p1 + d1)) m) = take (nat (?a - d1 - p1)) (drop (nat p1) s)"
      using ab(2,3) by (intro compose_inv_forward(2) [OF inv1 le(1)] gap1) simp_all
    ultimately have "step_ok p1 d1 s m r2 (?b - d1) [r] q2 d1"
      using r le ab(2) by (simp add: step_ok_def diff_diff_eq add.commute)
    from lift [OF this] show ?thesis
      unfolding step using True \<open>BaseReplacement_delta M r2 (- d1) = Inr r\<close> by auto
  next
    case False
    have "q \<noteq> []" "hd q = hd P" using False q by auto
    with touch have touchP: "?a \<le> start (replaceRange (hd P)) + d1 + int (length (mat (hd P)))"
      by (simp add: d1)
    obtain q' d' p' T where
      "compose_merge M q2 d1 (shift d1 (V P)) r2 (hd P) (Some (last P)) (res @ C) = Inr (q', d', (res @ C) @ T)"
      "step_ok p1 d1 s m r2 p' T q' d'"
      using compose_merge_correct [OF adv(1) [unfolded q] False r2 ca [folded p1 d1] ab(2,3) touchP] lst gap False
      by blast
    moreover from lift [OF this(2)] have "step_ok p d s m r2 p' (C @ T) q' d'" .
    ultimately show ?thesis unfolding step using False by auto
  qed
qed

lemma compose_loop_correct:
  "compose_inv p s m queue d \<Longrightarrow> good (p + d) (int (length m)) rs \<Longrightarrow>
   \<exists>R. compose_loop M rs queue d res = Inr (res @ R) \<and> good p (int (length s)) R
     \<and> out p (V R) s = out (p + d) (V rs) m"
proof (induction rs arbitrary: p queue d res)
  case Nil
  then show ?case by (auto simp: compose_inv_def)
next
  case (Cons r2 rs)
  let ?b = "endExclusive (replaceRange r2)"
  have "?b \<le> int (length m)" using Cons.prems(2) fits_le by (auto simp: good_def)
  with compose_step_correct [OF Cons.prems(1), of r2 res] Cons.prems(2) obtain q' d' p' T where
    step: "compose_step M queue d r2 res = Inr (q', d', res @ T)" "step_ok p d s m r2 p' T q' d'"
    by auto
  from step(2) have inv: "compose_inv p' s m q' d'" and b: "p' + d' = ?b"
    and T: "\<forall>r \<in> set T. ok r" "fits p p' (V T)" "endp p (V T) = p'"
    and preT: "pre p (V T) s = take (nat (start (replaceRange r2) - (p + d))) (drop (nat (p + d)) m) @ mat r2"
    by (auto simp: step_ok_def)
  from Cons.IH [OF inv, of "res @ T"] Cons.prems(2) b obtain R where
    R: "compose_loop M rs q' d' (res @ T) = Inr ((res @ T) @ R)" "good p' (int (length s)) R"
      "out p' (V R) s = out ?b (V rs) m" by auto
  have "out p (V (T @ R)) s = out (p + d) (V (r2 # rs)) m"
    using T(3) preT R(3) by (simp add: out_append)
  moreover have "good p (int (length s)) (T @ R)"
    using T R(2) by (auto simp: good_def fits_append)
  ultimately show ?case using step(1) R(1) by (intro exI [of _ "T @ R"]) simp
qed

text \<open>The result of \<open>compose\<close>: never an exception, sorted and disjoint replacements inside the original,
  and the effect of the first edit followed by the second.\<close>

lemma compose_correct:
  assumes e1: "good 0 (int (length s)) (replacements e1)"
    and m: "m = out 0 (V (replacements e1)) s"
    and e2: "good 0 (int (length m)) (replacements e2)"
  shows "\<exists>N. BaseEdit_compose M e1 e2 = Inr \<lparr>replacements = N\<rparr> \<and> good 0 (int (length s)) N
    \<and> out 0 (V N) s = out 0 (V (replacements e2)) m"
proof -
  from normalize_correct [OF e1] obtain N1 where
    N1: "BaseEdit_normalize M e1 = Inr \<lparr>replacements = N1\<rparr>" "good 0 (int (length s)) N1"
      "out 0 (V N1) s = m" unfolding m by blast
  from normalize_correct [OF e2] obtain N2 where
    N2: "BaseEdit_normalize M e2 = Inr \<lparr>replacements = N2\<rparr>" "good 0 (int (length m)) N2"
      "out 0 (V N2) m = out 0 (V (replacements e2)) m" by blast
  have call: "BaseEdit_compose M e1 e2 =
     (if N1 = [] then Inr \<lparr>replacements = N2\<rparr> else if N2 = [] then Inr \<lparr>replacements = N1\<rparr>
      else bindr (compose_loop M N2 N1 0 []) (\<lambda>result. bindr (BaseEdit_new result) (BaseEdit_normalize M)))"
    using N1(1) N2(1) by (simp add: BaseEdit_compose_def BaseEdit_isEmpty_def)
  show ?thesis
  proof (cases "N1 = [] \<or> N2 = []")
    case True
    then show ?thesis unfolding call using N1(2,3) N2(2,3) by auto
  next
    case False
    have "compose_inv 0 s m N1 0" using N1 by (simp add: compose_inv_def)
    from compose_loop_correct [OF this, of N2 "[]"] N2 obtain R where
      R: "compose_loop M N2 N1 0 [] = Inr R" "good 0 (int (length s)) R" "out 0 (V R) s = out 0 (V N2) m"
      by auto
    from normalize_correct [of s "\<lparr>replacements = R\<rparr>"] R obtain N where
      "BaseEdit_normalize M \<lparr>replacements = R\<rparr> = Inr \<lparr>replacements = N\<rparr>" "good 0 (int (length s)) N"
      "out 0 (V N) s = out 0 (V R) s" by auto
    with R N2(3) False good_new [OF R(2)] show ?thesis unfolding call by auto
  qed
qed

subsection \<open>Decomposition\<close>

lemma decomposeSplit_loop_correct:
  assumes "\<forall>r \<in> set rs. ok r" and "\<forall>r \<in> set rs. or_wf (replaceRange r)"
  shows "\<exists>E. decomposeSplit_loop M f rs d e1 e2 = Inr (e1 @ filter f rs, e2 @ E) \<and> (\<forall>r \<in> set E. ok r)
     \<and> V E = shifted d (map (\<lambda>r. (f r, view mat r)) rs)"
  using assms
proof (induction rs arbitrary: d e1 e2)
  case (Cons r rs)
  let ?d = "d + (getNewLength M r - OffsetRange_length (replaceRange r))"
  have r: "ok r" "start (replaceRange r) \<le> endExclusive (replaceRange r)"
    using Cons.prems by (auto simp: or_wf_def)
  show ?case
  proof (cases "f r")
    case True
    from Cons.IH [of ?d "e1 @ [r]" e2] Cons.prems True r show ?thesis
      by (simp add: view_def len OffsetRange_length_def add_diff_eq)
  next
    case False
    define x where "x = sliceRepl M r (OR (start (replaceRange r) + d) (endExclusive (replaceRange r) + d))
                          (Some (OR 0 (getNewLength M r)))"
    have x: "ok x" "view mat x = (start (replaceRange r) + d, endExclusive (replaceRange r) + d, mat r)"
      using slice_all [OF r(1)] by (simp_all add: x_def slice_range)
    from Cons.IH [of d e1 "e2 @ [x]"] Cons.prems obtain E where
      "decomposeSplit_loop M f rs d e1 (e2 @ [x]) = Inr (e1 @ filter f rs, (e2 @ [x]) @ E)"
      "\<forall>r \<in> set E. ok r" "V E = shifted d (map (\<lambda>r. (f r, view mat r)) rs)" by auto
    moreover have "OffsetRange_delta (replaceRange r) d = Inr (OR (start (replaceRange r) + d) (endExclusive (replaceRange r) + d))"
      using r by (simp add: OffsetRange_delta_def)
    moreover have "0 \<le> getNewLength M r" using r by (simp add: len)
    moreover have "shifted d (map (\<lambda>r. (f r, view mat r)) (r # rs))
        = view mat x # shifted d (map (\<lambda>r. (f r, view mat r)) rs)"
      using False unfolding x(2) by (simp add: view_def)
    ultimately show ?thesis
      using False x(1) by (intro exI [of _ "x # E"]) (auto simp: x_def [symmetric] simp del: view_sel)
  qed
qed simp

lemma decomposeSplit_correct:
  assumes e: "good 0 (int (length s)) (replacements e)"
  shows "\<exists>a b. BaseEdit_decomposeSplit M e f = Inr (a, b) \<and> replacements a = filter f (replacements e)
     \<and> good 0 (int (length s)) (replacements a)
     \<and> good 0 (int (length (out 0 (V (replacements a)) s))) (replacements b)
     \<and> out 0 (V (replacements b)) (out 0 (V (replacements a)) s) = out 0 (V (replacements e)) s"
proof -
  let ?rs = "replacements e" and ?W = "map (\<lambda>r. (f r, view mat r)) (replacements e)"
  have wf: "\<forall>r \<in> set rs. or_wf (replaceRange r)" if "good p n rs" for p n rs
    using that by (induction rs arbitrary: p) (auto simp: or_wf_def)
  have ok: "\<forall>r \<in> set ?rs. ok r" and fits: "fits 0 (int (length s)) (V ?rs)"
    using e by (auto simp: good_def)
  from decomposeSplit_loop_correct [OF ok wf [OF e], of f 0 "[]" "[]"] obtain E where
    E: "decomposeSplit_loop M f ?rs 0 [] [] = Inr (filter f ?rs, E)" "\<forall>r \<in> set E. ok r" "V E = shifted 0 ?W"
    by auto
  have goodA: "good 0 (int (length s)) (filter f ?rs)"
    using ok fits_filter [OF fits] by (auto simp: good_def)
  have W: "map snd ?W = V ?rs" "marked ?W = V (filter f ?rs)"
    by (simp_all add: marked_def filter_map o_def)
  let ?m = "out 0 (V (filter f ?rs)) s"
  have "out 0 (V E) ?m = out 0 (V ?rs) s \<and> fits 0 (int (length ?m)) (V E)"
    using out_shifted [of 0 0 s ?W ?m, unfolded W] fits unfolding E(3) by simp
  with E goodA good_new [OF goodA] good_new [of 0 "int (length ?m)" E] show ?thesis
    by (auto simp: BaseEdit_decomposeSplit_def good_def)
qed

subsection \<open>Offsets and new ranges\<close>

lemma applyToOffset_lower:
  "good p n rs \<Longrightarrow> p \<le> x \<Longrightarrow> p + d \<le> applyToOffset_loop M rs x d"
proof (induction rs arbitrary: p d)
  case (Cons r rs)
  show ?case
    using Cons.prems Cons.IH [of "endExclusive (replaceRange r)"
        "d + (getNewLength M r - OffsetRange_length (replaceRange r))"]
    by (auto simp: len OffsetRange_length_def)
qed simp

lemma applyToOffset_mono:
  "good p n rs \<Longrightarrow> p \<le> x \<Longrightarrow> x \<le> y \<Longrightarrow> applyToOffset_loop M rs x d \<le> applyToOffset_loop M rs y d"
proof (induction rs arbitrary: p d)
  case (Cons r rs)
  let ?d = "d + (getNewLength M r - OffsetRange_length (replaceRange r))"
  have "start (replaceRange r) + d \<le> applyToOffset_loop M rs y ?d" if "endExclusive (replaceRange r) \<le> y"
    using applyToOffset_lower [of "endExclusive (replaceRange r)" n rs y ?d] Cons.prems(1) that
    by (auto simp: len OffsetRange_length_def)
  with Cons.prems Cons.IH [of "endExclusive (replaceRange r)" ?d] show ?case by auto
qed simp

lemma applyToOffset_low:
  "good p n rs \<Longrightarrow> x \<le> y \<Longrightarrow> x < p \<Longrightarrow> applyToOffset_loop M rs x d \<le> applyToOffset_loop M rs y d"
proof (cases "y < p")
  case True
  assume "good p n rs" "x \<le> y" "x < p"
  with True show ?thesis by (cases rs) auto
next
  case False
  assume a: "good p n rs" "x \<le> y" "x < p"
  then have "applyToOffset_loop M rs x d = x + d" by (cases rs) auto
  with a False applyToOffset_lower [of p n rs y d] show ?thesis by simp
qed

lemma applyToOffsetRange_total:
  assumes "good 0 n (replacements e)" and "or_wf rng"
  shows "BaseEdit_applyToOffsetRange M e rng =
    Inr (OR (BaseEdit_applyToOffset M e (start rng)) (BaseEdit_applyToOffset M e (endExclusive rng)))"
  using assms applyToOffset_mono [OF assms(1), of "start rng" "endExclusive rng" 0]
    applyToOffset_low [OF assms(1), of "start rng" "endExclusive rng" 0]
  by (cases "start rng < 0")
    (auto simp: BaseEdit_applyToOffsetRange_def BaseEdit_applyToOffset_def or_wf_def)

lemma offset_loop_correct:
  "good p (int (length s)) rs \<Longrightarrow> 0 \<le> p \<Longrightarrow> p \<le> x \<Longrightarrow> x \<le> int (length s) \<Longrightarrow>
   applyToOffsetOrUndefined_loop M rs x d = Some k \<Longrightarrow>
   applyToOffset_loop M rs x d = k \<and> applyInverseToOffset_loop M rs k d = x \<and> p + d \<le> k
   \<and> k - (p + d) \<le> int (length (out p (V rs) s))
   \<and> (x < int (length s) \<longrightarrow> out p (V rs) s ! nat (k - (p + d)) = s ! nat x)"
proof (induction rs arbitrary: p d)
  case Nil
  then show ?case by (auto simp: nat_diff_distrib)
next
  case (Cons r rs)
  let ?a = "start (replaceRange r)" and ?b = "endExclusive (replaceRange r)"
  let ?d = "d + (getNewLength M r - OffsetRange_length (replaceRange r))"
  have r: "ok r" "p \<le> ?a" "?a \<le> ?b" and rs: "good ?b (int (length s)) rs" using Cons.prems(1) by auto
  have bn: "?b \<le> int (length s)" using rs fits_le by (auto simp: good_def)
  have lt: "length (take (nat (?a - p)) (drop (nat p) s)) = nat (?a - p)"
    using Cons.prems(2) r(2,3) bn by simp
  show ?case
  proof (cases "?a \<le> x")
    case True
    then have bx: "?b \<le> x" and k: "applyToOffsetOrUndefined_loop M rs x ?d = Some k"
      using Cons.prems(5) by (auto split: if_splits)
    have "0 \<le> ?b" using Cons.prems(2) r by simp
    note IH = Cons.IH [OF rs this bx Cons.prems(4) k]
    have bd: "?b + ?d = ?a + d + int (length (mat r))" using r(1) by (simp add: len OffsetRange_length_def)
    have idx: "nat (k - (p + d)) = nat (?a - p) + (length (mat r) + nat (k - (?b + ?d)))"
      using IH bd r by linarith
    have "out p (V (r # rs)) s ! nat (k - (p + d)) = out ?b (V rs) s ! nat (k - (?b + ?d))"
      unfolding idx using lt by (simp add: nth_append del: length_take)
    moreover have "k - (p + d) \<le> int (length (out p (V (r # rs)) s))"
      using IH bd r lt by (simp del: length_take)
    moreover have "applyInverseToOffset_loop M (r # rs) k d = x"
      using IH bd r(1) by (simp add: len Let_def)
    ultimately show ?thesis
      using IH True bx bd r by (simp del: out.simps view_simps)
  next
    case False
    then have k: "k = x + d" using Cons.prems(5) by simp
    have "nat (x - p) < length (take (nat (?a - p)) (drop (nat p) s))"
      unfolding lt using False Cons.prems(3) by simp
    then have "out p (V (r # rs)) s ! nat (x - p) = take (nat (?a - p)) (drop (nat p) s) ! nat (x - p)"
      by (simp add: nth_append del: length_take)
    also have "\<dots> = s ! nat x"
      using False Cons.prems(2,3,4) by (simp add: nat_add_distrib [symmetric])
    finally show ?thesis
      using False k Cons.prems(3) r lt by (auto simp: Let_def)
  qed
qed

lemma getNewRanges_loop_correct:
  "good p (int (length s)) rs \<Longrightarrow> 0 \<le> p \<Longrightarrow> 0 \<le> p + d \<Longrightarrow> p + d \<le> int (length m) \<Longrightarrow>
   drop (nat (p + d)) m = out p (V rs) s \<Longrightarrow>
   \<exists>gs. getNewRanges_loop M rs d = Inr gs \<and> list_all2 (\<lambda>r g. OffsetRange_substring g m = mat r) rs gs"
proof (induction rs arbitrary: p d)
  case (Cons r rs)
  let ?a = "start (replaceRange r)" and ?b = "endExclusive (replaceRange r)"
  have r: "ok r" "p \<le> ?a" "?a \<le> ?b" using Cons.prems(1) by auto
  have inv: "compose_inv p s m ([r] @ rs) d"
    using Cons.prems by (simp add: compose_inv_def)
  have d: "d + BaseReplacement_getLengthDelta M r = shift d [view mat r]"
    using r(1) by (simp add: BaseReplacement_getLengthDelta_def len OffsetRange_length_def)
  from compose_inv_advance(1) [OF inv] have "compose_inv ?b s m rs (shift d [view mat r])" by simp
  with Cons.IH [of ?b "shift d [view mat r]"] obtain gs where
    gs: "getNewRanges_loop M rs (shift d [view mat r]) = Inr gs"
      "list_all2 (\<lambda>r g. OffsetRange_substring g m = mat r) rs gs"
    unfolding compose_inv_def by blast
  have "?b \<le> int (length s)" using Cons.prems(1) fits_le by (auto simp: good_def)
  then have "drop (nat (?a + d)) m = mat r @ out ?b (V rs) s"
    using drop_nat_le [of "p + d" "?a + d" m] Cons.prems r by simp
  then have "OffsetRange_substring (OR (?a + d) (?a + d + int (length (mat r)))) m = mat r"
    using Cons.prems(3) r by (simp add: OffsetRange_substring_def js_substring_eq)
  moreover have "getNewRanges_loop M (r # rs) d = Inr (OR (?a + d) (?a + d + int (length (mat r))) # gs)"
    unfolding getNewRanges_loop.simps d gs(1) using r(1) by (simp add: OffsetRange_ofStartAndLength_def len)
  ultimately show ?case using gs(2) by simp
qed simp

lemma getLengthDelta_shift:
  "\<forall>r \<in> set rs. ok r \<Longrightarrow> foldl (\<lambda>acc r. acc + BaseReplacement_getLengthDelta M r) d rs = shift d (V rs)"
  by (induction rs arbitrary: d)
    (auto simp: BaseReplacement_getLengthDelta_def len OffsetRange_length_def add_diff_eq)

end

subsection \<open>Annotation replacements\<close>

text \<open>An annotation replacement inserts \<open>newLength\<close> copies of its annotation.\<close>

definition annotated_material :: "'a AnnotationReplacement \<Rightarrow> 'a list" where
  "annotated_material r = replicate (nat (newLength r)) (annotation r)"

definition annotation_ok :: "'a AnnotationReplacement \<Rightarrow> bool" where
  "annotation_ok r \<longleftrightarrow> 0 \<le> newLength r"

interpretation annotation_edit:
  replacement_class AnnotationReplacement_methods annotated_material annotation_ok
proof
  fix r x y :: "'a AnnotationReplacement" and g h and a b :: int
  show "getNewLength AnnotationReplacement_methods r = int (length (annotated_material r))" if "annotation_ok r"
    using that by (simp add: AnnotationReplacement_methods_def annotated_material_def annotation_ok_def)
  show "replaceRange (sliceRepl AnnotationReplacement_methods r g h) = g"
    by (simp add: AnnotationReplacement_methods_def AnnotationReplacement_slice_def AnnotationReplacement_new_def)
  show "annotation_ok (sliceRepl AnnotationReplacement_methods r g (Some (OR a b)))
      \<and> annotated_material (sliceRepl AnnotationReplacement_methods r g (Some (OR a b)))
        = take (nat (b - a)) (drop (nat a) (annotated_material r))"
    if "annotation_ok r" "0 \<le> a" "a \<le> b" "b \<le> int (length (annotated_material r))"
    using that
    by (auto simp: AnnotationReplacement_methods_def AnnotationReplacement_slice_def
        AnnotationReplacement_new_def annotated_material_def annotation_ok_def OffsetRange_length_def)
  show "\<exists>j. tryJoinTouching AnnotationReplacement_methods x y = Inr j \<and> (\<forall>z. j = Some z \<longrightarrow> annotation_ok z
        \<and> replaceRange z = OR (start (replaceRange x)) (endExclusive (replaceRange y))
        \<and> annotated_material z = annotated_material x @ annotated_material y)"
    if "annotation_ok x" "annotation_ok y" "or_wf (replaceRange x)" "or_wf (replaceRange y)"
      "endExclusive (replaceRange x) = start (replaceRange y)"
    using that
    by (auto simp: AnnotationReplacement_methods_def AnnotationReplacement_tryJoinTouching_def
        AnnotationReplacement_new_def annotated_material_def annotation_ok_def or_wf_def
        OffsetRange_joinRightTouching_def replicate_add nat_add_distrib)
qed

end
