(* ===== verification/String_Edit.thy ===== *)
theory String_Edit
  imports Base_Edit
begin

text \<open>
  String edits: \<open>src/vs/editor/common/core/edits/stringEdit.ts\<close>, with \<open>commonPrefixLength\<close> and
  \<open>commonSuffixLength\<close> of \<open>src/vs/base/common/strings.ts\<close>. A string replacement extends the base
  replacement by its text and an annotated one extends that by its data; the operations of
  \<open>BaseStringEdit\<close> and \<open>BaseStringReplacement\<close> work on both. The theorems say what edits do to the text:
  composition, normalisation, inversion, rebasing and decomposition are stated through \<open>apply\<close>.
\<close>

section \<open>Common prefixes and suffixes\<close>

function commonPrefixLength_loop :: "'a list \<Rightarrow> 'a list \<Rightarrow> nat \<Rightarrow> nat \<Rightarrow> nat" where
  "commonPrefixLength_loop a b len i =
     (if i < len then (if a ! i \<noteq> b ! i then i else commonPrefixLength_loop a b len (i + 1)) else len)"
  by pat_completeness auto
termination by (relation "measure (\<lambda>(a, b, len, i). len - i)") auto

declare commonPrefixLength_loop.simps [simp del]

definition commonPrefixLength :: "'a list \<Rightarrow> 'a list \<Rightarrow> nat" where
  "commonPrefixLength a b = commonPrefixLength_loop a b (min (length a) (length b)) 0"

function commonSuffixLength_loop :: "'a list \<Rightarrow> 'a list \<Rightarrow> nat \<Rightarrow> nat \<Rightarrow> nat" where
  "commonSuffixLength_loop a b len i =
     (if i < len
      then (if a ! (length a - 1 - i) \<noteq> b ! (length b - 1 - i) then i
            else commonSuffixLength_loop a b len (i + 1))
      else len)"
  by pat_completeness auto
termination by (relation "measure (\<lambda>(a, b, len, i). len - i)") auto

declare commonSuffixLength_loop.simps [simp del]

definition commonSuffixLength :: "'a list \<Rightarrow> 'a list \<Rightarrow> nat" where
  "commonSuffixLength a b = commonSuffixLength_loop a b (min (length a) (length b)) 0"

section \<open>String replacements\<close>

record StringReplacement = BaseReplacement +
  newText :: utf16

definition StringReplacement_new :: "OffsetRange \<Rightarrow> utf16 \<Rightarrow> StringReplacement" where
  "StringReplacement_new rng text = \<lparr>replaceRange = rng, newText = text\<rparr>"

definition StringReplacement_insert :: "int \<Rightarrow> utf16 \<Rightarrow> StringReplacement result" where
  "StringReplacement_insert offset text =
     bindr (OffsetRange_emptyAt offset) (\<lambda>rng. Inr (StringReplacement_new rng text))"

definition StringReplacement_replace :: "OffsetRange \<Rightarrow> utf16 \<Rightarrow> StringReplacement" where
  "StringReplacement_replace rng text = StringReplacement_new rng text"

definition StringReplacement_delete :: "OffsetRange \<Rightarrow> StringReplacement" where
  "StringReplacement_delete rng = StringReplacement_new rng []"

record ISerializedStringReplacement =
  jtxt :: utf16
  pos :: int
  jlen :: int

definition StringReplacement_fromJson :: "ISerializedStringReplacement \<Rightarrow> StringReplacement result" where
  "StringReplacement_fromJson data =
     bindr (OffsetRange_ofStartAndLength (pos data) (jlen data)) (\<lambda>rng.
       Inr (StringReplacement_new rng (jtxt data)))"

definition StringReplacement_equals :: "StringReplacement \<Rightarrow> StringReplacement \<Rightarrow> bool" where
  "StringReplacement_equals r other \<longleftrightarrow>
     OffsetRange_equals (replaceRange r) (replaceRange other) \<and> newText r = newText other"

definition StringReplacement_tryJoinTouching ::
  "StringReplacement \<Rightarrow> StringReplacement \<Rightarrow> StringReplacement option result" where
  "StringReplacement_tryJoinTouching r other =
     bindr (OffsetRange_joinRightTouching (replaceRange r) (replaceRange other)) (\<lambda>rng.
       Inr (Some (StringReplacement_new rng (newText r @ newText other))))"

definition StringReplacement_slice :: "StringReplacement \<Rightarrow> OffsetRange \<Rightarrow> OffsetRange option \<Rightarrow> StringReplacement" where
  "StringReplacement_slice r rng inRepl =
     StringReplacement_new rng
       (case inRepl of None \<Rightarrow> newText r | Some h \<Rightarrow> OffsetRange_substring h (newText r))"

definition BaseStringReplacement_getNewLength :: "'x StringReplacement_scheme \<Rightarrow> int" where
  "BaseStringReplacement_getNewLength r = int (length (newText r))"

definition StringReplacement_methods :: "StringReplacement replacement_methods" where
  "StringReplacement_methods =
     \<lparr>getNewLength = BaseStringReplacement_getNewLength, tryJoinTouching = StringReplacement_tryJoinTouching,
      sliceRepl = StringReplacement_slice, equalsRepl = StringReplacement_equals\<rparr>"

definition BaseStringReplacement_replace :: "'x StringReplacement_scheme \<Rightarrow> utf16 \<Rightarrow> utf16" where
  "BaseStringReplacement_replace r str =
     js_substring str 0 (start (replaceRange r)) @ newText r @ js_substring_from str (endExclusive (replaceRange r))"

definition BaseStringReplacement_isNeutralOn :: "'x StringReplacement_scheme \<Rightarrow> utf16 \<Rightarrow> bool" where
  "BaseStringReplacement_isNeutralOn r text \<longleftrightarrow>
     newText r = js_substring text (start (replaceRange r)) (endExclusive (replaceRange r))"

definition BaseStringReplacement_removeCommonSuffixPrefix ::
  "'x StringReplacement_scheme \<Rightarrow> utf16 \<Rightarrow> StringReplacement result" where
  "BaseStringReplacement_removeCommonSuffixPrefix r originalText =
     (let oldText = js_substring originalText (start (replaceRange r)) (endExclusive (replaceRange r));
          prefixLen = commonPrefixLength oldText (newText r);
          suffixLen = min (length oldText - prefixLen)
                        (min (length (newText r) - prefixLen) (commonSuffixLength oldText (newText r)))
      in bindr (OffsetRange_new (start (replaceRange r) + int prefixLen)
                  (endExclusive (replaceRange r) - int suffixLen)) (\<lambda>rng.
         Inr (StringReplacement_new rng
                (js_substring (newText r) (int prefixLen) (int (length (newText r)) - int suffixLen)))))"

text \<open>The regular expression \<open>/\r\n|\n/g\<close> of \<open>normalizeEOL\<close>, as the scan it stands for.\<close>

fun replaceEOL :: "utf16 \<Rightarrow> utf16 \<Rightarrow> utf16" where
  "replaceEOL eol [] = []"
| "replaceEOL eol [c] = (if c = 10 then eol else [c])"
| "replaceEOL eol (c # d # cs) =
     (if c = 13 \<and> d = 10 then eol @ replaceEOL eol cs
      else if c = 10 then eol @ replaceEOL eol (d # cs)
      else c # replaceEOL eol (d # cs))"

definition BaseStringReplacement_normalizeEOL :: "utf16 \<Rightarrow> 'x StringReplacement_scheme \<Rightarrow> StringReplacement" where
  "BaseStringReplacement_normalizeEOL eol r = StringReplacement_new (replaceRange r) (replaceEOL eol (newText r))"

definition BaseStringReplacement_removeCommonPrefix ::
  "'x StringReplacement_scheme replacement_methods \<Rightarrow> 'x StringReplacement_scheme \<Rightarrow> utf16
   \<Rightarrow> 'x StringReplacement_scheme result" where
  "BaseStringReplacement_removeCommonPrefix M r source =
     (let oldText = OffsetRange_substring (replaceRange r) source;
          prefixLen = commonPrefixLength oldText (newText r)
      in if prefixLen = 0 then Inr r
         else bindr (OffsetRange_deltaStart (replaceRange r) (int prefixLen)) (\<lambda>rng.
              bindr (OffsetRange_new (int prefixLen) (int (length (newText r)))) (\<lambda>h.
              Inr (sliceRepl M r rng (Some h)))))"

definition BaseStringReplacement_removeCommonSuffix ::
  "'x StringReplacement_scheme replacement_methods \<Rightarrow> 'x StringReplacement_scheme \<Rightarrow> utf16
   \<Rightarrow> 'x StringReplacement_scheme result" where
  "BaseStringReplacement_removeCommonSuffix M r source =
     (let oldText = OffsetRange_substring (replaceRange r) source;
          suffixLen = commonSuffixLength oldText (newText r)
      in if suffixLen = 0 then Inr r
         else bindr (OffsetRange_deltaEnd (replaceRange r) (- int suffixLen)) (\<lambda>rng.
              bindr (OffsetRange_new 0 (int (length (newText r)) - int suffixLen)) (\<lambda>h.
              Inr (sliceRepl M r rng (Some h)))))"

definition BaseStringReplacement_removeCommonSuffixAndPrefix ::
  "'x StringReplacement_scheme replacement_methods \<Rightarrow> utf16 \<Rightarrow> 'x StringReplacement_scheme
   \<Rightarrow> 'x StringReplacement_scheme result" where
  "BaseStringReplacement_removeCommonSuffixAndPrefix M source r =
     bindr (BaseStringReplacement_removeCommonSuffix M r source) (\<lambda>r'.
       BaseStringReplacement_removeCommonPrefix M r' source)"

definition BaseStringReplacement_toEdit :: "StringReplacement \<Rightarrow> StringReplacement BaseEdit result" where
  "BaseStringReplacement_toEdit r = BaseEdit_new [r]"

definition BaseStringReplacement_toJson :: "'x StringReplacement_scheme \<Rightarrow> ISerializedStringReplacement" where
  "BaseStringReplacement_toJson r =
     \<lparr>jtxt = newText r, pos = start (replaceRange r), jlen = OffsetRange_length (replaceRange r)\<rparr>"

section \<open>String edits\<close>

type_synonym StringEdit = "StringReplacement BaseEdit"

definition StringEdit_empty :: "StringEdit result" where
  "StringEdit_empty = BaseEdit_new []"

definition StringEdit_create :: "StringReplacement list \<Rightarrow> StringEdit result" where
  "StringEdit_create rs = BaseEdit_new rs"

definition StringEdit_single :: "StringReplacement \<Rightarrow> StringEdit result" where
  "StringEdit_single r = BaseEdit_new [r]"

definition StringEdit_replace :: "OffsetRange \<Rightarrow> utf16 \<Rightarrow> StringEdit result" where
  "StringEdit_replace rng text = BaseEdit_new [StringReplacement_new rng text]"

definition StringEdit_insert :: "int \<Rightarrow> utf16 \<Rightarrow> StringEdit result" where
  "StringEdit_insert offset text =
     bindr (OffsetRange_emptyAt offset) (\<lambda>rng. BaseEdit_new [StringReplacement_new rng text])"

definition StringEdit_delete :: "OffsetRange \<Rightarrow> StringEdit result" where
  "StringEdit_delete rng = BaseEdit_new [StringReplacement_new rng []]"

definition StringEdit_fromJson :: "ISerializedStringReplacement list \<Rightarrow> StringEdit result" where
  "StringEdit_fromJson data = bindr (mapr StringReplacement_fromJson data) BaseEdit_new"

fun apply_loop :: "'x StringReplacement_scheme list \<Rightarrow> utf16 \<Rightarrow> int \<Rightarrow> utf16" where
  "apply_loop [] base p = js_substring_from base p"
| "apply_loop (edit # es) base p =
     js_substring base p (start (replaceRange edit)) @ newText edit
     @ apply_loop es base (endExclusive (replaceRange edit))"

definition BaseStringEdit_apply :: "'x StringReplacement_scheme BaseEdit \<Rightarrow> utf16 \<Rightarrow> utf16" where
  "BaseStringEdit_apply this base = apply_loop (replacements this) base 0"

fun inverseOnSlice_loop ::
  "(int \<Rightarrow> int \<Rightarrow> utf16) \<Rightarrow> 'x StringReplacement_scheme list \<Rightarrow> int \<Rightarrow> StringReplacement list result" where
  "inverseOnSlice_loop getOriginalSlice [] offset = Inr []"
| "inverseOnSlice_loop getOriginalSlice (e # es) offset =
     bindr (OffsetRange_ofStartAndLength (start (replaceRange e) + offset) (int (length (newText e)))) (\<lambda>rng.
     bindr (inverseOnSlice_loop getOriginalSlice es
              (offset + (int (length (newText e)) - OffsetRange_length (replaceRange e)))) (\<lambda>rs.
     Inr (StringReplacement_replace rng
            (getOriginalSlice (start (replaceRange e)) (endExclusive (replaceRange e))) # rs)))"

definition BaseStringEdit_inverseOnSlice ::
  "'x StringReplacement_scheme BaseEdit \<Rightarrow> (int \<Rightarrow> int \<Rightarrow> utf16) \<Rightarrow> StringEdit result" where
  "BaseStringEdit_inverseOnSlice this getOriginalSlice =
     bindr (inverseOnSlice_loop getOriginalSlice (replacements this) 0) BaseEdit_new"

definition BaseStringEdit_inverse :: "'x StringReplacement_scheme BaseEdit \<Rightarrow> utf16 \<Rightarrow> StringEdit result" where
  "BaseStringEdit_inverse this original =
     BaseStringEdit_inverseOnSlice this (\<lambda>s e. js_substring original s e)"

text \<open>Composing a list of edits from left to right.\<close>

fun compose_fold ::
  "'x StringReplacement_scheme replacement_methods \<Rightarrow> 'x StringReplacement_scheme BaseEdit
   \<Rightarrow> 'x StringReplacement_scheme BaseEdit list \<Rightarrow> 'x StringReplacement_scheme BaseEdit result" where
  "compose_fold M res [] = Inr res"
| "compose_fold M res (e # es) = bindr (BaseEdit_compose M res e) (\<lambda>r. compose_fold M r es)"

definition BaseStringEdit_composeOrUndefined ::
  "'x StringReplacement_scheme replacement_methods \<Rightarrow> 'x StringReplacement_scheme BaseEdit list
   \<Rightarrow> 'x StringReplacement_scheme BaseEdit option result" where
  "BaseStringEdit_composeOrUndefined M edits =
     (case edits of [] \<Rightarrow> Inr None | e # es \<Rightarrow> bindr (compose_fold M e es) (\<lambda>r. Inr (Some r)))"

definition StringEdit_compose :: "StringEdit list \<Rightarrow> StringEdit result" where
  "StringEdit_compose edits =
     (case edits of [] \<Rightarrow> StringEdit_empty | e # es \<Rightarrow> compose_fold StringReplacement_methods e es)"

subsection \<open>Rebasing\<close>

definition areConcurrentInserts :: "OffsetRange \<Rightarrow> OffsetRange \<Rightarrow> bool" where
  "areConcurrentInserts r1 r2 \<longleftrightarrow> OffsetRange_isEmpty r1 \<and> OffsetRange_isEmpty r2 \<and> start r1 = start r2"

definition isInsertStrictlyInsideRange :: "OffsetRange \<Rightarrow> OffsetRange \<Rightarrow> bool" where
  "isInsertStrictlyInsideRange ins rng \<longleftrightarrow>
     OffsetRange_isEmpty ins \<and> start rng < start ins \<and> start ins < endExclusive rng"

function tryRebase_loop ::
  "bool \<Rightarrow> 'x StringReplacement_scheme list \<Rightarrow> StringReplacement list \<Rightarrow> int \<Rightarrow> StringReplacement list
   \<Rightarrow> StringReplacement list option result" where
  "tryRebase_loop noOverlap [] base offset newEdits = Inr (Some newEdits)"
| "tryRebase_loop noOverlap (ourEdit # os) [] offset newEdits =
     bindr (OffsetRange_delta (replaceRange ourEdit) offset) (\<lambda>rng.
       tryRebase_loop noOverlap os [] offset (newEdits @ [StringReplacement_new rng (newText ourEdit)]))"
| "tryRebase_loop noOverlap (ourEdit # os) (baseEdit # bs) offset newEdits =
     (if OffsetRange_intersects (replaceRange ourEdit) (replaceRange baseEdit)
         \<or> areConcurrentInserts (replaceRange ourEdit) (replaceRange baseEdit)
         \<or> isInsertStrictlyInsideRange (replaceRange ourEdit) (replaceRange baseEdit)
         \<or> isInsertStrictlyInsideRange (replaceRange baseEdit) (replaceRange ourEdit)
      then (if noOverlap then Inr None else tryRebase_loop noOverlap os (baseEdit # bs) offset newEdits)
      else if start (replaceRange ourEdit) < start (replaceRange baseEdit)
              \<or> (OffsetRange_isEmpty (replaceRange ourEdit)
                 \<and> start (replaceRange ourEdit) = start (replaceRange baseEdit))
      then bindr (OffsetRange_delta (replaceRange ourEdit) offset) (\<lambda>rng.
             tryRebase_loop noOverlap os (baseEdit # bs) offset
               (newEdits @ [StringReplacement_new rng (newText ourEdit)]))
      else tryRebase_loop noOverlap (ourEdit # os) bs
             (offset + (int (length (newText baseEdit)) - OffsetRange_length (replaceRange baseEdit))) newEdits)"
  by pat_completeness auto
termination
  by (relation "measure (\<lambda>(n, os, bs, d, acc). length os + length bs)") auto

definition BaseStringEdit_tryRebase0 ::
  "'x StringReplacement_scheme BaseEdit \<Rightarrow> StringEdit \<Rightarrow> bool \<Rightarrow> StringEdit option result" where
  "BaseStringEdit_tryRebase0 this base noOverlap =
     bindr (tryRebase_loop noOverlap (replacements this) (replacements base) 0 []) (\<lambda>x.
       case x of None \<Rightarrow> Inr None | Some rs \<Rightarrow> bindr (BaseEdit_new rs) (\<lambda>e. Inr (Some e)))"

definition BaseStringEdit_rebaseSkipConflicting ::
  "'x StringReplacement_scheme BaseEdit \<Rightarrow> StringEdit \<Rightarrow> StringEdit option result" where
  "BaseStringEdit_rebaseSkipConflicting this base = BaseStringEdit_tryRebase0 this base False"

definition BaseStringEdit_tryRebase ::
  "'x StringReplacement_scheme BaseEdit \<Rightarrow> StringEdit \<Rightarrow> StringEdit option result" where
  "BaseStringEdit_tryRebase this base = BaseStringEdit_tryRebase0 this base True"

definition BaseStringEdit_trySwap :: "StringEdit \<Rightarrow> StringEdit \<Rightarrow> (StringEdit \<times> StringEdit) option result" where
  "BaseStringEdit_trySwap e1 e2 =
     bindr (BaseStringEdit_inverseOnSlice e1 (\<lambda>s e. replicate (nat (e - s)) 32)) (\<lambda>e1Inv.
     bindr (BaseStringEdit_tryRebase e2 e1Inv) (\<lambda>x.
       case x of None \<Rightarrow> Inr None
       | Some e1' \<Rightarrow>
           bindr (BaseStringEdit_tryRebase e1 e1') (\<lambda>y.
             case y of None \<Rightarrow> Inr None | Some e2' \<Rightarrow> Inr (Some (e1', e2')))))"

subsection \<open>Normal forms relative to a text\<close>

definition BaseStringEdit_toJson :: "'x StringReplacement_scheme BaseEdit \<Rightarrow> ISerializedStringReplacement list" where
  "BaseStringEdit_toJson this = map BaseStringReplacement_toJson (replacements this)"

definition BaseStringEdit_isNeutralOn :: "'x StringReplacement_scheme BaseEdit \<Rightarrow> utf16 \<Rightarrow> bool" where
  "BaseStringEdit_isNeutralOn this text =
     list_all (\<lambda>e. BaseStringReplacement_isNeutralOn e text) (replacements this)"

fun removeCommonSuffixPrefix_loop ::
  "'x StringReplacement_scheme list \<Rightarrow> utf16 \<Rightarrow> StringReplacement list result" where
  "removeCommonSuffixPrefix_loop [] originalText = Inr []"
| "removeCommonSuffixPrefix_loop (e # es) originalText =
     bindr (BaseStringReplacement_removeCommonSuffixPrefix e originalText) (\<lambda>edit.
     bindr (removeCommonSuffixPrefix_loop es originalText) (\<lambda>edits.
     Inr (if BaseReplacement_isEmpty StringReplacement_methods edit then edits else edit # edits)))"

definition BaseStringEdit_removeCommonSuffixPrefix ::
  "'x StringReplacement_scheme BaseEdit \<Rightarrow> utf16 \<Rightarrow> StringEdit result" where
  "BaseStringEdit_removeCommonSuffixPrefix this originalText =
     bindr (removeCommonSuffixPrefix_loop (replacements this) originalText) BaseEdit_new"

definition BaseStringEdit_normalizeEOL :: "'x StringReplacement_scheme BaseEdit \<Rightarrow> utf16 \<Rightarrow> StringEdit result" where
  "BaseStringEdit_normalizeEOL this eol =
     BaseEdit_new (map (BaseStringReplacement_normalizeEOL eol) (replacements this))"

definition BaseStringEdit_normalizeOnSource ::
  "'x StringReplacement_scheme BaseEdit \<Rightarrow> utf16 \<Rightarrow> StringEdit result" where
  "BaseStringEdit_normalizeOnSource this source =
     (let res = BaseStringEdit_apply this source
      in bindr (OffsetRange_ofLength (int (length source))) (\<lambda>rng.
         bindr (BaseStringReplacement_removeCommonSuffixAndPrefix StringReplacement_methods source
                  (StringReplacement_replace rng res)) (\<lambda>e.
         if BaseReplacement_isEmpty StringReplacement_methods e then StringEdit_empty
         else BaseStringReplacement_toEdit e)))"

definition BaseStringEdit_removeCommonSuffixAndPrefix ::
  "'x StringReplacement_scheme replacement_methods \<Rightarrow> 'x StringReplacement_scheme BaseEdit \<Rightarrow> utf16
   \<Rightarrow> 'x StringReplacement_scheme BaseEdit result" where
  "BaseStringEdit_removeCommonSuffixAndPrefix M this source =
     bindr (mapr (BaseStringReplacement_removeCommonSuffixAndPrefix M source) (replacements this)) (\<lambda>rs.
     bindr (BaseEdit_new rs) (BaseEdit_normalize M))"

subsection \<open>Sequential replacements\<close>

fun composeSequential_loop ::
  "StringReplacement list \<Rightarrow> StringEdit \<Rightarrow> StringReplacement list \<Rightarrow> StringEdit result" where
  "composeSequential_loop [] edit cur =
     bindr (StringEdit_create (rev cur)) (\<lambda>c. BaseEdit_compose StringReplacement_methods edit c)"
| "composeSequential_loop (r # rs) edit cur =
     (if cur = [] \<or> OffsetRange_isBefore (replaceRange r) (replaceRange (last cur))
      then composeSequential_loop rs edit (cur @ [r])
      else bindr (StringEdit_create (rev cur)) (\<lambda>c.
           bindr (BaseEdit_compose StringReplacement_methods edit c) (\<lambda>edit'.
           composeSequential_loop rs edit' [r])))"

definition StringEdit_composeSequentialReplacements :: "StringReplacement list \<Rightarrow> StringEdit result" where
  "StringEdit_composeSequentialReplacements rs =
     bindr StringEdit_empty (\<lambda>edit. composeSequential_loop rs edit [])"

section \<open>Ranges under an edit\<close>

fun aer_before :: "StringReplacement \<Rightarrow> int \<Rightarrow> OffsetRange list \<Rightarrow> OffsetRange list
  \<Rightarrow> (OffsetRange list \<times> OffsetRange list) result" where
  "aer_before e offset [] res = Inr ([], res)"
| "aer_before e offset (r # rs) res =
     (if endExclusive r \<ge> start (replaceRange e) then Inr (r # rs, res)
      else bindr (OffsetRange_delta r offset) (\<lambda>x. aer_before e offset rs (res @ [x])))"

definition aer_adjust :: "StringReplacement \<Rightarrow> bool \<Rightarrow> OffsetRange \<Rightarrow> OffsetRange result" where
  "aer_adjust e isFirst r =
     bindr (OffsetRange_intersect r (replaceRange e)) (\<lambda>i.
       case i of None \<Rightarrow> Inl TypeErr
       | Some x \<Rightarrow>
         bindr (OffsetRange_deltaEnd r (- OffsetRange_length x + (if isFirst then int (length (newText e)) else 0))) (\<lambda>r1.
         let ahead = start r1 - start (replaceRange e)
         in bindr (if ahead > 0 then OffsetRange_delta r1 (- ahead) else Inr r1) (\<lambda>r2.
            bindr (if \<not> isFirst then OffsetRange_delta r2 (int (length (newText e))) else Inr r2) (\<lambda>r3.
            OffsetRange_delta r3 (- (int (length (newText e)) - OffsetRange_length (replaceRange e)))))))"

text \<open>The loop from the last to the first intersecting range, which puts each one back at the front.\<close>

fun aer_unshift :: "StringReplacement \<Rightarrow> OffsetRange list \<Rightarrow> OffsetRange list \<Rightarrow> OffsetRange list result" where
  "aer_unshift e [] rest = Inr rest"
| "aer_unshift e (r # rs) rest =
     bindr (aer_adjust e (rs = []) r) (\<lambda>x. aer_unshift e rs (x # rest))"

fun applyEditsToRanges_loop ::
  "StringReplacement list \<Rightarrow> int \<Rightarrow> OffsetRange list \<Rightarrow> OffsetRange list \<Rightarrow> OffsetRange list result" where
  "applyEditsToRanges_loop [] offset sortedRs res =
     bindr (mapr (\<lambda>r. OffsetRange_delta r offset) sortedRs) (\<lambda>xs. Inr (res @ xs))"
| "applyEditsToRanges_loop (e # es) offset sortedRs res =
     bindr (aer_before e offset sortedRs res) (\<lambda>(sorted1, res1).
     let inter = takeWhile (\<lambda>r. OffsetRange_intersectsOrTouches r (replaceRange e)) sorted1;
         rest = dropWhile (\<lambda>r. OffsetRange_intersectsOrTouches r (replaceRange e)) sorted1
     in bindr (aer_unshift e (rev inter) rest) (\<lambda>sorted2.
        applyEditsToRanges_loop es
          (offset + (int (length (newText e)) - OffsetRange_length (replaceRange e))) sorted2 res1))"

definition applyEditsToRanges :: "OffsetRange list \<Rightarrow> StringEdit \<Rightarrow> OffsetRange list result" where
  "applyEditsToRanges sortedRs edit = applyEditsToRanges_loop (replacements edit) 0 sortedRs []"

section \<open>Annotated string edits\<close>

text \<open>The data of a replacement has a method \<open>join\<close>, which may refuse; it is a parameter of the methods of
  annotated replacements.\<close>

record 'd AnnotatedStringReplacement = StringReplacement +
  data :: 'd

definition AnnotatedStringReplacement_new :: "OffsetRange \<Rightarrow> utf16 \<Rightarrow> 'd \<Rightarrow> 'd AnnotatedStringReplacement" where
  "AnnotatedStringReplacement_new rng text d = \<lparr>replaceRange = rng, newText = text, data = d\<rparr>"

definition AnnotatedStringReplacement_insert :: "int \<Rightarrow> utf16 \<Rightarrow> 'd \<Rightarrow> 'd AnnotatedStringReplacement result" where
  "AnnotatedStringReplacement_insert offset text d =
     bindr (OffsetRange_emptyAt offset) (\<lambda>rng. Inr (AnnotatedStringReplacement_new rng text d))"

definition AnnotatedStringReplacement_replace :: "OffsetRange \<Rightarrow> utf16 \<Rightarrow> 'd \<Rightarrow> 'd AnnotatedStringReplacement" where
  "AnnotatedStringReplacement_replace rng text d = AnnotatedStringReplacement_new rng text d"

definition AnnotatedStringReplacement_delete :: "OffsetRange \<Rightarrow> 'd \<Rightarrow> 'd AnnotatedStringReplacement" where
  "AnnotatedStringReplacement_delete rng d = AnnotatedStringReplacement_new rng [] d"

definition AnnotatedStringReplacement_equals ::
  "'d AnnotatedStringReplacement \<Rightarrow> 'd AnnotatedStringReplacement \<Rightarrow> bool" where
  "AnnotatedStringReplacement_equals r other \<longleftrightarrow>
     OffsetRange_equals (replaceRange r) (replaceRange other) \<and> newText r = newText other \<and> data r = data other"

definition AnnotatedStringReplacement_tryJoinTouching ::
  "('d \<Rightarrow> 'd \<Rightarrow> 'd option) \<Rightarrow> 'd AnnotatedStringReplacement \<Rightarrow> 'd AnnotatedStringReplacement
   \<Rightarrow> 'd AnnotatedStringReplacement option result" where
  "AnnotatedStringReplacement_tryJoinTouching joinData r other =
     (case joinData (data r) (data other) of None \<Rightarrow> Inr None
      | Some joined \<Rightarrow>
          bindr (OffsetRange_joinRightTouching (replaceRange r) (replaceRange other)) (\<lambda>rng.
            Inr (Some (AnnotatedStringReplacement_new rng (newText r @ newText other) joined))))"

definition AnnotatedStringReplacement_slice ::
  "'d AnnotatedStringReplacement \<Rightarrow> OffsetRange \<Rightarrow> OffsetRange option \<Rightarrow> 'd AnnotatedStringReplacement" where
  "AnnotatedStringReplacement_slice r rng inRepl =
     AnnotatedStringReplacement_new rng
       (case inRepl of None \<Rightarrow> newText r | Some h \<Rightarrow> OffsetRange_substring h (newText r)) (data r)"

definition AnnotatedStringReplacement_methods ::
  "('d \<Rightarrow> 'd \<Rightarrow> 'd option) \<Rightarrow> 'd AnnotatedStringReplacement replacement_methods" where
  "AnnotatedStringReplacement_methods joinData =
     \<lparr>getNewLength = BaseStringReplacement_getNewLength,
      tryJoinTouching = AnnotatedStringReplacement_tryJoinTouching joinData,
      sliceRepl = AnnotatedStringReplacement_slice, equalsRepl = AnnotatedStringReplacement_equals\<rparr>"

definition VoidEditData_join :: "unit \<Rightarrow> unit \<Rightarrow> unit option" where
  "VoidEditData_join this other = Some this"

definition AnnotatedStringEdit_empty :: "'d AnnotatedStringReplacement BaseEdit result" where
  "AnnotatedStringEdit_empty = BaseEdit_new []"

definition AnnotatedStringEdit_create ::
  "'d AnnotatedStringReplacement list \<Rightarrow> 'd AnnotatedStringReplacement BaseEdit result" where
  "AnnotatedStringEdit_create rs = BaseEdit_new rs"

definition AnnotatedStringEdit_single ::
  "'d AnnotatedStringReplacement \<Rightarrow> 'd AnnotatedStringReplacement BaseEdit result" where
  "AnnotatedStringEdit_single r = BaseEdit_new [r]"

definition AnnotatedStringEdit_replace ::
  "OffsetRange \<Rightarrow> utf16 \<Rightarrow> 'd \<Rightarrow> 'd AnnotatedStringReplacement BaseEdit result" where
  "AnnotatedStringEdit_replace rng text d = BaseEdit_new [AnnotatedStringReplacement_new rng text d]"

definition AnnotatedStringEdit_insert ::
  "int \<Rightarrow> utf16 \<Rightarrow> 'd \<Rightarrow> 'd AnnotatedStringReplacement BaseEdit result" where
  "AnnotatedStringEdit_insert offset text d =
     bindr (OffsetRange_emptyAt offset) (\<lambda>rng. BaseEdit_new [AnnotatedStringReplacement_new rng text d])"

definition AnnotatedStringEdit_delete ::
  "OffsetRange \<Rightarrow> 'd \<Rightarrow> 'd AnnotatedStringReplacement BaseEdit result" where
  "AnnotatedStringEdit_delete rng d = BaseEdit_new [AnnotatedStringReplacement_new rng [] d]"

definition AnnotatedStringEdit_compose ::
  "('d \<Rightarrow> 'd \<Rightarrow> 'd option) \<Rightarrow> 'd AnnotatedStringReplacement BaseEdit list
   \<Rightarrow> 'd AnnotatedStringReplacement BaseEdit result" where
  "AnnotatedStringEdit_compose joinData edits =
     (case edits of [] \<Rightarrow> AnnotatedStringEdit_empty
      | e # es \<Rightarrow> compose_fold (AnnotatedStringReplacement_methods joinData) e es)"

definition AnnotatedStringEdit_toStringEdit ::
  "'d AnnotatedStringReplacement BaseEdit \<Rightarrow> ('d AnnotatedStringReplacement \<Rightarrow> bool) option \<Rightarrow> StringEdit result" where
  "AnnotatedStringEdit_toStringEdit this flt =
     BaseEdit_new (map (\<lambda>r. StringReplacement_new (replaceRange r) (newText r))
       (filter (\<lambda>r. case flt of None \<Rightarrow> True | Some f \<Rightarrow> f r) (replacements this)))"

definition BaseStringEdit_mapData ::
  "'x StringReplacement_scheme BaseEdit \<Rightarrow> ('x StringReplacement_scheme \<Rightarrow> 'd)
   \<Rightarrow> 'd AnnotatedStringReplacement BaseEdit result" where
  "BaseStringEdit_mapData this f =
     BaseEdit_new (map (\<lambda>e. AnnotatedStringReplacement_new (replaceRange e) (newText e) (f e)) (replacements this))"

section \<open>Laws\<close>

text \<open>An edit fits a text of length \<open>n\<close> when its replacements are sorted, disjoint and inside it. (The
  constructor checks the first two only.)\<close>

abbreviation SV :: "'x StringReplacement_scheme list \<Rightarrow> 16 word splice list" where
  "SV rs \<equiv> map (view newText) rs"

definition sedit_fits :: "int \<Rightarrow> 'x StringReplacement_scheme BaseEdit \<Rightarrow> bool" where
  "sedit_fits n e \<longleftrightarrow> fits 0 n (SV (replacements e))"

lemma apply_loop_out:
  "fits p n (SV rs) \<Longrightarrow> 0 \<le> p \<Longrightarrow> apply_loop rs base p = out p (SV rs) base"
  by (induction rs arbitrary: p) (auto simp: js_substring_from_eq js_substring_eq)

lemma apply_out:
  "sedit_fits n e \<Longrightarrow> BaseStringEdit_apply e base = out 0 (SV (replacements e)) base"
  by (simp add: BaseStringEdit_apply_def sedit_fits_def apply_loop_out)

lemma StringReplacement_new_sel [simp]:
  "replaceRange (StringReplacement_new rng t) = rng" "newText (StringReplacement_new rng t) = t"
  by (simp_all add: StringReplacement_new_def)

lemma AnnotatedStringReplacement_new_sel [simp]:
  "replaceRange (AnnotatedStringReplacement_new rng t d) = rng"
  "newText (AnnotatedStringReplacement_new rng t d) = t"
  by (simp_all add: AnnotatedStringReplacement_new_def)

text \<open>Both replacement classes provide what the generic algorithms expect.\<close>

interpretation se: replacement_class StringReplacement_methods newText "\<lambda>_. True"
proof
  fix r x y :: StringReplacement and g h and a b :: int
  show "getNewLength StringReplacement_methods r = int (length (newText r))"
    by (simp add: StringReplacement_methods_def BaseStringReplacement_getNewLength_def)
  show "replaceRange (sliceRepl StringReplacement_methods r g h) = g"
    by (simp add: StringReplacement_methods_def StringReplacement_slice_def)
  show "True \<and> newText (sliceRepl StringReplacement_methods r g (Some (OR a b)))
        = take (nat (b - a)) (drop (nat a) (newText r))" if "0 \<le> a" "a \<le> b"
    using that by (simp add: StringReplacement_methods_def StringReplacement_slice_def
        OffsetRange_substring_def js_substring_eq)
  show "\<exists>j. tryJoinTouching StringReplacement_methods x y = Inr j \<and> (\<forall>z. j = Some z \<longrightarrow> True
        \<and> replaceRange z = OR (start (replaceRange x)) (endExclusive (replaceRange y))
        \<and> newText z = newText x @ newText y)"
    if "or_wf (replaceRange x)" "or_wf (replaceRange y)" "endExclusive (replaceRange x) = start (replaceRange y)"
    using that by (simp add: StringReplacement_methods_def StringReplacement_tryJoinTouching_def
        OffsetRange_joinRightTouching_def or_wf_def)
qed

interpretation ase: replacement_class "AnnotatedStringReplacement_methods joinData" newText "\<lambda>_. True"
  for joinData :: "'d \<Rightarrow> 'd \<Rightarrow> 'd option"
proof
  fix r x y :: "'d AnnotatedStringReplacement" and g h and a b :: int
  show "getNewLength (AnnotatedStringReplacement_methods joinData) r = int (length (newText r))"
    by (simp add: AnnotatedStringReplacement_methods_def BaseStringReplacement_getNewLength_def)
  show "replaceRange (sliceRepl (AnnotatedStringReplacement_methods joinData) r g h) = g"
    by (simp add: AnnotatedStringReplacement_methods_def AnnotatedStringReplacement_slice_def)
  show "True \<and> newText (sliceRepl (AnnotatedStringReplacement_methods joinData) r g (Some (OR a b)))
        = take (nat (b - a)) (drop (nat a) (newText r))" if "0 \<le> a" "a \<le> b"
    using that by (simp add: AnnotatedStringReplacement_methods_def AnnotatedStringReplacement_slice_def
        OffsetRange_substring_def js_substring_eq)
  show "\<exists>j. tryJoinTouching (AnnotatedStringReplacement_methods joinData) x y = Inr j \<and> (\<forall>z. j = Some z \<longrightarrow> True
        \<and> replaceRange z = OR (start (replaceRange x)) (endExclusive (replaceRange y))
        \<and> newText z = newText x @ newText y)"
    if "or_wf (replaceRange x)" "or_wf (replaceRange y)" "endExclusive (replaceRange x) = start (replaceRange y)"
    using that by (auto simp: AnnotatedStringReplacement_methods_def AnnotatedStringReplacement_tryJoinTouching_def
        OffsetRange_joinRightTouching_def or_wf_def split: option.splits)
qed

lemma se_good_iff [simp]: "se.good p n rs \<longleftrightarrow> fits p n (SV rs)"
  by (simp add: se.good_def)

lemma ase_good_iff [simp]: "ase.good p n rs \<longleftrightarrow> fits p n (SV rs)"
  by (simp add: ase.good_def)

subsection \<open>Composition\<close>

lemma string_compose:
  assumes "sedit_fits (int (length s)) a" and "sedit_fits (int (length (BaseStringEdit_apply a s))) b"
  shows "\<exists>c. BaseEdit_compose StringReplacement_methods a b = Inr c \<and> sedit_fits (int (length s)) c
    \<and> BaseStringEdit_apply c s = BaseStringEdit_apply b (BaseStringEdit_apply a s)"
proof -
  let ?m = "BaseStringEdit_apply a s"
  have m: "?m = out 0 (SV (replacements a)) s" by (rule apply_out [OF assms(1)])
  from se.compose_correct [OF _ m, of b] assms obtain N where
    "BaseEdit_compose StringReplacement_methods a b = Inr \<lparr>replacements = N\<rparr>"
    "fits 0 (int (length s)) (SV N)" "out 0 (SV N) s = out 0 (SV (replacements b)) ?m"
    by (auto simp: sedit_fits_def)
  then show ?thesis
    using apply_out [of "int (length s)" "\<lparr>replacements = N\<rparr>" s] apply_out [OF assms(2), of ?m]
    by (auto simp: sedit_fits_def)
qed

text \<open>C3. \<open>compose\<close> never throws on edits that fit, its result fits the original text, and applying it has
  the effect of applying the two edits one after the other; the same holds for annotated edits, whatever
  their data do when they are joined.\<close>

theorem StringEdit_compose_correct:
  assumes "sedit_fits (int (length s)) a" and "sedit_fits (int (length (BaseStringEdit_apply a s))) b"
    and "sedit_fits (int (length s)) a'" and "sedit_fits (int (length (BaseStringEdit_apply a' s))) b'"
  shows "(\<exists>c. BaseEdit_compose StringReplacement_methods a b = Inr c \<and> sedit_fits (int (length s)) c
      \<and> BaseStringEdit_apply c s = BaseStringEdit_apply b (BaseStringEdit_apply a s))
    \<and> (\<exists>c. BaseEdit_compose (AnnotatedStringReplacement_methods joinData) a' b' = Inr c
      \<and> sedit_fits (int (length s)) c
      \<and> BaseStringEdit_apply c s = BaseStringEdit_apply b' (BaseStringEdit_apply a' s))"
proof (rule conjI [OF string_compose [OF assms(1,2)]])
  let ?m = "BaseStringEdit_apply a' s"
  have m: "?m = out 0 (SV (replacements a')) s" by (rule apply_out [OF assms(3)])
  from ase.compose_correct [OF _ m, of b' joinData] assms obtain N where
    "BaseEdit_compose (AnnotatedStringReplacement_methods joinData) a' b' = Inr \<lparr>replacements = N\<rparr>"
    "fits 0 (int (length s)) (SV N)" "out 0 (SV N) s = out 0 (SV (replacements b')) ?m"
    by (auto simp: sedit_fits_def)
  then show "\<exists>c. BaseEdit_compose (AnnotatedStringReplacement_methods joinData) a' b' = Inr c
      \<and> sedit_fits (int (length s)) c
      \<and> BaseStringEdit_apply c s = BaseStringEdit_apply b' (BaseStringEdit_apply a' s)"
    using apply_out [of "int (length s)" "\<lparr>replacements = N\<rparr>" s] apply_out [OF assms(4), of ?m]
    by (auto simp: sedit_fits_def)
qed

text \<open>Example edits: on the text \<open>abcdef\<close>, replace \<open>bc\<close> by \<open>xyz\<close>, then delete from the \<open>y\<close> to the \<open>d\<close>.\<close>

definition example_edit1 :: StringEdit where
  "example_edit1 = \<lparr>replacements = [StringReplacement_new (OR 1 3) [120, 121, 122]]\<rparr>"

definition example_edit2 :: StringEdit where
  "example_edit2 = \<lparr>replacements = [StringReplacement_new (OR 2 5) []]\<rparr>"

lemma example_edit1_facts:
  "sedit_fits 6 example_edit1"
  "BaseStringEdit_apply example_edit1 [97, 98, 99, 100, 101, 102] = [97, 120, 121, 122, 100, 101, 102]"
  by (simp_all add: sedit_fits_def example_edit1_def BaseStringEdit_apply_def js_substring_eq js_substring_from_eq)

lemma example_edit2_facts:
  "sedit_fits 7 example_edit2"
  "BaseStringEdit_apply example_edit2 [97, 120, 121, 122, 100, 101, 102] = [97, 120, 101, 102]"
  by (simp_all add: sedit_fits_def example_edit2_def BaseStringEdit_apply_def js_substring_eq js_substring_from_eq
      numeral_eq_Suc)

theorem StringEdit_compose_correct_witness:
  "\<exists>c. BaseEdit_compose StringReplacement_methods example_edit1 example_edit2 = Inr c
     \<and> BaseStringEdit_apply c [97, 98, 99, 100, 101, 102] = [97, 120, 101, 102]"
proof -
  let ?s = "[97, 98, 99, 100, 101, 102] :: utf16" and ?e = "\<lparr>replacements = []\<rparr> :: unit AnnotatedStringReplacement BaseEdit"
  have "sedit_fits (int (length ?s)) example_edit1"
    "sedit_fits (int (length (BaseStringEdit_apply example_edit1 ?s))) example_edit2"
    using example_edit1_facts example_edit2_facts by simp_all
  moreover have "sedit_fits (int (length ?s)) ?e" "sedit_fits (int (length (BaseStringEdit_apply ?e ?s))) ?e"
    by (simp_all add: sedit_fits_def)
  ultimately show ?thesis
    using StringEdit_compose_correct [of ?s example_edit1 example_edit2 ?e ?e VoidEditData_join]
      example_edit1_facts example_edit2_facts by auto
qed

subsection \<open>Normalisation\<close>

definition gap_before :: "'x BaseReplacement_scheme \<Rightarrow> 'x BaseReplacement_scheme \<Rightarrow> bool" where
  "gap_before x y \<longleftrightarrow> endExclusive (replaceRange x) < start (replaceRange y)"

lemma string_join:
  "endExclusive (replaceRange x) = start (replaceRange y) \<Longrightarrow> or_wf (replaceRange x) \<Longrightarrow> or_wf (replaceRange y) \<Longrightarrow>
   tryJoinTouching StringReplacement_methods x y =
     Inr (Some (StringReplacement_new (OR (start (replaceRange x)) (endExclusive (replaceRange y))) (newText x @ newText y)))"
  by (simp add: StringReplacement_methods_def StringReplacement_tryJoinTouching_def
      OffsetRange_joinRightTouching_def or_wf_def)

lemma normalize_loop_gaps:
  assumes "successively gap_before (acc @ pendingRepl l)" and "fits p n (SV (pendingRepl l @ rs))"
    and "normalize_loop StringReplacement_methods rs l acc = Inr N" and "l = None \<longrightarrow> acc = []"
  shows "successively gap_before N"
  using assms
proof (induction rs arbitrary: l acc p)
  case (Cons r rs)
  show ?case
  proof (cases "BaseReplacement_isEmpty StringReplacement_methods r")
    case True
    have "fits p n (SV (pendingRepl l @ rs))"
      using Cons.prems(2) by (cases l) (auto simp: pendingRepl_def elim!: fits_mono)
    with Cons True show ?thesis by (auto simp: BaseReplacement_isEmpty_def)
  next
    case False
    then have ne: "\<not> (getNewLength StringReplacement_methods r = 0 \<and> OffsetRange_length (replaceRange r) = 0)"
      by (simp add: BaseReplacement_isEmpty_def)
    show ?thesis
    proof (cases l)
      case None
      with Cons.prems ne Cons.IH [of acc "Some r" p] show ?thesis
        by (simp add: pendingRepl_def)
    next
      case (Some x)
      let ?z = "StringReplacement_new (OR (start (replaceRange x)) (endExclusive (replaceRange r))) (newText x @ newText r)"
      have g: "p \<le> start (replaceRange x)" "or_wf (replaceRange x)" "or_wf (replaceRange r)"
        "endExclusive (replaceRange x) \<le> start (replaceRange r)" "fits (endExclusive (replaceRange r)) n (SV rs)"
        using Cons.prems(2) Some by (auto simp: pendingRepl_def or_wf_def)
      show ?thesis
      proof (cases "endExclusive (replaceRange x) = start (replaceRange r)")
        case True
        then have "normalize_loop StringReplacement_methods rs (Some ?z) acc = Inr N"
          using Cons.prems(3) Some ne string_join [OF True g(2,3)] by (simp only: normalize_loop.simps) simp
        moreover have "successively gap_before (acc @ [?z])"
          using Cons.prems(1) Some by (auto simp: pendingRepl_def successively_append_iff gap_before_def)
        moreover have "fits p n (SV (?z # rs))" using g True by (simp add: or_wf_def)
        ultimately show ?thesis using Cons.IH [of acc "Some ?z" p] by (simp add: pendingRepl_def)
      next
        case False
        then have "normalize_loop StringReplacement_methods rs (Some r) (acc @ [x]) = Inr N"
          using Cons.prems(3) Some ne by (simp only: normalize_loop.simps) simp
        moreover have "successively gap_before ((acc @ [x]) @ [r])"
          using Cons.prems(1) Some g(4) False by (auto simp: pendingRepl_def successively_append_iff gap_before_def)
        moreover have "fits (start (replaceRange r)) n (SV (r # rs))" using g by (simp add: or_wf_def)
        ultimately show ?thesis
          using Cons.IH [of "acc @ [x]" "Some r" "start (replaceRange r)"] by (simp add: pendingRepl_def)
      qed
    qed
  qed
qed simp

text \<open>C30. \<open>normalize\<close> never throws and has the same effect on the text, and its result is in normal form: no
  replacement is empty, and neighbouring replacements leave a gap.\<close>

theorem StringEdit_normalize_correct:
  assumes fits: "sedit_fits (int (length s)) e"
  shows "\<exists>c. BaseEdit_normalize StringReplacement_methods e = Inr c \<and> sedit_fits (int (length s)) c
    \<and> BaseStringEdit_apply c s = BaseStringEdit_apply e s
    \<and> (\<forall>r \<in> set (replacements c). \<not> BaseReplacement_isEmpty StringReplacement_methods r)
    \<and> successively gap_before (replacements c)"
proof -
  from se.normalize_correct [of s e] fits obtain N where
    N: "BaseEdit_normalize StringReplacement_methods e = Inr \<lparr>replacements = N\<rparr>" "fits 0 (int (length s)) (SV N)"
      "out 0 (SV N) s = out 0 (SV (replacements e)) s"
      "\<forall>r \<in> set N. \<not> BaseReplacement_isEmpty StringReplacement_methods r"
    by (auto simp: sedit_fits_def)
  from N(1) have "normalize_loop StringReplacement_methods (replacements e) None [] = Inr N"
    by (auto simp: BaseEdit_normalize_def BaseEdit_new_def bindr_eq_Inr_iff)
  with normalize_loop_gaps [of "[]" None 0 "int (length s)" "replacements e" N] fits
  have "successively gap_before N" by (simp add: pendingRepl_def sedit_fits_def)
  with N apply_out [OF fits, of s] apply_out [of "int (length s)" "\<lparr>replacements = N\<rparr>" s] show ?thesis
    by (auto simp: sedit_fits_def)
qed

theorem StringEdit_normalize_correct_witness:
  "\<exists>c. BaseEdit_normalize StringReplacement_methods example_edit1 = Inr c
     \<and> BaseStringEdit_apply c [97, 98, 99, 100, 101, 102] = [97, 120, 121, 122, 100, 101, 102]"
proof -
  have "sedit_fits (int (length [97, 98, 99, 100, 101, 102 :: 16 word])) example_edit1"
    using example_edit1_facts(1) by simp
  from StringEdit_normalize_correct [OF this] example_edit1_facts(2) show ?thesis by auto
qed

subsection \<open>Inverse\<close>

lemma inverse_loop_correct:
  "se.compose_inv p s m rs d \<Longrightarrow>
   \<exists>I. inverseOnSlice_loop (js_substring s) rs d = Inr I
     \<and> out (p + d) (SV I) m = drop (nat p) s \<and> fits (p + d) (int (length m)) (SV I)"
proof (induction rs arbitrary: p d)
  case Nil
  then show ?case by (auto simp: se.compose_inv_def)
next
  case (Cons r rs)
  let ?a = "start (replaceRange r)" and ?b = "endExclusive (replaceRange r)"
  let ?d = "d + (int (length (newText r)) - OffsetRange_length (replaceRange r))"
  have p: "0 \<le> p" "0 \<le> p + d" and r: "p \<le> ?a" "?a \<le> ?b"
    and m: "drop (nat (p + d)) m = take (nat (?a - p)) (drop (nat p) s) @ newText r @ out ?b (SV rs) s"
    and bn: "?b \<le> int (length s)"
    using Cons.prems fits_le by (auto simp: se.compose_inv_def)
  have lt: "length (take (nat (?a - p)) (drop (nat p) s)) = nat (?a - p)" using p r bn by simp
  have bd: "?b + ?d = ?a + d + int (length (newText r))" by (simp add: OffsetRange_length_def)
  have "se.compose_inv ?b s m rs ?d"
    using se.compose_inv_advance(1) [of p s m "[r]" rs d] Cons.prems
    by (simp add: OffsetRange_length_def add_diff_eq)
  from Cons.IH [OF this] obtain I where
    I: "inverseOnSlice_loop (js_substring s) rs ?d = Inr I" "out (?b + ?d) (SV I) m = drop (nat ?b) s"
      "fits (?b + ?d) (int (length m)) (SV I)" by blast
  define x where "x = StringReplacement_replace (OR (?a + d) (?b + ?d)) (js_substring s ?a ?b)"
  have x: "replaceRange x = OR (?a + d) (?b + ?d)" "newText x = js_substring s ?a ?b"
    by (simp_all add: x_def StringReplacement_replace_def)
  have "inverseOnSlice_loop (js_substring s) (r # rs) d = Inr (x # I)"
    using I(1) by (simp add: OffsetRange_ofStartAndLength_def x_def bd)
  moreover have "take (nat (?a + d - (p + d))) (drop (nat (p + d)) m) = take (nat (?a - p)) (drop (nat p) s)"
    unfolding m using lt by (simp del: length_take)
  moreover have "js_substring s ?a ?b @ drop (nat ?b) s = drop (nat ?a) s"
    using p r by (intro js_substring_split) simp_all
  moreover have "take (nat (?a - p)) (drop (nat p) s) @ drop (nat ?a) s = drop (nat p) s"
    unfolding drop_nat_le [OF p(1) r(1)] by (rule append_take_drop_id)
  moreover have "fits (p + d) (int (length m)) (SV (x # I))" using I(3) x r bd by simp
  ultimately show ?case using I(2) x by (intro exI [of _ "x # I"]) simp
qed

text \<open>C29. The inverse of an edit that fits never throws, fits the edited text, and restores the original
  text.\<close>

theorem StringEdit_inverse_roundtrip:
  fixes e :: StringEdit
  assumes fits: "sedit_fits (int (length s)) e"
  shows "\<exists>i. BaseStringEdit_inverse e s = Inr i
    \<and> sedit_fits (int (length (BaseStringEdit_apply e s))) i
    \<and> BaseStringEdit_apply i (BaseStringEdit_apply e s) = s"
proof -
  let ?m = "BaseStringEdit_apply e s"
  have m: "?m = out 0 (SV (replacements e)) s" by (rule apply_out [OF fits])
  from inverse_loop_correct [of 0 s ?m "replacements e" 0] fits m obtain I where
    I: "inverseOnSlice_loop (js_substring s) (replacements e) 0 = Inr I" "out 0 (SV I) ?m = s"
      "fits 0 (int (length ?m)) (SV I)" by (auto simp: sedit_fits_def se.compose_inv_def)
  have "(\<lambda>x y. js_substring s x y) = js_substring s" by (rule refl)
  with I BaseEdit_new_fits [OF I(3)] apply_out [of "int (length ?m)" "\<lparr>replacements = I\<rparr>" ?m] show ?thesis
    by (auto simp: BaseStringEdit_inverse_def BaseStringEdit_inverseOnSlice_def sedit_fits_def)
qed

theorem StringEdit_inverse_roundtrip_witness:
  "\<exists>i. BaseStringEdit_inverse example_edit1 [97, 98, 99, 100, 101, 102] = Inr i
     \<and> BaseStringEdit_apply i [97, 120, 121, 122, 100, 101, 102] = [97, 98, 99, 100, 101, 102]"
proof -
  have "sedit_fits (int (length [97, 98, 99, 100, 101, 102 :: 16 word])) example_edit1"
    using example_edit1_facts(1) by simp
  from StringEdit_inverse_roundtrip [OF this] example_edit1_facts(2) show ?thesis by auto
qed

subsection \<open>Offsets and ranges\<close>

lemma fits_start_ge: "fits b n (map (view f) ys) \<Longrightarrow> q \<in> set ys \<Longrightarrow> b \<le> start (replaceRange q)"
  by (induction ys arbitrary: b) fastforce+

lemma applyToOffsetOrUndefined_None:
  "fits p n (SV rs) \<Longrightarrow>
   applyToOffsetOrUndefined_loop StringReplacement_methods rs x d = None
     \<longleftrightarrow> (\<exists>r \<in> set rs. OffsetRange_contains (replaceRange r) x)"
proof (induction rs arbitrary: p d)
  case (Cons r rs)
  have later: "endExclusive (replaceRange r) \<le> start (replaceRange q)" if "q \<in> set rs" for q
    using Cons.prems that by (auto intro: fits_start_ge)
  have tail: "fits (endExclusive (replaceRange r)) n (SV rs)" using Cons.prems by simp
  consider "x < start (replaceRange r)" | "OffsetRange_contains (replaceRange r) x"
    | "endExclusive (replaceRange r) \<le> x" "start (replaceRange r) \<le> x"
    unfolding OffsetRange_contains_def by linarith
  then show ?case
  proof cases
    case 1
    moreover have "start (replaceRange r) \<le> endExclusive (replaceRange r)" using Cons.prems by simp
    ultimately have "\<forall>q \<in> set (r # rs). \<not> OffsetRange_contains (replaceRange q) x"
      using later by (fastforce simp: OffsetRange_contains_def)
    with 1 show ?thesis by simp
  next
    case 3
    then have "\<not> OffsetRange_contains (replaceRange r) x" by (simp add: OffsetRange_contains_def)
    with 3 show ?thesis by (simp add: Cons.IH [OF tail])
  qed (auto simp: OffsetRange_contains_def)
qed simp

text \<open>Offsets under an edit: an offset has no image exactly when a replaced range contains it; otherwise
  both mapping functions agree, the character at the image is the character at the offset, and the inverse
  mapping leads back. Mapping a range never throws, and the new ranges of an edit select the inserted
  texts in the edited text, whose length is the predicted one.\<close>

theorem StringEdit_offsets_correct:
  fixes e :: StringEdit
  assumes fits: "sedit_fits (int (length s)) e" and x: "0 \<le> x" "x \<le> int (length s)" and rng: "or_wf rng"
  defines "M \<equiv> StringReplacement_methods"
  shows "(case BaseEdit_applyToOffsetOrUndefined M e x of
      None \<Rightarrow> \<exists>r \<in> set (replacements e). OffsetRange_contains (replaceRange r) x
    | Some k \<Rightarrow> (\<forall>r \<in> set (replacements e). \<not> OffsetRange_contains (replaceRange r) x)
        \<and> BaseEdit_applyToOffset M e x = k \<and> BaseEdit_applyInverseToOffset M e k = x
        \<and> 0 \<le> k \<and> k \<le> int (length (BaseStringEdit_apply e s))
        \<and> (x < int (length s) \<longrightarrow> BaseStringEdit_apply e s ! nat k = s ! nat x))
    \<and> BaseEdit_applyToOffsetRange M e rng =
        Inr (OR (BaseEdit_applyToOffset M e (start rng)) (BaseEdit_applyToOffset M e (endExclusive rng)))
    \<and> (\<exists>gs. BaseEdit_getNewRanges M e = Inr gs
        \<and> list_all2 (\<lambda>r g. OffsetRange_substring g (BaseStringEdit_apply e s) = newText r) (replacements e) gs)
    \<and> int (length (BaseStringEdit_apply e s)) = BaseEdit_getNewDataLength M e (int (length s))"
proof (intro conjI)
  let ?rs = "replacements e"
  have good: "fits 0 (int (length s)) (SV ?rs)" using fits by (simp add: sedit_fits_def)
  note app = apply_out [OF fits, of s]
  show "case BaseEdit_applyToOffsetOrUndefined M e x of
      None \<Rightarrow> \<exists>r \<in> set ?rs. OffsetRange_contains (replaceRange r) x
    | Some k \<Rightarrow> (\<forall>r \<in> set ?rs. \<not> OffsetRange_contains (replaceRange r) x)
        \<and> BaseEdit_applyToOffset M e x = k \<and> BaseEdit_applyInverseToOffset M e k = x
        \<and> 0 \<le> k \<and> k \<le> int (length (BaseStringEdit_apply e s))
        \<and> (x < int (length s) \<longrightarrow> BaseStringEdit_apply e s ! nat k = s ! nat x)"
  proof (cases "BaseEdit_applyToOffsetOrUndefined M e x")
    case None
    then have "\<exists>r \<in> set ?rs. OffsetRange_contains (replaceRange r) x"
      using applyToOffsetOrUndefined_None [OF good, of x 0]
      by (simp add: BaseEdit_applyToOffsetOrUndefined_def M_def)
    with None show ?thesis by simp
  next
    case (Some k)
    then have k: "applyToOffsetOrUndefined_loop M ?rs x 0 = Some k"
      by (simp add: BaseEdit_applyToOffsetOrUndefined_def)
    then show ?thesis
      using Some app applyToOffsetOrUndefined_None [OF good, of x 0]
        se.offset_loop_correct [of 0 s ?rs x 0 k] good x
      by (simp add: M_def BaseEdit_applyToOffset_def BaseEdit_applyInverseToOffset_def)
  qed
  show "BaseEdit_applyToOffsetRange M e rng =
      Inr (OR (BaseEdit_applyToOffset M e (start rng)) (BaseEdit_applyToOffset M e (endExclusive rng)))"
    unfolding M_def using good rng by (simp add: se.applyToOffsetRange_total [of "int (length s)"])
  show "\<exists>gs. BaseEdit_getNewRanges M e = Inr gs
      \<and> list_all2 (\<lambda>r g. OffsetRange_substring g (BaseStringEdit_apply e s) = newText r) ?rs gs"
    using se.getNewRanges_loop_correct [of 0 s ?rs 0] good
    by (simp add: BaseEdit_getNewRanges_def M_def app)
  show "int (length (BaseStringEdit_apply e s)) = BaseEdit_getNewDataLength M e (int (length s))"
    using length_out [OF _ good] se.getLengthDelta_shift [of ?rs 0]
    by (simp add: app BaseEdit_getNewDataLength_def BaseEdit_getLengthDelta_def M_def)
qed

theorem StringEdit_offsets_correct_witness:
  "BaseEdit_applyToOffset StringReplacement_methods example_edit1 4 = 5
   \<and> BaseEdit_applyInverseToOffset StringReplacement_methods example_edit1 5 = 4
   \<and> BaseStringEdit_apply example_edit1 [97, 98, 99, 100, 101, 102] ! 5 = 101"
proof -
  let ?s = "[97, 98, 99, 100, 101, 102] :: utf16"
  have "sedit_fits (int (length ?s)) example_edit1" "or_wf (OR 0 4)"
    using example_edit1_facts(1) by (simp_all add: or_wf_def)
  moreover have "BaseEdit_applyToOffsetOrUndefined StringReplacement_methods example_edit1 4 = Some 5"
    by (simp add: BaseEdit_applyToOffsetOrUndefined_def example_edit1_def StringReplacement_methods_def
        BaseStringReplacement_getNewLength_def OffsetRange_length_def)
  ultimately show ?thesis
    using StringEdit_offsets_correct [of ?s example_edit1 4 "OR 0 4"] by simp
qed

subsection \<open>Rebasing\<close>

text \<open>The walk of \<open>tryRebase\<close> on splices: the edits of both sides in the order of the text, the ones of the
  base marked, and whether it meets a conflict.\<close>

definition conflict :: "'c splice \<Rightarrow> 'c splice \<Rightarrow> bool" where
  "conflict = (\<lambda>(a, b, t) (a', b', t').
     max a a' < min b b' \<or> a = b \<and> a' = b' \<and> a = a' \<or> a = b \<and> a' < a \<and> a < b' \<or> a' = b' \<and> a < a' \<and> a' < b)"

definition goes_first :: "'c splice \<Rightarrow> 'c splice \<Rightarrow> bool" where
  "goes_first = (\<lambda>(a, b, t) (a', b', t'). a < a' \<or> a = b \<and> a = a')"

function rebase_walk :: "'c splice list \<Rightarrow> 'c splice list \<Rightarrow> (bool \<times> 'c splice) list" where
  "rebase_walk [] bs = map (Pair True) bs"
| "rebase_walk (x # xs) [] = map (Pair False) (x # xs)"
| "rebase_walk (x # xs) (b # bs) =
     (if goes_first x b then (False, x) # rebase_walk xs (b # bs) else (True, b) # rebase_walk (x # xs) bs)"
  by pat_completeness auto
termination by (relation "measure (\<lambda>(xs, bs). length xs + length bs)") auto

function conflict_free :: "'c splice list \<Rightarrow> 'c splice list \<Rightarrow> bool" where
  "conflict_free [] bs \<longleftrightarrow> True"
| "conflict_free (x # xs) [] \<longleftrightarrow> True"
| "conflict_free (x # xs) (b # bs) \<longleftrightarrow>
     \<not> conflict x b \<and> (if goes_first x b then conflict_free xs (b # bs) else conflict_free (x # xs) bs)"
  by pat_completeness auto
termination by (relation "measure (\<lambda>(xs, bs). length xs + length bs)") auto

lemma conflict_sym: "conflict x y \<longleftrightarrow> conflict y x"
  by (cases x; cases y) (auto simp: conflict_def)

lemma goes_first_flip:
  "\<not> conflict x y \<Longrightarrow> fst x \<le> fst (snd x) \<Longrightarrow> fst y \<le> fst (snd y) \<Longrightarrow> goes_first y x \<longleftrightarrow> \<not> goes_first x y"
  by (cases x; cases y) (auto simp: conflict_def goes_first_def)

lemma goes_first_ends:
  "\<not> conflict x y \<Longrightarrow> fst x \<le> fst (snd x) \<Longrightarrow> fst y \<le> fst (snd y) \<Longrightarrow> goes_first x y \<Longrightarrow> fst (snd x) \<le> fst y"
  by (cases x; cases y) (auto simp: conflict_def goes_first_def)

lemma rebase_walk_Nil2 [simp]: "rebase_walk xs [] = map (Pair False) xs"
  by (cases xs) auto

lemma conflict_free_Nil2 [simp]: "conflict_free xs []"
  by (cases xs) auto

lemma marked_walk: "marked (rebase_walk xs bs) = bs"
  by (induction xs bs rule: rebase_walk.induct) (auto simp: marked_def filter_map o_def)

lemma walk_flip:
  "conflict_free xs bs \<Longrightarrow> fits p n xs \<Longrightarrow> fits q n bs \<Longrightarrow>
   conflict_free bs xs \<and> rebase_walk bs xs = map (\<lambda>(k, e). (\<not> k, e)) (rebase_walk xs bs)"
proof (induction xs bs arbitrary: p q rule: rebase_walk.induct)
  case (3 x xs b bs)
  obtain a1 a2 t where x: "x = (a1, a2, t)" by (cases x)
  obtain b1 b2 u where b: "b = (b1, b2, u)" by (cases b)
  have nc: "\<not> conflict x b" "\<not> conflict b x" using "3.prems"(1) conflict_sym [of x b] by auto
  have flip: "goes_first b x \<longleftrightarrow> \<not> goes_first x b"
    using "3.prems"(2,3) nc by (intro goes_first_flip) (auto simp: x b)
  show ?case
  proof (cases "goes_first x b")
    case True
    from "3.prems"(2) x have "fits a2 n xs" by simp
    from "3.IH"(1) [OF True _ this "3.prems"(3)] "3.prems"(1) True flip nc show ?thesis by simp
  next
    case False
    from "3.prems"(3) b have "fits b2 n bs" by simp
    from "3.IH"(2) [OF False _ "3.prems"(2) this] "3.prems"(1) False flip nc show ?thesis by simp
  qed
qed (auto simp: o_def)

lemma walk_fits:
  "conflict_free xs bs \<Longrightarrow> fits p n xs \<Longrightarrow> fits p n bs \<Longrightarrow> fits p n (map snd (rebase_walk xs bs))"
proof (induction xs bs arbitrary: p rule: rebase_walk.induct)
  case (3 x xs b bs)
  obtain a1 a2 t where x: "x = (a1, a2, t)" by (cases x)
  obtain b1 b2 u where b: "b = (b1, b2, u)" by (cases b)
  have nc: "\<not> conflict x b" "\<not> conflict b x" using "3.prems"(1) conflict_sym [of x b] by auto
  have w: "a1 \<le> a2" "b1 \<le> b2" using "3.prems"(2,3) by (auto simp: x b)
  show ?case
  proof (cases "goes_first x b")
    case True
    have "a2 \<le> b1" using goes_first_ends [OF nc(1) _ _ True] w by (simp add: x b)
    with "3.IH"(1) [OF True, of a2] "3.prems" True show ?thesis by (simp add: x b)
  next
    case False
    then have "goes_first b x" using goes_first_flip [OF nc(1)] w by (simp add: x b)
    then have "b2 \<le> a1" using goes_first_ends [OF nc(2)] w by (simp add: x b)
    with "3.IH"(2) [OF False, of b2] "3.prems" False show ?thesis by (simp add: x b)
  qed
qed (auto simp: o_def)

lemma string_conflict:
  "conflict (view newText x) (view newText y) \<longleftrightarrow>
     OffsetRange_intersects (replaceRange x) (replaceRange y)
     \<or> areConcurrentInserts (replaceRange x) (replaceRange y)
     \<or> isInsertStrictlyInsideRange (replaceRange x) (replaceRange y)
     \<or> isInsertStrictlyInsideRange (replaceRange y) (replaceRange x)"
  by (auto simp: conflict_def view_def OffsetRange_intersects_def areConcurrentInserts_def
      isInsertStrictlyInsideRange_def OffsetRange_isEmpty_def Let_def)

lemma string_goes_first:
  "goes_first (view newText x) (view newText y) \<longleftrightarrow>
     start (replaceRange x) < start (replaceRange y)
     \<or> OffsetRange_isEmpty (replaceRange x) \<and> start (replaceRange x) = start (replaceRange y)"
  by (simp add: goes_first_def view_def OffsetRange_isEmpty_def)

lemma splices_have_replacements: "\<exists>R :: StringReplacement list. SV R = es"
proof
  show "SV (map (\<lambda>(a, b, t). StringReplacement_new (OR a b) t) es) = es"
    by (induction es) (auto simp: view_def)
qed

lemma shifted_marked [simp]: "shifted d (map (Pair True) bs) = []"
  by (induction bs arbitrary: d) auto

lemma tryRebase_loop_correct:
  "\<forall>r \<in> set xs. or_wf (replaceRange r) \<Longrightarrow>
   \<exists>R. SV R = shifted d (rebase_walk (SV xs) (SV bs))
     \<and> tryRebase_loop True xs bs d acc = Inr (if conflict_free (SV xs) (SV bs) then Some (acc @ R) else None)"
proof (induction "True" xs bs d acc rule: tryRebase_loop.induct)
  case (2 x xs d acc)
  let ?x = "StringReplacement_new (OR (start (replaceRange x) + d) (endExclusive (replaceRange x) + d)) (newText x)"
  have delta: "OffsetRange_delta (replaceRange x) d = Inr (replaceRange ?x)"
    using 2 by (simp add: OffsetRange_delta_def or_wf_def)
  from "2.hyps" [OF delta] "2.prems" obtain R where
    "SV R = shifted d (rebase_walk (SV xs) [])" "tryRebase_loop True xs [] d (acc @ [?x]) = Inr (Some (acc @ ?x # R))"
    by auto
  with delta show ?case by (intro exI [of _ "?x # R"]) (simp add: view_def)
next
  case (3 x xs b bs d acc)
  show ?case
  proof (cases "conflict (view newText x) (view newText b)")
    case True
    then have "\<not> conflict_free (SV (x # xs)) (SV (b # bs))" by simp
    moreover have "tryRebase_loop True (x # xs) (b # bs) d acc = Inr None"
      using True unfolding string_conflict by simp
    moreover have "\<exists>R :: StringReplacement list. SV R = shifted d (rebase_walk (SV (x # xs)) (SV (b # bs)))"
      by (rule splices_have_replacements)
    ultimately show ?thesis by auto
  next
    case nc: False
    show ?thesis
    proof (cases "goes_first (view newText x) (view newText b)")
      case True
      let ?x = "StringReplacement_new (OR (start (replaceRange x) + d) (endExclusive (replaceRange x) + d)) (newText x)"
      have delta: "OffsetRange_delta (replaceRange x) d = Inr (replaceRange ?x)"
        using "3.prems" by (simp add: OffsetRange_delta_def or_wf_def)
      from "3.hyps"(2) [OF nc [unfolded string_conflict] True [unfolded string_goes_first] delta] "3.prems" obtain R where
        "SV R = shifted d (rebase_walk (SV xs) (SV (b # bs)))"
        "tryRebase_loop True xs (b # bs) d (acc @ [?x])
           = Inr (if conflict_free (SV xs) (SV (b # bs)) then Some ((acc @ [?x]) @ R) else None)"
        by auto
      with True nc delta nc [unfolded string_conflict] True [unfolded string_goes_first] show ?thesis
        by (intro exI [of _ "?x # R"]) (auto simp: view_def)
    next
      case False
      let ?d = "d + (int (length (newText b)) - OffsetRange_length (replaceRange b))"
      from "3.hyps"(3) [OF nc [unfolded string_conflict] False [unfolded string_goes_first]] "3.prems" obtain R where
        "SV R = shifted ?d (rebase_walk (SV (x # xs)) (SV bs))"
        "tryRebase_loop True (x # xs) bs ?d acc
           = Inr (if conflict_free (SV (x # xs)) (SV bs) then Some (acc @ R) else None)"
        by auto
      moreover have "shifted d (rebase_walk (SV (x # xs)) (SV (b # bs))) = shifted ?d (rebase_walk (SV (x # xs)) (SV bs))"
        using False by (simp add: view_def [of newText b] OffsetRange_length_def add_diff_eq)
      moreover have "tryRebase_loop True (x # xs) (b # bs) d acc = tryRebase_loop True (x # xs) bs ?d acc"
        by (simp only: tryRebase_loop.simps nc [unfolded string_conflict] False [unfolded string_goes_first] if_False)
      moreover have "conflict_free (SV (x # xs)) (SV (b # bs)) = conflict_free (SV (x # xs)) (SV bs)"
        using False nc by simp
      ultimately show ?thesis by (intro exI [of _ R]) (simp only:)
    qed
  qed
next
  case (1 bs d acc)
  show ?case by (intro exI [of _ "[]"]) (simp del: map_map)
qed

lemma fits_or_wf: "fits p n (SV rs) \<Longrightarrow> r \<in> set rs \<Longrightarrow> or_wf (replaceRange r)"
  by (induction rs arbitrary: p) (auto simp: or_wf_def)

lemma tryRebase_correct:
  fixes a b :: StringEdit
  assumes a: "sedit_fits (int (length s)) a" and b: "sedit_fits (int (length s)) b"
  defines "W \<equiv> rebase_walk (SV (replacements a)) (SV (replacements b))"
  shows "if conflict_free (SV (replacements a)) (SV (replacements b))
     then \<exists>a'. BaseStringEdit_tryRebase a b = Inr (Some a')
       \<and> sedit_fits (int (length (BaseStringEdit_apply b s))) a'
       \<and> BaseStringEdit_apply a' (BaseStringEdit_apply b s) = out 0 (map snd W) s
     else BaseStringEdit_tryRebase a b = Inr None"
proof -
  let ?m = "BaseStringEdit_apply b s"
  have "\<forall>r \<in> set (replacements a). or_wf (replaceRange r)"
    using a fits_or_wf by (auto simp: sedit_fits_def)
  from tryRebase_loop_correct [OF this, of 0 "replacements b" "[]"] obtain R where
    R: "SV R = shifted 0 W" "tryRebase_loop True (replacements a) (replacements b) 0 []
      = Inr (if conflict_free (SV (replacements a)) (SV (replacements b)) then Some R else None)"
    by (auto simp: W_def)
  have m: "?m = out 0 (marked W) s" unfolding W_def marked_walk by (rule apply_out [OF b])
  show ?thesis
  proof (cases "conflict_free (SV (replacements a)) (SV (replacements b))")
    case True
    have "fits 0 (int (length s)) (map snd W)"
      unfolding W_def using walk_fits [OF True] a b by (simp add: sedit_fits_def)
    from out_shifted [of 0 0 s W ?m, OF _ _ this] m
    have out: "out 0 (shifted 0 W) ?m = out 0 (map snd W) s \<and> fits 0 (int (length ?m)) (shifted 0 W)" by simp
    then have fits: "sedit_fits (int (length ?m)) \<lparr>replacements = R\<rparr>" by (simp add: sedit_fits_def R(1))
    have "BaseEdit_new R = Inr \<lparr>replacements = R\<rparr>"
      by (rule BaseEdit_new_fits [of 0 "int (length ?m)" newText]) (use out R(1) in simp_all)
    with fits out apply_out [OF fits, of ?m] R True show ?thesis
      by (simp add: BaseStringEdit_tryRebase_def BaseStringEdit_tryRebase0_def)
  next
    case False
    with R show ?thesis by (simp add: BaseStringEdit_tryRebase_def BaseStringEdit_tryRebase0_def)
  qed
qed

text \<open>C4. Rebasing converges: two edits of the same text either both refuse to be rebased on each other or
  both succeed, and then applying the first and the rebased second gives the same text as applying the
  second and the rebased first.\<close>

theorem StringEdit_tryRebase_converges:
  fixes a b :: StringEdit
  assumes a: "sedit_fits (int (length s)) a" and b: "sedit_fits (int (length s)) b"
  shows "(BaseStringEdit_tryRebase a b = Inr None \<and> BaseStringEdit_tryRebase b a = Inr None)
    \<or> (\<exists>a' b'. BaseStringEdit_tryRebase a b = Inr (Some a') \<and> BaseStringEdit_tryRebase b a = Inr (Some b')
        \<and> sedit_fits (int (length (BaseStringEdit_apply b s))) a'
        \<and> sedit_fits (int (length (BaseStringEdit_apply a s))) b'
        \<and> BaseStringEdit_apply a' (BaseStringEdit_apply b s) = BaseStringEdit_apply b' (BaseStringEdit_apply a s))"
proof -
  let ?a = "SV (replacements a)" and ?b = "SV (replacements b)"
  have fits: "fits 0 (int (length s)) ?a" "fits 0 (int (length s)) ?b"
    using a b by (simp_all add: sedit_fits_def)
  show ?thesis
  proof (cases "conflict_free ?a ?b")
    case True
    with walk_flip [OF True fits] have "conflict_free ?b ?a" "map snd (rebase_walk ?b ?a) = map snd (rebase_walk ?a ?b)"
      by (auto simp: case_prod_beta o_def)
    with True tryRebase_correct [OF a b] tryRebase_correct [OF b a] show ?thesis by auto
  next
    case False
    then have "\<not> conflict_free ?b ?a" using walk_flip [OF _ fits(2,1)] by blast
    with False tryRebase_correct [OF a b] tryRebase_correct [OF b a] show ?thesis by auto
  qed
qed

definition example_insert :: StringEdit where
  "example_insert = \<lparr>replacements = [StringReplacement_new (OR 3 3) [33]]\<rparr>"

theorem StringEdit_tryRebase_converges_witness:
  "\<exists>a' b'. BaseStringEdit_tryRebase example_edit1 example_insert = Inr (Some a')
     \<and> BaseStringEdit_tryRebase example_insert example_edit1 = Inr (Some b')
     \<and> BaseStringEdit_apply a' (BaseStringEdit_apply example_insert [97, 98, 99, 100, 101, 102])
       = BaseStringEdit_apply b' [97, 120, 121, 122, 100, 101, 102]"
proof -
  let ?s = "[97, 98, 99, 100, 101, 102] :: utf16"
  have "sedit_fits (int (length ?s)) example_edit1" "sedit_fits (int (length ?s)) example_insert"
    using example_edit1_facts(1) by (simp_all add: sedit_fits_def example_insert_def)
  moreover have "BaseStringEdit_tryRebase example_edit1 example_insert \<noteq> Inr None"
    by (simp add: BaseStringEdit_tryRebase_def BaseStringEdit_tryRebase0_def example_edit1_def example_insert_def
        OffsetRange_intersects_def areConcurrentInserts_def isInsertStrictlyInsideRange_def OffsetRange_isEmpty_def
        OffsetRange_delta_def OffsetRange_length_def BaseEdit_new_def)
  ultimately show ?thesis
    using StringEdit_tryRebase_converges [of ?s example_edit1 example_insert] example_edit1_facts(2) by auto
qed

subsection \<open>Decomposition\<close>

text \<open>\<open>decomposeSplit\<close> never throws; its first part holds exactly the chosen replacements, its second part fits
  the text after the first, and applying both parts one after the other has the effect of the whole edit.\<close>

theorem StringEdit_decomposeSplit_correct:
  fixes e :: StringEdit
  assumes fits: "sedit_fits (int (length s)) e"
  shows "\<exists>a b. BaseEdit_decomposeSplit StringReplacement_methods e f = Inr (a, b)
    \<and> replacements a = filter f (replacements e) \<and> sedit_fits (int (length s)) a
    \<and> sedit_fits (int (length (BaseStringEdit_apply a s))) b
    \<and> BaseStringEdit_apply b (BaseStringEdit_apply a s) = BaseStringEdit_apply e s"
proof -
  from se.decomposeSplit_correct [of s e f] fits obtain a b where
    ab: "BaseEdit_decomposeSplit StringReplacement_methods e f = Inr (a, b)"
      "replacements a = filter f (replacements e)" "fits 0 (int (length s)) (SV (replacements a))"
      "fits 0 (int (length (out 0 (SV (replacements a)) s))) (SV (replacements b))"
      "out 0 (SV (replacements b)) (out 0 (SV (replacements a)) s) = out 0 (SV (replacements e)) s"
    by (auto simp: sedit_fits_def)
  have fa: "sedit_fits (int (length s)) a" using ab(3) by (simp add: sedit_fits_def)
  note app_a = apply_out [OF fa, of s]
  have fb: "sedit_fits (int (length (BaseStringEdit_apply a s))) b" using ab(4) by (simp add: sedit_fits_def app_a)
  from ab fa fb app_a apply_out [OF fb, of "BaseStringEdit_apply a s"] apply_out [OF fits, of s]
  show ?thesis by auto
qed

theorem StringEdit_decomposeSplit_correct_witness:
  "\<exists>a b. BaseEdit_decomposeSplit StringReplacement_methods example_edit1 (\<lambda>r. newText r = []) = Inr (a, b)
    \<and> replacements a = [] \<and> BaseStringEdit_apply b (BaseStringEdit_apply a [97, 98, 99, 100, 101, 102])
      = [97, 120, 121, 122, 100, 101, 102]"
proof -
  have "sedit_fits (int (length [97, 98, 99, 100, 101, 102 :: 16 word])) example_edit1"
    using example_edit1_facts(1) by simp
  moreover have "filter (\<lambda>r. newText r = []) (replacements example_edit1) = []"
    by (simp add: example_edit1_def)
  ultimately show ?thesis
    using StringEdit_decomposeSplit_correct [of "[97, 98, 99, 100, 101, 102]" example_edit1 "\<lambda>r. newText r = []"]
      example_edit1_facts(2) by auto
qed

subsection \<open>Trimming common prefixes and suffixes\<close>

lemma commonPrefixLength_loop_spec:
  "i \<le> len \<Longrightarrow> len \<le> length a \<Longrightarrow> len \<le> length b \<Longrightarrow> take i a = take i b \<Longrightarrow>
   commonPrefixLength_loop a b len i \<le> len
   \<and> take (commonPrefixLength_loop a b len i) a = take (commonPrefixLength_loop a b len i) b"
proof (induction "len - i" arbitrary: i)
  case (Suc n)
  then have i: "i < len" "i < length a" "i < length b" by simp_all
  show ?case
  proof (cases "a ! i = b ! i")
    case True
    then have "take (Suc i) a = take (Suc i) b" using Suc.prems i by (simp add: take_Suc_conv_app_nth)
    with Suc.hyps(1) [of "Suc i"] Suc.hyps(2) Suc.prems i True show ?thesis
      by (simp add: commonPrefixLength_loop.simps [of a b len i])
  next
    case False
    with i Suc.prems show ?thesis by (simp add: commonPrefixLength_loop.simps [of a b len i])
  qed
qed (simp add: commonPrefixLength_loop.simps)

lemma commonPrefixLength_spec:
  "commonPrefixLength a b \<le> length a" "commonPrefixLength a b \<le> length b"
  "take (commonPrefixLength a b) a = take (commonPrefixLength a b) b"
  using commonPrefixLength_loop_spec [of 0 "min (length a) (length b)" a b]
  by (auto simp: commonPrefixLength_def)

lemma commonSuffixLength_loop_rev:
  "len \<le> length a \<Longrightarrow> len \<le> length b \<Longrightarrow>
   commonSuffixLength_loop a b len i = commonPrefixLength_loop (rev a) (rev b) len i"
proof (induction "len - i" arbitrary: i)
  case (Suc n)
  then show ?case
    by (simp add: commonPrefixLength_loop.simps [of "rev a" "rev b" len i] commonSuffixLength_loop.simps [of a b len i]
        rev_nth)
qed (simp add: commonPrefixLength_loop.simps commonSuffixLength_loop.simps)

lemma commonSuffixLength_spec:
  "commonSuffixLength a b \<le> length a" "commonSuffixLength a b \<le> length b"
  "j \<le> commonSuffixLength a b \<Longrightarrow> drop (length a - j) a = drop (length b - j) b"
proof -
  have eq: "commonSuffixLength a b = commonPrefixLength (rev a) (rev b)"
    by (simp add: commonSuffixLength_def commonPrefixLength_def commonSuffixLength_loop_rev)
  show "commonSuffixLength a b \<le> length a" "commonSuffixLength a b \<le> length b"
    using commonPrefixLength_spec(1,2) [of "rev a" "rev b"] by (simp_all add: eq)
  assume "j \<le> commonSuffixLength a b"
  then have "take j (rev a) = take j (rev b)"
    using commonPrefixLength_spec(3) [of "rev a" "rev b"] unfolding eq by (metis min.absorb1 take_take)
  then show "drop (length a - j) a = drop (length b - j) b" by (simp add: take_rev)
qed

text \<open>Trimming \<open>k\<close> equal characters at the front and \<open>j\<close> at the back of a splice changes nothing.\<close>

lemma trim_out:
  assumes p: "0 \<le> p" "p \<le> a" "a \<le> b" and fits: "fits b (int (length s)) es"
    and old: "old = js_substring s a b" and kj: "k + j \<le> length old" "k + j \<le> length t"
    and pre: "take k old = take k t" and suf: "drop (length old - j) old = drop (length t - j) t"
  shows "out p ((a + int k, b - int j, take (length t - j - k) (drop k t)) # es) s = out p ((a, b, t) # es) s"
    and "a + int k \<le> b - int j"
proof -
  have bn: "b \<le> int (length s)" by (rule fits_le [OF fits])
  have lo: "int (length old) = b - a" using p bn by (simp add: old length_js_substring)
  have od: "old = take (nat (b - a)) (drop (nat a) s)" unfolding old using p by (intro js_substring_eq) simp_all
  show "a + int k \<le> b - int j" using kj(1) lo by simp
  have "take (nat (a + int k - p)) (drop (nat p) s)
      = take (nat (a - p)) (drop (nat p) s) @ take k (drop (nat (a - p)) (drop (nat p) s))"
    using p by (simp add: nat_add_distrib take_add diff_add_eq [symmetric])
  also have "drop (nat (a - p)) (drop (nat p) s) = drop (nat a) s"
    using drop_nat_le [of p a s] p by simp
  also have "take k (drop (nat a) s) = take k old"
  proof -
    have "k \<le> nat (b - a)" using kj(1) lo by linarith
    then show ?thesis unfolding od take_take by (simp add: min_absorb1)
  qed
  finally have 1: "take (nat (a + int k - p)) (drop (nat p) s) = take (nat (a - p)) (drop (nat p) s) @ take k t"
    using pre by simp
  have bj: "0 \<le> b - int j" "a \<le> b - int j" using kj(1) lo p by simp_all
  have "out (b - int j) es s = take (nat (b - (b - int j))) (drop (nat (b - int j)) s) @ out b es s"
    using bj fits by (intro out_skip) simp_all
  also have "take (nat (b - (b - int j))) (drop (nat (b - int j)) s) = drop (length old - j) old"
  proof -
    have "drop (nat (b - int j)) s = drop (nat (b - int j - a)) (drop (nat a) s)"
      using drop_nat_le [of a "b - int j" s] bj p by simp
    moreover have "nat (b - int j - a) = length old - j" "nat (b - a) = length old" using lo kj by simp_all
    ultimately show ?thesis unfolding od using kj(1) lo by (simp add: drop_take)
  qed
  finally have 2: "out (b - int j) es s = drop (length t - j) t @ out b es s" using suf by simp
  have "take k t @ take (length t - j - k) (drop k t) = take (length t - j) t"
    using kj(2) take_add [of k "length t - j - k" t] by simp
  then have "take k t @ take (length t - j - k) (drop k t) @ drop (length t - j) t = t"
    by (metis append.assoc append_take_drop_id)
  with 1 2 show "out p ((a + int k, b - int j, take (length t - j - k) (drop k t)) # es) s = out p ((a, b, t) # es) s"
    by simp
qed

definition trims :: "utf16 \<Rightarrow> 'x StringReplacement_scheme \<Rightarrow> 'y StringReplacement_scheme \<Rightarrow> bool" where
  "trims s r r' \<longleftrightarrow> start (replaceRange r) \<le> start (replaceRange r')
     \<and> start (replaceRange r') \<le> endExclusive (replaceRange r') \<and> endExclusive (replaceRange r') \<le> endExclusive (replaceRange r)
     \<and> (\<forall>p es. 0 \<le> p \<longrightarrow> p \<le> start (replaceRange r) \<longrightarrow> fits (endExclusive (replaceRange r)) (int (length s)) es
          \<longrightarrow> out p (view newText r' # es) s = out p (view newText r # es) s)"

lemma trims_out:
  "trims s r r' \<Longrightarrow> 0 \<le> p \<Longrightarrow> p \<le> start (replaceRange r) \<Longrightarrow>
   fits (endExclusive (replaceRange r)) (int (length s)) es \<Longrightarrow>
   out p (view newText r' # es) s = out p (view newText r # es) s"
  unfolding trims_def by blast

lemma trims_trans:
  assumes ab: "trims s a b" and bc: "trims s b c"
  shows "trims s a c"
proof -
  have le: "start (replaceRange a) \<le> start (replaceRange b)" "endExclusive (replaceRange b) \<le> endExclusive (replaceRange a)"
    using ab by (simp_all add: trims_def)
  have "out p (view newText c # es) s = out p (view newText a # es) s"
    if "0 \<le> p" "p \<le> start (replaceRange a)" "fits (endExclusive (replaceRange a)) (int (length s)) es" for p es
    using trims_out [OF ab that] trims_out [OF bc that(1) order_trans [OF that(2) le(1)] fits_mono [OF that(3) le(2)]]
    by (rule trans [rotated])
  with ab bc show ?thesis by (simp add: trims_def)
qed

lemma trims_refl: "or_wf (replaceRange r) \<Longrightarrow> trims s r r"
  by (simp add: trims_def or_wf_def)

lemma trimsI:
  assumes "0 \<le> start (replaceRange r)" "or_wf (replaceRange r)" "endExclusive (replaceRange r) \<le> int (length s)"
    and old: "old = OffsetRange_substring (replaceRange r) s"
    and kj: "k + j \<le> length old" "k + j \<le> length (newText r)"
    and eq: "take k old = take k (newText r)" "drop (length old - j) old = drop (length (newText r) - j) (newText r)"
    and r': "replaceRange r' = OR (start (replaceRange r) + int k) (endExclusive (replaceRange r) - int j)"
      "newText r' = take (length (newText r) - j - k) (drop k (newText r))"
  shows "trims s r r'"
proof -
  have w: "start (replaceRange r) \<le> endExclusive (replaceRange r)" using assms(2) by (simp add: or_wf_def)
  have old': "old = js_substring s (start (replaceRange r)) (endExclusive (replaceRange r))"
    using old by (simp add: OffsetRange_substring_def)
  note trim = trim_out [OF _ _ w _ old' kj eq]
  have "start (replaceRange r) + int k \<le> endExclusive (replaceRange r) - int j"
    using trim(2) [of "start (replaceRange r)" "[]"] assms(1,3) by simp
  moreover have "out p (view newText r' # es) s = out p (view newText r # es) s"
    if "0 \<le> p" "p \<le> start (replaceRange r)" "fits (endExclusive (replaceRange r)) (int (length s)) es" for p es
    using trim(1) [OF that] r' by (simp add: view_def)
  ultimately show ?thesis by (simp add: trims_def r')
qed

lemma removeCommonPrefix_trims:
  assumes r: "0 \<le> start (replaceRange r)" "or_wf (replaceRange r)" "endExclusive (replaceRange r) \<le> int (length s)"
  shows "\<exists>r'. BaseStringReplacement_removeCommonPrefix StringReplacement_methods r s = Inr r' \<and> trims s r r'"
proof -
  define old where "old = OffsetRange_substring (replaceRange r) s"
  define k where "k = commonPrefixLength old (newText r)"
  have k: "k \<le> length old" "k \<le> length (newText r)" "take k old = take k (newText r)"
    unfolding k_def by (rule commonPrefixLength_spec)+
  have lo: "int (length old) = endExclusive (replaceRange r) - start (replaceRange r)"
    using r by (simp add: old_def OffsetRange_substring_def length_js_substring or_wf_def)
  define r' where "r' = sliceRepl StringReplacement_methods r (OR (start (replaceRange r) + int k) (endExclusive (replaceRange r)))
    (Some (OR (int k) (int (length (newText r)))))"
  have r': "replaceRange r' = OR (start (replaceRange r) + int k) (endExclusive (replaceRange r) - int 0)"
    "newText r' = take (length (newText r) - 0 - k) (drop k (newText r))"
    using k(2) se.slice_txt [where r = r and a = "int k" and b = "int (length (newText r))"] by (simp_all add: r'_def se.slice_range)
  have "trims s r r'" by (rule trimsI [OF r old_def _ _ k(3) _ r']) (use k in simp_all)
  moreover have "BaseStringReplacement_removeCommonPrefix StringReplacement_methods r s = Inr (if k = 0 then r else r')"
    using k lo by (simp add: BaseStringReplacement_removeCommonPrefix_def Let_def old_def [symmetric] k_def [symmetric]
        OffsetRange_deltaStart_def r'_def)
  ultimately show ?thesis using trims_refl [OF r(2)] by simp
qed

lemma removeCommonSuffix_trims:
  assumes r: "0 \<le> start (replaceRange r)" "or_wf (replaceRange r)" "endExclusive (replaceRange r) \<le> int (length s)"
  shows "\<exists>r'. BaseStringReplacement_removeCommonSuffix StringReplacement_methods r s = Inr r' \<and> trims s r r'"
proof -
  define old where "old = OffsetRange_substring (replaceRange r) s"
  define j where "j = commonSuffixLength old (newText r)"
  have j: "j \<le> length old" "j \<le> length (newText r)"
    "drop (length old - j) old = drop (length (newText r) - j) (newText r)"
    unfolding j_def by (rule commonSuffixLength_spec order_refl)+
  have lo: "int (length old) = endExclusive (replaceRange r) - start (replaceRange r)"
    using r by (simp add: old_def OffsetRange_substring_def length_js_substring or_wf_def)
  define r' where "r' = sliceRepl StringReplacement_methods r (OR (start (replaceRange r)) (endExclusive (replaceRange r) - int j))
    (Some (OR 0 (int (length (newText r)) - int j)))"
  have r': "replaceRange r' = OR (start (replaceRange r) + int 0) (endExclusive (replaceRange r) - int j)"
    "newText r' = take (length (newText r) - j - 0) (drop 0 (newText r))"
    using j(2) se.slice_txt [where r = r and a = 0 and b = "int (length (newText r)) - int j"]
    by (simp_all add: r'_def se.slice_range nat_diff_distrib')
  have "trims s r r'" by (rule trimsI [OF r old_def _ _ _ j(3) r']) (use j in simp_all)
  moreover have "BaseStringReplacement_removeCommonSuffix StringReplacement_methods r s = Inr (if j = 0 then r else r')"
    using j lo by (simp add: BaseStringReplacement_removeCommonSuffix_def Let_def old_def [symmetric] j_def [symmetric]
        OffsetRange_deltaEnd_def r'_def)
  ultimately show ?thesis using trims_refl [OF r(2)] by simp
qed

lemma removeCommonSuffixAndPrefix_trims:
  assumes r: "0 \<le> start (replaceRange r)" "or_wf (replaceRange r)" "endExclusive (replaceRange r) \<le> int (length s)"
  shows "\<exists>r'. BaseStringReplacement_removeCommonSuffixAndPrefix StringReplacement_methods s r = Inr r' \<and> trims s r r'"
proof -
  from removeCommonSuffix_trims [OF r] obtain r1 where
    1: "BaseStringReplacement_removeCommonSuffix StringReplacement_methods r s = Inr r1" "trims s r r1" by blast
  have "0 \<le> start (replaceRange r1)" "or_wf (replaceRange r1)" "endExclusive (replaceRange r1) \<le> int (length s)"
    using 1(2) r by (auto simp: trims_def or_wf_def)
  from removeCommonPrefix_trims [OF this] 1 trims_trans [OF 1(2)] show ?thesis
    by (auto simp: BaseStringReplacement_removeCommonSuffixAndPrefix_def)
qed

lemma removeCommonSuffixPrefix_trims:
  fixes r :: StringReplacement
  assumes r: "0 \<le> start (replaceRange r)" "or_wf (replaceRange r)" "endExclusive (replaceRange r) \<le> int (length s)"
  shows "\<exists>r'. BaseStringReplacement_removeCommonSuffixPrefix r s = Inr r' \<and> trims s r r'"
proof -
  define old where "old = OffsetRange_substring (replaceRange r) s"
  define k where "k = commonPrefixLength old (newText r)"
  define j where "j = min (length old - k) (min (length (newText r) - k) (commonSuffixLength old (newText r)))"
  have k: "k \<le> length old" "k \<le> length (newText r)" "take k old = take k (newText r)"
    unfolding k_def by (rule commonPrefixLength_spec)+
  have j: "k + j \<le> length old" "k + j \<le> length (newText r)" using k by (auto simp: j_def)
  have "j \<le> commonSuffixLength old (newText r)" by (simp add: j_def)
  then have suf: "drop (length old - j) old = drop (length (newText r) - j) (newText r)"
    by (rule commonSuffixLength_spec(3))
  have lo: "int (length old) = endExclusive (replaceRange r) - start (replaceRange r)"
    using r by (simp add: old_def OffsetRange_substring_def length_js_substring or_wf_def)
  have old: "js_substring s (start (replaceRange r)) (endExclusive (replaceRange r)) = old"
    by (simp add: old_def OffsetRange_substring_def)
  define r' where "r' = StringReplacement_new (OR (start (replaceRange r) + int k) (endExclusive (replaceRange r) - int j))
    (js_substring (newText r) (int k) (int (length (newText r)) - int j))"
  have "nat (int (length (newText r)) - int j - int k) = length (newText r) - j - k" by simp
  then have r': "replaceRange r' = OR (start (replaceRange r) + int k) (endExclusive (replaceRange r) - int j)"
    "newText r' = take (length (newText r) - j - k) (drop k (newText r))"
    using j by (simp_all add: r'_def js_substring_eq)
  have "trims s r r'" by (rule trimsI [OF r old_def j k(3) suf r'])
  moreover have "BaseStringReplacement_removeCommonSuffixPrefix r s = Inr r'"
    using j lo unfolding BaseStringReplacement_removeCommonSuffixPrefix_def Let_def old
    unfolding k_def [symmetric] unfolding j_def [symmetric] by (simp add: r'_def)
  ultimately show ?thesis by blast
qed

lemma removeCommonSuffixPrefix_loop_correct:
  fixes rs :: "StringReplacement list"
  shows "0 \<le> p \<Longrightarrow> fits p (int (length s)) (SV rs) \<Longrightarrow>
   \<exists>N. removeCommonSuffixPrefix_loop rs s = Inr N \<and> fits p (int (length s)) (SV N)
     \<and> out p (SV N) s = out p (SV rs) s"
proof (induction rs arbitrary: p)
  case (Cons r rs)
  let ?b = "endExclusive (replaceRange r)"
  have r: "p \<le> start (replaceRange r)" "start (replaceRange r) \<le> ?b" and tail: "fits ?b (int (length s)) (SV rs)"
    using Cons.prems by auto
  have bn: "?b \<le> int (length s)" by (rule fits_le [OF tail])
  from removeCommonSuffixPrefix_trims [of r s] r bn Cons.prems(1) obtain r' where
    r': "BaseStringReplacement_removeCommonSuffixPrefix r s = Inr r'" "trims s r r'" by (auto simp: or_wf_def)
  have b0: "0 \<le> ?b" using r Cons.prems(1) by simp
  from Cons.IH [OF b0 tail] obtain N where
    N: "removeCommonSuffixPrefix_loop rs s = Inr N" "fits ?b (int (length s)) (SV N)"
      "out ?b (SV N) s = out ?b (SV rs) s" by blast
  have t: "start (replaceRange r) \<le> start (replaceRange r')" "start (replaceRange r') \<le> endExclusive (replaceRange r')"
    "endExclusive (replaceRange r') \<le> ?b"
    and out: "out p (view newText r' # SV N) s = out p (view newText r # SV N) s"
    using r'(2) N(2) r Cons.prems(1) by (auto simp: trims_def)
  have fits: "fits p (int (length s)) (SV (r' # N))"
    using t r N(2) by (auto intro: fits_mono)
  have eq: "out p (SV (r' # N)) s = out p (SV (r # rs)) s" using out N(3) by simp
  show ?case
  proof (cases "BaseReplacement_isEmpty StringReplacement_methods r'")
    case True
    then have e: "newText r' = []" "endExclusive (replaceRange r') = start (replaceRange r')"
      by (simp_all add: se.isEmpty_iff)
    then have "out p (SV (r' # N)) s = out p (SV N) s"
      using out_empty_splice [OF Cons.prems(1), of s "start (replaceRange r')" "SV N"] fits by (simp add: view_def)
    moreover have "fits p (int (length s)) (SV N)" using N(2) r by (auto intro: fits_mono)
    ultimately show ?thesis using r'(1) N(1) True eq by simp
  next
    case False
    with r'(1) N(1) eq fits show ?thesis by (intro exI [of _ "r' # N"]) simp
  qed
qed simp



subsection \<open>Sequential replacements\<close>

fun seq_fits :: "utf16 \<Rightarrow> StringReplacement list \<Rightarrow> bool" where
  "seq_fits s [] \<longleftrightarrow> True"
| "seq_fits s (r # rs) \<longleftrightarrow> 0 \<le> start (replaceRange r) \<and> start (replaceRange r) \<le> endExclusive (replaceRange r)
     \<and> endExclusive (replaceRange r) \<le> int (length s) \<and> seq_fits (BaseStringReplacement_replace r s) rs"

lemma create_fits: "fits 0 n (SV rs) \<Longrightarrow> StringEdit_create rs = Inr \<lparr>replacements = rs\<rparr>"
  using BaseEdit_new_fits [of 0 n newText rs] by (simp add: StringEdit_create_def)

lemma composeSequential_loop_correct:
  assumes "sedit_fits (int (length s)) edit" and "t = BaseStringEdit_apply edit s"
    and "fits 0 (int (length t)) (SV (rev cur))" and "u = out 0 (SV (rev cur)) t" and "seq_fits u rs"
  shows "\<exists>c. composeSequential_loop rs edit cur = Inr c \<and> sedit_fits (int (length s)) c
     \<and> BaseStringEdit_apply c s = foldl (\<lambda>x r. BaseStringReplacement_replace r x) u rs"
  using assms
proof (induction rs arbitrary: edit t cur u)
  case Nil
  have f: "sedit_fits (int (length (BaseStringEdit_apply edit s))) \<lparr>replacements = rev cur\<rparr>"
    using Nil.prems(2,3) by (simp add: sedit_fits_def)
  from string_compose [OF Nil.prems(1) f] apply_out [OF f, of t] Nil.prems(2,4) create_fits [OF Nil.prems(3)]
  show ?case by auto
next
  case (Cons r rs)
  let ?a = "start (replaceRange r)" and ?b = "endExclusive (replaceRange r)"
  have r: "0 \<le> ?a" "?a \<le> ?b" "?b \<le> int (length u)" and seq: "seq_fits (BaseStringReplacement_replace r u) rs"
    using Cons.prems(5) by auto
  have rep: "BaseStringReplacement_replace r x = take (nat ?a) x @ newText r @ drop (nat ?b) x" for x
    using r by (simp add: BaseStringReplacement_replace_def js_substring_eq js_substring_from_eq)
  show ?case
  proof (cases "cur = [] \<or> OffsetRange_isBefore (replaceRange r) (replaceRange (last cur))")
    case True
    have fb: "fits ?b (int (length t)) (SV (rev cur))"
    proof (rule fits_raise [OF Cons.prems(3)])
      show "?b \<le> int (length t)" if "SV (rev cur) = []" using that r(3) Cons.prems(4) by simp
      show "?b \<le> fst (hd (SV (rev cur)))" if "SV (rev cur) \<noteq> []"
        using that True by (auto simp: OffsetRange_isBefore_def hd_map hd_rev)
    qed
    have fa: "fits ?a (int (length t)) (SV (rev cur))" using fb r(2) by (rule fits_mono)
    have "out 0 (SV (rev (cur @ [r]))) t = BaseStringReplacement_replace r u"
      using take_out(1) [of 0 ?a t "SV (rev cur)"] take_out(2) [of 0 ?b t "SV (rev cur)"] fa fb r Cons.prems(4)
      by (simp add: rep)
    moreover have "fits 0 (int (length t)) (SV (rev (cur @ [r])))" using fb r by simp
    ultimately show ?thesis
      using Cons.IH [OF Cons.prems(1,2), of "cur @ [r]"] seq True by simp
  next
    case False
    have f: "sedit_fits (int (length (BaseStringEdit_apply edit s))) \<lparr>replacements = rev cur\<rparr>"
      using Cons.prems(2,3) by (simp add: sedit_fits_def)
    from string_compose [OF Cons.prems(1) f] obtain c where
      c: "BaseEdit_compose StringReplacement_methods edit \<lparr>replacements = rev cur\<rparr> = Inr c"
        "sedit_fits (int (length s)) c" "BaseStringEdit_apply c s = u"
      using apply_out [OF f, of t] Cons.prems(2,4) by auto
    have "composeSequential_loop (r # rs) edit cur = composeSequential_loop rs c [r]"
      using False c(1) create_fits [OF Cons.prems(3)] by simp
    moreover have "fits 0 (int (length u)) (SV (rev [r]))" using r by simp
    moreover have "out 0 (SV (rev [r])) u = BaseStringReplacement_replace r u" by (simp add: rep)
    ultimately show ?thesis
      using Cons.IH [OF c(2) c(3) [symmetric], of "[r]"] seq by simp
  qed
qed

text \<open>C32. \<open>composeSequentialReplacements\<close> never throws on replacements that are each inside the text they are
  applied to, and its edit has the effect of replacing one after the other.\<close>

theorem StringEdit_composeSequentialReplacements_correct:
  assumes "seq_fits s rs"
  shows "\<exists>c. StringEdit_composeSequentialReplacements rs = Inr c \<and> sedit_fits (int (length s)) c
    \<and> BaseStringEdit_apply c s = foldl (\<lambda>x r. BaseStringReplacement_replace r x) s rs"
proof -
  have f: "sedit_fits (int (length s)) (\<lparr>replacements = []\<rparr> :: StringEdit)" by (simp add: sedit_fits_def)
  have e: "StringEdit_empty = Inr \<lparr>replacements = []\<rparr>" by (simp add: StringEdit_empty_def BaseEdit_new_def)
  from composeSequential_loop_correct [OF f refl, of "[]" s rs] apply_out [OF f, of s] assms
  have "\<exists>c. composeSequential_loop rs \<lparr>replacements = []\<rparr> [] = Inr c \<and> sedit_fits (int (length s)) c
    \<and> BaseStringEdit_apply c s = foldl (\<lambda>x r. BaseStringReplacement_replace r x) s rs" by simp
  then show ?thesis unfolding StringEdit_composeSequentialReplacements_def e bindr_Inr .
qed

theorem StringEdit_composeSequentialReplacements_correct_witness:
  "\<exists>c. StringEdit_composeSequentialReplacements [StringReplacement_new (OR 1 2) [], StringReplacement_new (OR 1 1) [120]] = Inr c
     \<and> BaseStringEdit_apply c [97, 98, 99] = [97, 120, 99]"
proof -
  have "seq_fits [97, 98, 99] [StringReplacement_new (OR 1 2) [], StringReplacement_new (OR 1 1) [120]]"
    by (simp add: BaseStringReplacement_replace_def js_substring_eq js_substring_from_eq)
  from StringEdit_composeSequentialReplacements_correct [OF this] show ?thesis
    by (auto simp: BaseStringReplacement_replace_def js_substring_eq js_substring_from_eq)
qed

end
