(* ===== verification/Prefix_Sum.thy ===== *)
theory Prefix_Sum
  imports Prelude
begin

text \<open>
  Prefix sums: \<open>src/vs/editor/common/model/prefixSumComputer.ts\<close> with the coercions of
  \<open>src/vs/base/common/uint.ts\<close> and \<open>arrayInsert\<close> of \<open>src/vs/base/common/arrays.ts\<close>. \<open>PrefixSumComputer\<close>
  keeps its values and the lazily computed sums in 32-bit typed arrays; reads outside such an array
  are \<open>undefined\<close> (\<open>None\<close>), writes outside have no effect, and stores wrap. The binary search computes
  its middle without the coercion \<open>| 0\<close>, which is the identity on indices of arrays shorter than
  \<open>2 ^ 31\<close>. \<open>ConstantTimePrefixSumComputer\<close> keeps plain arrays, which grow on writes and may have holes
  (\<open>None\<close>).
\<close>

section \<open>Coercions to unsigned integers\<close>

definition MAX_UINT_8 :: int where "MAX_UINT_8 = 255"

definition MAX_UINT_32 :: int where "MAX_UINT_32 = 4294967295"

definition toUint8 :: "int \<Rightarrow> int" where
  "toUint8 v = (if v < 0 then 0 else if v > MAX_UINT_8 then MAX_UINT_8 else toInt32 v)"

definition toUint32 :: "int \<Rightarrow> int" where
  "toUint32 v = (if v < 0 then 0 else if v > MAX_UINT_32 then MAX_UINT_32 else toInt32 v)"

section \<open>Typed arrays of 32-bit unsigned integers\<close>

definition typed_new :: "int \<Rightarrow> 32 word list result" where
  "typed_new n = (if n < 0 then Inl RangeErr else Inr (replicate (nat n) 0))"

definition typed_get :: "32 word list \<Rightarrow> int \<Rightarrow> int option" where
  "typed_get xs i = (if 0 \<le> i \<and> i < int (length xs) then Some (uint (xs ! nat i)) else None)"

definition typed_put :: "32 word list \<Rightarrow> int \<Rightarrow> int \<Rightarrow> 32 word list" where
  "typed_put xs i v = (if 0 \<le> i \<and> i < int (length xs) then xs[nat i := word_of_int v] else xs)"

definition typed_set :: "32 word list \<Rightarrow> 32 word list \<Rightarrow> int \<Rightarrow> 32 word list result" where
  "typed_set target source offset =
     (if offset < 0 \<or> int (length source) + offset > int (length target) then Inl RangeErr
      else Inr (take (nat offset) target @ source @ drop (nat offset + length source) target))"

definition subarray :: "32 word list \<Rightarrow> int \<Rightarrow> int \<Rightarrow> 32 word list" where
  "subarray xs a b = js_slice xs a b"

definition subarray_from :: "32 word list \<Rightarrow> int \<Rightarrow> 32 word list" where
  "subarray_from xs a = drop (relIdx xs a) xs"

section \<open>\<open>PrefixSumComputer\<close>\<close>

record PrefixSumComputer =
  psValues :: "32 word list"
  prefixSum :: "32 word list"
  prefixSumValidIndex :: int

definition PrefixSumComputer_new :: "32 word list \<Rightarrow> PrefixSumComputer" where
  "PrefixSumComputer_new vs =
     \<lparr>psValues = vs, prefixSum = replicate (length vs) 0, prefixSumValidIndex = - 1\<rparr>"

definition PrefixSumComputer_getCount :: "PrefixSumComputer \<Rightarrow> int" where
  "PrefixSumComputer_getCount this = int (length (psValues this))"

text \<open>The part that both updates of the length share: lower the valid index and keep the valid sums.\<close>

definition invalidate_from :: "int \<Rightarrow> int \<Rightarrow> int" where
  "invalidate_from index valid = (if index - 1 < valid then toInt32 (index - 1) else valid)"

definition keep_sums :: "32 word list \<Rightarrow> int \<Rightarrow> int \<Rightarrow> 32 word list result" where
  "keep_sums oldPrefixSum valid n =
     bindr (typed_new n) (\<lambda>fresh.
       if valid \<ge> 0 then typed_set fresh (subarray oldPrefixSum 0 (valid + 1)) 0 else Inr fresh)"

definition PrefixSumComputer_insertValues ::
  "PrefixSumComputer \<Rightarrow> int \<Rightarrow> 32 word list \<Rightarrow> (bool \<times> PrefixSumComputer) result" where
  "PrefixSumComputer_insertValues this insertIndex0 insertVals =
     (let insertIndex = toUint32 insertIndex0;
          oldValues = psValues this;
          insertLen = int (length insertVals)
      in if insertLen = 0 then Inr (False, this)
         else bindr (typed_new (int (length oldValues) + insertLen)) (\<lambda>v0.
              bindr (typed_set v0 (subarray oldValues 0 insertIndex) 0) (\<lambda>v1.
              bindr (typed_set v1 (subarray_from oldValues insertIndex) (insertIndex + insertLen)) (\<lambda>v2.
              bindr (typed_set v2 insertVals insertIndex) (\<lambda>v3.
              let valid = invalidate_from insertIndex (prefixSumValidIndex this)
              in bindr (keep_sums (prefixSum this) valid (int (length v3))) (\<lambda>ps.
                 Inr (True, \<lparr>psValues = v3, prefixSum = ps, prefixSumValidIndex = valid\<rparr>)))))))"

definition PrefixSumComputer_setValue ::
  "PrefixSumComputer \<Rightarrow> int \<Rightarrow> int \<Rightarrow> bool \<times> PrefixSumComputer" where
  "PrefixSumComputer_setValue this index0 value0 =
     (let index = toUint32 index0; value = toUint32 value0
      in if typed_get (psValues this) index = Some value then (False, this)
         else (True, this\<lparr>psValues := typed_put (psValues this) index value,
                          prefixSumValidIndex := invalidate_from index (prefixSumValidIndex this)\<rparr>))"

definition PrefixSumComputer_removeValues ::
  "PrefixSumComputer \<Rightarrow> int \<Rightarrow> int \<Rightarrow> (bool \<times> PrefixSumComputer) result" where
  "PrefixSumComputer_removeValues this startIndex0 count0 =
     (let startIndex = toUint32 startIndex0; count1 = toUint32 count0; oldValues = psValues this
      in if startIndex \<ge> int (length oldValues) then Inr (False, this)
         else let maxCount = int (length oldValues) - startIndex;
                  count = (if count1 \<ge> maxCount then maxCount else count1)
              in if count = 0 then Inr (False, this)
                 else bindr (typed_new (int (length oldValues) - count)) (\<lambda>v0.
                      bindr (typed_set v0 (subarray oldValues 0 startIndex) 0) (\<lambda>v1.
                      bindr (typed_set v1 (subarray_from oldValues (startIndex + count)) startIndex) (\<lambda>v2.
                      let valid = invalidate_from startIndex (prefixSumValidIndex this)
                      in bindr (keep_sums (prefixSum this) valid (int (length v2))) (\<lambda>ps.
                         Inr (True, \<lparr>psValues = v2, prefixSum = ps, prefixSumValidIndex = valid\<rparr>))))))"

text \<open>The accumulation loop; a sum of two reads of which one is \<open>undefined\<close> is not a number and is stored
  as 0.\<close>

function getPrefixSum_loop :: "32 word list \<Rightarrow> int \<Rightarrow> int \<Rightarrow> 32 word list \<Rightarrow> 32 word list" where
  "getPrefixSum_loop vs i index ps =
     (if i \<le> index
      then getPrefixSum_loop vs (i + 1) index
             (typed_put ps i
                (case (typed_get ps (i - 1), typed_get vs i) of (Some a, Some b) \<Rightarrow> a + b | _ \<Rightarrow> 0))
      else ps)"
  by pat_completeness auto
termination by (relation "measure (\<lambda>(vs, i, index, ps). nat (index - i + 1))") auto

declare getPrefixSum_loop.simps [simp del]

definition PrefixSumComputer_getPrefixSum0 ::
  "PrefixSumComputer \<Rightarrow> int \<Rightarrow> int option \<times> PrefixSumComputer" where
  "PrefixSumComputer_getPrefixSum0 this index0 =
     (if index0 \<le> prefixSumValidIndex this then (typed_get (prefixSum this) index0, this)
      else let start0 = prefixSumValidIndex this + 1;
               ps0 = (if start0 = 0
                      then typed_put (prefixSum this) 0
                             (case typed_get (psValues this) 0 of None \<Rightarrow> 0 | Some v \<Rightarrow> v)
                      else prefixSum this);
               startIndex = (if start0 = 0 then start0 + 1 else start0);
               index = (if index0 \<ge> int (length (psValues this)) then int (length (psValues this)) - 1 else index0);
               ps = getPrefixSum_loop (psValues this) startIndex index ps0
           in (typed_get ps index,
               this\<lparr>prefixSum := ps, prefixSumValidIndex := max (prefixSumValidIndex this) index\<rparr>))"

definition PrefixSumComputer_getTotalSum :: "PrefixSumComputer \<Rightarrow> int option \<times> PrefixSumComputer" where
  "PrefixSumComputer_getTotalSum this =
     (if length (psValues this) = 0 then (Some 0, this)
      else PrefixSumComputer_getPrefixSum0 this (int (length (psValues this)) - 1))"

definition PrefixSumComputer_getPrefixSum ::
  "PrefixSumComputer \<Rightarrow> int \<Rightarrow> int option \<times> PrefixSumComputer" where
  "PrefixSumComputer_getPrefixSum this index =
     (if index < 0 then (Some 0, this) else PrefixSumComputer_getPrefixSum0 this (toUint32 index))"

record PrefixSumIndexOfResult =
  psIndex :: int
  remainder :: int

text \<open>The binary search, with the last \<open>mid\<close> and \<open>midStart\<close>. Inside the loop \<open>mid\<close> is an index of the
  arrays.\<close>

function getIndexOf_loop ::
  "32 word list \<Rightarrow> 32 word list \<Rightarrow> int \<Rightarrow> int \<Rightarrow> int \<Rightarrow> int \<Rightarrow> int \<Rightarrow> int \<times> int" where
  "getIndexOf_loop vs ps target low high mid midStart =
     (if low \<le> high
      then let mid' = (low + high) div 2;
               midStop = uint (ps ! nat mid');
               midStart' = midStop - uint (vs ! nat mid')
           in if target < midStart' then getIndexOf_loop vs ps target low (mid' - 1) mid' midStart'
              else if target \<ge> midStop then getIndexOf_loop vs ps target (mid' + 1) high mid' midStart'
              else (mid', midStart')
      else (mid, midStart))"
  by pat_completeness auto
termination
  by (relation "measure (\<lambda>(vs, ps, target, low, high, mid, midStart). nat (high - low + 1))") auto

declare getIndexOf_loop.simps [simp del]

definition PrefixSumComputer_getIndexOf ::
  "PrefixSumComputer \<Rightarrow> int \<Rightarrow> PrefixSumIndexOfResult \<times> PrefixSumComputer" where
  "PrefixSumComputer_getIndexOf this target =
     (let this' = snd (PrefixSumComputer_getTotalSum this);
          (mid, midStart) = getIndexOf_loop (psValues this') (prefixSum this') target 0
                              (int (length (psValues this')) - 1) 0 0
      in (\<lparr>psIndex = mid, remainder = target - midStart\<rparr>, this'))"

section \<open>\<open>ConstantTimePrefixSumComputer\<close>\<close>

definition array_get :: "'a option list \<Rightarrow> int \<Rightarrow> 'a option" where
  "array_get xs i = (if 0 \<le> i \<and> i < int (length xs) then xs ! nat i else None)"

definition array_put :: "'a option list \<Rightarrow> int \<Rightarrow> 'a option \<Rightarrow> 'a option list" where
  "array_put xs i v =
     (if i < 0 then xs
      else if i < int (length xs) then xs[nat i := v]
      else xs @ replicate (nat i - length xs) None @ [v])"

definition array_setLength :: "'a option list \<Rightarrow> nat \<Rightarrow> 'a option list" where
  "array_setLength xs n = take n xs @ replicate (n - length xs) None"

definition arrayInsert :: "'a list \<Rightarrow> int \<Rightarrow> 'a list \<Rightarrow> 'a list" where
  "arrayInsert target insertIndex insertArr =
     js_slice target 0 insertIndex @ insertArr @ drop (relIdx target insertIndex) target"

record ConstantTimePrefixSumComputer =
  ctValues :: "int list"
  ctIsValid :: bool
  ctValidEndIndex :: int
  ctPrefixSum :: "int option list"
  ctIndexBySum :: "int option list"

definition ConstantTimePrefixSumComputer_new :: "int list \<Rightarrow> ConstantTimePrefixSumComputer" where
  "ConstantTimePrefixSumComputer_new vs =
     \<lparr>ctValues = vs, ctIsValid = False, ctValidEndIndex = - 1, ctPrefixSum = [], ctIndexBySum = []\<rparr>"

fun ensureValid_run :: "int option list \<Rightarrow> int \<Rightarrow> nat \<Rightarrow> int \<Rightarrow> nat \<Rightarrow> int option list" where
  "ensureValid_run ibs sumAbove 0 i j = ibs"
| "ensureValid_run ibs sumAbove (Suc n) i j =
     ensureValid_run (array_put ibs (sumAbove + int j) (Some i)) sumAbove n i (j + 1)"

function ensureValid_loop ::
  "int list \<Rightarrow> int \<Rightarrow> int option list \<Rightarrow> int option list \<Rightarrow> int option list \<times> int option list" where
  "ensureValid_loop vs i ps ibs =
     (if i < int (length vs)
      then if i < 0 then ensureValid_loop vs (i + 1) ps ibs
           else let value = vs ! nat i;
                    sumAbove = (if i > 0 then array_get ps (i - 1) else Some 0)
                in ensureValid_loop vs (i + 1) (array_put ps i (map_option (\<lambda>a. a + value) sumAbove))
                     (case sumAbove of None \<Rightarrow> ibs | Some a \<Rightarrow> ensureValid_run ibs a (nat value) i 0)
      else (ps, ibs))"
  by pat_completeness auto
termination by (relation "measure (\<lambda>(vs, i, ps, ibs). nat (int (length vs) - i))") auto

declare ensureValid_loop.simps [simp del]

definition ConstantTimePrefixSumComputer_ensureValid ::
  "ConstantTimePrefixSumComputer \<Rightarrow> ConstantTimePrefixSumComputer result" where
  "ConstantTimePrefixSumComputer_ensureValid this =
     (if ctIsValid this then Inr this
      else let vs = ctValues this;
               (ps, ibs) = ensureValid_loop vs (ctValidEndIndex this + 1) (ctPrefixSum this) (ctIndexBySum this);
               ps' = array_setLength ps (length vs);
               len = (if length vs > 0 then array_get ps' (int (length vs) - 1) else Some 0)
           in case len of None \<Rightarrow> Inl RangeErr
              | Some n \<Rightarrow> if n < 0 then Inl RangeErr
                  else Inr \<lparr>ctValues = vs, ctIsValid = True, ctValidEndIndex = int (length vs) - 1,
                            ctPrefixSum = ps', ctIndexBySum = array_setLength ibs (nat n)\<rparr>)"

definition ConstantTimePrefixSumComputer_getTotalSum ::
  "ConstantTimePrefixSumComputer \<Rightarrow> (int \<times> ConstantTimePrefixSumComputer) result" where
  "ConstantTimePrefixSumComputer_getTotalSum this =
     bindr (ConstantTimePrefixSumComputer_ensureValid this) (\<lambda>t. Inr (int (length (ctIndexBySum t)), t))"

definition ConstantTimePrefixSumComputer_getPrefixSum ::
  "ConstantTimePrefixSumComputer \<Rightarrow> int \<Rightarrow> (int option \<times> ConstantTimePrefixSumComputer) result" where
  "ConstantTimePrefixSumComputer_getPrefixSum this count =
     bindr (ConstantTimePrefixSumComputer_ensureValid this) (\<lambda>t.
       Inr (if count = 0 then Some 0 else array_get (ctPrefixSum t) (count - 1), t))"

text \<open>An index with a remainder that is not a number (\<open>None\<close>) cannot occur on proper states; see the
  invariant below.\<close>

definition ConstantTimePrefixSumComputer_getIndexOf ::
  "ConstantTimePrefixSumComputer \<Rightarrow> int \<Rightarrow> ((int \<times> int option) \<times> ConstantTimePrefixSumComputer) result" where
  "ConstantTimePrefixSumComputer_getIndexOf this target =
     bindr (ConstantTimePrefixSumComputer_ensureValid this) (\<lambda>t.
       case array_get (ctIndexBySum t) target of
         None \<Rightarrow>
           let lastIdx = max 0 (int (length (ctValues t)) - 1);
               lastPrefixSum = (if lastIdx > 0 then array_get (ctPrefixSum t) (lastIdx - 1) else Some 0)
           in Inr ((lastIdx, map_option (\<lambda>p. target - p) lastPrefixSum), t)
       | Some idx \<Rightarrow>
           let viewLinesAbove = (if idx > 0 then array_get (ctPrefixSum t) (idx - 1) else Some 0)
           in Inr ((idx, map_option (\<lambda>p. target - p) viewLinesAbove), t))"

definition ConstantTimePrefixSumComputer_invalidate ::
  "ConstantTimePrefixSumComputer \<Rightarrow> int \<Rightarrow> ConstantTimePrefixSumComputer" where
  "ConstantTimePrefixSumComputer_invalidate this index =
     this\<lparr>ctIsValid := False, ctValidEndIndex := min (ctValidEndIndex this) (index - 1)\<rparr>"

definition ConstantTimePrefixSumComputer_removeValues ::
  "ConstantTimePrefixSumComputer \<Rightarrow> int \<Rightarrow> int \<Rightarrow> ConstantTimePrefixSumComputer" where
  "ConstantTimePrefixSumComputer_removeValues this start deleteCount =
     ConstantTimePrefixSumComputer_invalidate
       (this\<lparr>ctValues := js_splice (ctValues this) start deleteCount []\<rparr>) start"

definition ConstantTimePrefixSumComputer_insertValues ::
  "ConstantTimePrefixSumComputer \<Rightarrow> int \<Rightarrow> int list \<Rightarrow> ConstantTimePrefixSumComputer" where
  "ConstantTimePrefixSumComputer_insertValues this insertIndex insertArr =
     ConstantTimePrefixSumComputer_invalidate
       (this\<lparr>ctValues := arrayInsert (ctValues this) insertIndex insertArr\<rparr>) insertIndex"

text \<open>\<open>setValue\<close> is modelled for indices of the array.\<close>

definition ConstantTimePrefixSumComputer_setValue ::
  "ConstantTimePrefixSumComputer \<Rightarrow> nat \<Rightarrow> int \<Rightarrow> ConstantTimePrefixSumComputer" where
  "ConstantTimePrefixSumComputer_setValue this index v =
     (if index < length (ctValues this) \<and> ctValues this ! index = v then this
      else ConstantTimePrefixSumComputer_invalidate
             (this\<lparr>ctValues := (ctValues this)[index := v]\<rparr>) (int index))"

section \<open>Laws of \<open>PrefixSumComputer\<close>\<close>

lemma toUint32_id: "0 \<le> v \<Longrightarrow> v < 2147483648 \<Longrightarrow> toUint32 v = v"
  by (simp add: toUint32_def MAX_UINT_32_def toInt32_id int32_def)

text \<open>The coercion is not the identity on the upper half of the unsigned range: the result is negative.\<close>

lemma toUint32_negative:
  "2147483648 \<le> v \<Longrightarrow> v \<le> MAX_UINT_32 \<Longrightarrow> toUint32 v = v - 4294967296 \<and> toUint32 v < 0"
proof -
  assume v: "2147483648 \<le> v" "v \<le> MAX_UINT_32"
  have "word_of_int (v - 4294967296) = (word_of_int v :: 32 word)" by simp
  then have "toInt32 v = toInt32 (v - 4294967296)" unfolding toInt32_def by (simp only:)
  also have "\<dots> = v - 4294967296" using v by (intro toInt32_id) (simp add: int32_def MAX_UINT_32_def)
  finally show ?thesis using v by (simp add: toUint32_def MAX_UINT_32_def)
qed

lemma word_toUint32: "0 \<le> v \<Longrightarrow> v \<le> MAX_UINT_32 \<Longrightarrow> (word_of_int (toUint32 v) :: 32 word) = word_of_int v"
  by (simp add: toUint32_def toInt32_def)

text \<open>The sum of the first values, modulo \<open>2 ^ 32\<close>.\<close>

definition psum :: "32 word list \<Rightarrow> nat \<Rightarrow> 32 word" where
  "psum vs n = sum_list (take n vs)"

lemma psum_0 [simp]: "psum vs 0 = 0"
  by (simp add: psum_def)

lemma psum_Suc: "n < length vs \<Longrightarrow> psum vs (Suc n) = psum vs n + vs ! n"
  by (simp add: psum_def take_Suc_conv_app_nth)

definition ps_inv :: "PrefixSumComputer \<Rightarrow> bool" where
  "ps_inv s \<longleftrightarrow> length (prefixSum s) = length (psValues s) \<and> length (psValues s) < 2147483648
     \<and> - 1 \<le> prefixSumValidIndex s \<and> prefixSumValidIndex s < int (length (psValues s))
     \<and> (\<forall>k. int k \<le> prefixSumValidIndex s \<longrightarrow> prefixSum s ! k = psum (psValues s) (Suc k))"

lemma getPrefixSum_loop_correct:
  "1 \<le> i \<Longrightarrow> index < int (length vs) \<Longrightarrow> length ps = length vs \<Longrightarrow> \<forall>k. int k < i \<longrightarrow> ps ! k = psum vs (Suc k) \<Longrightarrow>
   length (getPrefixSum_loop vs i index ps) = length vs
   \<and> (\<forall>k. int k < i \<or> int k \<le> index \<longrightarrow> getPrefixSum_loop vs i index ps ! k = psum vs (Suc k))"
proof (induction "nat (index - i + 1)" arbitrary: i ps)
  case 0
  then show ?case by (auto simp: getPrefixSum_loop.simps [of vs i])
next
  case (Suc n)
  then have i: "i \<le> index" by simp
  define ps' where "ps' = typed_put ps i
      (case (typed_get ps (i - 1), typed_get vs i) of (Some a, Some b) \<Rightarrow> a + b | _ \<Rightarrow> 0)"
  have "ps ! nat (i - 1) = psum vs (nat i)"
    using Suc.prems(1,4) by (auto simp: Suc_nat_eq_nat_zadd1)
  then have ps': "ps' = ps[nat i := psum vs (Suc (nat i))]"
    using Suc.prems(1,2,3) i by (simp add: ps'_def typed_put_def typed_get_def psum_Suc nat_less_iff)
  have "\<forall>k. int k < i + 1 \<longrightarrow> ps' ! k = psum vs (Suc k)"
  proof (intro allI impI)
    fix k assume k: "int k < i + 1"
    show "ps' ! k = psum vs (Suc k)"
    proof (cases "k = nat i")
      case True
      have "nat i < length ps" using i Suc.prems(1,2,3) by (simp add: nat_less_iff)
      then show ?thesis using True by (simp add: ps')
    next
      case False
      then have "int k < i" using k by simp
      with False Suc.prems(4) show ?thesis by (simp add: ps')
    qed
  qed
  moreover have "getPrefixSum_loop vs i index ps = getPrefixSum_loop vs (i + 1) index ps'"
    using i by (simp add: getPrefixSum_loop.simps [of vs i] ps'_def)
  ultimately show ?case
    using Suc.hyps(1) [of "i + 1" ps'] Suc.hyps(2) Suc.prems i by (auto simp: ps')
qed

lemma getPrefixSum0_correct:
  assumes inv: "ps_inv s" and index: "0 \<le> index"
  shows "PrefixSumComputer_getPrefixSum0 s index =
      (if psValues s = [] then None else Some (uint (psum (psValues s) (Suc (nat index)))),
       snd (PrefixSumComputer_getPrefixSum0 s index))
    \<and> ps_inv (snd (PrefixSumComputer_getPrefixSum0 s index))
    \<and> psValues (snd (PrefixSumComputer_getPrefixSum0 s index)) = psValues s
    \<and> prefixSumValidIndex (snd (PrefixSumComputer_getPrefixSum0 s index))
        = max (prefixSumValidIndex s) (min index (int (length (psValues s)) - 1))"
proof -
  let ?vs = "psValues s" and ?v = "prefixSumValidIndex s"
  have len: "length (prefixSum s) = length ?vs" and v: "- 1 \<le> ?v" "?v < int (length ?vs)"
    and ok: "\<forall>k. int k \<le> ?v \<longrightarrow> prefixSum s ! k = psum ?vs (Suc k)"
    using inv by (auto simp: ps_inv_def)
  show ?thesis
  proof (cases "index \<le> ?v")
    case True
    then have "?vs \<noteq> []" using v index by auto
    then show ?thesis
      using True inv index len v ok by (simp add: PrefixSumComputer_getPrefixSum0_def typed_get_def)
  next
    case False
    define idx where "idx = (if index \<ge> int (length ?vs) then int (length ?vs) - 1 else index)"
    define ps0 where "ps0 = (if ?v + 1 = 0
      then typed_put (prefixSum s) 0 (case typed_get ?vs 0 of None \<Rightarrow> 0 | Some v \<Rightarrow> v) else prefixSum s)"
    define i where "i = (if ?v + 1 = 0 then ?v + 1 + 1 else ?v + 1)"
    define ps where "ps = getPrefixSum_loop ?vs i idx ps0"
    have call: "PrefixSumComputer_getPrefixSum0 s index =
        (typed_get ps idx, s\<lparr>prefixSum := ps, prefixSumValidIndex := max ?v idx\<rparr>)"
      using False by (simp add: PrefixSumComputer_getPrefixSum0_def Let_def ps_def idx_def ps0_def i_def)
    have l0: "length ps0 = length ?vs" by (simp add: ps0_def len typed_put_def)
    show ?thesis
    proof (cases "?vs = []")
      case True
      then have "?v = - 1" "idx = - 1" using v index by (auto simp: idx_def)
      moreover have "ps = []" using True l0 \<open>idx = - 1\<close> \<open>?v = - 1\<close>
        by (simp add: ps_def i_def getPrefixSum_loop.simps)
      ultimately show ?thesis
        using True inv by (simp add: call ps_inv_def typed_get_def idx_def)
    next
      case ne: False
      have idx: "0 \<le> idx" "idx < int (length ?vs)" "idx = min index (int (length ?vs) - 1)" "?v \<le> idx"
        using ne index False v by (auto simp: idx_def)
      have "\<forall>k. int k < i \<longrightarrow> ps0 ! k = psum ?vs (Suc k)"
      proof (cases "?v + 1 = 0")
        case True
        then have "ps0 = (prefixSum s)[0 := psum ?vs (Suc 0)]"
          using ne len psum_Suc [of 0 ?vs] by (simp add: ps0_def typed_put_def typed_get_def)
        with True ne len show ?thesis by (auto simp: i_def)
      next
        case False
        with ok show ?thesis by (simp add: ps0_def i_def)
      qed
      moreover have "1 \<le> i" using v by (auto simp: i_def)
      ultimately have loop: "length ps = length ?vs"
        "\<forall>k. int k < i \<or> int k \<le> idx \<longrightarrow> ps ! k = psum ?vs (Suc k)"
        using getPrefixSum_loop_correct [OF _ idx(2) l0, of i] by (auto simp: ps_def)
      have "psum ?vs (Suc (nat index)) = psum ?vs (Suc (nat idx))"
        using idx(3) index ne by (auto simp: psum_def min_def Suc_nat_eq_nat_zadd1 split: if_splits)
      moreover have "ps ! nat idx = psum ?vs (Suc (nat idx))" using loop(2) idx(1) by simp
      moreover have "typed_get ps idx = Some (uint (ps ! nat idx))" using idx loop(1) by (simp add: typed_get_def)
      moreover have "max ?v idx = idx" using idx(4) by simp
      moreover have "ps_inv (s\<lparr>prefixSum := ps, prefixSumValidIndex := idx\<rparr>)"
        using loop idx(1,2) inv by (simp add: ps_inv_def)
      ultimately show ?thesis using ne by (simp add: call) (simp add: idx(3))
    qed
  qed
qed

text \<open>C38. On a proper state \<open>getPrefixSum\<close> returns the sum of the first \<open>index + 1\<close> values modulo \<open>2 ^ 32\<close> (of all
  values when there are fewer; \<open>undefined\<close> when there are none), whatever part of the sums was cached,
  and keeps the values and the invariant of the cache.\<close>

theorem PrefixSumComputer_getPrefixSum_correct:
  assumes inv: "ps_inv s" and index: "0 \<le> index" "index < 2147483648"
  shows "\<exists>s'. PrefixSumComputer_getPrefixSum s index =
      (if psValues s = [] then None else Some (uint (psum (psValues s) (Suc (nat index)))), s')
    \<and> ps_inv s' \<and> psValues s' = psValues s"
  using getPrefixSum0_correct [OF inv index(1)] index
  by (auto simp: PrefixSumComputer_getPrefixSum_def toUint32_id)

theorem PrefixSumComputer_getPrefixSum_correct_witness:
  "\<exists>s'. PrefixSumComputer_getPrefixSum (PrefixSumComputer_new [3, 4294967295, 5]) 1 = (Some 2, s')"
proof -
  have "ps_inv (PrefixSumComputer_new [3, 4294967295, 5])" by (simp add: ps_inv_def PrefixSumComputer_new_def)
  from PrefixSumComputer_getPrefixSum_correct [OF this, of 1] show ?thesis
    by (auto simp: PrefixSumComputer_new_def psum_def)
qed

subsection \<open>Updates\<close>

lemma invalidate_from_eq:
  "0 \<le> index \<Longrightarrow> - 1 \<le> v \<Longrightarrow> v < 2147483648 \<Longrightarrow> invalidate_from index v = min v (index - 1)"
  by (auto simp: invalidate_from_def toInt32_id int32_def)

text \<open>The invariant of a new state whose values agree with the old ones up to \<open>index\<close> and whose valid index was
  lowered accordingly.\<close>

lemma ps_inv_update:
  assumes inv: "ps_inv s" and agree: "take index vs = take index (psValues s)" and le: "index \<le> length vs" "index \<le> length (psValues s)"
    and len: "length ps = length vs" "length vs < 2147483648"
    and keep: "\<forall>k. int k \<le> min (prefixSumValidIndex s) (int index - 1) \<longrightarrow> ps ! k = prefixSum s ! k"
  shows "ps_inv \<lparr>psValues = vs, prefixSum = ps, prefixSumValidIndex = min (prefixSumValidIndex s) (int index - 1)\<rparr>"
proof -
  have "psum vs (Suc k) = psum (psValues s) (Suc k)" if "int k \<le> int index - 1" for k
  proof -
    have "Suc k \<le> index" using that by simp
    then have "take (Suc k) vs = take (Suc k) (psValues s)" using agree by (metis min.absorb1 take_take)
    then show ?thesis by (simp add: psum_def)
  qed
  moreover have "min (prefixSumValidIndex s) (int index - 1) < int (length vs)" using le by simp
  ultimately show ?thesis using inv len keep by (auto simp: ps_inv_def)
qed

lemma keep_sums_correct:
  assumes "- 1 \<le> valid" and "valid < int (length old)" and "valid < n" and "0 \<le> n"
  shows "\<exists>ps. keep_sums old valid n = Inr ps \<and> length ps = nat n \<and> (\<forall>k. int k \<le> valid \<longrightarrow> ps ! k = old ! k)"
proof (cases "valid \<ge> 0")
  case False
  with assms show ?thesis by (auto simp: keep_sums_def typed_new_def)
next
  case True
  let ?k = "nat (valid + 1)"
  have le: "?k \<le> length old" using True assms(2) by simp
  have sub: "subarray old 0 (valid + 1) = take ?k old"
    using le True by (simp add: subarray_def js_slice_def relIdx_def min_absorb1)
  have len: "int (length (take ?k old)) = valid + 1" using True le by (simp add: min_absorb1)
  have "keep_sums old valid n = Inr (take ?k old @ drop ?k (replicate (nat n) 0))"
    using True assms len by (simp add: keep_sums_def typed_new_def typed_set_def sub min_def nat_add_distrib)
  then show ?thesis
    using assms len True by (auto simp: nth_append min_def nat_add_distrib)
qed

text \<open>Filling a fresh array in two adjacent pieces.\<close>

lemma typed_set_pieces:
  assumes "length t = length a + length b + length c"
  shows "typed_set t a 0 = Inr (a @ drop (length a) t)"
    and "typed_set (a @ drop (length a) t) c (int (length a + length b))
      = Inr (a @ take (length b) (drop (length a) t) @ c)"
    and "typed_set (a @ x @ c) b (int (length a)) = (if length x < length b then typed_set (a @ x @ c) b (int (length a)) else Inr (a @ b @ drop (length b) x @ c))"
proof -
  show "typed_set t a 0 = Inr (a @ drop (length a) t)" using assms by (simp add: typed_set_def)
  show "typed_set (a @ drop (length a) t) c (int (length a + length b))
      = Inr (a @ take (length b) (drop (length a) t) @ c)"
    using assms by (simp add: typed_set_def nat_int_add)
  show "typed_set (a @ x @ c) b (int (length a)) = (if length x < length b then typed_set (a @ x @ c) b (int (length a)) else Inr (a @ b @ drop (length b) x @ c))"
    by (simp add: typed_set_def)
qed

lemma subarray_take_drop:
  "0 \<le> i \<Longrightarrow> i \<le> int (length xs) \<Longrightarrow> subarray xs 0 i = take (nat i) xs \<and> subarray_from xs i = drop (nat i) xs"
  by (auto simp: subarray_def subarray_from_def js_slice_def relIdx_def min_def)

lemma PrefixSumComputer_insertValues_spec:
  assumes inv: "ps_inv s" and i: "0 \<le> i" "i \<le> int (length (psValues s))"
    and len: "length (psValues s) + length ins < 2147483648"
  shows "\<exists>s'. PrefixSumComputer_insertValues s i ins = Inr (ins \<noteq> [], s') \<and> ps_inv s'
    \<and> psValues s' = take (nat i) (psValues s) @ ins @ drop (nat i) (psValues s)"
proof (cases "ins = []")
  case True
  with inv show ?thesis by (simp add: PrefixSumComputer_insertValues_def Let_def)
next
  case False
  let ?vs = "psValues s" and ?v = "min (prefixSumValidIndex s) (i - 1)"
  have v: "- 1 \<le> prefixSumValidIndex s" "prefixSumValidIndex s < int (length ?vs)" "length (prefixSum s) = length ?vs"
    using inv by (auto simp: ps_inv_def)
  have ui: "toUint32 i = i" using i len by (intro toUint32_id) simp_all
  let ?t = "replicate (nat (int (length ?vs) + int (length ins))) (0 :: 32 word)"
  let ?a = "take (nat i) ?vs" and ?c = "drop (nat i) ?vs"
  have la: "length ?a = nat i" "length ?t = length ?a + length ins + length ?c" using i by simp_all
  note pieces = typed_set_pieces(1,2) [OF la(2)]
  have x: "length (take (length ins) (drop (length ?a) ?t)) = length ins" using la by simp
  have third: "typed_set (?a @ take (length ins) (drop (length ?a) ?t) @ ?c) ins (int (length ?a)) = Inr (?a @ ins @ ?c)"
    using typed_set_pieces(3) [OF la(2), of "take (length ins) (drop (length ?a) ?t)"] x by (simp del: take_replicate drop_replicate)
  have iv: "invalidate_from i (prefixSumValidIndex s) = ?v" using i v len by (intro invalidate_from_eq) simp_all
  have "\<exists>ps. keep_sums (prefixSum s) ?v (int (length (?a @ ins @ ?c))) = Inr ps
    \<and> length ps = nat (int (length (?a @ ins @ ?c))) \<and> (\<forall>k. int k \<le> ?v \<longrightarrow> ps ! k = prefixSum s ! k)"
    by (rule keep_sums_correct) (use v i in simp_all)
  then obtain ps where
    ps: "keep_sums (prefixSum s) ?v (int (length (?a @ ins @ ?c))) = Inr ps" "length ps = length (?a @ ins @ ?c)"
      "\<forall>k. int k \<le> ?v \<longrightarrow> ps ! k = prefixSum s ! k" unfolding nat_int by blast
  have set: "subarray ?vs 0 i = ?a" "subarray_from ?vs i = ?c" using subarray_take_drop [OF i] by simp_all
  have la': "int (length ?a + length ins) = i + int (length ins)" "int (length ?a) = i" using la(1) i by simp_all
  have "PrefixSumComputer_insertValues s i ins
      = Inr (True, \<lparr>psValues = ?a @ ins @ ?c, prefixSum = ps, prefixSumValidIndex = ?v\<rparr>)"
    using False pieces [unfolded la'] third [unfolded la'] ps(1)
    unfolding PrefixSumComputer_insertValues_def ui Let_def set iv typed_new_def by simp
  moreover have "ps_inv \<lparr>psValues = ?a @ ins @ ?c, prefixSum = ps, prefixSumValidIndex = ?v\<rparr>"
    using ps_inv_update [OF inv, of "nat i" "?a @ ins @ ?c" ps] ps i len by simp
  ultimately show ?thesis using False by simp
qed

lemma PrefixSumComputer_removeValues_spec:
  assumes inv: "ps_inv s" and i: "0 \<le> i" "i < 2147483648" and c: "0 \<le> c" "c < 2147483648"
  shows "\<exists>r s'. PrefixSumComputer_removeValues s i c = Inr (r, s') \<and> ps_inv s'
    \<and> psValues s' = take (nat i) (psValues s) @ drop (nat (i + c)) (psValues s)"
proof -
  let ?vs = "psValues s" and ?v = "min (prefixSumValidIndex s) (i - 1)"
  have v: "- 1 \<le> prefixSumValidIndex s" "prefixSumValidIndex s < int (length ?vs)" "length (prefixSum s) = length ?vs"
    and len: "length ?vs < 2147483648"
    using inv by (auto simp: ps_inv_def)
  have u: "toUint32 i = i" "toUint32 c = c" using i c by (simp_all add: toUint32_id)
  define n where "n = min c (int (length ?vs) - i)"
  show ?thesis
  proof (cases "i \<ge> int (length ?vs) \<or> n = 0")
    case True
    then have "PrefixSumComputer_removeValues s i c = Inr (False, s)"
      by (auto simp: PrefixSumComputer_removeValues_def u Let_def n_def min_def split: if_splits)
    moreover have "take (nat i) ?vs @ drop (nat (i + c)) ?vs = ?vs"
    proof (cases "i \<ge> int (length ?vs)")
      case False
      then have "c = 0" using True c i by (auto simp: n_def min_def split: if_splits)
      then show ?thesis by simp
    qed (use c in simp)
    ultimately show ?thesis using inv by (intro exI [of _ False] exI [of _ s]) simp
  next
    case False
    then have n: "0 < n" "i + n \<le> int (length ?vs)" "i < int (length ?vs)"
      using c by (auto simp: n_def min_def split: if_splits)
    let ?a = "take (nat i) ?vs" and ?c = "drop (nat (i + n)) ?vs"
    have dc: "?c = drop (nat (i + c)) ?vs" using i n by (auto simp: n_def min_def)
    let ?t = "replicate (nat (int (length ?vs) - n)) (0 :: 32 word)"
    have la: "length ?a = nat i" "length ?t = length ?a + length ([] :: 32 word list) + length ?c"
      using i n by (simp_all add: nat_diff_distrib nat_add_distrib)
    note pieces = typed_set_pieces(1,2) [OF la(2)]
    have iv: "invalidate_from i (prefixSumValidIndex s) = ?v" using i v len by (intro invalidate_from_eq) simp_all
    have lv: "int (length (?a @ ?c)) = int (length ?vs) - n" using i n by simp
    have "\<exists>ps. keep_sums (prefixSum s) ?v (int (length (?a @ ?c))) = Inr ps
      \<and> length ps = nat (int (length (?a @ ?c))) \<and> (\<forall>k. int k \<le> ?v \<longrightarrow> ps ! k = prefixSum s ! k)"
      by (rule keep_sums_correct) (use v i n lv in simp_all)
    then obtain ps where
      ps: "keep_sums (prefixSum s) ?v (int (length (?a @ ?c))) = Inr ps" "length ps = length (?a @ ?c)"
        "\<forall>k. int k \<le> ?v \<longrightarrow> ps ! k = prefixSum s ! k" unfolding nat_int by blast
    have set: "subarray ?vs 0 i = ?a" "subarray_from ?vs (i + n) = ?c"
      using subarray_take_drop [of i ?vs] subarray_take_drop [of "i + n" ?vs] i n by simp_all
    have ai: "int (length ?a) = i" using la(1) i by simp
    have "PrefixSumComputer_removeValues s i c
        = Inr (True, \<lparr>psValues = ?a @ ?c, prefixSum = ps, prefixSumValidIndex = ?v\<rparr>)"
    proof -
      have "(if c \<ge> int (length ?vs) - i then int (length ?vs) - i else c) = n" by (auto simp: n_def)
      then show ?thesis
        using pieces ps(1) n i(1)
        unfolding PrefixSumComputer_removeValues_def u Let_def
        by (simp add: set iv typed_new_def ai del: length_append)
    qed
    moreover have "ps_inv \<lparr>psValues = ?a @ ?c, prefixSum = ps, prefixSumValidIndex = ?v\<rparr>"
      using ps_inv_update [OF inv, of "nat i" "?a @ ?c" ps] ps i n len lv by simp
    ultimately show ?thesis unfolding dc [symmetric] by (intro exI [of _ True]) simp
  qed
qed

lemma PrefixSumComputer_setValue_spec:
  assumes inv: "ps_inv s" and i: "0 \<le> i" "i < int (length (psValues s))" and x: "0 \<le> x" "x \<le> MAX_UINT_32"
  shows "ps_inv (snd (PrefixSumComputer_setValue s i x))
    \<and> psValues (snd (PrefixSumComputer_setValue s i x)) = (psValues s)[nat i := word_of_int x]"
proof -
  let ?vs = "psValues s"
  have v: "- 1 \<le> prefixSumValidIndex s" "prefixSumValidIndex s < int (length ?vs)" "length (prefixSum s) = length ?vs"
    and len: "length ?vs < 2147483648"
    using inv by (auto simp: ps_inv_def)
  have ui: "toUint32 i = i" using i len by (intro toUint32_id) simp_all
  show ?thesis
  proof (cases "typed_get ?vs i = Some (toUint32 x)")
    case True
    then have "uint (?vs ! nat i) = toUint32 x" using i by (simp add: typed_get_def)
    then have "?vs ! nat i = word_of_int x" using word_toUint32 [OF x] by (metis word_of_int_uint)
    then have "?vs[nat i := word_of_int x] = ?vs" by (metis list_update_id)
    with True inv show ?thesis by (simp add: PrefixSumComputer_setValue_def ui Let_def)
  next
    case False
    have put: "typed_put ?vs i (toUint32 x) = ?vs[nat i := word_of_int x]"
      using i word_toUint32 [OF x] by (simp add: typed_put_def)
    have iv: "invalidate_from i (prefixSumValidIndex s) = min (prefixSumValidIndex s) (i - 1)"
      using i v len by (intro invalidate_from_eq) simp_all
    have "ps_inv \<lparr>psValues = ?vs[nat i := word_of_int x], prefixSum = prefixSum s,
        prefixSumValidIndex = min (prefixSumValidIndex s) (i - 1)\<rparr>"
      using ps_inv_update [OF inv, of "nat i" "?vs[nat i := word_of_int x]" "prefixSum s"] i v len by simp
    then show ?thesis
      using False by (simp add: PrefixSumComputer_setValue_def ui Let_def put iv ps_inv_def)
  qed
qed



subsection \<open>Searching\<close>

text \<open>The sum of the first values as a number, equal to the stored sum as long as the total does not
  overflow.\<close>

definition nsum :: "32 word list \<Rightarrow> nat \<Rightarrow> int" where
  "nsum vs n = sum_list (map uint (take n vs))"

lemma nsum_0 [simp]: "nsum vs 0 = 0"
  by (simp add: nsum_def)

lemma nsum_Suc: "n < length vs \<Longrightarrow> nsum vs (Suc n) = nsum vs n + uint (vs ! n)"
  by (simp add: nsum_def take_Suc_conv_app_nth)

lemma nsum_nonneg: "0 \<le> nsum vs n"
  by (auto simp: nsum_def intro!: sum_list_nonneg)

lemma nsum_mono: "m \<le> n \<Longrightarrow> nsum vs m \<le> nsum vs n"
proof (induction n)
  case (Suc n)
  show ?case
  proof (cases "m = Suc n \<or> length vs \<le> n")
    case True
    then show ?thesis using Suc by (auto simp: nsum_def le_Suc_eq)
  next
    case False
    then have "nsum vs (Suc n) = nsum vs n + uint (vs ! n)" by (simp add: nsum_Suc)
    moreover have "0 \<le> uint (vs ! n)" by simp
    moreover have "nsum vs m \<le> nsum vs n" using Suc False by simp
    ultimately show ?thesis by linarith
  qed
qed simp

lemma psum_nsum: "psum vs n = word_of_int (nsum vs n)"
proof -
  have "sum_list xs = word_of_int (sum_list (map uint xs))" for xs :: "32 word list"
    by (induction xs) simp_all
  then show ?thesis by (simp add: psum_def nsum_def)
qed

lemma uint_psum: "nsum vs (length vs) < 4294967296 \<Longrightarrow> n \<le> length vs \<Longrightarrow> uint (psum vs n) = nsum vs n"
  using nsum_mono [of n "length vs" vs] nsum_nonneg [of vs n]
  by (simp add: psum_nsum uint_word_of_int_eq take_bit_int_eq_self)

lemma getIndexOf_loop_correct:
  assumes total: "nsum vs (length vs) < 4294967296"
    and ps: "\<forall>k < length vs. ps ! k = psum vs (Suc k)"
  shows "0 \<le> low \<Longrightarrow> high < int (length vs) \<Longrightarrow> low \<le> high + 1 \<Longrightarrow> nsum vs (nat low) \<le> t \<Longrightarrow> t < nsum vs (nat (high + 1)) \<Longrightarrow>
    \<exists>k < length vs. getIndexOf_loop vs ps t low high mid midStart = (int k, nsum vs k) \<and> nsum vs k \<le> t \<and> t < nsum vs (Suc k)"
proof (induction "nat (high - low + 1)" arbitrary: low high mid midStart rule: less_induct)
  case less
  have lh: "low \<le> high"
  proof (rule ccontr)
    assume "\<not> low \<le> high"
    then have "low = high + 1" using less.prems(3) by simp
    with less.prems(4,5) show False by simp
  qed
  define m where "m = (low + high) div 2"
  define k where "k = nat m"
  have m: "low \<le> m" "m \<le> high" using lh by (auto simp: m_def)
  have k: "k < length vs" "m = int k" using m less.prems(1,2) by (auto simp: k_def)
  have stop: "uint (ps ! nat m) = nsum vs (Suc k)"
    using ps k(1) uint_psum [OF total, of "Suc k"] unfolding k_def [symmetric] by simp
  have start: "nsum vs (Suc k) - uint (vs ! nat m) = nsum vs k" using nsum_Suc [OF k(1)] by (simp add: k(2))
  have unfold: "getIndexOf_loop vs ps t low high mid midStart =
     (if t < nsum vs k then getIndexOf_loop vs ps t low (m - 1) m (nsum vs k)
      else if t \<ge> nsum vs (Suc k) then getIndexOf_loop vs ps t (m + 1) high m (nsum vs k)
      else (m, nsum vs k))"
    by (subst getIndexOf_loop.simps) (simp only: Let_def m_def [symmetric] stop start lh if_True)
  consider "t < nsum vs k" | "nsum vs (Suc k) \<le> t" | "nsum vs k \<le> t" "t < nsum vs (Suc k)" by linarith
  then show ?case
  proof cases
    case 1
    have "\<exists>j < length vs. getIndexOf_loop vs ps t low (m - 1) m (nsum vs k) = (int j, nsum vs j) \<and> nsum vs j \<le> t \<and> t < nsum vs (Suc j)"
    proof (rule less.hyps)
      have "m - 1 + 1 = m" by simp
      then show "t < nsum vs (nat (m - 1 + 1))" using 1 by (simp only: k_def)
    qed (use m less.prems in simp_all)
    with 1 show ?thesis unfolding unfold by simp
  next
    case 2
    have "Suc k = nat (m + 1)" using k(2) by simp
    then have "\<exists>j < length vs. getIndexOf_loop vs ps t (m + 1) high m (nsum vs k) = (int j, nsum vs j) \<and> nsum vs j \<le> t \<and> t < nsum vs (Suc j)"
      using 2 m less.prems by (intro less.hyps) auto
    moreover have "\<not> t < nsum vs k" using 2 nsum_mono [of k "Suc k" vs] by simp
    ultimately show ?thesis unfolding unfold using 2 by simp
  next
    case 3
    then show ?thesis unfolding unfold using k by auto
  qed
qed

text \<open>C39. The binary search finds, for every sum below the total, the index whose value covers the sum and the remainder inside
  that value, provided the total fits 32 bits; it computes all sums first and keeps the values and the
  invariant.\<close>

theorem PrefixSumComputer_getIndexOf_correct:
  assumes inv: "ps_inv s" and total: "nsum (psValues s) (length (psValues s)) < 4294967296"
    and t: "0 \<le> t" "t < nsum (psValues s) (length (psValues s))"
  shows "\<exists>k s'. k < length (psValues s)
    \<and> PrefixSumComputer_getIndexOf s t = (\<lparr>psIndex = int k, remainder = t - nsum (psValues s) k\<rparr>, s')
    \<and> nsum (psValues s) k \<le> t \<and> t < nsum (psValues s) (Suc k) \<and> ps_inv s' \<and> psValues s' = psValues s"
proof -
  let ?vs = "psValues s"
  have ne: "?vs \<noteq> []" using t by auto
  define s' where "s' = snd (PrefixSumComputer_getTotalSum s)"
  have s': "ps_inv s'" "psValues s' = ?vs" "prefixSumValidIndex s' = int (length ?vs) - 1"
    using getPrefixSum0_correct [OF inv, of "int (length ?vs) - 1"] ne inv
    by (auto simp: s'_def PrefixSumComputer_getTotalSum_def ps_inv_def)
  then have "\<forall>k < length ?vs. prefixSum s' ! k = psum ?vs (Suc k)" by (auto simp: ps_inv_def)
  from getIndexOf_loop_correct [OF total this, of 0 "int (length ?vs) - 1" t] t ne obtain k where
    k: "k < length ?vs" "getIndexOf_loop ?vs (prefixSum s') t 0 (int (length ?vs) - 1) 0 0 = (int k, nsum ?vs k)"
      "nsum ?vs k \<le> t" "t < nsum ?vs (Suc k)" by auto
  have "PrefixSumComputer_getIndexOf s t = (\<lparr>psIndex = int k, remainder = t - nsum ?vs k\<rparr>, s')"
    using k(2) by (simp add: PrefixSumComputer_getIndexOf_def s'_def [symmetric] s'(2))
  with k s' show ?thesis by blast
qed

theorem PrefixSumComputer_getIndexOf_correct_witness:
  "\<exists>k s'. PrefixSumComputer_getIndexOf (PrefixSumComputer_new [3, 0, 5]) 4
     = (\<lparr>psIndex = int k, remainder = 4 - nsum [3, 0, 5] k\<rparr>, s') \<and> nsum [3, 0, 5] k \<le> 4 \<and> 4 < nsum [3, 0, 5] (Suc k)"
proof -
  let ?s = "PrefixSumComputer_new [3, 0, 5]"
  have "ps_inv ?s" by (simp add: ps_inv_def PrefixSumComputer_new_def)
  moreover have "nsum (psValues ?s) (length (psValues ?s)) < 4294967296" "0 \<le> (4 :: int)"
    "4 < nsum (psValues ?s) (length (psValues ?s))"
    by (simp_all add: nsum_def PrefixSumComputer_new_def)
  ultimately show ?thesis
    using PrefixSumComputer_getIndexOf_correct [of ?s 4] by (auto simp: PrefixSumComputer_new_def)
qed

section \<open>Laws of \<open>ConstantTimePrefixSumComputer\<close>\<close>

lemma array_get_put:
  "array_get (array_put xs i v) t = (if t = i \<and> 0 \<le> i then v else array_get xs t)"
  by (auto simp: array_get_def array_put_def nth_append nth_list_update nat_eq_iff)

lemma array_get_setLength:
  "array_get (array_setLength xs n) t = (if t < int n then array_get xs t else None)"
  by (auto simp: array_get_def array_setLength_def nth_append nat_less_iff)

lemma length_array_setLength [simp]: "length (array_setLength xs n) = n"
  by (simp add: array_setLength_def)

lemma ensureValid_run_get:
  "0 \<le> a \<Longrightarrow> array_get (ensureValid_run ibs a n i j) t =
     (if a + int j \<le> t \<and> t < a + int j + int n then Some i else array_get ibs t)"
  by (induction n arbitrary: ibs j) (auto simp: array_get_put)

definition isum :: "int list \<Rightarrow> nat \<Rightarrow> int" where
  "isum vs n = sum_list (take n vs)"

lemma isum_0 [simp]: "isum vs 0 = 0"
  by (simp add: isum_def)

lemma isum_Suc: "n < length vs \<Longrightarrow> isum vs (Suc n) = isum vs n + vs ! n"
  by (simp add: isum_def take_Suc_conv_app_nth)

lemma isum_nonneg: "\<forall>x \<in> set vs. 0 \<le> x \<Longrightarrow> 0 \<le> isum vs n"
  by (auto simp: isum_def intro!: sum_list_nonneg dest: in_set_takeD)

text \<open>The caches are right for the first \<open>n\<close> values: their sums, and the owner of every unit below.\<close>

definition ct_upto :: "int list \<Rightarrow> nat \<Rightarrow> int option list \<Rightarrow> int option list \<Rightarrow> bool" where
  "ct_upto vs n ps ibs \<longleftrightarrow>
     (\<forall>k < n. array_get ps (int k) = Some (isum vs (Suc k)))
     \<and> (\<forall>k < n. \<forall>t. isum vs k \<le> t \<longrightarrow> t < isum vs (Suc k) \<longrightarrow> array_get ibs t = Some (int k))"

definition ct_inv :: "ConstantTimePrefixSumComputer \<Rightarrow> bool" where
  "ct_inv s \<longleftrightarrow> (\<forall>x \<in> set (ctValues s). 0 \<le> x)
     \<and> - 1 \<le> ctValidEndIndex s \<and> ctValidEndIndex s < int (length (ctValues s))
     \<and> ct_upto (ctValues s) (nat (ctValidEndIndex s + 1)) (ctPrefixSum s) (ctIndexBySum s)
     \<and> (ctIsValid s \<longrightarrow> ctValidEndIndex s = int (length (ctValues s)) - 1
          \<and> int (length (ctIndexBySum s)) = isum (ctValues s) (length (ctValues s)))"

lemma isum_mono: "\<forall>x \<in> set vs. 0 \<le> x \<Longrightarrow> m \<le> n \<Longrightarrow> isum vs m \<le> isum vs n"
proof (induction n)
  case (Suc n)
  show ?case
  proof (cases "m = Suc n \<or> length vs \<le> n")
    case True
    then show ?thesis using Suc by (auto simp: isum_def le_Suc_eq)
  next
    case False
    then have "isum vs (Suc n) = isum vs n + vs ! n" "0 \<le> vs ! n" "isum vs m \<le> isum vs n"
      using Suc by (simp_all add: isum_Suc)
    then show ?thesis by linarith
  qed
qed simp

lemma ensureValid_loop_correct:
  "\<forall>x \<in> set vs. 0 \<le> x \<Longrightarrow> n \<le> length vs \<Longrightarrow> ct_upto vs n ps ibs \<Longrightarrow>
   case ensureValid_loop vs (int n) ps ibs of (ps', ibs') \<Rightarrow> ct_upto vs (length vs) ps' ibs'"
proof (induction "length vs - n" arbitrary: n ps ibs)
  case 0
  then show ?case by (simp add: ensureValid_loop.simps [of vs "int n"])
next
  case (Suc m)
  then have n: "n < length vs" by simp
  have v: "0 \<le> vs ! n" using Suc.prems(1) n by simp
  have pos: "0 \<le> isum vs n" by (rule isum_nonneg [OF Suc.prems(1)])
  have above: "(if int n > 0 then array_get ps (int n - 1) else Some 0) = Some (isum vs n)"
  proof (cases n)
    case (Suc k)
    then show ?thesis using Suc.prems(3) by (simp add: ct_upto_def)
  qed simp
  define ps' ibs' where "ps' = array_put ps (int n) (Some (isum vs n + vs ! n))"
    and "ibs' = ensureValid_run ibs (isum vs n) (nat (vs ! n)) (int n) 0"
  have step: "ensureValid_loop vs (int n) ps ibs = ensureValid_loop vs (int (Suc n)) ps' ibs'"
    using n unfolding ensureValid_loop.simps [of vs "int n"]
    by (simp only: above Let_def of_nat_less_iff if_True option.case option.map nat_int ps'_def ibs'_def) (simp add: add.commute)
  have "ct_upto vs (Suc n) ps' ibs'"
  proof -
    have "array_get ibs' t = Some (int k)" if "k < Suc n" "isum vs k \<le> t" "t < isum vs (Suc k)" for k t
    proof (cases "k = n")
      case True
      then show ?thesis using that v pos isum_Suc [OF n] by (simp add: ibs'_def ensureValid_run_get)
    next
      case False
      then have "k < n" using that(1) by simp
      then have "t < isum vs n" using that(3) isum_mono [OF Suc.prems(1), of "Suc k" n] by simp
      then show ?thesis using that \<open>k < n\<close> Suc.prems(3) pos by (simp add: ibs'_def ensureValid_run_get ct_upto_def)
    qed
    then show ?thesis
      using Suc.prems(3) isum_Suc [OF n] by (auto simp: ct_upto_def ps'_def array_get_put less_Suc_eq)
  qed
  then show ?case unfolding step using Suc.hyps(1) [of "Suc n"] Suc.hyps(2) Suc.prems(1) n by simp
qed

lemma ct_upto_setLength:
  assumes nn: "\<forall>x \<in> set vs. 0 \<le> x" and up: "ct_upto vs (length vs) ps ibs"
  shows "ct_upto vs (length vs) (array_setLength ps (length vs)) (array_setLength ibs (nat (isum vs (length vs))))"
proof -
  have "t < isum vs (length vs)" if "k < length vs" "t < isum vs (Suc k)" for t k
    using isum_mono [OF nn, of "Suc k" "length vs"] that by simp
  then show ?thesis
    using up isum_nonneg [OF nn, of "length vs"] by (auto simp: ct_upto_def array_get_setLength)
qed

lemma ensureValid_correct:
  assumes inv: "ct_inv s"
  shows "\<exists>t. ConstantTimePrefixSumComputer_ensureValid s = Inr t \<and> ct_inv t \<and> ctIsValid t \<and> ctValues t = ctValues s"
proof (cases "ctIsValid s")
  case True
  with inv show ?thesis by (simp add: ConstantTimePrefixSumComputer_ensureValid_def)
next
  case False
  let ?vs = "ctValues s" and ?n = "nat (ctValidEndIndex s + 1)"
  have nn: "\<forall>x \<in> set ?vs. 0 \<le> x" and v: "- 1 \<le> ctValidEndIndex s" "ctValidEndIndex s < int (length ?vs)"
    and up: "ct_upto ?vs ?n (ctPrefixSum s) (ctIndexBySum s)"
    using inv by (auto simp: ct_inv_def)
  obtain ps ibs where loop: "ensureValid_loop ?vs (ctValidEndIndex s + 1) (ctPrefixSum s) (ctIndexBySum s) = (ps, ibs)"
    by fastforce
  have "?n \<le> length ?vs" "int ?n = ctValidEndIndex s + 1" using v by simp_all
  with ensureValid_loop_correct [OF nn _ up] loop have up': "ct_upto ?vs (length ?vs) ps ibs" by simp
  let ?total = "isum ?vs (length ?vs)"
  let ?ps = "array_setLength ps (length ?vs)" and ?ibs = "array_setLength ibs (nat ?total)"
  note up2 = ct_upto_setLength [OF nn up']
  have len: "(if length ?vs > 0 then array_get ?ps (int (length ?vs) - 1) else Some 0) = Some ?total"
  proof (cases "length ?vs")
    case (Suc k)
    then have "array_get ?ps (int k) = Some (isum ?vs (Suc k))" using up2 by (simp add: ct_upto_def)
    with Suc show ?thesis by simp
  qed simp
  have pos: "0 \<le> ?total" by (rule isum_nonneg [OF nn])
  have "ConstantTimePrefixSumComputer_ensureValid s = Inr \<lparr>ctValues = ?vs, ctIsValid = True,
      ctValidEndIndex = int (length ?vs) - 1, ctPrefixSum = ?ps, ctIndexBySum = ?ibs\<rparr>"
    using False pos unfolding ConstantTimePrefixSumComputer_ensureValid_def loop Let_def
    by (simp only: prod.case len if_False option.case) simp
  with nn up2 pos show ?thesis by (simp add: ct_inv_def)
qed

lemma isum_covers:
  assumes nn: "\<forall>x \<in> set vs. 0 \<le> x" and t: "0 \<le> t" "t < isum vs n"
  shows "\<exists>k < n. isum vs k \<le> t \<and> t < isum vs (Suc k)"
  using t(2)
proof (induction n)
  case (Suc n)
  then show ?case by (cases "t < isum vs n") (auto simp: less_Suc_eq not_less)
qed (use t(1) in simp)

text \<open>The constant-time variant answers every query by the same specification: the total, the sum of the
  first \<open>count\<close> values, and for a sum below the total the index that covers it with its remainder; for
  larger sums the last index. Queries never throw and keep the invariant of the caches and the values.\<close>

theorem ConstantTimePrefixSumComputer_queries_correct:
  assumes inv: "ct_inv s"
  defines "vs \<equiv> ctValues s"
  shows "(\<exists>t. ConstantTimePrefixSumComputer_getTotalSum s = Inr (isum vs (length vs), t) \<and> ct_inv t \<and> ctValues t = vs)
    \<and> (n \<le> length vs \<longrightarrow> (\<exists>t. ConstantTimePrefixSumComputer_getPrefixSum s (int n) = Inr (Some (isum vs n), t)
          \<and> ct_inv t \<and> ctValues t = vs))
    \<and> (0 \<le> x \<longrightarrow> (\<exists>k t. ConstantTimePrefixSumComputer_getIndexOf s x = Inr ((int k, Some (x - isum vs k)), t)
          \<and> ct_inv t \<and> ctValues t = vs
          \<and> (if x < isum vs (length vs) then isum vs k \<le> x \<and> x < isum vs (Suc k) else k = length vs - 1)))"
proof -
  from ensureValid_correct [OF inv] obtain t where
    t: "ConstantTimePrefixSumComputer_ensureValid s = Inr t" "ct_inv t" "ctIsValid t" "ctValues t = vs"
    by (auto simp: vs_def)
  have nn: "\<forall>x \<in> set vs. 0 \<le> x" and up: "ct_upto vs (length vs) (ctPrefixSum t) (ctIndexBySum t)"
    and len: "int (length (ctIndexBySum t)) = isum vs (length vs)"
    using t(2,3,4) by (auto simp: ct_inv_def)
  have below: "(if int k > 0 then array_get (ctPrefixSum t) (int k - 1) else Some 0) = Some (isum vs k)"
    if "k \<le> length vs" for k
    using that up by (cases k) (auto simp: ct_upto_def)
  have "\<exists>t. ConstantTimePrefixSumComputer_getTotalSum s = Inr (isum vs (length vs), t) \<and> ct_inv t \<and> ctValues t = vs"
    using t len by (simp add: ConstantTimePrefixSumComputer_getTotalSum_def)
  moreover have "\<exists>t. ConstantTimePrefixSumComputer_getPrefixSum s (int n) = Inr (Some (isum vs n), t)
      \<and> ct_inv t \<and> ctValues t = vs" if "n \<le> length vs"
    using t below [OF that] by (auto simp: ConstantTimePrefixSumComputer_getPrefixSum_def split: if_splits)
  moreover have "\<exists>k t. ConstantTimePrefixSumComputer_getIndexOf s x = Inr ((int k, Some (x - isum vs k)), t)
      \<and> ct_inv t \<and> ctValues t = vs
      \<and> (if x < isum vs (length vs) then isum vs k \<le> x \<and> x < isum vs (Suc k) else k = length vs - 1)" if x: "0 \<le> x"
  proof (cases "x < isum vs (length vs)")
    case True
    from isum_covers [OF nn x True] obtain k where k: "k < length vs" "isum vs k \<le> x" "x < isum vs (Suc k)" by blast
    then have "array_get (ctIndexBySum t) x = Some (int k)" using up by (simp add: ct_upto_def)
    with t k True below [of k] show ?thesis
      by (intro exI [of _ k] exI [of _ t]) (simp add: ConstantTimePrefixSumComputer_getIndexOf_def Let_def)
  next
    case False
    then have "array_get (ctIndexBySum t) x = None" using len by (simp add: array_get_def)
    moreover have "max 0 (int (length vs) - 1) = int (length vs - 1)" by simp
    ultimately have "ConstantTimePrefixSumComputer_getIndexOf s x
        = Inr ((int (length vs - 1), Some (x - isum vs (length vs - 1))), t)"
      using t below [of "length vs - 1"]
      by (simp only: ConstantTimePrefixSumComputer_getIndexOf_def bindr_Inr option.case Let_def) simp
    with t False show ?thesis by auto
  qed
  ultimately show ?thesis by blast
qed

theorem ConstantTimePrefixSumComputer_queries_correct_witness:
  "\<exists>k t. ConstantTimePrefixSumComputer_getIndexOf (ConstantTimePrefixSumComputer_new [3, 0, 5]) 4
     = Inr ((int k, Some (4 - isum [3, 0, 5] k)), t) \<and> isum [3, 0, 5] k \<le> 4 \<and> 4 < isum [3, 0, 5] (Suc k)"
proof -
  let ?s = "ConstantTimePrefixSumComputer_new [3, 0, 5]"
  have "ct_inv ?s" by (simp add: ct_inv_def ConstantTimePrefixSumComputer_new_def ct_upto_def)
  from ConstantTimePrefixSumComputer_queries_correct [OF this, of 0 4] show ?thesis
    by (auto simp: ConstantTimePrefixSumComputer_new_def isum_def split: if_splits)
qed

lemma ct_inv_update:
  assumes inv: "ct_inv s" and agree: "take i vs = take i (ctValues s)" and le: "i \<le> length vs"
    and nn: "\<forall>x \<in> set vs. 0 \<le> x"
  shows "ct_inv (ConstantTimePrefixSumComputer_invalidate (s\<lparr>ctValues := vs\<rparr>) (int i))"
proof -
  have isum: "isum vs k = isum (ctValues s) k" if "k \<le> i" for k
    using agree that by (metis isum_def min.absorb1 take_take)
  let ?n = "nat (min (ctValidEndIndex s) (int i - 1) + 1)"
  have "?n \<le> nat (ctValidEndIndex s + 1)" "?n \<le> i" by auto
  then have "ct_upto vs ?n (ctPrefixSum s) (ctIndexBySum s)"
    using inv isum by (fastforce simp: ct_inv_def ct_upto_def)
  with inv nn le show ?thesis
    by (auto simp: ct_inv_def ConstantTimePrefixSumComputer_invalidate_def)
qed

text \<open>The updates keep the invariant and have the effect of the list operations.\<close>

lemma ConstantTimePrefixSumComputer_updates_correct:
  assumes inv: "ct_inv s" and i: "i \<le> length (ctValues s)" and "0 \<le> d" and nn: "\<forall>x \<in> set ins. 0 \<le> x" and "0 \<le> v"
  shows "ct_inv (ConstantTimePrefixSumComputer_insertValues s (int i) ins)
      \<and> ctValues (ConstantTimePrefixSumComputer_insertValues s (int i) ins) = take i (ctValues s) @ ins @ drop i (ctValues s)"
    and "ct_inv (ConstantTimePrefixSumComputer_removeValues s (int i) d)
      \<and> ctValues (ConstantTimePrefixSumComputer_removeValues s (int i) d) = take i (ctValues s) @ drop (i + nat d) (ctValues s)"
    and "i < length (ctValues s) \<Longrightarrow> ct_inv (ConstantTimePrefixSumComputer_setValue s i v)
      \<and> ctValues (ConstantTimePrefixSumComputer_setValue s i v) = (ctValues s)[i := v]"
proof -
  let ?vs = "ctValues s"
  have nns: "\<forall>x \<in> set ?vs. 0 \<le> x" using inv by (simp add: ct_inv_def)
  have ins: "arrayInsert ?vs (int i) ins = take i ?vs @ ins @ drop i ?vs"
    using i by (simp add: arrayInsert_def js_slice_def relIdx_def)
  have "ct_inv (ConstantTimePrefixSumComputer_invalidate (s\<lparr>ctValues := take i ?vs @ ins @ drop i ?vs\<rparr>) (int i))"
    by (rule ct_inv_update [OF inv]) (use i nn nns in \<open>auto dest: in_set_takeD in_set_dropD\<close>)
  then show "ct_inv (ConstantTimePrefixSumComputer_insertValues s (int i) ins)
      \<and> ctValues (ConstantTimePrefixSumComputer_insertValues s (int i) ins) = take i ?vs @ ins @ drop i ?vs"
    by (simp add: ConstantTimePrefixSumComputer_insertValues_def ins ConstantTimePrefixSumComputer_invalidate_def)
  have rem: "js_splice ?vs (int i) d [] = take i ?vs @ drop (i + nat d) ?vs"
    using i assms(3) by (simp add: js_splice_def relIdx_def Let_def)
  have "ct_inv (ConstantTimePrefixSumComputer_invalidate (s\<lparr>ctValues := take i ?vs @ drop (i + nat d) ?vs\<rparr>) (int i))"
    by (rule ct_inv_update [OF inv]) (use i nns in \<open>auto dest: in_set_takeD in_set_dropD\<close>)
  then show "ct_inv (ConstantTimePrefixSumComputer_removeValues s (int i) d)
      \<and> ctValues (ConstantTimePrefixSumComputer_removeValues s (int i) d) = take i ?vs @ drop (i + nat d) ?vs"
    by (simp add: ConstantTimePrefixSumComputer_removeValues_def rem ConstantTimePrefixSumComputer_invalidate_def)
  assume lt: "i < length ?vs"
  have "ct_inv (ConstantTimePrefixSumComputer_invalidate (s\<lparr>ctValues := ?vs[i := v]\<rparr>) (int i))"
    by (rule ct_inv_update [OF inv]) (use i nns \<open>0 \<le> v\<close> in \<open>auto dest!: set_update_subset_insert [THEN subsetD]\<close>)
  with inv lt show "ct_inv (ConstantTimePrefixSumComputer_setValue s i v)
      \<and> ctValues (ConstantTimePrefixSumComputer_setValue s i v) = ?vs[i := v]"
    by (auto simp: ConstantTimePrefixSumComputer_setValue_def ConstantTimePrefixSumComputer_invalidate_def)
qed

end
