(* ===== verification/Js_Values.thy ===== *)
theory Js_Values
  imports Prelude "HOL-Library.List_Lexorder" "HOL-Library.Char_ord" Complex_Main
begin

text \<open>
  The values that context keys hold and the operations of the language that
  \<open>src/vs/platform/contextkey/common/contextkey.ts\<close> applies to them: truthiness, the relational and
  equality operators on primitive values with their coercions, \<open>parseFloat\<close>, \<open>String\<close> conversion and
  \<open>Array.prototype.includes\<close>. Numbers are exact rationals with the two infinities and \<open>NaN\<close>: the
  rounding of a literal to a double is not modelled (two literals of at most 15 significant digits
  compare the same way). Strings are lists of 8-bit code units, compared as code units.
\<close>

datatype jsnum = NaN | NegInf | Fin rat | PosInf

text \<open>\<open>ContextKeyValue\<close>: a primitive value, an array of them, or an object with own properties.\<close>

datatype prim = Undefined | Null | Bool bool | Num jsnum | Str string

datatype val = Prim prim | Arr "prim list" | Obj "(string \<times> prim) list"

section \<open>Comparison of numbers\<close>

fun num_lt :: "jsnum \<Rightarrow> jsnum \<Rightarrow> bool" where
  "num_lt NaN y = False"
| "num_lt NegInf y = (case y of Fin r \<Rightarrow> True | PosInf \<Rightarrow> True | _ \<Rightarrow> False)"
| "num_lt (Fin q) y = (case y of Fin r \<Rightarrow> q < r | PosInf \<Rightarrow> True | _ \<Rightarrow> False)"
| "num_lt PosInf y = False"

definition num_eq :: "jsnum \<Rightarrow> jsnum \<Rightarrow> bool" where
  "num_eq x y \<longleftrightarrow> x = y \<and> x \<noteq> NaN"

definition num_le :: "jsnum \<Rightarrow> jsnum \<Rightarrow> bool" where
  "num_le x y \<longleftrightarrow> num_lt x y \<or> num_eq x y"

lemma num_le_iff_not_lt: "x \<noteq> NaN \<Longrightarrow> y \<noteq> NaN \<Longrightarrow> num_le x y \<longleftrightarrow> \<not> num_lt y x"
  by (cases x; cases y) (auto simp: num_le_def num_eq_def)

lemma num_lt_linear: "x \<noteq> NaN \<Longrightarrow> y \<noteq> NaN \<Longrightarrow> \<not> num_lt x y \<Longrightarrow> \<not> num_lt y x \<Longrightarrow> x = y"
  by (cases x; cases y) (auto simp: not_less)

section \<open>Reading numbers from strings\<close>

definition is_digit :: "char \<Rightarrow> bool" where
  "is_digit c \<longleftrightarrow> (let n = of_char c in 48 \<le> n \<and> n \<le> (57 :: nat))"

definition js_space :: "char \<Rightarrow> bool" where
  "js_space c \<longleftrightarrow> (let n = of_char c in n = (160 :: nat) \<or> n = 32 \<or> (9 \<le> n \<and> n \<le> 13))"

definition digits_val :: "string \<Rightarrow> nat" where
  "digits_val s = foldl (\<lambda>n c. 10 * n + (of_char c - 48)) 0 s"

definition scale10 :: "nat \<Rightarrow> int \<Rightarrow> rat" where
  "scale10 m e = (if 0 \<le> e then of_nat (m * 10 ^ nat e) else of_nat m / of_nat (10 ^ nat (- e)))"

text \<open>An optional exponent part: its value and the rest of the text.\<close>

definition exponent_part :: "string \<Rightarrow> int \<times> string" where
  "exponent_part s =
     (case s of [] \<Rightarrow> (0, s)
      | c # t \<Rightarrow>
          if c \<noteq> CHR ''e'' \<and> c \<noteq> CHR ''E'' then (0, s)
          else let neg = (t \<noteq> [] \<and> hd t = CHR ''-'');
                   u = (if t \<noteq> [] \<and> (hd t = CHR ''-'' \<or> hd t = CHR ''+'') then tl t else t);
                   ds = takeWhile is_digit u
               in if ds = [] then (0, s)
                  else ((if neg then - int (digits_val ds) else int (digits_val ds)), dropWhile is_digit u))"

text \<open>The longest prefix that is an unsigned decimal literal.\<close>

definition unsigned_literal :: "string \<Rightarrow> (jsnum \<times> string) option" where
  "unsigned_literal s =
     (if take 8 s = ''Infinity'' then Some (PosInf, drop 8 s)
      else let i = takeWhile is_digit s; r = dropWhile is_digit s;
               dot = (r \<noteq> [] \<and> hd r = CHR ''.'');
               f = (if dot then takeWhile is_digit (tl r) else []);
               r' = (if dot then dropWhile is_digit (tl r) else r)
           in if i = [] \<and> f = [] then None
              else let (e, r'') = exponent_part r'
                   in Some (Fin (scale10 (digits_val (i @ f)) (e - int (length f))), r''))"

fun num_neg :: "jsnum \<Rightarrow> jsnum" where
  "num_neg NaN = NaN" | "num_neg NegInf = PosInf" | "num_neg PosInf = NegInf" | "num_neg (Fin q) = Fin (- q)"

definition decimal_literal :: "string \<Rightarrow> (jsnum \<times> string) option" where
  "decimal_literal s =
     (case s of [] \<Rightarrow> None
      | c # t \<Rightarrow>
          if c = CHR ''-'' then map_option (\<lambda>(n, r). (num_neg n, r)) (unsigned_literal t)
          else if c = CHR ''+'' then unsigned_literal t
          else unsigned_literal s)"

definition parseFloat_str :: "string \<Rightarrow> jsnum" where
  "parseFloat_str s =
     (case decimal_literal (dropWhile js_space s) of None \<Rightarrow> NaN | Some (n, _) \<Rightarrow> n)"

definition hex_digit :: "char \<Rightarrow> nat option" where
  "hex_digit c =
     (let n = of_char c in
      if 48 \<le> n \<and> n \<le> 57 then Some (n - 48)
      else if 97 \<le> n \<and> n \<le> 102 then Some (n - 87)
      else if 65 \<le> n \<and> n \<le> 70 then Some (n - 55) else None)"

fun radix_digits :: "nat \<Rightarrow> nat \<Rightarrow> string \<Rightarrow> nat option" where
  "radix_digits b acc [] = Some acc"
| "radix_digits b acc (c # cs) =
     (case hex_digit c of None \<Rightarrow> None
      | Some d \<Rightarrow> if d < b then radix_digits b (b * acc + d) cs else None)"

definition radix_literal :: "nat \<Rightarrow> string \<Rightarrow> jsnum" where
  "radix_literal b ds =
     (case (if ds = [] then None else radix_digits b 0 ds) of None \<Rightarrow> NaN | Some n \<Rightarrow> Fin (of_nat n))"

text \<open>The conversion of a string to a number by the operators.\<close>

definition str_to_num :: "string \<Rightarrow> jsnum" where
  "str_to_num s =
     (let t = rev (dropWhile js_space (rev (dropWhile js_space s))) in
      if t = [] then Fin 0
      else if take 2 t = ''0x'' \<or> take 2 t = ''0X'' then radix_literal 16 (drop 2 t)
      else if take 2 t = ''0o'' \<or> take 2 t = ''0O'' then radix_literal 8 (drop 2 t)
      else if take 2 t = ''0b'' \<or> take 2 t = ''0B'' then radix_literal 2 (drop 2 t)
      else case decimal_literal t of Some (n, []) \<Rightarrow> n | _ \<Rightarrow> NaN)"

fun prim_to_num :: "prim \<Rightarrow> jsnum" where
  "prim_to_num Undefined = NaN"
| "prim_to_num Null = Fin 0"
| "prim_to_num (Bool b) = Fin (if b then 1 else 0)"
| "prim_to_num (Num n) = n"
| "prim_to_num (Str s) = str_to_num s"

section \<open>Conversion to strings\<close>

text \<open>The decimal printing of a double, \<open>show\<close>, is a parameter.\<close>

fun num_to_str :: "(rat \<Rightarrow> string) \<Rightarrow> jsnum \<Rightarrow> string" where
  "num_to_str show NaN = ''NaN''"
| "num_to_str show NegInf = ''-Infinity''"
| "num_to_str show PosInf = ''Infinity''"
| "num_to_str show (Fin q) = show q"

fun prim_to_str :: "(rat \<Rightarrow> string) \<Rightarrow> prim \<Rightarrow> string" where
  "prim_to_str show Undefined = ''undefined''"
| "prim_to_str show Null = ''null''"
| "prim_to_str show (Bool b) = (if b then ''true'' else ''false'')"
| "prim_to_str show (Num n) = num_to_str show n"
| "prim_to_str show (Str s) = s"

definition element_to_str :: "(rat \<Rightarrow> string) \<Rightarrow> prim \<Rightarrow> string" where
  "element_to_str show p = (if p = Undefined \<or> p = Null then [] else prim_to_str show p)"

fun val_to_str :: "(rat \<Rightarrow> string) \<Rightarrow> val \<Rightarrow> string" where
  "val_to_str show (Prim p) = prim_to_str show p"
| "val_to_str show (Arr ps) = join_str '','' (map (element_to_str show) ps)"
| "val_to_str show (Obj kvs) = ''[object Object]''"

text \<open>\<open>parseFloat(v)\<close> of any value: a number prints and reads back as itself, and the text of an
  array continues with a comma, which ends the literal, after its first element.\<close>

fun parseFloat_prim :: "prim \<Rightarrow> jsnum" where
  "parseFloat_prim (Num n) = n"
| "parseFloat_prim (Str s) = parseFloat_str s"
| "parseFloat_prim p = NaN"

fun parseFloat :: "val \<Rightarrow> jsnum" where
  "parseFloat (Prim p) = parseFloat_prim p"
| "parseFloat (Arr []) = NaN"
| "parseFloat (Arr (p # ps)) = parseFloat_prim p"
| "parseFloat (Obj kvs) = NaN"

section \<open>Operators\<close>

text \<open>\<open>!!v\<close>\<close>

fun truthy :: "val \<Rightarrow> bool" where
  "truthy (Prim Undefined) = False"
| "truthy (Prim Null) = False"
| "truthy (Prim (Bool b)) = b"
| "truthy (Prim (Num n)) = (n \<noteq> NaN \<and> n \<noteq> Fin 0)"
| "truthy (Prim (Str s)) = (s \<noteq> [])"
| "truthy (Arr ps) = True"
| "truthy (Obj kvs) = True"

text \<open>\<open>===\<close>, \<open><\<close> and \<open>==\<close> on primitive values\<close>

definition strict_eq :: "prim \<Rightarrow> prim \<Rightarrow> bool" where
  "strict_eq a b \<longleftrightarrow> a = b \<and> a \<noteq> Num NaN"

fun js_lt :: "prim \<Rightarrow> prim \<Rightarrow> bool" where
  "js_lt (Str s) (Str t) = (s < t)"
| "js_lt a b = num_lt (prim_to_num a) (prim_to_num b)"

definition nullish :: "prim \<Rightarrow> bool" where
  "nullish p \<longleftrightarrow> p = Undefined \<or> p = Null"

fun prim_loose_eq :: "prim \<Rightarrow> prim \<Rightarrow> bool" where
  "prim_loose_eq (Str s) (Str t) = (s = t)"
| "prim_loose_eq a b =
     (if nullish a \<or> nullish b then nullish a \<and> nullish b
      else num_eq (prim_to_num a) (prim_to_num b))"

text \<open>\<open>v == p\<close>: an array or object is converted to its text first.\<close>

fun loose_eq :: "(rat \<Rightarrow> string) \<Rightarrow> val \<Rightarrow> prim \<Rightarrow> bool" where
  "loose_eq show (Prim a) b = prim_loose_eq a b"
| "loose_eq show v b = (\<not> nullish b \<and> prim_loose_eq (Str (val_to_str show v)) b)"

text \<open>\<open>arr.includes(item)\<close>: an item that is an array or object is a reference, which is never one of the
  primitive elements.\<close>

fun js_includes :: "prim list \<Rightarrow> val \<Rightarrow> bool" where
  "js_includes ps (Prim p) = (p \<in> set ps)"
| "js_includes ps v = False"

lemma js_lt_Str_linear: "\<not> js_lt (Str s) (Str t) \<Longrightarrow> \<not> js_lt (Str t) (Str s) \<Longrightarrow> s = t"
  by simp

end
