(* ===== verification/Context_Key.thy ===== *)
theory Context_Key
  imports Js_Values
begin

text \<open>
  The expressions of \<open>when\<close> clauses: the classes of
  \<open>src/vs/platform/contextkey/common/contextkey.ts\<close>. A node of the tree is a value of the datatype
  \<open>expr\<close>; its last component is the field \<open>negated\<close> as the constructor receives it. The memo that
  \<open>negate\<close> later writes to that field of a node that had none is not represented: a second call
  computes the same value again, and the theorems hold for every content of the field. The method
  table of a class is a record of type \<open>IContextKeyExpression\<close>; \<open>methods\<close> is the dynamic dispatch. The
  two operations that normalize (\<open>ContextKeyAndExpr.create\<close>, \<open>ContextKeyOrExpr.create\<close>) call each other
  through \<open>negate\<close>; they are a record \<open>ops\<close> the other definitions take, tied by fuel in the theory
  \<open>Context_Key_Normal\<close>. The regular expression engine, the printing of numbers, \<open>toLowerCase\<close> and the
  constants of the platform are the parameters in \<open>host\<close>.
\<close>

section \<open>Data\<close>

record regexp =
  source :: string
  flags :: string

record host =
  isWindows :: bool
  CONSTANT_VALUES :: "string \<Rightarrow> bool option"
  toLowerCase :: "string \<Rightarrow> string"
  numToString :: "rat \<Rightarrow> string"
  regexTest :: "regexp \<Rightarrow> string \<Rightarrow> bool"

definition initialConstants ::
  "bool \<Rightarrow> bool \<Rightarrow> bool \<Rightarrow> bool \<Rightarrow> bool \<Rightarrow> bool \<Rightarrow> bool \<Rightarrow> bool \<Rightarrow> string \<Rightarrow> bool option" where
  "initialConstants isMacintosh isLinux isWin isWeb isEdge isFirefox isChrome isSafari =
     [''false'' \<mapsto> False, ''true'' \<mapsto> True, ''isMac'' \<mapsto> isMacintosh, ''isLinux'' \<mapsto> isLinux,
      ''isWindows'' \<mapsto> isWin, ''isWeb'' \<mapsto> isWeb, ''isMacNative'' \<mapsto> (isMacintosh \<and> \<not> isWeb),
      ''isEdge'' \<mapsto> isEdge, ''isFirefox'' \<mapsto> isFirefox, ''isChrome'' \<mapsto> isChrome, ''isSafari'' \<mapsto> isSafari]"

definition setConstant :: "(string \<Rightarrow> bool option) \<Rightarrow> string \<Rightarrow> bool \<Rightarrow> (string \<Rightarrow> bool option) result" where
  "setConstant C key v = (if C key \<noteq> None then Inl IllegalArgument else Inr (C(key \<mapsto> v)))"

text \<open>\<open>IContext.getValue\<close>; an absent key is \<open>undefined\<close>.\<close>

type_synonym ckcontext = "string \<Rightarrow> val"

datatype expr =
    KFalse
  | KTrue
  | KDefined string "expr option"
  | KNot string "expr option"
  | KEquals string prim "expr option"
  | KNotEquals string prim "expr option"
  | KAnd "expr list" "expr option"
  | KRegex string "regexp option"
  | KNotRegex string "regexp option"
  | KOr "expr list" "expr option"
  | KIn string string
  | KNotIn string string
  | KGreater string prim "expr option"
  | KGreaterEquals string prim "expr option"
  | KSmaller string prim "expr option"
  | KSmallerEquals string prim "expr option"

fun ContextKeyExprType :: "expr \<Rightarrow> int" where
  "ContextKeyExprType KFalse = 0"
| "ContextKeyExprType KTrue = 1"
| "ContextKeyExprType (KDefined k n) = 2"
| "ContextKeyExprType (KNot k n) = 3"
| "ContextKeyExprType (KEquals k v n) = 4"
| "ContextKeyExprType (KNotEquals k v n) = 5"
| "ContextKeyExprType (KAnd es n) = 6"
| "ContextKeyExprType (KRegex k r) = 7"
| "ContextKeyExprType (KNotRegex k r) = 8"
| "ContextKeyExprType (KOr es n) = 9"
| "ContextKeyExprType (KIn k v) = 10"
| "ContextKeyExprType (KNotIn k v) = 11"
| "ContextKeyExprType (KGreater k v n) = 12"
| "ContextKeyExprType (KGreaterEquals k v n) = 13"
| "ContextKeyExprType (KSmaller k v n) = 14"
| "ContextKeyExprType (KSmallerEquals k v n) = 15"

text \<open>The mapper; \<open>mapRegex\<close>, \<open>mapIn\<close> and \<open>mapNotIn\<close> return an object of the fixed class, given by its
  fields.\<close>

record IContextKeyExprMapper =
  mapDefined :: "string \<Rightarrow> expr"
  mapNot :: "string \<Rightarrow> expr"
  mapEquals :: "string \<Rightarrow> prim \<Rightarrow> expr"
  mapNotEquals :: "string \<Rightarrow> prim \<Rightarrow> expr"
  mapGreater :: "string \<Rightarrow> prim \<Rightarrow> expr"
  mapGreaterEquals :: "string \<Rightarrow> prim \<Rightarrow> expr"
  mapSmaller :: "string \<Rightarrow> prim \<Rightarrow> expr"
  mapSmallerEquals :: "string \<Rightarrow> prim \<Rightarrow> expr"
  mapRegex :: "string \<Rightarrow> regexp option \<Rightarrow> string \<times> regexp option"
  mapIn :: "string \<Rightarrow> string \<Rightarrow> string \<times> string"
  mapNotIn :: "string \<Rightarrow> string \<Rightarrow> string \<times> string"

text \<open>The normalizing constructors; \<open>Inr None\<close> is the result \<open>undefined\<close>.\<close>

record ops =
  and_create :: "expr option list \<Rightarrow> expr option \<Rightarrow> bool \<Rightarrow> expr option result"
  or_create :: "expr option list \<Rightarrow> expr option \<Rightarrow> bool \<Rightarrow> expr option result"

record IContextKeyExpression =
  cmp_m :: "expr \<Rightarrow> int"
  equals_m :: "expr \<Rightarrow> bool"
  substituteConstants_m :: "host \<Rightarrow> ops \<Rightarrow> expr option result"
  evaluate_m :: "host \<Rightarrow> ckcontext \<Rightarrow> bool"
  serialize_m :: "host \<Rightarrow> string"
  keys_m :: "string list"
  map_m :: "IContextKeyExprMapper \<Rightarrow> expr"
  negate_m :: "host \<Rightarrow> ops \<Rightarrow> expr option result"

section \<open>Comparison of keys and values\<close>

definition cmp1 :: "string \<Rightarrow> string \<Rightarrow> int" where
  "cmp1 key1 key2 = (if key1 < key2 then - 1 else if key2 < key1 then 1 else 0)"

definition cmp2 :: "string \<Rightarrow> prim \<Rightarrow> string \<Rightarrow> prim \<Rightarrow> int" where
  "cmp2 key1 value1 key2 value2 =
     (if key1 < key2 then - 1
      else if key2 < key1 then 1
      else if js_lt value1 value2 then - 1
      else if js_lt value2 value1 then 1
      else 0)"

definition bool_expr :: "bool \<Rightarrow> expr" where
  "bool_expr b = (if b then KTrue else KFalse)"

definition bool_str :: "bool \<Rightarrow> string" where
  "bool_str b = (if b then ''true'' else ''false'')"

text \<open>\<open>if (!this.negated) this.negated = fresh; return this.negated\<close>\<close>

definition memo_or :: "expr option \<Rightarrow> expr option result \<Rightarrow> expr option result" where
  "memo_or negated fresh = (case negated of Some n \<Rightarrow> Inr (Some n) | None \<Rightarrow> fresh)"

section \<open>The factories of the classes with constants\<close>

definition ContextKeyDefinedExpr_create :: "host \<Rightarrow> string \<Rightarrow> expr option \<Rightarrow> expr" where
  "ContextKeyDefinedExpr_create h key negated =
     (case CONSTANT_VALUES h key of
        Some constantValue \<Rightarrow> if constantValue then KTrue else KFalse
      | None \<Rightarrow> KDefined key negated)"

definition ContextKeyNotExpr_create :: "host \<Rightarrow> string \<Rightarrow> expr option \<Rightarrow> expr" where
  "ContextKeyNotExpr_create h key negated =
     (case CONSTANT_VALUES h key of
        Some constantValue \<Rightarrow> if constantValue then KFalse else KTrue
      | None \<Rightarrow> KNot key negated)"

definition ContextKeyEqualsExpr_create :: "host \<Rightarrow> string \<Rightarrow> prim \<Rightarrow> expr option \<Rightarrow> expr" where
  "ContextKeyEqualsExpr_create h key v negated =
     (case v of
        Bool b \<Rightarrow> if b then ContextKeyDefinedExpr_create h key negated else ContextKeyNotExpr_create h key negated
      | _ \<Rightarrow>
          (case CONSTANT_VALUES h key of
             Some constantValue \<Rightarrow>
               let trueValue = (if constantValue then ''true'' else ''false'')
               in if v = Str trueValue then KTrue else KFalse
           | None \<Rightarrow> KEquals key v negated))"

definition ContextKeyNotEqualsExpr_create :: "host \<Rightarrow> string \<Rightarrow> prim \<Rightarrow> expr option \<Rightarrow> expr" where
  "ContextKeyNotEqualsExpr_create h key v negated =
     (case v of
        Bool b \<Rightarrow> if b then ContextKeyNotExpr_create h key negated else ContextKeyDefinedExpr_create h key negated
      | _ \<Rightarrow>
          (case CONSTANT_VALUES h key of
             Some constantValue \<Rightarrow>
               let falseValue = (if constantValue then ''true'' else ''false'')
               in if v = Str falseValue then KFalse else KTrue
           | None \<Rightarrow> KNotEquals key v negated))"

definition withFloatOrStr :: "prim \<Rightarrow> (prim \<Rightarrow> expr) \<Rightarrow> expr" where
  "withFloatOrStr v callback =
     (let v' = (case v of Str s \<Rightarrow> if parseFloat_str s \<noteq> NaN then Num (parseFloat_str s) else v | _ \<Rightarrow> v)
      in case v' of Str s \<Rightarrow> callback v' | Num n \<Rightarrow> callback v' | _ \<Rightarrow> KFalse)"

definition ContextKeyGreaterExpr_create :: "string \<Rightarrow> prim \<Rightarrow> expr option \<Rightarrow> expr" where
  "ContextKeyGreaterExpr_create key v negated = withFloatOrStr v (\<lambda>x. KGreater key x negated)"

definition ContextKeyGreaterEqualsExpr_create :: "string \<Rightarrow> prim \<Rightarrow> expr option \<Rightarrow> expr" where
  "ContextKeyGreaterEqualsExpr_create key v negated = withFloatOrStr v (\<lambda>x. KGreaterEquals key x negated)"

definition ContextKeySmallerExpr_create :: "string \<Rightarrow> prim \<Rightarrow> expr option \<Rightarrow> expr" where
  "ContextKeySmallerExpr_create key v negated = withFloatOrStr v (\<lambda>x. KSmaller key x negated)"

definition ContextKeySmallerEqualsExpr_create :: "string \<Rightarrow> prim \<Rightarrow> expr option \<Rightarrow> expr" where
  "ContextKeySmallerEqualsExpr_create key v negated = withFloatOrStr v (\<lambda>x. KSmallerEquals key x negated)"

section \<open>The classes\<close>

definition ContextKeyFalseExpr :: IContextKeyExpression where
  "ContextKeyFalseExpr = \<lparr>
     cmp_m = (\<lambda>other. ContextKeyExprType KFalse - ContextKeyExprType other),
     equals_m = (\<lambda>other. ContextKeyExprType other = ContextKeyExprType KFalse),
     substituteConstants_m = (\<lambda>h o1. Inr (Some KFalse)),
     evaluate_m = (\<lambda>h c. False),
     serialize_m = (\<lambda>h. ''false''),
     keys_m = [],
     map_m = (\<lambda>f. KFalse),
     negate_m = (\<lambda>h o1. Inr (Some KTrue)) \<rparr>"

definition ContextKeyTrueExpr :: IContextKeyExpression where
  "ContextKeyTrueExpr = \<lparr>
     cmp_m = (\<lambda>other. ContextKeyExprType KTrue - ContextKeyExprType other),
     equals_m = (\<lambda>other. ContextKeyExprType other = ContextKeyExprType KTrue),
     substituteConstants_m = (\<lambda>h o1. Inr (Some KTrue)),
     evaluate_m = (\<lambda>h c. True),
     serialize_m = (\<lambda>h. ''true''),
     keys_m = [],
     map_m = (\<lambda>f. KTrue),
     negate_m = (\<lambda>h o1. Inr (Some KFalse)) \<rparr>"

definition ContextKeyDefinedExpr :: "string \<Rightarrow> expr option \<Rightarrow> IContextKeyExpression" where
  "ContextKeyDefinedExpr key negated = (let this = KDefined key negated in \<lparr>
     cmp_m = (\<lambda>other. case other of KDefined key' n \<Rightarrow> cmp1 key key'
                      | _ \<Rightarrow> ContextKeyExprType this - ContextKeyExprType other),
     equals_m = (\<lambda>other. case other of KDefined key' n \<Rightarrow> key = key' | _ \<Rightarrow> False),
     substituteConstants_m = (\<lambda>h o1. Inr (Some (case CONSTANT_VALUES h key of
          Some constantValue \<Rightarrow> if constantValue then KTrue else KFalse | None \<Rightarrow> this))),
     evaluate_m = (\<lambda>h c. truthy (c key)),
     serialize_m = (\<lambda>h. key),
     keys_m = [key],
     map_m = (\<lambda>f. mapDefined f key),
     negate_m = (\<lambda>h o1. memo_or negated (Inr (Some (ContextKeyNotExpr_create h key (Some this))))) \<rparr>)"

definition ContextKeyEqualsExpr :: "string \<Rightarrow> prim \<Rightarrow> expr option \<Rightarrow> IContextKeyExpression" where
  "ContextKeyEqualsExpr key v negated = (let this = KEquals key v negated in \<lparr>
     cmp_m = (\<lambda>other. case other of KEquals key' v' n \<Rightarrow> cmp2 key v key' v'
                      | _ \<Rightarrow> ContextKeyExprType this - ContextKeyExprType other),
     equals_m = (\<lambda>other. case other of KEquals key' v' n \<Rightarrow> key = key' \<and> strict_eq v v' | _ \<Rightarrow> False),
     substituteConstants_m = (\<lambda>h o1. Inr (Some (case CONSTANT_VALUES h key of
          Some constantValue \<Rightarrow>
            (let trueValue = (if constantValue then ''true'' else ''false'')
             in if v = Str trueValue then KTrue else KFalse)
        | None \<Rightarrow> this))),
     evaluate_m = (\<lambda>h c. loose_eq (numToString h) (c key) v),
     serialize_m = (\<lambda>h. key @ '' == '' @ [CHR 39] @ prim_to_str (numToString h) v @ [CHR 39]),
     keys_m = [key],
     map_m = (\<lambda>f. mapEquals f key v),
     negate_m = (\<lambda>h o1. memo_or negated (Inr (Some (ContextKeyNotEqualsExpr_create h key v (Some this))))) \<rparr>)"

definition In_evaluate :: "host \<Rightarrow> ckcontext \<Rightarrow> string \<Rightarrow> string \<Rightarrow> bool" where
  "In_evaluate h c key valueKey =
     (let item = c key in
      case c valueKey of
        Arr xs \<Rightarrow>
          if js_includes xs item then True
          else (case item of
                  Prim (Str s) \<Rightarrow>
                    if isWindows h \<and> take 8 s = ''file:///''
                    then let itemLower = toLowerCase h s
                         in list_ex (\<lambda>x. case x of Str t \<Rightarrow> toLowerCase h t = itemLower | _ \<Rightarrow> False) xs
                    else False
                | _ \<Rightarrow> False)
      | Obj kvs \<Rightarrow>
          (case item of
             Prim (Str s) \<Rightarrow>
               if s \<in> set (map fst kvs) then True
               else if isWindows h \<and> take 8 s = ''file:///''
               then let itemLower = toLowerCase h s
                    in list_ex (\<lambda>k. toLowerCase h k = itemLower) (map fst kvs)
               else False
           | _ \<Rightarrow> False)
      | Prim p \<Rightarrow> False)"

definition ContextKeyInExpr :: "string \<Rightarrow> string \<Rightarrow> IContextKeyExpression" where
  "ContextKeyInExpr key valueKey = (let this = KIn key valueKey in \<lparr>
     cmp_m = (\<lambda>other. case other of KIn key' v' \<Rightarrow> cmp2 key (Str valueKey) key' (Str v')
                      | _ \<Rightarrow> ContextKeyExprType this - ContextKeyExprType other),
     equals_m = (\<lambda>other. case other of KIn key' v' \<Rightarrow> key = key' \<and> valueKey = v' | _ \<Rightarrow> False),
     substituteConstants_m = (\<lambda>h o1. Inr (Some this)),
     evaluate_m = (\<lambda>h c. In_evaluate h c key valueKey),
     serialize_m = (\<lambda>h. key @ '' in '' @ [CHR 39] @ valueKey @ [CHR 39]),
     keys_m = [key, valueKey],
     map_m = (\<lambda>f. case mapIn f key valueKey of (k, v) \<Rightarrow> KIn k v),
     negate_m = (\<lambda>h o1. Inr (Some (KNotIn key valueKey))) \<rparr>)"

definition ContextKeyNotInExpr :: "string \<Rightarrow> string \<Rightarrow> IContextKeyExpression" where
  "ContextKeyNotInExpr key valueKey =
    (let this = KNotIn key valueKey; negated = ContextKeyInExpr key valueKey in \<lparr>
     cmp_m = (\<lambda>other. case other of KNotIn key' v' \<Rightarrow> cmp_m negated (KIn key' v')
                      | _ \<Rightarrow> ContextKeyExprType this - ContextKeyExprType other),
     equals_m = (\<lambda>other. case other of KNotIn key' v' \<Rightarrow> equals_m negated (KIn key' v') | _ \<Rightarrow> False),
     substituteConstants_m = (\<lambda>h o1. Inr (Some this)),
     evaluate_m = (\<lambda>h c. \<not> evaluate_m negated h c),
     serialize_m = (\<lambda>h. key @ '' not in '' @ [CHR 39] @ valueKey @ [CHR 39]),
     keys_m = keys_m negated,
     map_m = (\<lambda>f. case mapNotIn f key valueKey of (k, v) \<Rightarrow> KNotIn k v),
     negate_m = (\<lambda>h o1. Inr (Some (KIn key valueKey))) \<rparr>)"

definition ContextKeyNotEqualsExpr :: "string \<Rightarrow> prim \<Rightarrow> expr option \<Rightarrow> IContextKeyExpression" where
  "ContextKeyNotEqualsExpr key v negated = (let this = KNotEquals key v negated in \<lparr>
     cmp_m = (\<lambda>other. case other of KNotEquals key' v' n \<Rightarrow> cmp2 key v key' v'
                      | _ \<Rightarrow> ContextKeyExprType this - ContextKeyExprType other),
     equals_m = (\<lambda>other. case other of KNotEquals key' v' n \<Rightarrow> key = key' \<and> strict_eq v v' | _ \<Rightarrow> False),
     substituteConstants_m = (\<lambda>h o1. Inr (Some (case CONSTANT_VALUES h key of
          Some constantValue \<Rightarrow>
            (let falseValue = (if constantValue then ''true'' else ''false'')
             in if v = Str falseValue then KFalse else KTrue)
        | None \<Rightarrow> this))),
     evaluate_m = (\<lambda>h c. \<not> loose_eq (numToString h) (c key) v),
     serialize_m = (\<lambda>h. key @ '' != '' @ [CHR 39] @ prim_to_str (numToString h) v @ [CHR 39]),
     keys_m = [key],
     map_m = (\<lambda>f. mapNotEquals f key v),
     negate_m = (\<lambda>h o1. memo_or negated (Inr (Some (ContextKeyEqualsExpr_create h key v (Some this))))) \<rparr>)"

definition ContextKeyNotExpr :: "string \<Rightarrow> expr option \<Rightarrow> IContextKeyExpression" where
  "ContextKeyNotExpr key negated = (let this = KNot key negated in \<lparr>
     cmp_m = (\<lambda>other. case other of KNot key' n \<Rightarrow> cmp1 key key'
                      | _ \<Rightarrow> ContextKeyExprType this - ContextKeyExprType other),
     equals_m = (\<lambda>other. case other of KNot key' n \<Rightarrow> key = key' | _ \<Rightarrow> False),
     substituteConstants_m = (\<lambda>h o1. Inr (Some (case CONSTANT_VALUES h key of
          Some constantValue \<Rightarrow> if constantValue then KFalse else KTrue | None \<Rightarrow> this))),
     evaluate_m = (\<lambda>h c. \<not> truthy (c key)),
     serialize_m = (\<lambda>h. ''!'' @ key),
     keys_m = [key],
     map_m = (\<lambda>f. mapNot f key),
     negate_m = (\<lambda>h o1. memo_or negated (Inr (Some (ContextKeyDefinedExpr_create h key (Some this))))) \<rparr>)"

text \<open>Evaluation of a comparison: false for a bound that is not a number.\<close>

definition ContextKeyGreaterExpr :: "string \<Rightarrow> prim \<Rightarrow> expr option \<Rightarrow> IContextKeyExpression" where
  "ContextKeyGreaterExpr key v negated = (let this = KGreater key v negated in \<lparr>
     cmp_m = (\<lambda>other. case other of KGreater key' v' n \<Rightarrow> cmp2 key v key' v'
                      | _ \<Rightarrow> ContextKeyExprType this - ContextKeyExprType other),
     equals_m = (\<lambda>other. case other of KGreater key' v' n \<Rightarrow> key = key' \<and> strict_eq v v' | _ \<Rightarrow> False),
     substituteConstants_m = (\<lambda>h o1. Inr (Some this)),
     evaluate_m = (\<lambda>h c. case v of Str s \<Rightarrow> False | _ \<Rightarrow> num_lt (prim_to_num v) (parseFloat (c key))),
     serialize_m = (\<lambda>h. key @ '' > '' @ prim_to_str (numToString h) v),
     keys_m = [key],
     map_m = (\<lambda>f. mapGreater f key v),
     negate_m = (\<lambda>h o1. memo_or negated (Inr (Some (ContextKeySmallerEqualsExpr_create key v (Some this))))) \<rparr>)"

definition ContextKeyGreaterEqualsExpr :: "string \<Rightarrow> prim \<Rightarrow> expr option \<Rightarrow> IContextKeyExpression" where
  "ContextKeyGreaterEqualsExpr key v negated = (let this = KGreaterEquals key v negated in \<lparr>
     cmp_m = (\<lambda>other. case other of KGreaterEquals key' v' n \<Rightarrow> cmp2 key v key' v'
                      | _ \<Rightarrow> ContextKeyExprType this - ContextKeyExprType other),
     equals_m = (\<lambda>other. case other of KGreaterEquals key' v' n \<Rightarrow> key = key' \<and> strict_eq v v' | _ \<Rightarrow> False),
     substituteConstants_m = (\<lambda>h o1. Inr (Some this)),
     evaluate_m = (\<lambda>h c. case v of Str s \<Rightarrow> False | _ \<Rightarrow> num_le (prim_to_num v) (parseFloat (c key))),
     serialize_m = (\<lambda>h. key @ '' >= '' @ prim_to_str (numToString h) v),
     keys_m = [key],
     map_m = (\<lambda>f. mapGreaterEquals f key v),
     negate_m = (\<lambda>h o1. memo_or negated (Inr (Some (ContextKeySmallerExpr_create key v (Some this))))) \<rparr>)"

definition ContextKeySmallerExpr :: "string \<Rightarrow> prim \<Rightarrow> expr option \<Rightarrow> IContextKeyExpression" where
  "ContextKeySmallerExpr key v negated = (let this = KSmaller key v negated in \<lparr>
     cmp_m = (\<lambda>other. case other of KSmaller key' v' n \<Rightarrow> cmp2 key v key' v'
                      | _ \<Rightarrow> ContextKeyExprType this - ContextKeyExprType other),
     equals_m = (\<lambda>other. case other of KSmaller key' v' n \<Rightarrow> key = key' \<and> strict_eq v v' | _ \<Rightarrow> False),
     substituteConstants_m = (\<lambda>h o1. Inr (Some this)),
     evaluate_m = (\<lambda>h c. case v of Str s \<Rightarrow> False | _ \<Rightarrow> num_lt (parseFloat (c key)) (prim_to_num v)),
     serialize_m = (\<lambda>h. key @ '' < '' @ prim_to_str (numToString h) v),
     keys_m = [key],
     map_m = (\<lambda>f. mapSmaller f key v),
     negate_m = (\<lambda>h o1. memo_or negated (Inr (Some (ContextKeyGreaterEqualsExpr_create key v (Some this))))) \<rparr>)"

definition ContextKeySmallerEqualsExpr :: "string \<Rightarrow> prim \<Rightarrow> expr option \<Rightarrow> IContextKeyExpression" where
  "ContextKeySmallerEqualsExpr key v negated = (let this = KSmallerEquals key v negated in \<lparr>
     cmp_m = (\<lambda>other. case other of KSmallerEquals key' v' n \<Rightarrow> cmp2 key v key' v'
                      | _ \<Rightarrow> ContextKeyExprType this - ContextKeyExprType other),
     equals_m = (\<lambda>other. case other of KSmallerEquals key' v' n \<Rightarrow> key = key' \<and> strict_eq v v' | _ \<Rightarrow> False),
     substituteConstants_m = (\<lambda>h o1. Inr (Some this)),
     evaluate_m = (\<lambda>h c. case v of Str s \<Rightarrow> False | _ \<Rightarrow> num_le (parseFloat (c key)) (prim_to_num v)),
     serialize_m = (\<lambda>h. key @ '' <= '' @ prim_to_str (numToString h) v),
     keys_m = [key],
     map_m = (\<lambda>f. mapSmallerEquals f key v),
     negate_m = (\<lambda>h o1. memo_or negated (Inr (Some (ContextKeyGreaterExpr_create key v (Some this))))) \<rparr>)"

definition regexp_source :: "regexp option \<Rightarrow> string" where
  "regexp_source r = (case r of Some x \<Rightarrow> source x | None \<Rightarrow> [])"

definition ContextKeyRegexExpr :: "string \<Rightarrow> regexp option \<Rightarrow> IContextKeyExpression" where
  "ContextKeyRegexExpr key regexp = (let this = KRegex key regexp in \<lparr>
     cmp_m = (\<lambda>other. case other of
          KRegex key' r' \<Rightarrow>
            if key < key' then - 1
            else if key' < key then 1
            else let thisSource = regexp_source regexp; otherSource = regexp_source r'
                 in if thisSource < otherSource then - 1
                    else if otherSource < thisSource then 1 else 0
        | _ \<Rightarrow> ContextKeyExprType this - ContextKeyExprType other),
     equals_m = (\<lambda>other. case other of
          KRegex key' r' \<Rightarrow> key = key' \<and> regexp_source regexp = regexp_source r' | _ \<Rightarrow> False),
     substituteConstants_m = (\<lambda>h o1. Inr (Some this)),
     evaluate_m = (\<lambda>h c. case regexp of Some r \<Rightarrow> regexTest h r (val_to_str (numToString h) (c key)) | None \<Rightarrow> False),
     serialize_m = (\<lambda>h. key @ '' =~ '' @
          (case regexp of Some r \<Rightarrow> ''/'' @ source r @ ''/'' @ flags r | None \<Rightarrow> ''/invalid/'')),
     keys_m = [key],
     map_m = (\<lambda>f. case mapRegex f key regexp of (k, r) \<Rightarrow> KRegex k r),
     negate_m = (\<lambda>h o1. Inr (Some (KNotRegex key regexp))) \<rparr>)"

definition ContextKeyNotRegexExpr :: "string \<Rightarrow> regexp option \<Rightarrow> IContextKeyExpression" where
  "ContextKeyNotRegexExpr key regexp =
    (let this = KNotRegex key regexp; actual = ContextKeyRegexExpr key regexp in \<lparr>
     cmp_m = (\<lambda>other. case other of KNotRegex key' r' \<Rightarrow> cmp_m actual (KRegex key' r')
                      | _ \<Rightarrow> ContextKeyExprType this - ContextKeyExprType other),
     equals_m = (\<lambda>other. case other of KNotRegex key' r' \<Rightarrow> equals_m actual (KRegex key' r') | _ \<Rightarrow> False),
     substituteConstants_m = (\<lambda>h o1. Inr (Some this)),
     evaluate_m = (\<lambda>h c. \<not> evaluate_m actual h c),
     serialize_m = (\<lambda>h. ''!('' @ serialize_m actual h @ '')''),
     keys_m = keys_m actual,
     map_m = (\<lambda>f. case mapRegex f key regexp of (k, r) \<Rightarrow> KNotRegex k r),
     negate_m = (\<lambda>h o1. Inr (Some (KRegex key regexp))) \<rparr>)"

text \<open>The loops of \<open>cmp\<close> and \<open>equals\<close> over two arrays.\<close>

fun cmp_arrays :: "IContextKeyExpression list \<Rightarrow> expr list \<Rightarrow> int" where
  "cmp_arrays (m # ms) (e # es) = (let r = cmp_m m e in if r \<noteq> 0 then r else cmp_arrays ms es)"
| "cmp_arrays ms es = 0"

fun equals_arrays :: "IContextKeyExpression list \<Rightarrow> expr list \<Rightarrow> bool" where
  "equals_arrays (m # ms) (e # es) = (if \<not> equals_m m e then False else equals_arrays ms es)"
| "equals_arrays ms es = True"

text \<open>\<open>eliminateConstantsInArray\<close> returns the array itself when no element changed, here \<open>None\<close>. An
  element that is replaced always differs from the old one as a value, because a constant is
  replaced somewhere in it.\<close>

definition eliminateConstantsInArray ::
  "host \<Rightarrow> ops \<Rightarrow> expr list \<Rightarrow> IContextKeyExpression list \<Rightarrow> expr option list option result" where
  "eliminateConstantsInArray h o1 arr ms =
     bindr (mapr (\<lambda>m. substituteConstants_m m h o1) ms)
       (\<lambda>newArr. Inr (if newArr = map Some arr then None else Some newArr))"

text \<open>The terminals of the node over which a negation distributes.\<close>

fun getTerminals :: "expr \<Rightarrow> expr list" where
  "getTerminals (KOr es n) = es"
| "getTerminals node = [node]"

definition ContextKeyAndExpr_negate ::
  "host \<Rightarrow> ops \<Rightarrow> expr \<Rightarrow> expr option \<Rightarrow> IContextKeyExpression list \<Rightarrow> expr option result" where
  "ContextKeyAndExpr_negate h o1 this negated ms = memo_or negated
     (bindr (mapr (\<lambda>m. negate_m m h o1) ms) (\<lambda>result. or_create o1 result (Some this) True))"

definition ContextKeyAndExpr :: "expr list \<Rightarrow> expr option \<Rightarrow> IContextKeyExpression list \<Rightarrow> IContextKeyExpression" where
  "ContextKeyAndExpr expr negated ms = (let this = KAnd expr negated in \<lparr>
     cmp_m = (\<lambda>other. case other of
          KAnd expr' n \<Rightarrow>
            if length expr < length expr' then - 1
            else if length expr > length expr' then 1
            else cmp_arrays ms expr'
        | _ \<Rightarrow> ContextKeyExprType this - ContextKeyExprType other),
     equals_m = (\<lambda>other. case other of
          KAnd expr' n \<Rightarrow> if length expr \<noteq> length expr' then False else equals_arrays ms expr'
        | _ \<Rightarrow> False),
     substituteConstants_m = (\<lambda>h o1. bindr (eliminateConstantsInArray h o1 expr ms) (\<lambda>r. case r of
          None \<Rightarrow> Inr (Some this)
        | Some exprArr \<Rightarrow> and_create o1 exprArr negated False)),
     evaluate_m = (\<lambda>h c. list_all (\<lambda>m. evaluate_m m h c) ms),
     serialize_m = (\<lambda>h. join_str '' && '' (map (\<lambda>m. serialize_m m h) ms)),
     keys_m = concat (map keys_m ms),
     map_m = (\<lambda>f. KAnd (map (\<lambda>m. map_m m f) ms) None),
     negate_m = (\<lambda>h o1. ContextKeyAndExpr_negate h o1 this negated ms) \<rparr>)"

text \<open>The loop that distributes conjunction over the first two entries until one is left.\<close>

function distribute_pairs :: "ops \<Rightarrow> expr option list \<Rightarrow> expr option list result" where
  "distribute_pairs o1 result =
     (case result of
        LEFT # RIGHT # rest \<Rightarrow>
          (case (LEFT, RIGHT) of
             (Some l, Some r) \<Rightarrow>
               bindr (mapr (\<lambda>(left, right). and_create o1 [Some left, Some right] None False)
                       (concat (map (\<lambda>left. map (\<lambda>right. (left, right)) (getTerminals r)) (getTerminals l))))
                 (\<lambda>all. bindr (or_create o1 all None False) (\<lambda>e. distribute_pairs o1 (e # rest)))
           | _ \<Rightarrow> Inl TypeErr)
      | _ \<Rightarrow> Inr result)"
  by pat_completeness auto
termination by (relation "measure (\<lambda>(o1, result). length result)") auto

declare distribute_pairs.simps [simp del]

definition ContextKeyOrExpr_negate ::
  "host \<Rightarrow> ops \<Rightarrow> expr \<Rightarrow> expr option \<Rightarrow> IContextKeyExpression list \<Rightarrow> expr option result" where
  "ContextKeyOrExpr_negate h o1 this negated ms = memo_or negated
     (bindr (mapr (\<lambda>m. negate_m m h o1) ms) (\<lambda>result.
      bindr (distribute_pairs o1 result) (\<lambda>result'. or_create o1 result' (Some this) True)))"

definition ContextKeyOrExpr :: "expr list \<Rightarrow> expr option \<Rightarrow> IContextKeyExpression list \<Rightarrow> IContextKeyExpression" where
  "ContextKeyOrExpr expr negated ms = (let this = KOr expr negated in \<lparr>
     cmp_m = (\<lambda>other. case other of
          KOr expr' n \<Rightarrow>
            if length expr < length expr' then - 1
            else if length expr > length expr' then 1
            else cmp_arrays ms expr'
        | _ \<Rightarrow> ContextKeyExprType this - ContextKeyExprType other),
     equals_m = (\<lambda>other. case other of
          KOr expr' n \<Rightarrow> if length expr \<noteq> length expr' then False else equals_arrays ms expr'
        | _ \<Rightarrow> False),
     substituteConstants_m = (\<lambda>h o1. bindr (eliminateConstantsInArray h o1 expr ms) (\<lambda>r. case r of
          None \<Rightarrow> Inr (Some this)
        | Some exprArr \<Rightarrow> or_create o1 exprArr negated False)),
     evaluate_m = (\<lambda>h c. list_ex (\<lambda>m. evaluate_m m h c) ms),
     serialize_m = (\<lambda>h. join_str '' || '' (map (\<lambda>m. serialize_m m h) ms)),
     keys_m = concat (map keys_m ms),
     map_m = (\<lambda>f. KOr (map (\<lambda>m. map_m m f) ms) None),
     negate_m = (\<lambda>h o1. ContextKeyOrExpr_negate h o1 this negated ms) \<rparr>)"

section \<open>Dynamic dispatch\<close>

primrec methods :: "expr \<Rightarrow> IContextKeyExpression" where
  "methods KFalse = ContextKeyFalseExpr"
| "methods KTrue = ContextKeyTrueExpr"
| "methods (KDefined k n) = ContextKeyDefinedExpr k n"
| "methods (KNot k n) = ContextKeyNotExpr k n"
| "methods (KEquals k v n) = ContextKeyEqualsExpr k v n"
| "methods (KNotEquals k v n) = ContextKeyNotEqualsExpr k v n"
| "methods (KAnd es n) = ContextKeyAndExpr es n (map methods es)"
| "methods (KRegex k r) = ContextKeyRegexExpr k r"
| "methods (KNotRegex k r) = ContextKeyNotRegexExpr k r"
| "methods (KOr es n) = ContextKeyOrExpr es n (map methods es)"
| "methods (KIn k v) = ContextKeyInExpr k v"
| "methods (KNotIn k v) = ContextKeyNotInExpr k v"
| "methods (KGreater k v n) = ContextKeyGreaterExpr k v n"
| "methods (KGreaterEquals k v n) = ContextKeyGreaterEqualsExpr k v n"
| "methods (KSmaller k v n) = ContextKeySmallerExpr k v n"
| "methods (KSmallerEquals k v n) = ContextKeySmallerEqualsExpr k v n"

definition cmp :: "expr \<Rightarrow> expr \<Rightarrow> int" where
  "cmp a b = cmp_m (methods a) b"

definition equals :: "expr \<Rightarrow> expr \<Rightarrow> bool" where
  "equals a b = equals_m (methods a) b"

definition evaluate :: "host \<Rightarrow> ckcontext \<Rightarrow> expr \<Rightarrow> bool" where
  "evaluate h c e = evaluate_m (methods e) h c"

definition serialize :: "host \<Rightarrow> expr \<Rightarrow> string" where
  "serialize h e = serialize_m (methods e) h"

definition negate :: "host \<Rightarrow> ops \<Rightarrow> expr \<Rightarrow> expr option result" where
  "negate h o1 e = negate_m (methods e) h o1"

definition substituteConstants :: "host \<Rightarrow> ops \<Rightarrow> expr \<Rightarrow> expr option result" where
  "substituteConstants h o1 e = substituteConstants_m (methods e) h o1"

definition expressionsAreEqualWithConstantSubstitution ::
  "host \<Rightarrow> ops \<Rightarrow> expr option \<Rightarrow> expr option \<Rightarrow> bool result" where
  "expressionsAreEqualWithConstantSubstitution h o1 a b =
     bindr (case a of Some x \<Rightarrow> substituteConstants h o1 x | None \<Rightarrow> Inr None) (\<lambda>aExpr.
     bindr (case b of Some x \<Rightarrow> substituteConstants h o1 x | None \<Rightarrow> Inr None) (\<lambda>bExpr.
     Inr (case (aExpr, bExpr) of
            (None, None) \<Rightarrow> True
          | (Some x, Some y) \<Rightarrow> equals x y
          | _ \<Rightarrow> False)))"

section \<open>Provable implication\<close>

fun allElementsIncluded :: "expr list \<Rightarrow> expr list \<Rightarrow> bool" where
  "allElementsIncluded [] q = True"
| "allElementsIncluded (a # p) [] = False"
| "allElementsIncluded (a # p) (b # q) =
     (let r = cmp a b in
      if r < 0 then False
      else if r = 0 then allElementsIncluded p q
      else allElementsIncluded (a # p) q)"

fun is_And :: "expr \<Rightarrow> bool" where
  "is_And (KAnd es n) = True" | "is_And e = False"

fun is_Or :: "expr \<Rightarrow> bool" where
  "is_Or (KOr es n) = True" | "is_Or e = False"

text \<open>The field \<open>expr\<close> of the two classes that have it.\<close>

fun exprField :: "expr \<Rightarrow> expr list" where
  "exprField (KAnd es n) = es" | "exprField (KOr es n) = es" | "exprField e = []"

lemma size_mem_expr: "x \<in> set xs \<Longrightarrow> size x < Suc (size_list size xs + k)"
  by (induction xs) auto

lemma size_exprField: "x \<in> set (exprField e) \<Longrightarrow> size x < size e"
  by (cases e) (auto dest: size_mem_expr)

function implies :: "expr \<Rightarrow> expr \<Rightarrow> bool" where
  "implies p q =
     (if p = KFalse \<or> q = KTrue then True
      else if is_Or p then (if is_Or q then allElementsIncluded (exprField p) (exprField q) else False)
      else if is_Or q then list_ex (\<lambda>element. implies p element) (exprField q)
      else if is_And p then
        (if is_And q then allElementsIncluded (exprField q) (exprField p)
         else list_ex (\<lambda>element. implies element q) (exprField p))
      else equals p q)"
  by pat_completeness auto
termination
  by (relation "measure (\<lambda>(p, q). size p + size q)") (auto dest: size_exprField)

declare implies.simps [simp del]

end
