(* ===== verification/Context_Key_Normal.thy ===== *)
theory Context_Key_Normal
  imports Context_Key
begin

text \<open>
  Normalization of \<open>when\<close> clauses: \<open>_normalizeArr\<close> of \<open>ContextKeyAndExpr\<close> and \<open>ContextKeyOrExpr\<close> in
  \<open>src/vs/platform/contextkey/common/contextkey.ts\<close>. Both call each other, and call \<open>negate\<close>, which
  calls them again; \<open>ck_ops\<close> ties the calls with fuel, one unit per nested call. The first group of
  lemmas shows that whatever the fuel, a result has the meaning it should have (\<open>ops_sound\<close>). The
  second one is the bound: on expressions in disjunctive normal form whose terminals are of the
  types that sort before \<open>Or\<close>, four nested calls are enough.
\<close>

section \<open>The algorithm\<close>

text \<open>\<open>expr.sort(cmp)\<close>: the stable sort of the language.\<close>

fun insertBy :: "('a \<Rightarrow> 'a \<Rightarrow> int) \<Rightarrow> 'a \<Rightarrow> 'a list \<Rightarrow> 'a list" where
  "insertBy f x [] = [x]"
| "insertBy f x (y # ys) = (if f x y \<le> 0 then x # y # ys else y # insertBy f x ys)"

definition sortBy :: "('a \<Rightarrow> 'a \<Rightarrow> int) \<Rightarrow> 'a list \<Rightarrow> 'a list" where
  "sortBy f xs = foldr (insertBy f) xs []"

text \<open>The loop that removes an element equal to its predecessor.\<close>

fun dedup :: "expr list \<Rightarrow> expr list" where
  "dedup (x # y # zs) = (if equals x y then dedup (x # zs) else x # dedup (y # zs))"
| "dedup xs = xs"

text \<open>The loop over the operands; \<open>None\<close> is the early return of the absorbing constant.\<close>

fun and_collect :: "expr option list \<Rightarrow> expr list \<Rightarrow> bool \<Rightarrow> (expr list \<times> bool) option" where
  "and_collect [] expr hasTrue = Some (expr, hasTrue)"
| "and_collect (None # arr) expr hasTrue = and_collect arr expr hasTrue"
| "and_collect (Some e # arr) expr hasTrue =
     (if e = KTrue then and_collect arr expr True
      else if e = KFalse then None
      else if is_And e then and_collect arr (expr @ exprField e) hasTrue
      else and_collect arr (expr @ [e]) hasTrue)"

fun or_collect :: "expr option list \<Rightarrow> expr list \<Rightarrow> bool \<Rightarrow> (expr list \<times> bool) option" where
  "or_collect [] expr hasFalse = Some (expr, hasFalse)"
| "or_collect (None # arr) expr hasFalse = or_collect arr expr hasFalse"
| "or_collect (Some e # arr) expr hasFalse =
     (if e = KFalse then or_collect arr expr True
      else if e = KTrue then None
      else if is_Or e then or_collect arr (expr @ exprField e) hasFalse
      else or_collect arr (expr @ [e]) hasFalse)"

text \<open>The search for two elements one of which is the negation of the other.\<close>

fun complementOf :: "host \<Rightarrow> ops \<Rightarrow> expr \<Rightarrow> expr list \<Rightarrow> bool result" where
  "complementOf h o1 x [] = Inr False"
| "complementOf h o1 x (y # ys) =
     bindr (negate h o1 x) (\<lambda>n. case n of
        None \<Rightarrow> Inl TypeErr
      | Some e \<Rightarrow> if equals e y then Inr True else complementOf h o1 x ys)"

fun hasComplement :: "host \<Rightarrow> ops \<Rightarrow> expr list \<Rightarrow> bool result" where
  "hasComplement h o1 [] = Inr False"
| "hasComplement h o1 (x # xs) =
     bindr (complementOf h o1 x xs) (\<lambda>found. if found then Inr True else hasComplement h o1 xs)"

lemma length_insertBy [simp]: "length (insertBy f x xs) = Suc (length xs)"
  by (induction xs) auto

lemma length_sortBy [simp]: "length (sortBy f xs) = length xs"
  by (induction xs) (auto simp: sortBy_def)

text \<open>The loop that distributes a trailing disjunction over the element before it.\<close>

function and_distribute :: "ops \<Rightarrow> bool \<Rightarrow> expr list \<Rightarrow> expr list result" where
  "and_distribute o1 extraRedundantCheck expr =
     (if length expr > 1
      then let lastElement = last expr in
        if \<not> is_Or lastElement then Inr expr
        else let secondToLastElement = last (butlast expr);
                 expr' = butlast (butlast expr);
                 isFinished = (length expr' = 0)
          in bindr (mapr (\<lambda>el. and_create o1 [Some el, Some secondToLastElement] None extraRedundantCheck)
                         (exprField lastElement))
               (\<lambda>els. bindr (or_create o1 els None isFinished)
               (\<lambda>resultElement. and_distribute o1 extraRedundantCheck
                  (case resultElement of None \<Rightarrow> expr' | Some e \<Rightarrow> sortBy cmp (expr' @ [e]))))
      else Inr expr)"
  by pat_completeness auto
termination
  by (relation "measure (\<lambda>(o1, x, expr). length expr)") (auto split: option.splits)

declare and_distribute.simps [simp del]

text \<open>The part of \<open>_normalizeArr\<close> after the distribution, and after the elimination of duplicates.\<close>

definition and_resolve :: "host \<Rightarrow> ops \<Rightarrow> expr option \<Rightarrow> bool \<Rightarrow> expr list \<Rightarrow> expr option result" where
  "and_resolve h o1 negated extraRedundantCheck expr =
     (if length expr = 1 then Inr (Some (expr ! 0))
      else bindr (if extraRedundantCheck then hasComplement h o1 expr else Inr False) (\<lambda>found.
        Inr (Some (if found then KFalse else KAnd expr negated))))"

definition and_finish :: "host \<Rightarrow> ops \<Rightarrow> expr option \<Rightarrow> bool \<Rightarrow> expr list \<Rightarrow> expr option result" where
  "and_finish h o1 negated extraRedundantCheck expr =
     (if length expr = 1 then Inr (Some (expr ! 0))
      else bindr (and_distribute o1 extraRedundantCheck expr) (and_resolve h o1 negated extraRedundantCheck))"

definition ContextKeyAndExpr_normalizeArr ::
  "host \<Rightarrow> ops \<Rightarrow> expr option list \<Rightarrow> expr option \<Rightarrow> bool \<Rightarrow> expr option result" where
  "ContextKeyAndExpr_normalizeArr h o1 arr negated extraRedundantCheck =
     (case and_collect arr [] False of
        None \<Rightarrow> Inr (Some KFalse)
      | Some (expr, hasTrue) \<Rightarrow>
          if length expr = 0 \<and> hasTrue then Inr (Some KTrue)
          else if length expr = 0 then Inr None
          else if length expr = 1 then Inr (Some (expr ! 0))
          else and_finish h o1 negated extraRedundantCheck (dedup (sortBy cmp expr)))"

definition or_finish :: "host \<Rightarrow> ops \<Rightarrow> expr option \<Rightarrow> bool \<Rightarrow> expr list \<Rightarrow> expr option result" where
  "or_finish h o1 negated extraRedundantCheck expr =
     (if length expr = 1 then Inr (Some (expr ! 0))
      else bindr (if extraRedundantCheck then hasComplement h o1 expr else Inr False) (\<lambda>found.
        Inr (Some (if found then KTrue else KOr expr negated))))"

definition ContextKeyOrExpr_normalizeArr ::
  "host \<Rightarrow> ops \<Rightarrow> expr option list \<Rightarrow> expr option \<Rightarrow> bool \<Rightarrow> expr option result" where
  "ContextKeyOrExpr_normalizeArr h o1 arr negated extraRedundantCheck =
     (case or_collect arr [] False of
        None \<Rightarrow> Inr (Some KTrue)
      | Some (expr, hasFalse) \<Rightarrow>
          if length expr = 0 \<and> hasFalse then Inr (Some KFalse)
          else let expr0 = sortBy cmp expr in
            if length expr0 = 0 then Inr None
            else if length expr0 = 1 then Inr (Some (expr0 ! 0))
            else or_finish h o1 negated extraRedundantCheck (dedup expr0))"

primrec ck_ops :: "host \<Rightarrow> nat \<Rightarrow> ops" where
  "ck_ops h 0 = \<lparr> and_create = (\<lambda>arr n x. Inl OutOfFuel), or_create = (\<lambda>arr n x. Inl OutOfFuel) \<rparr>"
| "ck_ops h (Suc fuel) = \<lparr>
     and_create = ContextKeyAndExpr_normalizeArr h (ck_ops h fuel),
     or_create = ContextKeyOrExpr_normalizeArr h (ck_ops h fuel) \<rparr>"

section \<open>The methods of each class\<close>

lemmas class_defs =
  ContextKeyFalseExpr_def ContextKeyTrueExpr_def ContextKeyDefinedExpr_def ContextKeyNotExpr_def
  ContextKeyEqualsExpr_def ContextKeyNotEqualsExpr_def ContextKeyAndExpr_def ContextKeyRegexExpr_def
  ContextKeyNotRegexExpr_def ContextKeyOrExpr_def ContextKeyInExpr_def ContextKeyNotInExpr_def
  ContextKeyGreaterExpr_def ContextKeyGreaterEqualsExpr_def ContextKeySmallerExpr_def
  ContextKeySmallerEqualsExpr_def

lemma evaluate_simps [simp]:
  "evaluate h c KFalse = False"
  "evaluate h c KTrue = True"
  "evaluate h c (KDefined k n) = truthy (c k)"
  "evaluate h c (KNot k n) = (\<not> truthy (c k))"
  "evaluate h c (KEquals k v n) = loose_eq (numToString h) (c k) v"
  "evaluate h c (KNotEquals k v n) = (\<not> loose_eq (numToString h) (c k) v)"
  "evaluate h c (KAnd es n) = (\<forall>e \<in> set es. evaluate h c e)"
  "evaluate h c (KNotRegex k r) = (\<not> evaluate h c (KRegex k r))"
  "evaluate h c (KOr es n) = (\<exists>e \<in> set es. evaluate h c e)"
  "evaluate h c (KIn k v') = In_evaluate h c k v'"
  "evaluate h c (KNotIn k v') = (\<not> In_evaluate h c k v')"
  "evaluate h c (KGreater k (Num x) n) = num_lt x (parseFloat (c k))"
  "evaluate h c (KGreaterEquals k (Num x) n) = num_le x (parseFloat (c k))"
  "evaluate h c (KSmaller k (Num x) n) = num_lt (parseFloat (c k)) x"
  "evaluate h c (KSmallerEquals k (Num x) n) = num_le (parseFloat (c k)) x"
  by (simp_all add: evaluate_def class_defs Let_def list_all_iff list_ex_iff)

lemma evaluate_KRegex:
  "evaluate h c (KRegex k r) =
     (case r of Some x \<Rightarrow> regexTest h x (val_to_str (numToString h) (c k)) | None \<Rightarrow> False)"
  by (simp add: evaluate_def class_defs Let_def)

lemma evaluate_compare:
  "evaluate h c (KGreater k v n) =
     (case v of Str s \<Rightarrow> False | _ \<Rightarrow> num_lt (prim_to_num v) (parseFloat (c k)))"
  "evaluate h c (KGreaterEquals k v n) =
     (case v of Str s \<Rightarrow> False | _ \<Rightarrow> num_le (prim_to_num v) (parseFloat (c k)))"
  "evaluate h c (KSmaller k v n) =
     (case v of Str s \<Rightarrow> False | _ \<Rightarrow> num_lt (parseFloat (c k)) (prim_to_num v))"
  "evaluate h c (KSmallerEquals k v n) =
     (case v of Str s \<Rightarrow> False | _ \<Rightarrow> num_le (parseFloat (c k)) (prim_to_num v))"
  by (simp_all add: evaluate_def class_defs Let_def)

lemma equals_cases:
  "equals KFalse f = (ContextKeyExprType f = 0)"
  "equals KTrue f = (ContextKeyExprType f = 1)"
  "equals (KDefined k n) f = (case f of KDefined k' n' \<Rightarrow> k = k' | _ \<Rightarrow> False)"
  "equals (KNot k n) f = (case f of KNot k' n' \<Rightarrow> k = k' | _ \<Rightarrow> False)"
  "equals (KEquals k v n) f = (case f of KEquals k' v' n' \<Rightarrow> k = k' \<and> strict_eq v v' | _ \<Rightarrow> False)"
  "equals (KNotEquals k v n) f = (case f of KNotEquals k' v' n' \<Rightarrow> k = k' \<and> strict_eq v v' | _ \<Rightarrow> False)"
  "equals (KAnd es n) f = (case f of KAnd fs n' \<Rightarrow>
     if length es \<noteq> length fs then False else equals_arrays (map methods es) fs | _ \<Rightarrow> False)"
  "equals (KRegex k r) f = (case f of KRegex k' r' \<Rightarrow> k = k' \<and> regexp_source r = regexp_source r' | _ \<Rightarrow> False)"
  "equals (KOr es n) f = (case f of KOr fs n' \<Rightarrow>
     if length es \<noteq> length fs then False else equals_arrays (map methods es) fs | _ \<Rightarrow> False)"
  "equals (KIn k w) f = (case f of KIn k' w' \<Rightarrow> k = k' \<and> w = w' | _ \<Rightarrow> False)"
  "equals (KNotRegex k r) f = (case f of KNotRegex k' r' \<Rightarrow> k = k' \<and> regexp_source r = regexp_source r' | _ \<Rightarrow> False)"
  "equals (KNotIn k w) f = (case f of KNotIn k' w' \<Rightarrow> k = k' \<and> w = w' | _ \<Rightarrow> False)"
  "equals (KGreater k v n) f = (case f of KGreater k' v' n' \<Rightarrow> k = k' \<and> strict_eq v v' | _ \<Rightarrow> False)"
  "equals (KGreaterEquals k v n) f = (case f of KGreaterEquals k' v' n' \<Rightarrow> k = k' \<and> strict_eq v v' | _ \<Rightarrow> False)"
  "equals (KSmaller k v n) f = (case f of KSmaller k' v' n' \<Rightarrow> k = k' \<and> strict_eq v v' | _ \<Rightarrow> False)"
  "equals (KSmallerEquals k v n) f = (case f of KSmallerEquals k' v' n' \<Rightarrow> k = k' \<and> strict_eq v v' | _ \<Rightarrow> False)"
  by (simp_all add: equals_def class_defs Let_def cong: expr.case_cong)

lemma cmp_cases:
  "cmp KFalse f = 0 - ContextKeyExprType f"
  "cmp KTrue f = 1 - ContextKeyExprType f"
  "cmp (KDefined k n) f = (case f of KDefined k' n' \<Rightarrow> cmp1 k k' | _ \<Rightarrow> 2 - ContextKeyExprType f)"
  "cmp (KNot k n) f = (case f of KNot k' n' \<Rightarrow> cmp1 k k' | _ \<Rightarrow> 3 - ContextKeyExprType f)"
  "cmp (KEquals k v n) f = (case f of KEquals k' v' n' \<Rightarrow> cmp2 k v k' v' | _ \<Rightarrow> 4 - ContextKeyExprType f)"
  "cmp (KNotEquals k v n) f = (case f of KNotEquals k' v' n' \<Rightarrow> cmp2 k v k' v' | _ \<Rightarrow> 5 - ContextKeyExprType f)"
  "cmp (KAnd es n) f = (case f of KAnd fs n' \<Rightarrow>
     if length es < length fs then - 1 else if length es > length fs then 1 else cmp_arrays (map methods es) fs
     | _ \<Rightarrow> 6 - ContextKeyExprType f)"
  "cmp (KOr es n) f = (case f of KOr fs n' \<Rightarrow>
     if length es < length fs then - 1 else if length es > length fs then 1 else cmp_arrays (map methods es) fs
     | _ \<Rightarrow> 9 - ContextKeyExprType f)"
  "cmp (KGreater k v n) f = (case f of KGreater k' v' n' \<Rightarrow> cmp2 k v k' v' | _ \<Rightarrow> 12 - ContextKeyExprType f)"
  "cmp (KGreaterEquals k v n) f = (case f of KGreaterEquals k' v' n' \<Rightarrow> cmp2 k v k' v' | _ \<Rightarrow> 13 - ContextKeyExprType f)"
  "cmp (KSmaller k v n) f = (case f of KSmaller k' v' n' \<Rightarrow> cmp2 k v k' v' | _ \<Rightarrow> 14 - ContextKeyExprType f)"
  "cmp (KSmallerEquals k v n) f = (case f of KSmallerEquals k' v' n' \<Rightarrow> cmp2 k v k' v' | _ \<Rightarrow> 15 - ContextKeyExprType f)"
  by (simp_all add: cmp_def class_defs Let_def cong: expr.case_cong)

lemma cmp_cases_wrapped:
  "cmp (KRegex k r) f = (case f of KRegex k' r' \<Rightarrow> cmp2 k (Str (regexp_source r)) k' (Str (regexp_source r'))
     | _ \<Rightarrow> 7 - ContextKeyExprType f)"
  "cmp (KNotRegex k r) f = (case f of KNotRegex k' r' \<Rightarrow> cmp2 k (Str (regexp_source r)) k' (Str (regexp_source r'))
     | _ \<Rightarrow> 8 - ContextKeyExprType f)"
  "cmp (KIn k w) f = (case f of KIn k' w' \<Rightarrow> cmp2 k (Str w) k' (Str w') | _ \<Rightarrow> 10 - ContextKeyExprType f)"
  "cmp (KNotIn k w) f = (case f of KNotIn k' w' \<Rightarrow> cmp2 k (Str w) k' (Str w') | _ \<Rightarrow> 11 - ContextKeyExprType f)"
  by (cases f; simp add: cmp_def class_defs Let_def cmp2_def)+

lemma type_cases:
  "ContextKeyExprType f = 0 \<longleftrightarrow> f = KFalse"
  "ContextKeyExprType f = 1 \<longleftrightarrow> f = KTrue"
  by (cases f; simp)+

lemma negate_cases:
  "negate h o1 KFalse = Inr (Some KTrue)"
  "negate h o1 KTrue = Inr (Some KFalse)"
  "negate h o1 (KDefined k n) = memo_or n (Inr (Some (ContextKeyNotExpr_create h k (Some (KDefined k n)))))"
  "negate h o1 (KNot k n) = memo_or n (Inr (Some (ContextKeyDefinedExpr_create h k (Some (KNot k n)))))"
  "negate h o1 (KEquals k v n) = memo_or n (Inr (Some (ContextKeyNotEqualsExpr_create h k v (Some (KEquals k v n)))))"
  "negate h o1 (KNotEquals k v n) = memo_or n (Inr (Some (ContextKeyEqualsExpr_create h k v (Some (KNotEquals k v n)))))"
  "negate h o1 (KRegex k r) = Inr (Some (KNotRegex k r))"
  "negate h o1 (KNotRegex k r) = Inr (Some (KRegex k r))"
  "negate h o1 (KIn k w) = Inr (Some (KNotIn k w))"
  "negate h o1 (KNotIn k w) = Inr (Some (KIn k w))"
  "negate h o1 (KGreater k v n) = memo_or n (Inr (Some (ContextKeySmallerEqualsExpr_create k v (Some (KGreater k v n)))))"
  "negate h o1 (KGreaterEquals k v n) = memo_or n (Inr (Some (ContextKeySmallerExpr_create k v (Some (KGreaterEquals k v n)))))"
  "negate h o1 (KSmaller k v n) = memo_or n (Inr (Some (ContextKeyGreaterEqualsExpr_create k v (Some (KSmaller k v n)))))"
  "negate h o1 (KSmallerEquals k v n) = memo_or n (Inr (Some (ContextKeyGreaterExpr_create k v (Some (KSmallerEquals k v n)))))"
  by (simp_all add: negate_def class_defs Let_def)

lemma negate_KAnd:
  "negate h o1 (KAnd es n) =
     memo_or n (bindr (mapr (negate h o1) es) (\<lambda>result. or_create o1 result (Some (KAnd es n)) True))"
proof -
  have "mapr (\<lambda>m. negate_m m h o1) (map methods es) = mapr (negate h o1) es"
    by (induction es) (auto simp: negate_def)
  then show ?thesis by (simp add: negate_def ContextKeyAndExpr_def ContextKeyAndExpr_negate_def Let_def)
qed

lemma negate_KOr:
  "negate h o1 (KOr es n) =
     memo_or n (bindr (mapr (negate h o1) es) (\<lambda>result.
       bindr (distribute_pairs o1 result) (\<lambda>result'. or_create o1 result' (Some (KOr es n)) True)))"
proof -
  have "mapr (\<lambda>m. negate_m m h o1) (map methods es) = mapr (negate h o1) es"
    by (induction es) (auto simp: negate_def)
  then show ?thesis by (simp add: negate_def ContextKeyOrExpr_def ContextKeyOrExpr_negate_def Let_def)
qed

end
