(* ===== verification/Context_Key_Laws.thy ===== *)
theory Context_Key_Laws
  imports Context_Key_Normal
begin

text \<open>
  Laws of the \<open>when\<close> clauses of \<open>src/vs/platform/contextkey/common/contextkey.ts\<close>: normalization,
  negation and the substitution of constants preserve the meaning of an expression, \<open>implies\<close> is sound,
  and on disjunctive normal forms the normalization returns. \<open>ok h c e\<close> collects what the
  meaning-preserving laws need of the expression \<open>e\<close> in the context \<open>c\<close>: the context gives the
  constants their values, bounds of comparisons are numbers and the compared keys hold numbers,
  regular expressions have no flags (\<open>equals\<close> ignores them), and a stored negation is one.
\<close>

section \<open>Well-behaved expressions\<close>

definition regexp_ok :: "regexp option \<Rightarrow> bool" where
  "regexp_ok r = (case r of Some x \<Rightarrow> flags x = [] \<and> source x \<noteq> [] | None \<Rightarrow> True)"

fun is_number :: "prim \<Rightarrow> bool" where
  "is_number (Num x) = (x \<noteq> NaN)" | "is_number v = False"

fun is_bool :: "prim \<Rightarrow> bool" where
  "is_bool (Bool b) = True" | "is_bool v = False"

definition equals_ok :: "host \<Rightarrow> ckcontext \<Rightarrow> string \<Rightarrow> prim \<Rightarrow> bool" where
  "equals_ok h c k v \<longleftrightarrow> \<not> is_bool v \<and>
     (\<forall>b. CONSTANT_VALUES h k = Some b \<longrightarrow>
        (loose_eq (numToString h) (c k) v \<longleftrightarrow> v = Str (if b then ''true'' else ''false'')))"

definition defined_ok :: "host \<Rightarrow> ckcontext \<Rightarrow> string \<Rightarrow> bool" where
  "defined_ok h c k \<longleftrightarrow> (\<forall>b. CONSTANT_VALUES h k = Some b \<longrightarrow> truthy (c k) = b)"

definition compare_ok :: "ckcontext \<Rightarrow> string \<Rightarrow> prim \<Rightarrow> bool" where
  "compare_ok c k v \<longleftrightarrow> is_number v \<and> parseFloat (c k) \<noteq> NaN"

fun leaf_ok :: "host \<Rightarrow> ckcontext \<Rightarrow> expr \<Rightarrow> bool" where
  "leaf_ok h c (KDefined k n) = defined_ok h c k"
| "leaf_ok h c (KNot k n) = defined_ok h c k"
| "leaf_ok h c (KEquals k v n) = equals_ok h c k v"
| "leaf_ok h c (KNotEquals k v n) = equals_ok h c k v"
| "leaf_ok h c (KRegex k r) = regexp_ok r"
| "leaf_ok h c (KNotRegex k r) = regexp_ok r"
| "leaf_ok h c (KGreater k v n) = compare_ok c k v"
| "leaf_ok h c (KGreaterEquals k v n) = compare_ok c k v"
| "leaf_ok h c (KSmaller k v n) = compare_ok c k v"
| "leaf_ok h c (KSmallerEquals k v n) = compare_ok c k v"
| "leaf_ok h c (KAnd es n) = (es \<noteq> [])"
| "leaf_ok h c (KOr es n) = (es \<noteq> [])"
| "leaf_ok h c e = True"

fun memo :: "expr \<Rightarrow> expr option" where
  "memo (KDefined k n) = n"
| "memo (KNot k n) = n"
| "memo (KEquals k v n) = n"
| "memo (KNotEquals k v n) = n"
| "memo (KAnd es n) = n"
| "memo (KOr es n) = n"
| "memo (KGreater k v n) = n"
| "memo (KGreaterEquals k v n) = n"
| "memo (KSmaller k v n) = n"
| "memo (KSmallerEquals k v n) = n"
| "memo e = None"

inductive ok :: "host \<Rightarrow> ckcontext \<Rightarrow> expr \<Rightarrow> bool" for h c where
  okI: "leaf_ok h c e \<Longrightarrow> (\<And>x. x \<in> set (exprField e) \<Longrightarrow> ok h c x) \<Longrightarrow>
        (\<And>m. memo e = Some m \<Longrightarrow> ok h c m) \<Longrightarrow>
        (\<And>m. memo e = Some m \<Longrightarrow> evaluate h c m = (\<not> evaluate h c e)) \<Longrightarrow> ok h c e"

inductive_cases okE: "ok h c e"

lemma ok_leaf: "ok h c e \<Longrightarrow> leaf_ok h c e"
  by (erule okE) auto

lemma ok_child: "ok h c e \<Longrightarrow> x \<in> set (exprField e) \<Longrightarrow> ok h c x"
  by (erule okE) auto

lemma ok_memo: "ok h c e \<Longrightarrow> memo e = Some m \<Longrightarrow> ok h c m \<and> evaluate h c m = (\<not> evaluate h c e)"
  by (erule okE) auto

lemma ok_constants [simp]: "ok h c KTrue" "ok h c KFalse"
  by (rule okI; simp)+

lemma ok_leafI:
  "leaf_ok h c e \<Longrightarrow> exprField e = [] \<Longrightarrow> memo e = Some m \<Longrightarrow> ok h c m \<Longrightarrow>
   evaluate h c m = (\<not> evaluate h c e) \<Longrightarrow> ok h c e"
  by (rule okI) auto

section \<open>Equal expressions have equal meaning\<close>

fun regexps_ok :: "expr \<Rightarrow> bool" where
  "regexps_ok (KRegex k r) = regexp_ok r"
| "regexps_ok (KNotRegex k r) = regexp_ok r"
| "regexps_ok (KAnd es n) = (\<forall>e \<in> set es. regexps_ok e)"
| "regexps_ok (KOr es n) = (\<forall>e \<in> set es. regexps_ok e)"
| "regexps_ok e = True"

lemma ok_regexps: "ok h c e \<Longrightarrow> regexps_ok e"
proof (induction e rule: ok.induct)
  case (okI e)
  show ?case using okI.hyps(1) okI.IH(1) by (cases e) simp_all
qed

lemma regexp_ok_eq: "regexp_ok r \<Longrightarrow> regexp_ok r' \<Longrightarrow> regexp_source r = regexp_source r' \<Longrightarrow> r = r'"
  by (cases r; cases r') (auto simp: regexp_ok_def regexp_source_def)

lemma list_all2_imp_list_all2:
  "list_all2 P xs ys \<Longrightarrow> (\<And>x y. x \<in> set xs \<Longrightarrow> y \<in> set ys \<Longrightarrow> P x y \<Longrightarrow> Q x y) \<Longrightarrow> list_all2 Q xs ys"
  by (induction rule: list_all2_induct) auto

lemma list_all2_same_truth:
  assumes "list_all2 (\<lambda>x y. f x = f y) xs ys"
  shows "(\<forall>x \<in> set xs. f x) = (\<forall>y \<in> set ys. f y)" and "(\<exists>x \<in> set xs. f x) = (\<exists>y \<in> set ys. f y)"
  using assms by (induction rule: list_all2_induct) auto

lemma equals_arrays_iff:
  "length es = length fs \<Longrightarrow> equals_arrays (map methods es) fs \<longleftrightarrow> list_all2 equals es fs"
  by (induction es fs rule: list_induct2) (auto simp: equals_def)

lemma equals_KAnd: "equals (KAnd es n) f \<longleftrightarrow> (\<exists>fs n'. f = KAnd fs n' \<and> list_all2 equals es fs)"
  by (cases f) (auto simp: equals_cases equals_arrays_iff dest: list_all2_lengthD)

lemma equals_KOr: "equals (KOr es n) f \<longleftrightarrow> (\<exists>fs n'. f = KOr fs n' \<and> list_all2 equals es fs)"
  by (cases f) (auto simp: equals_cases equals_arrays_iff dest: list_all2_lengthD)

lemma equals_type: "equals e f \<Longrightarrow> ContextKeyExprType e = ContextKeyExprType f"
  by (cases e) (auto simp: equals_cases split: expr.splits if_splits)

lemma equals_leaf:
  "equals e f \<Longrightarrow> regexps_ok e \<Longrightarrow> regexps_ok f \<Longrightarrow> \<not> is_And e \<Longrightarrow> \<not> is_Or e \<Longrightarrow>
   evaluate h c e = evaluate h c f"
  by (cases e)
     (auto simp: equals_cases type_cases strict_eq_def evaluate_compare split: expr.splits
           dest: regexp_ok_eq)

lemma equals_sound:
  "equals e f \<Longrightarrow> regexps_ok e \<Longrightarrow> regexps_ok f \<Longrightarrow> evaluate h c e = evaluate h c f"
proof (induction e arbitrary: f)
  case (KAnd es n)
  then obtain fs m where f: "f = KAnd fs m" and "list_all2 equals es fs" by (auto simp: equals_KAnd)
  then have "list_all2 (\<lambda>x y. evaluate h c x = evaluate h c y) es fs"
    using KAnd by (auto elim!: list_all2_imp_list_all2)
  from list_all2_same_truth(1) [OF this] show ?case by (simp add: f)
next
  case (KOr es n)
  then obtain fs m where f: "f = KOr fs m" and "list_all2 equals es fs" by (auto simp: equals_KOr)
  then have "list_all2 (\<lambda>x y. evaluate h c x = evaluate h c y) es fs"
    using KOr by (auto elim!: list_all2_imp_list_all2)
  from list_all2_same_truth(2) [OF this] show ?case by (simp add: f)
qed (erule (2) equals_leaf; simp)+

section \<open>The loops of the normalization\<close>

lemma set_insertBy [simp]: "set (insertBy f x xs) = {x} \<union> set xs"
  by (induction xs) auto

lemma set_sortBy [simp]: "set (sortBy f xs) = set xs"
  by (induction xs) (auto simp: sortBy_def)

lemma sortBy_eq_Nil [simp]: "sortBy f xs = [] \<longleftrightarrow> xs = []"
  by (metis length_0_conv length_sortBy)

lemma dedup_subset: "set (dedup xs) \<subseteq> set xs"
  by (induction xs rule: dedup.induct) auto

lemma dedup_represented:
  "(\<forall>x \<in> set xs. regexps_ok x) \<Longrightarrow> x \<in> set xs \<Longrightarrow> \<exists>y \<in> set (dedup xs). evaluate h c y = evaluate h c x"
proof (induction xs arbitrary: x rule: dedup.induct)
  case (1 a b zs)
  show ?case
  proof (cases "equals a b")
    case True
    then have ab: "evaluate h c b = evaluate h c a" using equals_sound "1.prems"(1) by auto
    have "\<forall>z \<in> set (a # zs). regexps_ok z" using "1.prems"(1) by simp
    note IH = "1.IH"(1) [OF True this]
    consider "x = b" | "x \<in> set (a # zs)" using "1.prems"(2) by auto
    then show ?thesis
    proof cases
      case 1
      then show ?thesis using IH [of a] True ab by simp
    next
      case 2
      then show ?thesis using IH [of x] True by simp
    qed
  next
    case False
    then show ?thesis using "1.IH"(2) [OF False] "1.prems" by fastforce
  qed
qed auto

lemma dedup_nonempty: "xs \<noteq> [] \<Longrightarrow> dedup xs \<noteq> []"
  by (induction xs rule: dedup.induct) auto

lemma dedup_meaning:
  assumes "\<forall>x \<in> set xs. ok h c x"
  shows "(\<forall>x \<in> set (dedup xs). evaluate h c x) = (\<forall>x \<in> set xs. evaluate h c x)"
    and "(\<exists>x \<in> set (dedup xs). evaluate h c x) = (\<exists>x \<in> set xs. evaluate h c x)"
proof -
  have r: "\<forall>x \<in> set xs. regexps_ok x" using assms by (auto dest: ok_regexps)
  show "(\<forall>x \<in> set (dedup xs). evaluate h c x) = (\<forall>x \<in> set xs. evaluate h c x)"
    using dedup_subset [of xs] dedup_represented [OF r] by blast
  show "(\<exists>x \<in> set (dedup xs). evaluate h c x) = (\<exists>x \<in> set xs. evaluate h c x)"
    using dedup_subset [of xs] dedup_represented [OF r] by blast
qed

definition conj_of :: "host \<Rightarrow> ckcontext \<Rightarrow> expr option list \<Rightarrow> bool" where
  "conj_of h c arr \<longleftrightarrow> (\<forall>e. Some e \<in> set arr \<longrightarrow> evaluate h c e)"

definition disj_of :: "host \<Rightarrow> ckcontext \<Rightarrow> expr option list \<Rightarrow> bool" where
  "disj_of h c arr \<longleftrightarrow> (\<exists>e. Some e \<in> set arr \<and> evaluate h c e)"

definition all_ok :: "host \<Rightarrow> ckcontext \<Rightarrow> expr option list \<Rightarrow> bool" where
  "all_ok h c arr \<longleftrightarrow> (\<forall>e. Some e \<in> set arr \<longrightarrow> ok h c e)"

lemma array_simps [simp]:
  "conj_of h c []" "conj_of h c (None # arr) = conj_of h c arr"
  "conj_of h c (Some e # arr) = (evaluate h c e \<and> conj_of h c arr)"
  "\<not> disj_of h c []" "disj_of h c (None # arr) = disj_of h c arr"
  "disj_of h c (Some e # arr) = (evaluate h c e \<or> disj_of h c arr)"
  "all_ok h c []" "all_ok h c (None # arr) = all_ok h c arr"
  "all_ok h c (Some e # arr) = (ok h c e \<and> all_ok h c arr)"
  by (auto simp: conj_of_def disj_of_def all_ok_def)

lemma is_And_eq: "is_And e \<Longrightarrow> \<exists>n. e = KAnd (exprField e) n"
  by (cases e) auto

lemma is_Or_eq: "is_Or e \<Longrightarrow> \<exists>n. e = KOr (exprField e) n"
  by (cases e) auto

lemma evaluate_is_And: "is_And e \<Longrightarrow> evaluate h c e = (\<forall>x \<in> set (exprField e). evaluate h c x)"
  by (cases e) auto

lemma evaluate_is_Or: "is_Or e \<Longrightarrow> evaluate h c e = (\<exists>x \<in> set (exprField e). evaluate h c x)"
  by (cases e) auto

text \<open>What an operand contributes to the flattened array.\<close>

fun and_terms :: "expr option \<Rightarrow> expr list" where
  "and_terms None = []"
| "and_terms (Some e) = (if e = KTrue then [] else if is_And e then exprField e else [e])"

fun or_terms :: "expr option \<Rightarrow> expr list" where
  "or_terms None = []"
| "or_terms (Some e) = (if e = KFalse then [] else if is_Or e then exprField e else [e])"

lemma and_collect_eq:
  "and_collect arr acc t =
     (if Some KFalse \<in> set arr then None
      else Some (acc @ concat (map and_terms arr), t \<or> Some KTrue \<in> set arr))"
  by (induction arr acc t rule: and_collect.induct) auto

lemma or_collect_eq:
  "or_collect arr acc t =
     (if Some KTrue \<in> set arr then None
      else Some (acc @ concat (map or_terms arr), t \<or> Some KFalse \<in> set arr))"
  by (induction arr acc t rule: or_collect.induct) auto

lemma terms_ok:
  "ok h c e \<Longrightarrow> x \<in> set (and_terms (Some e)) \<Longrightarrow> ok h c x"
  "ok h c e \<Longrightarrow> x \<in> set (or_terms (Some e)) \<Longrightarrow> ok h c x"
  by (auto split: if_splits dest: ok_child)

lemma terms_meaning1:
  "e \<noteq> KFalse \<Longrightarrow> (\<forall>x \<in> set (and_terms (Some e)). evaluate h c x) = evaluate h c e"
  "e \<noteq> KTrue \<Longrightarrow> (\<exists>x \<in> set (or_terms (Some e)). evaluate h c x) = evaluate h c e"
  by (auto simp: evaluate_is_And evaluate_is_Or)

lemma terms_nonempty:
  "ok h c e \<Longrightarrow> e \<noteq> KTrue \<Longrightarrow> and_terms (Some e) \<noteq> []"
  "ok h c e \<Longrightarrow> e \<noteq> KFalse \<Longrightarrow> or_terms (Some e) \<noteq> []"
  by (auto dest: ok_leaf is_And_eq is_Or_eq split: if_splits) (cases e; auto dest: ok_leaf)+

lemma concat_terms_ok:
  "all_ok h c arr \<Longrightarrow> \<forall>x \<in> set (concat (map and_terms arr)). ok h c x"
  "all_ok h c arr \<Longrightarrow> \<forall>x \<in> set (concat (map or_terms arr)). ok h c x"
proof -
  have *: "ok h c x" if "a \<in> set arr" "x \<in> set (and_terms a) \<or> x \<in> set (or_terms a)" "all_ok h c arr" for x a
  proof (cases a)
    case (Some e)
    then have "ok h c e" using that by (simp add: all_ok_def)
    from terms_ok [OF this] that(2) Some show ?thesis by blast
  qed (use that in simp)
  then show "all_ok h c arr \<Longrightarrow> \<forall>x \<in> set (concat (map and_terms arr)). ok h c x"
    and "all_ok h c arr \<Longrightarrow> \<forall>x \<in> set (concat (map or_terms arr)). ok h c x" by auto
qed

lemma terms_meaning:
  "Some KFalse \<notin> set arr \<Longrightarrow> (\<forall>x \<in> set (concat (map and_terms arr)). evaluate h c x) = conj_of h c arr"
  "Some KTrue \<notin> set arr \<Longrightarrow> (\<exists>x \<in> set (concat (map or_terms arr)). evaluate h c x) = disj_of h c arr"
proof (induction arr)
  case (Cons a arr)
  { case 1
    then show ?case using Cons(1) terms_meaning1(1) [of "the a" h c]
      by (cases a) (auto simp del: and_terms.simps(2)) }
  { case 2
    then show ?case using Cons(2) terms_meaning1(2) [of "the a" h c]
      by (cases a) (auto simp del: or_terms.simps(2)) }
qed auto

lemma terms_empty:
  "all_ok h c arr \<Longrightarrow> concat (map and_terms arr) = [] \<Longrightarrow> Some KTrue \<notin> set arr \<Longrightarrow> set arr \<subseteq> {None}"
  "all_ok h c arr \<Longrightarrow> concat (map or_terms arr) = [] \<Longrightarrow> Some KFalse \<notin> set arr \<Longrightarrow> set arr \<subseteq> {None}"
proof -
  show "set arr \<subseteq> {None}" if "all_ok h c arr" "concat (map and_terms arr) = []" "Some KTrue \<notin> set arr"
  proof
    fix a assume "a \<in> set arr"
    then have "\<forall>e. a = Some e \<longrightarrow> ok h c e \<and> e \<noteq> KTrue \<and> and_terms a = []"
      using that unfolding all_ok_def by auto
    then show "a \<in> {None}" using terms_nonempty(1) by (cases a) (simp, blast)
  qed
  show "set arr \<subseteq> {None}" if "all_ok h c arr" "concat (map or_terms arr) = []" "Some KFalse \<notin> set arr"
  proof
    fix a assume "a \<in> set arr"
    then have "\<forall>e. a = Some e \<longrightarrow> ok h c e \<and> e \<noteq> KFalse \<and> or_terms a = []"
      using that unfolding all_ok_def by auto
    then show "a \<in> {None}" using terms_nonempty(2) by (cases a) (simp, blast)
  qed
qed

section \<open>Soundness of the calls\<close>

text \<open>A result has the meaning of the conjunction, or the disjunction, of the operands; it is
  \<open>undefined\<close> only when there are none.\<close>

definition and_result :: "host \<Rightarrow> ckcontext \<Rightarrow> expr option list \<Rightarrow> expr option \<Rightarrow> bool" where
  "and_result h c arr r \<longleftrightarrow>
     (case r of None \<Rightarrow> set arr \<subseteq> {None} | Some e \<Rightarrow> ok h c e \<and> evaluate h c e = conj_of h c arr)"

definition or_result :: "host \<Rightarrow> ckcontext \<Rightarrow> expr option list \<Rightarrow> expr option \<Rightarrow> bool" where
  "or_result h c arr r \<longleftrightarrow>
     (case r of None \<Rightarrow> set arr \<subseteq> {None} | Some e \<Rightarrow> ok h c e \<and> evaluate h c e = disj_of h c arr)"

definition memo_ok :: "host \<Rightarrow> ckcontext \<Rightarrow> expr option \<Rightarrow> bool \<Rightarrow> bool" where
  "memo_ok h c n b \<longleftrightarrow> (\<forall>m. n = Some m \<longrightarrow> ok h c m \<and> evaluate h c m = (\<not> b))"

definition ops_sound :: "host \<Rightarrow> ckcontext \<Rightarrow> ops \<Rightarrow> bool" where
  "ops_sound h c o1 \<longleftrightarrow>
     (\<forall>arr n x r. all_ok h c arr \<longrightarrow> memo_ok h c n (conj_of h c arr) \<longrightarrow>
        and_create o1 arr n x = Inr r \<longrightarrow> and_result h c arr r) \<and>
     (\<forall>arr n x r. all_ok h c arr \<longrightarrow> memo_ok h c n (disj_of h c arr) \<longrightarrow>
        or_create o1 arr n x = Inr r \<longrightarrow> or_result h c arr r)"

lemma ops_sound_and:
  "ops_sound h c o1 \<Longrightarrow> and_create o1 arr n x = Inr r \<Longrightarrow> all_ok h c arr \<Longrightarrow>
   memo_ok h c n (conj_of h c arr) \<Longrightarrow> and_result h c arr r"
  unfolding ops_sound_def by blast

lemma ops_sound_or:
  "ops_sound h c o1 \<Longrightarrow> or_create o1 arr n x = Inr r \<Longrightarrow> all_ok h c arr \<Longrightarrow>
   memo_ok h c n (disj_of h c arr) \<Longrightarrow> or_result h c arr r"
  unfolding ops_sound_def by blast

lemma memo_ok_None [simp]: "memo_ok h c None b"
  by (simp add: memo_ok_def)

lemma ok_KAnd:
  "\<forall>e \<in> set es. ok h c e \<Longrightarrow> es \<noteq> [] \<Longrightarrow> memo_ok h c n (\<forall>e \<in> set es. evaluate h c e) \<Longrightarrow> ok h c (KAnd es n)"
  by (rule okI) (auto simp: memo_ok_def)

lemma ok_KOr:
  "\<forall>e \<in> set es. ok h c e \<Longrightarrow> es \<noteq> [] \<Longrightarrow> memo_ok h c n (\<exists>e \<in> set es. evaluate h c e) \<Longrightarrow> ok h c (KOr es n)"
  by (rule okI) (auto simp: memo_ok_def)

lemma mapr_Inr_iff: "mapr f xs = Inr ys \<longleftrightarrow> list_all2 (\<lambda>x y. f x = Inr y) xs ys"
  by (induction xs arbitrary: ys)
     (auto simp: bindr_eq_Inr_iff list_all2_Cons1)

text \<open>Negation of a leaf, and of a node given the negations of its parts.\<close>

definition negation_of :: "host \<Rightarrow> ckcontext \<Rightarrow> expr \<Rightarrow> expr option \<Rightarrow> bool" where
  "negation_of h c e r \<longleftrightarrow> (\<exists>e'. r = Some e' \<and> ok h c e' \<and> evaluate h c e' = (\<not> evaluate h c e))"

lemma negation_memo:
  "ok h c e \<Longrightarrow> memo e = Some m \<Longrightarrow> negation_of h c e (Some m)"
  by (auto simp: negation_of_def dest: ok_memo)

lemma negation_fresh:
  assumes "ok h c e" and "memo e' = Some e" and "exprField e' = []" and "leaf_ok h c e'"
    and "evaluate h c e' = (\<not> evaluate h c e)"
  shows "negation_of h c e (Some e')"
proof -
  have "ok h c e'"
    by (rule ok_leafI [OF assms(4,3,2,1)]) (simp only: assms(5) not_not)
  with assms(5) show ?thesis unfolding negation_of_def by (intro exI [of _ e'] conjI refl)
qed

lemma negation_plain:
  assumes "memo e' = None" and "exprField e' = []" and "leaf_ok h c e'"
    and "evaluate h c e' = (\<not> evaluate h c e)"
  shows "negation_of h c e (Some e')"
proof -
  have "ok h c e'" by (rule okI) (simp_all add: assms)
  then show ?thesis using assms(4) by (simp add: negation_of_def)
qed

lemma is_number_ex: "is_number v \<Longrightarrow> \<exists>x. v = Num x \<and> x \<noteq> NaN"
  by (cases v) auto

lemma negation_defined:
  assumes "ok h c (KDefined k n)"
  shows "negation_of h c (KDefined k n) (Some (ContextKeyNotExpr_create h k (Some (KDefined k n))))"
  using ok_leaf [OF assms] negation_fresh [OF assms, of "KNot k (Some (KDefined k n))"]
  by (cases "CONSTANT_VALUES h k")
     (auto simp: ContextKeyNotExpr_create_def defined_ok_def intro!: negation_plain)

lemma negation_not:
  assumes "ok h c (KNot k n)"
  shows "negation_of h c (KNot k n) (Some (ContextKeyDefinedExpr_create h k (Some (KNot k n))))"
  using ok_leaf [OF assms] negation_fresh [OF assms, of "KDefined k (Some (KNot k n))"]
  by (cases "CONSTANT_VALUES h k")
     (auto simp: ContextKeyDefinedExpr_create_def defined_ok_def intro!: negation_plain)

lemma equals_create_nonbool:
  assumes "\<not> is_bool v"
  shows "ContextKeyEqualsExpr_create h k v n =
      (case CONSTANT_VALUES h k of
         Some b \<Rightarrow> if v = Str (if b then ''true'' else ''false'') then KTrue else KFalse
       | None \<Rightarrow> KEquals k v n)"
    and "ContextKeyNotEqualsExpr_create h k v n =
      (case CONSTANT_VALUES h k of
         Some b \<Rightarrow> if v = Str (if b then ''true'' else ''false'') then KFalse else KTrue
       | None \<Rightarrow> KNotEquals k v n)"
  using assms unfolding ContextKeyEqualsExpr_create_def ContextKeyNotEqualsExpr_create_def Let_def
  by (cases v; simp)+

lemma negation_equals:
  assumes "ok h c (KEquals k v n)"
  shows "negation_of h c (KEquals k v n) (Some (ContextKeyNotEqualsExpr_create h k v (Some (KEquals k v n))))"
proof -
  have e: "equals_ok h c k v" using ok_leaf [OF assms] by simp
  then have nb: "\<not> is_bool v" by (simp add: equals_ok_def)
  show ?thesis
  proof (cases "CONSTANT_VALUES h k")
    case None
    then show ?thesis
      using e by (simp add: equals_create_nonbool [OF nb]) (rule negation_fresh [OF assms]; simp)
  next
    case (Some b)
    then show ?thesis
      using e by (auto simp: equals_create_nonbool [OF nb] equals_ok_def intro!: negation_plain)
  qed
qed

lemma negation_not_equals:
  assumes "ok h c (KNotEquals k v n)"
  shows "negation_of h c (KNotEquals k v n) (Some (ContextKeyEqualsExpr_create h k v (Some (KNotEquals k v n))))"
proof -
  have e: "equals_ok h c k v" using ok_leaf [OF assms] by simp
  then have nb: "\<not> is_bool v" by (simp add: equals_ok_def)
  show ?thesis
  proof (cases "CONSTANT_VALUES h k")
    case None
    then show ?thesis
      using e by (simp add: equals_create_nonbool [OF nb]) (rule negation_fresh [OF assms]; simp)
  next
    case (Some b)
    then show ?thesis
      using e by (auto simp: equals_create_nonbool [OF nb] equals_ok_def intro!: negation_plain)
  qed
qed

lemma withFloatOrStr_Num [simp]: "withFloatOrStr (Num x) f = f (Num x)"
  by (simp add: withFloatOrStr_def)

lemmas compare_create_defs =
  ContextKeyGreaterExpr_create_def ContextKeyGreaterEqualsExpr_create_def
  ContextKeySmallerExpr_create_def ContextKeySmallerEqualsExpr_create_def

lemma num_le_not_lt:
  "x \<noteq> NaN \<Longrightarrow> y \<noteq> NaN \<Longrightarrow> num_le x y = (\<not> num_lt y x)"
  by (rule num_le_iff_not_lt)

lemma negation_greater:
  assumes "ok h c (KGreater k v n)"
  shows "negation_of h c (KGreater k v n) (Some (ContextKeySmallerEqualsExpr_create k v (Some (KGreater k v n))))"
  using ok_leaf [OF assms] negation_fresh [OF assms, of "KSmallerEquals k v (Some (KGreater k v n))"]
  by (auto simp: compare_create_defs compare_ok_def num_le_not_lt dest!: is_number_ex)

lemma negation_greater_equals:
  assumes "ok h c (KGreaterEquals k v n)"
  shows "negation_of h c (KGreaterEquals k v n) (Some (ContextKeySmallerExpr_create k v (Some (KGreaterEquals k v n))))"
  using ok_leaf [OF assms] negation_fresh [OF assms, of "KSmaller k v (Some (KGreaterEquals k v n))"]
  by (auto simp: compare_create_defs compare_ok_def num_le_not_lt dest!: is_number_ex)

lemma negation_smaller:
  assumes "ok h c (KSmaller k v n)"
  shows "negation_of h c (KSmaller k v n) (Some (ContextKeyGreaterEqualsExpr_create k v (Some (KSmaller k v n))))"
  using ok_leaf [OF assms] negation_fresh [OF assms, of "KGreaterEquals k v (Some (KSmaller k v n))"]
  by (auto simp: compare_create_defs compare_ok_def num_le_not_lt dest!: is_number_ex)

lemma negation_smaller_equals:
  assumes "ok h c (KSmallerEquals k v n)"
  shows "negation_of h c (KSmallerEquals k v n) (Some (ContextKeyGreaterExpr_create k v (Some (KSmallerEquals k v n))))"
  using ok_leaf [OF assms] negation_fresh [OF assms, of "KGreater k v (Some (KSmallerEquals k v n))"]
  by (auto simp: compare_create_defs compare_ok_def num_le_not_lt dest!: is_number_ex)

lemma negation_wrapped:
  "negation_of h c KFalse (Some KTrue)"
  "negation_of h c KTrue (Some KFalse)"
  "ok h c (KRegex k r) \<Longrightarrow> negation_of h c (KRegex k r) (Some (KNotRegex k r))"
  "ok h c (KNotRegex k r) \<Longrightarrow> negation_of h c (KNotRegex k r) (Some (KRegex k r))"
  "negation_of h c (KIn k w) (Some (KNotIn k w))"
  "negation_of h c (KNotIn k w) (Some (KIn k w))"
  by (rule negation_plain; (drule ok_leaf)?; simp)+

lemmas negation_leaf = negation_wrapped negation_defined negation_not negation_equals negation_not_equals
  negation_greater negation_greater_equals negation_smaller negation_smaller_equals

lemma memo_orD: "memo_or n f = Inr r \<Longrightarrow> (\<exists>m. n = Some m \<and> r = Some m) \<or> (n = None \<and> f = Inr r)"
  by (cases n) (auto simp: memo_or_def)

lemma negate_leaf_sound:
  assumes "ok h c e" and "negate h o1 e = Inr r" and "\<not> is_And e" and "\<not> is_Or e"
  shows "negation_of h c e r"
proof (cases "memo e")
  case (Some m)
  then show ?thesis using assms negation_memo [OF assms(1) Some]
    by (cases e) (simp_all add: negate_cases memo_or_def)
next
  case None
  then show ?thesis using assms ok_leaf [OF assms(1)]
    by (cases e) (simp_all add: negate_cases memo_or_def negation_leaf, (clarify, simp add: negation_leaf)+)
qed

lemma conj_of_map_Some: "conj_of h c (map Some es) = (\<forall>e \<in> set es. evaluate h c e)"
  by (auto simp: conj_of_def)

lemma negations_meaning:
  assumes "list_all2 (negation_of h c) es rs"
  shows "all_ok h c rs" and "None \<notin> set rs"
    and "disj_of h c rs = (\<not> (\<forall>e \<in> set es. evaluate h c e))"
    and "conj_of h c rs = (\<not> (\<exists>e \<in> set es. evaluate h c e))"
  using assms by (induction rule: list_all2_induct) (auto simp: negation_of_def)

text \<open>A non-empty array without holes has a defined conjunction and disjunction.\<close>

lemma and_result_Some:
  "and_result h c arr r \<Longrightarrow> arr \<noteq> [] \<Longrightarrow> None \<notin> set arr \<Longrightarrow>
   \<exists>e. r = Some e \<and> ok h c e \<and> evaluate h c e = conj_of h c arr"
  by (cases r; cases arr) (auto simp: and_result_def)

lemma or_result_Some:
  "or_result h c arr r \<Longrightarrow> arr \<noteq> [] \<Longrightarrow> None \<notin> set arr \<Longrightarrow>
   \<exists>e. r = Some e \<and> ok h c e \<and> evaluate h c e = disj_of h c arr"
  by (cases r; cases arr) (auto simp: or_result_def)

lemma terminals_ok:
  assumes "ok h c e"
  shows "getTerminals e \<noteq> []" and "\<forall>x \<in> set (getTerminals e). ok h c x"
    and "(\<exists>x \<in> set (getTerminals e). evaluate h c x) = evaluate h c e"
  using assms ok_leaf [OF assms] ok_child [OF assms] by (cases e; simp)+

lemma and_pairs_meaning:
  assumes s: "ops_sound h c o1"
    and p: "list_all2 (\<lambda>(a, b) y. and_create o1 [Some a, Some b] None x = Inr y) ps ys"
    and o: "\<forall>(a, b) \<in> set ps. ok h c a \<and> ok h c b"
  shows "all_ok h c ys \<and> None \<notin> set ys \<and>
         disj_of h c ys = (\<exists>(a, b) \<in> set ps. evaluate h c a \<and> evaluate h c b)"
  using p o
proof (induction rule: list_all2_induct)
  case (Cons p ps y ys)
  obtain a b where p: "p = (a, b)" by (cases p)
  from Cons.hyps(1) have "and_create o1 [Some a, Some b] None x = Inr y" by (simp add: p)
  from ops_sound_and [OF s this] Cons.prems p have "and_result h c [Some a, Some b] y" by simp
  then obtain e where "y = Some e" "ok h c e" "evaluate h c e = (evaluate h c a \<and> evaluate h c b)"
    using and_result_Some by fastforce
  then show ?case using Cons p by auto
qed simp

lemma distribute_pairs_meaning:
  assumes "ops_sound h c o1"
  shows "distribute_pairs o1 rs = Inr rs' \<Longrightarrow> all_ok h c rs \<Longrightarrow> None \<notin> set rs \<Longrightarrow>
    all_ok h c rs' \<and> None \<notin> set rs' \<and> conj_of h c rs' = conj_of h c rs \<and> length rs' = min 1 (length rs)"
proof (induction "length rs" arbitrary: rs)
  case 0
  then show ?case by (simp add: distribute_pairs.simps [of o1 "[]"])
next
  case (Suc n)
  show ?case
  proof (cases "\<exists>l r rest. rs = Some l # Some r # rest")
    case False
    then obtain e where "rs = [Some e]" using Suc(2,5)
      by (cases rs; cases "tl rs"; cases "hd rs"; cases "hd (tl rs)"; auto)
    with Suc.prems(1) have "rs' = rs" by (simp add: distribute_pairs.simps [of o1 "[Some e]"])
    then show ?thesis using Suc.prems \<open>rs = [Some e]\<close> by simp
  next
    case True
    then obtain l r rest where rs: "rs = Some l # Some r # rest" by blast
    let ?ps = "concat (map (\<lambda>left. map (\<lambda>right. (left, right)) (getTerminals r)) (getTerminals l))"
    from Suc.prems(1) rs obtain all e where
      1: "mapr (\<lambda>(left, right). and_create o1 [Some left, Some right] None False) ?ps = Inr all" and
      2: "or_create o1 all None False = Inr e" and 3: "distribute_pairs o1 (e # rest) = Inr rs'"
      by (auto simp: distribute_pairs.simps [of o1 "Some l # Some r # rest"] bindr_eq_Inr_iff)
    have ok: "ok h c l" "ok h c r" using Suc.prems(2) rs by simp_all
    note tl = terminals_ok [OF ok(1)] and tr = terminals_ok [OF ok(2)]
    have a: "all_ok h c all \<and> None \<notin> set all \<and>
        disj_of h c all = (\<exists>(a, b) \<in> set ?ps. evaluate h c a \<and> evaluate h c b)"
      by (rule and_pairs_meaning [OF assms, where x = False])
         (use 1 tl tr in \<open>auto simp: mapr_Inr_iff split_def\<close>)
    moreover have "(\<exists>(a, b) \<in> set ?ps. evaluate h c a \<and> evaluate h c b) = (evaluate h c l \<and> evaluate h c r)"
      unfolding tl(3) [symmetric] tr(3) [symmetric] by auto
    moreover have "all \<noteq> []"
    proof -
      have "?ps \<noteq> []" using tl(1) tr(1) by (cases "getTerminals l"; cases "getTerminals r") auto
      then show ?thesis using 1 by (auto simp: mapr_Inr_iff)
    qed
    ultimately obtain d where d: "e = Some d" "ok h c d" "evaluate h c d = (evaluate h c l \<and> evaluate h c r)"
      using or_result_Some [OF ops_sound_or [OF assms 2]] by auto
    have "all_ok h c (e # rest)" "None \<notin> set (e # rest)" "n = length (e # rest)"
      using d Suc.prems Suc.hyps(2) rs by auto
    from Suc.hyps(1) [OF this(3) 3 this(1,2)] show ?thesis using d rs by auto
  qed
qed

lemma negate_sound:
  assumes s: "ops_sound h c o1"
  shows "ok h c e \<Longrightarrow> negate h o1 e = Inr r \<Longrightarrow> negation_of h c e r"
proof (induction e arbitrary: r)
  case (KAnd es n)
  from memo_orD [OF KAnd.prems(2) [unfolded negate_KAnd]] show ?case
  proof
    assume "\<exists>m. n = Some m \<and> r = Some m"
    then show ?thesis using negation_memo [OF KAnd.prems(1)] by auto
  next
    assume "n = None \<and> bindr (mapr (negate h o1) es) (\<lambda>result. or_create o1 result (Some (KAnd es n)) True) = Inr r"
    then obtain rs where 1: "list_all2 (\<lambda>x y. negate h o1 x = Inr y) es rs"
      and 2: "or_create o1 rs (Some (KAnd es n)) True = Inr r"
      by (auto simp: bindr_eq_Inr_iff mapr_Inr_iff)
    have *: "list_all2 (negation_of h c) es rs"
      using 1 by (rule list_all2_imp_list_all2) (use KAnd.IH ok_child [OF KAnd.prems(1)] in auto)
    note m = negations_meaning [OF *]
    have "memo_ok h c (Some (KAnd es n)) (disj_of h c rs)"
      using KAnd.prems(1) by (simp add: memo_ok_def m(3))
    from or_result_Some [OF ops_sound_or [OF s 2 m(1) this]] m ok_leaf [OF KAnd.prems(1)] *
    show ?thesis by (auto simp: negation_of_def)
  qed
next
  case (KOr es n)
  from memo_orD [OF KOr.prems(2) [unfolded negate_KOr]] show ?case
  proof
    assume "\<exists>m. n = Some m \<and> r = Some m"
    then show ?thesis using negation_memo [OF KOr.prems(1)] by auto
  next
    assume "n = None \<and> bindr (mapr (negate h o1) es) (\<lambda>result. bindr (distribute_pairs o1 result)
       (\<lambda>result'. or_create o1 result' (Some (KOr es n)) True)) = Inr r"
    then obtain rs rs' where 1: "list_all2 (\<lambda>x y. negate h o1 x = Inr y) es rs"
      and 2: "distribute_pairs o1 rs = Inr rs'" and 3: "or_create o1 rs' (Some (KOr es n)) True = Inr r"
      by (auto simp: bindr_eq_Inr_iff mapr_Inr_iff)
    have *: "list_all2 (negation_of h c) es rs"
      using 1 by (rule list_all2_imp_list_all2) (use KOr.IH ok_child [OF KOr.prems(1)] in auto)
    note m = negations_meaning [OF *]
    from distribute_pairs_meaning [OF s 2 m(1,2)]
    have d: "all_ok h c rs'" "None \<notin> set rs'" "conj_of h c rs' = conj_of h c rs" "length rs' = min 1 (length rs)"
      by auto
    have "rs \<noteq> []" using * ok_leaf [OF KOr.prems(1)] by auto
    with d(2,4) obtain e where e: "rs' = [Some e]" by (cases rs'; cases "hd rs'") (auto split: if_splits simp: min_def)
    have v: "evaluate h c e = (\<not> evaluate h c (KOr es n))" using d(3) m(4) by (simp add: e)
    then have "memo_ok h c (Some (KOr es n)) (disj_of h c rs')"
      using KOr.prems(1) by (simp add: memo_ok_def e)
    from or_result_Some [OF ops_sound_or [OF s 3 d(1) this]] v e show ?thesis by (auto simp: negation_of_def)
  qed
qed (erule (1) negate_leaf_sound; simp)+

lemma complementOf_sound:
  assumes "ops_sound h c o1" and "ok h c x"
  shows "complementOf h o1 x ys = Inr True \<Longrightarrow> \<forall>y \<in> set ys. ok h c y \<Longrightarrow>
    \<exists>y \<in> set ys. evaluate h c y = (\<not> evaluate h c x)"
proof (induction ys)
  case (Cons y ys)
  from Cons.prems(1) obtain n where n: "negate h o1 x = Inr n" by (auto simp: bindr_eq_Inr_iff)
  obtain e where e: "n = Some e" "ok h c e" "evaluate h c e = (\<not> evaluate h c x)"
    using negate_sound [OF assms(1,2) n] by (auto simp: negation_of_def)
  show ?case
  proof (cases "equals e y")
    case True
    then show ?thesis using e Cons.prems(2) by (auto dest: equals_sound [where h = h and c = c] intro: ok_regexps)
  next
    case False
    then show ?thesis using Cons e n by auto
  qed
qed simp

lemma hasComplement_sound:
  assumes "ops_sound h c o1"
  shows "hasComplement h o1 xs = Inr True \<Longrightarrow> \<forall>x \<in> set xs. ok h c x \<Longrightarrow>
    \<exists>x \<in> set xs. \<exists>y \<in> set xs. evaluate h c y = (\<not> evaluate h c x)"
proof (induction xs)
  case (Cons x xs)
  from Cons.prems(1) obtain f where f: "complementOf h o1 x xs = Inr f" by (auto simp: bindr_eq_Inr_iff)
  show ?case
  proof (cases f)
    case True
    then show ?thesis using complementOf_sound [OF assms] f Cons.prems(2) by fastforce
  next
    case False
    then show ?thesis using Cons f by auto
  qed
qed simp

section \<open>Soundness of the normalization\<close>

lemma and_distribute_sound:
  assumes s: "ops_sound h c o1"
  shows "and_distribute o1 x xs = Inr ys \<Longrightarrow> \<forall>e \<in> set xs. ok h c e \<Longrightarrow> xs \<noteq> [] \<Longrightarrow>
    (\<forall>e \<in> set ys. ok h c e) \<and> ys \<noteq> [] \<and>
    (\<forall>e \<in> set ys. evaluate h c e) = (\<forall>e \<in> set xs. evaluate h c e)"
proof (induction "length xs" arbitrary: xs rule: less_induct)
  case less
  show ?case
  proof (cases "length xs > 1 \<and> is_Or (last xs)")
    case False
    then have "ys = xs" using less.prems(1) by (auto simp: and_distribute.simps [of o1 x xs] split: if_splits)
    then show ?thesis using less.prems by simp
  next
    case True
    then obtain zs a b where xs: "xs = zs @ [a, b]"
      by (cases xs rule: rev_cases; cases "butlast xs" rule: rev_cases) auto
    have b: "is_Or b" using True xs by simp
    from less.prems(1) [unfolded xs] b obtain els r where
      1: "mapr (\<lambda>el. and_create o1 [Some el, Some a] None x) (exprField b) = Inr els" and
      2: "or_create o1 els None (length zs = 0) = Inr r" and
      3: "and_distribute o1 x (case r of None \<Rightarrow> zs | Some e \<Rightarrow> sortBy cmp (zs @ [e])) = Inr ys"
      by (auto simp: and_distribute.simps [of o1 x "zs @ [a, b]"] Let_def bindr_eq_Inr_iff butlast_append)
    have okab: "ok h c a" "ok h c b" using less.prems(2) xs by simp_all
    have "list_all2 (\<lambda>(p, q) y. and_create o1 [Some p, Some q] None x = Inr y) (map (\<lambda>el. (el, a)) (exprField b)) els"
      using 1 by (simp add: mapr_Inr_iff list_all2_map1)
    from and_pairs_meaning [OF s this] ok_child [OF okab(2)] okab(1)
    have m: "all_ok h c els" "None \<notin> set els"
      "disj_of h c els = ((\<exists>e \<in> set (exprField b). evaluate h c e) \<and> evaluate h c a)" by auto
    have "els \<noteq> []" using 1 ok_leaf [OF okab(2)] is_Or_eq [OF b] by (cases b) (auto simp: mapr_Inr_iff)
    with or_result_Some [OF ops_sound_or [OF s 2 m(1)]] m
    obtain e where e: "r = Some e" "ok h c e" "evaluate h c e = (evaluate h c b \<and> evaluate h c a)"
      by (auto simp: evaluate_is_Or [OF b])
    show ?thesis
      using less.hyps [of "sortBy cmp (zs @ [e])"] 3 e less.prems(2) by (auto simp: xs)
  qed
qed

lemma flat_meaning:
  assumes "\<forall>x \<in> set xs. ok h c x"
  shows "\<forall>x \<in> set (dedup (sortBy cmp xs)). ok h c x"
    and "(\<forall>x \<in> set (dedup (sortBy cmp xs)). evaluate h c x) = (\<forall>x \<in> set xs. evaluate h c x)"
    and "(\<exists>x \<in> set (dedup (sortBy cmp xs)). evaluate h c x) = (\<exists>x \<in> set xs. evaluate h c x)"
    and "xs \<noteq> [] \<Longrightarrow> dedup (sortBy cmp xs) \<noteq> []"
proof -
  have o: "\<forall>x \<in> set (sortBy cmp xs). ok h c x" using assms by simp
  show "\<forall>x \<in> set (dedup (sortBy cmp xs)). ok h c x" using o dedup_subset by blast
  show "(\<forall>x \<in> set (dedup (sortBy cmp xs)). evaluate h c x) = (\<forall>x \<in> set xs. evaluate h c x)"
    and "(\<exists>x \<in> set (dedup (sortBy cmp xs)). evaluate h c x) = (\<exists>x \<in> set xs. evaluate h c x)"
    using dedup_meaning [OF o] by simp_all
  show "xs \<noteq> [] \<Longrightarrow> dedup (sortBy cmp xs) \<noteq> []"
    by (metis dedup_nonempty length_0_conv length_sortBy)
qed

lemma single_meaning:
  "length xs = 1 \<Longrightarrow> xs = [xs ! 0]"
  by (cases xs) auto

lemma and_resolve_sound:
  assumes s: "ops_sound h c o1" and r: "and_resolve h o1 n x es = Inr r"
    and e: "\<forall>e \<in> set es. ok h c e" "es \<noteq> []" and n: "memo_ok h c n (\<forall>e \<in> set es. evaluate h c e)"
  shows "\<exists>e. r = Some e \<and> ok h c e \<and> evaluate h c e = (\<forall>e \<in> set es. evaluate h c e)"
proof (cases "length es = 1")
  case True
  then obtain a where "es = [a]" using single_meaning by metis
  then show ?thesis using r e by (auto simp: and_resolve_def)
next
  case False
  with r obtain found where c: "(if x then hasComplement h o1 es else Inr False) = Inr found"
    and r: "r = Some (if found then KFalse else KAnd es n)"
    by (auto simp: and_resolve_def bindr_eq_Inr_iff)
  show ?thesis
  proof (cases found)
    case True
    with c have "hasComplement h o1 es = Inr True" by (simp split: if_splits)
    from hasComplement_sound [OF s this e(1)] show ?thesis using r True by auto
  next
    case False
    then show ?thesis using r ok_KAnd [OF e n] by simp
  qed
qed

lemma or_finish_sound:
  assumes s: "ops_sound h c o1" and r: "or_finish h o1 n x es = Inr r"
    and e: "\<forall>e \<in> set es. ok h c e" "es \<noteq> []" and n: "memo_ok h c n (\<exists>e \<in> set es. evaluate h c e)"
  shows "\<exists>e. r = Some e \<and> ok h c e \<and> evaluate h c e = (\<exists>e \<in> set es. evaluate h c e)"
proof (cases "length es = 1")
  case True
  then obtain a where "es = [a]" using single_meaning by metis
  then show ?thesis using r e by (auto simp: or_finish_def)
next
  case False
  with r obtain found where c: "(if x then hasComplement h o1 es else Inr False) = Inr found"
    and r: "r = Some (if found then KTrue else KOr es n)"
    by (auto simp: or_finish_def bindr_eq_Inr_iff)
  show ?thesis
  proof (cases found)
    case True
    with c have "hasComplement h o1 es = Inr True" by (simp split: if_splits)
    from hasComplement_sound [OF s this e(1)] show ?thesis using r True by auto
  next
    case False
    then show ?thesis using r ok_KOr [OF e n] by simp
  qed
qed

lemma and_finish_sound:
  assumes s: "ops_sound h c o1" and r: "and_finish h o1 n x es = Inr r"
    and e: "\<forall>e \<in> set es. ok h c e" "es \<noteq> []" and n: "memo_ok h c n (\<forall>e \<in> set es. evaluate h c e)"
  shows "\<exists>e. r = Some e \<and> ok h c e \<and> evaluate h c e = (\<forall>e \<in> set es. evaluate h c e)"
proof (cases "length es = 1")
  case True
  then obtain a where "es = [a]" using single_meaning by metis
  then show ?thesis using r e by (auto simp: and_finish_def)
next
  case False
  with r obtain es2 where d: "and_distribute o1 x es = Inr es2" and r2: "and_resolve h o1 n x es2 = Inr r"
    by (auto simp: and_finish_def bindr_eq_Inr_iff)
  from and_distribute_sound [OF s d e] n and_resolve_sound [OF s r2] show ?thesis by auto
qed

lemma and_normalize_sound:
  assumes s: "ops_sound h c o1" and r: "ContextKeyAndExpr_normalizeArr h o1 arr n x = Inr r"
    and a: "all_ok h c arr" and n: "memo_ok h c n (conj_of h c arr)"
  shows "and_result h c arr r"
proof (cases "Some KFalse \<in> set arr")
  case True
  then have "r = Some KFalse" using r by (simp add: ContextKeyAndExpr_normalizeArr_def and_collect_eq)
  then show ?thesis using True by (auto simp: and_result_def conj_of_def)
next
  case F: False
  define es where "es = concat (map and_terms arr)"
  have es: "\<forall>e \<in> set es. ok h c e" "(\<forall>e \<in> set es. evaluate h c e) = conj_of h c arr"
    using concat_terms_ok(1) [OF a] terms_meaning(1) [OF F] by (simp_all only: es_def)
  have r: "(if es = [] \<and> Some KTrue \<in> set arr then Inr (Some KTrue) else if es = [] then Inr None
      else if length es = 1 then Inr (Some (es ! 0)) else and_finish h o1 n x (dedup (sortBy cmp es))) = Inr r"
    using r F by (simp add: ContextKeyAndExpr_normalizeArr_def and_collect_eq es_def [symmetric] del: concat_eq_Nil_conv split del: if_split cong: if_cong)
  consider "es = []" | a where "es = [a]" | "length es > 1" by (cases es; cases "tl es") auto
  then show ?thesis
  proof cases
    case 1
    then show ?thesis using r es(2) terms_empty(1) [OF a] by (auto simp: and_result_def es_def split: if_splits)
  next
    case 2
    then show ?thesis using r es by (auto simp: and_result_def)
  next
    case 3
    then have ne: "es \<noteq> []" by auto
    with r 3 have f: "and_finish h o1 n x (dedup (sortBy cmp es)) = Inr r" by simp
    note m = flat_meaning [OF es(1)]
    have "memo_ok h c n (\<forall>e \<in> set (dedup (sortBy cmp es)). evaluate h c e)" using n m(2) es(2) by simp
    from and_finish_sound [OF s f m(1) m(4) [OF ne] this] m(2) es(2) show ?thesis by (auto simp: and_result_def)
  qed
qed

lemma or_normalize_sound:
  assumes s: "ops_sound h c o1" and r: "ContextKeyOrExpr_normalizeArr h o1 arr n x = Inr r"
    and a: "all_ok h c arr" and n: "memo_ok h c n (disj_of h c arr)"
  shows "or_result h c arr r"
proof (cases "Some KTrue \<in> set arr")
  case True
  then have "r = Some KTrue" using r by (simp add: ContextKeyOrExpr_normalizeArr_def or_collect_eq)
  then show ?thesis using True by (auto simp: or_result_def disj_of_def)
next
  case F: False
  define es where "es = concat (map or_terms arr)"
  have es: "\<forall>e \<in> set es. ok h c e" "(\<exists>e \<in> set es. evaluate h c e) = disj_of h c arr"
    using concat_terms_ok(2) [OF a] terms_meaning(2) [OF F] by (simp_all only: es_def)
  have r: "(if es = [] \<and> Some KFalse \<in> set arr then Inr (Some KFalse) else if es = [] then Inr None
      else if length es = 1 then Inr (Some (sortBy cmp es ! 0)) else or_finish h o1 n x (dedup (sortBy cmp es))) = Inr r"
    using r F by (simp add: ContextKeyOrExpr_normalizeArr_def or_collect_eq es_def [symmetric] Let_def del: concat_eq_Nil_conv split del: if_split cong: if_cong)
  consider "es = []" | a where "es = [a]" | "length es > 1" by (cases es; cases "tl es") auto
  then show ?thesis
  proof cases
    case 1
    then show ?thesis using r es(2) terms_empty(2) [OF a] by (auto simp: or_result_def es_def split: if_splits)
  next
    case 2
    then show ?thesis using r es by (auto simp: or_result_def sortBy_def)
  next
    case 3
    then have ne: "es \<noteq> []" by auto
    with r 3 have f: "or_finish h o1 n x (dedup (sortBy cmp es)) = Inr r" by simp
    note m = flat_meaning [OF es(1)]
    have "memo_ok h c n (\<exists>e \<in> set (dedup (sortBy cmp es)). evaluate h c e)" using n m(3) es(2) by simp
    from or_finish_sound [OF s f m(1) m(4) [OF ne] this] m(3) es(2) show ?thesis by (auto simp: or_result_def)
  qed
qed

lemma ck_ops_sound: "ops_sound h c (ck_ops h fuel)"
proof (induction fuel)
  case 0
  then show ?case by (simp add: ops_sound_def)
next
  case (Suc fuel)
  then show ?case
    using and_normalize_sound [OF Suc] or_normalize_sound [OF Suc] by (auto simp: ops_sound_def)
qed

text \<open>The negation of a well-behaved expression, whatever the fuel.\<close>

lemma negate_sound_fuel:
  "ok h c e \<Longrightarrow> negate h (ck_ops h fuel) e = Inr r \<Longrightarrow> negation_of h c e r"
  by (rule negate_sound [OF ck_ops_sound])

section \<open>Substitution of constants\<close>

definition same_meaning :: "host \<Rightarrow> ckcontext \<Rightarrow> expr \<Rightarrow> expr option \<Rightarrow> bool" where
  "same_meaning h c e r \<longleftrightarrow> (\<exists>e'. r = Some e' \<and> ok h c e' \<and> evaluate h c e' = evaluate h c e)"

lemma same_meaning_refl: "ok h c e \<Longrightarrow> same_meaning h c e (Some e)"
  by (simp add: same_meaning_def)

lemma same_meanings:
  assumes "list_all2 (same_meaning h c) es rs"
  shows "all_ok h c rs" and "None \<notin> set rs"
    and "conj_of h c rs = (\<forall>e \<in> set es. evaluate h c e)"
    and "disj_of h c rs = (\<exists>e \<in> set es. evaluate h c e)"
  using assms by (induction rule: list_all2_induct) (auto simp: same_meaning_def)

lemma substituteConstants_cases:
  "substituteConstants h o1 KFalse = Inr (Some KFalse)"
  "substituteConstants h o1 KTrue = Inr (Some KTrue)"
  "substituteConstants h o1 (KDefined k n) = Inr (Some (case CONSTANT_VALUES h k of
     Some b \<Rightarrow> if b then KTrue else KFalse | None \<Rightarrow> KDefined k n))"
  "substituteConstants h o1 (KNot k n) = Inr (Some (case CONSTANT_VALUES h k of
     Some b \<Rightarrow> if b then KFalse else KTrue | None \<Rightarrow> KNot k n))"
  "substituteConstants h o1 (KEquals k v n) = Inr (Some (case CONSTANT_VALUES h k of
     Some b \<Rightarrow> if v = Str (if b then ''true'' else ''false'') then KTrue else KFalse | None \<Rightarrow> KEquals k v n))"
  "substituteConstants h o1 (KNotEquals k v n) = Inr (Some (case CONSTANT_VALUES h k of
     Some b \<Rightarrow> if v = Str (if b then ''true'' else ''false'') then KFalse else KTrue | None \<Rightarrow> KNotEquals k v n))"
  "substituteConstants h o1 (KRegex k r) = Inr (Some (KRegex k r))"
  "substituteConstants h o1 (KNotRegex k r) = Inr (Some (KNotRegex k r))"
  "substituteConstants h o1 (KIn k w) = Inr (Some (KIn k w))"
  "substituteConstants h o1 (KNotIn k w) = Inr (Some (KNotIn k w))"
  "substituteConstants h o1 (KGreater k v n) = Inr (Some (KGreater k v n))"
  "substituteConstants h o1 (KGreaterEquals k v n) = Inr (Some (KGreaterEquals k v n))"
  "substituteConstants h o1 (KSmaller k v n) = Inr (Some (KSmaller k v n))"
  "substituteConstants h o1 (KSmallerEquals k v n) = Inr (Some (KSmallerEquals k v n))"
  by (simp_all add: substituteConstants_def class_defs Let_def cong: option.case_cong)

lemma substituteConstants_arrays:
  "mapr (\<lambda>m. substituteConstants_m m h o1) (map methods es) = mapr (substituteConstants h o1) es"
  by (induction es) (auto simp: substituteConstants_def)

lemma substituteConstants_KAnd:
  "substituteConstants h o1 (KAnd es n) =
     bindr (mapr (substituteConstants h o1) es) (\<lambda>rs.
       if rs = map Some es then Inr (Some (KAnd es n)) else and_create o1 rs n False)"
proof -
  have "substituteConstants h o1 (KAnd es n) =
      bindr (eliminateConstantsInArray h o1 es (map methods es))
        (\<lambda>r. case r of None \<Rightarrow> Inr (Some (KAnd es n)) | Some rs \<Rightarrow> and_create o1 rs n False)"
    by (simp add: substituteConstants_def ContextKeyAndExpr_def Let_def)
  then show ?thesis
    unfolding eliminateConstantsInArray_def substituteConstants_arrays
    by (cases "mapr (substituteConstants h o1) es") auto
qed

lemma substituteConstants_KOr:
  "substituteConstants h o1 (KOr es n) =
     bindr (mapr (substituteConstants h o1) es) (\<lambda>rs.
       if rs = map Some es then Inr (Some (KOr es n)) else or_create o1 rs n False)"
proof -
  have "substituteConstants h o1 (KOr es n) =
      bindr (eliminateConstantsInArray h o1 es (map methods es))
        (\<lambda>r. case r of None \<Rightarrow> Inr (Some (KOr es n)) | Some rs \<Rightarrow> or_create o1 rs n False)"
    by (simp add: substituteConstants_def ContextKeyOrExpr_def Let_def)
  then show ?thesis
    unfolding eliminateConstantsInArray_def substituteConstants_arrays
    by (cases "mapr (substituteConstants h o1) es") auto
qed

lemma same_meaning_constant:
  "evaluate h c e = b \<Longrightarrow> same_meaning h c e (Some (if b then KTrue else KFalse))"
  by (simp add: same_meaning_def)

lemma substitute_leaf_sound:
  assumes "ok h c e" and "substituteConstants h o1 e = Inr r" and "\<not> is_And e" and "\<not> is_Or e"
  shows "same_meaning h c e r"
  using assms ok_leaf [OF assms(1)]
  by (cases e; simp add: substituteConstants_cases)
     (auto simp: same_meaning_def defined_ok_def equals_ok_def split: option.splits if_splits)

lemma substituteConstants_sound:
  assumes s: "ops_sound h c o1"
  shows "ok h c e \<Longrightarrow> substituteConstants h o1 e = Inr r \<Longrightarrow> same_meaning h c e r"
proof (induction e arbitrary: r)
  case (KAnd es n)
  from KAnd.prems(2) obtain rs where 1: "list_all2 (\<lambda>x y. substituteConstants h o1 x = Inr y) es rs"
    and 2: "(if rs = map Some es then Inr (Some (KAnd es n)) else and_create o1 rs n False) = Inr r"
    by (auto simp: substituteConstants_KAnd bindr_eq_Inr_iff mapr_Inr_iff)
  have *: "list_all2 (same_meaning h c) es rs"
    using 1 by (rule list_all2_imp_list_all2) (use KAnd.IH ok_child [OF KAnd.prems(1)] in auto)
  note m = same_meanings [OF *]
  have "memo_ok h c n (conj_of h c rs)" using ok_memo [OF KAnd.prems(1)] by (auto simp: memo_ok_def m(3))
  moreover have "rs \<noteq> []" using * ok_leaf [OF KAnd.prems(1)] by auto
  ultimately show ?case
    using 2 m KAnd.prems(1) and_result_Some [OF ops_sound_and [OF s _ m(1)], of n False r]
    by (auto simp: same_meaning_def split: if_splits)
next
  case (KOr es n)
  from KOr.prems(2) obtain rs where 1: "list_all2 (\<lambda>x y. substituteConstants h o1 x = Inr y) es rs"
    and 2: "(if rs = map Some es then Inr (Some (KOr es n)) else or_create o1 rs n False) = Inr r"
    by (auto simp: substituteConstants_KOr bindr_eq_Inr_iff mapr_Inr_iff)
  have *: "list_all2 (same_meaning h c) es rs"
    using 1 by (rule list_all2_imp_list_all2) (use KOr.IH ok_child [OF KOr.prems(1)] in auto)
  note m = same_meanings [OF *]
  have "memo_ok h c n (disj_of h c rs)" using ok_memo [OF KOr.prems(1)] by (auto simp: memo_ok_def m(4))
  moreover have "rs \<noteq> []" using * ok_leaf [OF KOr.prems(1)] by auto
  ultimately show ?case
    using 2 m KOr.prems(1) or_result_Some [OF ops_sound_or [OF s _ m(1)], of n False r]
    by (auto simp: same_meaning_def split: if_splits)
qed (erule (1) substitute_leaf_sound; simp)+

section \<open>Implication\<close>

text \<open>Values that \<open>cmp\<close> tells apart exactly when they differ: strings in equalities, numbers in
  comparisons.\<close>

fun comparable :: "expr \<Rightarrow> bool" where
  "comparable (KEquals k v n) = (\<exists>s. v = Str s)"
| "comparable (KNotEquals k v n) = (\<exists>s. v = Str s)"
| "comparable (KRegex k r) = regexp_ok r"
| "comparable (KNotRegex k r) = regexp_ok r"
| "comparable (KGreater k v n) = is_number v"
| "comparable (KGreaterEquals k v n) = is_number v"
| "comparable (KSmaller k v n) = is_number v"
| "comparable (KSmallerEquals k v n) = is_number v"
| "comparable (KAnd es n) = (\<forall>e \<in> set es. comparable e)"
| "comparable (KOr es n) = (\<forall>e \<in> set es. comparable e)"
| "comparable e = True"

lemma comparable_regexps: "comparable e \<Longrightarrow> regexps_ok e"
  by (induction e) auto

lemma cmp1_zero: "cmp1 k k' = 0 \<longleftrightarrow> k = k'"
  by (auto simp: cmp1_def)

lemma cmp2_Str_zero: "cmp2 k (Str s) k' (Str s') = 0 \<longleftrightarrow> k = k' \<and> s = s'"
  by (auto simp: cmp2_def)

lemma num_lt_irrefl: "\<not> num_lt x x"
  by (cases x) auto

lemma cmp2_number_zero:
  "is_number v \<Longrightarrow> is_number v' \<Longrightarrow> cmp2 k v k' v' = 0 \<longleftrightarrow> k = k' \<and> v = v'"
  by (auto simp: cmp2_def dest!: is_number_ex) (auto simp: num_lt_irrefl dest: num_lt_linear split: if_splits)

lemma cmp_arrays_zero:
  "length es = length fs \<Longrightarrow> cmp_arrays (map methods es) fs = 0 \<longleftrightarrow> list_all2 (\<lambda>x y. cmp x y = 0) es fs"
  by (induction es fs rule: list_induct2) (auto simp: cmp_def Let_def)

lemma cmp_KAnd_zero: "cmp (KAnd es n) f = 0 \<Longrightarrow> \<exists>fs m. f = KAnd fs m \<and> list_all2 (\<lambda>x y. cmp x y = 0) es fs"
  by (cases f) (auto simp: cmp_cases cmp_arrays_zero split: if_splits)

lemma cmp_KOr_zero: "cmp (KOr es n) f = 0 \<Longrightarrow> \<exists>fs m. f = KOr fs m \<and> list_all2 (\<lambda>x y. cmp x y = 0) es fs"
  by (cases f) (auto simp: cmp_cases cmp_arrays_zero split: if_splits)

lemma cmp_zero_leaf:
  "cmp e f = 0 \<Longrightarrow> comparable e \<Longrightarrow> comparable f \<Longrightarrow> \<not> is_And e \<Longrightarrow> \<not> is_Or e \<Longrightarrow>
   evaluate h c e = evaluate h c f"
  by (cases e; cases f)
     (auto simp: cmp_cases cmp_cases_wrapped cmp1_zero cmp2_Str_zero cmp2_number_zero evaluate_compare
           dest: regexp_ok_eq)

lemma cmp_zero_meaning:
  "cmp e f = 0 \<Longrightarrow> comparable e \<Longrightarrow> comparable f \<Longrightarrow> evaluate h c e = evaluate h c f"
proof (induction e arbitrary: f)
  case (KAnd es n)
  then obtain fs m where f: "f = KAnd fs m" and "list_all2 (\<lambda>x y. cmp x y = 0) es fs"
    using cmp_KAnd_zero by blast
  then have "list_all2 (\<lambda>x y. evaluate h c x = evaluate h c y) es fs"
    using KAnd by (auto elim!: list_all2_imp_list_all2)
  from list_all2_same_truth(1) [OF this] show ?case by (simp add: f)
next
  case (KOr es n)
  then obtain fs m where f: "f = KOr fs m" and "list_all2 (\<lambda>x y. cmp x y = 0) es fs"
    using cmp_KOr_zero by blast
  then have "list_all2 (\<lambda>x y. evaluate h c x = evaluate h c y) es fs"
    using KOr by (auto elim!: list_all2_imp_list_all2)
  from list_all2_same_truth(2) [OF this] show ?case by (simp add: f)
qed (erule (2) cmp_zero_leaf; simp)+

lemma allElementsIncluded_sound:
  "allElementsIncluded p q \<Longrightarrow> a \<in> set p \<Longrightarrow> \<exists>b \<in> set q. cmp a b = 0"
  by (induction p q rule: allElementsIncluded.induct) (auto simp: Let_def split: if_splits)

lemma comparable_exprField: "comparable e \<Longrightarrow> x \<in> set (exprField e) \<Longrightarrow> comparable x"
  by (cases e) auto

lemma included_meaning:
  assumes "allElementsIncluded p q" and "\<forall>x \<in> set p. comparable x" and "\<forall>x \<in> set q. comparable x"
  shows "(\<exists>x \<in> set p. evaluate h c x) \<Longrightarrow> \<exists>x \<in> set q. evaluate h c x"
    and "(\<forall>x \<in> set q. evaluate h c x) \<Longrightarrow> \<forall>x \<in> set p. evaluate h c x"
  using assms allElementsIncluded_sound cmp_zero_meaning by metis+

lemma implies_meaning:
  "implies p q \<Longrightarrow> comparable p \<Longrightarrow> comparable q \<Longrightarrow> evaluate h c p \<Longrightarrow> evaluate h c q"
proof (induction p q rule: implies.induct)
  case (1 p q)
  note imp = "1.prems"(1) and IH1 = "1.IH"(1) and IH2 = "1.IH"(2) and pr = "1.prems"(2,3,4)
  note c = comparable_exprField [OF pr(1)] comparable_exprField [OF pr(2)]
  consider "p = KFalse \<or> q = KTrue" | "p \<noteq> KFalse" "q \<noteq> KTrue" "is_Or p"
    | "p \<noteq> KFalse" "q \<noteq> KTrue" "\<not> is_Or p" "is_Or q"
    | "p \<noteq> KFalse" "q \<noteq> KTrue" "\<not> is_Or p" "\<not> is_Or q" "is_And p" "is_And q"
    | "p \<noteq> KFalse" "q \<noteq> KTrue" "\<not> is_Or p" "\<not> is_Or q" "is_And p" "\<not> is_And q"
    | "p \<noteq> KFalse" "q \<noteq> KTrue" "\<not> is_Or p" "\<not> is_Or q" "\<not> is_And p" by blast
  then show ?case
  proof cases
    case 1
    then show ?thesis using pr(3) by auto
  next
    case 2
    then show ?thesis using imp pr(3) included_meaning(1) [of "exprField p" "exprField q"] c
      by (auto simp: implies.simps [of p q] evaluate_is_Or split: if_splits)
  next
    case 3
    then show ?thesis using imp pr IH1 c
      by (auto simp: implies.simps [of p q] evaluate_is_Or list_ex_iff)
  next
    case 4
    then show ?thesis using imp pr(3) included_meaning(2) [of "exprField q" "exprField p"] c
      by (auto simp: implies.simps [of p q] evaluate_is_And)
  next
    case 5
    then show ?thesis using imp pr IH2 c
      by (auto simp: implies.simps [of p q] evaluate_is_And list_ex_iff)
  next
    case 6
    then show ?thesis using imp pr equals_sound comparable_regexps
      by (auto simp: implies.simps [of p q])
  qed
qed

end
