(* ===== verification/Keybinding_Resolver.thy ===== *)
theory Keybinding_Resolver
  imports Context_Key_Laws
begin

text \<open>
  Keybinding resolution: \<open>src/vs/platform/keybinding/common/keybindingResolver.ts\<close> and
  \<open>resolvedKeybindingItem.ts\<close>. The resolver keeps the rules that survive the removals, a map from the
  first chord to the rules that start with it, and a map from commands to the rules shown for them.
  A rule carries its identity (\<open>kbId\<close>) because \<open>_removeFromLookupMap\<close> compares objects. Logging is left
  out; the resolved keybinding of a rule is represented by the dispatch chords the code reads from
  it, and the arguments of commands are opaque texts.
\<close>

section \<open>Rules\<close>

record ResolvedKeybindingItem =
  kbId :: nat
  chords :: "string list"
  bubble :: bool
  kbCommand :: "string option"
  commandArgs :: "string option"
  kbWhen :: "expr option"
  isDefault :: bool
  extensionId :: "string option"
  isBuiltinExtension :: bool
  systemWide :: bool

fun toEmptyArrayIfContainsNull_loop :: "string option list \<Rightarrow> string list \<Rightarrow> string list" where
  "toEmptyArrayIfContainsNull_loop [] result = result"
| "toEmptyArrayIfContainsNull_loop (e # arr) result =
     (case e of
        None \<Rightarrow> []
      | Some s \<Rightarrow> if s = [] then [] else toEmptyArrayIfContainsNull_loop arr (result @ [s]))"

definition toEmptyArrayIfContainsNull :: "string option list \<Rightarrow> string list" where
  "toEmptyArrayIfContainsNull arr = toEmptyArrayIfContainsNull_loop arr []"

text \<open>The constructor; the resolved keybinding is given by its dispatch chords and its single
  modifier dispatch chords.\<close>

definition ResolvedKeybindingItem_new ::
  "nat \<Rightarrow> (string option list \<times> string option list) option \<Rightarrow> string option \<Rightarrow> string option \<Rightarrow> expr option \<Rightarrow>
   bool \<Rightarrow> string option \<Rightarrow> bool \<Rightarrow> bool \<Rightarrow> ResolvedKeybindingItem" where
  "ResolvedKeybindingItem_new i resolvedKeybinding cmd args w dflt ext builtin sysWide =
     (let ch = (case resolvedKeybinding of
                  None \<Rightarrow> []
                | Some (dispatchChords, singleModifierChords) \<Rightarrow>
                    let cs = toEmptyArrayIfContainsNull dispatchChords
                    in if length cs = 0 then toEmptyArrayIfContainsNull singleModifierChords else cs);
          bub = (case cmd of Some (x # xs) \<Rightarrow> x = CHR 94 | _ \<Rightarrow> False)
      in \<lparr> kbId = i, chords = ch, bubble = bub,
           kbCommand = (if bub then map_option tl cmd else cmd),
           commandArgs = args, kbWhen = w, isDefault = dflt, extensionId = ext,
           isBuiltinExtension = builtin, systemWide = sysWide \<rparr>)"

section \<open>Results\<close>

datatype ResolutionResult =
    NoMatchingKb
  | MoreChordsNeeded
  | KbFound "string option" "string option" bool

section \<open>Removals\<close>

definition whenIsEntirelyIncluded :: "expr option \<Rightarrow> expr option \<Rightarrow> bool" where
  "whenIsEntirelyIncluded a b =
     (case b of
        None \<Rightarrow> True
      | Some q \<Rightarrow>
          if q = KTrue then True
          else (case a of None \<Rightarrow> False | Some p \<Rightarrow> if p = KTrue then False else implies p q))"

text \<open>The loop \<open>keypress[i] !== defaultKb.chords[i]\<close>; an element past the end differs.\<close>

fun keypressMatches :: "string list \<Rightarrow> string list \<Rightarrow> bool" where
  "keypressMatches [] ch = True"
| "keypressMatches (p # ps) [] = False"
| "keypressMatches (p # ps) (x # xs) = (if p \<noteq> x then False else keypressMatches ps xs)"

definition isTargetedForRemoval ::
  "host \<Rightarrow> ops \<Rightarrow> ResolvedKeybindingItem \<Rightarrow> string list option \<Rightarrow> expr option \<Rightarrow> bool result" where
  "isTargetedForRemoval h o1 defaultKb keypress w =
     (if (case keypress of None \<Rightarrow> False | Some ps \<Rightarrow> \<not> keypressMatches ps (chords defaultKb)) then Inr False
      else case w of
        None \<Rightarrow> Inr True
      | Some q \<Rightarrow>
          if q = KTrue then Inr True
          else (case kbWhen defaultKb of
                  None \<Rightarrow> Inr False
                | Some p \<Rightarrow>
                    bindr (substituteConstants h o1 p) (\<lambda>defaultWhen.
                    bindr (substituteConstants h o1 q) (\<lambda>removalWhen.
                    Inr (whenIsEntirelyIncluded defaultWhen removalWhen)))))"

definition isRemovalRule :: "ResolvedKeybindingItem \<Rightarrow> bool" where
  "isRemovalRule rule = (case kbCommand rule of Some (x # xs) \<Rightarrow> x = CHR ''-'' | _ \<Rightarrow> False)"

text \<open>The first pass: the map from a command to the rules that remove it.\<close>

fun collectRemovals ::
  "ResolvedKeybindingItem list \<Rightarrow> (string \<Rightarrow> ResolvedKeybindingItem list option) \<Rightarrow>
   (string \<Rightarrow> ResolvedKeybindingItem list option)" where
  "collectRemovals [] removals = removals"
| "collectRemovals (rule # rules) removals =
     collectRemovals rules
       (if isRemovalRule rule
        then let command = tl (the (kbCommand rule)) in
          (case removals command of
             None \<Rightarrow> removals(command \<mapsto> [rule])
           | Some rs \<Rightarrow> removals(command \<mapsto> rs @ [rule]))
        else removals)"

fun anyRemoves :: "host \<Rightarrow> ops \<Rightarrow> ResolvedKeybindingItem \<Rightarrow> ResolvedKeybindingItem list \<Rightarrow> bool result" where
  "anyRemoves h o1 rule [] = Inr False"
| "anyRemoves h o1 rule (commandRemoval # rest) =
     bindr (isTargetedForRemoval h o1 rule (Some (chords commandRemoval)) (kbWhen commandRemoval))
       (\<lambda>t. if t then Inr True else anyRemoves h o1 rule rest)"

fun keepRules ::
  "host \<Rightarrow> ops \<Rightarrow> (string \<Rightarrow> ResolvedKeybindingItem list option) \<Rightarrow> ResolvedKeybindingItem list \<Rightarrow>
   ResolvedKeybindingItem list result" where
  "keepRules h o1 removals [] = Inr []"
| "keepRules h o1 removals (rule # rules) =
     (if kbCommand rule = None \<or> kbCommand rule = Some []
      then bindr (keepRules h o1 removals rules) (\<lambda>r. Inr (rule # r))
      else if isRemovalRule rule then keepRules h o1 removals rules
      else case removals (the (kbCommand rule)) of
        None \<Rightarrow> bindr (keepRules h o1 removals rules) (\<lambda>r. Inr (rule # r))
      | Some commandRemovals \<Rightarrow>
          if \<not> isDefault rule
          then bindr (keepRules h o1 removals rules) (\<lambda>r. Inr (rule # r))
          else bindr (anyRemoves h o1 rule commandRemovals) (\<lambda>isRemoved.
               bindr (keepRules h o1 removals rules) (\<lambda>r. Inr (if isRemoved then r else rule # r))))"

definition handleRemovals ::
  "host \<Rightarrow> ops \<Rightarrow> ResolvedKeybindingItem list \<Rightarrow> ResolvedKeybindingItem list result" where
  "handleRemovals h o1 rules =
     (let removals = collectRemovals rules Map.empty
      in if \<not> list_ex isRemovalRule rules then Inr rules else keepRules h o1 removals rules)"

section \<open>The resolver\<close>

record KeybindingResolver =
  defaultKeybindings :: "ResolvedKeybindingItem list"
  keybindings :: "ResolvedKeybindingItem list"
  defaultBoundCommands :: "string \<Rightarrow> bool option"
  kbMap :: "string \<Rightarrow> ResolvedKeybindingItem list option"
  kbLookupMap :: "string \<Rightarrow> ResolvedKeybindingItem list option"

text \<open>\<open>!item.command\<close>\<close>

definition noCommand :: "ResolvedKeybindingItem \<Rightarrow> bool" where
  "noCommand item \<longleftrightarrow> kbCommand item = None \<or> kbCommand item = Some []"

definition addToLookupMap ::
  "(string \<Rightarrow> ResolvedKeybindingItem list option) \<Rightarrow> ResolvedKeybindingItem \<Rightarrow>
   (string \<Rightarrow> ResolvedKeybindingItem list option)" where
  "addToLookupMap lm item =
     (if noCommand item then lm
      else case lm (the (kbCommand item)) of
        None \<Rightarrow> lm(the (kbCommand item) \<mapsto> [item])
      | Some arr \<Rightarrow> lm(the (kbCommand item) \<mapsto> arr @ [item]))"

fun removeItem :: "ResolvedKeybindingItem \<Rightarrow> ResolvedKeybindingItem list \<Rightarrow> ResolvedKeybindingItem list" where
  "removeItem item [] = []"
| "removeItem item (x # xs) = (if kbId x = kbId item then xs else x # removeItem item xs)"

definition removeFromLookupMap ::
  "(string \<Rightarrow> ResolvedKeybindingItem list option) \<Rightarrow> ResolvedKeybindingItem \<Rightarrow>
   (string \<Rightarrow> ResolvedKeybindingItem list option)" where
  "removeFromLookupMap lm item =
     (if noCommand item then lm
      else case lm (the (kbCommand item)) of
        None \<Rightarrow> lm
      | Some arr \<Rightarrow> lm(the (kbCommand item) \<mapsto> removeItem item arr))"

text \<open>The loop \<open>for (i = 1; i < conflict.chords.length && i < item.chords.length; i++)\<close>, on the chords from the second one.\<close>

fun isShorterKbPrefix :: "string list \<Rightarrow> string list \<Rightarrow> bool" where
  "isShorterKbPrefix (x # xs) (y # ys) = (if x \<noteq> y then False else isShorterKbPrefix xs ys)"
| "isShorterKbPrefix xs ys = True"

text \<open>The loop over the conflicts, which the code walks from the last to the first.\<close>

fun removeConflicts ::
  "ResolvedKeybindingItem list \<Rightarrow> ResolvedKeybindingItem \<Rightarrow> (string \<Rightarrow> ResolvedKeybindingItem list option) \<Rightarrow>
   (string \<Rightarrow> ResolvedKeybindingItem list option)" where
  "removeConflicts [] item lm = lm"
| "removeConflicts (conflict # earlier) item lm =
     (if kbCommand conflict = kbCommand item then removeConflicts earlier item lm
      else if \<not> isShorterKbPrefix (drop 1 (chords conflict)) (drop 1 (chords item))
      then removeConflicts earlier item lm
      else if whenIsEntirelyIncluded (kbWhen conflict) (kbWhen item)
      then removeConflicts earlier item (removeFromLookupMap lm conflict)
      else removeConflicts earlier item lm)"

definition addKeyPress :: "KeybindingResolver \<Rightarrow> string \<Rightarrow> ResolvedKeybindingItem \<Rightarrow> KeybindingResolver" where
  "addKeyPress R keypress item =
     (case kbMap R keypress of
        None \<Rightarrow> R\<lparr>kbMap := (kbMap R)(keypress \<mapsto> [item]), kbLookupMap := addToLookupMap (kbLookupMap R) item\<rparr>
      | Some conflicts \<Rightarrow>
          R\<lparr>kbMap := (kbMap R)(keypress \<mapsto> conflicts @ [item]),
            kbLookupMap := addToLookupMap (removeConflicts (rev conflicts) item (kbLookupMap R)) item\<rparr>)"

fun collectDefaultBound :: "ResolvedKeybindingItem list \<Rightarrow> (string \<Rightarrow> bool option) \<Rightarrow> (string \<Rightarrow> bool option)" where
  "collectDefaultBound [] m = m"
| "collectDefaultBound (k # ks) m =
     collectDefaultBound ks (if \<not> noCommand k \<and> \<not> isRemovalRule k then m(the (kbCommand k) \<mapsto> True) else m)"

text \<open>The loop of the constructor over the rules that are left.\<close>

fun addKeybindings :: "host \<Rightarrow> ops \<Rightarrow> ResolvedKeybindingItem list \<Rightarrow> KeybindingResolver \<Rightarrow> KeybindingResolver result" where
  "addKeybindings h o1 [] R = Inr R"
| "addKeybindings h o1 (k # ks) R =
     (if length (chords k) = 0 then addKeybindings h o1 ks R
      else bindr (case kbWhen k of None \<Rightarrow> Inr None | Some w \<Rightarrow> substituteConstants h o1 w) (\<lambda>w.
        if w = Some KFalse then addKeybindings h o1 ks R
        else addKeybindings h o1 ks (addKeyPress R (chords k ! 0) k)))"

definition KeybindingResolver_new ::
  "host \<Rightarrow> ops \<Rightarrow> ResolvedKeybindingItem list \<Rightarrow> ResolvedKeybindingItem list \<Rightarrow> KeybindingResolver result" where
  "KeybindingResolver_new h o1 dflts overrides =
     bindr (handleRemovals h o1 (dflts @ overrides)) (\<lambda>rules.
       addKeybindings h o1 rules
         \<lparr> defaultKeybindings = dflts, keybindings = rules,
           defaultBoundCommands = collectDefaultBound dflts Map.empty,
           kbMap = Map.empty, kbLookupMap = Map.empty \<rparr>)"

definition KeybindingResolver_lookupKeybindings :: "KeybindingResolver \<Rightarrow> string \<Rightarrow> ResolvedKeybindingItem list" where
  "KeybindingResolver_lookupKeybindings R commandId =
     (case kbLookupMap R commandId of
        None \<Rightarrow> []
      | Some items \<Rightarrow> if length items = 0 then [] else rev items)"

definition contextMatchesRules :: "host \<Rightarrow> ckcontext \<Rightarrow> expr option \<Rightarrow> bool" where
  "contextMatchesRules h c rules = (case rules of None \<Rightarrow> True | Some e \<Rightarrow> evaluate h c e)"

text \<open>The loops \<open>for (i = length - 1; i >= 0; i--)\<close> that return the last match.\<close>

fun lastMatch :: "(ResolvedKeybindingItem \<Rightarrow> bool) \<Rightarrow> ResolvedKeybindingItem list \<Rightarrow> ResolvedKeybindingItem option" where
  "lastMatch f [] = None"
| "lastMatch f (k # earlier) = (if \<not> f k then lastMatch f earlier else Some k)"

definition KeybindingResolver_findCommand ::
  "host \<Rightarrow> ckcontext \<Rightarrow> ResolvedKeybindingItem list \<Rightarrow> ResolvedKeybindingItem option" where
  "KeybindingResolver_findCommand h c matches = lastMatch (\<lambda>k. contextMatchesRules h c (kbWhen k)) (rev matches)"

definition KeybindingResolver_lookupPrimaryKeybinding ::
  "host \<Rightarrow> KeybindingResolver \<Rightarrow> string \<Rightarrow> ckcontext \<Rightarrow> bool \<Rightarrow> ResolvedKeybindingItem option" where
  "KeybindingResolver_lookupPrimaryKeybinding h R commandId c enforceContextCheck =
     (case kbLookupMap R commandId of
        None \<Rightarrow> None
      | Some items \<Rightarrow>
          if length items = 0 then None
          else if length items = 1 \<and> \<not> enforceContextCheck then Some (items ! 0)
          else case lastMatch (\<lambda>item. contextMatchesRules h c (kbWhen item)) (rev items) of
            Some item \<Rightarrow> Some item
          | None \<Rightarrow> if enforceContextCheck then None else Some (last items))"

text \<open>The loop \<open>candidate.chords[i] !== pressedChords[i]\<close> from the second chord.\<close>

fun prefixMatches :: "string list \<Rightarrow> string list \<Rightarrow> bool" where
  "prefixMatches [] ch = True"
| "prefixMatches (p # ps) [] = False"
| "prefixMatches (p # ps) (x # xs) = (if x \<noteq> p then False else prefixMatches ps xs)"

text \<open>The rules for the pressed chords, and the rule \<open>resolve\<close> settles on.\<close>

definition resolveCandidates :: "KeybindingResolver \<Rightarrow> string list \<Rightarrow> ResolvedKeybindingItem list option" where
  "resolveCandidates R pressedChords =
     (case kbMap R (pressedChords ! 0) of
        None \<Rightarrow> None
      | Some kbCandidates \<Rightarrow>
          Some (if length pressedChords < 2 then kbCandidates
                else filter (\<lambda>candidate. \<not> length pressedChords > length (chords candidate) \<and>
                       prefixMatches (drop 1 pressedChords) (drop 1 (chords candidate))) kbCandidates))"

definition KeybindingResolver_resolve ::
  "host \<Rightarrow> KeybindingResolver \<Rightarrow> ckcontext \<Rightarrow> string list \<Rightarrow> string \<Rightarrow> ResolutionResult" where
  "KeybindingResolver_resolve h R c currentChords keypress =
     (let pressedChords = currentChords @ [keypress] in
      case resolveCandidates R pressedChords of
        None \<Rightarrow> NoMatchingKb
      | Some lookupMap \<Rightarrow>
          (case KeybindingResolver_findCommand h c lookupMap of
             None \<Rightarrow> NoMatchingKb
           | Some r \<Rightarrow>
               if length pressedChords < length (chords r) then MoreChordsNeeded
               else KbFound (kbCommand r) (commandArgs r) (bubble r)))"

end
