(* ===== verification/Keybinding_Laws.thy ===== *)
theory Keybinding_Laws
  imports Keybinding_Resolver "HOL-Library.Sublist"
begin

text \<open>
  Laws of the keybinding resolver of \<open>src/vs/platform/keybinding/common/keybindingResolver.ts\<close>:
  resolution against a reference definition on the list of rules, what \<open>lookupKeybindings\<close> shows, why a
  rule it hides is never the one that is dispatched (this rests on the soundness of \<open>implies\<close>), and
  what \<open>handleRemovals\<close> removes.
\<close>

section \<open>Reference definitions\<close>

text \<open>A rule the resolver stores: it has chords and its condition is not constantly false.\<close>

definition active :: "host \<Rightarrow> ops \<Rightarrow> ResolvedKeybindingItem \<Rightarrow> bool" where
  "active h o1 k \<longleftrightarrow> chords k \<noteq> [] \<and>
     (case kbWhen k of None \<Rightarrow> True | Some w \<Rightarrow> substituteConstants h o1 w \<noteq> Inr (Some KFalse))"

text \<open>The rule that answers the pressed chords: the last active one that they start and whose condition
  holds.\<close>

definition answers :: "host \<Rightarrow> ops \<Rightarrow> ckcontext \<Rightarrow> string list \<Rightarrow> ResolvedKeybindingItem \<Rightarrow> bool" where
  "answers h o1 c pressed k \<longleftrightarrow> active h o1 k \<and> prefix pressed (chords k) \<and> contextMatchesRules h c (kbWhen k)"

definition answer ::
  "host \<Rightarrow> ops \<Rightarrow> ResolvedKeybindingItem list \<Rightarrow> ckcontext \<Rightarrow> string list \<Rightarrow> ResolvedKeybindingItem option" where
  "answer h o1 rules c pressed =
     (let ms = filter (answers h o1 c pressed) rules in if ms = [] then None else Some (last ms))"

definition resolution ::
  "host \<Rightarrow> ops \<Rightarrow> ResolvedKeybindingItem list \<Rightarrow> ckcontext \<Rightarrow> string list \<Rightarrow> ResolutionResult" where
  "resolution h o1 rules c pressed =
     (case answer h o1 rules c pressed of
        None \<Rightarrow> NoMatchingKb
      | Some k \<Rightarrow> if length pressed < length (chords k) then MoreChordsNeeded
                 else KbFound (kbCommand k) (commandArgs k) (bubble k))"

text \<open>The rule \<open>resolve\<close> settles on.\<close>

definition resolvedRule ::
  "host \<Rightarrow> KeybindingResolver \<Rightarrow> ckcontext \<Rightarrow> string list \<Rightarrow> ResolvedKeybindingItem option" where
  "resolvedRule h R c pressed =
     (case resolveCandidates R pressed of None \<Rightarrow> None | Some ks \<Rightarrow> KeybindingResolver_findCommand h c ks)"

text \<open>A later rule that hides an earlier one, and the rules that are not hidden.\<close>

definition shadows :: "ResolvedKeybindingItem \<Rightarrow> ResolvedKeybindingItem \<Rightarrow> bool" where
  "shadows j k \<longleftrightarrow> chords k ! 0 = chords j ! 0 \<and> kbCommand k \<noteq> kbCommand j \<and>
     isShorterKbPrefix (drop 1 (chords k)) (drop 1 (chords j)) \<and> whenIsEntirelyIncluded (kbWhen k) (kbWhen j)"

fun visible :: "ResolvedKeybindingItem list \<Rightarrow> ResolvedKeybindingItem list" where
  "visible [] = []"
| "visible (k # ks) = (if list_ex (\<lambda>j. shadows j k) ks then visible ks else k # visible ks)"

section \<open>The map of the first chords\<close>

definition entries :: "(string \<Rightarrow> 'a list option) \<Rightarrow> string \<Rightarrow> 'a list" where
  "entries m key = (case m key of None \<Rightarrow> [] | Some l \<Rightarrow> l)"

lemma addKeyPress_entries:
  "entries (kbMap (addKeyPress R p k)) key = entries (kbMap R) key @ (if key = p then [k] else [])"
  by (simp add: addKeyPress_def entries_def split: option.splits)

lemma addKeyPress_keybindings [simp]: "keybindings (addKeyPress R p k) = keybindings R"
  by (simp add: addKeyPress_def split: option.splits)

lemma substitute_bind_active:
  "chords k \<noteq> [] \<Longrightarrow> (case kbWhen k of None \<Rightarrow> Inr None | Some w \<Rightarrow> substituteConstants h o1 w) = Inr w \<Longrightarrow>
   active h o1 k \<longleftrightarrow> w \<noteq> Some KFalse"
  by (auto simp: active_def split: option.splits)

text \<open>One step of the constructor's loop on an active rule.\<close>

lemma addKeybindings_Cons:
  assumes "addKeybindings h o1 (k # ks) R = Inr R'"
  shows "addKeybindings h o1 ks (if active h o1 k then addKeyPress R (chords k ! 0) k else R) = Inr R'"
proof (cases "chords k = []")
  case True
  then show ?thesis using assms by (simp add: active_def)
next
  case False
  then obtain w where w: "(case kbWhen k of None \<Rightarrow> Inr None | Some w \<Rightarrow> substituteConstants h o1 w) = Inr w"
    and r: "(if w = Some KFalse then addKeybindings h o1 ks R
        else addKeybindings h o1 ks (addKeyPress R (chords k ! 0) k)) = Inr R'"
    using assms by (auto simp: bindr_eq_Inr_iff)
  from substitute_bind_active [OF False w] r show ?thesis by (simp split: if_splits)
qed

lemma addKeybindings_kbMap:
  "addKeybindings h o1 ks R = Inr R' \<Longrightarrow>
   entries (kbMap R') key = entries (kbMap R) key @ filter (\<lambda>k. active h o1 k \<and> chords k ! 0 = key) ks \<and>
   keybindings R' = keybindings R"
proof (induction ks arbitrary: R)
  case (Cons k ks)
  from Cons.IH [OF addKeybindings_Cons [OF Cons.prems]] show ?case
    by (auto simp: addKeyPress_entries split: if_splits)
qed simp

lemma KeybindingResolver_new_kbMap:
  assumes "KeybindingResolver_new h o1 dflts overrides = Inr R"
  shows "entries (kbMap R) key = filter (\<lambda>k. active h o1 k \<and> chords k ! 0 = key) (keybindings R)"
    and "handleRemovals h o1 (dflts @ overrides) = Inr (keybindings R)"
  using assms addKeybindings_kbMap [where key = key]
  by (fastforce simp: KeybindingResolver_new_def bindr_eq_Inr_iff entries_def)+

section \<open>Resolution\<close>

lemma prefixMatches_iff: "prefixMatches ps xs \<longleftrightarrow> prefix ps xs"
  by (induction ps xs rule: prefixMatches.induct) auto

lemma keypressMatches_iff: "keypressMatches ps xs \<longleftrightarrow> prefix ps xs"
  by (induction ps xs rule: keypressMatches.induct) auto

lemma lastMatch_rev: "lastMatch f (rev xs) = (let ms = filter f xs in if ms = [] then None else Some (last ms))"
  by (induction xs rule: rev_induct) (auto simp: Let_def)

lemma prefix_pressed:
  assumes "pressed \<noteq> []"
  shows "prefix pressed ch \<longleftrightarrow> ch \<noteq> [] \<and> ch ! 0 = pressed ! 0 \<and>
     (length pressed < 2 \<or> (\<not> length pressed > length ch \<and> prefix (drop 1 pressed) (drop 1 ch)))"
  using assms by (cases pressed; cases ch) (auto dest: prefix_length_le simp: less_Suc_eq)

lemma resolvedRule_answer:
  assumes "KeybindingResolver_new h o1 dflts overrides = Inr R" and "pressed \<noteq> []"
  shows "resolvedRule h R c pressed = answer h o1 (keybindings R) c pressed"
proof -
  let ?key = "pressed ! 0"
  let ?P = "\<lambda>k. length pressed < 2 \<or> (\<not> length pressed > length (chords k) \<and> prefix (drop 1 pressed) (drop 1 (chords k)))"
  have e: "entries (kbMap R) ?key = filter (\<lambda>k. active h o1 k \<and> chords k ! 0 = ?key) (keybindings R)"
    using KeybindingResolver_new_kbMap [OF assms(1)] by blast
  have "resolvedRule h R c pressed =
      lastMatch (\<lambda>k. contextMatchesRules h c (kbWhen k)) (rev (filter ?P (entries (kbMap R) ?key)))"
    by (simp add: resolvedRule_def resolveCandidates_def KeybindingResolver_findCommand_def entries_def
        prefixMatches_iff lastMatch_rev split: option.splits)
  also have "\<dots> = answer h o1 (keybindings R) c pressed"
    unfolding lastMatch_rev answer_def e filter_filter
    by (rule arg_cong [where f = "\<lambda>ms. let ms = ms in if ms = [] then None else Some (last ms)"])
       (auto simp: answers_def active_def prefix_pressed [OF assms(2)] intro!: filter_cong)
  finally show ?thesis .
qed

lemma resolve_resolvedRule:
  "KeybindingResolver_resolve h R c currentChords keypress =
     (case resolvedRule h R c (currentChords @ [keypress]) of
        None \<Rightarrow> NoMatchingKb
      | Some k \<Rightarrow> if length (currentChords @ [keypress]) < length (chords k) then MoreChordsNeeded
                 else KbFound (kbCommand k) (commandArgs k) (bubble k))"
  by (cases "resolveCandidates R (currentChords @ [keypress])")
     (simp_all add: KeybindingResolver_resolve_def resolvedRule_def Let_def)

lemma resolve_resolution:
  assumes "KeybindingResolver_new h o1 dflts overrides = Inr R"
  shows "KeybindingResolver_resolve h R c currentChords keypress =
    resolution h o1 (keybindings R) c (currentChords @ [keypress])"
  by (simp add: resolve_resolvedRule resolution_def resolvedRule_answer [OF assms])

section \<open>What the lookup shows\<close>

lemma shadowed_append:
  "visible (ks @ [j]) = filter (\<lambda>k. \<not> shadows j k) (visible ks) @ [j]"
  by (induction ks) auto

lemma visible_subset: "set (visible ks) \<subseteq> set ks"
  by (induction ks) auto

lemma distinct_visible: "distinct (map kbId ks) \<Longrightarrow> distinct (map kbId (visible ks))"
proof (induction ks)
  case (Cons k ks)
  then show ?case using visible_subset [of ks] by auto
qed simp

lemma removeItem_filter:
  "distinct (map kbId xs) \<Longrightarrow> removeItem item xs = filter (\<lambda>x. kbId x \<noteq> kbId item) xs"
proof (induction xs)
  case (Cons x xs)
  have "filter (\<lambda>y. kbId y \<noteq> kbId item) xs = xs" if "kbId x = kbId item"
  proof (rule filter_True)
    have "kbId item \<notin> kbId ` set xs" using Cons.prems that by simp
    then show "\<forall>y \<in> set xs. kbId y \<noteq> kbId item" by (auto intro: rev_image_eqI)
  qed
  then show ?case using Cons by auto
qed simp

lemma addToLookupMap_entries:
  "entries (addToLookupMap lm j) cmd = entries lm cmd @ (if \<not> noCommand j \<and> kbCommand j = Some cmd then [j] else [])"
  by (cases "kbCommand j") (auto simp: addToLookupMap_def entries_def noCommand_def split: option.splits)

lemma removeFromLookupMap_entries:
  "entries (removeFromLookupMap lm x) cmd =
     (if \<not> noCommand x \<and> kbCommand x = Some cmd then removeItem x (entries lm cmd) else entries lm cmd)"
  by (auto simp: removeFromLookupMap_def entries_def noCommand_def split: option.splits)

text \<open>The lookup map holds, for every command, the visible rules of that command.\<close>

definition lookup_inv :: "(string \<Rightarrow> ResolvedKeybindingItem list option) \<Rightarrow> ResolvedKeybindingItem list \<Rightarrow> bool" where
  "lookup_inv lm xs \<longleftrightarrow> (\<forall>cmd. entries lm cmd = filter (\<lambda>k. \<not> noCommand k \<and> kbCommand k = Some cmd) xs)"

lemma removeFromLookupMap_inv:
  assumes "lookup_inv lm xs" and "distinct (map kbId xs)" and "x \<in> U" and "set xs \<subseteq> U" and "inj_on kbId U"
  shows "lookup_inv (removeFromLookupMap lm x) (filter (\<lambda>k. k \<noteq> x) xs)"
proof -
  have d: "distinct (map kbId (filter P xs))" for P using assms(2) by (rule distinct_map_filter)
  have eq: "kbId k = kbId x \<longleftrightarrow> k = x" if "k \<in> set xs" for k
    using assms(3,4,5) that by (auto dest: inj_onD)
  have lm: "entries lm cmd = filter (\<lambda>k. \<not> noCommand k \<and> kbCommand k = Some cmd) xs" for cmd
    using assms(1) by (simp add: lookup_inv_def)
  show ?thesis unfolding lookup_inv_def removeFromLookupMap_entries lm removeItem_filter [OF d] filter_filter
    by (auto simp: eq intro!: filter_cong)
qed

text \<open>The loop over the conflicts removes the rules the new one shadows.\<close>

definition conflicts_with :: "ResolvedKeybindingItem \<Rightarrow> ResolvedKeybindingItem \<Rightarrow> bool" where
  "conflicts_with j k \<longleftrightarrow> kbCommand k \<noteq> kbCommand j \<and>
     isShorterKbPrefix (drop 1 (chords k)) (drop 1 (chords j)) \<and> whenIsEntirelyIncluded (kbWhen k) (kbWhen j)"

lemma removeConflicts_inv:
  assumes "set ks \<subseteq> U" and "inj_on kbId U"
  shows "lookup_inv lm xs \<Longrightarrow> distinct (map kbId xs) \<Longrightarrow> set xs \<subseteq> U \<Longrightarrow>
    lookup_inv (removeConflicts ks j lm) (filter (\<lambda>k. \<not> (k \<in> set ks \<and> conflicts_with j k)) xs)"
  using assms(1)
proof (induction ks arbitrary: lm xs)
  case (Cons k ks)
  show ?case
  proof (cases "conflicts_with j k")
    case True
    have "lookup_inv (removeFromLookupMap lm k) (filter (\<lambda>x. x \<noteq> k) xs)"
      by (rule removeFromLookupMap_inv [where U = U]) (use Cons.prems assms(2) in auto)
    from Cons.IH [OF this distinct_map_filter [OF Cons.prems(2)]] Cons.prems
    have "lookup_inv (removeConflicts ks j (removeFromLookupMap lm k))
        (filter (\<lambda>x. \<not> (x \<in> set ks \<and> conflicts_with j x)) (filter (\<lambda>x. x \<noteq> k) xs))" by auto
    moreover have "filter (\<lambda>x. \<not> (x \<in> set ks \<and> conflicts_with j x)) (filter (\<lambda>x. x \<noteq> k) xs) =
        filter (\<lambda>x. \<not> (x \<in> set (k # ks) \<and> conflicts_with j x)) xs"
      using True by (auto intro!: filter_cong)
    ultimately show ?thesis using True by (simp add: conflicts_with_def)
  next
    case False
    have "filter (\<lambda>x. \<not> (x \<in> set (k # ks) \<and> conflicts_with j x)) xs =
        filter (\<lambda>x. \<not> (x \<in> set ks \<and> conflicts_with j x)) xs"
      using False by (auto intro!: filter_cong)
    then show ?thesis using Cons False by (auto simp: conflicts_with_def)
  qed
qed simp

lemma addToLookupMap_inv:
  "lookup_inv lm xs \<Longrightarrow> lookup_inv (addToLookupMap lm j) (xs @ [j])"
  by (simp add: lookup_inv_def addToLookupMap_entries)

lemma addKeyPress_lookup:
  assumes inv: "lookup_inv (kbLookupMap R) (visible ks)"
    and map: "entries (kbMap R) (chords j ! 0) = filter (\<lambda>k. chords k ! 0 = chords j ! 0) ks"
    and ids: "distinct (map kbId ks)"
  shows "lookup_inv (kbLookupMap (addKeyPress R (chords j ! 0) j)) (visible (ks @ [j]))"
proof -
  let ?cs = "entries (kbMap R) (chords j ! 0)"
  have "lookup_inv (removeConflicts (rev ?cs) j (kbLookupMap R))
      (filter (\<lambda>k. \<not> (k \<in> set (rev ?cs) \<and> conflicts_with j k)) (visible ks))"
    by (rule removeConflicts_inv [where U = "set ks"])
       (use map ids inv visible_subset distinct_visible in \<open>auto simp: distinct_map\<close>)
  moreover have "filter (\<lambda>k. \<not> (k \<in> set (rev ?cs) \<and> conflicts_with j k)) (visible ks) =
      filter (\<lambda>k. \<not> shadows j k) (visible ks)"
    using visible_subset [of ks] by (auto simp: map shadows_def conflicts_with_def intro!: filter_cong)
  moreover have "kbLookupMap (addKeyPress R (chords j ! 0) j) =
      addToLookupMap (removeConflicts (rev ?cs) j (kbLookupMap R)) j"
    by (simp add: addKeyPress_def entries_def split: option.splits)
  ultimately show ?thesis using addToLookupMap_inv by (simp add: shadowed_append)
qed

lemma addKeybindings_lookup:
  "addKeybindings h o1 ks R = Inr R' \<Longrightarrow> lookup_inv (kbLookupMap R) (visible done0) \<Longrightarrow>
   (\<And>key. entries (kbMap R) key = filter (\<lambda>k. chords k ! 0 = key) done0) \<Longrightarrow>
   distinct (map kbId (done0 @ ks)) \<Longrightarrow>
   lookup_inv (kbLookupMap R') (visible (done0 @ filter (active h o1) ks))"
proof (induction ks arbitrary: R done0)
  case (Cons k ks)
  let ?R = "if active h o1 k then addKeyPress R (chords k ! 0) k else R"
  let ?done = "if active h o1 k then done0 @ [k] else done0"
  have "lookup_inv (kbLookupMap ?R) (visible ?done)"
    using Cons.prems(2,3,4) addKeyPress_lookup [of R done0 k] by auto
  moreover have "entries (kbMap ?R) key = filter (\<lambda>k. chords k ! 0 = key) ?done" for key
    using Cons.prems(3) by (auto simp: addKeyPress_entries)
  moreover have "distinct (map kbId (?done @ ks))" using Cons.prems(4) by auto
  ultimately have "lookup_inv (kbLookupMap R') (visible (?done @ filter (active h o1) ks))"
    by (rule Cons.IH [OF addKeybindings_Cons [OF Cons.prems(1)]])
  then show ?case by (simp split: if_splits)
qed simp

lemma lookupKeybindings_visible:
  assumes "KeybindingResolver_new h o1 dflts overrides = Inr R" and "distinct (map kbId (keybindings R))" and "cmd \<noteq> []"
  shows "KeybindingResolver_lookupKeybindings R cmd =
    rev (filter (\<lambda>k. kbCommand k = Some cmd) (visible (filter (active h o1) (keybindings R))))"
proof -
  from assms(1) obtain R0 where R0: "addKeybindings h o1 (keybindings R) R0 = Inr R"
    "kbLookupMap R0 = Map.empty" "kbMap R0 = Map.empty"
    using addKeybindings_kbMap by (fastforce simp: KeybindingResolver_new_def bindr_eq_Inr_iff)
  have "lookup_inv (kbLookupMap R) (visible ([] @ filter (active h o1) (keybindings R)))"
    by (rule addKeybindings_lookup [OF R0(1)]) (use R0 assms(2) in \<open>auto simp: lookup_inv_def entries_def\<close>)
  then have "entries (kbLookupMap R) cmd =
      filter (\<lambda>k. \<not> noCommand k \<and> kbCommand k = Some cmd) (visible (filter (active h o1) (keybindings R)))"
    by (simp add: lookup_inv_def)
  also have "\<dots> = filter (\<lambda>k. kbCommand k = Some cmd) (visible (filter (active h o1) (keybindings R)))"
    using assms(3) by (auto simp: noCommand_def intro!: filter_cong)
  finally show ?thesis
    by (auto simp: KeybindingResolver_lookupKeybindings_def entries_def split: option.splits)
qed

section \<open>A hidden rule is not dispatched\<close>

definition when_comparable :: "ResolvedKeybindingItem \<Rightarrow> bool" where
  "when_comparable k \<longleftrightarrow> (\<forall>e. kbWhen k = Some e \<longrightarrow> comparable e)"

lemma whenIsEntirelyIncluded_meaning:
  assumes "whenIsEntirelyIncluded (kbWhen k) (kbWhen j)" and "when_comparable k" and "when_comparable j"
    and "contextMatchesRules h c (kbWhen k)"
  shows "contextMatchesRules h c (kbWhen j)"
  using assms implies_meaning
  by (auto simp: whenIsEntirelyIncluded_def contextMatchesRules_def when_comparable_def split: option.splits if_splits)

lemma isShorterKbPrefix_iff:
  "isShorterKbPrefix xs ys \<longleftrightarrow> take (min (length xs) (length ys)) xs = take (min (length xs) (length ys)) ys"
  by (induction xs ys rule: isShorterKbPrefix.induct) auto

lemma shadows_prefix:
  assumes "shadows j k" and "chords j \<noteq> []" and "chords k \<noteq> []"
  shows "prefix (take (min (length (chords k)) (length (chords j))) (chords k)) (chords j)"
proof -
  obtain x xs y ys where c: "chords k = x # xs" "chords j = y # ys" using assms(2,3) by (meson neq_Nil_conv)
  have "x = y" "take (min (length xs) (length ys)) xs = take (min (length xs) (length ys)) ys"
    using assms(1) by (auto simp: shadows_def c isShorterKbPrefix_iff)
  then have "take (Suc (min (length xs) (length ys))) (chords k) = take (Suc (min (length xs) (length ys))) (chords j)"
    by (simp add: c)
  then show ?thesis by (simp add: c) (metis append_take_drop_id prefixI)
qed

lemma hidden_shadowed:
  "k \<in> set ks \<Longrightarrow> k \<notin> set (visible ks) \<Longrightarrow> \<exists>as j bs. ks = as @ j # bs \<and> k \<in> set as \<and> shadows j k"
proof (induction ks)
  case (Cons x ks)
  show ?case
  proof (cases "k = x")
    case True
    then obtain j where "j \<in> set ks" "shadows j k" using Cons.prems by (auto simp: list_ex_iff split: if_splits)
    then obtain as bs where "ks = as @ j # bs" by (meson split_list)
    then show ?thesis using True \<open>shadows j k\<close> by (intro exI [of _ "x # as"]) auto
  next
    case False
    then have "k \<in> set ks" "k \<notin> set (visible ks)" using Cons.prems by (auto split: if_splits)
    from Cons.IH [OF this] obtain as j bs where "ks = as @ j # bs" "k \<in> set as" "shadows j k" by blast
    then show ?thesis by (intro exI [of _ "x # as"]) auto
  qed
qed simp

lemma answer_answers: "answer h o1 rules c p = Some k \<Longrightarrow> answers h o1 c p k \<and> k \<in> set rules"
  using last_in_set [of "filter (answers h o1 c p) rules"] by (auto simp: answer_def Let_def split: if_splits)

lemma answer_after:
  assumes "rules = as @ j # bs" and "answers h o1 c p j" and "answer h o1 rules c p = Some k"
  shows "k \<in> set (j # bs)"
  using assms by (auto simp: answer_def Let_def split: if_splits) (metis last.simps last_in_set filter_is_subset subsetD)+

lemma hidden_not_answer:
  assumes "k \<in> set rules" and "active h o1 k" and "k \<notin> set (visible (filter (active h o1) rules))"
    and "distinct rules" and "\<forall>r \<in> set rules. when_comparable r"
  shows "\<exists>n. 1 \<le> n \<and> n \<le> length (chords k) \<and> (\<forall>c. answer h o1 rules c (take n (chords k)) \<noteq> Some k)"
proof -
  from hidden_shadowed [OF _ assms(3)] assms(1,2) obtain as j bs where
    s: "filter (active h o1) rules = as @ j # bs" "k \<in> set as" "shadows j k" by auto
  have "j \<in> set (filter (active h o1) rules)" unfolding s(1) by simp
  then have j: "j \<in> set rules" "active h o1 j" by simp_all
  have ch: "chords j \<noteq> []" "chords k \<noteq> []" using j(2) assms(2) by (simp_all add: active_def)
  let ?n = "min (length (chords k)) (length (chords j))"
  have n: "1 \<le> ?n" "?n \<le> length (chords k)" using ch by (cases "chords k"; cases "chords j"; simp)+
  have "answer h o1 rules c (take ?n (chords k)) \<noteq> Some k" for c
  proof
    assume a: "answer h o1 rules c (take ?n (chords k)) = Some k"
    then have "answers h o1 c (take ?n (chords k)) k" using answer_answers by blast
    then have "contextMatchesRules h c (kbWhen k)" by (simp add: answers_def)
    then have "contextMatchesRules h c (kbWhen j)"
      using whenIsEntirelyIncluded_meaning [of k j] s(3) assms(1,5) j(1) by (auto simp: shadows_def)
    then have "answers h o1 c (take ?n (chords k)) j"
      using shadows_prefix [OF s(3) ch] j(2) by (simp add: answers_def)
    moreover have "answer h o1 (filter (active h o1) rules) c (take ?n (chords k)) = Some k"
    proof -
      have "filter (answers h o1 c p) (filter (active h o1) rules) = filter (answers h o1 c p) rules" for p
        by (auto simp: answers_def intro!: filter_cong)
      then show ?thesis using a by (simp add: answer_def)
    qed
    ultimately have "k \<in> set (j # bs)" using answer_after [OF s(1)] by blast
    moreover have "distinct (filter (active h o1) rules)" using assms(4) by simp
    ultimately show False using s(1,2) by auto
  qed
  then show ?thesis using n by blast
qed

section \<open>Removals\<close>

definition removes :: "host \<Rightarrow> ops \<Rightarrow> ResolvedKeybindingItem \<Rightarrow> ResolvedKeybindingItem \<Rightarrow> bool" where
  "removes h o1 rule removal \<longleftrightarrow> isRemovalRule removal \<and> tl (the (kbCommand removal)) = the (kbCommand rule) \<and>
     isTargetedForRemoval h o1 rule (Some (chords removal)) (kbWhen removal) = Inr True"

lemma collectRemovals_entries:
  "entries (collectRemovals rules m) cmd =
     entries m cmd @ filter (\<lambda>r. isRemovalRule r \<and> tl (the (kbCommand r)) = cmd) rules"
  by (induction rules arbitrary: m) (auto simp: entries_def Let_def split: option.splits)

lemma anyRemoves_iff:
  "anyRemoves h o1 rule rs = Inr b \<Longrightarrow>
   b = (\<exists>r \<in> set rs. isTargetedForRemoval h o1 rule (Some (chords r)) (kbWhen r) = Inr True)"
  by (induction rs) (auto simp: bindr_eq_Inr_iff split: if_splits)

definition kept :: "host \<Rightarrow> ops \<Rightarrow> ResolvedKeybindingItem list \<Rightarrow> ResolvedKeybindingItem \<Rightarrow> bool" where
  "kept h o1 rules k \<longleftrightarrow> \<not> isRemovalRule k \<and>
     (isDefault k \<and> \<not> noCommand k \<longrightarrow> \<not> (\<exists>r \<in> set rules. removes h o1 k r))"

lemma keepRules_filter:
  assumes m: "\<And>cmd. entries m cmd = filter (\<lambda>r. isRemovalRule r \<and> tl (the (kbCommand r)) = cmd) rules"
  shows "keepRules h o1 m ks = Inr res \<Longrightarrow> res = filter (kept h o1 rules) ks"
proof (induction ks arbitrary: res)
  case (Cons k ks)
  have nr: "isRemovalRule k \<Longrightarrow> \<not> noCommand k" by (auto simp: isRemovalRule_def noCommand_def split: option.splits)
  have e: "entries m (the (kbCommand k)) = filter (\<lambda>r. isRemovalRule r \<and> tl (the (kbCommand r)) = the (kbCommand k)) rules"
    by (rule m)
  show ?case
  proof (cases "m (the (kbCommand k))")
    case None
    then have "filter (\<lambda>r. isRemovalRule r \<and> tl (the (kbCommand r)) = the (kbCommand k)) rules = []"
      using e by (simp add: entries_def)
    then have "\<not> (\<exists>r \<in> set rules. removes h o1 k r)" by (auto simp: removes_def filter_empty_conv)
    then show ?thesis using Cons None nr by (auto simp: kept_def noCommand_def bindr_eq_Inr_iff split: if_splits)
  next
    case (Some rs)
    have rs: "set rs = {r \<in> set rules. isRemovalRule r \<and> tl (the (kbCommand r)) = the (kbCommand k)}"
      using Some e by (auto simp: entries_def)
    have "anyRemoves h o1 k rs = Inr b \<Longrightarrow> b = (\<exists>r \<in> set rules. removes h o1 k r)" for b
      using anyRemoves_iff [of h o1 k rs b] rs by (auto simp: removes_def)
    then show ?thesis using Cons Some nr by (auto simp: kept_def noCommand_def bindr_eq_Inr_iff split: if_splits)
  qed
qed simp

lemma handleRemovals_filter:
  assumes "handleRemovals h o1 rules = Inr res"
  shows "res = filter (kept h o1 rules) rules"
proof (cases "list_ex isRemovalRule rules")
  case False
  then have "\<forall>k \<in> set rules. kept h o1 rules k" by (auto simp: list_ex_iff kept_def removes_def)
  then show ?thesis using assms False by (simp add: handleRemovals_def filter_id_conv)
next
  case True
  have "entries (collectRemovals rules Map.empty) cmd = filter (\<lambda>r. isRemovalRule r \<and> tl (the (kbCommand r)) = cmd) rules" for cmd
    by (simp add: collectRemovals_entries) (simp add: entries_def)
  from keepRules_filter [OF this] show ?thesis using assms True by (simp add: handleRemovals_def)
qed

end
