(* ===== verification/Keybinding_Service.thy ===== *)
theory Keybinding_Service
  imports Keybinding_Laws
begin

text \<open>
  The dispatch state machine of
  \<open>src/vs/platform/keybinding/common/abstractKeybindingService.ts\<close>: chord mode with its status message,
  its timer and the input method, and the detection of single modifier chords. An event carries
  what the abstract methods return for it (the resolved keybinding, the context of the target, the
  time, the focus). Executed commands are recorded in a trace; commands do not call back into the
  service. Logging and telemetry are left out.
\<close>

section \<open>State\<close>

record ResolvedChord =
  ctrlKey :: bool
  shiftKey :: bool
  altKey :: bool
  metaKey :: bool

text \<open>What the service reads of a \<open>ResolvedKeybinding\<close>.\<close>

record userKeypress =
  hasMultipleChords :: bool
  dispatchChord :: "string option"
  singleModifierChord :: "string option"
  firstChord :: ResolvedChord
  keyLabel :: "string option"

record KeybindingModifierSet =
  msCtrl :: bool
  msShift :: bool
  msAlt :: bool
  msMeta :: bool

definition KeybindingModifierSet_new :: "ResolvedChord option \<Rightarrow> KeybindingModifierSet" where
  "KeybindingModifierSet_new src =
     (case src of
        None \<Rightarrow> \<lparr> msCtrl = False, msShift = False, msAlt = False, msMeta = False \<rparr>
      | Some x \<Rightarrow> \<lparr> msCtrl = ctrlKey x, msShift = shiftKey x, msAlt = altKey x, msMeta = metaKey x \<rparr>)"

definition KeybindingModifierSet_has :: "KeybindingModifierSet \<Rightarrow> string \<Rightarrow> bool" where
  "KeybindingModifierSet_has m modifier =
     (if modifier = ''ctrl'' then msCtrl m
      else if modifier = ''shift'' then msShift m
      else if modifier = ''alt'' then msAlt m
      else if modifier = ''meta'' then msMeta m
      else False)"

text \<open>\<open>chordChecker\<close> is the last interaction while the interval timer runs; \<open>openMessages\<close> counts the chord
  messages whose handle was not closed, and \<open>statusMessage\<close> says whether the service holds one.\<close>

record service =
  currentChords :: "(string \<times> string option) list"
  chordChecker :: "int option"
  statusMessage :: bool
  openMessages :: nat
  ignoreSingleModifiers :: KeybindingModifierSet
  currentSingleModifier :: "string option"
  modifierTimeout :: bool
  imeEnabled :: bool
  executed :: "(string \<times> string option) list"

definition service_new :: service where
  "service_new = \<lparr> currentChords = [], chordChecker = None, statusMessage = False, openMessages = 0,
     ignoreSingleModifiers = KeybindingModifierSet_new None, currentSingleModifier = None,
     modifierTimeout = False, imeEnabled = True, executed = [] \<rparr>"

definition inChordMode :: "service \<Rightarrow> bool" where
  "inChordMode s \<longleftrightarrow> length (currentChords s) > 0"

section \<open>Chord mode\<close>

definition scheduleLeaveChordMode :: "int \<Rightarrow> service \<Rightarrow> service" where
  "scheduleLeaveChordMode now s = s\<lparr>chordChecker := Some now\<rparr>"

definition expectAnotherChord :: "int \<Rightarrow> string \<Rightarrow> string option \<Rightarrow> service \<Rightarrow> service" where
  "expectAnotherChord now chord keypressLabel s =
     (let s1 = s\<lparr>currentChords := currentChords s @ [(chord, keypressLabel)]\<rparr>;
          s2 = s1\<lparr>statusMessage := True, openMessages := openMessages s1 + 1\<rparr>;
          s3 = scheduleLeaveChordMode now s2
      in if imeEnabled s3 then s3\<lparr>imeEnabled := False\<rparr> else s3)"

definition leaveChordMode :: "service \<Rightarrow> service" where
  "leaveChordMode s =
     (let s1 = (if statusMessage s then s\<lparr>statusMessage := False, openMessages := openMessages s - 1\<rparr> else s)
      in s1\<lparr>chordChecker := None, currentChords := [], imeEnabled := True\<rparr>)"

text \<open>The callback of the interval timer.\<close>

definition chordTick :: "int \<Rightarrow> bool \<Rightarrow> service \<Rightarrow> service" where
  "chordTick now documentHasFocus s =
     (case chordChecker s of
        None \<Rightarrow> s
      | Some chordLastInteractedTime \<Rightarrow>
          if \<not> documentHasFocus then leaveChordMode s
          else if now - chordLastInteractedTime > 5000 then leaveChordMode s
          else s)"

section \<open>Dispatch\<close>

text \<open>The three cases of the result of \<open>resolve\<close>.\<close>

definition onNoMatchingKb :: "service \<Rightarrow> bool \<times> service" where
  "onNoMatchingKb s = (if inChordMode s then (True, leaveChordMode s) else (False, s))"

definition onMoreChordsNeeded :: "int \<Rightarrow> string \<Rightarrow> string option \<Rightarrow> service \<Rightarrow> bool \<times> service" where
  "onMoreChordsNeeded now chord lbl s = (True, expectAnotherChord now chord lbl s)"

definition onKbFound :: "string option \<Rightarrow> string option \<Rightarrow> bool \<Rightarrow> service \<Rightarrow> bool \<times> service" where
  "onKbFound commandId args isBubble s =
     (if commandId = None \<or> commandId = Some []
      then (if inChordMode s then (True, leaveChordMode s) else (False, s))
      else let s1 = (if inChordMode s then leaveChordMode s else s)
           in (\<not> isBubble, s1\<lparr>executed := executed s1 @ [(the commandId, args)]\<rparr>))"

definition doDispatch ::
  "host \<Rightarrow> KeybindingResolver \<Rightarrow> int \<Rightarrow> ckcontext \<Rightarrow> userKeypress \<Rightarrow> bool \<Rightarrow> service \<Rightarrow> bool \<times> service" where
  "doDispatch h R now c kb isSingleModiferChord s =
     (if hasMultipleChords kb then (False, s)
      else let pressed = (if isSingleModiferChord then singleModifierChord kb else dispatchChord kb);
               current = (if isSingleModiferChord
                          then (case singleModifierChord kb of Some x \<Rightarrow> if x = [] then [] else [x] | None \<Rightarrow> [])
                          else map fst (currentChords s))
           in case pressed of
                None \<Rightarrow> (False, s)
              | Some chord \<Rightarrow>
                  (case KeybindingResolver_resolve h R c current chord of
                     NoMatchingKb \<Rightarrow> onNoMatchingKb s
                   | MoreChordsNeeded \<Rightarrow> onMoreChordsNeeded now chord (keyLabel kb) s
                   | KbFound cmd args bub \<Rightarrow> onKbFound cmd args bub s))"

definition dispatch ::
  "host \<Rightarrow> KeybindingResolver \<Rightarrow> int \<Rightarrow> ckcontext \<Rightarrow> bool \<Rightarrow> userKeypress \<Rightarrow> service \<Rightarrow> bool \<times> service" where
  "dispatch h R now c isKeyInComposition kb s =
     (if isKeyInComposition then (False, s) else doDispatch h R now c kb False s)"

text \<open>A keybinding triggered by a menu accelerator; \<open>kbs\<close> is what \<open>resolveUserBinding\<close> returns.\<close>

definition dispatchByUserSettingsLabel ::
  "host \<Rightarrow> KeybindingResolver \<Rightarrow> int \<Rightarrow> ckcontext \<Rightarrow> userKeypress list \<Rightarrow> service \<Rightarrow> service" where
  "dispatchByUserSettingsLabel h R now c kbs s =
     (if length kbs = 0 then s else snd (doDispatch h R now c (kbs ! 0) False s))"

definition softDispatch ::
  "host \<Rightarrow> KeybindingResolver \<Rightarrow> ckcontext \<Rightarrow> bool \<Rightarrow> userKeypress \<Rightarrow> service \<Rightarrow> ResolutionResult" where
  "softDispatch h R c isKeyInComposition kb s =
     (if isKeyInComposition then NoMatchingKb
      else if hasMultipleChords kb then NoMatchingKb
      else case dispatchChord kb of
        None \<Rightarrow> NoMatchingKb
      | Some chord \<Rightarrow> KeybindingResolver_resolve h R c (map fst (currentChords s)) chord)"

definition cancelModifier :: "service \<Rightarrow> service" where
  "cancelModifier s = s\<lparr>modifierTimeout := False, currentSingleModifier := None\<rparr>"

definition singleModifierDispatch ::
  "host \<Rightarrow> KeybindingResolver \<Rightarrow> int \<Rightarrow> ckcontext \<Rightarrow> bool \<Rightarrow> userKeypress \<Rightarrow> service \<Rightarrow> bool \<times> service" where
  "singleModifierDispatch h R now c isKeyInComposition kb s =
     (if isKeyInComposition then (False, s)
      else case (case singleModifierChord kb of Some x \<Rightarrow> if x = [] then None else Some x | None \<Rightarrow> None) of
        Some singleModifier \<Rightarrow>
          if KeybindingModifierSet_has (ignoreSingleModifiers s) singleModifier
          then (False, cancelModifier (s\<lparr>ignoreSingleModifiers := KeybindingModifierSet_new None\<rparr>))
          else let s1 = s\<lparr>ignoreSingleModifiers := KeybindingModifierSet_new None\<rparr> in
            (case currentSingleModifier s1 of
               None \<Rightarrow> (False, s1\<lparr>currentSingleModifier := Some singleModifier, modifierTimeout := True\<rparr>)
             | Some m \<Rightarrow>
                 if singleModifier = m then doDispatch h R now c kb True (cancelModifier s1)
                 else (False, cancelModifier s1))
      | None \<Rightarrow>
          (False, cancelModifier (s\<lparr>ignoreSingleModifiers := KeybindingModifierSet_new (Some (firstChord kb))\<rparr>)))"

text \<open>The callback of the timeout of 300 milliseconds.\<close>

definition modifierTick :: "service \<Rightarrow> service" where
  "modifierTick s = s\<lparr>currentSingleModifier := None, modifierTimeout := False\<rparr>"

section \<open>Runs\<close>

datatype service_event =
    KeyDown int ckcontext bool userKeypress
  | KeyUp int ckcontext bool userKeypress
  | ChordTick int bool
  | ModifierTick
  | MenuAccelerator int ckcontext "userKeypress list"

fun service_step :: "host \<Rightarrow> KeybindingResolver \<Rightarrow> service_event \<Rightarrow> service \<Rightarrow> service" where
  "service_step h R (KeyDown now c composing kb) s = snd (dispatch h R now c composing kb s)"
| "service_step h R (KeyUp now c composing kb) s = snd (singleModifierDispatch h R now c composing kb s)"
| "service_step h R (ChordTick now focus) s = chordTick now focus s"
| "service_step h R ModifierTick s = modifierTick s"
| "service_step h R (MenuAccelerator now c kbs) s = dispatchByUserSettingsLabel h R now c kbs s"

text \<open>A timer event happens only while its timer is set.\<close>

fun enabled :: "service_event \<Rightarrow> service \<Rightarrow> bool" where
  "enabled (ChordTick now focus) s = (chordChecker s \<noteq> None)"
| "enabled ModifierTick s = modifierTimeout s"
| "enabled e s = True"

inductive reachable :: "host \<Rightarrow> KeybindingResolver \<Rightarrow> service \<Rightarrow> bool" for h R where
  reachable_new: "reachable h R service_new"
| reachable_step: "reachable h R s \<Longrightarrow> enabled e s \<Longrightarrow> reachable h R (service_step h R e s)"

inductive_cases reachableE: "reachable h R s"

section \<open>The invariant of chord mode\<close>

definition service_inv :: "service \<Rightarrow> bool" where
  "service_inv s \<longleftrightarrow>
     (chordChecker s \<noteq> None \<longleftrightarrow> inChordMode s) \<and> (statusMessage s \<longleftrightarrow> inChordMode s) \<and>
     (imeEnabled s \<longleftrightarrow> \<not> inChordMode s) \<and> (statusMessage s \<longrightarrow> openMessages s > 0) \<and>
     (currentSingleModifier s \<noteq> None \<longleftrightarrow> modifierTimeout s)"

lemmas service_defs = inChordMode_def scheduleLeaveChordMode_def expectAnotherChord_def leaveChordMode_def
  chordTick_def onNoMatchingKb_def onMoreChordsNeeded_def onKbFound_def cancelModifier_def modifierTick_def

lemma leaveChordMode_inv: "service_inv s \<Longrightarrow> service_inv (leaveChordMode s)"
  by (simp add: service_inv_def service_defs Let_def)

lemma onResult_inv:
  assumes "service_inv s"
  shows "service_inv (snd (onNoMatchingKb s))" and "service_inv (snd (onMoreChordsNeeded now chord lbl s))"
    and "service_inv (snd (onKbFound cmd args bub s))"
  using assms by (auto simp: service_inv_def service_defs Let_def)

lemma doDispatch_cases:
  obtains "snd (doDispatch h R now c kb b s) = s"
  | "snd (doDispatch h R now c kb b s) = snd (onNoMatchingKb s)"
  | chord where "snd (doDispatch h R now c kb b s) = snd (onMoreChordsNeeded now chord (keyLabel kb) s)"
  | cmd args bub where "snd (doDispatch h R now c kb b s) = snd (onKbFound cmd args bub s)"
proof -
  have "snd (doDispatch h R now c kb b s) = s \<or> snd (doDispatch h R now c kb b s) = snd (onNoMatchingKb s) \<or>
      (\<exists>chord. snd (doDispatch h R now c kb b s) = snd (onMoreChordsNeeded now chord (keyLabel kb) s)) \<or>
      (\<exists>cmd args bub. snd (doDispatch h R now c kb b s) = snd (onKbFound cmd args bub s))"
    unfolding doDispatch_def Let_def
    by (cases "if b then singleModifierChord kb else dispatchChord kb")
       (auto split: ResolutionResult.splits)
  then show thesis using that by blast
qed

lemma doDispatch_inv: "service_inv s \<Longrightarrow> service_inv (snd (doDispatch h R now c kb b s))"
  by (cases rule: doDispatch_cases [of h R now c kb b s]) (auto simp: onResult_inv)

lemma cancelModifier_inv: "service_inv s \<Longrightarrow> service_inv (cancelModifier (s\<lparr>ignoreSingleModifiers := m\<rparr>))"
  by (auto simp: service_inv_def service_defs)

lemma singleModifierDispatch_inv: "service_inv s \<Longrightarrow> service_inv (snd (singleModifierDispatch h R now c composing kb s))"
  unfolding singleModifierDispatch_def Let_def
  by (auto simp: cancelModifier_inv doDispatch_inv split: option.splits) (auto simp: service_inv_def inChordMode_def)

lemma service_step_inv: "service_inv s \<Longrightarrow> enabled e s \<Longrightarrow> service_inv (service_step h R e s)"
proof (induction h R e s rule: service_step.induct)
  case (3 h R now focus s)
  then show ?case by (auto simp: chordTick_def leaveChordMode_inv split: option.splits)
next
  case (4 h R s)
  then show ?case by (simp add: service_inv_def modifierTick_def inChordMode_def)
qed (simp_all add: dispatch_def dispatchByUserSettingsLabel_def doDispatch_inv singleModifierDispatch_inv)

lemma reachable_inv: "reachable h R s \<Longrightarrow> service_inv s"
proof (induction rule: reachable.induct)
  case reachable_new
  show ?case by (simp add: service_inv_def service_new_def inChordMode_def)
next
  case (reachable_step s e)
  then show ?case by (simp add: service_step_inv)
qed

section \<open>What is executed\<close>

lemma onResult_executed [simp]:
  "executed (leaveChordMode s) = executed s"
  "executed (snd (onNoMatchingKb s)) = executed s"
  "executed (snd (onMoreChordsNeeded now chord lbl s)) = executed s"
  by (simp_all add: service_defs Let_def)

lemma onKbFound_executed:
  "executed (snd (onKbFound cmd args bub s)) =
     executed s @ (if cmd = None \<or> cmd = Some [] then [] else [(the cmd, args)])"
  by (auto simp: onKbFound_def Let_def)

lemma resolution_KbFound:
  assumes "resolution h o1 rules c pressed = KbFound cmd args bub"
  shows "\<exists>k. answer h o1 rules c pressed = Some k \<and> k \<in> set rules \<and> chords k = pressed \<and>
     contextMatchesRules h c (kbWhen k) \<and> kbCommand k = cmd \<and> commandArgs k = args"
proof -
  from assms obtain k where k: "answer h o1 rules c pressed = Some k" "\<not> length pressed < length (chords k)"
    "kbCommand k = cmd" "commandArgs k = args"
    by (auto simp: resolution_def split: option.splits if_splits)
  have "answers h o1 c pressed k" "k \<in> set rules" using answer_answers [OF k(1)] by auto
  moreover from this k(2) have "chords k = pressed"
    by (metis answers_def le_antisym not_le prefix_length_le prefix_length_prefix prefix_order.refl
        prefix_order.antisym length_take)
  ultimately show ?thesis using k by (auto simp: answers_def)
qed

lemma dispatch_executed:
  assumes "KeybindingResolver_new h o1 dflts overrides = Inr R"
    and "executed (snd (dispatch h R now c composing kb s)) \<noteq> executed s"
  shows "\<exists>chord k. dispatchChord kb = Some chord \<and> \<not> composing \<and>
     answer h o1 (keybindings R) c (map fst (currentChords s) @ [chord]) = Some k \<and>
     k \<in> set (keybindings R) \<and> chords k = map fst (currentChords s) @ [chord] \<and>
     contextMatchesRules h c (kbWhen k) \<and>
     executed (snd (dispatch h R now c composing kb s)) = executed s @ [(the (kbCommand k), commandArgs k)]"
proof -
  obtain chord where chord: "dispatchChord kb = Some chord" "\<not> composing" "\<not> hasMultipleChords kb"
    using assms(2) by (cases "dispatchChord kb") (auto simp: dispatch_def doDispatch_def split: if_splits)
  let ?p = "map fst (currentChords s) @ [chord]"
  show ?thesis
  proof (cases "resolution h o1 (keybindings R) c ?p")
    case (KbFound cmd args bub)
    then obtain k where "answer h o1 (keybindings R) c ?p = Some k" "k \<in> set (keybindings R)" "chords k = ?p"
      "contextMatchesRules h c (kbWhen k)" "kbCommand k = cmd" "commandArgs k = args"
      using resolution_KbFound by blast
    moreover have d: "dispatch h R now c composing kb s = onKbFound cmd args bub s"
      using chord KbFound by (simp add: dispatch_def doDispatch_def resolve_resolution [OF assms(1)])
    moreover have "\<not> (cmd = None \<or> cmd = Some [])" using assms(2) unfolding d onKbFound_executed by (auto split: if_splits)
    ultimately show ?thesis using chord by (auto simp: onKbFound_executed)
  qed (use assms(2) chord in \<open>simp_all add: dispatch_def doDispatch_def resolve_resolution [OF assms(1)]\<close>)
qed

section \<open>Pressing all chords of a rule\<close>

fun pressAll :: "host \<Rightarrow> KeybindingResolver \<Rightarrow> ckcontext \<Rightarrow> (int \<times> userKeypress) list \<Rightarrow> service \<Rightarrow> service" where
  "pressAll h R c [] s = s"
| "pressAll h R c ((now, kb) # evs) s = pressAll h R c evs (snd (dispatch h R now c False kb s))"

definition presses :: "(int \<times> userKeypress) list \<Rightarrow> string list \<Rightarrow> bool" where
  "presses evs ch \<longleftrightarrow> map (\<lambda>(now, kb). dispatchChord kb) evs = map Some ch \<and> (\<forall>(now, kb) \<in> set evs. \<not> hasMultipleChords kb)"

lemma answer_last:
  assumes "rules = as @ k # bs" and "answers h o1 c p k" and "\<forall>j \<in> set bs. \<not> answers h o1 c p j"
  shows "answer h o1 rules c p = Some k"
  using assms by (simp add: answer_def Let_def filter_False)

lemma answers_prefix:
  "answers h o1 c p j \<Longrightarrow> prefix q p \<Longrightarrow> answers h o1 c q j"
  by (auto simp: answers_def intro: prefix_order.trans)

lemma onMoreChordsNeeded_state:
  "currentChords (snd (onMoreChordsNeeded now chord lbl s)) = currentChords s @ [(chord, lbl)]"
  by (simp add: service_defs Let_def)

lemma pressAll_executes:
  assumes R: "KeybindingResolver_new h o1 dflts overrides = Inr R" and k: "kbCommand k = Some cmd" "cmd \<noteq> []"
    and a: "\<And>n. 1 \<le> n \<Longrightarrow> n \<le> length (chords k) \<Longrightarrow> answer h o1 (keybindings R) c (take n (chords k)) = Some k"
  shows "presses evs (drop (length (currentChords s)) (chords k)) \<Longrightarrow>
    map fst (currentChords s) = take (length (currentChords s)) (chords k) \<Longrightarrow>
    length (currentChords s) < length (chords k) \<Longrightarrow> service_inv s \<Longrightarrow>
    executed (pressAll h R c evs s) = executed s @ [(cmd, commandArgs k)] \<and>
    \<not> inChordMode (pressAll h R c evs s) \<and> service_inv (pressAll h R c evs s)"
proof (induction evs arbitrary: s)
  case Nil
  then show ?case by (simp add: presses_def)
next
  case (Cons ev evs)
  let ?m = "length (currentChords s)"
  obtain now kb where ev: "ev = (now, kb)" by (cases ev)
  have d: "drop ?m (chords k) = chords k ! ?m # drop (Suc ?m) (chords k)"
    using Cons.prems(3) by (simp add: Cons_nth_drop_Suc)
  have kb: "dispatchChord kb = Some (chords k ! ?m)" "\<not> hasMultipleChords kb"
    and rest: "presses evs (drop (Suc ?m) (chords k))"
    using Cons.prems(1) by (auto simp: presses_def ev d)
  have p: "map fst (currentChords s) @ [chords k ! ?m] = take (Suc ?m) (chords k)"
    using Cons.prems(2,3) by (simp add: take_Suc_conv_app_nth)
  have res: "KeybindingResolver_resolve h R c (map fst (currentChords s)) (chords k ! ?m) =
      (if Suc ?m < length (chords k) then MoreChordsNeeded else KbFound (Some cmd) (commandArgs k) (bubble k))"
    using a [of "Suc ?m"] Cons.prems(3) k(1)
    by (auto simp: resolve_resolution [OF R] p resolution_def)
  show ?case
  proof (cases "Suc ?m < length (chords k)")
    case True
    let ?s = "snd (onMoreChordsNeeded now (chords k ! ?m) (keyLabel kb) s)"
    have step: "pressAll h R c (ev # evs) s = pressAll h R c evs ?s"
      using True kb res by (simp add: ev dispatch_def doDispatch_def)
    have len: "length (currentChords ?s) = Suc ?m" by (simp add: onMoreChordsNeeded_state)
    have "map fst (currentChords ?s) = take (length (currentChords ?s)) (chords k)"
      using p by (simp add: onMoreChordsNeeded_state)
    from Cons.IH [OF _ this] rest True onResult_inv(2) [OF Cons.prems(4)]
    show ?thesis unfolding step len by simp
  next
    case False
    then have "drop (Suc ?m) (chords k) = []" by simp
    then have "evs = []" using rest by (simp add: presses_def)
    then have step: "pressAll h R c (ev # evs) s = snd (onKbFound (Some cmd) (commandArgs k) (bubble k) s)"
      using False kb res by (simp add: ev dispatch_def doDispatch_def)
    show ?thesis unfolding step using k(2) onResult_inv(3) [OF Cons.prems(4)]
      by (auto simp: onKbFound_executed) (auto simp: service_defs Let_def split: if_splits)
  qed
qed

end
