(* ===== verification/Context_Key_DNF.thy ===== *)
theory Context_Key_DNF
  imports Context_Key_Laws
begin

text \<open>
  The normalization of \<open>src/vs/platform/contextkey/common/contextkey.ts\<close> returns on disjunctive normal
  forms. A terminal (\<open>lit\<close>) is an expression of one of the types that sort before \<open>Or\<close>; a \<open>clause\<close> is
  built from terminals by conjunction (nested: \<open>_normalizeArr\<close> does not flatten what distribution
  leaves behind), \<open>dnf\<close> adds one level of disjunction, and \<open>coclause\<close>, a disjunction of terminals, is
  what the negation of a clause gives. Two nested calls are enough for disjunctions and for
  conjunctions of clauses, three when one operand is a disjunction, four for all normal forms.
\<close>

declare ck_ops.simps [simp del]

section \<open>Normal forms\<close>

definition terminal :: "expr \<Rightarrow> bool" where
  "terminal e \<longleftrightarrow> ContextKeyExprType e < 9 \<and> \<not> is_And e"

inductive lit :: "expr \<Rightarrow> bool" where
  litI: "terminal e \<Longrightarrow> (\<And>m. memo e = Some m \<Longrightarrow> lit m) \<Longrightarrow> lit e"

definition coclause :: "expr \<Rightarrow> bool" where
  "coclause e \<longleftrightarrow> lit e \<or> (is_Or e \<and> exprField e \<noteq> [] \<and> (\<forall>x \<in> set (exprField e). lit x))"

inductive clause :: "expr \<Rightarrow> bool" where
  clause_lit: "lit e \<Longrightarrow> clause e"
| clause_and: "es \<noteq> [] \<Longrightarrow> (\<And>x. x \<in> set es \<Longrightarrow> clause x) \<Longrightarrow> (\<And>m. n = Some m \<Longrightarrow> coclause m) \<Longrightarrow> clause (KAnd es n)"

definition dnf :: "expr \<Rightarrow> bool" where
  "dnf e \<longleftrightarrow> clause e \<or> (is_Or e \<and> exprField e \<noteq> [] \<and> (\<forall>x \<in> set (exprField e). clause x))"

lemma lit_terminal: "lit e \<Longrightarrow> terminal e"
  by (erule lit.cases) auto

lemma lit_memo: "lit e \<Longrightarrow> memo e = Some m \<Longrightarrow> lit m"
  by (erule lit.cases) auto

lemma lit_constants [simp]: "lit KTrue" "lit KFalse"
  by (rule litI; simp add: terminal_def)+

lemma lit_not: "lit e \<Longrightarrow> \<not> is_And e" "lit e \<Longrightarrow> \<not> is_Or e" "lit e \<Longrightarrow> exprField e = []"
  using lit_terminal [of e] by (cases e; simp add: terminal_def)+

lemma clause_not_Or: "clause e \<Longrightarrow> \<not> is_Or e"
  by (erule clause.cases) (auto dest: lit_not)

lemma clause_parts: "clause e \<Longrightarrow> is_And e \<Longrightarrow> exprField e \<noteq> [] \<and> (\<forall>x \<in> set (exprField e). clause x)"
  by (erule clause.cases) (auto dest: lit_not)

lemma coclause_constants [simp]: "coclause KTrue" "coclause KFalse" "dnf KTrue" "dnf KFalse"
  "clause KTrue" "clause KFalse"
  by (simp_all add: coclause_def dnf_def clause_lit)

lemma coclause_dnf: "coclause e \<Longrightarrow> dnf e"
  by (auto simp: coclause_def dnf_def intro: clause_lit)

lemma lit_coclause: "lit e \<Longrightarrow> coclause e"
  by (simp add: coclause_def)

lemma clause_dnf: "clause e \<Longrightarrow> dnf e"
  by (simp add: dnf_def)

lemma dnf_type: "dnf e \<Longrightarrow> ContextKeyExprType e \<le> 9"
proof -
  have "lit e \<Longrightarrow> ContextKeyExprType e \<le> 9" by (drule lit_terminal) (simp add: terminal_def)
  then show "dnf e \<Longrightarrow> ContextKeyExprType e \<le> 9"
    by (auto simp: dnf_def elim!: clause.cases dest: is_Or_eq) (cases e; simp)
qed

lemma type_Or: "ContextKeyExprType e = 9 \<longleftrightarrow> is_Or e"
  by (cases e) auto

section \<open>Negation of terminals and clauses\<close>

lemma lit_fresh: "lit e \<Longrightarrow> terminal e' \<Longrightarrow> memo e' \<in> {Some e, None} \<Longrightarrow> lit e'"
  by (rule litI) auto

lemma create_terminal:
  "terminal (ContextKeyDefinedExpr_create h k n)" "terminal (ContextKeyNotExpr_create h k n)"
  "terminal (ContextKeyEqualsExpr_create h k v n)" "terminal (ContextKeyNotEqualsExpr_create h k v n)"
  by (auto simp: ContextKeyDefinedExpr_create_def ContextKeyNotExpr_create_def ContextKeyEqualsExpr_create_def
      ContextKeyNotEqualsExpr_create_def terminal_def Let_def split: option.splits prim.splits if_splits)

lemma create_memo:
  "memo (ContextKeyDefinedExpr_create h k n) \<in> {n, None}" "memo (ContextKeyNotExpr_create h k n) \<in> {n, None}"
  "memo (ContextKeyEqualsExpr_create h k v n) \<in> {n, None}" "memo (ContextKeyNotEqualsExpr_create h k v n) \<in> {n, None}"
  by (auto simp: ContextKeyDefinedExpr_create_def ContextKeyNotExpr_create_def ContextKeyEqualsExpr_create_def
      ContextKeyNotEqualsExpr_create_def Let_def split: option.splits prim.splits if_splits)

lemma create_lit:
  "lit e \<Longrightarrow> lit (ContextKeyDefinedExpr_create h k (Some e))"
  "lit e \<Longrightarrow> lit (ContextKeyNotExpr_create h k (Some e))"
  "lit e \<Longrightarrow> lit (ContextKeyEqualsExpr_create h k v (Some e))"
  "lit e \<Longrightarrow> lit (ContextKeyNotEqualsExpr_create h k v (Some e))"
  by (erule lit_fresh; rule create_terminal create_memo)+

lemma negate_lit: "lit e \<Longrightarrow> \<exists>l. negate h o1 e = Inr (Some l) \<and> lit l"
proof (cases "memo e")
  case (Some m)
  assume "lit e"
  with Some show ?thesis using lit_terminal [of e] lit_memo [of e m]
    by (cases e) (auto simp: terminal_def negate_cases memo_or_def)
next
  case None
  assume l: "lit e"
  have w: "lit (KRegex k r)" "lit (KNotRegex k r)" for k r by (rule litI; simp add: terminal_def)+
  from None l show ?thesis using lit_terminal [of e]
    by (cases e) (auto simp: terminal_def negate_cases memo_or_def w create_lit)
qed

lemma mapr_total:
  "(\<And>x. x \<in> set xs \<Longrightarrow> \<exists>y. f x = Inr (Some y) \<and> P y) \<Longrightarrow>
   \<exists>ys. mapr f xs = Inr (map Some ys) \<and> (\<forall>y \<in> set ys. P y) \<and> length ys = length xs"
proof (induction xs)
  case (Cons x xs)
  then obtain y ys where "f x = Inr (Some y)" "P y" "mapr f xs = Inr (map Some ys)" "\<forall>y \<in> set ys. P y" "length ys = length xs"
    by (metis list.set_intros)
  then show ?case by (auto intro!: exI [of _ "y # ys"])
qed simp

text \<open>The complement search returns when the elements have negations.\<close>

lemma complementOf_total:
  "negate h o1 x = Inr (Some l) \<Longrightarrow> \<exists>b. complementOf h o1 x ys = Inr b"
  by (induction ys) auto

lemma hasComplement_total:
  "(\<And>x. x \<in> set xs \<Longrightarrow> \<exists>l. negate h o1 x = Inr (Some l)) \<Longrightarrow> \<exists>b. hasComplement h o1 xs = Inr b"
proof (induction xs)
  case (Cons x xs)
  then obtain l where "negate h o1 x = Inr (Some l)" by auto
  then obtain b where "complementOf h o1 x xs = Inr b" using complementOf_total by blast
  moreover obtain b' where "hasComplement h o1 xs = Inr b'" using Cons by auto
  ultimately show ?case by (cases b) (simp_all, blast?)
qed (auto intro: exI [of _ False])

definition all_some :: "(expr \<Rightarrow> bool) \<Rightarrow> expr option list \<Rightarrow> bool" where
  "all_some P arr \<longleftrightarrow> (\<forall>e. Some e \<in> set arr \<longrightarrow> P e)"

lemma all_some_map [simp]: "all_some P (map Some es) \<longleftrightarrow> (\<forall>e \<in> set es. P e)"
  by (auto simp: all_some_def)

text \<open>The result of the normalization of a disjunction whose flattened operands satisfy \<open>Q\<close>.\<close>

lemma or_normalize_total:
  assumes q: "\<And>x. x \<in> set (concat (map or_terms arr)) \<Longrightarrow> Q x \<and> (\<exists>l. negate h o1 x = Inr (Some l))"
  shows "\<exists>r. ContextKeyOrExpr_normalizeArr h o1 arr n x = Inr r \<and>
     (\<forall>e. r = Some e \<longrightarrow> e \<in> {KTrue, KFalse} \<or> Q e \<or>
        (\<exists>es. e = KOr es n \<and> es \<noteq> [] \<and> (\<forall>y \<in> set es. Q y)))"
proof (cases "Some KTrue \<in> set arr")
  case True
  then show ?thesis by (simp add: ContextKeyOrExpr_normalizeArr_def or_collect_eq)
next
  case F: False
  define es where "es = concat (map or_terms arr)"
  define ds where "ds = dedup (sortBy cmp es)"
  have q: "Q y" "\<exists>l. negate h o1 y = Inr (Some l)" if "y \<in> set es" for y using q that by (auto simp: es_def)
  have ds: "set ds \<subseteq> set es" using dedup_subset [of "sortBy cmp es"] by (simp add: ds_def)
  have u: "ContextKeyOrExpr_normalizeArr h o1 arr n x =
      (if es = [] \<and> Some KFalse \<in> set arr then Inr (Some KFalse) else if es = [] then Inr None
       else if length es = 1 then Inr (Some (sortBy cmp es ! 0)) else or_finish h o1 n x ds)"
    using F by (simp add: ContextKeyOrExpr_normalizeArr_def or_collect_eq es_def [symmetric] ds_def Let_def
        del: concat_eq_Nil_conv split del: if_split cong: if_cong)
  consider "es = []" | a where "es = [a]" | "length es > 1" by (cases es; cases "tl es") auto
  then show ?thesis
  proof cases
    case 1
    then show ?thesis by (auto simp: u)
  next
    case 2
    then show ?thesis using q by (auto simp: u sortBy_def)
  next
    case 3
    from 3 have "es \<noteq> []" by auto
    then have ne: "es \<noteq> []" "ds \<noteq> []" using dedup_nonempty [of "sortBy cmp es"] by (simp_all add: ds_def)
    obtain b where b: "hasComplement h o1 ds = Inr b" using hasComplement_total q(2) ds by (metis subsetD)
    have qd: "\<forall>y \<in> set ds. Q y" using q(1) ds by blast
    have "or_finish h o1 n x ds =
        Inr (Some (if length ds = 1 then ds ! 0 else if x \<and> b then KTrue else KOr ds n))"
      using b by (simp add: or_finish_def)
    moreover have "length ds = 1 \<Longrightarrow> Q (ds ! 0)" using qd nth_mem [of 0 ds] by auto
    ultimately show ?thesis using 3 ne qd by (auto simp: u)
  qed
qed

lemma or_create_Suc: "or_create (ck_ops h (Suc n)) = ContextKeyOrExpr_normalizeArr h (ck_ops h n)"
  and and_create_Suc: "and_create (ck_ops h (Suc n)) = ContextKeyAndExpr_normalizeArr h (ck_ops h n)"
  by (simp_all add: ck_ops.simps)

lemma or_terms_coclause: "coclause e \<Longrightarrow> x \<in> set (or_terms (Some e)) \<Longrightarrow> lit x"
  by (auto simp: coclause_def dest: lit_not split: if_splits)

lemma or_terms_dnf: "dnf e \<Longrightarrow> x \<in> set (or_terms (Some e)) \<Longrightarrow> clause x"
  by (auto simp: dnf_def dest: clause_not_Or split: if_splits)

lemma in_concat_terms:
  "x \<in> set (concat (map f arr)) \<Longrightarrow> f None = [] \<Longrightarrow> \<exists>e. Some e \<in> set arr \<and> x \<in> set (f (Some e))"
  by (auto, case_tac xa; auto)

lemma or_create_coclauses:
  assumes "all_some coclause arr"
  shows "\<exists>r. or_create (ck_ops h (Suc n)) arr m x = Inr r \<and> (\<forall>e. r = Some e \<longrightarrow> coclause e)"
proof -
  have "lit y" if "y \<in> set (concat (map or_terms arr))" for y
    using in_concat_terms [OF that] assms or_terms_coclause by (auto simp: all_some_def simp del: or_terms.simps(2))
  then have q: "lit y \<and> (\<exists>l. negate h (ck_ops h n) y = Inr (Some l))"
    if "y \<in> set (concat (map or_terms arr))" for y
    using that negate_lit by blast
  from or_normalize_total [where Q = lit, OF q] show ?thesis
    unfolding or_create_Suc by (fastforce simp: coclause_def)
qed

text \<open>An array with an operand has a result.\<close>

lemma or_create_defined:
  assumes "or_create (ck_ops h (Suc n)) arr m x = Inr r" and "arr \<noteq> []"
    and "\<forall>a \<in> set arr. \<exists>e. a = Some e \<and> (is_Or e \<longrightarrow> exprField e \<noteq> [])"
  shows "r \<noteq> None"
proof -
  define es where "es = concat (map or_terms arr)"
  obtain a arr' where a: "arr = Some a # arr'" "is_Or a \<longrightarrow> exprField a \<noteq> []" using assms(2,3) by (cases arr) auto
  then have ne: "es = [] \<Longrightarrow> Some KFalse \<in> set arr" by (auto simp: es_def split: if_splits)
  have "Some KTrue \<in> set arr \<Longrightarrow> r = Some KTrue"
    using assms(1) unfolding or_create_Suc by (simp add: ContextKeyOrExpr_normalizeArr_def or_collect_eq)
  moreover have "r \<noteq> None" if F: "Some KTrue \<notin> set arr"
  proof -
    have "(if es = [] \<and> Some KFalse \<in> set arr then Inr (Some KFalse) else if es = [] then Inr None
       else if length es = 1 then Inr (Some (sortBy cmp es ! 0))
       else or_finish h (ck_ops h n) m x (dedup (sortBy cmp es))) = Inr r"
      using F assms(1) unfolding or_create_Suc
      by (simp add: ContextKeyOrExpr_normalizeArr_def or_collect_eq es_def [symmetric] Let_def
          del: concat_eq_Nil_conv split del: if_split cong: if_cong)
    then show ?thesis using ne by (auto simp: or_finish_def bindr_eq_Inr_iff split: if_splits)
  qed
  ultimately show ?thesis by auto
qed

lemma coclause_nonempty: "coclause e \<Longrightarrow> is_Or e \<longrightarrow> exprField e \<noteq> []"
  by (auto simp: coclause_def dest: lit_not)

lemma dnf_nonempty: "dnf e \<Longrightarrow> is_Or e \<longrightarrow> exprField e \<noteq> []"
  by (auto simp: dnf_def dest: clause_not_Or)

lemma negate_clause: "clause e \<Longrightarrow> \<exists>l. negate h (ck_ops h (Suc n)) e = Inr (Some l) \<and> coclause l"
proof (induction rule: clause.induct)
  case (clause_lit e)
  then show ?case using negate_lit lit_coclause by blast
next
  case (clause_and es m)
  show ?case
  proof (cases m)
    case (Some x)
    then show ?thesis using clause_and by (simp add: negate_KAnd memo_or_def)
  next
    case None
    obtain ls where ls: "mapr (negate h (ck_ops h (Suc n))) es = Inr (map Some ls)"
      "\<forall>l \<in> set ls. coclause l" "length ls = length es"
      using mapr_total [where f = "negate h (ck_ops h (Suc n))" and P = coclause, OF clause_and.IH] by blast
    then obtain r where r: "or_create (ck_ops h (Suc n)) (map Some ls) (Some (KAnd es None)) True = Inr r"
      "\<forall>e. r = Some e \<longrightarrow> coclause e" using or_create_coclauses by (metis all_some_map)
    moreover have "r \<noteq> None"
      by (rule or_create_defined [OF r(1)]) (use ls coclause_nonempty clause_and.hyps(1) in auto)
    ultimately show ?thesis using ls(1) None by (auto simp: negate_KAnd memo_or_def)
  qed
qed

lemma or_create_dnfs:
  assumes "all_some dnf arr"
  shows "\<exists>r. or_create (ck_ops h (Suc (Suc n))) arr m x = Inr r \<and> (\<forall>e. r = Some e \<longrightarrow> dnf e)"
proof -
  have "clause y" if "y \<in> set (concat (map or_terms arr))" for y
    using in_concat_terms [OF that] assms or_terms_dnf by (auto simp: all_some_def simp del: or_terms.simps(2))
  then have q: "clause y \<and> (\<exists>l. negate h (ck_ops h (Suc n)) y = Inr (Some l))"
    if "y \<in> set (concat (map or_terms arr))" for y
    using that negate_clause by blast
  from or_normalize_total [where Q = clause, OF q] show ?thesis
    unfolding or_create_Suc [of h "Suc n"] by (fastforce simp: dnf_def)
qed

lemma or_create_dnfs_Some:
  assumes "\<forall>e \<in> set es. dnf e" and "es \<noteq> []"
  shows "\<exists>e. or_create (ck_ops h (Suc (Suc n))) (map Some es) m x = Inr (Some e) \<and> dnf e"
proof -
  obtain r where r: "or_create (ck_ops h (Suc (Suc n))) (map Some es) m x = Inr r" "\<forall>e. r = Some e \<longrightarrow> dnf e"
    using or_create_dnfs assms(1) by (metis all_some_map)
  have "r \<noteq> None" by (rule or_create_defined [OF r(1)]) (use assms dnf_nonempty in auto)
  then show ?thesis using r by auto
qed

section \<open>Conjunctions\<close>

text \<open>The order of \<open>cmp\<close> is first the order of the types.\<close>

lemma cmp_type:
  "ContextKeyExprType a < ContextKeyExprType b \<Longrightarrow> cmp a b \<le> 0"
  "ContextKeyExprType b < ContextKeyExprType a \<Longrightarrow> \<not> cmp a b \<le> 0"
  by (cases a; cases b; simp add: cmp_cases cmp_cases_wrapped)+

abbreviation by_type :: "expr list \<Rightarrow> bool" where
  "by_type \<equiv> sorted_wrt (\<lambda>a b. ContextKeyExprType a \<le> ContextKeyExprType b)"

lemma by_type_insertBy: "by_type xs \<Longrightarrow> by_type (insertBy cmp x xs)"
proof (induction xs)
  case (Cons y ys)
  show ?case
  proof (cases "cmp x y \<le> 0")
    case True
    then have "ContextKeyExprType x \<le> ContextKeyExprType y" using cmp_type(2) [of y x] by fastforce
    then show ?thesis using Cons.prems True by auto
  next
    case False
    then have "ContextKeyExprType y \<le> ContextKeyExprType x" using cmp_type(1) [of x y] by fastforce
    then show ?thesis using Cons False by auto
  qed
qed simp

lemma by_type_sortBy: "by_type (sortBy cmp xs)"
  by (induction xs) (auto simp: sortBy_def by_type_insertBy)

lemma by_type_dedup: "by_type xs \<Longrightarrow> by_type (dedup xs)"
proof (induction xs rule: dedup.induct)
  case (1 x y zs)
  then show ?case using dedup_subset [of "y # zs"] by auto
qed auto

lemma by_type_last: "by_type xs \<Longrightarrow> x \<in> set xs \<Longrightarrow> ContextKeyExprType x \<le> ContextKeyExprType (last xs)"
  by (cases xs rule: rev_cases) (auto simp: sorted_wrt_append)

text \<open>Sorted normal forms without a trailing disjunction are clauses.\<close>

lemma no_trailing_Or:
  assumes "by_type xs" and "\<forall>x \<in> set xs. dnf x" and "\<not> is_Or (last xs)" and "x \<in> set xs"
  shows "clause x"
proof -
  have "last xs \<in> set xs" using assms(4) by (metis empty_iff last_in_set set_empty2)
  then have "ContextKeyExprType (last xs) < 9" using assms(2,3) dnf_type type_Or by fastforce
  then have "\<not> is_Or x" using by_type_last [OF assms(1,4)] type_Or [of x] by linarith
  then show ?thesis using assms(2,4) by (auto simp: dnf_def)
qed

text \<open>The number of disjunctions in an array.\<close>

definition nOr :: "expr list \<Rightarrow> nat" where
  "nOr xs = length (filter is_Or xs)"

lemma nOr_simps [simp]:
  "nOr [] = 0" "nOr (x # xs) = (if is_Or x then Suc (nOr xs) else nOr xs)" "nOr (xs @ ys) = nOr xs + nOr ys"
  by (simp_all add: nOr_def)

lemma nOr_zero: "nOr xs = 0 \<longleftrightarrow> (\<forall>x \<in> set xs. \<not> is_Or x)"
  by (induction xs) auto

lemma nOr_sortBy [simp]: "nOr (sortBy f xs) = nOr xs"
proof -
  have "nOr (insertBy f x ys) = nOr (x # ys)" for x ys by (induction ys) auto
  then show ?thesis by (induction xs) (auto simp: sortBy_def)
qed

lemma nOr_dedup: "nOr (dedup xs) \<le> nOr xs"
  by (induction xs rule: dedup.induct) (auto split: if_splits)

lemma one_Or_butlast:
  assumes "by_type xs" and "\<forall>x \<in> set xs. dnf x" and "nOr xs \<le> 1" and "x \<in> set (butlast xs)"
  shows "clause x"
proof (cases "is_Or (last xs)")
  case True
  have "xs = butlast xs @ [last xs]" using assms(4) by (cases xs rule: rev_cases) auto
  then have "nOr xs = nOr (butlast xs) + 1" using True by (metis nOr_simps One_nat_def add_0 plus_1_eq_Suc add.commute)
  then have "nOr (butlast xs) = 0" using assms(3) by simp
  then show ?thesis using assms(2,4) by (auto simp: nOr_zero dnf_def dest: in_set_butlastD)
next
  case False
  then show ?thesis using no_trailing_Or [OF assms(1,2)] assms(4) by (auto dest: in_set_butlastD)
qed

text \<open>The loop ends with one normal form or with clauses, when the inner conjunctions have results:
  either for every normal form, or for clauses only and there is at most one disjunction.\<close>

lemma and_distribute_total:
  assumes o: "o1 = ck_ops h (Suc (Suc n))"
    and inner: "\<And>a s. clause a \<Longrightarrow> dnf s \<Longrightarrow> many \<or> clause s \<Longrightarrow>
      \<exists>e. and_create o1 [Some a, Some s] None x = Inr (Some e) \<and> dnf e"
  shows "by_type xs \<Longrightarrow> \<forall>e \<in> set xs. dnf e \<Longrightarrow> xs \<noteq> [] \<Longrightarrow> many \<or> nOr xs \<le> 1 \<Longrightarrow>
    \<exists>ys. and_distribute o1 x xs = Inr ys \<and> ys \<noteq> [] \<and> (\<forall>e \<in> set ys. dnf e) \<and>
      (length ys = 1 \<or> (\<forall>e \<in> set ys. clause e))"
proof (induction "length xs" arbitrary: xs rule: less_induct)
  case less
  consider "length xs = 1" | "length xs > 1" "\<not> is_Or (last xs)" | "length xs > 1" "is_Or (last xs)"
    using less.prems(3) by (cases xs; cases "tl xs") auto
  then show ?case
  proof cases
    case 1
    then show ?thesis using less.prems by (simp add: and_distribute.simps [of o1 x xs])
  next
    case 2
    then show ?thesis using less.prems no_trailing_Or [OF less.prems(1,2)]
      by (simp add: and_distribute.simps [of o1 x xs])
  next
    case 3
    then obtain zs s b where xs: "xs = zs @ [s, b]"
      by (cases xs rule: rev_cases; cases "butlast xs" rule: rev_cases) auto
    have b: "is_Or b" "dnf b" "exprField b \<noteq> []" "\<forall>a \<in> set (exprField b). clause a"
      using 3 less.prems(2) clause_not_Or by (auto simp: xs dnf_def)
    have s: "dnf s" "many \<or> clause s"
      using less.prems(2,4) one_Or_butlast [OF less.prems(1,2)] by (auto simp: xs butlast_append)
    obtain els where els: "mapr (\<lambda>a. and_create o1 [Some a, Some s] None x) (exprField b) = Inr (map Some els)"
      "\<forall>e \<in> set els. dnf e" "length els = length (exprField b)"
      using mapr_total [of "exprField b" "\<lambda>a. and_create o1 [Some a, Some s] None x" dnf] inner b(4) s by blast
    have "els \<noteq> []" using els(3) b(3) by auto
    then obtain e where e: "or_create o1 (map Some els) None (zs = []) = Inr (Some e)" "dnf e"
      using or_create_dnfs_Some els(2) unfolding o by blast
    define ws where "ws = sortBy cmp (zs @ [e])"
    have "and_distribute o1 x xs = and_distribute o1 x ws"
      using els(1) e(1) b(1) by (simp add: and_distribute.simps [of o1 x "zs @ [s, b]"] xs butlast_append ws_def)
    moreover have "by_type ws" "\<forall>e \<in> set ws. dnf e" "ws \<noteq> []" "length ws < length xs" "many \<or> nOr ws \<le> 1"
      using less.prems(2,4) e(2) b(1) by (auto simp: ws_def xs by_type_sortBy split: if_splits)
    ultimately show ?thesis using less.hyps [of ws] by simp
  qed
qed

lemma and_terms_dnf: "dnf e \<Longrightarrow> x \<in> set (and_terms (Some e)) \<Longrightarrow> dnf x"
  by (auto simp: dnf_def dest: clause_parts split: if_splits)

lemma clause_terms: "clause e \<Longrightarrow> x \<in> set (and_terms (Some e)) \<Longrightarrow> clause x"
  by (auto dest: clause_parts split: if_splits)

lemma and_normalize_total:
  assumes arr: "all_some dnf arr" and m: "\<And>e. m = Some e \<Longrightarrow> coclause e"
    and dist: "\<And>ds. by_type ds \<Longrightarrow> set ds \<subseteq> set (concat (map and_terms arr)) \<Longrightarrow> ds \<noteq> [] \<Longrightarrow>
      nOr ds \<le> nOr (concat (map and_terms arr)) \<Longrightarrow>
      \<exists>ys. and_distribute (ck_ops h (Suc n)) x ds = Inr ys \<and> ys \<noteq> [] \<and> (\<forall>e \<in> set ys. dnf e) \<and>
        (length ys = 1 \<or> (\<forall>e \<in> set ys. clause e))"
  shows "\<exists>r. and_create (ck_ops h (Suc (Suc n))) arr m x = Inr r \<and> (\<forall>e. r = Some e \<longrightarrow> dnf e)"
proof (cases "Some KFalse \<in> set arr")
  case True
  then show ?thesis unfolding and_create_Suc by (simp add: ContextKeyAndExpr_normalizeArr_def and_collect_eq)
next
  case F: False
  define es where "es = concat (map and_terms arr)"
  define ds where "ds = dedup (sortBy cmp es)"
  let ?o = "ck_ops h (Suc n)"
  have u: "and_create (ck_ops h (Suc (Suc n))) arr m x =
      (if es = [] \<and> Some KTrue \<in> set arr then Inr (Some KTrue) else if es = [] then Inr None
       else if length es = 1 then Inr (Some (es ! 0)) else and_finish h ?o m x ds)"
    using F unfolding and_create_Suc
    by (simp add: ContextKeyAndExpr_normalizeArr_def and_collect_eq es_def [symmetric] ds_def
        del: concat_eq_Nil_conv split del: if_split cong: if_cong)
  have es: "dnf y" if "y \<in> set es" for y
    using in_concat_terms [OF that [unfolded es_def]] arr and_terms_dnf
    by (auto simp: all_some_def simp del: and_terms.simps(2))
  consider "es = []" | a where "es = [a]" | "length es > 1" by (cases es; cases "tl es") auto
  then show ?thesis
  proof cases
    case 1
    then show ?thesis by (auto simp: u)
  next
    case 2
    then show ?thesis using es by (auto simp: u)
  next
    case 3
    then have "es \<noteq> []" by auto
    then have d: "ds \<noteq> []" "by_type ds" "set ds \<subseteq> set es" "nOr ds \<le> nOr es"
      using dedup_nonempty [of "sortBy cmp es"] dedup_subset [of "sortBy cmp es"] nOr_dedup [of "sortBy cmp es"]
      by (simp_all add: ds_def by_type_dedup by_type_sortBy)
    from dist [OF d(2) _ d(1)] d(3,4) obtain ys where ys: "and_distribute ?o x ds = Inr ys" "ys \<noteq> []"
      "\<forall>e \<in> set ys. dnf e" "length ys = 1 \<or> (\<forall>e \<in> set ys. clause e)" unfolding es_def by blast
    have "\<exists>e. and_finish h ?o m x ds = Inr (Some e) \<and> dnf e"
    proof (cases "length ds = 1")
      case True
      then have "ds ! 0 \<in> set es" using d(3) nth_mem [of 0 ds] by auto
      then show ?thesis using True es by (simp add: and_finish_def)
    next
      case L: False
      show ?thesis
      proof (cases "length ys = 1")
        case True
        then have "ys ! 0 \<in> set ys" by (metis nth_mem zero_less_one)
        then show ?thesis using L True ys by (simp add: and_finish_def and_resolve_def)
      next
        case False
        with ys(4) have c: "\<forall>e \<in> set ys. clause e" by blast
        then obtain b where b: "hasComplement h ?o ys = Inr b"
          using hasComplement_total [of ys h ?o] negate_clause by blast
        have "clause (KAnd ys m)" by (rule clause_and) (use c ys(2) m in auto)
        then show ?thesis using L False ys(1) b
          by (auto simp: and_finish_def and_resolve_def clause_dnf)
      qed
    qed
    then show ?thesis using 3 \<open>es \<noteq> []\<close> by (auto simp: u)
  qed
qed

lemma and_create_defined:
  assumes "and_create (ck_ops h (Suc n)) arr m x = Inr r" and "Some a \<in> set arr" and "dnf a"
  shows "r \<noteq> None"
proof -
  define es where "es = concat (map and_terms arr)"
  have "and_terms (Some a) \<noteq> [] \<or> a = KTrue"
    using assms(3) clause_parts [of a] by (cases a) (auto simp: dnf_def)
  then have ne: "es = [] \<Longrightarrow> Some KTrue \<in> set arr" using assms(2) by (auto simp: es_def simp del: and_terms.simps)
  have "Some KFalse \<in> set arr \<Longrightarrow> r = Some KFalse"
    using assms(1) unfolding and_create_Suc by (simp add: ContextKeyAndExpr_normalizeArr_def and_collect_eq)
  moreover have "r \<noteq> None" if F: "Some KFalse \<notin> set arr"
  proof -
    have "(if es = [] \<and> Some KTrue \<in> set arr then Inr (Some KTrue) else if es = [] then Inr None
       else if length es = 1 then Inr (Some (es ! 0))
       else and_finish h (ck_ops h n) m x (dedup (sortBy cmp es))) = Inr r"
      using F assms(1) unfolding and_create_Suc
      by (simp add: ContextKeyAndExpr_normalizeArr_def and_collect_eq es_def [symmetric]
          del: concat_eq_Nil_conv split del: if_split cong: if_cong)
    then show ?thesis using ne by (auto simp: and_finish_def and_resolve_def bindr_eq_Inr_iff split: if_splits)
  qed
  ultimately show ?thesis by auto
qed

lemma concat_terms_clauses:
  "all_some clause arr \<Longrightarrow> x \<in> set (concat (map and_terms arr)) \<Longrightarrow> clause x"
  using in_concat_terms [of x and_terms arr] clause_terms by (auto simp: all_some_def simp del: and_terms.simps(2))

text \<open>Clauses.\<close>

lemma and_create_clauses:
  assumes "all_some clause arr" and "\<And>e. m = Some e \<Longrightarrow> coclause e"
  shows "\<exists>r. and_create (ck_ops h (Suc (Suc n))) arr m x = Inr r \<and> (\<forall>e. r = Some e \<longrightarrow> dnf e)"
proof (rule and_normalize_total)
  show "all_some dnf arr" using assms(1) by (auto simp: all_some_def clause_dnf)
next
  fix ds assume ds: "set ds \<subseteq> set (concat (map and_terms arr))" "ds \<noteq> []"
  then have c: "\<forall>d \<in> set ds. clause d" using concat_terms_clauses [OF assms(1)] by blast
  then have "\<not> is_Or (last ds)" using ds(2) clause_not_Or by simp
  then have "and_distribute (ck_ops h (Suc n)) x ds = Inr ds"
    by (simp add: and_distribute.simps [of _ _ ds])
  then show "\<exists>ys. and_distribute (ck_ops h (Suc n)) x ds = Inr ys \<and> ys \<noteq> [] \<and> (\<forall>e \<in> set ys. dnf e) \<and>
      (length ys = 1 \<or> (\<forall>e \<in> set ys. clause e))" using c ds(2) clause_dnf by auto
qed (use assms(2) in auto)

lemma and_create_pair:
  assumes "\<exists>r. and_create (ck_ops h (Suc n)) [Some a, Some s] None x = Inr r \<and> (\<forall>e. r = Some e \<longrightarrow> dnf e)" and "dnf s"
  shows "\<exists>e. and_create (ck_ops h (Suc n)) [Some a, Some s] None x = Inr (Some e) \<and> dnf e"
  using assms and_create_defined [of h n "[Some a, Some s]" None x _ s] by fastforce

lemma and_create_clause_pair:
  "clause a \<Longrightarrow> clause s \<Longrightarrow> \<exists>e. and_create (ck_ops h (Suc (Suc n))) [Some a, Some s] None x = Inr (Some e) \<and> dnf e"
  by (rule and_create_pair [OF and_create_clauses]) (auto simp: all_some_def clause_dnf)

text \<open>Normal forms.\<close>

lemma and_create_dnfs_step:
  assumes arr: "all_some dnf arr" and m: "\<And>e. m = Some e \<Longrightarrow> coclause e"
    and inner: "\<And>a s. clause a \<Longrightarrow> dnf s \<Longrightarrow> many \<or> clause s \<Longrightarrow>
      \<exists>e. and_create (ck_ops h (Suc (Suc n))) [Some a, Some s] None x = Inr (Some e) \<and> dnf e"
    and many: "many \<or> nOr (concat (map and_terms arr)) \<le> 1"
  shows "\<exists>r. and_create (ck_ops h (Suc (Suc (Suc n)))) arr m x = Inr r \<and> (\<forall>e. r = Some e \<longrightarrow> dnf e)"
proof (rule and_normalize_total [OF arr m])
  fix ds assume ds: "by_type ds" "set ds \<subseteq> set (concat (map and_terms arr))" "ds \<noteq> []"
    "nOr ds \<le> nOr (concat (map and_terms arr))"
  have d: "\<forall>d \<in> set ds. dnf d"
    using ds(2) in_concat_terms [of _ and_terms arr] arr and_terms_dnf
    by (fastforce simp: all_some_def simp del: and_terms.simps(2))
  have "many \<or> nOr ds \<le> 1" using ds(4) many by linarith
  from and_distribute_total [where many = many, OF refl inner ds(1) d ds(3) this]
  show "\<exists>ys. and_distribute (ck_ops h (Suc (Suc n))) x ds = Inr ys \<and> ys \<noteq> [] \<and> (\<forall>e \<in> set ys. dnf e) \<and>
      (length ys = 1 \<or> (\<forall>e \<in> set ys. clause e))" by blast
qed

lemma nOr_terms: "clause a \<Longrightarrow> nOr (and_terms (Some a)) = 0" "dnf s \<Longrightarrow> nOr (and_terms (Some s)) \<le> 1"
proof -
  show c: "nOr (and_terms (Some a)) = 0" if "clause a" for a
    using clause_terms [OF that] clause_not_Or nOr_zero by blast
  show "dnf s \<Longrightarrow> nOr (and_terms (Some s)) \<le> 1"
    using c [of s] by (cases "clause s"; cases s) (auto simp: dnf_def simp del: and_terms.simps(2), simp)
qed

lemma and_create_dnf_pair:
  "clause a \<Longrightarrow> dnf s \<Longrightarrow>
   \<exists>e. and_create (ck_ops h (Suc (Suc (Suc n)))) [Some a, Some s] None x = Inr (Some e) \<and> dnf e"
proof (rule and_create_pair [OF and_create_dnfs_step [where many = False]])
  assume "clause a" "dnf s"
  then show "False \<or> nOr (concat (map and_terms [Some a, Some s])) \<le> 1"
    using nOr_terms by (simp del: and_terms.simps)
qed (auto simp: all_some_def clause_dnf intro: and_create_clause_pair)

lemma and_create_dnfs:
  assumes "all_some dnf arr" and "\<And>e. m = Some e \<Longrightarrow> coclause e"
  shows "\<exists>r. and_create (ck_ops h (Suc (Suc (Suc (Suc n))))) arr m x = Inr r \<and> (\<forall>e. r = Some e \<longrightarrow> dnf e)"
  by (rule and_create_dnfs_step [where many = True, OF assms]) (simp_all add: and_create_dnf_pair)

section \<open>Negation of normal forms\<close>

lemma getTerminals_dnf: "dnf e \<Longrightarrow> getTerminals e \<noteq> [] \<and> (\<forall>x \<in> set (getTerminals e). clause x)"
  using clause_not_Or [of e] by (cases e) (auto simp: dnf_def)

lemma distribute_pairs_total:
  assumes o: "o1 = ck_ops h (Suc (Suc n))"
  shows "\<forall>e \<in> set es. dnf e \<Longrightarrow> es \<noteq> [] \<Longrightarrow> \<exists>e. distribute_pairs o1 (map Some es) = Inr [Some e] \<and> dnf e"
proof (induction "length es" arbitrary: es)
  case (Suc k)
  consider a where "es = [a]" | l r rest where "es = l # r # rest" using Suc.prems(2) by (cases es; cases "tl es") auto
  then show ?case
  proof cases
    case 1
    then show ?thesis using Suc.prems(1) by (simp add: distribute_pairs.simps [of o1 "[Some a]"])
  next
    case 2
    let ?ps = "concat (map (\<lambda>left. map (\<lambda>right. (left, right)) (getTerminals r)) (getTerminals l))"
    have t: "getTerminals l \<noteq> []" "getTerminals r \<noteq> []" "\<forall>x \<in> set (getTerminals l). clause x"
      "\<forall>x \<in> set (getTerminals r). clause x" using getTerminals_dnf [of l] getTerminals_dnf [of r] Suc.prems(1) by (simp_all add: 2)
    have "\<exists>e. (case p of (left, right) \<Rightarrow> and_create o1 [Some left, Some right] None False) = Inr (Some e) \<and> dnf e"
      if "p \<in> set ?ps" for p
      using that t(3,4) and_create_clause_pair unfolding o by (auto)
    from mapr_total [of ?ps "\<lambda>(left, right). and_create o1 [Some left, Some right] None False" dnf, OF this]
    obtain all where all: "mapr (\<lambda>(left, right). and_create o1 [Some left, Some right] None False) ?ps = Inr (map Some all)"
      "\<forall>e \<in> set all. dnf e" "length all = length ?ps" by blast
    have "?ps \<noteq> []" using t(1,2) by (cases "getTerminals l"; cases "getTerminals r") auto
    then have "all \<noteq> []" using all(3) by auto
    then obtain e where e: "or_create o1 (map Some all) None False = Inr (Some e)" "dnf e"
      using or_create_dnfs_Some all(2) unfolding o by blast
    have "distribute_pairs o1 (map Some es) = distribute_pairs o1 (map Some (e # rest))"
      using all(1) e(1) by (simp add: 2 distribute_pairs.simps [of o1 "Some l # Some r # map Some rest"])
    then show ?thesis using Suc.hyps(1) [of "e # rest"] Suc.hyps(2) Suc.prems(1) e(2) by (simp add: 2)
  qed
qed simp

lemma negate_dnf:
  assumes "dnf e" and "is_Or e \<longrightarrow> memo e = None"
  shows "\<exists>e'. negate h (ck_ops h (Suc (Suc n))) e = Inr (Some e') \<and> dnf e'"
proof (cases "clause e")
  case True
  then show ?thesis using negate_clause coclause_dnf by blast
next
  case False
  let ?o = "ck_ops h (Suc (Suc n))"
  from False assms(1) obtain es where es: "e = KOr es None" "es \<noteq> []" "\<forall>x \<in> set es. clause x"
    using assms(2) is_Or_eq by (cases e) (auto simp: dnf_def)
  obtain ls where ls: "mapr (negate h ?o) es = Inr (map Some ls)" "\<forall>l \<in> set ls. coclause l" "length ls = length es"
    using mapr_total [of es "negate h ?o" coclause] negate_clause es(3) by blast
  have "\<forall>l \<in> set ls. dnf l" "ls \<noteq> []" using ls es(2) coclause_dnf by auto
  then obtain d where d: "distribute_pairs ?o (map Some ls) = Inr [Some d]" "dnf d"
    using distribute_pairs_total [OF refl] by blast
  obtain e' where "or_create ?o (map Some [d]) (Some (KOr es None)) True = Inr (Some e')" "dnf e'"
    using or_create_dnfs_Some [of "[d]" h n "Some (KOr es None)" True] d(2) by auto
  then show ?thesis using ls(1) d(1) by (simp add: es(1) negate_KOr memo_or_def)
qed

section \<open>Properties of the when clauses\<close>

definition plain_host :: host where
  "plain_host = \<lparr> isWindows = False, CONSTANT_VALUES = [''isMac'' \<mapsto> True], toLowerCase = (\<lambda>s. s),
     numToString = (\<lambda>q. []), regexTest = (\<lambda>r s. False) \<rparr>"

definition plain_context :: ckcontext where
  "plain_context = (\<lambda>k. if k = ''n'' then Prim (Num (Fin 7)) else Prim (Bool (k = ''a'' \<or> k = ''isMac'')))"

lemma ok_plain: "leaf_ok h c e \<Longrightarrow> exprField e = [] \<Longrightarrow> memo e = None \<Longrightarrow> ok h c e"
  by (rule okI) simp_all

lemma ok_node:
  "\<forall>e \<in> set es. ok h c e \<Longrightarrow> es \<noteq> [] \<Longrightarrow> ok h c (KOr es None)"
  "\<forall>e \<in> set es. ok h c e \<Longrightarrow> es \<noteq> [] \<Longrightarrow> ok h c (KAnd es None)"
  by (rule ok_KOr ok_KAnd; simp)+

lemma lit_plain: "terminal e \<Longrightarrow> memo e = None \<Longrightarrow> lit e"
  by (rule litI) simp_all




lemma witness_substitution:
  "substituteConstants plain_host (ck_ops plain_host 1)
     (KAnd [KDefined ''isMac'' None, KGreater ''n'' (Num (Fin 5)) None] None) =
   Inr (Some (KGreater ''n'' (Num (Fin 5)) None))"
  by (simp add: substituteConstants_KAnd substituteConstants_cases plain_host_def ck_ops.simps
      ContextKeyAndExpr_normalizeArr_def)


text \<open>C17. \<open>implies\<close> is sound: when it answers true, every context that satisfies the first expression
  satisfies the second, for expressions whose equalities compare with strings, whose comparisons
  have numbers as bounds and whose regular expressions have no flags.\<close>

theorem ContextKeyExpr_implies_sound:
  assumes "implies p q" and "comparable p" and "comparable q" and "evaluate h c p"
  shows "evaluate h c q"
  using implies_meaning [OF assms] .

theorem ContextKeyExpr_implies_sound_witness:
  "evaluate plain_host plain_context (KOr [KDefined ''a'' None, KDefined ''b'' None] None)"
  by (rule ContextKeyExpr_implies_sound [where p = "KDefined ''a'' None"])
     (simp_all add: implies.simps equals_cases plain_context_def)

lemma equals_other_type: "ContextKeyExprType e \<noteq> ContextKeyExprType f \<Longrightarrow> \<not> equals e f"
  using equals_type by blast

lemma equals_KIn: "dnf e \<Longrightarrow> \<not> equals e (KIn k w)"
  using dnf_type [of e] equals_other_type [of e "KIn k w"] by simp

text \<open>A disjunction is not distributed over the conjunction when an operand has a type that sorts
  after \<open>Or\<close> (\<open>in\<close> and the comparisons): the result of \<open>a && (b || c) && k in w\<close> keeps the disjunction inside the
  conjunction, and its text, which has no parentheses, reads as another expression.\<close>

theorem ContextKeyAndExpr_create_keeps_Or:
  shows "and_create (ck_ops h (fuel + 3))
      [Some (KDefined a None), Some (KOr [KDefined b None, KDefined d None] None), Some (KIn k w)] None True =
      Inr (Some (KAnd [KDefined a None, KOr [KDefined b None, KDefined d None] None, KIn k w] None)) \<and>
    serialize h (KAnd [KDefined a None, KOr [KDefined b None, KDefined d None] None, KIn k w] None) = a @ '' && '' @ b @ '' || '' @ d @ '' && '' @ k @ '' in '' @ [CHR 39] @ w @ [CHR 39]"
proof (intro conjI)
  let ?a = "KDefined a None" and ?o = "KOr [KDefined b None, KDefined d None] None" and ?i = "KIn k w"
  have f: "fuel + 3 = Suc (Suc (Suc fuel))" by simp
  have s: "dedup (sortBy cmp [?a, ?o, ?i]) = [?a, ?o, ?i]"
    by (simp add: sortBy_def cmp_cases cmp_cases_wrapped equals_cases)
  have lits: "lit (KDefined k' None)" for k' by (rule lit_plain) (simp_all add: terminal_def)
  have "dnf ?o" by (simp add: dnf_def clause_lit lits)
  then obtain n where n: "negate h (ck_ops h (Suc (Suc fuel))) ?o = Inr (Some n)" "dnf n"
    using negate_dnf [of ?o] by auto
  obtain l where l: "negate h (ck_ops h (Suc (Suc fuel))) ?a = Inr (Some l)" "lit l"
    using negate_lit [OF lits] by blast
  have "\<not> equals l ?o" "\<not> equals l ?i"
    using lit_terminal [OF l(2)] by (auto simp: terminal_def intro!: equals_other_type)
  then have "hasComplement h (ck_ops h (Suc (Suc fuel))) [?a, ?o, ?i] = Inr False"
    using l(1) n equals_KIn by simp
  then show "and_create (ck_ops h (fuel + 3)) [Some ?a, Some ?o, Some ?i] None True =
      Inr (Some (KAnd [KDefined a None, KOr [KDefined b None, KDefined d None] None, KIn k w] None))"
    using s unfolding f and_create_Suc
    by (simp add: ContextKeyAndExpr_normalizeArr_def and_finish_def and_resolve_def
        and_distribute.simps [of _ _ "[?a, ?o, ?i]"])
  show "serialize h (KAnd [KDefined a None, KOr [KDefined b None, KDefined d None] None, KIn k w] None) = a @ '' && '' @ b @ '' || '' @ d @ '' && '' @ k @ '' in '' @ [CHR 39] @ w @ [CHR 39]"
    by (simp add: serialize_def class_defs Let_def)
qed

end
