(* ===== verification/Keybinding_Correct.thy ===== *)
theory Keybinding_Correct
  imports Keybinding_Service Context_Key_DNF
begin

text \<open>
  Properties of keybinding resolution and dispatch. The constructor of the resolver is total on
  conditions in disjunctive normal form (the form the normalizing constructors produce, see
  \<open>Context_Key_DNF\<close>); the properties of its result hold for every fuel.
\<close>

section \<open>The constructor returns\<close>

definition dnf_option :: "expr option \<Rightarrow> bool" where
  "dnf_option r \<longleftrightarrow> (\<forall>e. r = Some e \<longrightarrow> dnf e)"

lemma dnf_option_simps [simp]: "dnf_option None" "dnf_option (Some e) = dnf e"
  by (simp_all add: dnf_option_def)

lemma all_some_dnf: "all_some dnf rs \<longleftrightarrow> (\<forall>r \<in> set rs. dnf_option r)"
  by (auto simp: all_some_def dnf_option_def)

lemma mapr_total_dnf:
  "(\<And>x. x \<in> set xs \<Longrightarrow> \<exists>r. f x = Inr r \<and> dnf_option r) \<Longrightarrow>
   \<exists>rs. mapr f xs = Inr rs \<and> (\<forall>r \<in> set rs. dnf_option r)"
proof (induction xs)
  case (Cons x xs)
  then obtain r rs where "f x = Inr r" "dnf_option r" "mapr f xs = Inr rs" "\<forall>r \<in> set rs. dnf_option r"
    by (metis list.set_intros)
  then show ?case by auto
qed simp

lemma substituteConstants_clause:
  "clause e \<Longrightarrow> \<exists>r. substituteConstants h (ck_ops h (fuel + 4)) e = Inr r \<and> dnf_option r"
proof (induction rule: clause.induct)
  case (clause_lit e)
  then have "terminal e" "dnf e" by (auto simp: dnf_def intro: lit_terminal clause.clause_lit)
  then show ?case by (cases e) (auto simp: substituteConstants_cases terminal_def dnf_def clause.clause_lit split: option.splits)
next
  case (clause_and es n)
  obtain rs where rs: "mapr (substituteConstants h (ck_ops h (fuel + 4))) es = Inr rs" "all_some dnf rs"
    using mapr_total_dnf [of es "substituteConstants h (ck_ops h (fuel + 4))"] clause_and by (auto simp: all_some_dnf)
  have "dnf (KAnd es n)" using clause_and by (simp add: dnf_def clause.clause_and)
  moreover obtain r where "and_create (ck_ops h (fuel + 4)) rs n False = Inr r" "dnf_option r"
    using and_create_dnfs [OF rs(2), of n h fuel False] clause_and(3) by (auto simp: dnf_option_def eval_nat_numeral)
  ultimately show ?case by (auto simp: substituteConstants_KAnd rs(1))
qed

lemma substituteConstants_dnf:
  assumes "dnf e"
  shows "\<exists>r. substituteConstants h (ck_ops h (fuel + 4)) e = Inr r"
proof (cases "clause e")
  case True
  then show ?thesis using substituteConstants_clause by blast
next
  case False
  then obtain es n where e: "e = KOr es n" "\<forall>x \<in> set es. clause x"
    using assms is_Or_eq by (cases e) (auto simp: dnf_def)
  obtain rs where rs: "mapr (substituteConstants h (ck_ops h (fuel + 4))) es = Inr rs" "all_some dnf rs"
    using mapr_total_dnf [of es "substituteConstants h (ck_ops h (fuel + 4))"] e(2) substituteConstants_clause
    by (auto simp: all_some_dnf)
  obtain r where "or_create (ck_ops h (fuel + 4)) rs n False = Inr r"
    using or_create_dnfs [OF rs(2), of h "fuel + 2" n False] by (auto simp: eval_nat_numeral)
  then show ?thesis by (auto simp: e(1) substituteConstants_KOr rs(1))
qed

definition when_dnf :: "ResolvedKeybindingItem \<Rightarrow> bool" where
  "when_dnf k \<longleftrightarrow> dnf_option (kbWhen k)"

lemma isTargetedForRemoval_total:
  assumes "when_dnf k" and "dnf_option w"
  shows "\<exists>b. isTargetedForRemoval h (ck_ops h (fuel + 4)) k p w = Inr b"
proof (cases w; cases "kbWhen k")
  fix a b assume "w = Some a" "kbWhen k = Some b"
  moreover from this obtain r s where "substituteConstants h (ck_ops h (fuel + 4)) a = Inr r"
    "substituteConstants h (ck_ops h (fuel + 4)) b = Inr s"
    using assms substituteConstants_dnf by (metis dnf_option_simps(2) when_dnf_def)
  ultimately show ?thesis by (auto simp: isTargetedForRemoval_def)
qed (auto simp: isTargetedForRemoval_def)

lemma anyRemoves_total:
  "when_dnf k \<Longrightarrow> \<forall>r \<in> set rs. when_dnf r \<Longrightarrow> \<exists>b. anyRemoves h (ck_ops h (fuel + 4)) k rs = Inr b"
proof (induction rs)
  case (Cons r rs)
  obtain t where "isTargetedForRemoval h (ck_ops h (fuel + 4)) k (Some (chords r)) (kbWhen r) = Inr t"
    using Cons.prems isTargetedForRemoval_total [of k "kbWhen r" h fuel "Some (chords r)"] by (auto simp: when_dnf_def)
  then show ?case using Cons by auto
qed auto

lemma keepRules_total:
  assumes m: "\<And>cmd rs. m cmd = Some rs \<Longrightarrow> \<forall>r \<in> set rs. when_dnf r"
  shows "\<forall>k \<in> set ks. when_dnf k \<Longrightarrow> \<exists>res. keepRules h (ck_ops h (fuel + 4)) m ks = Inr res"
proof (induction ks)
  case (Cons k ks)
  then obtain res where "keepRules h (ck_ops h (fuel + 4)) m ks = Inr res" by auto
  moreover have "\<exists>b. anyRemoves h (ck_ops h (fuel + 4)) k rs = Inr b" if "m (the (kbCommand k)) = Some rs" for rs
    by (rule anyRemoves_total) (use Cons.prems m [OF that] in auto)
  ultimately show ?case by (cases "m (the (kbCommand k))") fastforce+
qed simp

lemma handleRemovals_total:
  assumes "\<forall>k \<in> set rules. when_dnf k"
  shows "\<exists>res. handleRemovals h (ck_ops h (fuel + 4)) rules = Inr res"
proof -
  have "\<forall>r \<in> set rs. when_dnf r" if "collectRemovals rules Map.empty cmd = Some rs" for cmd rs
  proof -
    have "rs = filter (\<lambda>r. isRemovalRule r \<and> tl (the (kbCommand r)) = cmd) rules"
      using collectRemovals_entries [of rules Map.empty cmd] that by (simp add: entries_def)
    then show ?thesis using assms by simp
  qed
  from keepRules_total [OF this assms] show ?thesis by (auto simp: handleRemovals_def)
qed

lemma addKeybindings_total:
  "\<forall>k \<in> set ks. when_dnf k \<Longrightarrow> \<exists>R'. addKeybindings h (ck_ops h (fuel + 4)) ks R = Inr R'"
proof (induction ks arbitrary: R)
  case (Cons k ks)
  have "\<exists>w. (case kbWhen k of None \<Rightarrow> Inr None | Some w \<Rightarrow> substituteConstants h (ck_ops h (fuel + 4)) w) = Inr w"
    using Cons.prems substituteConstants_dnf by (auto simp: when_dnf_def split: option.splits)
  then show ?case using Cons by auto
qed simp

lemma KeybindingResolver_new_total:
  assumes "\<forall>k \<in> set (dflts @ overrides). when_dnf k"
  shows "\<exists>R. KeybindingResolver_new h (ck_ops h (fuel + 4)) dflts overrides = Inr R \<and>
    keybindings R = filter (kept h (ck_ops h (fuel + 4)) (dflts @ overrides)) (dflts @ overrides)"
proof -
  obtain res where res: "handleRemovals h (ck_ops h (fuel + 4)) (dflts @ overrides) = Inr res"
    using handleRemovals_total [OF assms] by blast
  have f: "res = filter (kept h (ck_ops h (fuel + 4)) (dflts @ overrides)) (dflts @ overrides)"
    by (rule handleRemovals_filter [OF res])
  then have "\<forall>k \<in> set res. when_dnf k" using assms by auto
  from addKeybindings_total [OF this] obtain R where R: "KeybindingResolver_new h (ck_ops h (fuel + 4)) dflts overrides = Inr R"
    unfolding KeybindingResolver_new_def res by fastforce
  then have "keybindings R = res" using KeybindingResolver_new_kbMap(2) res by fastforce
  then show ?thesis using R f by blast
qed

section \<open>An example\<close>

definition demo_rule :: "nat \<Rightarrow> string list \<Rightarrow> string \<Rightarrow> ResolvedKeybindingItem" where
  "demo_rule i ch cmd = \<lparr> kbId = i, chords = ch, bubble = False, kbCommand = Some cmd, commandArgs = None,
     kbWhen = None, isDefault = True, extensionId = None, isBuiltinExtension = False, systemWide = False \<rparr>"

definition demo_resolver :: KeybindingResolver where
  "demo_resolver = \<lparr> defaultKeybindings = [demo_rule 0 [''k'', ''s''] ''save''],
     keybindings = [demo_rule 0 [''k'', ''s''] ''save''], defaultBoundCommands = [''save'' \<mapsto> True],
     kbMap = [''k'' \<mapsto> [demo_rule 0 [''k'', ''s''] ''save'']],
     kbLookupMap = [''save'' \<mapsto> [demo_rule 0 [''k'', ''s''] ''save'']] \<rparr>"

lemmas resolver_simps = KeybindingResolver_new_def handleRemovals_def isRemovalRule_def addKeyPress_def addToLookupMap_def
  noCommand_def demo_rule_def Let_def

lemma demo_resolver: "KeybindingResolver_new h o1 [demo_rule 0 [''k'', ''s''] ''save''] [] = Inr demo_resolver"
  by (simp add: resolver_simps demo_resolver_def)

lemma demo_active [simp]: "active h o1 (demo_rule i ch cmd) \<longleftrightarrow> ch \<noteq> []"
  by (simp add: active_def demo_rule_def)

lemma demo_fields [simp]:
  "chords (demo_rule i ch cmd) = ch" "kbCommand (demo_rule i ch cmd) = Some cmd" "kbId (demo_rule i ch cmd) = i"
  "kbWhen (demo_rule i ch cmd) = None" "commandArgs (demo_rule i ch cmd) = None" "bubble (demo_rule i ch cmd) = False"
  by (simp_all add: demo_rule_def)

lemma demo_keybindings [simp]: "keybindings demo_resolver = [demo_rule 0 [''k'', ''s''] ''save'']"
  by (simp add: demo_resolver_def)

definition demo_key :: "string \<Rightarrow> userKeypress" where
  "demo_key ch = \<lparr> hasMultipleChords = False, dispatchChord = Some ch, singleModifierChord = None,
     firstChord = \<lparr> ctrlKey = False, shiftKey = False, altKey = False, metaKey = False \<rparr>, keyLabel = Some ch \<rparr>"

section \<open>Properties of the resolver\<close>



text \<open>C2. Resolution picks, of all rules that are not removed, the last one that is enabled, that the
  pressed chords start and whose condition holds in the context; it asks for more chords when that
  rule has more, and reports its command otherwise. No rule is missed although only the rules filed
  under the first chord are searched.\<close>

theorem KeybindingResolver_resolve_correct:
  assumes "KeybindingResolver_new h o1 dflts overrides = Inr R"
  shows "KeybindingResolver_resolve h R c earlier keypress =
    resolution h o1 (keybindings R) c (earlier @ [keypress])"
  by (rule resolve_resolution [OF assms])

theorem KeybindingResolver_resolve_correct_witness:
  "KeybindingResolver_resolve plain_host demo_resolver plain_context [''k''] ''s'' =
    resolution plain_host (ck_ops plain_host 4) (keybindings demo_resolver) plain_context ([''k''] @ [''s''])"
  by (rule KeybindingResolver_resolve_correct [OF demo_resolver])

text \<open>C9. The lookup of a command lists, last rule first, the rules of the command that no later rule
  shadows. A rule it leaves out is never settled on in the course of its own chords: there is a number of chords
  after which, in every context, another rule or none is chosen. The rules have distinct identities
  and conditions on which \<open>implies\<close> is sound.\<close>

theorem KeybindingResolver_lookupKeybindings_safe:
  assumes "KeybindingResolver_new h o1 dflts overrides = Inr R" and "distinct (map kbId (keybindings R))"
    and "\<forall>k \<in> set (keybindings R). when_comparable k" and "cmd \<noteq> []"
  shows "KeybindingResolver_lookupKeybindings R cmd =
      rev (filter (\<lambda>k. kbCommand k = Some cmd) (visible (filter (active h o1) (keybindings R)))) \<and>
    (\<forall>k \<in> set (keybindings R). active h o1 k \<longrightarrow> kbCommand k = Some cmd \<longrightarrow>
       k \<notin> set (KeybindingResolver_lookupKeybindings R cmd) \<longrightarrow>
       (\<exists>n. 1 \<le> n \<and> n \<le> length (chords k) \<and> (\<forall>c. resolvedRule h R c (take n (chords k)) \<noteq> Some k)))"
proof (intro conjI ballI impI)
  show l: "KeybindingResolver_lookupKeybindings R cmd =
      rev (filter (\<lambda>k. kbCommand k = Some cmd) (visible (filter (active h o1) (keybindings R))))"
    by (rule lookupKeybindings_visible [OF assms(1,2,4)])
  fix k assume k: "k \<in> set (keybindings R)" "active h o1 k" "kbCommand k = Some cmd"
    "k \<notin> set (KeybindingResolver_lookupKeybindings R cmd)"
  have d: "distinct (keybindings R)" using assms(2) by (simp add: distinct_map)
  have "k \<notin> set (visible (filter (active h o1) (keybindings R)))" using k(3,4) by (simp add: l)
  from hidden_not_answer [OF k(1,2) this d assms(3)] obtain n where
    n: "1 \<le> n" "n \<le> length (chords k)" "\<forall>c. answer h o1 (keybindings R) c (take n (chords k)) \<noteq> Some k" by blast
  have "take n (chords k) \<noteq> []" using n by auto
  from resolvedRule_answer [OF assms(1) this] n
  show "\<exists>n. 1 \<le> n \<and> n \<le> length (chords k) \<and> (\<forall>c. resolvedRule h R c (take n (chords k)) \<noteq> Some k)" by auto
qed

theorem KeybindingResolver_lookupKeybindings_safe_witness:
  "KeybindingResolver_lookupKeybindings demo_resolver ''save'' =
      rev (filter (\<lambda>k. kbCommand k = Some ''save'') (visible (filter (active plain_host (ck_ops plain_host 4)) (keybindings demo_resolver))))"
  by (rule KeybindingResolver_lookupKeybindings_safe [OF demo_resolver, THEN conjunct1]) (simp_all add: when_comparable_def)

text \<open>The lookup is stricter than the dispatch: it hides the first of the rules \<open>a b\<close>, \<open>a\<close>, \<open>a c\<close> because of
  the second one, although the third one keeps the first one within reach.\<close>

lemma lookupKeybindings_hides_reachable:
  "\<exists>R. KeybindingResolver_new h o1
      [demo_rule 0 [''a'', ''b''] ''one'', demo_rule 1 [''a''] ''two'', demo_rule 2 [''a'', ''c''] ''three''] [] = Inr R \<and>
    KeybindingResolver_lookupKeybindings R ''one'' = [] \<and>
    KeybindingResolver_resolve h R c [] ''a'' = MoreChordsNeeded \<and>
    KeybindingResolver_resolve h R c [''a''] ''b'' = KbFound (Some ''one'') None False"
  by (simp add: resolver_simps whenIsEntirelyIncluded_def removeFromLookupMap_def KeybindingResolver_lookupKeybindings_def
      KeybindingResolver_resolve_def resolveCandidates_def KeybindingResolver_findCommand_def contextMatchesRules_def)

section \<open>Properties of the dispatch\<close>

text \<open>A command in the trace comes from a rule.\<close>

definition traced :: "KeybindingResolver \<Rightarrow> service \<Rightarrow> bool" where
  "traced R s \<longleftrightarrow> (\<forall>(cmd, args) \<in> set (executed s). cmd \<noteq> [] \<and>
     (\<exists>k \<in> set (keybindings R). kbCommand k = Some cmd \<and> commandArgs k = args))"

lemma traced_cong: "executed s' = executed s \<Longrightarrow> traced R s \<Longrightarrow> traced R s'"
  by (simp add: traced_def)

lemma doDispatch_traced:
  assumes R: "KeybindingResolver_new h o1 dflts overrides = Inr R" and "traced R s"
  shows "traced R (snd (doDispatch h R now c kb b s))"
proof -
  let ?chord = "if b then singleModifierChord kb else dispatchChord kb"
  let ?current = "if b then (case singleModifierChord kb of Some x \<Rightarrow> if x = [] then [] else [x] | None \<Rightarrow> [])
    else map fst (currentChords s)"
  show ?thesis
  proof (cases "hasMultipleChords kb \<or> ?chord = None")
    case True
    then show ?thesis using assms(2) by (auto simp: doDispatch_def Let_def)
  next
    case False
    then obtain chord where chord: "?chord = Some chord" by blast
    show ?thesis
    proof (cases "resolution h o1 (keybindings R) c (?current @ [chord])")
      case (KbFound cmd args bub)
      from resolution_KbFound [OF this] obtain k where k: "k \<in> set (keybindings R)" "kbCommand k = cmd" "commandArgs k = args"
        by blast
      have "snd (doDispatch h R now c kb b s) = snd (onKbFound cmd args bub s)"
        using False chord KbFound by (simp add: doDispatch_def Let_def resolve_resolution [OF R])
      then show ?thesis using assms(2) k by (auto simp: traced_def onKbFound_executed)
    qed (use False chord assms(2) in
         \<open>simp_all add: doDispatch_def Let_def resolve_resolution [OF R] traced_cong [of _ s] split del: if_split\<close>)
  qed
qed

lemma modifier_executed [simp]:
  "executed (cancelModifier s) = executed s" "executed (modifierTick s) = executed s"
  "executed (chordTick now focus s) = executed s"
  by (auto simp: cancelModifier_def modifierTick_def chordTick_def split: option.splits)

lemma service_step_traced:
  assumes R: "KeybindingResolver_new h o1 dflts overrides = Inr R" and t: "traced R s"
  shows "traced R (service_step h R e s)"
proof (cases e)
  case (KeyDown now c composing kb)
  then show ?thesis using t by (simp add: dispatch_def doDispatch_traced [OF R])
next
  case (MenuAccelerator now c kbs)
  then show ?thesis using t by (simp add: dispatchByUserSettingsLabel_def doDispatch_traced [OF R])
next
  case (KeyUp now c composing kb)
  have "traced R (cancelModifier (s\<lparr>ignoreSingleModifiers := m\<rparr>))" for m by (rule traced_cong [OF _ t]) simp
  then show ?thesis using t unfolding KeyUp service_step.simps singleModifierDispatch_def Let_def
    by (auto simp: doDispatch_traced [OF R] intro: traced_cong [OF _ t] split: option.splits)
qed (simp_all add: traced_cong [OF _ t])



text \<open>C12. A key press executes nothing, or exactly the command of the rule that answers the chords
  pressed so far together with its own chord, with the arguments of that rule: the rule is one that
  was not removed, its chords are the pressed ones and its condition holds. A key pressed while the
  input method composes executes nothing.\<close>

theorem KeybindingService_dispatch_executes_answer:
  assumes "KeybindingResolver_new h o1 dflts overrides = Inr R"
    and "executed (snd (dispatch h R now c composing kb s)) \<noteq> executed s"
  shows "\<exists>chord k. dispatchChord kb = Some chord \<and> \<not> composing \<and>
     answer h o1 (keybindings R) c (map fst (currentChords s) @ [chord]) = Some k \<and>
     k \<in> set (keybindings R) \<and> chords k = map fst (currentChords s) @ [chord] \<and>
     contextMatchesRules h c (kbWhen k) \<and>
     executed (snd (dispatch h R now c composing kb s)) = executed s @ [(the (kbCommand k), commandArgs k)]"
  by (rule dispatch_executed [OF assms])

lemma demo_dispatch:
  "executed (snd (dispatch plain_host demo_resolver 4 plain_context False (demo_key ''s'')
     (service_new\<lparr>currentChords := [(''k'', None)]\<rparr>))) = [(''save'', None)]"
  by (simp add: dispatch_def doDispatch_def demo_key_def service_new_def demo_resolver_def KeybindingResolver_resolve_def
      resolveCandidates_def KeybindingResolver_findCommand_def contextMatchesRules_def service_defs Let_def)

theorem KeybindingService_dispatch_executes_answer_witness:
  "\<exists>chord k. dispatchChord (demo_key ''s'') = Some chord \<and> \<not> False \<and>
     answer plain_host (ck_ops plain_host 4) (keybindings demo_resolver) plain_context
       (map fst (currentChords (service_new\<lparr>currentChords := [(''k'', None)]\<rparr>)) @ [chord]) = Some k \<and>
     k \<in> set (keybindings demo_resolver) \<and>
     chords k = map fst (currentChords (service_new\<lparr>currentChords := [(''k'', None)]\<rparr>)) @ [chord] \<and>
     contextMatchesRules plain_host plain_context (kbWhen k) \<and>
     executed (snd (dispatch plain_host demo_resolver 4 plain_context False (demo_key ''s'')
       (service_new\<lparr>currentChords := [(''k'', None)]\<rparr>))) =
     executed (service_new\<lparr>currentChords := [(''k'', None)]\<rparr>) @ [(the (kbCommand k), commandArgs k)]"
  by (rule KeybindingService_dispatch_executes_answer [OF demo_resolver]) (simp add: demo_dispatch, simp add: service_new_def)

text \<open>C7. Liveness of chords: outside chord mode, pressing the chords of an enabled rule one after the
  other, in a context where its condition holds and no later rule answers its first chord,
  executes its command exactly once, with its arguments, and ends outside chord mode.\<close>

theorem KeybindingService_chords_execute:
  assumes "KeybindingResolver_new h o1 dflts overrides = Inr R" and "keybindings R = as @ k # bs"
    and "active h o1 k" and "contextMatchesRules h c (kbWhen k)" and "kbCommand k = Some cmd" and "cmd \<noteq> []"
    and "\<forall>j \<in> set bs. \<not> answers h o1 c (take 1 (chords k)) j"
    and "reachable h R s" and "\<not> inChordMode s" and "presses evs (chords k)"
  shows "executed (pressAll h R c evs s) = executed s @ [(cmd, commandArgs k)] \<and>
    \<not> inChordMode (pressAll h R c evs s) \<and> service_inv (pressAll h R c evs s)"
proof (rule pressAll_executes [OF assms(1,5,6)])
  fix n assume n: "1 \<le> n" "n \<le> length (chords k)"
  show "answer h o1 (keybindings R) c (take n (chords k)) = Some k"
  proof (rule answer_last [OF assms(2)])
    show "answers h o1 c (take n (chords k)) k" using assms(3,4) by (simp add: answers_def take_is_prefix)
    have "prefix (take 1 (chords k)) (take n (chords k))" using n(1) by (simp add: prefix_def) (metis append_take_drop_id min.absorb1 take_take)
    then show "\<forall>j \<in> set bs. \<not> answers h o1 c (take n (chords k)) j" using assms(7) answers_prefix by blast
  qed
qed (use assms(3,9,10) reachable_inv [OF assms(8)] in \<open>simp_all add: inChordMode_def active_def\<close>)

theorem KeybindingService_chords_execute_witness:
  "executed (pressAll plain_host demo_resolver plain_context [(1, demo_key ''k''), (2, demo_key ''s'')] service_new) =
     executed service_new @ [(''save'', commandArgs (demo_rule 0 [''k'', ''s''] ''save''))] \<and>
   \<not> inChordMode (pressAll plain_host demo_resolver plain_context [(1, demo_key ''k''), (2, demo_key ''s'')] service_new) \<and>
   service_inv (pressAll plain_host demo_resolver plain_context [(1, demo_key ''k''), (2, demo_key ''s'')] service_new)"
  by (rule KeybindingService_chords_execute [OF demo_resolver, where as = "[]" and bs = "[]"])
     (simp_all add: contextMatchesRules_def presses_def demo_key_def service_new_def inChordMode_def
        reachable_new [unfolded service_new_def])

end
