(* ===== verification/When_Scanner.thy ===== *)
theory When_Scanner
  imports Js_Values
begin

text \<open>
  The scanner of \<open>when\<close> clauses: \<open>src/vs/platform/contextkey/common/scanner.ts\<close>. The class is a record,
  its methods return the changed record. Inputs are strings of code units up to 255 (see
  \<open>Js_Values\<close>), so \<open>\p{L}\<close> of the regular expression for strings stands for the letters of that range.
  The hints of the errors are kept as their message texts.
\<close>

section \<open>Tokens\<close>

text \<open>\<open>TokenType\<close> with the fields of the union \<open>Token\<close> that belong to each type; the offset is in \<open>Token\<close>.\<close>

datatype TokenType =
    LParenTok
  | RParenTok
  | NegTok
  | EqTok bool
  | NotEqTok bool
  | LtTok
  | LtEqTok
  | GtTok
  | GtEqTok
  | RegexOpTok
  | RegexStrTok string
  | TrueTok
  | FalseTok
  | InTok
  | NotTok
  | AndTok
  | OrTok
  | StrTok string
  | QuotedStrTok string
  | ErrorTok string
  | EOFTok

record Token =
  tokenType :: TokenType
  tokenOffset :: nat

fun getLexeme :: "TokenType \<Rightarrow> string" where
  "getLexeme LParenTok = ''(''"
| "getLexeme RParenTok = '')''"
| "getLexeme NegTok = ''!''"
| "getLexeme (EqTok isTripleEq) = (if isTripleEq then ''==='' else ''=='')"
| "getLexeme (NotEqTok isTripleEq) = (if isTripleEq then ''!=='' else ''!='')"
| "getLexeme LtTok = ''<''"
| "getLexeme LtEqTok = ''<=''"
| "getLexeme GtTok = ''>''"
| "getLexeme GtEqTok = ''>=''"
| "getLexeme RegexOpTok = ''=~''"
| "getLexeme (RegexStrTok lexeme) = lexeme"
| "getLexeme TrueTok = ''true''"
| "getLexeme FalseTok = ''false''"
| "getLexeme InTok = ''in''"
| "getLexeme NotTok = ''not''"
| "getLexeme AndTok = ''&&''"
| "getLexeme OrTok = ''||''"
| "getLexeme (StrTok lexeme) = lexeme"
| "getLexeme (QuotedStrTok lexeme) = lexeme"
| "getLexeme (ErrorTok lexeme) = lexeme"
| "getLexeme EOFTok = ''EOF''"

record LexingError =
  errOffset :: nat
  errLexeme :: string
  additionalInfo :: "string option"

definition hintDidYouMean :: "string list \<Rightarrow> string option" where
  "hintDidYouMean meant =
     (case meant of
        [a] \<Rightarrow> Some (''Did you mean '' @ a @ ''?'')
      | [a, b] \<Rightarrow> Some (''Did you mean '' @ a @ '' or '' @ b @ ''?'')
      | [a, b, c] \<Rightarrow> Some (''Did you mean '' @ a @ '', '' @ b @ '' or '' @ c @ ''?'')
      | _ \<Rightarrow> None)"

definition hintDidYouForgetToOpenOrCloseQuote :: string where
  "hintDidYouForgetToOpenOrCloseQuote = ''Did you forget to open or close the quote?''"

definition hintDidYouForgetToEscapeSlash :: string where
  "hintDidYouForgetToEscapeSlash = ''Did you forget to escape the '' @ [CHR 39] @ ''/'' @ [CHR 39] @
     '' (slash) character? Put two backslashes before it to escape, e.g., '' @ [CHR 39, CHR 92, CHR 92] @ ''/'' @ [CHR 39] @ ''.''"

section \<open>State\<close>

record Scanner =
  sc_input :: string
  sc_start :: nat
  sc_current :: nat
  sc_tokens :: "Token list"
  sc_errors :: "LexingError list"

definition regexFlags :: "char set" where
  "regexFlags = set ''igsmyu''"

definition Scanner_keywords :: "string \<Rightarrow> TokenType option" where
  "Scanner_keywords = [''not'' \<mapsto> NotTok, ''in'' \<mapsto> InTok, ''false'' \<mapsto> FalseTok, ''true'' \<mapsto> TrueTok]"

definition Scanner_reset :: "string \<Rightarrow> Scanner" where
  "Scanner_reset v = \<lparr> sc_input = v, sc_start = 0, sc_current = 0, sc_tokens = [], sc_errors = [] \<rparr>"

definition Scanner_isAtEnd :: "Scanner \<Rightarrow> bool" where
  "Scanner_isAtEnd s \<longleftrightarrow> sc_current s \<ge> length (sc_input s)"

definition Scanner_match :: "char \<Rightarrow> Scanner \<Rightarrow> bool \<times> Scanner" where
  "Scanner_match expected s =
     (if Scanner_isAtEnd s then (False, s)
      else if sc_input s ! sc_current s \<noteq> expected then (False, s)
      else (True, s\<lparr>sc_current := sc_current s + 1\<rparr>))"

text \<open>\<open>_advance\<close> is called only before the end of the input.\<close>

definition Scanner_advance :: "Scanner \<Rightarrow> char \<times> Scanner" where
  "Scanner_advance s = (sc_input s ! sc_current s, s\<lparr>sc_current := sc_current s + 1\<rparr>)"

definition Scanner_peek :: "Scanner \<Rightarrow> char" where
  "Scanner_peek s = (if Scanner_isAtEnd s then CHR 0x00 else sc_input s ! sc_current s)"

definition Scanner_addToken :: "TokenType \<Rightarrow> Scanner \<Rightarrow> Scanner" where
  "Scanner_addToken ty s = s\<lparr>sc_tokens := sc_tokens s @ [\<lparr>tokenType = ty, tokenOffset = sc_start s\<rparr>]\<rparr>"

definition substring_nat :: "string \<Rightarrow> nat \<Rightarrow> nat \<Rightarrow> string" where
  "substring_nat v i j = take (j - i) (drop i v)"

definition Scanner_error :: "string option \<Rightarrow> Scanner \<Rightarrow> Scanner" where
  "Scanner_error additional s =
     (let lexeme = substring_nat (sc_input s) (sc_start s) (sc_current s)
      in s\<lparr>sc_errors := sc_errors s @ [\<lparr>errOffset = sc_start s, errLexeme = lexeme, additionalInfo = additional\<rparr>],
           sc_tokens := sc_tokens s @ [\<lparr>tokenType = ErrorTok lexeme, tokenOffset = sc_start s\<rparr>]\<rparr>)"

section \<open>Strings, quoted strings and regular expressions\<close>

text \<open>The characters of \<open>stringRe\<close>.\<close>

definition is_letter :: "char \<Rightarrow> bool" where
  "is_letter c \<longleftrightarrow> (let n = of_char c :: nat in
     65 \<le> n \<and> n \<le> 90 \<or> 97 \<le> n \<and> n \<le> 122 \<or> n = 170 \<or> n = 181 \<or> n = 186 \<or>
     192 \<le> n \<and> n \<le> 214 \<or> 216 \<le> n \<and> n \<le> 246 \<or> 248 \<le> n)"

definition stringRe :: "char \<Rightarrow> bool" where
  "stringRe c \<longleftrightarrow> is_letter c \<or> is_digit c \<or> c \<in> set ''_<>-./:*?+[]^,#@;%$'' \<or> c = CHR 92 \<or> c = CHR 34"

definition Scanner_string :: "Scanner \<Rightarrow> Scanner" where
  "Scanner_string s =
     (let match = takeWhile stringRe (drop (sc_start s) (sc_input s))
      in if match \<noteq> []
         then let s1 = s\<lparr>sc_current := sc_start s + length match\<rparr>;
                  lexeme = substring_nat (sc_input s1) (sc_start s1) (sc_current s1)
              in (case Scanner_keywords lexeme of
                    Some keyword \<Rightarrow> Scanner_addToken keyword s1
                  | None \<Rightarrow> s1\<lparr>sc_tokens := sc_tokens s1 @ [\<lparr>tokenType = StrTok lexeme, tokenOffset = sc_start s1\<rparr>]\<rparr>)
         else s)"

function quotedString_loop :: "Scanner \<Rightarrow> Scanner" where
  "quotedString_loop s =
     (if Scanner_peek s \<noteq> CHR 39 \<and> \<not> Scanner_isAtEnd s then quotedString_loop (snd (Scanner_advance s)) else s)"
  by pat_completeness auto
termination
  by (relation "measure (\<lambda>s. length (sc_input s) - sc_current s)") (auto simp: Scanner_advance_def Scanner_isAtEnd_def)

declare quotedString_loop.simps [simp del]

definition Scanner_quotedString :: "Scanner \<Rightarrow> Scanner" where
  "Scanner_quotedString s =
     (let s1 = quotedString_loop s
      in if Scanner_isAtEnd s1 then Scanner_error (Some hintDidYouForgetToOpenOrCloseQuote) s1
         else let s2 = snd (Scanner_advance s1)
              in s2\<lparr>sc_tokens := sc_tokens s2 @
                   [\<lparr>tokenType = QuotedStrTok (substring_nat (sc_input s2) (sc_start s2 + 1) (sc_current s2 - 1)),
                     tokenOffset = sc_start s2 + 1\<rparr>]\<rparr>)"

text \<open>The first loop of \<open>_regex\<close>: the position after the closing slash, or \<open>None\<close> when the input ends.\<close>

function regex_loop :: "string \<Rightarrow> nat \<Rightarrow> bool \<Rightarrow> bool \<Rightarrow> nat option" where
  "regex_loop v p inEscape inCharacterClass =
     (if p \<ge> length v then None
      else let ch = v ! p in
        if inEscape then regex_loop v (p + 1) False inCharacterClass
        else if ch = CHR ''/'' \<and> \<not> inCharacterClass then Some (p + 1)
        else if ch = CHR ''['' then regex_loop v (p + 1) inEscape True
        else if ch = CHR 92 then regex_loop v (p + 1) True inCharacterClass
        else if ch = CHR '']'' then regex_loop v (p + 1) inEscape False
        else regex_loop v (p + 1) inEscape inCharacterClass)"
  by pat_completeness auto
termination by (relation "measure (\<lambda>(v, p, e, c). length v - p)") auto

declare regex_loop.simps [simp del]

function flags_loop :: "string \<Rightarrow> nat \<Rightarrow> nat" where
  "flags_loop v p = (if p < length v \<and> v ! p \<in> regexFlags then flags_loop v (p + 1) else p)"
  by pat_completeness auto
termination by (relation "measure (\<lambda>(v, p). length v - p)") auto

declare flags_loop.simps [simp del]

definition Scanner_regex :: "Scanner \<Rightarrow> Scanner" where
  "Scanner_regex s =
     (case regex_loop (sc_input s) (sc_current s) False False of
        None \<Rightarrow> Scanner_error (Some hintDidYouForgetToEscapeSlash) (s\<lparr>sc_current := max (sc_current s) (length (sc_input s))\<rparr>)
      | Some p \<Rightarrow>
          let s1 = s\<lparr>sc_current := flags_loop (sc_input s) p\<rparr>;
              lexeme = substring_nat (sc_input s1) (sc_start s1) (sc_current s1)
          in s1\<lparr>sc_tokens := sc_tokens s1 @ [\<lparr>tokenType = RegexStrTok lexeme, tokenOffset = sc_start s1\<rparr>]\<rparr>)"

section \<open>The main loop\<close>

definition blank :: "char \<Rightarrow> bool" where
  "blank c \<longleftrightarrow> c = CHR 32 \<or> c = CHR 13 \<or> c = CHR 9 \<or> c = CHR 10 \<or> c = CHR 160"

text \<open>The body of the loop of \<open>scan\<close>.\<close>

definition scan_step :: "Scanner \<Rightarrow> Scanner" where
  "scan_step s0 =
     (let (ch, s) = Scanner_advance (s0\<lparr>sc_start := sc_current s0\<rparr>) in
      if ch = CHR ''('' then Scanner_addToken LParenTok s
      else if ch = CHR '')'' then Scanner_addToken RParenTok s
      else if ch = CHR ''!'' then
        (let (eq, s1) = Scanner_match (CHR ''='') s in
         if eq then (let (isTripleEq, s2) = Scanner_match (CHR ''='') s1 in Scanner_addToken (NotEqTok isTripleEq) s2)
         else Scanner_addToken NegTok s1)
      else if ch = CHR 39 then Scanner_quotedString s
      else if ch = CHR ''/'' then Scanner_regex s
      else if ch = CHR ''='' then
        (let (eq, s1) = Scanner_match (CHR ''='') s in
         if eq then (let (isTripleEq, s2) = Scanner_match (CHR ''='') s1 in Scanner_addToken (EqTok isTripleEq) s2)
         else (let (tilde, s2) = Scanner_match (CHR ''~'') s1 in
               if tilde then Scanner_addToken RegexOpTok s2
               else Scanner_error (hintDidYouMean [''=='', ''=~'']) s2))
      else if ch = CHR ''<'' then
        (let (eq, s1) = Scanner_match (CHR ''='') s in Scanner_addToken (if eq then LtEqTok else LtTok) s1)
      else if ch = CHR ''>'' then
        (let (eq, s1) = Scanner_match (CHR ''='') s in Scanner_addToken (if eq then GtEqTok else GtTok) s1)
      else if ch = CHR ''&'' then
        (let (amp, s1) = Scanner_match (CHR ''&'') s in
         if amp then Scanner_addToken AndTok s1 else Scanner_error (hintDidYouMean [''&&'']) s1)
      else if ch = CHR ''|'' then
        (let (pipe, s1) = Scanner_match (CHR ''|'') s in
         if pipe then Scanner_addToken OrTok s1 else Scanner_error (hintDidYouMean [''||'']) s1)
      else if blank ch then s
      else Scanner_string s)"

subsection \<open>Every step consumes input\<close>

text \<open>A scanner on the same input that is at least as far.\<close>

definition moves :: "Scanner \<Rightarrow> Scanner \<Rightarrow> bool" where
  "moves s t \<longleftrightarrow> sc_input t = sc_input s \<and> sc_current s \<le> sc_current t"

lemma moves_refl [simp]: "moves s s"
  by (simp add: moves_def)

lemma moves_trans: "moves s t \<Longrightarrow> moves t u \<Longrightarrow> moves s u"
  by (simp add: moves_def)

lemma moves_add:
  "moves s t \<Longrightarrow> moves s (Scanner_addToken ty t)"
  "moves s t \<Longrightarrow> moves s (Scanner_error a t)"
  by (simp_all add: moves_def Scanner_addToken_def Scanner_error_def Let_def)

lemma moves_if: "moves s t \<Longrightarrow> moves s u \<Longrightarrow> moves s (if b then t else u)"
  by simp

lemma moves_match:
  "moves s t \<Longrightarrow> (\<And>b u. moves s u \<Longrightarrow> moves s (f b u)) \<Longrightarrow> moves s (case Scanner_match c t of (b, u) \<Rightarrow> f b u)"
  by (simp add: Scanner_match_def moves_def)

lemma quotedString_loop_moves: "moves s (quotedString_loop s)"
proof (induction s rule: quotedString_loop.induct)
  case (1 s)
  have "moves s (snd (Scanner_advance s))" by (simp add: moves_def Scanner_advance_def)
  with 1 show ?case by (subst quotedString_loop.simps) (auto intro: moves_trans)
qed

lemma flags_loop_moves: "p \<le> flags_loop v p"
proof (induction v p rule: flags_loop.induct)
  case (1 v p)
  then show ?case by (subst flags_loop.simps) auto
qed

text \<open>The length of a regular expression without its flags, read off the text after its opening slash.\<close>

fun regexEnd :: "string \<Rightarrow> bool \<Rightarrow> bool \<Rightarrow> nat option" where
  "regexEnd [] e k = None"
| "regexEnd (c # cs) e k =
     (if e then map_option Suc (regexEnd cs False k)
      else if c = CHR ''/'' \<and> \<not> k then Some 1
      else map_option Suc (regexEnd cs (c = CHR 92) (if c = CHR ''['' then True else if c = CHR '']'' then False else k)))"

lemma regex_loop_eq: "regex_loop v p e k = map_option ((+) p) (regexEnd (drop p v) e k)"
proof (induction "drop p v" arbitrary: p e k)
  case Nil
  then show ?case by (subst regex_loop.simps) simp
next
  case (Cons c cs)
  then have p: "p < length v" by (metis drop_all list.distinct(1) not_le)
  then have d: "drop p v = c # cs" "v ! p = c" "drop (Suc p) v = cs"
    using Cons.hyps(2) by (auto simp: Cons_nth_drop_Suc [symmetric])
  have IH: "regex_loop v (Suc p) e k = map_option ((+) (Suc p)) (regexEnd cs e k)" for e k
    using Cons.hyps(1) [of "Suc p"] d(3) by simp
  have Suc: "(+) (Suc p) = (\<lambda>x. Suc (p + x))" by auto
  show ?case
    by (subst regex_loop.simps) (use p in \<open>simp add: d Let_def IH option.map_comp comp_def Suc\<close>)
qed

lemma regex_loop_moves: "regex_loop v p e k = Some q \<Longrightarrow> p \<le> q"
  by (auto simp: regex_loop_eq)

lemma Scanner_quotedString_moves: "moves s (Scanner_quotedString s)"
  using quotedString_loop_moves [of s]
  by (auto simp: Scanner_quotedString_def Scanner_advance_def Let_def moves_def Scanner_error_def)

lemma Scanner_regex_moves: "moves s (Scanner_regex s)"
proof (cases "regex_loop (sc_input s) (sc_current s) False False")
  case (Some p)
  then have "sc_current s \<le> flags_loop (sc_input s) p"
    using regex_loop_moves flags_loop_moves [of p "sc_input s"] by fastforce
  then show ?thesis by (simp add: Scanner_regex_def Some Let_def moves_def)
qed (simp add: Scanner_regex_def moves_add moves_def Scanner_error_def Let_def)

lemma Scanner_string_moves:
  assumes "sc_current s \<le> sc_start s + 1"
  shows "moves s (Scanner_string s)"
proof (cases "takeWhile stringRe (drop (sc_start s) (sc_input s))")
  case (Cons c cs)
  show ?thesis unfolding Scanner_string_def Cons Let_def
    using assms by (auto simp: moves_def Scanner_addToken_def split: option.split)
qed (simp add: Scanner_string_def)

lemma scan_step_moves:
  assumes "\<not> Scanner_isAtEnd s"
  shows "sc_input (scan_step s) = sc_input s \<and> sc_current s < sc_current (scan_step s)"
proof -
  let ?s = "s\<lparr>sc_start := sc_current s, sc_current := sc_current s + 1\<rparr>"
  have a: "Scanner_advance (s\<lparr>sc_start := sc_current s\<rparr>) = (sc_input s ! sc_current s, ?s)"
    by (simp add: Scanner_advance_def)
  have "moves ?s (scan_step s)" unfolding scan_step_def a Let_def prod.case
    by (intro moves_if moves_add moves_match Scanner_quotedString_moves Scanner_regex_moves Scanner_string_moves)
       simp_all
  then show ?thesis by (simp add: moves_def)
qed

function scan_loop :: "Scanner \<Rightarrow> Scanner" where
  "scan_loop s = (if \<not> Scanner_isAtEnd s then scan_loop (scan_step s) else s)"
  by pat_completeness auto
termination
proof (relation "measure (\<lambda>s. length (sc_input s) - sc_current s)")
  fix s assume a: "\<not> Scanner_isAtEnd s"
  show "(scan_step s, s) \<in> measure (\<lambda>s. length (sc_input s) - sc_current s)"
    using scan_step_moves [OF a] a by (auto simp: Scanner_isAtEnd_def intro: diff_less_mono2)
qed simp

declare scan_loop.simps [simp del]

definition Scanner_scan :: "Scanner \<Rightarrow> Token list \<times> Scanner" where
  "Scanner_scan s0 =
     (let s1 = scan_loop s0;
          s2 = Scanner_addToken EOFTok (s1\<lparr>sc_start := sc_current s1\<rparr>)
      in (sc_tokens s2, s2))"

end
