(* ===== verification/When_Parser.thy ===== *)
theory When_Parser
  imports When_Scanner Context_Key_Normal
begin

text \<open>
  The parser of \<open>when\<close> clauses: the class \<open>Parser\<close> of
  \<open>src/vs/platform/contextkey/common/contextkey.ts\<close>. A method is a function from the state to a result
  and the next state; \<open>ParseError\<close> is the error \<open>Parser._parseError\<close>, which \<open>parse\<close> catches. The
  recursion of \<open>_expr\<close> through parentheses and the two loops take fuel, one unit per nested call or
  round; \<open>parse\<close> gives them the number of tokens, which is always enough (\<open>When_Parsing\<close>). The
  constructor of regular expressions is a parameter.
\<close>

section \<open>State and results\<close>

datatype pexn = ParseError | Thrown error

record ParsingError =
  peMessage :: string
  peOffset :: nat
  peLexeme :: string
  peInfo :: "string option"

record Parser =
  ps_scanner :: Scanner
  ps_tokens :: "Token list"
  ps_current :: nat
  ps_errors :: "ParsingError list"

text \<open>The environment: the platform, the normalizing constructors, \<open>new RegExp(source, flags)\<close> (\<open>None\<close> when
  it throws) and the configuration.\<close>

record parser_env =
  pe_host :: host
  pe_ops :: ops
  newRegExp :: "string \<Rightarrow> string option \<Rightarrow> regexp option"
  regexParsingWithErrorRecovery :: bool

type_synonym 'a parse = "Parser \<Rightarrow> (pexn + 'a) \<times> Parser"

definition returnp :: "'a \<Rightarrow> 'a parse" where
  "returnp x s = (Inr x, s)"

definition bindp :: "'a parse \<Rightarrow> ('a \<Rightarrow> 'b parse) \<Rightarrow> 'b parse" where
  "bindp m f s = (case m s of (Inl e, s1) \<Rightarrow> (Inl e, s1) | (Inr x, s1) \<Rightarrow> f x s1)"

lemma bindp_cong [fundef_cong]:
  "m s = m' s' \<Longrightarrow> (\<And>x s1. m' s' = (Inr x, s1) \<Longrightarrow> f x s1 = f' x s1) \<Longrightarrow> bindp m f s = bindp m' f' s'"
  by (auto simp: bindp_def split: prod.splits sum.splits)

text \<open>A call of the expression classes, whose errors the parser does not catch.\<close>

definition liftp :: "'a result \<Rightarrow> 'a parse" where
  "liftp r s = (case r of Inl e \<Rightarrow> (Inl (Thrown e), s) | Inr x \<Rightarrow> (Inr x, s))"

section \<open>Token stream\<close>

text \<open>The code keeps the index inside the array, whose last token is \<open>EOF\<close>; past the end the model reads
  \<open>EOF\<close>, which the parser of \<open>When_Parsing\<close> never does.\<close>

definition Parser_peek :: "Parser \<Rightarrow> Token" where
  "Parser_peek s = (if ps_current s < length (ps_tokens s) then ps_tokens s ! ps_current s
                    else \<lparr>tokenType = EOFTok, tokenOffset = 0\<rparr>)"

definition Parser_isAtEnd :: "Parser \<Rightarrow> bool" where
  "Parser_isAtEnd s \<longleftrightarrow> tokenType (Parser_peek s) = EOFTok"

definition Parser_previous :: "Parser \<Rightarrow> Token" where
  "Parser_previous s = ps_tokens s ! (ps_current s - 1)"

definition Parser_advance :: "Parser \<Rightarrow> Parser" where
  "Parser_advance s = (if \<not> Parser_isAtEnd s then s\<lparr>ps_current := ps_current s + 1\<rparr> else s)"

definition Parser_check :: "TokenType \<Rightarrow> Parser \<Rightarrow> bool" where
  "Parser_check ty s \<longleftrightarrow> tokenType (Parser_peek s) = ty"

definition Parser_matchOne :: "TokenType \<Rightarrow> Parser \<Rightarrow> bool \<times> Parser" where
  "Parser_matchOne ty s = (if Parser_check ty s then (True, Parser_advance s) else (False, s))"

definition Parser_errExpectedButGot :: "string \<Rightarrow> Token \<Rightarrow> 'a parse" where
  "Parser_errExpectedButGot expected got s =
     (let lexeme = getLexeme (tokenType got);
          message = ''Expected: '' @ expected @ ''.'' @ [CHR 10] @ ''Received: '' @ [CHR 39] @ lexeme @ [CHR 39] @ ''.''
      in (Inl ParseError,
          s\<lparr>ps_errors := ps_errors s @ [\<lparr>peMessage = message, peOffset = tokenOffset got, peLexeme = lexeme, peInfo = None\<rparr>]\<rparr>))"

definition Parser_consume :: "TokenType \<Rightarrow> string \<Rightarrow> unit parse" where
  "Parser_consume ty message s =
     (if Parser_check ty s then (Inr (), Parser_advance s) else Parser_errExpectedButGot message (Parser_peek s) s)"

definition Parser_value :: "Parser \<Rightarrow> string \<times> Parser" where
  "Parser_value s =
     (case tokenType (Parser_peek s) of
        StrTok lexeme \<Rightarrow> (lexeme, Parser_advance s)
      | QuotedStrTok lexeme \<Rightarrow> (lexeme, Parser_advance s)
      | TrueTok \<Rightarrow> (''true'', Parser_advance s)
      | FalseTok \<Rightarrow> (''false'', Parser_advance s)
      | InTok \<Rightarrow> (''in'', Parser_advance s)
      | _ \<Rightarrow> ([], s))"

definition Parser_removeFlagsGY :: "string \<Rightarrow> string" where
  "Parser_removeFlagsGY flgs = filter (\<lambda>c. c \<noteq> CHR ''g'' \<and> c \<noteq> CHR ''y'') flgs"

section \<open>Regular expressions\<close>

text \<open>\<open>indexOf\<close> and \<open>lastIndexOf\<close> of one character.\<close>

definition indexOf :: "char \<Rightarrow> string \<Rightarrow> int" where
  "indexOf c v = (let n = length (takeWhile (\<lambda>x. x \<noteq> c) v) in if n = length v then - 1 else int n)"

definition lastIndexOf :: "char \<Rightarrow> string \<Rightarrow> int" where
  "lastIndexOf c v = int (length v) - 1 - int (length (takeWhile (\<lambda>x. x \<noteq> c) (rev v)))"

definition isFalsyOrWhitespace :: "string \<Rightarrow> bool" where
  "isFalsyOrWhitespace v \<longleftrightarrow> list_all js_space v"

text \<open>The regular expression of a lexeme \<open>/source/flags\<close>, as both branches build it.\<close>

definition regexOfLexeme :: "parser_env \<Rightarrow> string \<Rightarrow> regexp option" where
  "regexOfLexeme E regexLexeme =
     (let closingSlashIndex = lastIndexOf (CHR ''/'') regexLexeme;
          flgs = (if closingSlashIndex = int (length regexLexeme) - 1 then None
                  else Some (Parser_removeFlagsGY (js_substring_from regexLexeme (closingSlashIndex + 1))))
      in newRegExp E (js_substring regexLexeme 1 closingSlashIndex) flgs)"

text \<open>The count of parentheses over the lexeme of the first token.\<close>

fun lexemeBalance :: "string \<Rightarrow> int \<Rightarrow> int" where
  "lexemeBalance [] bal = bal"
| "lexemeBalance (c # cs) bal =
     lexemeBalance cs (if c = CHR ''('' then bal + 1 else if c = CHR '')'' then bal - 1 else bal)"

text \<open>The count over a following lexeme: it reads the closing parentheses from the lexeme of the first
  token, \<open>expr.lexeme\<close>, at the same index.\<close>

fun followingBalance :: "string \<Rightarrow> string \<Rightarrow> int \<Rightarrow> int" where
  "followingBalance exprLexeme [] bal = bal"
| "followingBalance exprLexeme (c # cs) bal =
     followingBalance (drop 1 exprLexeme) cs
       (if c = CHR ''('' then bal + 1 else if take 1 exprLexeme = '')'' then bal - 1 else bal)"

function reconstruct_loop :: "string \<Rightarrow> int \<Rightarrow> string list \<Rightarrow> Parser \<Rightarrow> string list \<times> Parser" where
  "reconstruct_loop exprLexeme bal lexemes s =
     (let followingToken = tokenType (Parser_peek s) in
      if \<not> Parser_isAtEnd s \<and> followingToken \<noteq> AndTok \<and> followingToken \<noteq> OrTok
      then let bal' = (case followingToken of
                 LParenTok \<Rightarrow> bal + 1
               | RParenTok \<Rightarrow> bal - 1
               | RegexStrTok lexeme \<Rightarrow> followingBalance exprLexeme lexeme bal
               | QuotedStrTok lexeme \<Rightarrow> followingBalance exprLexeme lexeme bal
               | _ \<Rightarrow> bal)
           in if bal' < 0 then (lexemes, s)
              else reconstruct_loop exprLexeme bal' (lexemes @ [getLexeme followingToken]) (Parser_advance s)
      else (lexemes, s))"
  by pat_completeness auto
termination
  by (relation "measure (\<lambda>(l, b, ls, s). length (ps_tokens s) - ps_current s)")
     (auto simp: Parser_advance_def Parser_isAtEnd_def Parser_peek_def split: if_splits)

declare reconstruct_loop.simps [simp del]

text \<open>What follows \<open>KEY =~\<close>, with error recovery and without.\<close>

definition Parser_regexStrict :: "parser_env \<Rightarrow> string \<Rightarrow> expr option parse" where
  "Parser_regexStrict E key s0 =
     (let expr = Parser_peek s0; s = Parser_advance s0 in
      case tokenType expr of
        RegexStrTok lexeme \<Rightarrow>
          (case regexOfLexeme E lexeme of
             None \<Rightarrow> Parser_errExpectedButGot ''REGEX'' expr s
           | Some regexp \<Rightarrow> returnp (Some (KRegex key (Some regexp))) s)
      | _ \<Rightarrow> Parser_errExpectedButGot ''REGEX'' expr s)"

definition Parser_regexReconstruct :: "parser_env \<Rightarrow> string \<Rightarrow> Token \<Rightarrow> string \<Rightarrow> expr option parse" where
  "Parser_regexReconstruct E key expr lexeme s0 =
     (let (lexemeReconstruction, s) = reconstruct_loop lexeme (lexemeBalance lexeme 0) [lexeme] (Parser_advance s0)
      in case regexOfLexeme E (concat lexemeReconstruction) of
           None \<Rightarrow> Parser_errExpectedButGot ''REGEX'' expr s
         | Some regexp \<Rightarrow> returnp (Some (KRegex key (Some regexp))) s)"

definition Parser_regexQuoted :: "parser_env \<Rightarrow> string \<Rightarrow> Token \<Rightarrow> string \<Rightarrow> expr option parse" where
  "Parser_regexQuoted E key expr serializedValue s0 =
     (let s = Parser_advance s0;
          startIdx = indexOf (CHR ''/'') serializedValue;
          endIdx = lastIndexOf (CHR ''/'') serializedValue
      in if isFalsyOrWhitespace serializedValue then Parser_errExpectedButGot ''REGEX'' expr s
         else if startIdx \<noteq> endIdx \<and> startIdx \<ge> 0
         then let v = js_slice serializedValue (startIdx + 1) endIdx;
                  caseIgnoreFlag = (if take 1 (drop (nat (endIdx + 1)) serializedValue) = ''i'' then ''i'' else [])
              in (case newRegExp E v (Some caseIgnoreFlag) of
                    None \<Rightarrow> Parser_errExpectedButGot ''REGEX'' expr s
                  | Some regex \<Rightarrow> returnp (Some (KRegex key (Some regex))) s)
         else Parser_errExpectedButGot ''REGEX'' expr s)"

definition Parser_regex :: "parser_env \<Rightarrow> string \<Rightarrow> expr option parse" where
  "Parser_regex E key s =
     (if \<not> regexParsingWithErrorRecovery E then Parser_regexStrict E key s
      else let expr = Parser_peek s in
        (case tokenType expr of
           RegexStrTok lexeme \<Rightarrow> Parser_regexReconstruct E key expr lexeme s
         | ErrorTok lexeme \<Rightarrow> Parser_regexReconstruct E key expr lexeme s
         | QuotedStrTok serializedValue \<Rightarrow> Parser_regexQuoted E key expr serializedValue s
         | _ \<Rightarrow> Parser_errExpectedButGot ''REGEX'' expr s))"

section \<open>Keys and operators\<close>

fun is_QuotedStr :: "TokenType \<Rightarrow> bool" where
  "is_QuotedStr (QuotedStrTok q) = True" | "is_QuotedStr t = False"

text \<open>What follows a key.\<close>

definition Parser_key :: "parser_env \<Rightarrow> string \<Rightarrow> expr option parse" where
  "Parser_key E key s =
     (let h = pe_host E; (regexOp, s1) = Parser_matchOne RegexOpTok s in
      if regexOp then Parser_regex E key s1
      else
        (let (notOp, s2) = Parser_matchOne NotTok s1 in
         if notOp then
           bindp (Parser_consume InTok (CHR 39 # ''in'' @ CHR 39 # '' after '' @ CHR 39 # ''not'' @ CHR 39 # ''.'')) (\<lambda>_ s3.
             let (right, s4) = Parser_value s3 in returnp (Some (KNotIn key right)) s4) s2
         else
           (case tokenType (Parser_peek s2) of
              EqTok t \<Rightarrow>
                (let (right, s3) = Parser_value (Parser_advance s2) in
                 returnp (Some (if is_QuotedStr (tokenType (Parser_previous s3)) then ContextKeyEqualsExpr_create h key (Str right) None
                   else if right = ''true'' then ContextKeyDefinedExpr_create h key None
                   else if right = ''false'' then ContextKeyNotExpr_create h key None
                   else ContextKeyEqualsExpr_create h key (Str right) None)) s3)
            | NotEqTok t \<Rightarrow>
                (let (right, s3) = Parser_value (Parser_advance s2) in
                 returnp (Some (if is_QuotedStr (tokenType (Parser_previous s3)) then ContextKeyNotEqualsExpr_create h key (Str right) None
                   else if right = ''true'' then ContextKeyNotExpr_create h key None
                   else if right = ''false'' then ContextKeyDefinedExpr_create h key None
                   else ContextKeyNotEqualsExpr_create h key (Str right) None)) s3)
            | LtTok \<Rightarrow>
                (let (right, s3) = Parser_value (Parser_advance s2) in returnp (Some (ContextKeySmallerExpr_create key (Str right) None)) s3)
            | LtEqTok \<Rightarrow>
                (let (right, s3) = Parser_value (Parser_advance s2) in returnp (Some (ContextKeySmallerEqualsExpr_create key (Str right) None)) s3)
            | GtTok \<Rightarrow>
                (let (right, s3) = Parser_value (Parser_advance s2) in returnp (Some (ContextKeyGreaterExpr_create key (Str right) None)) s3)
            | GtEqTok \<Rightarrow>
                (let (right, s3) = Parser_value (Parser_advance s2) in returnp (Some (ContextKeyGreaterEqualsExpr_create key (Str right) None)) s3)
            | InTok \<Rightarrow>
                (let (right, s3) = Parser_value (Parser_advance s2) in returnp (Some (KIn key right)) s3)
            | _ \<Rightarrow> returnp (Some (ContextKeyDefinedExpr_create h key None)) s2)))"

section \<open>Expressions\<close>

definition closingParenthesis :: string where
  "closingParenthesis = ''closing parenthesis '' @ CHR 39 # '')'' @ [CHR 39]"

definition Parser_primary :: "parser_env \<Rightarrow> expr option parse \<Rightarrow> expr option parse" where
  "Parser_primary E pexpr s =
     (let peek = Parser_peek s in
      case tokenType peek of
        TrueTok \<Rightarrow> returnp (Some KTrue) (Parser_advance s)
      | FalseTok \<Rightarrow> returnp (Some KFalse) (Parser_advance s)
      | LParenTok \<Rightarrow>
          bindp pexpr (\<lambda>e. bindp (Parser_consume RParenTok closingParenthesis) (\<lambda>_. returnp e)) (Parser_advance s)
      | StrTok key \<Rightarrow> Parser_key E key (Parser_advance s)
      | EOFTok \<Rightarrow>
          (Inl ParseError,
           s\<lparr>ps_errors := ps_errors s @ [\<lparr>peMessage = ''Unexpected end of expression'', peOffset = tokenOffset peek, peLexeme = [],
               peInfo = Some ''Did you forget to put a context key?''\<rparr>]\<rparr>)
      | _ \<Rightarrow> Parser_errExpectedButGot
          (''true | false | KEY '' @ [CHR 10, CHR 9] @ ''| KEY '' @ CHR 39 # ''=~'' @ CHR 39 # '' REGEX '' @ [CHR 10, CHR 9] @
           ''| KEY ('' @ CHR 39 # ''=='' @ CHR 39 # '' | '' @ CHR 39 # ''!='' @ CHR 39 # '' | '' @ CHR 39 # ''<'' @ CHR 39 # '' | '' @
           CHR 39 # ''<='' @ CHR 39 # '' | '' @ CHR 39 # ''>'' @ CHR 39 # '' | '' @ CHR 39 # ''>='' @ CHR 39 # '' | '' @
           CHR 39 # ''in'' @ CHR 39 # '' | '' @ CHR 39 # ''not'' @ CHR 39 # '' '' @ CHR 39 # ''in'' @ CHR 39 # '') value'') peek s)"

definition Parser_term :: "parser_env \<Rightarrow> expr option parse \<Rightarrow> expr option parse" where
  "Parser_term E pexpr s0 =
     (let (neg, s) = Parser_matchOne NegTok s0 in
      if neg then
        (let peek = Parser_peek s in
         case tokenType peek of
           TrueTok \<Rightarrow> returnp (Some KFalse) (Parser_advance s)
         | FalseTok \<Rightarrow> returnp (Some KTrue) (Parser_advance s)
         | LParenTok \<Rightarrow>
             bindp pexpr (\<lambda>e. bindp (Parser_consume RParenTok closingParenthesis) (\<lambda>_.
               case e of None \<Rightarrow> returnp None | Some x \<Rightarrow> liftp (negate (pe_host E) (pe_ops E) x))) (Parser_advance s)
         | StrTok key \<Rightarrow> returnp (Some (ContextKeyNotExpr_create (pe_host E) key None)) (Parser_advance s)
         | _ \<Rightarrow> Parser_errExpectedButGot
             (''KEY | true | false | '' @ CHR 39 # ''('' @ CHR 39 # '' expression '' @ CHR 39 # '')'' @ [CHR 39]) peek s)
      else Parser_primary E pexpr s)"

text \<open>The loops \<open>while (this._matchOne(op)) expr.push(...)\<close>.\<close>

fun operand_loop :: "nat \<Rightarrow> TokenType \<Rightarrow> expr option parse \<Rightarrow> expr option list \<Rightarrow> expr option list parse" where
  "operand_loop 0 ty p es s = (Inl (Thrown OutOfFuel), s)"
| "operand_loop (Suc n) ty p es s =
     (let (more, s1) = Parser_matchOne ty s in
      if more then bindp p (\<lambda>right. operand_loop n ty p (es @ [right])) s1
      else (Inr es, s1))"

definition Parser_and :: "parser_env \<Rightarrow> nat \<Rightarrow> expr option parse \<Rightarrow> expr option parse" where
  "Parser_and E n pexpr =
     bindp (Parser_term E pexpr) (\<lambda>e.
     bindp (operand_loop n AndTok (Parser_term E pexpr) [e]) (\<lambda>es.
     if length es = 1 then returnp (es ! 0) else liftp (and_create (pe_ops E) es None True)))"

definition Parser_or :: "parser_env \<Rightarrow> nat \<Rightarrow> expr option parse \<Rightarrow> expr option parse" where
  "Parser_or E n pexpr =
     bindp (Parser_and E n pexpr) (\<lambda>e.
     bindp (operand_loop n OrTok (Parser_and E n pexpr) [e]) (\<lambda>es.
     if length es = 1 then returnp (es ! 0) else liftp (or_create (pe_ops E) es None True)))"

fun Parser_expr :: "parser_env \<Rightarrow> nat \<Rightarrow> expr option parse" where
  "Parser_expr E 0 s = (Inl (Thrown OutOfFuel), s)"
| "Parser_expr E (Suc n) s = Parser_or E (Suc n) (Parser_expr E n) s"

section \<open>Parsing\<close>

text \<open>\<open>parse\<close>: the result is \<open>Inl\<close> when an error other than a parsing error is thrown.\<close>

definition Parser_parse :: "parser_env \<Rightarrow> string \<Rightarrow> Parser \<Rightarrow> expr option result \<times> Parser" where
  "Parser_parse E input s0 =
     (if input = [] then
        (Inr None, s0\<lparr>ps_errors := ps_errors s0 @ [\<lparr>peMessage = ''Empty context key expression'', peOffset = 0, peLexeme = [],
            peInfo = Some (''Did you forget to write an expression? You can also put '' @ CHR 39 # ''false'' @ CHR 39 # '' or '' @
              CHR 39 # ''true'' @ CHR 39 # '' to always evaluate to false or true, respectively.'')\<rparr>]\<rparr>)
      else
        (let (tokens, scanner) = Scanner_scan (Scanner_reset input);
             s = s0\<lparr>ps_scanner := scanner, ps_tokens := tokens, ps_current := 0, ps_errors := []\<rparr>
         in case Parser_expr E (length tokens + 1) s of
              (Inl ParseError, s1) \<Rightarrow> (Inr None, s1)
            | (Inl (Thrown e), s1) \<Rightarrow> (Inl e, s1)
            | (Inr e, s1) \<Rightarrow>
                if \<not> Parser_isAtEnd s1 then
                  (let peek = Parser_peek s1;
                       info = (case tokenType peek of StrTok l \<Rightarrow> Some ''Did you forget to put && or || before the token?'' | _ \<Rightarrow> None)
                   in (Inr None, s1\<lparr>ps_errors := ps_errors s1 @ [\<lparr>peMessage = ''Unexpected token'', peOffset = tokenOffset peek,
                         peLexeme = getLexeme (tokenType peek), peInfo = info\<rparr>]\<rparr>))
                else (Inr e, s1)))"

definition Parser_new :: Parser where
  "Parser_new = \<lparr> ps_scanner = Scanner_reset [], ps_tokens = [], ps_current = 0, ps_errors = [] \<rparr>"

text \<open>\<open>ContextKeyExpr.deserialize\<close>, with the state of the shared parser.\<close>

definition ContextKeyExpr_deserialize ::
  "parser_env \<Rightarrow> string option \<Rightarrow> Parser \<Rightarrow> expr option result \<times> Parser" where
  "ContextKeyExpr_deserialize E serialized s =
     (case serialized of
        None \<Rightarrow> (Inr None, s)
      | Some v \<Rightarrow> Parser_parse (E\<lparr>regexParsingWithErrorRecovery := False\<rparr>) v s)"

section \<open>Validation\<close>

record WhenClauseError =
  weMessage :: string
  weOffset :: nat
  weLength :: nat

definition whenClauseErrors :: "Parser \<Rightarrow> WhenClauseError list" where
  "whenClauseErrors s =
     (if length (sc_errors (ps_scanner s)) > 0 then
        map (\<lambda>se. \<lparr>weMessage = (case additionalInfo se of
                Some hint \<Rightarrow> ''Unexpected token. Hint: '' @ hint | None \<Rightarrow> ''Unexpected token.''),
              weOffset = errOffset se, weLength = length (errLexeme se)\<rparr>) (sc_errors (ps_scanner s))
      else if length (ps_errors s) > 0 then
        map (\<lambda>pe. \<lparr>weMessage = (case peInfo pe of
                Some info \<Rightarrow> peMessage pe @ ''. '' @ info | None \<Rightarrow> peMessage pe),
              weOffset = peOffset pe, weLength = length (peLexeme pe)\<rparr>) (ps_errors s)
      else [])"

fun validateWhenClauses_loop :: "parser_env \<Rightarrow> Parser \<Rightarrow> string list \<Rightarrow> WhenClauseError list list result" where
  "validateWhenClauses_loop E s [] = Inr []"
| "validateWhenClauses_loop E s (whenClause # whenClauses) =
     (let (r, s1) = Parser_parse E whenClause s in
      bindr r (\<lambda>_. bindr (validateWhenClauses_loop E s1 whenClauses) (\<lambda>rest. Inr (whenClauseErrors s1 # rest))))"

definition validateWhenClauses :: "parser_env \<Rightarrow> string list \<Rightarrow> WhenClauseError list list result" where
  "validateWhenClauses E whenClauses =
     validateWhenClauses_loop (E\<lparr>regexParsingWithErrorRecovery := False\<rparr>) Parser_new whenClauses"

end
