(* ===== verification/When_Lexing.thy ===== *)
theory When_Lexing
  imports When_Scanner
begin

text \<open>
  Laws of the scanner of \<open>when\<close> clauses. A reference lexer reads the text as a list, one token at a
  time; the scanner agrees with it, its tokens tile the text, and it reads back the tokens of a
  printed clause.
\<close>

section \<open>The reference lexer\<close>

definition word_token :: "string \<Rightarrow> TokenType" where
  "word_token w = (case Scanner_keywords w of Some k \<Rightarrow> k | None \<Rightarrow> StrTok w)"

text \<open>The token that starts with a character, if any, and the number of characters it takes.\<close>

definition lex1 :: "char \<Rightarrow> string \<Rightarrow> TokenType option \<times> nat" where
  "lex1 c cs =
     (if c = CHR ''('' then (Some LParenTok, 1)
      else if c = CHR '')'' then (Some RParenTok, 1)
      else if c = CHR ''!'' then
        (if take 1 cs = ''='' then (if take 1 (drop 1 cs) = ''='' then (Some (NotEqTok True), 3) else (Some (NotEqTok False), 2))
         else (Some NegTok, 1))
      else if c = CHR 39 then
        (let q = takeWhile (\<lambda>x. x \<noteq> CHR 39) cs in
         if length q = length cs then (Some (ErrorTok (c # cs)), 1 + length cs) else (Some (QuotedStrTok q), length q + 2))
      else if c = CHR ''/'' then
        (case regexEnd cs False False of
           None \<Rightarrow> (Some (ErrorTok (c # cs)), 1 + length cs)
         | Some n \<Rightarrow> let m = 1 + n + length (takeWhile (\<lambda>x. x \<in> regexFlags) (drop n cs))
                      in (Some (RegexStrTok (take m (c # cs))), m))
      else if c = CHR ''='' then
        (if take 1 cs = ''='' then (if take 1 (drop 1 cs) = ''='' then (Some (EqTok True), 3) else (Some (EqTok False), 2))
         else if take 1 cs = ''~'' then (Some RegexOpTok, 2) else (Some (ErrorTok [c]), 1))
      else if c = CHR ''<'' then (if take 1 cs = ''='' then (Some LtEqTok, 2) else (Some LtTok, 1))
      else if c = CHR ''>'' then (if take 1 cs = ''='' then (Some GtEqTok, 2) else (Some GtTok, 1))
      else if c = CHR ''&'' then (if take 1 cs = ''&'' then (Some AndTok, 2) else (Some (ErrorTok [c]), 1))
      else if c = CHR ''|'' then (if take 1 cs = ''|'' then (Some OrTok, 2) else (Some (ErrorTok [c]), 1))
      else if blank c \<or> \<not> stringRe c then (None, 1)
      else let w = takeWhile stringRe (c # cs) in (Some (word_token w), length w))"

lemma takeWhile_all: "length (takeWhile P xs) = length xs \<longleftrightarrow> (\<forall>x \<in> set xs. P x)"
  by (induction xs) auto

lemma lex1_pos: "lex1 c cs = (t, n) \<Longrightarrow> 0 < n"
  by (auto simp: lex1_def Let_def split: if_splits option.splits)

fun quoteShift :: "TokenType \<Rightarrow> nat" where
  "quoteShift (QuotedStrTok q) = 1" | "quoteShift t = 0"

definition located :: "nat \<Rightarrow> TokenType option \<Rightarrow> Token list" where
  "located off t = (case t of None \<Rightarrow> [] | Some ty \<Rightarrow> [\<lparr>tokenType = ty, tokenOffset = off + quoteShift ty\<rparr>])"

function lex :: "nat \<Rightarrow> string \<Rightarrow> Token list" where
  "lex off [] = [\<lparr>tokenType = EOFTok, tokenOffset = off\<rparr>]"
| "lex off (c # cs) = (let (t, n) = lex1 c cs in located off t @ lex (off + n) (drop n (c # cs)))"
  by pat_completeness auto
termination
  by (relation "measure (\<lambda>(off, cs). length cs)") (auto dest!: lex1_pos [OF sym] simp: less_Suc_eq_le)

section \<open>The scanner agrees with it\<close>

definition is_error :: "TokenType \<Rightarrow> bool" where
  "is_error t \<longleftrightarrow> (\<exists>x. t = ErrorTok x)"

lemma is_error_simps [simp]:
  "is_error (ErrorTok x)" "\<not> is_error (QuotedStrTok x)" "\<not> is_error (RegexStrTok x)" "\<not> is_error (StrTok x)"
  "\<not> is_error LParenTok" "\<not> is_error RParenTok" "\<not> is_error NegTok" "\<not> is_error (EqTok b)" "\<not> is_error (NotEqTok b)"
  "\<not> is_error LtTok" "\<not> is_error LtEqTok" "\<not> is_error GtTok" "\<not> is_error GtEqTok" "\<not> is_error RegexOpTok"
  "\<not> is_error TrueTok" "\<not> is_error FalseTok" "\<not> is_error InTok" "\<not> is_error NotTok" "\<not> is_error AndTok"
  "\<not> is_error OrTok" "\<not> is_error EOFTok"
  by (simp_all add: is_error_def)

definition errors_of :: "Token list \<Rightarrow> (nat \<times> string) list" where
  "errors_of ts = map (\<lambda>t. (tokenOffset t, getLexeme (tokenType t))) (filter (\<lambda>t. is_error (tokenType t)) ts)"

lemma errors_of_simps [simp]:
  "errors_of [] = []" "errors_of (ts @ us) = errors_of ts @ errors_of us"
  by (simp_all add: errors_of_def)

definition reported :: "Scanner \<Rightarrow> (nat \<times> string) list" where
  "reported s = map (\<lambda>e. (errOffset e, errLexeme e)) (sc_errors s)"

text \<open>A scanner that went \<open>n\<close> characters further and pushed some tokens.\<close>

definition pushed :: "Scanner \<Rightarrow> nat \<Rightarrow> Token list \<Rightarrow> Scanner \<Rightarrow> bool" where
  "pushed s n ts t \<longleftrightarrow> sc_input t = sc_input s \<and> sc_current t = sc_current s + n \<and>
     sc_tokens t = sc_tokens s @ ts \<and> reported t = reported s @ errors_of ts"

lemma Scanner_match_take:
  "Scanner_match e s =
     (if take 1 (drop (sc_current s) (sc_input s)) = [e] then (True, s\<lparr>sc_current := sc_current s + 1\<rparr>) else (False, s))"
  by (cases "drop (sc_current s) (sc_input s)")
     (auto simp: Scanner_match_def Scanner_isAtEnd_def hd_drop_conv_nth [symmetric] dest: arg_cong [of _ _ hd])

lemma Scanner_isAtEnd_drop: "Scanner_isAtEnd s \<longleftrightarrow> drop (sc_current s) (sc_input s) = []"
  by (auto simp: Scanner_isAtEnd_def)

lemma quotedString_loop_eq:
  "quotedString_loop s =
     s\<lparr>sc_current := sc_current s + length (takeWhile (\<lambda>x. x \<noteq> CHR 39) (drop (sc_current s) (sc_input s)))\<rparr>"
proof (induction "drop (sc_current s) (sc_input s)" arbitrary: s)
  case Nil
  then show ?case by (subst quotedString_loop.simps) (simp add: Scanner_isAtEnd_drop)
next
  case (Cons c cs)
  then have at: "\<not> Scanner_isAtEnd s" using Cons.hyps(2) unfolding Scanner_isAtEnd_drop by (metis list.distinct(1))
  have c: "sc_input s ! sc_current s = c" and cs: "drop (Suc (sc_current s)) (sc_input s) = cs"
    using Cons.hyps(2) at by (auto simp: Scanner_isAtEnd_def Cons_nth_drop_Suc [symmetric])
  have p: "Scanner_peek s = c" using at c by (simp add: Scanner_peek_def)
  have d: "drop (sc_current s) (sc_input s) = c # cs" using Cons.hyps(2) by simp
  show ?case
  proof (cases "c = CHR 39")
    case True
    then show ?thesis by (subst quotedString_loop.simps) (simp add: p d)
  next
    case False
    have "quotedString_loop s = quotedString_loop (s\<lparr>sc_current := Suc (sc_current s)\<rparr>)"
      by (subst quotedString_loop.simps) (simp add: p at False Scanner_advance_def)
    then show ?thesis using Cons.hyps(1) [of "s\<lparr>sc_current := Suc (sc_current s)\<rparr>"] cs d False by simp
  qed
qed

lemma flags_loop_eq: "flags_loop v p = p + length (takeWhile (\<lambda>x. x \<in> regexFlags) (drop p v))"
proof (induction "drop p v" arbitrary: p)
  case Nil
  then show ?case by (subst flags_loop.simps) simp
next
  case (Cons c cs)
  then have p: "p < length v" by (metis drop_all list.distinct(1) not_le)
  then have d: "drop p v = c # cs" "v ! p = c" "drop (Suc p) v = cs"
    using Cons.hyps(2) by (auto simp: Cons_nth_drop_Suc [symmetric])
  show ?case by (subst flags_loop.simps) (use p d Cons.hyps(1) [of "Suc p"] in simp)
qed

lemma pushed_token:
  "sc_input t = sc_input s \<Longrightarrow> sc_current t = sc_current s + n \<Longrightarrow> sc_tokens t = sc_tokens s \<Longrightarrow> sc_errors t = sc_errors s \<Longrightarrow>
   sc_start t = sc_current s \<Longrightarrow> \<not> is_error ty \<Longrightarrow> quoteShift ty = 0 \<Longrightarrow>
   pushed s n (located (sc_current s) (Some ty)) (Scanner_addToken ty t)"
  by (simp add: pushed_def Scanner_addToken_def located_def reported_def errors_of_def)

lemma pushed_error:
  "sc_input t = sc_input s \<Longrightarrow> sc_current t = sc_current s + n \<Longrightarrow> sc_tokens t = sc_tokens s \<Longrightarrow> sc_errors t = sc_errors s \<Longrightarrow>
   sc_start t = sc_current s \<Longrightarrow> lexeme = take n (drop (sc_current s) (sc_input s)) \<Longrightarrow>
   pushed s n (located (sc_current s) (Some (ErrorTok lexeme))) (Scanner_error a t)"
  by (simp add: pushed_def Scanner_error_def located_def reported_def errors_of_def Let_def substring_nat_def)

lemma drop_step:
  assumes "drop i v = c # cs"
  shows "drop (Suc i) v = cs" and "i < length v" and "v ! i = c" and "length v = i + Suc (length cs)"
proof -
  show l: "i < length v" using assms by (metis drop_all list.distinct(1) not_le)
  show "drop (Suc i) v = cs" "v ! i = c" using assms l by (auto simp: Cons_nth_drop_Suc [symmetric])
  show "length v = i + Suc (length cs)" using assms l by (metis add.commute le_add_diff_inverse2 length_Cons length_drop less_imp_le)
qed

lemma quotedString_pushed:
  assumes d: "drop (sc_current s) (sc_input s) = CHR 39 # cs"
  shows "pushed s (snd (lex1 (CHR 39) cs)) (located (sc_current s) (fst (lex1 (CHR 39) cs)))
    (Scanner_quotedString (s\<lparr>sc_start := sc_current s, sc_current := Suc (sc_current s)\<rparr>))"
proof -
  let ?q = "takeWhile (\<lambda>x. x \<noteq> CHR 39) cs"
  let ?t = "s\<lparr>sc_start := sc_current s, sc_current := Suc (sc_current s) + length ?q\<rparr>"
  have loop: "quotedString_loop (s\<lparr>sc_start := sc_current s, sc_current := Suc (sc_current s)\<rparr>) = ?t"
    by (simp add: quotedString_loop_eq drop_step(1) [OF d])
  show ?thesis
  proof (cases "length ?q = length cs")
    case True
    then have "Scanner_isAtEnd ?t" by (simp add: Scanner_isAtEnd_def drop_step(4) [OF d])
    moreover have "pushed s (1 + length cs) (located (sc_current s) (Some (ErrorTok (CHR 39 # cs)))) (Scanner_error a ?t)" for a
      by (rule pushed_error) (simp_all add: True d)
    ultimately show ?thesis using True by (simp add: Scanner_quotedString_def loop lex1_def)
  next
    case False
    have "length ?q \<le> length cs" by (rule length_takeWhile_le)
    with False have l: "length ?q < length cs" by simp
    then have "\<not> Scanner_isAtEnd ?t" by (simp add: Scanner_isAtEnd_def drop_step(4) [OF d])
    moreover have "take (length ?q) (drop (Suc (sc_current s)) (sc_input s)) = ?q"
      unfolding drop_step(1) [OF d] by (rule takeWhile_eq_take [symmetric])
    ultimately show ?thesis using False
      by (simp add: Scanner_quotedString_def loop lex1_def Scanner_advance_def Let_def pushed_def located_def
          substring_nat_def reported_def errors_of_def)
  qed
qed

lemma regex_pushed:
  assumes d: "drop (sc_current s) (sc_input s) = CHR ''/'' # cs"
  shows "pushed s (snd (lex1 (CHR ''/'') cs)) (located (sc_current s) (fst (lex1 (CHR ''/'') cs)))
    (Scanner_regex (s\<lparr>sc_start := sc_current s, sc_current := Suc (sc_current s)\<rparr>))"
proof (cases "regexEnd cs False False")
  case None
  let ?t = "s\<lparr>sc_start := sc_current s, sc_current := max (Suc (sc_current s)) (length (sc_input s))\<rparr>"
  have "pushed s (1 + length cs) (located (sc_current s) (Some (ErrorTok (CHR ''/'' # cs)))) (Scanner_error a ?t)" for a
    by (rule pushed_error) (simp_all add: d drop_step(4) [OF d])
  then show ?thesis by (simp add: Scanner_regex_def regex_loop_eq drop_step(1) [OF d] None lex1_def)
next
  case (Some n)
  have "drop (Suc (sc_current s + n)) (sc_input s) = drop n cs"
    using drop_step(1) [OF d] by (metis add_Suc drop_drop add.commute)
  then show ?thesis
    by (simp add: Scanner_regex_def regex_loop_eq drop_step(1) [OF d] Some lex1_def Let_def flags_loop_eq pushed_def
        located_def substring_nat_def reported_def errors_of_def d)
qed

lemma word_token_plain [simp]: "\<not> is_error (word_token w)" "quoteShift (word_token w) = 0"
  by (auto simp: word_token_def Scanner_keywords_def split: option.splits if_splits)

lemma string_pushed:
  assumes d: "drop (sc_current s) (sc_input s) = c # cs"
    and w: "stringRe c"
  shows "pushed s (length (takeWhile stringRe (c # cs))) (located (sc_current s) (Some (word_token (takeWhile stringRe (c # cs)))))
    (Scanner_string (s\<lparr>sc_start := sc_current s, sc_current := Suc (sc_current s)\<rparr>))"
proof -
  let ?w = "takeWhile stringRe (c # cs)"
  have t: "take (Suc (length (takeWhile stringRe cs))) (c # cs) = ?w"
    using w by (simp add: takeWhile_eq_take [symmetric])
  have ne: "?w \<noteq> []" using w by simp
  show ?thesis
    using word_token_plain [of ?w] w t ne
    by (auto simp: Scanner_string_def d Let_def word_token_def substring_nat_def pushed_def located_def
        Scanner_addToken_def reported_def errors_of_def simp del: take_Suc_Cons word_token_plain split: option.splits)
qed

lemma stringRe_special: "\<not> stringRe (CHR ''('')" "\<not> stringRe (CHR '')'')" "\<not> stringRe (CHR 39)" "\<not> stringRe (CHR 32)"
  by (simp_all add: stringRe_def is_letter_def is_digit_def)

lemma scan_step_pushed:
  assumes d: "drop (sc_current s) (sc_input s) = c # cs"
  shows "pushed s (snd (lex1 c cs)) (located (sc_current s) (fst (lex1 c cs))) (scan_step s)"
proof -
  let ?s = "s\<lparr>sc_start := sc_current s, sc_current := Suc (sc_current s)\<rparr>"
  have a: "Scanner_advance (s\<lparr>sc_start := sc_current s\<rparr>) = (c, ?s)"
    by (simp add: Scanner_advance_def drop_step(3) [OF d])
  have m: "Scanner_match e ?s = (if take 1 cs = [e] then (True, ?s\<lparr>sc_current := Suc (Suc (sc_current s))\<rparr>) else (False, ?s))" for e
    by (simp add: Scanner_match_take drop_step(1) [OF d])
  have "drop (Suc (Suc (sc_current s))) (sc_input s) = drop 1 cs" using drop_step(1) [OF d] by (metis drop_drop plus_1_eq_Suc)
  then have m2: "Scanner_match e (?s\<lparr>sc_current := Suc (Suc (sc_current s))\<rparr>) =
      (if take 1 (drop 1 cs) = [e] then (True, ?s\<lparr>sc_current := Suc (Suc (Suc (sc_current s)))\<rparr>)
       else (False, ?s\<lparr>sc_current := Suc (Suc (sc_current s))\<rparr>))" for e
    by (simp add: Scanner_match_take)
  have p: "pushed s n (located (sc_current s) (Some ty)) (Scanner_addToken ty (?s\<lparr>sc_current := sc_current s + n\<rparr>))"
    if "\<not> is_error ty" "quoteShift ty = 0" for ty n
    by (rule pushed_token) (simp_all add: that)
  have e: "pushed s 1 (located (sc_current s) (Some (ErrorTok [c']))) (Scanner_error x ?s)" if "c = c'" for x c'
    by (rule pushed_error) (simp_all add: d that [symmetric])
  have none: "pushed s 1 (located (sc_current s) None) ?s" by (simp add: pushed_def located_def reported_def)
  have skip: "Scanner_string ?s = ?s" if "\<not> stringRe c" using that by (simp add: Scanner_string_def d)
  note ps = p [of _ 1, simplified] p [of _ 2, simplified] p [of _ 3, simplified]
  show ?thesis
  proof (cases "c = CHR 39 \<or> c = CHR ''/''")
    case True
    then show ?thesis using quotedString_pushed [of s cs] regex_pushed [of s cs] d
      by (auto simp: scan_step_def a)
  next
    case False
    then show ?thesis
      unfolding scan_step_def a prod.case Let_def m
      using ps e none skip string_pushed [OF d]
      by (simp add: lex1_def m [simplified] m2 [simplified] numeral_2_eq_2 numeral_3_eq_3 Let_def cong: if_cong)
  qed
qed

lemma take1_eq: "take (Suc 0) cs = [x] \<longleftrightarrow> (\<exists>ds. cs = x # ds)"
  by (cases cs) auto

lemma regexEnd_le: "regexEnd cs e k = Some n \<Longrightarrow> n \<le> length cs"
  by (induction cs e k arbitrary: n rule: regexEnd.induct) (auto split: if_splits)

lemma regexEnd_flags_le: "regexEnd cs e k = Some n \<Longrightarrow> n + length (takeWhile P (drop n cs)) \<le> length cs"
  using regexEnd_le [of cs e k n] length_takeWhile_le [of P "drop n cs"] by simp

text \<open>Case analysis along the tests of \<open>lex1\<close>.\<close>

lemma if_rule: "(b \<Longrightarrow> Q x) \<Longrightarrow> (\<not> b \<Longrightarrow> Q y) \<Longrightarrow> Q (if b then x else y)"
  by simp

lemma lex1_le: "snd (lex1 c cs) \<le> Suc (length cs)"
proof -
  define Q where "Q p \<longleftrightarrow> snd p \<le> Suc (length cs)" for p :: "TokenType option \<times> nat"
  have q: "length (takeWhile (\<lambda>x. x \<noteq> CHR 39) cs) \<noteq> length cs \<Longrightarrow> length (takeWhile (\<lambda>x. x \<noteq> CHR 39) cs) + 2 \<le> Suc (length cs)"
    using length_takeWhile_le [of "\<lambda>x. x \<noteq> CHR 39" cs] by linarith
  have w: "length (takeWhile stringRe (c # cs)) \<le> Suc (length cs)" using length_takeWhile_le [of stringRe "c # cs"] by simp
  have r: "Q (case regexEnd cs False False of None \<Rightarrow> (t, 1 + length cs)
      | Some n \<Rightarrow> (f n, 1 + n + length (takeWhile (\<lambda>x. x \<in> regexFlags) (drop n cs))))" for t f
    by (auto simp: Q_def regexEnd_flags_le split: option.split)
  have one: "Q (t, 1)" for t by (simp add: Q_def)
  have two: "take 1 cs = [x] \<Longrightarrow> Q (t, 2)" for t x by (auto simp: Q_def take1_eq)
  have three: "take 1 (drop 1 cs) = [x] \<Longrightarrow> Q (t, 3)" for t x by (cases cs) (auto simp: Q_def take1_eq)
  have "Q (lex1 c cs)" unfolding lex1_def Let_def
    by (intro if_rule [where Q = Q] one r; (erule two three)?) (use q w in \<open>simp_all add: Q_def\<close>)
  then show ?thesis by (simp add: Q_def)
qed

lemma scan_loop_lex:
  assumes "sc_current s \<le> length (sc_input s)"
  shows "sc_current (scan_loop s) = length (sc_input s) \<and>
    sc_tokens (scan_loop s) @ [\<lparr>tokenType = EOFTok, tokenOffset = length (sc_input s)\<rparr>] =
      sc_tokens s @ lex (sc_current s) (drop (sc_current s) (sc_input s)) \<and>
    reported (scan_loop s) = reported s @ errors_of (lex (sc_current s) (drop (sc_current s) (sc_input s)))"
  using assms
proof (induction s rule: scan_loop.induct)
  case (1 s)
  show ?case
  proof (cases "drop (sc_current s) (sc_input s)")
    case Nil
    moreover from this have "sc_current s = length (sc_input s)" using "1.prems" by simp
    ultimately show ?thesis by (subst (1 2 3) scan_loop.simps) (simp add: Scanner_isAtEnd_drop errors_of_def)
  next
    case (Cons c cs)
    obtain t n where tn: "lex1 c cs = (t, n)" by (cases "lex1 c cs")
    have p: "pushed s n (located (sc_current s) t) (scan_step s)" using scan_step_pushed [OF Cons] by (simp add: tn)
    have at: "\<not> Scanner_isAtEnd s" by (simp add: Scanner_isAtEnd_drop Cons)
    have le: "sc_current s + n \<le> length (sc_input s)" using lex1_le [of c cs] drop_step(4) [OF Cons] by (simp add: tn)
    have d: "drop (sc_current s + n) (sc_input s) = drop n (c # cs)" by (metis Cons add.commute drop_drop)
    have "scan_loop s = scan_loop (scan_step s)" by (subst scan_loop.simps) (simp add: at)
    then show ?thesis
      using "1.IH" [OF at] p le by (simp add: pushed_def Cons tn d del: drop_Suc_Cons drop_Cons')
  qed
qed

lemma Scanner_scan_lex:
  "fst (Scanner_scan (Scanner_reset v)) = lex 0 v \<and>
   reported (snd (Scanner_scan (Scanner_reset v))) = errors_of (lex 0 v)"
  using scan_loop_lex [of "Scanner_reset v"]
  by (simp add: Scanner_scan_def Let_def Scanner_addToken_def Scanner_reset_def reported_def)

section \<open>The tokens tile the text\<close>

definition operators :: string where
  "operators = ''()!/=<>&|''"

text \<open>The characters that need not be part of a token: blanks, the quotes around a string, and characters
  the scanner does not know.\<close>

definition skippable :: "char \<Rightarrow> bool" where
  "skippable x \<longleftrightarrow> blank x \<or> x = CHR 39 \<or> (\<not> stringRe x \<and> x \<notin> set operators)"

definition lexeme_at :: "string \<Rightarrow> Token \<Rightarrow> bool" where
  "lexeme_at v t \<longleftrightarrow> take (length (getLexeme (tokenType t))) (drop (tokenOffset t) v) = getLexeme (tokenType t)"

definition tokenEnd :: "Token \<Rightarrow> nat" where
  "tokenEnd t = tokenOffset t + length (getLexeme (tokenType t))"

definition token_covers :: "nat \<Rightarrow> Token \<Rightarrow> bool" where
  "token_covers i t \<longleftrightarrow> tokenOffset t \<le> i \<and> i < tokenEnd t"

text \<open>One token of the reference lexer.\<close>

definition lex1_ok :: "string \<Rightarrow> TokenType option \<Rightarrow> nat \<Rightarrow> bool" where
  "lex1_ok v t n \<longleftrightarrow> (case t of
     None \<Rightarrow> n = 1 \<and> skippable (v ! 0)
   | Some ty \<Rightarrow> ty \<noteq> EOFTok \<and> take (length (getLexeme ty)) (drop (quoteShift ty) v) = getLexeme ty \<and>
       quoteShift ty + length (getLexeme ty) \<le> n \<and>
       (\<forall>i < n. quoteShift ty \<le> i \<and> i < quoteShift ty + length (getLexeme ty) \<or> v ! i = CHR 39))"

lemma getLexeme_word_token: "getLexeme (word_token w) = w"
  by (auto simp: word_token_def Scanner_keywords_def split: option.splits if_splits)

lemma word_token_not_EOF: "word_token w \<noteq> EOFTok"
  by (auto simp: word_token_def Scanner_keywords_def split: option.splits if_splits)

lemma lex1_ok_token:
  "ty \<noteq> EOFTok \<Longrightarrow> quoteShift ty = 0 \<Longrightarrow> take (length (getLexeme ty)) v = getLexeme ty \<Longrightarrow> length (getLexeme ty) = n \<Longrightarrow>
   lex1_ok v (Some ty) n"
  by (simp add: lex1_ok_def)

lemma lex1_ok_lex1: "lex1_ok (c # cs) (fst (lex1 c cs)) (snd (lex1 c cs))"
proof -
  let ?q = "takeWhile (\<lambda>x. x \<noteq> CHR 39) cs"
  consider "c = CHR 39" "length ?q = length cs" | "c = CHR 39" "length ?q < length cs" | "c = CHR ''/''" | "c \<noteq> CHR 39" "c \<noteq> CHR ''/''"
    using length_takeWhile_le [of "\<lambda>x. x \<noteq> CHR 39" cs] le_neq_implies_less by blast
  then show ?thesis
  proof cases
    case 1
    then show ?thesis by (simp add: lex1_def lex1_ok_token)
  next
    case 2
    have "cs ! length ?q = CHR 39" using nth_length_takeWhile [OF 2(2)] by simp
    moreover have "take (length ?q) cs = ?q" by (rule takeWhile_eq_take [symmetric])
    moreover have "1 \<le> i \<and> i < 1 + length ?q \<or> (c # cs) ! i = CHR 39" if "i < length ?q + 2" for i
    proof -
      consider "i = 0" | "1 \<le> i \<and> i < 1 + length ?q" | "i = Suc (length ?q)" using \<open>i < length ?q + 2\<close> by linarith
      then show ?thesis by cases (simp_all add: 2(1) \<open>cs ! length ?q = CHR 39\<close>)
    qed
    moreover have "lex1 c cs = (Some (QuotedStrTok ?q), length ?q + 2)" using 2 by (simp add: lex1_def Let_def)
    ultimately show ?thesis by (simp add: lex1_ok_def)
  next
    case 3
    have "snd (lex1 c cs) \<le> length (c # cs)" using lex1_le [of c cs] by simp
    then show ?thesis using 3 by (auto simp: lex1_def Let_def intro!: lex1_ok_token split: option.splits)
  next
    case 4
    have w: "take (length (takeWhile stringRe (c # cs))) (c # cs) = takeWhile stringRe (c # cs)"
      by (rule takeWhile_eq_take [symmetric])
    have s: "lex1_ok (c # cs) None (Suc 0)" if "blank c \<or> \<not> stringRe c" "c \<notin> set operators"
      using that by (auto simp: lex1_ok_def skippable_def)
    have word: "lex1_ok (c # cs) (Some (word_token (takeWhile stringRe (c # cs)))) (length (takeWhile stringRe (c # cs)))"
      by (rule lex1_ok_token) (simp_all only: w getLexeme_word_token word_token_not_EOF word_token_plain not_False_eq_True)
    define Q where "Q p \<longleftrightarrow> lex1_ok (c # cs) (fst p) (snd p)" for p :: "TokenType option \<times> nat"
    have one: "c = x \<Longrightarrow> getLexeme ty = [x] \<Longrightarrow> quoteShift ty = 0 \<Longrightarrow> ty \<noteq> EOFTok \<Longrightarrow> Q (Some ty, 1)" for x ty
      by (simp add: Q_def lex1_ok_def)
    have two: "c = x \<Longrightarrow> take 1 cs = [y] \<Longrightarrow> getLexeme ty = [x, y] \<Longrightarrow> quoteShift ty = 0 \<Longrightarrow> ty \<noteq> EOFTok \<Longrightarrow> Q (Some ty, 2)" for x y ty
      by (auto simp: Q_def lex1_ok_def take1_eq)
    have three: "c = x \<Longrightarrow> take 1 cs = [y] \<Longrightarrow> take 1 (drop 1 cs) = [z] \<Longrightarrow> getLexeme ty = [x, y, z] \<Longrightarrow>
        quoteShift ty = 0 \<Longrightarrow> ty \<noteq> EOFTok \<Longrightarrow> Q (Some ty, 3)" for x y z ty
      by (auto simp: Q_def lex1_ok_def take1_eq)
    have word: "Q (Some (word_token (takeWhile stringRe (c # cs))), length (takeWhile stringRe (c # cs)))"
      using word by (simp add: Q_def)
    have s: "blank c \<or> \<not> stringRe c \<Longrightarrow> c \<notin> set operators \<Longrightarrow> Q (None, 1)"
      using s by (simp add: Q_def)
    have "Q (lex1 c cs)" unfolding lex1_def Let_def
      by (intro if_rule [where Q = Q];
          (use 4 in \<open>simp; fail\<close> | (rule one, assumption; simp; fail) | (rule two, assumption, assumption; simp; fail)
           | (rule three, assumption, assumption, assumption; simp; fail) | (rule s, assumption, simp add: operators_def; fail)
           | rule word))
    then show ?thesis by (simp add: Q_def)
  qed
qed

text \<open>The tokens of the text from an offset on.\<close>

definition tiled :: "string \<Rightarrow> nat \<Rightarrow> Token list \<Rightarrow> bool" where
  "tiled v off ts \<longleftrightarrow>
     (\<forall>t \<in> set ts. tokenType t \<noteq> EOFTok \<and> lexeme_at v t \<and> off \<le> tokenOffset t \<and> tokenEnd t \<le> length v) \<and>
     sorted_wrt (\<lambda>t u. tokenEnd t \<le> tokenOffset u) ts \<and>
     (\<forall>i. off \<le> i \<longrightarrow> i < length v \<longrightarrow> (\<exists>t \<in> set ts. token_covers i t) \<or> skippable (v ! i))"

lemma lex_tiled:
  "drop off v = cs \<Longrightarrow> off \<le> length v \<Longrightarrow>
   \<exists>ts. lex off cs = ts @ [\<lparr>tokenType = EOFTok, tokenOffset = length v\<rparr>] \<and> tiled v off ts"
proof (induction off cs rule: lex.induct)
  case (1 off)
  then show ?case by (intro exI [of _ "[]"]) (simp add: tiled_def)
next
  case (2 off c cs)
  obtain t n where tn: "lex1 c cs = (t, n)" by (cases "lex1 c cs")
  have n: "0 < n" "n \<le> Suc (length cs)" using lex1_pos [OF tn] lex1_le [of c cs] by (simp_all add: tn)
  have len: "off + n \<le> length v" using drop_step(4) [OF 2(2)] n(2) by simp
  have d: "drop (off + n) v = drop n (c # cs)" by (metis 2(2) add.commute drop_drop)
  from "2.IH" [OF tn [symmetric] refl d len] obtain ts where
    ts: "lex (off + n) (drop n (c # cs)) = ts @ [\<lparr>tokenType = EOFTok, tokenOffset = length v\<rparr>]" "tiled v (off + n) ts" by blast
  have ok: "lex1_ok (drop off v) t n" using lex1_ok_lex1 [of c cs] by (simp add: 2(2) tn)
  have at: "drop off v ! i = v ! (off + i)" if "i < n" for i using len that by simp
  have rest: "tokenType u \<noteq> EOFTok \<and> lexeme_at v u \<and> off + n \<le> tokenOffset u \<and> tokenEnd u \<le> length v" if "u \<in> set ts" for u
    using ts(2) that by (simp add: tiled_def)
  have cov: "(\<exists>u \<in> set ts. token_covers i u) \<or> skippable (v ! i)" if "off + n \<le> i" "i < length v" for i
    using ts(2) that by (simp add: tiled_def)
  have "tiled v off (located off t @ ts)"
  proof (cases t)
    case None
    have "skippable (v ! off)" "n = 1" using ok at [of 0] n by (simp_all add: lex1_ok_def None)
    then have "(\<exists>u \<in> set ts. token_covers i u) \<or> skippable (v ! i)" if "off \<le> i" "i < length v" for i
      using cov [of i] that by (cases "i = off") auto
    moreover have "off \<le> tokenOffset u" if "u \<in> set ts" for u using rest [OF that] by simp
    ultimately show ?thesis using ts(2) rest unfolding tiled_def by (auto simp: None located_def)
  next
    case (Some ty)
    let ?t = "\<lparr>tokenType = ty, tokenOffset = off + quoteShift ty\<rparr>"
    have ok': "ty \<noteq> EOFTok" "take (length (getLexeme ty)) (drop (quoteShift ty) (drop off v)) = getLexeme ty"
      "quoteShift ty + length (getLexeme ty) \<le> n"
      "\<And>i. i < n \<Longrightarrow> quoteShift ty \<le> i \<and> i < quoteShift ty + length (getLexeme ty) \<or> v ! (off + i) = CHR 39"
      using ok at by (auto simp: lex1_ok_def Some)
    have here: "token_covers i ?t \<or> skippable (v ! i)" if "off \<le> i" "i < off + n" for i
    proof -
      have "i - off < n" using that by linarith
      from ok'(4) [OF this] that show ?thesis by (auto simp: token_covers_def tokenEnd_def skippable_def)
    qed
    have "lexeme_at v ?t" using ok'(2) by (simp add: lexeme_at_def add.commute)
    moreover have "tokenEnd ?t \<le> off + n" using ok'(3) by (simp add: tokenEnd_def)
    moreover have "(\<exists>u \<in> set (?t # ts). token_covers i u) \<or> skippable (v ! i)" if "off \<le> i" "i < length v" for i
      using here [of i] cov [of i] that by (cases "i < off + n") auto
    moreover have "off \<le> tokenOffset u" "tokenEnd ?t \<le> tokenOffset u" if "u \<in> set ts" for u
      using rest [OF that] \<open>tokenEnd ?t \<le> off + n\<close> by linarith+
    moreover have "sorted_wrt (\<lambda>t u. tokenEnd t \<le> tokenOffset u) ts" using ts(2) by (simp add: tiled_def)
    ultimately show ?thesis using rest ok'(1) len unfolding tiled_def Some located_def by simp
  qed
  then show ?case using ts(1) by (intro exI [of _ "located off t @ ts"]) (simp add: tn)
qed

section \<open>Reading back printed tokens\<close>

definition wordy :: "string \<Rightarrow> bool" where
  "wordy w \<longleftrightarrow> w \<noteq> [] \<and> (\<forall>x \<in> set w. stringRe x) \<and> hd w \<notin> set operators \<and> hd w \<noteq> CHR 39 \<and> Scanner_keywords w = None"

text \<open>The printed form of a token, and the tokens that can be printed.\<close>

fun print_token :: "TokenType \<Rightarrow> string" where
  "print_token (QuotedStrTok q) = CHR 39 # q @ [CHR 39]"
| "print_token t = getLexeme t"

fun printable :: "TokenType \<Rightarrow> bool" where
  "printable (StrTok w) = wordy w"
| "printable (QuotedStrTok q) = (CHR 39 \<notin> set q)"
| "printable (RegexStrTok r) = (\<exists>p f. r = CHR ''/'' # p @ f \<and> regexEnd p False False = Some (length p) \<and> set f \<subseteq> regexFlags)"
| "printable (ErrorTok e) = False"
| "printable EOFTok = False"
| "printable t = True"

text \<open>What follows a printed token: nothing, a blank or a parenthesis.\<close>

definition delimited :: "string \<Rightarrow> bool" where
  "delimited v \<longleftrightarrow> v = [] \<or> hd v \<in> set '' )''"

definition follows :: "TokenType \<Rightarrow> string \<Rightarrow> bool" where
  "follows t v \<longleftrightarrow> (case t of
     NegTok \<Rightarrow> v = [] \<or> hd v \<noteq> CHR ''=''
   | LParenTok \<Rightarrow> True
   | RParenTok \<Rightarrow> True
   | QuotedStrTok q \<Rightarrow> True
   | _ \<Rightarrow> delimited v)"

definition kinds :: "string \<Rightarrow> TokenType list" where
  "kinds v = map tokenType (lex 0 v)"

lemma located_kinds: "map tokenType (located off t) = (case t of None \<Rightarrow> [] | Some ty \<Rightarrow> [ty])"
  by (simp add: located_def split: option.split)

lemma kinds_lex: "map tokenType (lex off v) = kinds v"
proof -
  have "map tokenType (lex off v) = map tokenType (lex off' v)" for off'
  proof (induction v arbitrary: off off' rule: measure_induct_rule [where f = length])
    case (less v)
    show ?case
    proof (cases v)
      case (Cons c cs)
      obtain t n where tn: "lex1 c cs = (t, n)" by (cases "lex1 c cs")
      have "length (drop n (c # cs)) < length v" using lex1_pos [OF tn] by (simp add: Cons)
      from less.IH [OF this, of "off + n" "off' + n"]
      show ?thesis by (simp add: Cons tn located_kinds del: drop_Suc_Cons drop_Cons')
    qed simp
  qed
  then show ?thesis by (simp add: kinds_def)
qed

lemma kinds_Nil [simp]: "kinds [] = [EOFTok]"
  by (simp add: kinds_def)

lemma kinds_Cons:
  "kinds (c # cs) = (case fst (lex1 c cs) of None \<Rightarrow> [] | Some ty \<Rightarrow> [ty]) @ kinds (drop (snd (lex1 c cs)) (c # cs))"
  unfolding kinds_def [of "c # cs"]
  by (cases "lex1 c cs") (simp add: located_kinds kinds_lex del: drop_Suc_Cons drop_Cons')

lemma kinds_blank [simp]: "kinds (CHR 32 # v) = kinds v"
  by (simp add: kinds_Cons lex1_def blank_def)

lemma kinds_token:
  "lex1 c cs = (Some ty, Suc (length ds)) \<Longrightarrow> cs = ds @ v \<Longrightarrow> kinds (c # cs) = ty # kinds v"
  by (simp add: kinds_Cons)

lemma delimited_stringRe: "delimited v \<Longrightarrow> takeWhile stringRe v = []"
  by (cases v) (auto simp: delimited_def stringRe_special)

lemma kinds_word:
  assumes w: "w \<noteq> []" "\<forall>x \<in> set w. stringRe x" "hd w \<notin> set operators" and v: "delimited v"
  shows "kinds (w @ v) = word_token w # kinds v"
proof -
  obtain c cs where c: "w = c # cs" using w(1) by (cases w) auto
  have s: "stringRe c" "c \<notin> set operators" using w c by simp_all
  then have "c \<noteq> CHR 39" "\<not> blank c"
    by (auto simp: stringRe_special blank_def) (simp_all add: stringRe_def is_letter_def is_digit_def)
  then have "lex1 c (cs @ v) = (let u = takeWhile stringRe (c # cs @ v) in (Some (word_token u), length u))"
    using s by (simp add: lex1_def operators_def)
  moreover have "takeWhile stringRe (c # cs @ v) = c # cs"
    using w(2) delimited_stringRe [OF v] by (simp add: c takeWhile_append2)
  ultimately have "lex1 c (cs @ v) = (Some (word_token w), Suc (length cs))" by (simp add: c)
  then show ?thesis unfolding c append_Cons by (rule kinds_token) simp
qed

lemma delimited_not_prefix: "delimited v \<Longrightarrow> x \<notin> set '' )'' \<Longrightarrow> take (Suc 0) v \<noteq> [x]"
  by (cases v) (auto simp: delimited_def)

lemma regexEnd_append: "regexEnd p e k = Some n \<Longrightarrow> regexEnd (p @ q) e k = Some n"
  by (induction p e k arbitrary: n rule: regexEnd.induct) (auto split: if_splits)

lemma keyword_letters: "\<forall>x \<in> set ''notinfalsetrue''. stringRe x"
  by code_simp

lemma kinds_print:
  assumes "printable t" and "follows t v"
  shows "kinds (print_token t @ v) = t # kinds v"
proof -
  have op: "kinds (c # ds @ v) = ty # kinds v" if "lex1 c (ds @ v) = (Some ty, Suc (length ds))" for c ds ty
    by (rule kinds_token [OF that]) simp
  have kw: "kinds (w @ v) = ty # kinds v" if "Scanner_keywords w = Some ty" "delimited v" for w ty
  proof -
    have "w \<in> {''not'', ''in'', ''false'', ''true''}" using that(1) by (auto simp: Scanner_keywords_def split: if_splits)
    then have "w \<noteq> []" "\<forall>x \<in> set w. stringRe x" "hd w \<notin> set operators"
      using keyword_letters by (auto simp: operators_def)
    from kinds_word [OF this that(2)] show ?thesis using that(1) by (simp add: word_token_def)
  qed
  have nd: "take (Suc 0) v \<noteq> ''=''" if "v = [] \<or> hd v \<noteq> CHR ''='' \<or> delimited v" using that
    by (cases v) (auto simp: delimited_def)
  show ?thesis
  proof (cases t)
    case (StrTok w)
    then have "wordy w" "delimited v" using assms by (simp_all add: follows_def)
    then show ?thesis using kinds_word [of w v] by (simp add: StrTok wordy_def word_token_def)
  next
    case (QuotedStrTok q)
    then have "takeWhile (\<lambda>x. x \<noteq> CHR 39) (q @ CHR 39 # v) = q" using assms(1) by (subst takeWhile_append2) auto
    then have "lex1 (CHR 39) ((q @ [CHR 39]) @ v) = (Some (QuotedStrTok q), Suc (length (q @ [CHR 39])))"
      by (simp add: lex1_def Let_def)
    from op [OF this] show ?thesis by (simp add: QuotedStrTok)
  next
    case (RegexStrTok r)
    then obtain p f where r: "r = CHR ''/'' # p @ f" "regexEnd p False False = Some (length p)" "set f \<subseteq> regexFlags"
      using assms(1) by auto
    have "delimited v" using assms(2) by (simp add: RegexStrTok follows_def)
    then have "takeWhile (\<lambda>x. x \<in> regexFlags) v = []" by (cases v) (auto simp: delimited_def regexFlags_def)
    then have "takeWhile (\<lambda>x. x \<in> regexFlags) (f @ v) = f" using r(3) by (simp add: takeWhile_append2 subset_iff)
    then have "lex1 (CHR ''/'') ((p @ f) @ v) = (Some (RegexStrTok r), Suc (length (p @ f)))"
      using regexEnd_append [OF r(2), of "f @ v"] by (simp add: lex1_def Let_def r(1))
    from op [OF this] show ?thesis by (simp add: RegexStrTok r(1))
  next
    case LParenTok
    then show ?thesis using assms nd op [of "CHR ''(''" "[]" LParenTok] by (simp add: lex1_def follows_def)
  next
    case RParenTok
    then show ?thesis using assms nd op [of "CHR '')''" "[]" RParenTok] by (simp add: lex1_def follows_def)
  next
    case NegTok
    then have "take (Suc 0) v \<noteq> ''=''" using assms(2) nd by (auto simp: follows_def)
    then show ?thesis using NegTok op [of "CHR ''!''" "[]" NegTok] by (simp add: lex1_def)
  next
    case LtTok
    then show ?thesis using assms nd op [of "CHR ''<''" "[]" LtTok] by (simp add: lex1_def follows_def)
  next
    case GtTok
    then show ?thesis using assms nd op [of "CHR ''>''" "[]" GtTok] by (simp add: lex1_def follows_def)
  next
    case LtEqTok
    then show ?thesis using assms nd op [of "CHR ''<''" "''=''" LtEqTok] by (simp add: lex1_def follows_def)
  next
    case GtEqTok
    then show ?thesis using assms nd op [of "CHR ''>''" "''=''" GtEqTok] by (simp add: lex1_def follows_def)
  next
    case RegexOpTok
    then show ?thesis using assms nd op [of "CHR ''=''" "''~''" RegexOpTok] by (simp add: lex1_def follows_def)
  next
    case AndTok
    then show ?thesis using assms nd op [of "CHR ''&''" "''&''" AndTok] by (simp add: lex1_def follows_def)
  next
    case OrTok
    then show ?thesis using assms nd op [of "CHR ''|''" "''|''" OrTok] by (simp add: lex1_def follows_def)
  next
    case (EqTok b)
    then show ?thesis
      using assms nd op [of "CHR ''=''" "''==''" "EqTok True"] op [of "CHR ''=''" "''=''" "EqTok False"]
      by (cases b) (simp_all add: lex1_def follows_def)
  next
    case (NotEqTok b)
    then show ?thesis
      using assms nd op [of "CHR ''!''" "''==''" "NotEqTok True"] op [of "CHR ''!''" "''=''" "NotEqTok False"]
      by (cases b) (simp_all add: lex1_def follows_def)
  next
    case TrueTok
    then show ?thesis using assms kw [of "''true''" TrueTok] by (simp add: Scanner_keywords_def follows_def)
  next
    case FalseTok
    then show ?thesis using assms kw [of "''false''" FalseTok] by (simp add: Scanner_keywords_def follows_def)
  next
    case InTok
    then show ?thesis using assms kw [of "''in''" InTok] by (simp add: Scanner_keywords_def follows_def)
  next
    case NotTok
    then show ?thesis using assms kw [of "''not''" NotTok] by (simp add: Scanner_keywords_def follows_def)
  qed (use assms in simp_all)
qed

lemma kinds_printed_list:
  assumes "\<forall>t \<in> set ts. printable t"
  shows "kinds (join_str '' '' (map print_token ts)) = ts @ [EOFTok]"
  using assms
proof (induction ts rule: induct_list012)
  case (2 t)
  then show ?case using kinds_print [of t "[]"] by (cases t) (simp_all add: follows_def delimited_def)
next
  case (3 t u ts)
  have "follows t (CHR 32 # v)" for v by (cases t) (simp_all add: follows_def delimited_def)
  then have "kinds (print_token t @ CHR 32 # v) = t # kinds v" for v
    using kinds_print [of t "CHR 32 # v"] 3 by simp
  then show ?case using 3 by simp
qed simp

section \<open>Properties of the scanner\<close>

text \<open>C15. The scanner terminates on every text and its tokens tile it: the last token is the only \<open>EOF\<close>, at
  the end of the text; every other token sits at its offset, inside the text and after the end of
  the token before it; and every character outside the tokens is a blank, the quote around a
  quoted string, or a character the scanner does not know. The recorded errors are exactly the
  error tokens.\<close>

theorem Scanner_scan_tiles:
  "\<exists>ts. fst (Scanner_scan (Scanner_reset v)) = ts @ [\<lparr>tokenType = EOFTok, tokenOffset = length v\<rparr>] \<and> tiled v 0 ts \<and>
     reported (snd (Scanner_scan (Scanner_reset v))) = errors_of ts"
proof -
  obtain ts where "lex 0 v = ts @ [\<lparr>tokenType = EOFTok, tokenOffset = length v\<rparr>]" "tiled v 0 ts"
    using lex_tiled [of 0 v v] by auto
  then show ?thesis using Scanner_scan_lex [of v] by (intro exI [of _ ts]) (simp add: errors_of_def)
qed

text \<open>C16. Scanning the printed form of tokens, separated by single spaces, gives back the tokens: keys
  and values that are words of the scanner and no keywords, quoted strings without a quote, regular
  expressions that end at their first unescaped slash outside a class, with their flags, keywords
  and operators.\<close>

theorem Scanner_scan_roundtrip:
  assumes "\<forall>t \<in> set ts. printable t"
  shows "map tokenType (fst (Scanner_scan (Scanner_reset (join_str '' '' (map print_token ts))))) = ts @ [EOFTok]"
  using Scanner_scan_lex [of "join_str '' '' (map print_token ts)"] kinds_printed_list [OF assms] by (simp add: kinds_def)

theorem Scanner_scan_roundtrip_witness:
  "map tokenType (fst (Scanner_scan (Scanner_reset (join_str '' '' (map print_token
     [NegTok, StrTok ''isMac'', AndTok, StrTok ''f.x'', RegexOpTok, RegexStrTok ''/[/]+/i'', OrTok, QuotedStrTok ''a b''])))))
   = [NegTok, StrTok ''isMac'', AndTok, StrTok ''f.x'', RegexOpTok, RegexStrTok ''/[/]+/i'', OrTok, QuotedStrTok ''a b''] @ [EOFTok]"
proof (rule Scanner_scan_roundtrip)
  have w: "wordy ''isMac''" "wordy ''f.x''" by (simp_all add: wordy_def stringRe_def is_letter_def is_digit_def operators_def Scanner_keywords_def)
  have "printable (RegexStrTok ''/[/]+/i'')"
    unfolding printable.simps by (rule exI [of _ "''[/]+/''"], rule exI [of _ "''i''"]) (simp add: regexFlags_def)
  then show "\<forall>t \<in> set [NegTok, StrTok ''isMac'', AndTok, StrTok ''f.x'', RegexOpTok, RegexStrTok ''/[/]+/i'', OrTok, QuotedStrTok ''a b''].
      printable t" using w by (simp del: printable.simps(3))
qed

end
