(* ===== verification/When_Parsing.thy ===== *)
theory When_Parsing
  imports When_Parser When_Lexing Context_Key_DNF
begin

text \<open>
  Laws of the parser of \<open>when\<close> clauses: it stays inside the tokens and always returns, with the
  outcome its result and its errors tell.
\<close>

section \<open>Parsers keep the token stream\<close>

text \<open>The index of the parser is inside the tokens, which end with \<open>EOF\<close>.\<close>

definition stream :: "Parser \<Rightarrow> bool" where
  "stream s \<longleftrightarrow> ps_current s < length (ps_tokens s) \<and> tokenType (last (ps_tokens s)) = EOFTok"

definition remaining :: "Parser \<Rightarrow> nat" where
  "remaining s = length (ps_tokens s) - ps_current s"

definition extends :: "Parser \<Rightarrow> Parser \<Rightarrow> bool" where
  "extends s t \<longleftrightarrow> stream t \<and> ps_tokens t = ps_tokens s \<and> ps_current s \<le> ps_current t"

text \<open>An error the expression classes throw.\<close>

definition thrown_by :: "parser_env \<Rightarrow> error \<Rightarrow> bool" where
  "thrown_by E e \<longleftrightarrow>
     (\<exists>arr m b. and_create (pe_ops E) arr m b = Inl e \<or> or_create (pe_ops E) arr m b = Inl e) \<or>
     (\<exists>x. negate (pe_host E) (pe_ops E) x = Inl e)"

lemma thrown_by_ops:
  "and_create (pe_ops E) arr m b = Inl e \<Longrightarrow> thrown_by E e" "or_create (pe_ops E) arr m b = Inl e \<Longrightarrow> thrown_by E e"
  "negate (pe_host E) (pe_ops E) x = Inl e \<Longrightarrow> thrown_by E e"
  by (auto simp: thrown_by_def)

definition outcome :: "parser_env \<Rightarrow> Parser \<Rightarrow> (pexn + 'a) \<times> Parser \<Rightarrow> bool" where
  "outcome E s rt \<longleftrightarrow> extends s (snd rt) \<and>
     (case fst rt of
        Inl ParseError \<Rightarrow> length (ps_errors s) < length (ps_errors (snd rt))
      | Inl (Thrown e) \<Rightarrow> thrown_by E e
      | Inr x \<Rightarrow> ps_errors (snd rt) = ps_errors s)"

definition steps :: "Parser \<Rightarrow> Parser \<Rightarrow> bool" where
  "steps s t \<longleftrightarrow> extends s t \<and> ps_errors t = ps_errors s"

lemma steps_refl: "stream s \<Longrightarrow> steps s s"
  by (simp add: steps_def extends_def)

lemma steps_trans: "steps s t \<Longrightarrow> steps t u \<Longrightarrow> steps s u"
  by (auto simp: steps_def extends_def)

lemma steps_stream: "steps s t \<Longrightarrow> stream t"
  by (simp add: steps_def extends_def)

lemma steps_remaining: "steps s t \<Longrightarrow> remaining t \<le> remaining s"
  by (auto simp: steps_def extends_def remaining_def)

lemma outcome_steps: "steps s t \<Longrightarrow> outcome E t rt \<Longrightarrow> outcome E s rt"
  by (auto simp: outcome_def steps_def extends_def split: sum.splits pexn.splits)

lemma outcome_return: "steps s t \<Longrightarrow> outcome E s (returnp x t)" "steps s t \<Longrightarrow> outcome E s (Inr x, t)"
  by (simp_all add: outcome_def returnp_def steps_def)

lemma outcome_bind:
  assumes "outcome E s (m s)" and "\<And>x t. m s = (Inr x, t) \<Longrightarrow> steps s t \<Longrightarrow> outcome E t (f x t)"
  shows "outcome E s (bindp m f s)"
proof (cases "m s")
  case (Pair r t)
  show ?thesis
  proof (cases r)
    case (Inl e)
    then show ?thesis using assms(1) Pair by (cases e) (simp_all add: bindp_def outcome_def)
  next
    case (Inr x)
    have st: "steps s t" using assms(1) Pair Inr by (simp add: outcome_def steps_def)
    have "outcome E t (f x t)" by (rule assms(2)) (simp_all add: Pair Inr st)
    with st have "outcome E s (f x t)" by (rule outcome_steps)
    then show ?thesis by (simp add: bindp_def Pair Inr)
  qed
qed

lemma outcome_lift:
  "steps s t \<Longrightarrow> (\<And>e. r = Inl e \<Longrightarrow> thrown_by E e) \<Longrightarrow> outcome E s (liftp r t)"
  by (cases r) (simp_all add: liftp_def outcome_def steps_def)

lemma extends_errors: "stream s \<Longrightarrow> extends s (s\<lparr>ps_errors := e\<rparr>)"
  by (simp add: extends_def stream_def)

lemma outcome_error: "steps s t \<Longrightarrow> outcome E s (Parser_errExpectedButGot expected got t)"
  using extends_errors [of t]
  by (auto simp: Parser_errExpectedButGot_def Let_def outcome_def steps_def extends_def stream_def)

lemma peek_stream: "stream s \<Longrightarrow> Parser_peek s = ps_tokens s ! ps_current s"
  by (simp add: stream_def Parser_peek_def)

lemma not_last_token:
  assumes "stream s" and "\<not> Parser_isAtEnd s"
  shows "Suc (ps_current s) < length (ps_tokens s)"
proof -
  have "ps_current s \<noteq> length (ps_tokens s) - 1"
  proof
    assume "ps_current s = length (ps_tokens s) - 1"
    moreover have "ps_tokens s \<noteq> []" using assms(1) by (auto simp: stream_def)
    ultimately have "Parser_peek s = last (ps_tokens s)" by (simp add: peek_stream [OF assms(1)] last_conv_nth)
    then show False using assms by (simp add: Parser_isAtEnd_def stream_def)
  qed
  then show ?thesis using assms(1) unfolding stream_def by linarith
qed

lemma advance_steps: "stream s \<Longrightarrow> steps s (Parser_advance s)"
  using not_last_token [of s]
  by (simp add: Parser_advance_def steps_def extends_def stream_def)

lemma advance_remaining:
  "stream s \<Longrightarrow> \<not> Parser_isAtEnd s \<Longrightarrow> remaining (Parser_advance s) < remaining s"
  using not_last_token [of s] by (simp add: Parser_advance_def remaining_def)

lemma steps_advance: "steps s t \<Longrightarrow> steps s (Parser_advance t)"
  using advance_steps [OF steps_stream] steps_trans by blast

lemma matchOne_steps:
  assumes "Parser_matchOne ty s = (b, t)" and "stream s"
  shows "steps s t" and "b \<Longrightarrow> ty \<noteq> EOFTok \<Longrightarrow> remaining t < remaining s"
  using assms advance_steps [of s] advance_remaining [of s]
  by (auto simp: Parser_matchOne_def Parser_check_def Parser_isAtEnd_def steps_refl split: if_splits)

lemma outcome_consume: "steps s t \<Longrightarrow> outcome E s (Parser_consume ty msg t)"
  using steps_advance by (auto simp: Parser_consume_def outcome_error intro: outcome_return)

lemma value_steps: "steps s t \<Longrightarrow> Parser_value t = (v, u) \<Longrightarrow> steps s u"
  using steps_advance [of s t] by (auto simp: Parser_value_def split: TokenType.splits)

lemma reconstruct_steps:
  "reconstruct_loop l b ls s = (ls', t) \<Longrightarrow> stream s \<Longrightarrow> steps s t"
proof (induction l b ls s rule: reconstruct_loop.induct)
  case (1 l b ls s)
  note IH = "1.IH" [OF refl _ refl]
  show ?case
  proof (cases "\<not> Parser_isAtEnd s \<and> tokenType (Parser_peek s) \<noteq> AndTok \<and> tokenType (Parser_peek s) \<noteq> OrTok")
    case False
    then have "t = s" using "1.prems"(1) by (subst (asm) reconstruct_loop.simps) (auto simp: Let_def)
    then show ?thesis using "1.prems"(2) by (simp add: steps_refl)
  next
    case True
    define b' where "b' = (case tokenType (Parser_peek s) of LParenTok \<Rightarrow> b + 1 | RParenTok \<Rightarrow> b - 1
      | RegexStrTok lexeme \<Rightarrow> followingBalance l lexeme b | QuotedStrTok lexeme \<Rightarrow> followingBalance l lexeme b | _ \<Rightarrow> b)"
    have eq: "reconstruct_loop l b ls s =
        (if b' < 0 then (ls, s) else reconstruct_loop l b' (ls @ [getLexeme (tokenType (Parser_peek s))]) (Parser_advance s))"
      by (subst reconstruct_loop.simps) (use True in \<open>simp add: Let_def b'_def\<close>)
    show ?thesis
    proof (cases "b' < 0")
      case True
      then show ?thesis using "1.prems" by (simp add: eq steps_refl)
    next
      case False
      have st: "steps s (Parser_advance s)" using "1.prems"(2) by (rule advance_steps)
      have "steps (Parser_advance s) t"
        by (rule IH [OF True, folded b'_def]) (use False "1.prems" steps_stream [OF st] in \<open>simp_all add: eq\<close>)
      with st show ?thesis by (rule steps_trans)
    qed
  qed
qed

section \<open>Keys and regular expressions\<close>

lemma outcome_regexStrict: "stream s \<Longrightarrow> outcome E s (Parser_regexStrict E key s)"
  using advance_steps [of s]
  by (auto simp: Parser_regexStrict_def Let_def outcome_error outcome_return split: TokenType.split option.split)

lemma outcome_regexReconstruct:
  assumes "stream s"
  shows "outcome E s (Parser_regexReconstruct E key e lexeme s)"
proof -
  obtain ls t where t: "reconstruct_loop lexeme (lexemeBalance lexeme 0) [lexeme] (Parser_advance s) = (ls, t)"
    by fastforce
  have st: "steps s (Parser_advance s)" using assms by (rule advance_steps)
  from steps_trans [OF st reconstruct_steps [OF t steps_stream [OF st]]]
  show ?thesis by (auto simp: Parser_regexReconstruct_def t outcome_error outcome_return split: option.split)
qed

lemma outcome_regexQuoted: "stream s \<Longrightarrow> outcome E s (Parser_regexQuoted E key e q s)"
  using advance_steps [of s]
  by (auto simp: Parser_regexQuoted_def Let_def outcome_error outcome_return split: option.split)

lemma outcome_regex: "stream s \<Longrightarrow> outcome E s (Parser_regex E key s)"
  by (auto simp: Parser_regex_def Let_def outcome_regexStrict outcome_regexReconstruct outcome_regexQuoted
      outcome_error steps_refl split: TokenType.split)

lemma outcome_value:
  "stream s \<Longrightarrow> outcome E s (case Parser_value (Parser_advance s) of (right, t) \<Rightarrow> returnp (f right t) t)"
  using value_steps [OF advance_steps [of s]] by (cases "Parser_value (Parser_advance s)") (auto intro: outcome_return)

lemma outcome_key:
  assumes "stream s"
  shows "outcome E s (Parser_key E key s)"
proof -
  obtain b1 s1 where m1: "Parser_matchOne RegexOpTok s = (b1, s1)" by fastforce
  obtain b2 s2 where m2: "Parser_matchOne NotTok s1 = (b2, s2)" by fastforce
  have 1: "steps s s1" using matchOne_steps(1) [OF m1 assms] .
  have 2: "steps s1 s2" using matchOne_steps(1) [OF m2 steps_stream [OF 1]] .
  note st = steps_stream [OF 1] steps_stream [OF 2]
  have notIn: "outcome E s2 (bindp (Parser_consume InTok msg) (\<lambda>_ s3.
      case Parser_value s3 of (right, s4) \<Rightarrow> returnp (f right) s4) s2)" for msg and f :: "string \<Rightarrow> expr option"
  proof (rule outcome_bind)
    show "outcome E s2 (Parser_consume InTok msg s2)" by (rule outcome_consume [OF steps_refl [OF st(2)]])
    show "outcome E t (case Parser_value t of (right, s4) \<Rightarrow> returnp (f right) s4)" if "steps s2 t" for t
      using value_steps [OF steps_refl [OF steps_stream [OF that]]]
      by (cases "Parser_value t") (auto intro: outcome_return)
  qed
  have "outcome E s1 (Parser_regex E key s1)" by (rule outcome_regex [OF st(1)])
  moreover have "outcome E s2 (returnp x s2)" for x :: "expr option" by (rule outcome_return [OF steps_refl [OF st(2)]])
  moreover have "outcome E s2 (case Parser_value (Parser_advance s2) of (right, t) \<Rightarrow> returnp (f right t) t)"
    for f :: "string \<Rightarrow> Parser \<Rightarrow> expr option" by (rule outcome_value [OF st(2)])
  ultimately have "b1 \<Longrightarrow> outcome E s1 (Parser_key E key s)" "\<not> b1 \<Longrightarrow> outcome E s2 (Parser_key E key s)"
    using notIn
    by (simp_all add: Parser_key_def m1 m2 Let_def split: TokenType.split)
  then show ?thesis using outcome_steps 1 steps_trans [OF 1 2] by (cases b1) blast+
qed

section \<open>Expressions\<close>

text \<open>A parser that behaves on all streams with few tokens left.\<close>

definition parses :: "parser_env \<Rightarrow> nat \<Rightarrow> 'a parse \<Rightarrow> bool" where
  "parses E n p \<longleftrightarrow> (\<forall>s. stream s \<longrightarrow> remaining s < n \<longrightarrow> outcome E s (p s))"

lemma parsesD: "parses E n p \<Longrightarrow> stream s \<Longrightarrow> remaining s < n \<Longrightarrow> outcome E s (p s)"
  by (simp add: parses_def)

lemma parses_mono: "parses E n p \<Longrightarrow> m \<le> n \<Longrightarrow> parses E m p"
  by (auto simp: parses_def)

lemma outcome_parenthesized:
  assumes p: "parses E n p" and s: "stream s" "tokenType (Parser_peek s) = LParenTok" "remaining s \<le> n"
    and f: "\<And>e t u. steps t u \<Longrightarrow> outcome E t (f e u)"
  shows "outcome E s (bindp p (\<lambda>e. bindp (Parser_consume RParenTok closingParenthesis) (\<lambda>_. f e)) (Parser_advance s))"
proof -
  have st: "steps s (Parser_advance s)" by (rule advance_steps [OF s(1)])
  have "remaining (Parser_advance s) < n"
    using advance_remaining [OF s(1)] s(2,3) by (simp add: Parser_isAtEnd_def)
  then have "outcome E (Parser_advance s) (p (Parser_advance s))" by (rule parsesD [OF p steps_stream [OF st]])
  then have "outcome E (Parser_advance s) (bindp p (\<lambda>e. bindp (Parser_consume RParenTok closingParenthesis) (\<lambda>_. f e)) (Parser_advance s))"
  proof (rule outcome_bind)
    fix e t assume t: "steps (Parser_advance s) t"
    show "outcome E t (bindp (Parser_consume RParenTok closingParenthesis) (\<lambda>_. f e) t)"
      by (rule outcome_bind, rule outcome_consume [OF steps_refl [OF steps_stream [OF t]]])
         (rule f, rule steps_refl, erule steps_stream)
  qed
  with st show ?thesis by (rule outcome_steps)
qed

lemma outcome_parsing_error:
  "stream s \<Longrightarrow> outcome E s (Inl ParseError, s\<lparr>ps_errors := ps_errors s @ [e]\<rparr>)"
  by (simp add: outcome_def extends_errors)

lemma outcome_primary:
  assumes p: "parses E n p" and s: "stream s" "remaining s \<le> n"
  shows "outcome E s (Parser_primary E p s)"
proof -
  have st: "steps s (Parser_advance s)" by (rule advance_steps [OF s(1)])
  have key: "outcome E s (Parser_key E key (Parser_advance s))" for key
    by (rule outcome_steps [OF st outcome_key [OF steps_stream [OF st]]])
  have par: "tokenType (Parser_peek s) = LParenTok \<Longrightarrow>
      outcome E s (bindp p (\<lambda>e. bindp (Parser_consume RParenTok closingParenthesis) (\<lambda>_. returnp e)) (Parser_advance s))"
    by (rule outcome_parenthesized [OF p s(1) _ s(2)]) (auto intro: outcome_return)
  show ?thesis unfolding Parser_primary_def Let_def
    using key par outcome_return(1) [OF st] outcome_parsing_error [OF s(1)] outcome_error [OF steps_refl [OF s(1)]]
    by (cases "tokenType (Parser_peek s)") simp_all
qed

lemma outcome_term:
  assumes p: "parses E n p" and s: "stream s" "remaining s \<le> n"
  shows "outcome E s (Parser_term E p s)"
proof -
  obtain b t where m: "Parser_matchOne NegTok s = (b, t)" by fastforce
  have st: "steps s t" using matchOne_steps(1) [OF m s(1)] .
  then have t: "stream t" "remaining t \<le> n" using steps_stream steps_remaining s(2) by fastforce+
  have ad: "steps t (Parser_advance t)" by (rule advance_steps [OF t(1)])
  have par: "tokenType (Parser_peek t) = LParenTok \<Longrightarrow>
      outcome E t (bindp p (\<lambda>e. bindp (Parser_consume RParenTok closingParenthesis) (\<lambda>_.
        case e of None \<Rightarrow> returnp None | Some x \<Rightarrow> liftp (negate (pe_host E) (pe_ops E) x))) (Parser_advance t))"
    by (rule outcome_parenthesized [OF p t(1) _ t(2)])
       (auto intro: outcome_return outcome_lift thrown_by_ops split: option.split)
  have "outcome E t (Parser_term E p s)" unfolding Parser_term_def m Let_def prod.case
    using par outcome_primary [OF p t] outcome_return(1) [OF ad] outcome_error [OF steps_refl [OF t(1)]]
    by (cases b; cases "tokenType (Parser_peek t)") simp_all
  with st show ?thesis by (rule outcome_steps)
qed

lemma outcome_operand_loop:
  assumes p: "parses E m p" and ty: "ty \<noteq> EOFTok"
  shows "stream s \<Longrightarrow> remaining s < n \<Longrightarrow> remaining s \<le> m \<Longrightarrow> outcome E s (operand_loop n ty p es s)"
proof (induction n arbitrary: s es)
  case (Suc n)
  obtain b t where mt: "Parser_matchOne ty s = (b, t)" by fastforce
  have st: "steps s t" using matchOne_steps(1) [OF mt Suc.prems(1)] .
  show ?case
  proof (cases b)
    case True
    then have r: "remaining t < remaining s" using matchOne_steps(2) [OF mt Suc.prems(1)] ty by simp
    have "outcome E t (bindp p (\<lambda>right. operand_loop n ty p (es @ [right])) t)"
    proof (rule outcome_bind)
      show "outcome E t (p t)" by (rule parsesD [OF p steps_stream [OF st]]) (use r Suc.prems in simp)
      fix x u assume "steps t u"
      then show "outcome E u (operand_loop n ty p (es @ [x]) u)"
        by (intro Suc.IH) (use r Suc.prems steps_remaining [of t u] steps_stream in fastforce)+
    qed
    with st have "outcome E s (bindp p (\<lambda>right. operand_loop n ty p (es @ [right])) t)" by (rule outcome_steps)
    then show ?thesis using True by (simp add: mt)
  next
    case False
    then show ?thesis using st by (simp add: mt outcome_return)
  qed
qed simp

lemma parses_operands:
  assumes p: "parses E m p" and n: "m \<le> n" and ty: "ty \<noteq> EOFTok" and op: "\<And>es e. op es = Inl e \<Longrightarrow> thrown_by E e"
  shows "parses E m (bindp p (\<lambda>e. bindp (operand_loop n ty p [e]) (\<lambda>es. if length es = 1 then returnp (es ! 0) else liftp (op es))))"
  unfolding parses_def
proof (intro allI impI)
  fix s assume s: "stream s" "remaining s < m"
  show "outcome E s (bindp p (\<lambda>e. bindp (operand_loop n ty p [e]) (\<lambda>es. if length es = 1 then returnp (es ! 0) else liftp (op es))) s)"
  proof (rule outcome_bind, rule parsesD [OF p s])
    fix e t assume t: "steps s t"
    then have "remaining t \<le> remaining s" "stream t" using steps_remaining steps_stream by blast+
    then have "outcome E t (operand_loop n ty p [e] t)"
      by (intro outcome_operand_loop [OF p ty]) (use s n in simp_all)
    then show "outcome E t (bindp (operand_loop n ty p [e]) (\<lambda>es. if length es = 1 then returnp (es ! 0) else liftp (op es)) t)"
      by (rule outcome_bind) (auto intro!: outcome_return outcome_lift steps_refl op dest: steps_stream)
  qed
qed

lemma parses_expr: "parses E n (Parser_expr E n)"
proof (induction n)
  case (Suc n)
  have "parses E (Suc n) (Parser_term E (Parser_expr E n))"
    unfolding parses_def using outcome_term [OF Suc] by simp
  then have "parses E (Suc n) (Parser_and E (Suc n) (Parser_expr E n))"
    unfolding Parser_and_def by (intro parses_operands) (auto intro: thrown_by_ops)
  then have "parses E (Suc n) (Parser_or E (Suc n) (Parser_expr E n))"
    unfolding Parser_or_def by (intro parses_operands) (auto intro: thrown_by_ops)
  then show ?case by (simp add: parses_def)
qed (simp add: parses_def)

section \<open>The outcome of a parse\<close>

lemma scan_tokens:
  obtains ts where "fst (Scanner_scan (Scanner_reset v)) = ts @ [\<lparr>tokenType = EOFTok, tokenOffset = length v\<rparr>]"
    and "\<forall>t \<in> set ts. tokenType t \<noteq> EOFTok"
  using lex_tiled [of 0 v v] Scanner_scan_lex [of v] by (auto simp: tiled_def)

lemma at_end_last:
  assumes "stream s" and "ps_tokens s = ts @ [e]" and "\<forall>t \<in> set ts. tokenType t \<noteq> EOFTok"
  shows "Parser_isAtEnd s \<longleftrightarrow> ps_current s = length ts"
proof
  assume "Parser_isAtEnd s"
  then have "tokenType (ps_tokens s ! ps_current s) = EOFTok" by (simp add: Parser_isAtEnd_def peek_stream [OF assms(1)])
  moreover have "ps_current s \<le> length ts" using assms(1,2) by (simp add: stream_def)
  ultimately show "ps_current s = length ts"
    using assms(3) by (metis assms(2) le_neq_implies_less nth_append nth_mem)
next
  assume "ps_current s = length ts"
  then show "Parser_isAtEnd s" using assms(1,2) by (simp add: Parser_isAtEnd_def peek_stream stream_def)
qed

text \<open>C14. Parsing returns: the number of tokens bounds the nesting and the rounds of the loops. An error
  that is thrown is one of the expression classes. Otherwise the parser stays inside its token
  array, and either no parsing error is recorded and every token was consumed, or an error is
  recorded and the result is \<open>undefined\<close>.\<close>

theorem Parser_parse_outcome:
  assumes "input \<noteq> []"
  shows "case Parser_parse E input s0 of (r, t) \<Rightarrow>
    ps_tokens t = fst (Scanner_scan (Scanner_reset input)) \<and> ps_current t < length (ps_tokens t) \<and>
    (case r of
       Inl e \<Rightarrow> thrown_by E e
     | Inr x \<Rightarrow> (if ps_errors t = [] then ps_current t = length (ps_tokens t) - 1 else x = None))"
proof -
  obtain ts where ts: "fst (Scanner_scan (Scanner_reset input)) = ts @ [\<lparr>tokenType = EOFTok, tokenOffset = length input\<rparr>]"
    "\<forall>t \<in> set ts. tokenType t \<noteq> EOFTok" by (rule scan_tokens)
  define tokens where "tokens = ts @ [\<lparr>tokenType = EOFTok, tokenOffset = length input\<rparr>]"
  obtain sc where sc: "Scanner_scan (Scanner_reset input) = (tokens, sc)"
    using ts(1) by (cases "Scanner_scan (Scanner_reset input)") (simp add: tokens_def)
  define s where "s = s0\<lparr>ps_scanner := sc, ps_tokens := tokens, ps_current := 0, ps_errors := []\<rparr>"
  obtain r t where rt: "Parser_expr E (length tokens + 1) s = (r, t)" by fastforce
  have "stream s" "remaining s < length tokens + 1" by (simp_all add: s_def tokens_def stream_def remaining_def)
  then have o: "outcome E s (r, t)" unfolding rt [symmetric] by (rule parsesD [OF parses_expr])
  then have t: "stream t" "ps_tokens t = tokens" by (simp_all add: outcome_def extends_def s_def)
  have parse: "Parser_parse E input s0 = (case (r, t) of
      (Inl ParseError, s1) \<Rightarrow> (Inr None, s1)
    | (Inl (Thrown e), s1) \<Rightarrow> (Inl e, s1)
    | (Inr e, s1) \<Rightarrow> if \<not> Parser_isAtEnd s1 then
        (let peek = Parser_peek s1;
             info = (case tokenType peek of StrTok l \<Rightarrow> Some ''Did you forget to put && or || before the token?'' | _ \<Rightarrow> None)
         in (Inr None, s1\<lparr>ps_errors := ps_errors s1 @ [\<lparr>peMessage = ''Unexpected token'', peOffset = tokenOffset peek,
               peLexeme = getLexeme (tokenType peek), peInfo = info\<rparr>]\<rparr>))
      else (Inr e, s1))"
    using assms by (simp only: Parser_parse_def sc Let_def prod.case s_def [symmetric] rt [unfolded Let_def]) simp
  have fst: "fst (Scanner_scan (Scanner_reset input)) = tokens" by (simp add: sc)
  show ?thesis
  proof (cases r)
    case (Inl e)
    then show ?thesis using t o fst
      by (cases e) (auto simp: parse outcome_def stream_def s_def)
  next
    case (Inr x)
    have "Parser_isAtEnd t \<longleftrightarrow> ps_current t = length tokens - 1"
      using at_end_last [OF t(1) t(2) [unfolded tokens_def] ts(2)] by (simp add: tokens_def)
    then show ?thesis using t o fst Inr by (auto simp: parse outcome_def stream_def s_def Let_def)
  qed
qed

definition plain_env :: parser_env where
  "plain_env = \<lparr> pe_host = plain_host, pe_ops = ck_ops plain_host 4,
     newRegExp = (\<lambda>src flg. Some \<lparr>source = src, flags = (case flg of None \<Rightarrow> [] | Some f \<Rightarrow> f)\<rparr>),
     regexParsingWithErrorRecovery = True \<rparr>"

theorem Parser_parse_outcome_witness:
  "case Parser_parse plain_env ''a && (b'' Parser_new of (r, t) \<Rightarrow>
    ps_tokens t = fst (Scanner_scan (Scanner_reset ''a && (b'')) \<and> ps_current t < length (ps_tokens t) \<and>
    (case r of
       Inl e \<Rightarrow> thrown_by plain_env e
     | Inr x \<Rightarrow> (if ps_errors t = [] then ps_current t = length (ps_tokens t) - 1 else x = None))"
  by (rule Parser_parse_outcome) simp

text \<open>Parsing the empty text reports its error after those of the text parsed before, whose lexing and
  parsing errors are kept.\<close>

lemma Parser_parse_empty_keeps_errors:
  "fst (Parser_parse E [] s) = Inr None \<and> ps_scanner (snd (Parser_parse E [] s)) = ps_scanner s \<and>
   (\<exists>e. ps_errors (snd (Parser_parse E [] s)) = ps_errors s @ [e])"
  by (simp add: Parser_parse_def)

end
