(* ===== verification/When_Roundtrip.thy ===== *)
theory When_Roundtrip
  imports When_Parsing
begin

text \<open>
  Reading serialized \<open>when\<close> clauses: the text \<open>serialize\<close> prints for an expression is scanned into
  the expected tokens, and \<open>deserialize\<close> builds from them an expression with the same meaning.
\<close>

section \<open>Expressions that can be read back\<close>

definition regexLexeme :: "regexp \<Rightarrow> string" where
  "regexLexeme r = ''/'' @ source r @ ''/'' @ flags r"

text \<open>The contract of the regular expression constructor for one expression: its source contains no
  slash that would end it early, and the constructor builds the expression from its source and
  flags (without the flags \<open>g\<close> and \<open>y\<close>, which the parser removes).\<close>

definition regexp_readable :: "parser_env \<Rightarrow> regexp \<Rightarrow> bool" where
  "regexp_readable E r \<longleftrightarrow>
     regexEnd (source r @ ''/'') False False = Some (length (source r) + 1) \<and>
     set (flags r) \<subseteq> set ''ismu'' \<and>
     newRegExp E (source r) (if flags r = [] then None else Some (flags r)) = Some r"

text \<open>The leaves that are printed faithfully: keys are words, and values hold no quote.\<close>

fun serializable_leaf :: "parser_env \<Rightarrow> expr \<Rightarrow> bool" where
  "serializable_leaf E KFalse = True"
| "serializable_leaf E KTrue = True"
| "serializable_leaf E (KDefined k n) = wordy k"
| "serializable_leaf E (KNot k n) = wordy k"
| "serializable_leaf E (KEquals k (Str v) n) = (wordy k \<and> CHR 39 \<notin> set v)"
| "serializable_leaf E (KNotEquals k (Str v) n) = (wordy k \<and> CHR 39 \<notin> set v)"
| "serializable_leaf E (KRegex k (Some r)) = (wordy k \<and> regexp_readable E r)"
| "serializable_leaf E (KNotRegex k (Some r)) = (wordy k \<and> regexp_readable E r)"
| "serializable_leaf E (KIn k w) = (wordy k \<and> CHR 39 \<notin> set w)"
| "serializable_leaf E (KNotIn k w) = (wordy k \<and> CHR 39 \<notin> set w)"
| "serializable_leaf E e = False"

fun leaf_tokens :: "expr \<Rightarrow> TokenType list" where
  "leaf_tokens KFalse = [FalseTok]"
| "leaf_tokens KTrue = [TrueTok]"
| "leaf_tokens (KDefined k n) = [StrTok k]"
| "leaf_tokens (KNot k n) = [NegTok, StrTok k]"
| "leaf_tokens (KEquals k (Str v) n) = [StrTok k, EqTok False, QuotedStrTok v]"
| "leaf_tokens (KNotEquals k (Str v) n) = [StrTok k, NotEqTok False, QuotedStrTok v]"
| "leaf_tokens (KRegex k (Some r)) = [StrTok k, RegexOpTok, RegexStrTok (regexLexeme r)]"
| "leaf_tokens (KNotRegex k (Some r)) = [NegTok, LParenTok, StrTok k, RegexOpTok, RegexStrTok (regexLexeme r), RParenTok]"
| "leaf_tokens (KIn k w) = [StrTok k, InTok, QuotedStrTok w]"
| "leaf_tokens (KNotIn k w) = [StrTok k, NotTok, InTok, QuotedStrTok w]"
| "leaf_tokens e = []"

text \<open>The expression a leaf is read back as: its constants are replaced, its stored negation is not
  printed.\<close>

fun reread :: "host \<Rightarrow> expr \<Rightarrow> expr" where
  "reread h (KDefined k n) = ContextKeyDefinedExpr_create h k None"
| "reread h (KNot k n) = ContextKeyNotExpr_create h k None"
| "reread h (KEquals k v n) = ContextKeyEqualsExpr_create h k v None"
| "reread h (KNotEquals k v n) = ContextKeyNotEqualsExpr_create h k v None"
| "reread h e = e"

section \<open>Scanning a serialized expression\<close>

lemma serialize_leaf:
  "serialize h KFalse = ''false''" "serialize h KTrue = ''true''" "serialize h (KDefined k n) = k"
  "serialize h (KNot k n) = ''!'' @ k"
  "serialize h (KEquals k (Str v) n) = k @ '' == '' @ [CHR 39] @ v @ [CHR 39]"
  "serialize h (KNotEquals k (Str v) n) = k @ '' != '' @ [CHR 39] @ v @ [CHR 39]"
  "serialize h (KRegex k (Some r)) = k @ '' =~ '' @ regexLexeme r"
  "serialize h (KNotRegex k (Some r)) = ''!('' @ k @ '' =~ '' @ regexLexeme r @ '')''"
  "serialize h (KIn k w) = k @ '' in '' @ [CHR 39] @ w @ [CHR 39]"
  "serialize h (KNotIn k w) = k @ '' not in '' @ [CHR 39] @ w @ [CHR 39]"
  by (simp_all add: serialize_def class_defs Let_def regexLexeme_def)

lemma serialize_nodes:
  "serialize h (KAnd es n) = join_str '' && '' (map (serialize h) es)"
  "serialize h (KOr es n) = join_str '' || '' (map (serialize h) es)"
proof -
  have "serialize h = (\<lambda>x. serialize_m (methods x) h)" by (rule ext) (simp add: serialize_def)
  then show "serialize h (KAnd es n) = join_str '' && '' (map (serialize h) es)"
    "serialize h (KOr es n) = join_str '' || '' (map (serialize h) es)"
    by (simp_all add: ContextKeyAndExpr_def ContextKeyOrExpr_def Let_def comp_def)
qed

lemma printable_regex: "regexp_readable E r \<Longrightarrow> printable (RegexStrTok (regexLexeme r))"
  unfolding printable.simps
  by (rule exI [of _ "source r @ ''/''"], rule exI [of _ "flags r"])
     (auto simp: regexp_readable_def regexLexeme_def regexFlags_def)

lemma delimited_blank [simp]: "delimited (CHR 32 # v)" "delimited (CHR '')'' # v)"
  by (simp_all add: delimited_def)

text \<open>\<open>kinds_print\<close> for each kind of token that occurs.\<close>

lemma kinds_pieces:
  "wordy k \<Longrightarrow> delimited v \<Longrightarrow> kinds (k @ v) = StrTok k # kinds v"
  "CHR 39 \<notin> set q \<Longrightarrow> kinds (CHR 39 # q @ CHR 39 # v) = QuotedStrTok q # kinds v"
  "delimited v \<Longrightarrow> kinds (''true'' @ v) = TrueTok # kinds v"
  "delimited v \<Longrightarrow> kinds (''false'' @ v) = FalseTok # kinds v"
  "kinds (''=='' @ CHR 32 # v) = EqTok False # kinds v"
  "kinds (''!='' @ CHR 32 # v) = NotEqTok False # kinds v"
  "kinds (''=~'' @ CHR 32 # v) = RegexOpTok # kinds v"
  "kinds (''in'' @ CHR 32 # v) = InTok # kinds v"
  "kinds (''not'' @ CHR 32 # v) = NotTok # kinds v"
  "kinds (''&&'' @ CHR 32 # v) = AndTok # kinds v"
  "kinds (''||'' @ CHR 32 # v) = OrTok # kinds v"
  "kinds (CHR ''('' # v) = LParenTok # kinds v"
  "kinds (CHR '')'' # v) = RParenTok # kinds v"
  "v \<noteq> [] \<Longrightarrow> hd v \<noteq> CHR ''='' \<Longrightarrow> kinds (CHR ''!'' # v) = NegTok # kinds v"
  using kinds_print [of "StrTok k" v] kinds_print [of "QuotedStrTok q" v]
    kinds_print [of TrueTok v] kinds_print [of FalseTok v] kinds_print [of "EqTok False" "CHR 32 # v"]
    kinds_print [of "NotEqTok False" "CHR 32 # v"] kinds_print [of RegexOpTok "CHR 32 # v"] kinds_print [of InTok "CHR 32 # v"]
    kinds_print [of NotTok "CHR 32 # v"] kinds_print [of AndTok "CHR 32 # v"] kinds_print [of OrTok "CHR 32 # v"]
    kinds_print [of LParenTok v] kinds_print [of RParenTok v] kinds_print [of NegTok v]
  by (simp_all add: follows_def)

lemma kinds_regex:
  "regexp_readable E r \<Longrightarrow> delimited v \<Longrightarrow> kinds (regexLexeme r @ v) = RegexStrTok (regexLexeme r) # kinds v"
  using kinds_print [of "RegexStrTok (regexLexeme r)" v] printable_regex [of E r]
  by (simp add: follows_def del: printable.simps(3))

lemma wordy_hd: "wordy k \<Longrightarrow> hd (k @ v) \<noteq> CHR ''='' \<and> k @ v \<noteq> []"
  by (cases k) (auto simp: wordy_def operators_def)

lemma kinds_leaf:
  assumes "serializable_leaf E e" and "delimited v"
  shows "kinds (serialize h e @ v) = leaf_tokens e @ kinds v"
  using assms kinds_pieces [simplified] kinds_regex [of E] wordy_hd
  by (cases "(E, e)" rule: serializable_leaf.cases) (simp_all add: serialize_leaf)

fun separated_tokens :: "TokenType \<Rightarrow> TokenType list list \<Rightarrow> TokenType list" where
  "separated_tokens ty [] = []"
| "separated_tokens ty [x] = x"
| "separated_tokens ty (x # xs) = x @ ty # separated_tokens ty xs"

lemma kinds_join:
  assumes "\<And>e v. e \<in> set es \<Longrightarrow> delimited v \<Longrightarrow> kinds (f e @ v) = toks e @ kinds v" and "delimited v"
  shows "kinds (join_str '' && '' (map f es) @ v) = separated_tokens AndTok (map toks es) @ kinds v"
    and "kinds (join_str '' || '' (map f es) @ v) = separated_tokens OrTok (map toks es) @ kinds v"
proof -
  show "kinds (join_str '' && '' (map f es) @ v) = separated_tokens AndTok (map toks es) @ kinds v" using assms
    by (induction es rule: induct_list012) (simp_all add: kinds_pieces [simplified])
  show "kinds (join_str '' || '' (map f es) @ v) = separated_tokens OrTok (map toks es) @ kinds v" using assms
    by (induction es rule: induct_list012) (simp_all add: kinds_pieces [simplified])
qed

section \<open>Parsing known tokens\<close>

definition upcoming :: "Parser \<Rightarrow> TokenType list" where
  "upcoming s = map tokenType (drop (ps_current s) (ps_tokens s))"

definition moved :: "Parser \<Rightarrow> nat \<Rightarrow> Parser" where
  "moved s n = s\<lparr>ps_current := ps_current s + n\<rparr>"

lemma moved_simps [simp]:
  "moved s 0 = s" "moved (moved s m) n = moved s (m + n)" "upcoming (moved s n) = drop n (upcoming s)"
  by (simp_all add: moved_def upcoming_def drop_map add.commute)

lemma peek_upcoming: "upcoming s = ty # rest \<Longrightarrow> tokenType (Parser_peek s) = ty"
  by (cases "ps_current s < length (ps_tokens s)")
     (auto simp: upcoming_def Parser_peek_def Cons_nth_drop_Suc [symmetric])

lemma advance_upcoming: "upcoming s = ty # rest \<Longrightarrow> ty \<noteq> EOFTok \<Longrightarrow> Parser_advance s = moved s 1"
  by (simp add: Parser_advance_def Parser_isAtEnd_def peek_upcoming moved_def)

lemma matchOne_upcoming:
  "upcoming s = ty # rest \<Longrightarrow> ty \<noteq> EOFTok \<Longrightarrow> Parser_matchOne ty s = (True, moved s 1)"
  "upcoming s = ty' # rest \<Longrightarrow> ty' \<noteq> ty \<Longrightarrow> Parser_matchOne ty s = (False, s)"
  by (simp_all add: Parser_matchOne_def Parser_check_def peek_upcoming advance_upcoming)

lemma previous_moved: "upcoming s = ty # rest \<Longrightarrow> tokenType (Parser_previous (moved s 1)) = ty"
  using peek_upcoming [of s ty rest]
  by (cases "ps_current s < length (ps_tokens s)") (auto simp: Parser_previous_def Parser_peek_def moved_def upcoming_def)

text \<open>A parser that reads some tokens, when a token of a set follows, and has a fixed result.\<close>

definition item :: "'a parse \<Rightarrow> TokenType list \<Rightarrow> 'a \<Rightarrow> TokenType set \<Rightarrow> bool" where
  "item p toks v stop \<longleftrightarrow> (\<forall>s rest. upcoming s = toks @ rest \<longrightarrow> rest \<noteq> [] \<longrightarrow> hd rest \<in> stop \<longrightarrow>
     p s = (Inr v, moved s (length toks)))"

lemma itemD: "item p toks v stop \<Longrightarrow> upcoming s = toks @ rest \<Longrightarrow> rest \<noteq> [] \<Longrightarrow> hd rest \<in> stop \<Longrightarrow>
   p s = (Inr v, moved s (length toks))"
  by (simp add: item_def)

lemma item_operand_loop:
  assumes p: "\<And>x. x \<in> set xs \<Longrightarrow> item p (toks x) (val x) stop" and ty: "ty \<in> stop" "ty \<noteq> EOFTok"
  shows "upcoming s = concat (map (\<lambda>x. ty # toks x) xs) @ rest \<Longrightarrow> rest \<noteq> [] \<Longrightarrow> hd rest \<in> stop - {ty} \<Longrightarrow> length xs < n \<Longrightarrow>
    operand_loop n ty p es s = (Inr (es @ map val xs), moved s (length (concat (map (\<lambda>x. ty # toks x) xs))))"
  using p
proof (induction xs arbitrary: n es s)
  case Nil
  then obtain m ty' rest' where "n = Suc m" "rest = ty' # rest'" "ty' \<noteq> ty" by (cases n; cases rest) auto
  then show ?case using Nil.prems(1) by (simp add: matchOne_upcoming(2) [of s ty' rest'])
next
  case (Cons x xs)
  let ?more = "concat (map (\<lambda>x. ty # toks x) xs) @ rest"
  obtain m where n: "n = Suc m" using Cons.prems(4) by (cases n) auto
  have up: "upcoming s = ty # toks x @ ?more" using Cons.prems(1) by simp
  have more: "?more \<noteq> []" "hd ?more \<in> stop" using Cons.prems(2,3) ty(1) by (cases xs; simp)+
  have px: "p (moved s 1) = (Inr (val x), moved s (1 + length (toks x)))"
    using itemD [OF Cons.prems(5), of x "moved s 1" ?more] more by (simp add: up)
  have "operand_loop m ty p (es @ [val x]) (moved s (1 + length (toks x))) =
      (Inr ((es @ [val x]) @ map val xs), moved (moved s (1 + length (toks x))) (length (concat (map (\<lambda>x. ty # toks x) xs))))"
    by (rule Cons.IH) (use Cons.prems n in \<open>simp_all add: up\<close>)
  then show ?case by (simp add: n matchOne_upcoming(1) [OF up ty(2)] bindp_def px [simplified])
qed

lemma separated_tokens_concat: "separated_tokens ty (x # xs) = x @ concat (map (\<lambda>y. ty # y) xs)"
  by (induction xs arbitrary: x) simp_all

lemma item_operands:
  assumes p: "\<And>x. x \<in> set xs \<Longrightarrow> item p (toks x) (val x) stop" and ty: "ty \<in> stop" "ty \<noteq> EOFTok"
    and xs: "xs \<noteq> []" "length xs \<le> n" and v: "if length xs = 1 then v = val (xs ! 0) else op (map val xs) = Inr v"
  shows "item (bindp p (\<lambda>e. bindp (operand_loop n ty p [e]) (\<lambda>es. if length es = 1 then returnp (es ! 0) else liftp (op es))))
    (separated_tokens ty (map toks xs)) v (stop - {ty})"
  unfolding item_def
proof (intro allI impI)
  fix s rest
  assume s: "upcoming s = separated_tokens ty (map toks xs) @ rest" "rest \<noteq> []" "hd rest \<in> stop - {ty}"
  obtain x ys where x: "xs = x # ys" using xs(1) by (cases xs) auto
  let ?more = "concat (map (\<lambda>y. ty # toks y) ys)"
  have toks: "separated_tokens ty (map toks xs) = toks x @ ?more"
    by (simp add: x separated_tokens_concat comp_def)
  have h: "?more @ rest \<noteq> []" "hd (?more @ rest) \<in> stop" using s(2,3) ty(1) by (cases ys; simp)+
  have px: "p s = (Inr (val x), moved s (length (toks x)))"
    by (rule itemD [OF p _ h]) (use s(1) toks in \<open>simp_all add: x\<close>)
  have "operand_loop n ty p [val x] (moved s (length (toks x))) =
      (Inr ([val x] @ map val ys), moved (moved s (length (toks x))) (length ?more))"
    by (rule item_operand_loop [OF p ty]) (use s xs(2) toks in \<open>simp_all add: x\<close>)
  then show "bindp p (\<lambda>e. bindp (operand_loop n ty p [e]) (\<lambda>es. if length es = 1 then returnp (es ! 0) else liftp (op es))) s =
      (Inr v, moved s (length (separated_tokens ty (map toks xs))))"
    using v toks by (simp add: bindp_def px x returnp_def liftp_def split: if_splits)
qed

lemma item_expr_single:
  assumes "\<And>px. item (Parser_term E px) toks v {AndTok, OrTok, RParenTok, EOFTok}"
  shows "item (Parser_expr E (Suc n)) toks v {RParenTok, EOFTok}"
proof -
  have "item (Parser_and E (Suc n) (Parser_expr E n)) (separated_tokens AndTok (map (\<lambda>_. toks) [()])) v ({AndTok, OrTok, RParenTok, EOFTok} - {AndTok})"
    unfolding Parser_and_def by (rule item_operands [where val = "\<lambda>_. v"]) (simp_all add: assms)
  then have "item (Parser_and E (Suc n) (Parser_expr E n)) toks v {OrTok, RParenTok, EOFTok}"
    by (simp add: insert_Diff_if)
  then have "item (Parser_or E (Suc n) (Parser_expr E n)) (separated_tokens OrTok (map (\<lambda>_. toks) [()])) v ({OrTok, RParenTok, EOFTok} - {OrTok})"
    unfolding Parser_or_def by (intro item_operands [where val = "\<lambda>_. v"]) simp_all
  then show ?thesis by (simp add: item_def insert_Diff_if)
qed

text \<open>The same steps at a distance from a state with known tokens.\<close>

lemma drop_nth: "n < length xs \<Longrightarrow> drop n xs = xs ! n # drop (Suc n) xs"
  by (rule Cons_nth_drop_Suc [symmetric])

lemma peek_moved: "n < length (upcoming s) \<Longrightarrow> tokenType (Parser_peek (moved s n)) = upcoming s ! n"
  using peek_upcoming [of "moved s n"] by (simp add: drop_nth)

lemma advance_moved:
  "n < length (upcoming s) \<Longrightarrow> upcoming s ! n \<noteq> EOFTok \<Longrightarrow> Parser_advance (moved s n) = moved s (Suc n)"
  using advance_upcoming [of "moved s n"] by (simp add: drop_nth)

lemma matchOne_moved:
  "n < length (upcoming s) \<Longrightarrow> ty \<noteq> EOFTok \<Longrightarrow>
   Parser_matchOne ty (moved s n) = (if upcoming s ! n = ty then (True, moved s (Suc n)) else (False, moved s n))"
  by (simp add: Parser_matchOne_def Parser_check_def peek_moved advance_moved)

lemma value_moved:
  "n < length (upcoming s) \<Longrightarrow> upcoming s ! n = QuotedStrTok q \<Longrightarrow> Parser_value (moved s n) = (q, moved s (Suc n))"
  by (simp add: Parser_value_def peek_moved advance_moved)

lemma previous_moved_Suc:
  "n < length (upcoming s) \<Longrightarrow> tokenType (Parser_previous (moved s (Suc n))) = upcoming s ! n"
  using previous_moved [of "moved s n"] by (simp add: drop_nth)

lemma lastIndexOf_lexeme:
  assumes "CHR ''/'' \<notin> set f"
  shows "lastIndexOf (CHR ''/'') (p @ ''/'' @ f) = int (length p)"
proof -
  have "takeWhile (\<lambda>x. x \<noteq> CHR ''/'') (rev f @ CHR ''/'' # rev p) = rev f" using assms by (subst takeWhile_append2) auto
  then show ?thesis by (simp add: lastIndexOf_def)
qed

lemma regexOfLexeme_readable:
  assumes "regexp_readable E r"
  shows "regexOfLexeme E (regexLexeme r) = Some r"
proof -
  have f: "CHR ''/'' \<notin> set (flags r)" "\<forall>x \<in> set (flags r). x \<noteq> CHR ''g'' \<and> x \<noteq> CHR ''y''"
    using assms by (auto simp: regexp_readable_def)
  have l: "lastIndexOf (CHR ''/'') (regexLexeme r) = 1 + int (length (source r))"
    using lastIndexOf_lexeme [OF f(1), of "CHR ''/'' # source r"] by (simp add: regexLexeme_def)
  have "js_substring (regexLexeme r) 1 (1 + int (length (source r))) = source r"
    by (simp add: regexLexeme_def js_substring_def clampIdx_def nat_add_distrib)
  moreover have "js_substring_from (regexLexeme r) (2 + int (length (source r))) = flags r"
    by (simp add: regexLexeme_def js_substring_from_def clampIdx_def nat_add_distrib)
  moreover have "Parser_removeFlagsGY (flags r) = flags r" using f(2) by (auto simp: Parser_removeFlagsGY_def filter_id_conv)
  moreover have "1 + int (length (source r)) = int (length (regexLexeme r)) - 1 \<longleftrightarrow> flags r = []" by (auto simp: regexLexeme_def)
  ultimately show ?thesis using assms by (cases "flags r = []") (simp_all add: regexOfLexeme_def Let_def l regexp_readable_def)
qed

lemma term_leaf:
  assumes E: "\<not> regexParsingWithErrorRecovery E" and e: "serializable_leaf E e" and nr: "\<And>k r. e \<noteq> KNotRegex k r"
  shows "item (Parser_term E px) (leaf_tokens e) (Some (reread (pe_host E) e)) {AndTok, OrTok, RParenTok, EOFTok}"
  unfolding item_def
proof (intro allI impI)
  fix s rest assume s: "upcoming s = leaf_tokens e @ rest" "rest \<noteq> []" "hd rest \<in> {AndTok, OrTok, RParenTok, EOFTok}"
  then obtain ty rest' where rest: "rest = ty # rest'" "ty \<in> {AndTok, OrTok, RParenTok, EOFTok}" by (cases rest) auto
  note up = s(1) [unfolded rest(1)]
  note moves = peek_moved advance_moved matchOne_moved value_moved previous_moved_Suc
  have "Parser_term E px (moved s 0) = (Inr (Some (reread (pe_host E) e)), moved s (length (leaf_tokens e)))"
    using e nr up rest(2)
    by (cases "(E, e)" rule: serializable_leaf.cases)
       (auto simp: Parser_term_def Parser_primary_def Parser_key_def Parser_regex_def Parser_regexStrict_def Parser_consume_def
          Parser_check_def bindp_def returnp_def moves E regexOfLexeme_readable nth_append simp del: moved_simps(1))
  then show "Parser_term E px s = (Inr (Some (reread (pe_host E) e)), moved s (length (leaf_tokens e)))" by simp
qed

lemma item_leaf:
  assumes E: "\<not> regexParsingWithErrorRecovery E" and e: "serializable_leaf E e"
  shows "item (Parser_term E (Parser_expr E (Suc n))) (leaf_tokens e) (Some (reread (pe_host E) e)) {AndTok, OrTok, RParenTok, EOFTok}"
proof (cases "\<exists>k r. e = KNotRegex k r")
  case False
  then show ?thesis using term_leaf [OF E e] by blast
next
  case True
  then obtain k r' where k': "e = KNotRegex k r'" by blast
  obtain r where k: "e = KNotRegex k (Some r)" using e k' by (cases r') simp_all
  have l: "serializable_leaf E (KRegex k (Some r))" using e by (simp add: k)
  have i: "item (Parser_expr E (Suc n)) (leaf_tokens (KRegex k (Some r))) (Some (reread (pe_host E) (KRegex k (Some r)))) {RParenTok, EOFTok}"
    by (rule item_expr_single) (rule term_leaf [OF E l], simp)
  show ?thesis unfolding item_def
  proof (intro allI impI)
    fix s rest assume s: "upcoming s = leaf_tokens e @ rest"
    have px: "Parser_expr E (Suc n) (moved s 2) = (Inr (Some (KRegex k (Some r))), moved s 5)"
      using itemD [OF i, of "moved s 2" "RParenTok # rest"] by (simp add: s k)
    have "Parser_term E (Parser_expr E (Suc n)) (moved s 0) = (Inr (Some e), moved s 6)"
      using s by (simp add: Parser_term_def bindp_def px [simplified numeral_2_eq_2] Parser_consume_def Parser_check_def peek_moved advance_moved
          matchOne_moved k liftp_def negate_cases returnp_def del: moved_simps(1) Parser_expr.simps)
    then show "Parser_term E (Parser_expr E (Suc n)) s = (Inr (Some (reread (pe_host E) e)), moved s (length (leaf_tokens e)))"
      by (simp add: k eval_nat_numeral del: Parser_expr.simps)
  qed
qed

section \<open>Meaning\<close>

fun fresh :: "expr \<Rightarrow> expr" where
  "fresh (KDefined k n) = KDefined k None"
| "fresh (KNot k n) = KNot k None"
| "fresh (KEquals k v n) = KEquals k v None"
| "fresh (KNotEquals k v n) = KNotEquals k v None"
| "fresh e = e"

lemma reread_meaning:
  assumes "serializable_leaf E e" and "ok h c e"
  shows "ok h c (reread h e)" and "evaluate h c (reread h e) = evaluate h c e"
proof -
  have f: "ok h c (fresh e)"
    by (rule ok_plain) (use assms(1) ok_leaf [OF assms(2)] in \<open>cases "(E, e)" rule: serializable_leaf.cases; simp\<close>)+
  have "substituteConstants h o1 (fresh e) = Inr (Some (reread h e))" for o1
    using assms(1) by (cases "(E, e)" rule: serializable_leaf.cases)
      (simp_all add: substituteConstants_cases ContextKeyDefinedExpr_create_def ContextKeyNotExpr_create_def
        ContextKeyEqualsExpr_create_def ContextKeyNotEqualsExpr_create_def split: option.split)
  from substitute_leaf_sound [OF f this] have s: "same_meaning h c (fresh e) (Some (reread h e))"
    using assms(1) by (cases "(E, e)" rule: serializable_leaf.cases) simp_all
  moreover have "evaluate h c (fresh e) = evaluate h c e" by (cases e) simp_all
  ultimately show "ok h c (reread h e)" "evaluate h c (reread h e) = evaluate h c e" by (simp_all add: same_meaning_def)
qed

lemma reread_lit:
  assumes "serializable_leaf E e" and "terminal e"
  shows "lit (reread h e)"
proof (rule lit_plain)
  show "terminal (reread h e)" using assms(2) by (cases e) (simp_all add: create_terminal)
  show "memo (reread h e) = None" 
    using assms create_memo(1,2) [of h _ None] create_memo(3,4) [of h _ _ None]
    by (cases "(E, e)" rule: serializable_leaf.cases) simp_all
qed

section \<open>Clauses and their disjunctions\<close>

text \<open>An expression reads back as another when that has the same meaning wherever it is well behaved.\<close>

definition reads_as :: "host \<Rightarrow> expr \<Rightarrow> expr \<Rightarrow> bool" where
  "reads_as h e e' \<longleftrightarrow> dnf e' \<and> (\<forall>c. ok h c e \<longrightarrow> ok h c e' \<and> evaluate h c e' = evaluate h c e)"

lemma reads_as_leaf: "serializable_leaf E e \<Longrightarrow> terminal e \<Longrightarrow> reads_as h e (reread h e)"
  using reread_lit [of E e h] reread_meaning [of E e h] by (auto simp: reads_as_def intro: clause_lit clause_dnf)

lemma reads_as_all_ok:
  "\<forall>x \<in> set es. reads_as h x (f x) \<and> ok h c x \<Longrightarrow>
   all_ok h c (map (\<lambda>x. Some (f x)) es) \<and>
   conj_of h c (map (\<lambda>x. Some (f x)) es) = (\<forall>x \<in> set es. evaluate h c x) \<and>
   disj_of h c (map (\<lambda>x. Some (f x)) es) = (\<exists>x \<in> set es. evaluate h c x)"
  by (induction es) (auto simp: reads_as_def)

lemma reads_as_and:
  assumes "es \<noteq> []" and f: "\<forall>x \<in> set es. reads_as h x (f x)"
  shows "\<exists>e'. and_create (ck_ops h (fuel + 4)) (map (\<lambda>x. Some (f x)) es) None True = Inr (Some e') \<and> reads_as h (KAnd es n) e'"
proof -
  let ?arr = "map (\<lambda>x. Some (f x)) es"
  have fuel: "fuel + 4 = Suc (Suc (Suc (Suc fuel)))" by simp
  have d: "all_some dnf ?arr" using f by (auto simp: all_some_def reads_as_def)
  obtain r where r: "and_create (ck_ops h (fuel + 4)) ?arr None True = Inr r" "\<forall>e. r = Some e \<longrightarrow> dnf e"
    using and_create_dnfs [OF d, of None h fuel True] unfolding fuel by auto
  obtain x where x: "x \<in> set es" using assms(1) by (cases es) auto
  have "r \<noteq> None"
    by (rule and_create_defined [OF r(1) [unfolded fuel], of "f x"]) (use x f in \<open>auto simp: reads_as_def\<close>)
  then obtain e' where e': "r = Some e'" by blast
  have "ok h c e' \<and> evaluate h c e' = evaluate h c (KAnd es n)" if c: "ok h c (KAnd es n)" for c
  proof -
    have "all_ok h c ?arr" "conj_of h c ?arr = evaluate h c (KAnd es n)"
      using reads_as_all_ok [of es h f c] f ok_child [OF c] by simp_all
    with ops_sound_and [OF ck_ops_sound r(1)] show ?thesis by (simp add: e' and_result_def)
  qed
  then show ?thesis using r e' by (auto simp: reads_as_def)
qed

lemma reads_as_or:
  assumes "es \<noteq> []" and f: "\<forall>x \<in> set es. reads_as h x (f x)"
  shows "\<exists>e'. or_create (ck_ops h (fuel + 4)) (map (\<lambda>x. Some (f x)) es) None True = Inr (Some e') \<and> reads_as h (KOr es n) e'"
proof -
  let ?arr = "map (\<lambda>x. Some (f x)) es"
  have fuel: "fuel + 4 = Suc (Suc (Suc (Suc fuel)))" by simp
  have "\<forall>e \<in> set (map f es). dnf e" using f by (auto simp: reads_as_def)
  from or_create_dnfs_Some [OF this, of h "Suc (Suc fuel)" None True]
  obtain e' where e': "or_create (ck_ops h (fuel + 4)) ?arr None True = Inr (Some e')" "dnf e'"
    using assms(1) unfolding fuel by (auto simp: comp_def)
  have "ok h c e' \<and> evaluate h c e' = evaluate h c (KOr es n)" if c: "ok h c (KOr es n)" for c
  proof -
    have "all_ok h c ?arr" "disj_of h c ?arr = evaluate h c (KOr es n)"
      using reads_as_all_ok [of es h f c] f ok_child [OF c] by simp_all
    with ops_sound_or [OF ck_ops_sound e'(1)] show ?thesis by (simp add: or_result_def)
  qed
  then show ?thesis using e' by (auto simp: reads_as_def)
qed

lemma reads_as_single: "reads_as h x e' \<Longrightarrow> reads_as h (KAnd [x] n) e'" "reads_as h x e' \<Longrightarrow> reads_as h (KOr [x] n) e'"
  using ok_child by (fastforce simp: reads_as_def)+


section \<open>Reading back\<close>

text \<open>The operands of a conjunction and of a disjunction; another expression is its only operand.\<close>

fun conjuncts :: "expr \<Rightarrow> expr list" where
  "conjuncts (KAnd es n) = es" | "conjuncts e = [e]"

fun disjuncts :: "expr \<Rightarrow> expr list" where
  "disjuncts (KOr es n) = es" | "disjuncts e = [e]"

text \<open>The expressions that are read back: a leaf, or a disjunction of conjunctions of leaves that are
  no \<open>in\<close> or \<open>not in\<close> test (the code orders these behind the disjunctions, \<open>Context_Key_DNF\<close>).\<close>

definition serializable :: "parser_env \<Rightarrow> expr \<Rightarrow> bool" where
  "serializable E e \<longleftrightarrow> serializable_leaf E e \<or>
     (disjuncts e \<noteq> [] \<and> (\<forall>d \<in> set (disjuncts e). conjuncts d \<noteq> [] \<and>
        (\<forall>l \<in> set (conjuncts d). serializable_leaf E l \<and> terminal l)))"

definition clause_tokens :: "expr \<Rightarrow> TokenType list" where
  "clause_tokens e = separated_tokens AndTok (map leaf_tokens (conjuncts e))"

definition expr_tokens :: "expr \<Rightarrow> TokenType list" where
  "expr_tokens e = separated_tokens OrTok (map clause_tokens (disjuncts e))"

lemma serialize_operands:
  "serialize h e = join_str '' && '' (map (serialize h) (conjuncts e))"
  "serialize h e = join_str '' || '' (map (serialize h) (disjuncts e))"
  by (cases e; simp add: serialize_nodes)+

lemma kinds_clause:
  assumes "\<forall>l \<in> set (conjuncts e). serializable_leaf E l" and "delimited v"
  shows "kinds (serialize h e @ v) = clause_tokens e @ kinds v"
  using assms unfolding clause_tokens_def serialize_operands(1) [of h e]
  by (intro kinds_join(1)) (auto intro: kinds_leaf)

lemma kinds_expr:
  assumes "\<forall>d \<in> set (disjuncts e). \<forall>l \<in> set (conjuncts d). serializable_leaf E l"
  shows "kinds (serialize h e) = expr_tokens e @ [EOFTok]"
proof -
  have "kinds (join_str '' || '' (map (serialize h) (disjuncts e)) @ []) = expr_tokens e @ kinds []"
    unfolding expr_tokens_def
    by (rule kinds_join(2), rule kinds_clause [of _ E]) (use assms in \<open>simp_all add: delimited_def\<close>)
  then show ?thesis by (simp add: serialize_operands(2) [of h e])
qed

lemma length_separated:
  "\<forall>x \<in> set xs. x \<noteq> [] \<Longrightarrow> length xs \<le> length (separated_tokens ty xs)"
  by (induction ty xs rule: separated_tokens.induct) (auto simp: Suc_le_eq)

lemma separated_member: "x \<in> set xs \<Longrightarrow> length x \<le> length (separated_tokens ty xs)"
  by (induction ty xs rule: separated_tokens.induct) auto

lemma leaf_tokens_nonempty: "serializable_leaf E e \<Longrightarrow> leaf_tokens e \<noteq> []"
  by (cases "(E, e)" rule: serializable_leaf.cases) simp_all

lemma reads_as_operands:
  "conjuncts e \<noteq> [] \<Longrightarrow> reads_as h (KAnd (conjuncts e) None) v \<Longrightarrow> reads_as h e v"
  "disjuncts e \<noteq> [] \<Longrightarrow> reads_as h (KOr (disjuncts e) None) v \<Longrightarrow> reads_as h e v"
proof -
  have "evaluate h c (KAnd (conjuncts e) None) = evaluate h c e"
    "evaluate h c (KOr (disjuncts e) None) = evaluate h c e" for c by (cases e; simp)+
  moreover have "conjuncts e \<noteq> [] \<Longrightarrow> ok h c e \<Longrightarrow> ok h c (KAnd (conjuncts e) None)"
    "disjuncts e \<noteq> [] \<Longrightarrow> ok h c e \<Longrightarrow> ok h c (KOr (disjuncts e) None)" for c
    using ok_child [of h c e] by (cases e; auto intro: ok_KAnd ok_KOr)+
  ultimately show "conjuncts e \<noteq> [] \<Longrightarrow> reads_as h (KAnd (conjuncts e) None) v \<Longrightarrow> reads_as h e v"
    "disjuncts e \<noteq> [] \<Longrightarrow> reads_as h (KOr (disjuncts e) None) v \<Longrightarrow> reads_as h e v"
    by (auto simp: reads_as_def)
qed

lemma clause_tokens_nonempty:
  "conjuncts e \<noteq> [] \<Longrightarrow> \<forall>l \<in> set (conjuncts e). serializable_leaf E l \<Longrightarrow> clause_tokens e \<noteq> []"
  using leaf_tokens_nonempty [of E] by (cases "conjuncts e") (simp_all add: clause_tokens_def separated_tokens_concat)

text \<open>A clause, read by \<open>_and\<close>, and a disjunction, read by \<open>_or\<close>.\<close>

lemma item_clause:
  assumes E: "\<not> regexParsingWithErrorRecovery E" "pe_ops E = ck_ops (pe_host E) (fuel + 4)"
    and e: "conjuncts e \<noteq> []" "\<forall>l \<in> set (conjuncts e). serializable_leaf E l \<and> terminal l"
    and n: "length (clause_tokens e) \<le> m"
  shows "\<exists>e'. item (Parser_and E m (Parser_expr E (Suc n))) (clause_tokens e) (Some e') {OrTok, RParenTok, EOFTok} \<and>
    reads_as (pe_host E) e e'"
proof -
  let ?h = "pe_host E" and ?es = "conjuncts e"
  have r: "\<forall>x \<in> set ?es. reads_as ?h x (reread ?h x)" using e(2) reads_as_leaf by blast
  obtain e' where e': "and_create (pe_ops E) (map (\<lambda>x. Some (reread ?h x)) ?es) None True = Inr (Some e')"
    "reads_as ?h (KAnd ?es None) e'"
    using reads_as_and [OF e(1) r] unfolding E(2) by blast
  define v where "v = (if length ?es = 1 then reread ?h (?es ! 0) else e')"
  have "length ?es \<le> m"
    using length_separated [of "map leaf_tokens ?es" AndTok] e(2) leaf_tokens_nonempty n by (fastforce simp: clause_tokens_def)
  then have "item (Parser_and E m (Parser_expr E (Suc n))) (clause_tokens e) (Some v) ({AndTok, OrTok, RParenTok, EOFTok} - {AndTok})"
    unfolding Parser_and_def clause_tokens_def
    by (intro item_operands [where val = "\<lambda>x. Some (reread ?h x)"]) (use e e'(1) E(1) item_leaf v_def in auto)
  moreover have "reads_as ?h (KAnd ?es None) v"
    using e' r reads_as_single(1) [of ?h "?es ! 0" v None] by (cases "length ?es = 1") (auto simp: v_def length_Suc_conv)
  ultimately show ?thesis using reads_as_operands(1) [OF e(1)] by (auto simp: insert_Diff_if)
qed

lemma item_disjunction:
  assumes E: "\<not> regexParsingWithErrorRecovery E" "pe_ops E = ck_ops (pe_host E) (fuel + 4)"
    and e: "disjuncts e \<noteq> []" "\<forall>d \<in> set (disjuncts e). conjuncts d \<noteq> [] \<and>
        (\<forall>l \<in> set (conjuncts d). serializable_leaf E l \<and> terminal l)"
    and n: "length (expr_tokens e) \<le> m"
  shows "\<exists>e'. item (Parser_or E m (Parser_expr E (Suc n))) (expr_tokens e) (Some e') {RParenTok, EOFTok} \<and>
    reads_as (pe_host E) e e'"
proof -
  let ?h = "pe_host E" and ?ds = "disjuncts e" and ?stop = "{OrTok, RParenTok, EOFTok}"
  have "\<exists>d'. item (Parser_and E m (Parser_expr E (Suc n))) (clause_tokens d) (Some d') ?stop \<and> reads_as ?h d d'"
    if d: "d \<in> set ?ds" for d
  proof (rule item_clause [OF E])
    show "length (clause_tokens d) \<le> m"
      using separated_member [of "clause_tokens d" "map clause_tokens ?ds" OrTok] d n by (simp add: expr_tokens_def)
  qed (use e(2) d in auto)
  then obtain f where f: "\<And>d. d \<in> set ?ds \<Longrightarrow> item (Parser_and E m (Parser_expr E (Suc n))) (clause_tokens d) (Some (f d)) ?stop"
    "\<forall>d \<in> set ?ds. reads_as ?h d (f d)" by metis
  obtain e' where e': "or_create (pe_ops E) (map (\<lambda>x. Some (f x)) ?ds) None True = Inr (Some e')"
    "reads_as ?h (KOr ?ds None) e'"
    using reads_as_or [OF e(1) f(2)] unfolding E(2) by blast
  define v where "v = (if length ?ds = 1 then f (?ds ! 0) else e')"
  have ne: "clause_tokens d \<noteq> []" if "d \<in> set ?ds" for d
    using clause_tokens_nonempty [of d E] e(2) that by blast
  have "length ?ds \<le> m"
    using length_separated [of "map clause_tokens ?ds" OrTok] ne n by (fastforce simp: expr_tokens_def)
  then have "item (Parser_or E m (Parser_expr E (Suc n))) (expr_tokens e) (Some v) (?stop - {OrTok})"
    unfolding Parser_or_def expr_tokens_def
    by (intro item_operands [where val = "\<lambda>x. Some (f x)"]) (use e e'(1) f(1) v_def in auto)
  moreover have "reads_as ?h (KOr ?ds None) v"
    using e' f(2) reads_as_single(2) [of ?h "?ds ! 0" v None] by (cases "length ?ds = 1") (auto simp: v_def length_Suc_conv)
  ultimately show ?thesis using reads_as_operands(2) [OF e(1)] by (auto simp: insert_Diff_if)
qed

lemma item_expr_leaf:
  assumes "\<not> regexParsingWithErrorRecovery E" and "serializable_leaf E e"
  shows "item (Parser_expr E (length toks + 2)) (leaf_tokens e) (Some (reread (pe_host E) e)) {RParenTok, EOFTok}"
proof -
  have "item (Parser_and E (length toks + 2) (Parser_expr E (Suc (length toks)))) (separated_tokens AndTok (map leaf_tokens [e]))
      (Some (reread (pe_host E) e)) ({AndTok, OrTok, RParenTok, EOFTok} - {AndTok})"
    unfolding Parser_and_def
    by (rule item_operands [where val = "\<lambda>e. Some (reread (pe_host E) e)"]) (simp_all add: item_leaf [OF assms])
  then have "item (Parser_or E (length toks + 2) (Parser_expr E (Suc (length toks)))) (separated_tokens OrTok (map leaf_tokens [e]))
      (Some (reread (pe_host E) e)) ({OrTok, RParenTok, EOFTok} - {OrTok})"
    unfolding Parser_or_def
    by (intro item_operands [where val = "\<lambda>e. Some (reread (pe_host E) e)"]) (simp_all add: insert_Diff_if)
  then show ?thesis by (simp add: item_def insert_Diff_if)
qed

lemma serializable_env: "serializable (E\<lparr>regexParsingWithErrorRecovery := b\<rparr>) e = serializable E e"
proof -
  have "serializable_leaf (E\<lparr>regexParsingWithErrorRecovery := b\<rparr>) l = serializable_leaf E l" for l
    by (cases "(E, l)" rule: serializable_leaf.cases) (simp_all add: regexp_readable_def)
  then show ?thesis by (simp add: serializable_def)
qed

lemma expr_tokens_nonempty:
  "disjuncts e \<noteq> [] \<Longrightarrow> \<forall>d \<in> set (disjuncts e). conjuncts d \<noteq> [] \<and> (\<forall>l \<in> set (conjuncts d). serializable_leaf E l \<and> terminal l) \<Longrightarrow>
   expr_tokens e \<noteq> []"
  using clause_tokens_nonempty [of _ E] by (cases "disjuncts e") (auto simp: expr_tokens_def separated_tokens_concat)

lemma serializable_tokens:
  assumes "serializable E e"
  shows "\<exists>toks. kinds (serialize h e) = toks @ [EOFTok] \<and> toks \<noteq> [] \<and>
    (pe_host E = h \<longrightarrow> pe_ops E = ck_ops h (fuel + 4) \<longrightarrow> \<not> regexParsingWithErrorRecovery E \<longrightarrow> (\<exists>e'.
      item (Parser_expr E (length toks + 2)) toks (Some e') {RParenTok, EOFTok} \<and>
      (\<forall>c. ok h c e \<longrightarrow> ok h c e' \<and> evaluate h c e' = evaluate h c e)))"
proof (cases "serializable_leaf E e")
  case True
  have "kinds (serialize h e @ []) = leaf_tokens e @ kinds []" by (rule kinds_leaf [OF True]) (simp add: delimited_def)
  moreover have "item (Parser_expr E (length (leaf_tokens e) + 2)) (leaf_tokens e) (Some (reread h e)) {RParenTok, EOFTok}"
    if "pe_host E = h" "\<not> regexParsingWithErrorRecovery E"
    using item_expr_leaf [OF that(2) True] that(1) by simp
  ultimately show ?thesis using leaf_tokens_nonempty [OF True] reread_meaning [OF True] by (intro exI [of _ "leaf_tokens e"]) auto
next
  case False
  then have e: "disjuncts e \<noteq> []" "\<forall>d \<in> set (disjuncts e). conjuncts d \<noteq> [] \<and>
      (\<forall>l \<in> set (conjuncts d). serializable_leaf E l \<and> terminal l)"
    using assms by (auto simp: serializable_def)
  have k: "kinds (serialize h e) = expr_tokens e @ [EOFTok]" by (rule kinds_expr [of _ E]) (use e(2) in blast)
  have ne: "expr_tokens e \<noteq> []" using expr_tokens_nonempty e by blast
  have "\<exists>e'. item (Parser_expr E (length (expr_tokens e) + 2)) (expr_tokens e) (Some e') {RParenTok, EOFTok} \<and>
      (\<forall>c. ok h c e \<longrightarrow> ok h c e' \<and> evaluate h c e' = evaluate h c e)"
    if E: "pe_host E = h" "pe_ops E = ck_ops h (fuel + 4)" "\<not> regexParsingWithErrorRecovery E"
  proof -
    obtain e' where "item (Parser_or E (length (expr_tokens e) + 2) (Parser_expr E (Suc (length (expr_tokens e))))) (expr_tokens e) (Some e') {RParenTok, EOFTok}"
      "reads_as h e e'"
      using item_disjunction [OF E(3) _ e, of fuel "length (expr_tokens e) + 2" "length (expr_tokens e)"] E by auto
    then show ?thesis by (auto simp: item_def reads_as_def)
  qed
  then show ?thesis using k ne by blast
qed

lemma parse_item:
  assumes "kinds v = toks @ [EOFTok]" and "v \<noteq> []" and "item (Parser_expr E (length toks + 2)) toks (Some e) {RParenTok, EOFTok}"
  shows "\<exists>s. Parser_parse E v s0 = (Inr (Some e), s) \<and> ps_errors s = []"
proof -
  obtain tokens sc where sc: "Scanner_scan (Scanner_reset v) = (tokens, sc)" by fastforce
  have k: "map tokenType tokens = toks @ [EOFTok]" using Scanner_scan_lex [of v] assms(1) by (simp add: sc kinds_def)
  have n: "length tokens = Suc (length toks)" using arg_cong [OF k, of length] by simp
  define s where "s = s0\<lparr>ps_scanner := sc, ps_tokens := tokens, ps_current := 0, ps_errors := []\<rparr>"
  have up: "upcoming s = toks @ [EOFTok]" by (simp add: upcoming_def s_def k)
  have p: "Parser_expr E (length tokens + 1) s = (Inr (Some e), moved s (length toks))"
    using itemD [OF assms(3) up] by (simp add: n)
  have "Parser_isAtEnd (moved s (length toks))" by (simp add: Parser_isAtEnd_def peek_moved up)
  then have "Parser_parse E v s0 = (Inr (Some e), moved s (length toks))"
    using assms(2) p by (simp add: Parser_parse_def sc s_def [symmetric])
  then show ?thesis by (simp add: moved_def s_def)
qed

text \<open>C13. \<open>deserialize\<close> reads a serialized expression back without errors, and the expression read has the
  meaning of the serialized one in every context in which that is well behaved: for the constants, a
  single test of a key (a key, \<open>!\<close>, \<open>==\<close>, \<open>!=\<close>, \<open>=~\<close>, \<open>in\<close>, \<open>not in\<close>), and disjunctions of conjunctions of such
  tests other than \<open>in\<close> and \<open>not in\<close>. Keys are words of the scanner, values hold no quote, and the
  constructor rebuilds a regular expression from its source and its flags.\<close>

theorem ContextKeyExpr_deserialize_serialize:
  assumes "pe_ops E = ck_ops (pe_host E) (fuel + 4)" and "serializable E e"
  shows "\<exists>e' s. ContextKeyExpr_deserialize E (Some (serialize (pe_host E) e)) s0 = (Inr (Some e'), s) \<and> ps_errors s = [] \<and>
    (\<forall>c. ok (pe_host E) c e \<longrightarrow> ok (pe_host E) c e' \<and> evaluate (pe_host E) c e' = evaluate (pe_host E) c e)"
proof -
  let ?E = "E\<lparr>regexParsingWithErrorRecovery := False\<rparr>" and ?h = "pe_host E"
  have "serializable ?E e" using assms(2) by (simp add: serializable_env)
  from serializable_tokens [OF this, of ?h fuel] obtain toks e' where
    t: "kinds (serialize ?h e) = toks @ [EOFTok]" "toks \<noteq> []" "item (Parser_expr ?E (length toks + 2)) toks (Some e') {RParenTok, EOFTok}"
    "\<forall>c. ok ?h c e \<longrightarrow> ok ?h c e' \<and> evaluate ?h c e' = evaluate ?h c e"
    using assms(1) by auto
  have "serialize ?h e \<noteq> []" using t(1,2) by (metis kinds_Nil append_eq_Cons_conv append_is_Nil_conv not_Cons_self2)
  from parse_item [OF t(1) this t(3), of s0] show ?thesis using t(4) by (auto simp: ContextKeyExpr_deserialize_def)
qed

theorem ContextKeyExpr_deserialize_serialize_witness:
  "\<exists>e' s. ContextKeyExpr_deserialize plain_env (Some (serialize (pe_host plain_env)
      (KOr [KAnd [KDefined ''a'' None, KNotEquals ''b'' (Str ''x y'') None] None, KNot ''isMac'' None] None))) Parser_new = (Inr (Some e'), s) \<and>
    ps_errors s = [] \<and>
    (\<forall>c. ok (pe_host plain_env) c (KOr [KAnd [KDefined ''a'' None, KNotEquals ''b'' (Str ''x y'') None] None, KNot ''isMac'' None] None) \<longrightarrow>
      ok (pe_host plain_env) c e' \<and> evaluate (pe_host plain_env) c e' =
        evaluate (pe_host plain_env) c (KOr [KAnd [KDefined ''a'' None, KNotEquals ''b'' (Str ''x y'') None] None, KNot ''isMac'' None] None))"
proof (rule ContextKeyExpr_deserialize_serialize [where fuel = 0])
  have "wordy ''isMac''" "wordy ''a''" "wordy ''b''"
    by (simp_all add: wordy_def stringRe_def is_letter_def is_digit_def operators_def Scanner_keywords_def)
  then show "serializable plain_env (KOr [KAnd [KDefined ''a'' None, KNotEquals ''b'' (Str ''x y'') None] None, KNot ''isMac'' None] None)"
    by (simp add: serializable_def terminal_def)
qed (simp add: plain_env_def)

end
