(* ===== verification/Diff_Sequence.thy ===== *)
theory Diff_Sequence
  imports Offset_Range Edit_Model
begin

text \<open>
  Differences of two sequences:
  \<open>src/vs/editor/common/diff/defaultLinesDiffComputer/algorithms/diffAlgorithm.ts\<close>, with
  \<open>forEachAdjacent\<close> of \<open>src/vs/base/common/arrays.ts\<close>. A sequence diff pairs a range of the first
  sequence with the range of the second one that replaces it. \<open>alignment\<close> is what every algorithm and
  every heuristic of the diff computer promises: the diffs are sorted and do not touch, and the
  elements between them are equal one by one. Such diffs are an edit that turns the first sequence
  into the second (\<open>alignment_applies\<close>). The interface \<open>ISequence\<close> is a record of its methods and a
  locale with the laws that its providers keep.
\<close>

section \<open>Sequences\<close>

text \<open>\<open>getElement\<close> is \<open>None\<close> where the code reads \<open>undefined\<close>, outside the sequence; \<open>getBoundaryScore\<close>
  is an optional method, which may throw outside the sequence.\<close>

record ISequence =
  getElement :: "int \<Rightarrow> int option"
  seqLength :: int
  isStronglyEqual :: "int \<Rightarrow> int \<Rightarrow> bool"
  getBoundaryScore :: "(int \<Rightarrow> int result) option"

definition scores_defined :: "(int \<Rightarrow> int result) \<Rightarrow> int \<Rightarrow> bool" where
  "scores_defined f n \<longleftrightarrow> (\<forall>i. 0 \<le> i \<longrightarrow> i \<le> n \<longrightarrow> (\<exists>v. f i = Inr v))"

locale sequence =
  fixes s :: ISequence
  assumes length_nonneg: "0 \<le> seqLength s"
    and element_defined: "getElement s i \<noteq> None \<longleftrightarrow> 0 \<le> i \<and> i < seqLength s"
    and strongly_equal: "isStronglyEqual s i j \<Longrightarrow> 0 \<le> i \<Longrightarrow> i < seqLength s \<Longrightarrow> 0 \<le> j \<Longrightarrow> j < seqLength s \<Longrightarrow>
      getElement s i = getElement s j"
    and score_defined: "getBoundaryScore s = Some f \<Longrightarrow> scores_defined f (seqLength s)"

section \<open>Pairs of offsets\<close>

record OffsetPair =
  offset1 :: int
  offset2 :: int

definition OffsetPair_new :: "int \<Rightarrow> int \<Rightarrow> OffsetPair" where
  "OffsetPair_new o1 o2 = \<lparr>offset1 = o1, offset2 = o2\<rparr>"

definition OffsetPair_zero :: OffsetPair where
  "OffsetPair_zero = OffsetPair_new 0 0"

text \<open>\<open>Number.MAX_SAFE_INTEGER\<close> is \<open>2 ^ 53 - 1\<close>.\<close>

definition OffsetPair_max :: OffsetPair where
  "OffsetPair_max = OffsetPair_new 9007199254740991 9007199254740991"

definition OffsetPair_delta :: "OffsetPair \<Rightarrow> int \<Rightarrow> OffsetPair" where
  "OffsetPair_delta p offset = (if offset = 0 then p else OffsetPair_new (offset1 p + offset) (offset2 p + offset))"

definition OffsetPair_equals :: "OffsetPair \<Rightarrow> OffsetPair \<Rightarrow> bool" where
  "OffsetPair_equals p other \<longleftrightarrow> offset1 p = offset1 other \<and> offset2 p = offset2 other"

section \<open>Sequence diffs\<close>

record SequenceDiff =
  seq1Range :: OffsetRange
  seq2Range :: OffsetRange

definition SequenceDiff_new :: "OffsetRange \<Rightarrow> OffsetRange \<Rightarrow> SequenceDiff" where
  "SequenceDiff_new r1 r2 = \<lparr>seq1Range = r1, seq2Range = r2\<rparr>"

text \<open>Two operations on ranges that may throw, one after the other.\<close>

definition diff_of :: "OffsetRange result \<Rightarrow> OffsetRange result \<Rightarrow> SequenceDiff result" where
  "diff_of r1 r2 = bindr r1 (\<lambda>a. bindr r2 (\<lambda>b. Inr (SequenceDiff_new a b)))"

lemma diff_of_Inr [simp]: "diff_of (Inr a) (Inr b) = Inr (SequenceDiff_new a b)"
  by (simp add: diff_of_def)

lemma SequenceDiff_new_sel [simp]: "seq1Range (SequenceDiff_new a b) = a" "seq2Range (SequenceDiff_new a b) = b"
  by (simp_all add: SequenceDiff_new_def)

definition SequenceDiff_fromOffsetPairs :: "OffsetPair \<Rightarrow> OffsetPair \<Rightarrow> SequenceDiff result" where
  "SequenceDiff_fromOffsetPairs s e =
     diff_of (OffsetRange_new (offset1 s) (offset1 e)) (OffsetRange_new (offset2 s) (offset2 e))"

definition SequenceDiff_getStarts :: "SequenceDiff \<Rightarrow> OffsetPair" where
  "SequenceDiff_getStarts d = OffsetPair_new (start (seq1Range d)) (start (seq2Range d))"

definition SequenceDiff_getEndExclusives :: "SequenceDiff \<Rightarrow> OffsetPair" where
  "SequenceDiff_getEndExclusives d = OffsetPair_new (endExclusive (seq1Range d)) (endExclusive (seq2Range d))"

definition SequenceDiff_swap :: "SequenceDiff \<Rightarrow> SequenceDiff" where
  "SequenceDiff_swap d = SequenceDiff_new (seq2Range d) (seq1Range d)"

definition SequenceDiff_join :: "SequenceDiff \<Rightarrow> SequenceDiff \<Rightarrow> SequenceDiff result" where
  "SequenceDiff_join d other =
     diff_of (OffsetRange_join (seq1Range d) (seq1Range other)) (OffsetRange_join (seq2Range d) (seq2Range other))"

definition SequenceDiff_delta :: "SequenceDiff \<Rightarrow> int \<Rightarrow> SequenceDiff result" where
  "SequenceDiff_delta d offset =
     (if offset = 0 then Inr d
      else diff_of (OffsetRange_delta (seq1Range d) offset) (OffsetRange_delta (seq2Range d) offset))"

definition SequenceDiff_deltaStart :: "SequenceDiff \<Rightarrow> int \<Rightarrow> SequenceDiff result" where
  "SequenceDiff_deltaStart d offset =
     (if offset = 0 then Inr d
      else diff_of (OffsetRange_deltaStart (seq1Range d) offset) (OffsetRange_deltaStart (seq2Range d) offset))"

definition SequenceDiff_deltaEnd :: "SequenceDiff \<Rightarrow> int \<Rightarrow> SequenceDiff result" where
  "SequenceDiff_deltaEnd d offset =
     (if offset = 0 then Inr d
      else diff_of (OffsetRange_deltaEnd (seq1Range d) offset) (OffsetRange_deltaEnd (seq2Range d) offset))"

definition SequenceDiff_intersectsOrTouches :: "SequenceDiff \<Rightarrow> SequenceDiff \<Rightarrow> bool" where
  "SequenceDiff_intersectsOrTouches d other \<longleftrightarrow>
     OffsetRange_intersectsOrTouches (seq1Range d) (seq1Range other) \<or> OffsetRange_intersectsOrTouches (seq2Range d) (seq2Range other)"

definition SequenceDiff_intersect :: "SequenceDiff \<Rightarrow> SequenceDiff \<Rightarrow> SequenceDiff option result" where
  "SequenceDiff_intersect d other =
     bindr (OffsetRange_intersect (seq1Range d) (seq1Range other)) (\<lambda>i1.
     bindr (OffsetRange_intersect (seq2Range d) (seq2Range other)) (\<lambda>i2.
     Inr (case (i1, i2) of (Some a, Some b) \<Rightarrow> Some (SequenceDiff_new a b) | _ \<Rightarrow> None)))"

text \<open>\<open>assertSorted\<close>, with the last diff seen before.\<close>

fun assertSorted_loop :: "SequenceDiff option \<Rightarrow> SequenceDiff list \<Rightarrow> unit result" where
  "assertSorted_loop last_opt [] = Inr ()"
| "assertSorted_loop last_opt (cur # rest) =
     (case last_opt of
        Some l \<Rightarrow>
          if \<not> (endExclusive (seq1Range l) \<le> start (seq1Range cur) \<and> endExclusive (seq2Range l) \<le> start (seq2Range cur))
          then Inl BugIndicatingError else assertSorted_loop (Some cur) rest
      | None \<Rightarrow> assertSorted_loop (Some cur) rest)"

definition SequenceDiff_assertSorted :: "SequenceDiff list \<Rightarrow> unit result" where
  "SequenceDiff_assertSorted sequenceDiffs = assertSorted_loop None sequenceDiffs"

text \<open>\<open>forEachAdjacent\<close> on an array of results: the pairs of neighbours, the first and the last one
  with \<open>undefined\<close>.\<close>

definition forEachAdjacent :: "'a list \<Rightarrow> ('a option \<Rightarrow> 'a option \<Rightarrow> 'b result) \<Rightarrow> 'b list result" where
  "forEachAdjacent arr f =
     mapr (\<lambda>i. f (if i = 0 then None else Some (arr ! (i - 1))) (if i = length arr then None else Some (arr ! i)))
       [0..<length arr + 1]"

definition SequenceDiff_invert :: "SequenceDiff list \<Rightarrow> int \<Rightarrow> SequenceDiff list result" where
  "SequenceDiff_invert sequenceDiffs doc1Length =
     forEachAdjacent sequenceDiffs (\<lambda>a b. SequenceDiff_fromOffsetPairs
       (case a of Some x \<Rightarrow> SequenceDiff_getEndExclusives x | None \<Rightarrow> OffsetPair_zero)
       (case b of Some y \<Rightarrow> SequenceDiff_getStarts y
        | None \<Rightarrow> OffsetPair_new doc1Length
            ((case a of Some x \<Rightarrow> endExclusive (seq2Range x) - endExclusive (seq1Range x) | None \<Rightarrow> 0) + doc1Length)))"

section \<open>Results\<close>

record DiffAlgorithmResult =
  diffs :: "SequenceDiff list"
  hitTimeout :: bool

definition trivial_diff :: "ISequence \<Rightarrow> ISequence \<Rightarrow> bool \<Rightarrow> DiffAlgorithmResult result" where
  "trivial_diff seq1 seq2 timedOut =
     bindr (diff_of (OffsetRange_ofLength (seqLength seq1)) (OffsetRange_ofLength (seqLength seq2)))
       (\<lambda>d. Inr \<lparr>diffs = [d], hitTimeout = timedOut\<rparr>)"

definition DiffAlgorithmResult_trivial :: "ISequence \<Rightarrow> ISequence \<Rightarrow> DiffAlgorithmResult result" where
  "DiffAlgorithmResult_trivial seq1 seq2 = trivial_diff seq1 seq2 False"

definition DiffAlgorithmResult_trivialTimedOut :: "ISequence \<Rightarrow> ISequence \<Rightarrow> DiffAlgorithmResult result" where
  "DiffAlgorithmResult_trivialTimedOut seq1 seq2 = trivial_diff seq1 seq2 True"

text \<open>An \<open>ITimeout\<close>: what its \<open>isValid\<close> answers at each call. The one of \<open>DateTimeout\<close> reads the clock;
  once it is invalid it stays so.\<close>

type_synonym timeout = "nat \<Rightarrow> bool"

definition InfiniteTimeout :: timeout where
  "InfiniteTimeout = (\<lambda>i. True)"

fun DateTimeout_valid :: "int \<Rightarrow> int \<Rightarrow> (nat \<Rightarrow> int) \<Rightarrow> nat \<Rightarrow> bool" where
  "DateTimeout_valid startTime timeout now 0 \<longleftrightarrow> now 0 - startTime < timeout"
| "DateTimeout_valid startTime timeout now (Suc i) \<longleftrightarrow>
     DateTimeout_valid startTime timeout now i \<and> now (Suc i) - startTime < timeout"

definition DateTimeout_new :: "int \<Rightarrow> int \<Rightarrow> (nat \<Rightarrow> int) \<Rightarrow> timeout result" where
  "DateTimeout_new startTime timeout now =
     (if timeout \<le> 0 then Inl BugIndicatingError else Inr (DateTimeout_valid startTime timeout now))"

section \<open>Alignments\<close>

text \<open>The elements of two stretches of the same length are equal.\<close>

definition matching :: "ISequence \<Rightarrow> ISequence \<Rightarrow> int \<Rightarrow> int \<Rightarrow> int \<Rightarrow> bool" where
  "matching s1 s2 i j n \<longleftrightarrow> (\<forall>t. 0 \<le> t \<longrightarrow> t < n \<longrightarrow> getElement s1 (i + t) = getElement s2 (j + t))"

text \<open>The diffs from the offsets \<open>i\<close> and \<open>j\<close> on; the first one starts at least \<open>g\<close> elements later, and at
  least one equal element lies between two diffs.\<close>

fun alignment :: "ISequence \<Rightarrow> ISequence \<Rightarrow> int \<Rightarrow> int \<Rightarrow> int \<Rightarrow> SequenceDiff list \<Rightarrow> bool" where
  "alignment s1 s2 g i j [] \<longleftrightarrow>
     i \<le> seqLength s1 \<and> seqLength s2 - j = seqLength s1 - i \<and> matching s1 s2 i j (seqLength s1 - i)"
| "alignment s1 s2 g i j (d # ds) \<longleftrightarrow>
     i + g \<le> start (seq1Range d) \<and> start (seq2Range d) - j = start (seq1Range d) - i \<and>
     matching s1 s2 i j (start (seq1Range d) - i) \<and>
     start (seq1Range d) \<le> endExclusive (seq1Range d) \<and> start (seq2Range d) \<le> endExclusive (seq2Range d) \<and>
     alignment s1 s2 1 (endExclusive (seq1Range d)) (endExclusive (seq2Range d)) ds"

definition valid_diffs :: "ISequence \<Rightarrow> ISequence \<Rightarrow> SequenceDiff list \<Rightarrow> bool" where
  "valid_diffs s1 s2 ds \<longleftrightarrow> alignment s1 s2 0 0 0 ds"

lemma matching_code [code]:
  "matching s1 s2 i j n \<longleftrightarrow> (\<forall>t \<in> set [0..n - 1]. getElement s1 (i + t) = getElement s2 (j + t))"
  by (auto simp: matching_def)

lemma matching_0 [simp]: "n \<le> 0 \<Longrightarrow> matching s1 s2 i j n"
  by (simp add: matching_def)

lemma matching_1: "matching s1 s2 i j 1 \<longleftrightarrow> getElement s1 i = getElement s2 j"
proof -
  have "0 \<le> t \<and> t < 1 \<longleftrightarrow> t = 0" for t :: int by arith
  then show ?thesis unfolding matching_def imp_conjL [symmetric] by simp
qed

lemma matchingD: "matching s1 s2 i j n \<Longrightarrow> 0 \<le> t \<Longrightarrow> t < n \<Longrightarrow> getElement s1 (i + t) = getElement s2 (j + t)"
  by (simp add: matching_def)

lemma matching_sub:
  assumes "matching s1 s2 i j n" and "0 \<le> a" and "a + m \<le> n"
  shows "matching s1 s2 (i + a) (j + a) m"
  unfolding matching_def using matchingD [OF assms(1), of "a + t" for t] assms(2,3) by (simp add: add.assoc)

lemma matching_append:
  assumes "matching s1 s2 i j a" and "matching s1 s2 (i + a) (j + a) b" and "0 \<le> a"
  shows "matching s1 s2 i j (a + b)"
  unfolding matching_def
proof (intro allI impI)
  fix t assume t: "0 \<le> t" "t < a + b"
  show "getElement s1 (i + t) = getElement s2 (j + t)"
    using matchingD [OF assms(1) t(1)] matchingD [OF assms(2), of "t - a"] t by (cases "t < a") simp_all
qed

lemma alignment_weaken: "alignment s1 s2 g i j ds \<Longrightarrow> h \<le> g \<Longrightarrow> alignment s1 s2 h i j ds"
  by (cases ds) auto

text \<open>The equal part before the first diff can be extended to the left and cut.\<close>

lemma alignment_extend:
  assumes "alignment s1 s2 g (i + n) (j + n) ds" and "matching s1 s2 i j n" and "0 \<le> n"
  shows "alignment s1 s2 (g + n) i j ds"
proof (cases ds)
  case Nil
  then show ?thesis
    using assms(1,3) matching_append [OF assms(2), of "seqLength s1 - (i + n)"] by simp
next
  case (Cons d ds')
  then show ?thesis
    using assms(1,3) matching_append [OF assms(2), of "start (seq1Range d) - (i + n)"] by simp
qed

lemma alignment_bounds:
  "alignment s1 s2 g i j ds \<Longrightarrow> 0 \<le> g \<Longrightarrow> i \<le> seqLength s1 \<and> j \<le> seqLength s2 \<and>
   (\<forall>d \<in> set ds. i + g \<le> start (seq1Range d) \<and> j + g \<le> start (seq2Range d) \<and>
      start (seq1Range d) \<le> endExclusive (seq1Range d) \<and> start (seq2Range d) \<le> endExclusive (seq2Range d) \<and>
      endExclusive (seq1Range d) \<le> seqLength s1 \<and> endExclusive (seq2Range d) \<le> seqLength s2)"
proof (induction ds arbitrary: g i j)
  case (Cons d ds)
  show ?case using Cons.IH [of 1 "endExclusive (seq1Range d)" "endExclusive (seq2Range d)"] Cons.prems by fastforce
qed simp

section \<open>Diffs as edits\<close>

definition elements_of :: "ISequence \<Rightarrow> int list" where
  "elements_of s = map (\<lambda>i. the (getElement s i)) [0..seqLength s - 1]"

definition diff_splice :: "ISequence \<Rightarrow> SequenceDiff \<Rightarrow> int splice" where
  "diff_splice s2 d =
     (start (seq1Range d), endExclusive (seq1Range d),
      take (nat (endExclusive (seq2Range d) - start (seq2Range d))) (drop (nat (start (seq2Range d))) (elements_of s2)))"

lemma length_elements: "0 \<le> seqLength s \<Longrightarrow> length (elements_of s) = nat (seqLength s)"
  by (simp add: elements_of_def)

lemma nth_elements: "0 \<le> i \<Longrightarrow> i < seqLength s \<Longrightarrow> elements_of s ! nat i = the (getElement s i)"
  by (simp add: elements_of_def)

lemma matching_take:
  assumes "matching s1 s2 i j n" and "0 \<le> i" and "0 \<le> j" and "i + n \<le> seqLength s1" and "j + n \<le> seqLength s2"
  shows "take (nat n) (drop (nat i) (elements_of s1)) = take (nat n) (drop (nat j) (elements_of s2))"
proof (cases "0 \<le> n")
  case True
  show ?thesis
  proof (rule nth_equalityI)
    show "length (take (nat n) (drop (nat i) (elements_of s1))) = length (take (nat n) (drop (nat j) (elements_of s2)))"
      using assms True by (simp add: length_elements)
    fix t assume t: "t < length (take (nat n) (drop (nat i) (elements_of s1)))"
    then have u: "int t < n" using zless_nat_eq_int_zless [of t n] by simp
    have l: "nat i \<le> length (elements_of s1)" "nat j \<le> length (elements_of s2)" using assms True by (simp_all add: length_elements)
    have e: "nat i + t = nat (i + int t)" "nat j + t = nat (j + int t)" using assms(2,3) by simp_all
    have "elements_of s1 ! (nat i + t) = elements_of s2 ! (nat j + t)"
      unfolding e using matchingD [OF assms(1), of "int t"] u assms(2-5) by (simp add: nth_elements)
    then show "take (nat n) (drop (nat i) (elements_of s1)) ! t = take (nat n) (drop (nat j) (elements_of s2)) ! t"
      using t l by simp
  qed
qed simp

lemma alignment_applies:
  assumes "alignment s1 s2 g i j ds" and "0 \<le> i" and "0 \<le> j" and "0 \<le> g"
  shows "fits i (seqLength s1) (map (diff_splice s2) ds)"
    and "out i (map (diff_splice s2) ds) (elements_of s1) = drop (nat j) (elements_of s2)"
  using assms
proof (induction ds arbitrary: g i j)
  case Nil
  {
    case 1
    then show ?case by simp
  next
    case 2
    then have "take (nat (seqLength s1 - i)) (drop (nat i) (elements_of s1)) = take (nat (seqLength s1 - i)) (drop (nat j) (elements_of s2))"
      by (intro matching_take) auto
    moreover have "length (drop (nat i) (elements_of s1)) \<le> nat (seqLength s1 - i)" "length (drop (nat j) (elements_of s2)) \<le> nat (seqLength s1 - i)"
      using 2 by (simp_all add: elements_of_def nat_diff_distrib [symmetric])
    ultimately show ?case by simp
  }
next
  case (Cons d ds)
  let ?r1 = "seq1Range d" and ?r2 = "seq2Range d"
  {
    case 1
    then have "fits (endExclusive ?r1) (seqLength s1) (map (diff_splice s2) ds)"
      by (intro Cons.IH(1) [of 1 _ "endExclusive ?r2"]) auto
    then show ?case using 1 by (simp add: diff_splice_def [of s2 d])
  next
    case 2
    note b = alignment_bounds [OF 2(1) 2(4)]
    have IH: "out (endExclusive ?r1) (map (diff_splice s2) ds) (elements_of s1) = drop (nat (endExclusive ?r2)) (elements_of s2)"
      using 2 by (intro Cons.IH(2) [of 1]) auto
    have m: "take (nat (start ?r1 - i)) (drop (nat i) (elements_of s1)) = take (nat (start ?r1 - i)) (drop (nat j) (elements_of s2))"
      using 2 b by (intro matching_take) auto
    have i2: "nat (start ?r1 - i) + nat j = nat (start ?r2)"
      "nat (endExclusive ?r2 - start ?r2) + nat (start ?r2) = nat (endExclusive ?r2)"
      using 2 unfolding alignment.simps by arith+
    have d: "drop (nat (start ?r2)) xs = drop (nat (start ?r1 - i)) (drop (nat j) xs)"
      "drop (nat (endExclusive ?r2)) xs = drop (nat (endExclusive ?r2 - start ?r2)) (drop (nat (start ?r2)) xs)" for xs :: "int list"
      using i2 by (simp_all add: add.commute)
    show ?case by (simp add: diff_splice_def [of s2 d] IH m) (simp only: d append_take_drop_id)
  }
qed

end
