(* ===== verification/Diff_Heuristics.thy ===== *)
theory Diff_Heuristics
  imports Diff_Sequence
begin

text \<open>
  The heuristics that improve an alignment:
  \<open>src/vs/editor/common/diff/defaultLinesDiffComputer/heuristicSequenceOptimizations.ts\<close>. Diffs that only
  insert or only delete are moved left and right over equal elements and joined when they meet, then
  moved to the position with the best boundary score; diffs with little between them are joined.
  Every step keeps the alignment valid and never throws. The two heuristics that work on words and
  on long character diffs are left out.
\<close>

section \<open>Joining by shifting\<close>

text \<open>The loop \<open>for (d = 1; d <= length; d++)\<close> with its \<open>break\<close>, followed by \<open>d--\<close>.\<close>

function leftShift :: "ISequence \<Rightarrow> ISequence \<Rightarrow> SequenceDiff \<Rightarrow> int \<Rightarrow> int \<Rightarrow> int" where
  "leftShift sequence1 sequence2 cur len d =
     (if d \<le> len then
        if getElement sequence1 (start (seq1Range cur) - d) \<noteq> getElement sequence1 (endExclusive (seq1Range cur) - d) \<or>
           getElement sequence2 (start (seq2Range cur) - d) \<noteq> getElement sequence2 (endExclusive (seq2Range cur) - d)
        then d - 1
        else leftShift sequence1 sequence2 cur len (d + 1)
      else d - 1)"
  by pat_completeness auto
termination by (relation "measure (\<lambda>(s, t, c, l, d). nat (l + 1 - d))") auto

declare leftShift.simps [simp del]

text \<open>The body of the first loop: it pushes the shifted diff or joins it with the last one.\<close>

definition joinLeft_step :: "ISequence \<Rightarrow> ISequence \<Rightarrow> SequenceDiff list \<Rightarrow> SequenceDiff \<Rightarrow> SequenceDiff list result" where
  "joinLeft_step sequence1 sequence2 result cur =
     (let prevResult = last result in
      if OffsetRange_isEmpty (seq1Range cur) \<or> OffsetRange_isEmpty (seq2Range cur) then
        (let len = start (seq1Range cur) - endExclusive (seq1Range prevResult);
             d = leftShift sequence1 sequence2 cur len 1
         in if d = len then
              bindr (diff_of (OffsetRange_new (start (seq1Range prevResult)) (endExclusive (seq1Range cur) - len))
                             (OffsetRange_new (start (seq2Range prevResult)) (endExclusive (seq2Range cur) - len)))
                (\<lambda>joined. Inr (butlast result @ [joined]))
            else bindr (SequenceDiff_delta cur (- d)) (\<lambda>cur'. Inr (result @ [cur'])))
      else Inr (result @ [cur]))"

fun joinLeft_loop :: "ISequence \<Rightarrow> ISequence \<Rightarrow> SequenceDiff list \<Rightarrow> SequenceDiff list \<Rightarrow> SequenceDiff list result" where
  "joinLeft_loop sequence1 sequence2 result [] = Inr result"
| "joinLeft_loop sequence1 sequence2 result (cur # rest) =
     bindr (joinLeft_step sequence1 sequence2 result cur) (\<lambda>result'. joinLeft_loop sequence1 sequence2 result' rest)"

text \<open>The loop \<open>for (d = 0; d < length; d++)\<close> with its \<open>break\<close>.\<close>

function rightShift :: "ISequence \<Rightarrow> ISequence \<Rightarrow> SequenceDiff \<Rightarrow> int \<Rightarrow> int \<Rightarrow> int" where
  "rightShift sequence1 sequence2 cur len d =
     (if d < len then
        if \<not> isStronglyEqual sequence1 (start (seq1Range cur) + d) (endExclusive (seq1Range cur) + d) \<or>
           \<not> isStronglyEqual sequence2 (start (seq2Range cur) + d) (endExclusive (seq2Range cur) + d)
        then d
        else rightShift sequence1 sequence2 cur len (d + 1)
      else d)"
  by pat_completeness auto
termination by (relation "measure (\<lambda>(s, t, c, l, d). nat (l - d))") auto

declare rightShift.simps [simp del]

text \<open>The second pass. A diff joined with the next one (\<open>Inl\<close>) is written back to the array, so it is the
  next one to be looked at; another one (\<open>Inr\<close>) is pushed.\<close>

definition joinRight_step ::
  "ISequence \<Rightarrow> ISequence \<Rightarrow> SequenceDiff \<Rightarrow> SequenceDiff \<Rightarrow> (SequenceDiff + SequenceDiff) result" where
  "joinRight_step sequence1 sequence2 cur nextResult =
     (if OffsetRange_isEmpty (seq1Range cur) \<or> OffsetRange_isEmpty (seq2Range cur) then
        (let len = start (seq1Range nextResult) - endExclusive (seq1Range cur);
             d = rightShift sequence1 sequence2 cur len 0
         in if d = len then
              bindr (diff_of (OffsetRange_new (start (seq1Range cur) + len) (endExclusive (seq1Range nextResult)))
                             (OffsetRange_new (start (seq2Range cur) + len) (endExclusive (seq2Range nextResult))))
                (\<lambda>joined. Inr (Inl joined))
            else bindr (if d > 0 then SequenceDiff_delta cur d else Inr cur) (\<lambda>cur'. Inr (Inr cur')))
      else Inr (Inr cur))"

function joinRight_loop :: "ISequence \<Rightarrow> ISequence \<Rightarrow> SequenceDiff list \<Rightarrow> SequenceDiff list \<Rightarrow> SequenceDiff list result" where
  "joinRight_loop sequence1 sequence2 result2 [] = Inr result2"
| "joinRight_loop sequence1 sequence2 result2 [cur] = Inr (result2 @ [cur])"
| "joinRight_loop sequence1 sequence2 result2 (cur # nextResult # rest) =
     bindr (joinRight_step sequence1 sequence2 cur nextResult) (\<lambda>r. case r of
       Inl joined \<Rightarrow> joinRight_loop sequence1 sequence2 result2 (joined # rest)
     | Inr cur' \<Rightarrow> joinRight_loop sequence1 sequence2 (result2 @ [cur']) (nextResult # rest))"
  by pat_completeness auto
termination by (relation "measure (\<lambda>(s, t, r, ds). length ds)") auto

definition joinSequenceDiffsByShifting ::
  "ISequence \<Rightarrow> ISequence \<Rightarrow> SequenceDiff list \<Rightarrow> SequenceDiff list result" where
  "joinSequenceDiffsByShifting sequence1 sequence2 sequenceDiffs =
     (case sequenceDiffs of
        [] \<Rightarrow> Inr sequenceDiffs
      | d # ds \<Rightarrow> bindr (joinLeft_loop sequence1 sequence2 [d] ds) (joinRight_loop sequence1 sequence2 []))"

section \<open>Shifting to better positions\<close>

definition maxShiftLimit :: int where
  "maxShiftLimit = 100"

function deltaBefore_loop :: "ISequence \<Rightarrow> SequenceDiff \<Rightarrow> OffsetRange \<Rightarrow> OffsetRange \<Rightarrow> int \<Rightarrow> int" where
  "deltaBefore_loop sequence2 diff seq1ValidRange seq2ValidRange deltaBefore =
     (if start (seq1Range diff) - deltaBefore \<ge> start seq1ValidRange \<and> start (seq2Range diff) - deltaBefore \<ge> start seq2ValidRange \<and>
         isStronglyEqual sequence2 (start (seq2Range diff) - deltaBefore) (endExclusive (seq2Range diff) - deltaBefore) \<and>
         deltaBefore < maxShiftLimit
      then deltaBefore_loop sequence2 diff seq1ValidRange seq2ValidRange (deltaBefore + 1) else deltaBefore)"
  by pat_completeness auto
termination by (relation "measure (\<lambda>(s, d, v, w, b). nat (maxShiftLimit - b))") auto

function deltaAfter_loop :: "ISequence \<Rightarrow> SequenceDiff \<Rightarrow> OffsetRange \<Rightarrow> OffsetRange \<Rightarrow> int \<Rightarrow> int" where
  "deltaAfter_loop sequence2 diff seq1ValidRange seq2ValidRange deltaAfter =
     (if start (seq1Range diff) + deltaAfter < endExclusive seq1ValidRange \<and>
         endExclusive (seq2Range diff) + deltaAfter < endExclusive seq2ValidRange \<and>
         isStronglyEqual sequence2 (start (seq2Range diff) + deltaAfter) (endExclusive (seq2Range diff) + deltaAfter) \<and>
         deltaAfter < maxShiftLimit
      then deltaAfter_loop sequence2 diff seq1ValidRange seq2ValidRange (deltaAfter + 1) else deltaAfter)"
  by pat_completeness auto
termination by (relation "measure (\<lambda>(s, d, v, w, b). nat (maxShiftLimit - b))") auto

declare deltaBefore_loop.simps [simp del] deltaAfter_loop.simps [simp del]

function bestDelta_loop ::
  "(int \<Rightarrow> int result) \<Rightarrow> (int \<Rightarrow> int result) \<Rightarrow> SequenceDiff \<Rightarrow> int \<Rightarrow> int \<Rightarrow> int \<Rightarrow> int \<Rightarrow> int result" where
  "bestDelta_loop score1 score2 diff deltaAfter delta bestDelta bestScore =
     (if delta \<le> deltaAfter then
        bindr (score1 (start (seq1Range diff) + delta)) (\<lambda>a.
        bindr (score2 (start (seq2Range diff) + delta)) (\<lambda>b.
        bindr (score2 (endExclusive (seq2Range diff) + delta)) (\<lambda>c.
        if a + b + c > bestScore then bestDelta_loop score1 score2 diff deltaAfter (delta + 1) delta (a + b + c)
        else bestDelta_loop score1 score2 diff deltaAfter (delta + 1) bestDelta bestScore)))
      else Inr bestDelta)"
  by pat_completeness auto
termination by (relation "measure (\<lambda>(s, t, d, a, x, b, c). nat (a + 1 - x))") auto

declare bestDelta_loop.simps [simp del]

definition shiftDiffToBetterPosition ::
  "SequenceDiff \<Rightarrow> (int \<Rightarrow> int result) \<Rightarrow> ISequence \<Rightarrow> (int \<Rightarrow> int result) \<Rightarrow> OffsetRange \<Rightarrow> OffsetRange \<Rightarrow> SequenceDiff result" where
  "shiftDiffToBetterPosition diff score1 sequence2 score2 seq1ValidRange seq2ValidRange =
     (let deltaBefore = deltaBefore_loop sequence2 diff seq1ValidRange seq2ValidRange 1 - 1;
          deltaAfter = deltaAfter_loop sequence2 diff seq1ValidRange seq2ValidRange 0
      in if deltaBefore = 0 \<and> deltaAfter = 0 then Inr diff
         else bindr (bestDelta_loop score1 score2 diff deltaAfter (- deltaBefore) 0 (- 1)) (SequenceDiff_delta diff))"

text \<open>The loop over the array, which is updated in place: the previous diff is the shifted one.\<close>

fun shift_loop ::
  "ISequence \<Rightarrow> (int \<Rightarrow> int result) \<Rightarrow> ISequence \<Rightarrow> (int \<Rightarrow> int result) \<Rightarrow> SequenceDiff option \<Rightarrow> SequenceDiff list \<Rightarrow> SequenceDiff list result" where
  "shift_loop sequence1 score1 sequence2 score2 prevDiff [] = Inr []"
| "shift_loop sequence1 score1 sequence2 score2 prevDiff (diff # rest) =
     (let nextDiff = (case rest of [] \<Rightarrow> None | n # _ \<Rightarrow> Some n) in
      bindr (OffsetRange_new (case prevDiff of Some p \<Rightarrow> endExclusive (seq1Range p) + 1 | None \<Rightarrow> 0)
               (case nextDiff of Some n \<Rightarrow> start (seq1Range n) - 1 | None \<Rightarrow> seqLength sequence1)) (\<lambda>seq1ValidRange.
      bindr (OffsetRange_new (case prevDiff of Some p \<Rightarrow> endExclusive (seq2Range p) + 1 | None \<Rightarrow> 0)
               (case nextDiff of Some n \<Rightarrow> start (seq2Range n) - 1 | None \<Rightarrow> seqLength sequence2)) (\<lambda>seq2ValidRange.
      bindr (if OffsetRange_isEmpty (seq1Range diff) then
               shiftDiffToBetterPosition diff score1 sequence2 score2 seq1ValidRange seq2ValidRange
             else if OffsetRange_isEmpty (seq2Range diff) then
               bindr (shiftDiffToBetterPosition (SequenceDiff_swap diff) score2 sequence1 score1 seq2ValidRange seq1ValidRange)
                 (\<lambda>x. Inr (SequenceDiff_swap x))
             else Inr diff) (\<lambda>diff'.
      bindr (shift_loop sequence1 score1 sequence2 score2 (Some diff') rest) (\<lambda>rest'. Inr (diff' # rest'))))))"

definition shiftSequenceDiffs :: "ISequence \<Rightarrow> ISequence \<Rightarrow> SequenceDiff list \<Rightarrow> SequenceDiff list result" where
  "shiftSequenceDiffs sequence1 sequence2 sequenceDiffs =
     (case (getBoundaryScore sequence1, getBoundaryScore sequence2) of
        (Some score1, Some score2) \<Rightarrow> shift_loop sequence1 score1 sequence2 score2 None sequenceDiffs
      | _ \<Rightarrow> Inr sequenceDiffs)"

definition optimizeSequenceDiffs :: "ISequence \<Rightarrow> ISequence \<Rightarrow> SequenceDiff list \<Rightarrow> SequenceDiff list result" where
  "optimizeSequenceDiffs sequence1 sequence2 sequenceDiffs =
     bindr (joinSequenceDiffsByShifting sequence1 sequence2 sequenceDiffs) (\<lambda>result1.
     bindr (joinSequenceDiffsByShifting sequence1 sequence2 result1) (\<lambda>result2.
     shiftSequenceDiffs sequence1 sequence2 result2))"

section \<open>Moving a diff keeps the alignment\<close>

definition shifted :: "SequenceDiff \<Rightarrow> int \<Rightarrow> SequenceDiff" where
  "shifted d k = SequenceDiff_new (OR (start (seq1Range d) + k) (endExclusive (seq1Range d) + k))
     (OR (start (seq2Range d) + k) (endExclusive (seq2Range d) + k))"

lemma shifted_sel [simp]:
  "seq1Range (shifted d k) = OR (start (seq1Range d) + k) (endExclusive (seq1Range d) + k)"
  "seq2Range (shifted d k) = OR (start (seq2Range d) + k) (endExclusive (seq2Range d) + k)"
  by (simp_all add: shifted_def)

lemma shifted_0: "shifted d 0 = d"
  by (cases d; cases "seq1Range d"; cases "seq2Range d") (simp add: shifted_def SequenceDiff_new_def OR_def)

lemma SequenceDiff_delta_shifted:
  "start (seq1Range d) \<le> endExclusive (seq1Range d) \<Longrightarrow> start (seq2Range d) \<le> endExclusive (seq2Range d) \<Longrightarrow>
   SequenceDiff_delta d k = Inr (shifted d k)"
  by (cases "k = 0") (simp_all add: SequenceDiff_delta_def shifted_0 OffsetRange_delta_def shifted_def)

text \<open>The elements at both ends of a diff agree, at a distance from its start and its end.\<close>

definition periodic :: "ISequence \<Rightarrow> ISequence \<Rightarrow> SequenceDiff \<Rightarrow> int \<Rightarrow> bool" where
  "periodic s1 s2 d t \<longleftrightarrow> getElement s1 (start (seq1Range d) + t) = getElement s1 (endExclusive (seq1Range d) + t) \<and>
     getElement s2 (start (seq2Range d) + t) = getElement s2 (endExclusive (seq2Range d) + t)"

lemma shift_left:
  assumes al: "alignment s1 s2 g i j (cur # rest)" and d: "0 \<le> d" "i + g + d \<le> start (seq1Range cur)" "0 \<le> g"
    and p: "\<And>t. - d \<le> t \<Longrightarrow> t < 0 \<Longrightarrow> periodic s1 s2 cur t"
  shows "alignment s1 s2 g i j (shifted cur (- d) # rest)"
proof -
  let ?a1 = "start (seq1Range cur)" and ?b1 = "endExclusive (seq1Range cur)"
  let ?a2 = "start (seq2Range cur)" and ?b2 = "endExclusive (seq2Range cur)"
  have m: "matching s1 s2 i j (?a1 - i)" and e: "?a2 - j = ?a1 - i"
    using al unfolding alignment.simps by blast+
  have "matching s1 s2 (?b1 - d) (?b2 - d) d"
    unfolding matching_def
  proof (intro allI impI)
    fix t assume t: "0 \<le> t" "t < d"
    have "periodic s1 s2 cur (t - d)" using t by (intro p) auto
    then have q: "getElement s1 (?a1 + (t - d)) = getElement s1 (?b1 + (t - d))" "getElement s2 (?a2 + (t - d)) = getElement s2 (?b2 + (t - d))"
      unfolding periodic_def by blast+
    have "getElement s1 (i + (?a1 - i + (t - d))) = getElement s2 (j + (?a1 - i + (t - d)))"
      by (rule matchingD [OF m]) (use t d in auto)
    moreover have "i + (?a1 - i + (t - d)) = ?a1 + (t - d)" "j + (?a1 - i + (t - d)) = ?a2 + (t - d)" using e by linarith+
    ultimately have "getElement s1 (?a1 + (t - d)) = getElement s2 (?a2 + (t - d))" by (simp only:)
    from trans [OF q(1) [symmetric] trans [OF this q(2)]]
    have "getElement s1 (?b1 + (t - d)) = getElement s2 (?b2 + (t - d))" .
    moreover have "?b1 + (t - d) = ?b1 - d + t" "?b2 + (t - d) = ?b2 - d + t" by simp_all
    ultimately show "getElement s1 (?b1 - d + t) = getElement s2 (?b2 - d + t)" by (simp only:)
  qed
  moreover have "alignment s1 s2 1 (?b1 - d + d) (?b2 - d + d) rest" using al by simp
  ultimately have "alignment s1 s2 (1 + d) (?b1 - d) (?b2 - d) rest" using d(1) by (intro alignment_extend)
  then have "alignment s1 s2 1 (?b1 - d) (?b2 - d) rest" by (rule alignment_weaken) (use d(1) in simp)
  moreover have "matching s1 s2 (i + 0) (j + 0) (?a1 - d - i)" by (rule matching_sub [OF m]) (use d(1) in auto)
  ultimately show ?thesis using al d by (simp add: algebra_simps)
qed

text \<open>Room of \<open>d\<close> elements and a gap behind an offset of the first sequence.\<close>

definition room :: "ISequence \<Rightarrow> int \<Rightarrow> int \<Rightarrow> int \<Rightarrow> SequenceDiff list \<Rightarrow> bool" where
  "room s1 i d h ds \<longleftrightarrow> (case ds of [] \<Rightarrow> i + d \<le> seqLength s1 | n # _ \<Rightarrow> i + d + h \<le> start (seq1Range n))"

lemma alignment_cut:
  assumes al: "alignment s1 s2 g i j ds" and d: "0 \<le> d" "room s1 i d h ds" "0 \<le> h"
  shows "alignment s1 s2 h (i + d) (j + d) ds" and "matching s1 s2 i j d"
proof -
  have "alignment s1 s2 h (i + d) (j + d) ds \<and> matching s1 s2 i j d"
  proof (cases ds)
    case Nil
    have m: "matching s1 s2 i j (seqLength s1 - i)" using al unfolding Nil alignment.simps by blast
    show ?thesis using al d matching_sub [OF m, of d "seqLength s1 - (i + d)"] matching_sub [OF m, of 0 d]
      by (simp add: Nil room_def)
  next
    case (Cons n rest)
    have m: "matching s1 s2 i j (start (seq1Range n) - i)" using al unfolding Cons alignment.simps by blast
    show ?thesis using al d matching_sub [OF m, of d "start (seq1Range n) - (i + d)"] matching_sub [OF m, of 0 d]
      by (simp add: Cons room_def)
  qed
  then show "alignment s1 s2 h (i + d) (j + d) ds" "matching s1 s2 i j d" by simp_all
qed

lemma shift_right:
  assumes al: "alignment s1 s2 g i j (cur # rest)" and d: "0 \<le> d" "room s1 (endExclusive (seq1Range cur)) d h rest" "0 \<le> h" "0 \<le> g"
    and p: "\<And>t. 0 \<le> t \<Longrightarrow> t < d \<Longrightarrow> periodic s1 s2 cur t"
  shows "alignment s1 s2 h (endExclusive (seq1Range cur) + d) (endExclusive (seq2Range cur) + d) rest"
    and "matching s1 s2 i j (start (seq1Range cur) + d - i)"
proof -
  let ?a1 = "start (seq1Range cur)" and ?b1 = "endExclusive (seq1Range cur)"
  let ?a2 = "start (seq2Range cur)" and ?b2 = "endExclusive (seq2Range cur)"
  have tail: "alignment s1 s2 1 ?b1 ?b2 rest" and m: "matching s1 s2 i j (?a1 - i)" and e: "?a2 - j = ?a1 - i"
    using al unfolding alignment.simps by blast+
  note c = alignment_cut [OF tail d(1-3)]
  show "alignment s1 s2 h (?b1 + d) (?b2 + d) rest" by (rule c(1))
  have "matching s1 s2 (i + (?a1 - i)) (j + (?a1 - i)) d"
    unfolding matching_def
  proof (intro allI impI)
    fix t assume t: "0 \<le> t" "t < d"
    have "getElement s1 (?a1 + t) = getElement s2 (?a2 + t)"
      using p [OF t] matchingD [OF c(2) t] by (simp add: periodic_def)
    moreover have "i + (?a1 - i) + t = ?a1 + t" "j + (?a1 - i) + t = ?a2 + t" using e by linarith+
    ultimately show "getElement s1 (i + (?a1 - i) + t) = getElement s2 (j + (?a1 - i) + t)" by (simp only:)
  qed
  moreover have "0 \<le> ?a1 - i" using al d(4) by simp
  ultimately show "matching s1 s2 i j (?a1 + d - i)" using matching_append [OF m] by (simp add: algebra_simps)
qed

lemma shift_right_alignment:
  assumes "alignment s1 s2 g i j (cur # rest)" and "0 \<le> d" and "room s1 (endExclusive (seq1Range cur)) d 1 rest" and "0 \<le> g"
    and "\<And>t. 0 \<le> t \<Longrightarrow> t < d \<Longrightarrow> periodic s1 s2 cur t"
  shows "alignment s1 s2 g i j (shifted cur d # rest)"
  using shift_right [OF assms(1-3) _ assms(4,5)] assms(1,2) by simp

text \<open>A diff that touches the next one is joined with it, and so are any two neighbours.\<close>

lemma join_neighbours:
  assumes "alignment s1 s2 g i j (a # b # rest)"
  shows "alignment s1 s2 g i j
    (SequenceDiff_new (OR (start (seq1Range a)) (endExclusive (seq1Range b))) (OR (start (seq2Range a)) (endExclusive (seq2Range b))) # rest)"
  using assms by auto

lemma SequenceDiff_join_neighbours:
  "alignment s1 s2 g i j (a # b # rest) \<Longrightarrow> 0 \<le> g \<Longrightarrow> SequenceDiff_join a b =
   Inr (SequenceDiff_new (OR (start (seq1Range a)) (endExclusive (seq1Range b))) (OR (start (seq2Range a)) (endExclusive (seq2Range b))))"
  by (auto simp: SequenceDiff_join_def OffsetRange_join_def min_def max_def)

text \<open>Changing a part of the diffs.\<close>

lemma alignment_replace:
  assumes "alignment s1 s2 g i j (xs @ ys)" and "0 \<le> i" and "0 \<le> j" and "0 \<le> g"
    and "\<And>g i j. 0 \<le> i \<Longrightarrow> 0 \<le> j \<Longrightarrow> 0 \<le> g \<Longrightarrow> alignment s1 s2 g i j ys \<Longrightarrow> alignment s1 s2 g i j zs"
  shows "alignment s1 s2 g i j (xs @ zs)"
  using assms(1-4)
proof (induction xs arbitrary: g i j)
  case (Cons x xs)
  then show ?case by auto
qed (use assms(5) in simp)

lemma alignment_suffix:
  assumes "alignment s1 s2 g i j (xs @ ys)" and "0 \<le> i" and "0 \<le> j" and "0 \<le> g"
  shows "\<exists>g' i' j'. 0 \<le> i' \<and> 0 \<le> j' \<and> 0 \<le> g' \<and> alignment s1 s2 g' i' j' ys"
  using assms
proof (induction xs arbitrary: g i j)
  case (Cons x xs)
  then show ?case by (auto intro!: Cons.IH [of 1])
next
  case Nil
  then show ?case by auto
qed

section \<open>Every step keeps the alignment\<close>

lemma leftShift_spec:
  "1 \<le> d \<Longrightarrow> d \<le> len + 1 \<Longrightarrow> d - 1 \<le> leftShift s1 s2 cur len d \<and> leftShift s1 s2 cur len d \<le> len \<and>
   (\<forall>t. - leftShift s1 s2 cur len d \<le> t \<longrightarrow> t \<le> - d \<longrightarrow> periodic s1 s2 cur t)"
proof (induction s1 s2 cur len d rule: leftShift.induct)
  case (1 s1 s2 cur len d)
  note eq = leftShift.simps [of s1 s2 cur len d]
  show ?case
  proof (cases "d \<le> len \<and> periodic s1 s2 cur (- d)")
    case True
    then have "leftShift s1 s2 cur len d = leftShift s1 s2 cur len (d + 1)" by (simp add: eq periodic_def)
    moreover have "d \<le> leftShift s1 s2 cur len (d + 1) \<and> leftShift s1 s2 cur len (d + 1) \<le> len \<and>
        (\<forall>t. - leftShift s1 s2 cur len (d + 1) \<le> t \<longrightarrow> t \<le> - (d + 1) \<longrightarrow> periodic s1 s2 cur t)"
      using "1.IH" True "1.prems" by (simp add: periodic_def)
    moreover have "t = - d \<or> t \<le> - (d + 1)" if "t \<le> - d" for t using that by linarith
    ultimately show ?thesis using True by auto
  next
    case False
    then have "leftShift s1 s2 cur len d = d - 1" by (auto simp: eq periodic_def)
    then show ?thesis using "1.prems" by simp
  qed
qed

lemma joinLeft_step_ok:
  assumes al: "valid_diffs s1 s2 (result @ cur # rest)" and r: "result \<noteq> []"
  shows "\<exists>result'. joinLeft_step s1 s2 result cur = Inr result' \<and> result' \<noteq> [] \<and> valid_diffs s1 s2 (result' @ rest)"
proof (cases "OffsetRange_isEmpty (seq1Range cur) \<or> OffsetRange_isEmpty (seq2Range cur)")
  case False
  then show ?thesis using al by (simp add: joinLeft_step_def)
next
  case True
  obtain xs prev where xs: "result = xs @ [prev]" using r by (cases result rule: rev_cases) auto
  define len where "len = start (seq1Range cur) - endExclusive (seq1Range prev)"
  define d where "d = leftShift s1 s2 cur len 1"
  let ?p1 = "seq1Range prev" and ?p2 = "seq2Range prev" and ?c1 = "seq1Range cur" and ?c2 = "seq2Range cur"
  obtain g i j where sfx: "alignment s1 s2 g i j (prev # cur # rest)" "0 \<le> i" "0 \<le> j" "0 \<le> g"
    using alignment_suffix [of s1 s2 0 0 0 xs "prev # cur # rest"] al by (auto simp: valid_diffs_def xs)
  have len: "1 \<le> len" "start ?c2 - endExclusive ?p2 = len" using sfx(1) by (simp_all add: len_def)
  have d: "0 \<le> d" "d \<le> len" "\<And>t. - d \<le> t \<Longrightarrow> t < 0 \<Longrightarrow> periodic s1 s2 cur t"
    using leftShift_spec [of 1 len s1 s2 cur] len(1) by (auto simp: d_def)
  have ord: "start ?p1 \<le> endExclusive ?p1" "start ?p2 \<le> endExclusive ?p2" "start ?c1 \<le> endExclusive ?c1" "start ?c2 \<le> endExclusive ?c2"
    using sfx(1) by simp_all
  show ?thesis
  proof (cases "d = len")
    case eq: True
    let ?joined = "SequenceDiff_new (OR (start ?p1) (endExclusive ?c1 - len)) (OR (start ?p2) (endExclusive ?c2 - len))"
    have bnd: "start ?p1 \<le> endExclusive ?c1 - len" "start ?p2 \<le> endExclusive ?c2 - len"
      using ord len(2) by (simp_all add: len_def)
    then have "joinLeft_step s1 s2 result cur = Inr (xs @ [?joined])"
      using True eq
      by (simp add: joinLeft_step_def xs len_def [symmetric] d_def [symmetric])
    moreover have "alignment s1 s2 0 0 0 (xs @ ?joined # rest)"
    proof (rule alignment_replace [OF al [unfolded valid_diffs_def xs append_assoc append_Cons append_Nil]])
      fix g i j :: int assume a: "alignment s1 s2 g i j (prev # cur # rest)"
      then have "alignment s1 s2 0 (endExclusive ?p1) (endExclusive ?p2) (cur # rest)"
        by (auto intro: alignment_weaken [where g = 1])
      then have "alignment s1 s2 0 (endExclusive ?p1) (endExclusive ?p2) (shifted cur (- d) # rest)"
        by (rule shift_left) (use d eq len_def in auto)
      then have "alignment s1 s2 1 (endExclusive ?c1 - len) (endExclusive ?c2 - len) rest" using eq by simp
      moreover have "i + g \<le> start ?p1" "start ?p2 - j = start ?p1 - i" "matching s1 s2 i j (start ?p1 - i)"
        using a unfolding alignment.simps by blast+
      ultimately show "alignment s1 s2 g i j (?joined # rest)" using bnd by simp
    qed simp_all
    ultimately show ?thesis by (simp add: valid_diffs_def)
  next
    case ne: False
    have "joinLeft_step s1 s2 result cur = Inr (result @ [shifted cur (- d)])"
      using True ne ord by (simp add: joinLeft_step_def xs len_def [symmetric] d_def [symmetric] SequenceDiff_delta_shifted)
    moreover have "alignment s1 s2 0 0 0 (xs @ prev # shifted cur (- d) # rest)"
    proof (rule alignment_replace [OF al [unfolded valid_diffs_def xs append_assoc append_Cons append_Nil]])
      fix g i j :: int assume a: "alignment s1 s2 g i j (prev # cur # rest)"
      then have "alignment s1 s2 1 (endExclusive ?p1) (endExclusive ?p2) (shifted cur (- d) # rest)"
        by (intro shift_left) (use d ne len_def in auto)
      then show "alignment s1 s2 g i j (prev # shifted cur (- d) # rest)" using a by simp
    qed simp_all
    ultimately show ?thesis by (simp add: valid_diffs_def xs)
  qed
qed

lemma joinLeft_loop_ok:
  "valid_diffs s1 s2 (result @ ds) \<Longrightarrow> result \<noteq> [] \<Longrightarrow>
   \<exists>result'. joinLeft_loop s1 s2 result ds = Inr result' \<and> result' \<noteq> [] \<and> valid_diffs s1 s2 result'"
proof (induction ds arbitrary: result)
  case (Cons cur rest)
  obtain result' where r: "joinLeft_step s1 s2 result cur = Inr result'" "result' \<noteq> []" "valid_diffs s1 s2 (result' @ rest)"
    using joinLeft_step_ok [OF Cons.prems] by blast
  from Cons.IH [OF r(3,2)] show ?case by (simp add: r(1))
qed simp

lemma rightShift_spec:
  "0 \<le> d \<Longrightarrow> d \<le> len \<Longrightarrow> d \<le> rightShift s1 s2 cur len d \<and> rightShift s1 s2 cur len d \<le> len \<and>
   (\<forall>t. d \<le> t \<longrightarrow> t < rightShift s1 s2 cur len d \<longrightarrow>
      isStronglyEqual s1 (start (seq1Range cur) + t) (endExclusive (seq1Range cur) + t) \<and>
      isStronglyEqual s2 (start (seq2Range cur) + t) (endExclusive (seq2Range cur) + t))"
proof (induction s1 s2 cur len d rule: rightShift.induct)
  case (1 s1 s2 cur len d)
  note eq = rightShift.simps [of s1 s2 cur len d]
  let ?eq = "\<lambda>t. isStronglyEqual s1 (start (seq1Range cur) + t) (endExclusive (seq1Range cur) + t) \<and>
      isStronglyEqual s2 (start (seq2Range cur) + t) (endExclusive (seq2Range cur) + t)"
  show ?case
  proof (cases "d < len \<and> ?eq d")
    case True
    then have "rightShift s1 s2 cur len d = rightShift s1 s2 cur len (d + 1)" by (simp add: eq)
    moreover have "d + 1 \<le> rightShift s1 s2 cur len (d + 1) \<and> rightShift s1 s2 cur len (d + 1) \<le> len \<and>
        (\<forall>t. d + 1 \<le> t \<longrightarrow> t < rightShift s1 s2 cur len (d + 1) \<longrightarrow> ?eq t)"
      using "1.IH" True "1.prems" by simp
    moreover have "t = d \<or> d + 1 \<le> t" if "d \<le> t" for t using that by linarith
    ultimately show ?thesis using True by auto
  next
    case False
    then have "rightShift s1 s2 cur len d = d" by (auto simp: eq)
    then show ?thesis using "1.prems" by simp
  qed
qed

text \<open>Strongly equal elements of sequences are equal.\<close>

lemma strongly_periodic:
  assumes "sequence s1" and "sequence s2"
    and "isStronglyEqual s1 (start (seq1Range d) + t) (endExclusive (seq1Range d) + t)"
    and "isStronglyEqual s2 (start (seq2Range d) + t) (endExclusive (seq2Range d) + t)"
    and "0 \<le> start (seq1Range d) + t" "start (seq1Range d) \<le> endExclusive (seq1Range d)" "endExclusive (seq1Range d) + t < seqLength s1"
    and "0 \<le> start (seq2Range d) + t" "start (seq2Range d) \<le> endExclusive (seq2Range d)" "endExclusive (seq2Range d) + t < seqLength s2"
  shows "periodic s1 s2 d t"
  unfolding periodic_def
  using sequence.strongly_equal [OF assms(1,3)] sequence.strongly_equal [OF assms(2,4)] assms(5-) by simp

lemma joinRight_step_ok:
  assumes s: "sequence s1" "sequence s2" and al: "alignment s1 s2 g i j (cur # nxt # rest)" and nn: "0 \<le> i" "0 \<le> j" "0 \<le> g"
  shows "\<exists>r. joinRight_step s1 s2 cur nxt = Inr r \<and>
    (\<forall>g i j. 0 \<le> i \<longrightarrow> 0 \<le> j \<longrightarrow> 0 \<le> g \<longrightarrow> alignment s1 s2 g i j (cur # nxt # rest) \<longrightarrow>
      (case r of Inl joined \<Rightarrow> alignment s1 s2 g i j (joined # rest) | Inr cur' \<Rightarrow> alignment s1 s2 g i j (cur' # nxt # rest)))"
proof (cases "OffsetRange_isEmpty (seq1Range cur) \<or> OffsetRange_isEmpty (seq2Range cur)")
  case False
  then show ?thesis by (simp add: joinRight_step_def)
next
  case True
  let ?c1 = "seq1Range cur" and ?c2 = "seq2Range cur" and ?n1 = "seq1Range nxt" and ?n2 = "seq2Range nxt"
  define len where "len = start ?n1 - endExclusive ?c1"
  define d where "d = rightShift s1 s2 cur len 0"
  have ord: "start ?c1 \<le> endExclusive ?c1" "start ?c2 \<le> endExclusive ?c2" "start ?n1 \<le> endExclusive ?n1" "start ?n2 \<le> endExclusive ?n2"
    "0 \<le> start ?c1" "0 \<le> start ?c2" "start ?n1 \<le> seqLength s1" "start ?n2 \<le> seqLength s2"
    using al alignment_bounds [OF al nn(3)] nn by auto
  have len: "1 \<le> len" "start ?n1 = endExclusive ?c1 + len" "start ?n2 = endExclusive ?c2 + len" using al by (simp_all add: len_def)
  have d: "0 \<le> d" "d \<le> len" using rightShift_spec [of 0 len s1 s2 cur] len(1) by (auto simp: d_def)
  have p: "periodic s1 s2 cur t" if "0 \<le> t" "t < d" for t
  proof (rule strongly_periodic [OF s])
    show "isStronglyEqual s1 (start ?c1 + t) (endExclusive ?c1 + t)" "isStronglyEqual s2 (start ?c2 + t) (endExclusive ?c2 + t)"
      using rightShift_spec [of 0 len s1 s2 cur] len(1) that by (auto simp: d_def)
  qed (use that ord len d in auto)
  show ?thesis
  proof (cases "d = len")
    case eq: True
    let ?joined = "SequenceDiff_new (OR (start ?c1 + len) (endExclusive ?n1)) (OR (start ?c2 + len) (endExclusive ?n2))"
    have bnd: "start ?c1 + len \<le> endExclusive ?n1" "start ?c2 + len \<le> endExclusive ?n2" using ord len by simp_all
    have "joinRight_step s1 s2 cur nxt = Inr (Inl ?joined)"
      using True eq bnd by (simp add: joinRight_step_def len_def [symmetric] d_def [symmetric])
    moreover have "alignment s1 s2 g i j (?joined # rest)" if a: "alignment s1 s2 g i j (cur # nxt # rest)" "0 \<le> g" for g i j
    proof -
      have r: "room s1 (endExclusive ?c1) len 0 (nxt # rest)" by (simp add: room_def len(2))
      have "0 \<le> len" using len(1) by simp
      note sr = shift_right [OF a(1) this r _ a(2)]
      have "matching s1 s2 i j (start ?c1 + len - i)" by (rule sr(2)) (use p eq in auto)
      moreover have "alignment s1 s2 1 (endExclusive ?n1) (endExclusive ?n2) rest" "i + g \<le> start ?c1" "start ?c2 - j = start ?c1 - i"
        using a(1) unfolding alignment.simps by blast+
      ultimately show ?thesis using bnd \<open>0 \<le> len\<close> by simp
    qed
    ultimately show ?thesis by (simp del: alignment.simps)
  next
    case ne: False
    have "joinRight_step s1 s2 cur nxt = Inr (Inr (shifted cur d))"
      using True ne d ord by (auto simp: joinRight_step_def len_def [symmetric] d_def [symmetric] SequenceDiff_delta_shifted shifted_0)
    moreover have "alignment s1 s2 g i j (shifted cur d # nxt # rest)" if a: "alignment s1 s2 g i j (cur # nxt # rest)" "0 \<le> g" for g i j
      by (rule shift_right_alignment [OF a(1) d(1) _ a(2) p]) (use d ne len in \<open>auto simp: room_def\<close>)
    ultimately show ?thesis by (simp del: alignment.simps)
  qed
qed

lemma joinRight_loop_ok:
  "sequence s1 \<Longrightarrow> sequence s2 \<Longrightarrow> valid_diffs s1 s2 (result2 @ ds) \<Longrightarrow>
   \<exists>r. joinRight_loop s1 s2 result2 ds = Inr r \<and> valid_diffs s1 s2 r"
proof (induction s1 s2 result2 ds rule: joinRight_loop.induct)
  case (3 s1 s2 result2 cur nxt rest)
  obtain g i j where "0 \<le> i" "0 \<le> j" "0 \<le> g" "alignment s1 s2 g i j (cur # nxt # rest)"
    using alignment_suffix [of s1 s2 0 0 0 result2 "cur # nxt # rest"] "3.prems"(3) by (auto simp: valid_diffs_def)
  then obtain r where r: "joinRight_step s1 s2 cur nxt = Inr r"
    "\<And>g i j. 0 \<le> i \<Longrightarrow> 0 \<le> j \<Longrightarrow> 0 \<le> g \<Longrightarrow> alignment s1 s2 g i j (cur # nxt # rest) \<Longrightarrow>
      (case r of Inl joined \<Rightarrow> alignment s1 s2 g i j (joined # rest) | Inr cur' \<Rightarrow> alignment s1 s2 g i j (cur' # nxt # rest))"
    using joinRight_step_ok [OF "3.prems"(1,2)] by blast
  note al = "3.prems"(3) [unfolded valid_diffs_def]
  show ?case
  proof (cases r)
    case (Inl joined)
    have "valid_diffs s1 s2 (result2 @ joined # rest)"
      unfolding valid_diffs_def by (rule alignment_replace [OF al]) (use r(2) Inl in auto)
    then show ?thesis using "3.IH"(1) [OF r(1) Inl] "3.prems" r(1) by (simp add: Inl)
  next
    case (Inr cur')
    have "valid_diffs s1 s2 (result2 @ cur' # nxt # rest)"
      unfolding valid_diffs_def by (rule alignment_replace [OF al]) (use r(2) Inr in auto)
    then show ?thesis using "3.IH"(2) [OF r(1) Inr] "3.prems" r(1) by (simp add: Inr)
  qed
qed auto

lemma joinSequenceDiffsByShifting_ok:
  assumes "sequence s1" and "sequence s2" and "valid_diffs s1 s2 ds"
  shows "\<exists>r. joinSequenceDiffsByShifting s1 s2 ds = Inr r \<and> valid_diffs s1 s2 r"
proof (cases ds)
  case (Cons d rest)
  obtain result where "joinLeft_loop s1 s2 [d] rest = Inr result" "valid_diffs s1 s2 result"
    using joinLeft_loop_ok [of s1 s2 "[d]" rest] assms(3) by (auto simp: Cons)
  then show ?thesis using joinRight_loop_ok [OF assms(1,2), of "[]" result] by (simp add: joinSequenceDiffsByShifting_def Cons)
qed (use assms(3) in \<open>simp add: joinSequenceDiffsByShifting_def\<close>)

section \<open>Better positions\<close>

lemma deltaBefore_spec:
  "b \<le> deltaBefore_loop s2 d v1 v2 b \<and> (\<forall>t. b \<le> t \<longrightarrow> t < deltaBefore_loop s2 d v1 v2 b \<longrightarrow>
     start v1 \<le> start (seq1Range d) - t \<and> start v2 \<le> start (seq2Range d) - t \<and>
     isStronglyEqual s2 (start (seq2Range d) - t) (endExclusive (seq2Range d) - t))"
proof (induction s2 d v1 v2 b rule: deltaBefore_loop.induct)
  case (1 s2 d v1 v2 b)
  note eq = deltaBefore_loop.simps [of s2 d v1 v2 b]
  let ?c = "start (seq1Range d) - b \<ge> start v1 \<and> start (seq2Range d) - b \<ge> start v2 \<and>
     isStronglyEqual s2 (start (seq2Range d) - b) (endExclusive (seq2Range d) - b) \<and> b < maxShiftLimit"
  show ?case
  proof (cases ?c)
    case True
    have loop: "deltaBefore_loop s2 d v1 v2 b = deltaBefore_loop s2 d v1 v2 (b + 1)"
      by (subst eq) (simp only: True simp_thms if_True)
    have less: "t = b \<or> b + 1 \<le> t" if "b \<le> t" for t using that by linarith
    have ih: "b + 1 \<le> deltaBefore_loop s2 d v1 v2 (b + 1)"
      "\<And>t. b + 1 \<le> t \<Longrightarrow> t < deltaBefore_loop s2 d v1 v2 (b + 1) \<Longrightarrow> start v1 \<le> start (seq1Range d) - t \<and> start v2 \<le> start (seq2Range d) - t \<and>
        isStronglyEqual s2 (start (seq2Range d) - t) (endExclusive (seq2Range d) - t)"
      using "1.IH" [OF True] by blast+
    show ?thesis
      unfolding loop
    proof (intro conjI [of "b \<le> _"] allI impI)
      show "b \<le> deltaBefore_loop s2 d v1 v2 (b + 1)" using ih(1) by simp
      fix t assume t: "b \<le> t" "t < deltaBefore_loop s2 d v1 v2 (b + 1)"
      show "start v1 \<le> start (seq1Range d) - t \<and> start v2 \<le> start (seq2Range d) - t \<and>
        isStronglyEqual s2 (start (seq2Range d) - t) (endExclusive (seq2Range d) - t)"
        using less [OF t(1)] True ih(2) [OF _ t(2)] by blast
    qed
  next
    case False
    then have "deltaBefore_loop s2 d v1 v2 b = b" by (subst eq) (simp only: if_False)
    then show ?thesis by simp
  qed
qed

lemma deltaAfter_spec:
  "b \<le> deltaAfter_loop s2 d v1 v2 b \<and> (\<forall>t. b \<le> t \<longrightarrow> t < deltaAfter_loop s2 d v1 v2 b \<longrightarrow>
     start (seq1Range d) + t < endExclusive v1 \<and> endExclusive (seq2Range d) + t < endExclusive v2 \<and>
     isStronglyEqual s2 (start (seq2Range d) + t) (endExclusive (seq2Range d) + t))"
proof (induction s2 d v1 v2 b rule: deltaAfter_loop.induct)
  case (1 s2 d v1 v2 b)
  note eq = deltaAfter_loop.simps [of s2 d v1 v2 b]
  let ?c = "start (seq1Range d) + b < endExclusive v1 \<and> endExclusive (seq2Range d) + b < endExclusive v2 \<and>
     isStronglyEqual s2 (start (seq2Range d) + b) (endExclusive (seq2Range d) + b) \<and> b < maxShiftLimit"
  show ?case
  proof (cases ?c)
    case True
    have loop: "deltaAfter_loop s2 d v1 v2 b = deltaAfter_loop s2 d v1 v2 (b + 1)"
      by (subst eq) (simp only: True simp_thms if_True)
    have less: "t = b \<or> b + 1 \<le> t" if "b \<le> t" for t using that by linarith
    have ih: "b + 1 \<le> deltaAfter_loop s2 d v1 v2 (b + 1)"
      "\<And>t. b + 1 \<le> t \<Longrightarrow> t < deltaAfter_loop s2 d v1 v2 (b + 1) \<Longrightarrow> start (seq1Range d) + t < endExclusive v1 \<and> endExclusive (seq2Range d) + t < endExclusive v2 \<and>
        isStronglyEqual s2 (start (seq2Range d) + t) (endExclusive (seq2Range d) + t)"
      using "1.IH" [OF True] by blast+
    show ?thesis
      unfolding loop
    proof (intro conjI [of "b \<le> _"] allI impI)
      show "b \<le> deltaAfter_loop s2 d v1 v2 (b + 1)" using ih(1) by simp
      fix t assume t: "b \<le> t" "t < deltaAfter_loop s2 d v1 v2 (b + 1)"
      show "start (seq1Range d) + t < endExclusive v1 \<and> endExclusive (seq2Range d) + t < endExclusive v2 \<and>
        isStronglyEqual s2 (start (seq2Range d) + t) (endExclusive (seq2Range d) + t)"
        using less [OF t(1)] True ih(2) [OF _ t(2)] by blast
    qed
  next
    case False
    then have "deltaAfter_loop s2 d v1 v2 b = b" by (subst eq) (simp only: if_False)
    then show ?thesis by simp
  qed
qed

lemma bestDelta_ok:
  assumes "\<And>t. lo \<le> t \<Longrightarrow> t \<le> hi \<Longrightarrow> \<exists>a b c. b1 (start (seq1Range d) + t) = Inr a \<and>
      b2 (start (seq2Range d) + t) = Inr b \<and> b2 (endExclusive (seq2Range d) + t) = Inr c"
  shows "lo \<le> delta \<Longrightarrow> lo \<le> best \<Longrightarrow> best \<le> hi \<Longrightarrow>
   \<exists>k. bestDelta_loop b1 b2 d hi delta best sc = Inr k \<and> lo \<le> k \<and> k \<le> hi"
proof (induction "nat (hi + 1 - delta)" arbitrary: delta best sc)
  case 0
  then show ?case by (simp add: bestDelta_loop.simps [of b1 b2 d hi delta best sc])
next
  case (Suc n)
  then have "delta \<le> hi" and n: "n = nat (hi + 1 - (delta + 1))" by simp_all
  moreover obtain a b c where "b1 (start (seq1Range d) + delta) = Inr a" "b2 (start (seq2Range d) + delta) = Inr b"
    "b2 (endExclusive (seq2Range d) + delta) = Inr c"
    using assms [OF Suc.prems(1) \<open>delta \<le> hi\<close>] by blast
  ultimately show ?case
    using Suc.hyps(1) [OF n, of delta "a + b + c"] Suc.hyps(1) [OF n, of best sc] Suc.prems
    by (simp add: bestDelta_loop.simps [of b1 b2 d hi delta best sc])
qed

text \<open>The valid ranges the loop passes keep a gap to both neighbours.\<close>

lemma shiftDiff_ok:
  assumes s2: "sequence s2" and al: "alignment s1 s2 g i j (d # rest)" and nn: "0 \<le> i" "0 \<le> j" "0 \<le> g"
    and e: "start (seq1Range d) = endExclusive (seq1Range d)"
    and v: "start v1 = i + g" "start v2 = j + g"
      "endExclusive v1 = (case rest of [] \<Rightarrow> seqLength s1 | n # _ \<Rightarrow> start (seq1Range n) - 1)"
      "endExclusive v2 = (case rest of [] \<Rightarrow> seqLength s2 | n # _ \<Rightarrow> start (seq2Range n) - 1)"
    and sc: "scores_defined b1 (seqLength s1)" "scores_defined b2 (seqLength s2)"
  shows "\<exists>d'. shiftDiffToBetterPosition d b1 s2 b2 v1 v2 = Inr d' \<and> alignment s1 s2 g i j (d' # rest)"
proof -
  let ?r1 = "seq1Range d" and ?r2 = "seq2Range d"
  define bf where "bf = deltaBefore_loop s2 d v1 v2 1 - 1"
  define af where "af = deltaAfter_loop s2 d v1 v2 0"
  note bnd = alignment_bounds [OF al nn(3)]
  have ord: "start ?r1 \<le> endExclusive ?r1" "start ?r2 \<le> endExclusive ?r2" "0 \<le> start ?r2"
    "endExclusive ?r1 \<le> seqLength s1" "endExclusive ?r2 \<le> seqLength s2"
    using bnd nn by auto
  have vend: "endExclusive v2 \<le> seqLength s2" using v(4) bnd by (cases rest) auto
  have pos: "0 \<le> bf" "0 \<le> af" using deltaBefore_spec [of 1 s2 d v1 v2] deltaAfter_spec [of 0 s2 d v1 v2] by (simp_all add: bf_def af_def)
  have left: "start v1 \<le> start ?r1 - t \<and> start v2 \<le> start ?r2 - t \<and> periodic s1 s2 d (- t)" if "1 \<le> t" "t \<le> bf" for t
  proof -
    have "start v1 \<le> start ?r1 - t" "start v2 \<le> start ?r2 - t" and eq: "isStronglyEqual s2 (start ?r2 - t) (endExclusive ?r2 - t)"
      using deltaBefore_spec [of 1 s2 d v1 v2] that by (auto simp: bf_def)
    moreover have "getElement s2 (start ?r2 - t) = getElement s2 (endExclusive ?r2 - t)"
      by (rule sequence.strongly_equal [OF s2 eq]) (use calculation(2) v(2) nn that ord in auto)
    ultimately show ?thesis by (simp add: periodic_def e)
  qed
  have right: "start ?r1 + t < endExclusive v1 \<and> periodic s1 s2 d t" if "0 \<le> t" "t < af" for t
  proof -
    have "start ?r1 + t < endExclusive v1" "endExclusive ?r2 + t < endExclusive v2"
      and eq: "isStronglyEqual s2 (start ?r2 + t) (endExclusive ?r2 + t)"
      using deltaAfter_spec [of 0 s2 d v1 v2] that by (auto simp: af_def)
    moreover have "getElement s2 (start ?r2 + t) = getElement s2 (endExclusive ?r2 + t)"
      by (rule sequence.strongly_equal [OF s2 eq]) (use calculation(2) vend that ord in auto)
    ultimately show ?thesis by (simp add: periodic_def e)
  qed
  have vend1: "endExclusive v1 \<le> seqLength s1" using v(3) bnd by (cases rest) auto
  have after: "endExclusive ?r2 + af \<le> seqLength s2 \<and> start ?r1 + af \<le> seqLength s1"
  proof (cases "af = 0")
    case False
    then show ?thesis using deltaAfter_spec [of 0 s2 d v1 v2] pos vend vend1 by (auto simp: af_def [symmetric] dest: spec [of _ "af - 1"])
  qed (use ord e in simp)
  have before: "0 \<le> start ?r2 - bf \<and> 0 \<le> start ?r1 - bf"
    using left [of bf] pos v(1,2) nn ord e bnd by (cases "bf = 0") auto
  have "\<exists>a b c. b1 (start ?r1 + t) = Inr a \<and> b2 (start ?r2 + t) = Inr b \<and> b2 (endExclusive ?r2 + t) = Inr c"
    if "- bf \<le> t" "t \<le> af" for t
  proof -
    have "0 \<le> start ?r1 + t" "start ?r1 + t \<le> seqLength s1" "0 \<le> start ?r2 + t" "start ?r2 + t \<le> seqLength s2"
      "0 \<le> endExclusive ?r2 + t" "endExclusive ?r2 + t \<le> seqLength s2"
      using before after that ord by linarith+
    then show ?thesis using sc unfolding scores_defined_def by blast
  qed
  then obtain k where k: "bestDelta_loop b1 b2 d af (- bf) 0 (- 1) = Inr k" "- bf \<le> k" "k \<le> af"
    using bestDelta_ok [of "- bf" af b1 d b2 "- bf" 0 "- 1"] pos by auto
  have "alignment s1 s2 g i j (shifted d k # rest)"
  proof (cases "k < 0")
    case True
    have "alignment s1 s2 g i j (shifted d (- (- k)) # rest)"
    proof (rule shift_left [OF al _ _ nn(3)])
      show "0 \<le> - k" using True by simp
      show "i + g + - k \<le> start ?r1" using left [of "- k"] True k(2) v(1) by auto
      show "periodic s1 s2 d t" if "- (- k) \<le> t" "t < 0" for t using left [of "- t"] that k(2) by auto
    qed
    then show ?thesis by simp
  next
    case False
    show ?thesis
    proof (rule shift_right_alignment [OF al _ _ nn(3)])
      show "0 \<le> k" using False by simp
      show "periodic s1 s2 d t" if "0 \<le> t" "t < k" for t using right that k(3) by auto
      show "room s1 (endExclusive ?r1) k 1 rest"
      proof (cases "k = 0")
        case True
        then show ?thesis using al bnd by (cases rest) (auto simp: room_def)
      next
        case k0: False
        then have "start ?r1 + (k - 1) < endExclusive v1" using right [of "k - 1"] False k(3) by auto
        then show ?thesis using v(3) e by (cases rest) (auto simp: room_def)
      qed
    qed
  qed
  moreover have "shiftDiffToBetterPosition d b1 s2 b2 v1 v2 = Inr (if bf = 0 \<and> af = 0 then d else shifted d k)"
    using ord by (simp add: shiftDiffToBetterPosition_def Let_def bf_def [symmetric] af_def [symmetric] k(1)
        SequenceDiff_delta_shifted)
  ultimately show ?thesis using al by auto
qed

lemma matching_swap: "matching s2 s1 j i n = matching s1 s2 i j n"
  by (auto simp: matching_def)

lemma swap_sel [simp]: "seq1Range (SequenceDiff_swap d) = seq2Range d" "seq2Range (SequenceDiff_swap d) = seq1Range d"
  by (simp_all add: SequenceDiff_swap_def)

lemma swap_swap [simp]: "SequenceDiff_swap (SequenceDiff_swap d) = d"
  by (simp add: SequenceDiff_swap_def SequenceDiff_new_def)

lemma alignment_swap: "alignment s1 s2 g i j ds \<Longrightarrow> alignment s2 s1 g j i (map SequenceDiff_swap ds)"
proof (induction ds arbitrary: g i j)
  case (Cons d ds)
  have "matching s2 s1 j i (start (seq2Range d) - j)" using Cons.prems by (simp add: matching_swap)
  then show ?case using Cons by auto
qed (auto simp: matching_swap)

lemma shift_loop_ok:
  "sequence s1 \<Longrightarrow> sequence s2 \<Longrightarrow> alignment s1 s2 g i j ds \<Longrightarrow> 0 \<le> i \<Longrightarrow> 0 \<le> j \<Longrightarrow> 0 \<le> g \<Longrightarrow>
   i + g = (case prev of Some p \<Rightarrow> endExclusive (seq1Range p) + 1 | None \<Rightarrow> 0) \<Longrightarrow>
   j + g = (case prev of Some p \<Rightarrow> endExclusive (seq2Range p) + 1 | None \<Rightarrow> 0) \<Longrightarrow>
   scores_defined b1 (seqLength s1) \<Longrightarrow> scores_defined b2 (seqLength s2) \<Longrightarrow>
   \<exists>r. shift_loop s1 b1 s2 b2 prev ds = Inr r \<and> alignment s1 s2 g i j r"
proof (induction ds arbitrary: g i j prev)
  case (Cons d rest)
  note s = Cons.prems(1,2) and al = Cons.prems(3) and nn = Cons.prems(4-6) and pv = Cons.prems(7,8) and sc = Cons.prems(9,10)
  let ?r1 = "seq1Range d" and ?r2 = "seq2Range d"
  define e1 where "e1 = (case rest of [] \<Rightarrow> seqLength s1 | n # _ \<Rightarrow> start (seq1Range n) - 1)"
  define e2 where "e2 = (case rest of [] \<Rightarrow> seqLength s2 | n # _ \<Rightarrow> start (seq2Range n) - 1)"
  note bnd = alignment_bounds [OF al nn(3)]
  have le: "i + g \<le> e1" "j + g \<le> e2"
    using al bnd by (cases rest; auto simp: e1_def e2_def)+
  have opt: "(case (case rest of [] \<Rightarrow> None | n # _ \<Rightarrow> Some n) of None \<Rightarrow> x | Some n \<Rightarrow> f n) = (case rest of [] \<Rightarrow> x | n # _ \<Rightarrow> f n)"
    for x :: int and f by (cases rest) simp_all
  obtain d' where d': "(if OffsetRange_isEmpty ?r1 then shiftDiffToBetterPosition d b1 s2 b2 (OR (i + g) e1) (OR (j + g) e2)
       else if OffsetRange_isEmpty ?r2 then
         bindr (shiftDiffToBetterPosition (SequenceDiff_swap d) b2 s1 b1 (OR (j + g) e2) (OR (i + g) e1)) (\<lambda>x. Inr (SequenceDiff_swap x))
       else Inr d) = Inr d'" "alignment s1 s2 g i j (d' # rest)"
  proof (cases "OffsetRange_isEmpty ?r1")
    case True
    then show ?thesis
      using shiftDiff_ok [OF s(2) al nn, of "OR (i + g) e1" "OR (j + g) e2" b1 b2] that sc
      by (auto simp: OffsetRange_isEmpty_def e1_def e2_def)
  next
    case F: False
    show ?thesis
    proof (cases "OffsetRange_isEmpty ?r2")
      case True
      have "\<exists>x. shiftDiffToBetterPosition (SequenceDiff_swap d) b2 s1 b1 (OR (j + g) e2) (OR (i + g) e1) = Inr x \<and>
          alignment s2 s1 g j i (x # map SequenceDiff_swap rest)"
      proof (rule shiftDiff_ok [OF s(1) _ nn(2,1,3)])
        show "alignment s2 s1 g j i (SequenceDiff_swap d # map SequenceDiff_swap rest)" using alignment_swap [OF al] by simp
      qed (use True sc in \<open>auto simp: OffsetRange_isEmpty_def e1_def e2_def split: list.split\<close>)
      then obtain x where x: "shiftDiffToBetterPosition (SequenceDiff_swap d) b2 s1 b1 (OR (j + g) e2) (OR (i + g) e1) = Inr x"
        "alignment s2 s1 g j i (x # map SequenceDiff_swap rest)" by blast
      have "alignment s1 s2 g i j (SequenceDiff_swap x # rest)" using alignment_swap [OF x(2)] by (simp add: comp_def)
      then show ?thesis using that F True x(1) by simp
    next
      case False
      then show ?thesis using that F al by simp
    qed
  qed
  obtain r where r: "shift_loop s1 b1 s2 b2 (Some d') rest = Inr r"
    "alignment s1 s2 1 (endExclusive (seq1Range d')) (endExclusive (seq2Range d')) r"
    using Cons.IH [OF s, of 1 "endExclusive (seq1Range d')" "endExclusive (seq2Range d')" "Some d'"] d'(2) nn sc by auto
  have "shift_loop s1 b1 s2 b2 prev (d # rest) = Inr (d' # r)"
    using le d'(1) r(1) by (simp add: Let_def pv [symmetric] opt e1_def [symmetric] e2_def [symmetric])
  then show ?case using d'(2) r(2) by auto
qed simp

lemma shiftSequenceDiffs_ok:
  assumes "sequence s1" and "sequence s2" and "valid_diffs s1 s2 ds"
  shows "\<exists>r. shiftSequenceDiffs s1 s2 ds = Inr r \<and> valid_diffs s1 s2 r"
  using assms(3) shift_loop_ok [OF assms(1,2), of 0 0 0 ds None]
    sequence.score_defined [OF assms(1)] sequence.score_defined [OF assms(2)]
  by (auto simp: shiftSequenceDiffs_def valid_diffs_def split: option.split)

lemma optimizeSequenceDiffs_ok:
  assumes "sequence s1" and "sequence s2" and "valid_diffs s1 s2 ds"
  shows "\<exists>r. optimizeSequenceDiffs s1 s2 ds = Inr r \<and> valid_diffs s1 s2 r"
proof -
  note join = joinSequenceDiffsByShifting_ok [OF assms(1,2)]
  obtain r1 where r1: "joinSequenceDiffsByShifting s1 s2 ds = Inr r1" "valid_diffs s1 s2 r1" using join [OF assms(3)] by blast
  obtain r2 where r2: "joinSequenceDiffsByShifting s1 s2 r1 = Inr r2" "valid_diffs s1 s2 r2" using join [OF r1(2)] by blast
  from shiftSequenceDiffs_ok [OF assms(1,2) r2(2)] show ?thesis by (simp add: optimizeSequenceDiffs_def r1(1) r2(1))
qed

end
