(* ===== verification/Diff_Lines.thy ===== *)
theory Diff_Lines
  imports Diff_Sequence
begin

text \<open>
  The lines of two documents as sequences:
  \<open>src/vs/editor/common/diff/defaultLinesDiffComputer/lineSequence.ts\<close> and the numbering of the trimmed
  lines in \<open>computeDiff\<close> of \<open>defaultLinesDiffComputer.ts\<close>. The numbers are a perfect hash: two lines,
  of the same document or of both, get the same number exactly when they are equal after \<open>trim\<close>
  (\<open>lineHashes_perfect\<close>), so a line is an element that ignores the white space around it and
  \<open>isStronglyEqual\<close> compares the lines as they are. \<open>LineSequence\<close> provides the interface \<open>sequence\<close>.
\<close>

section \<open>White space\<close>

text \<open>The white space and line terminators of the language, the characters that \<open>trim\<close> removes and
  \<open>\s\<close> matches.\<close>

definition isWhiteSpace :: "16 word \<Rightarrow> bool" where
  "isWhiteSpace c \<longleftrightarrow>
     (let n = uint c in (9 \<le> n \<and> n \<le> 13) \<or> n = 32 \<or> n = 160 \<or> n = 5760 \<or> (8192 \<le> n \<and> n \<le> 8202) \<or>
        n = 8232 \<or> n = 8233 \<or> n = 8239 \<or> n = 8287 \<or> n = 12288 \<or> n = 65279)"

definition js_trimStart :: "utf16 \<Rightarrow> utf16" where
  "js_trimStart s = dropWhile isWhiteSpace s"

definition js_trimEnd :: "utf16 \<Rightarrow> utf16" where
  "js_trimEnd s = rev (dropWhile isWhiteSpace (rev s))"

definition js_trim :: "utf16 \<Rightarrow> utf16" where
  "js_trim s = js_trimEnd (js_trimStart s)"

text \<open>\<open>text.replace(/\s/g, '')\<close>.\<close>

definition withoutWhiteSpace :: "utf16 \<Rightarrow> utf16" where
  "withoutWhiteSpace s = [c \<leftarrow> s. \<not> isWhiteSpace c]"

text \<open>An index into an array; \<open>None\<close> where the language reads \<open>undefined\<close>.\<close>

definition js_at :: "'a list \<Rightarrow> int \<Rightarrow> 'a option" where
  "js_at xs i = (if 0 \<le> i \<and> i < int (length xs) then Some (xs ! nat i) else None)"

lemma js_at_None_iff: "js_at xs i = None \<longleftrightarrow> i < 0 \<or> int (length xs) \<le> i"
  by (auto simp: js_at_def)

lemma js_at_map: "js_at (map f xs) i = map_option f (js_at xs i)"
  by (auto simp: js_at_def)

section \<open>Numbering the trimmed lines\<close>

text \<open>The map \<open>perfectHashes\<close>, its entries in the order of insertion.\<close>

type_synonym perfectHashes = "(utf16 \<times> int) list"

definition getOrCreateHash :: "perfectHashes \<Rightarrow> utf16 \<Rightarrow> int \<times> perfectHashes" where
  "getOrCreateHash perfectHashes txt =
     (case map_of perfectHashes txt of
        Some hash \<Rightarrow> (hash, perfectHashes)
      | None \<Rightarrow> (let hash = int (length perfectHashes) in (hash, perfectHashes @ [(txt, hash)])))"

fun hashLines :: "perfectHashes \<Rightarrow> utf16 list \<Rightarrow> int list \<times> perfectHashes" where
  "hashLines perfectHashes [] = ([], perfectHashes)"
| "hashLines perfectHashes (l # ls) =
     (let (hash, perfectHashes1) = getOrCreateHash perfectHashes (js_trim l);
          (rest, perfectHashes2) = hashLines perfectHashes1 ls
      in (hash # rest, perfectHashes2))"

definition lineHashes :: "utf16 list \<Rightarrow> utf16 list \<Rightarrow> int list \<times> int list" where
  "lineHashes originalLines modifiedLines =
     (let (originalLinesHashes, perfectHashes1) = hashLines [] originalLines;
          (modifiedLinesHashes, perfectHashes2) = hashLines perfectHashes1 modifiedLines
      in (originalLinesHashes, modifiedLinesHashes))"

text \<open>The invariant of the map: the values count the entries, the keys are distinct.\<close>

definition hashes_inv :: "perfectHashes \<Rightarrow> bool" where
  "hashes_inv m \<longleftrightarrow> distinct (map fst m) \<and> map snd m = map int [0..<length m]"

lemma hashes_inv_injective:
  assumes "hashes_inv m" and "map_of m x = Some h" and "map_of m y = Some h"
  shows "x = y"
proof -
  have "distinct (map snd m)" using assms(1) by (simp add: hashes_inv_def distinct_map)
  moreover have "(x, h) \<in> set m" "(y, h) \<in> set m" using assms(2,3) by (auto dest: map_of_SomeD)
  ultimately show ?thesis by (force simp: distinct_map inj_on_def)
qed

lemma map_of_append: "map_of (m @ n) x = (case map_of m x of Some h \<Rightarrow> Some h | None \<Rightarrow> map_of n x)"
  by (simp add: map_add_def split: option.split)

lemma getOrCreateHash_ok:
  assumes "hashes_inv m" and "getOrCreateHash m t = (h, m')"
  shows "hashes_inv m' \<and> (\<exists>n. m' = m @ n) \<and> map_of m' t = Some h"
proof (cases "map_of m t")
  case None
  then have "t \<notin> set (map fst m)" by (simp add: map_of_eq_None_iff)
  then show ?thesis using assms None
    by (auto simp: getOrCreateHash_def Let_def hashes_inv_def map_add_def)
qed (use assms in \<open>auto simp: getOrCreateHash_def\<close>)

lemma hashLines_ok:
  "hashes_inv m \<Longrightarrow> hashLines m ls = (hs, m') \<Longrightarrow>
   hashes_inv m' \<and> (\<exists>n. m' = m @ n) \<and> map Some hs = map (\<lambda>l. map_of m' (js_trim l)) ls"
proof (induction m ls arbitrary: hs m' rule: hashLines.induct)
  case (2 m l ls)
  obtain h m1 where h: "getOrCreateHash m (js_trim l) = (h, m1)" by fastforce
  obtain hs' m2 where hs: "hashLines m1 ls = (hs', m2)" by fastforce
  have eq: "h # hs' = hs" "m2 = m'" using "2.prems"(2) by (simp_all add: h hs)
  note one = getOrCreateHash_ok [OF "2.prems"(1) h]
  then have rest: "hashes_inv m2 \<and> (\<exists>n. m2 = m1 @ n) \<and> map Some hs' = map (\<lambda>l. map_of m2 (js_trim l)) ls"
    using "2.IH" [OF h [symmetric] _ _ hs] by simp
  moreover obtain n where "m2 = m1 @ n" using rest by blast
  then have "map_of m2 (js_trim l) = Some h" using one by (simp add: map_of_append)
  moreover have "\<exists>n. m2 = m @ n" using one rest by auto
  ultimately show ?case unfolding eq [symmetric] by simp
qed simp

lemma hashes_inv_Nil [simp]: "hashes_inv []"
  by (simp add: hashes_inv_def)

text \<open>Both arrays are values of one injective map on the trimmed lines.\<close>

lemma lineHashes_map:
  assumes "lineHashes ls1 ls2 = (h1, h2)"
  obtains m where "hashes_inv m" and "map Some h1 = map (\<lambda>l. map_of m (js_trim l)) ls1"
    and "map Some h2 = map (\<lambda>l. map_of m (js_trim l)) ls2"
proof -
  obtain m1 where m1: "hashLines [] ls1 = (h1, m1)" using assms by (auto simp: lineHashes_def split: prod.splits)
  obtain m2 where m2: "hashLines m1 ls2 = (h2, m2)" using assms by (auto simp: lineHashes_def m1 split: prod.splits)
  note one = hashLines_ok [OF hashes_inv_Nil m1]
  then have two: "hashes_inv m2 \<and> (\<exists>n. m2 = m1 @ n) \<and> map Some h2 = map (\<lambda>l. map_of m2 (js_trim l)) ls2"
    using hashLines_ok [OF _ m2] by simp
  obtain n where n: "m2 = m1 @ n" using two by blast
  have "map_of m2 (js_trim l) = map_of m1 (js_trim l)" if "l \<in> set ls1" for l
  proof -
    have "map_of m1 (js_trim l) \<in> set (map Some h1)" using one that by simp
    then obtain h where "Some h = map_of m1 (js_trim l)" by fastforce
    then show ?thesis unfolding n map_of_append by (auto split: option.split)
  qed
  then have "map Some h1 = map (\<lambda>l. map_of m2 (js_trim l)) ls1" using one by simp
  with two that show ?thesis by blast
qed

lemma lineHashes_eq:
  assumes "lineHashes ls1 ls2 = (h1, h2)"
  shows "length h1 = length ls1" "length h2 = length ls2"
    and "i < length ls1 \<Longrightarrow> j < length ls2 \<Longrightarrow> h1 ! i = h2 ! j \<longleftrightarrow> js_trim (ls1 ! i) = js_trim (ls2 ! j)"
    and "i < length ls1 \<Longrightarrow> j < length ls1 \<Longrightarrow> h1 ! i = h1 ! j \<longleftrightarrow> js_trim (ls1 ! i) = js_trim (ls1 ! j)"
    and "i < length ls2 \<Longrightarrow> j < length ls2 \<Longrightarrow> h2 ! i = h2 ! j \<longleftrightarrow> js_trim (ls2 ! i) = js_trim (ls2 ! j)"
proof -
  obtain m where m: "hashes_inv m" "map Some h1 = map (\<lambda>l. map_of m (js_trim l)) ls1"
    "map Some h2 = map (\<lambda>l. map_of m (js_trim l)) ls2"
    by (rule lineHashes_map [OF assms])
  have n: "length h1 = length ls1" "length h2 = length ls2" using m(2,3) by (auto dest: map_eq_imp_length_eq)
  then show "length h1 = length ls1" "length h2 = length ls2" .
  have e1: "map_of m (js_trim (ls1 ! i)) = Some (h1 ! i)" if "i < length ls1" for i
    using arg_cong [OF m(2), of "\<lambda>xs. xs ! i"] that n by simp
  have e2: "map_of m (js_trim (ls2 ! i)) = Some (h2 ! i)" if "i < length ls2" for i
    using arg_cong [OF m(3), of "\<lambda>xs. xs ! i"] that n by simp
  note inj = hashes_inv_injective [OF m(1)]
  show "i < length ls1 \<Longrightarrow> j < length ls2 \<Longrightarrow> h1 ! i = h2 ! j \<longleftrightarrow> js_trim (ls1 ! i) = js_trim (ls2 ! j)"
    using e1 e2 inj by (metis option.inject)
  show "i < length ls1 \<Longrightarrow> j < length ls1 \<Longrightarrow> h1 ! i = h1 ! j \<longleftrightarrow> js_trim (ls1 ! i) = js_trim (ls1 ! j)"
    using e1 inj by (metis option.inject)
  show "i < length ls2 \<Longrightarrow> j < length ls2 \<Longrightarrow> h2 ! i = h2 ! j \<longleftrightarrow> js_trim (ls2 ! i) = js_trim (ls2 ! j)"
    using e2 inj by (metis option.inject)
qed

section \<open>The sequence of lines\<close>

definition getIndentation :: "utf16 \<Rightarrow> int" where
  "getIndentation str = int (skipWhile (\<lambda>c. c = 32 \<or> c = 9) str 0)"

definition indentationAt :: "utf16 list \<Rightarrow> int \<Rightarrow> int result" where
  "indentationAt lines i = (case js_at lines i of Some l \<Rightarrow> Inr (getIndentation l) | None \<Rightarrow> Inl TypeErr)"

definition LineSequence_getBoundaryScore :: "utf16 list \<Rightarrow> int \<Rightarrow> int result" where
  "LineSequence_getBoundaryScore lines offset =
     bindr (if offset = 0 then Inr 0 else indentationAt lines (offset - 1)) (\<lambda>indentationBefore.
     bindr (if offset = int (length lines) then Inr 0 else indentationAt lines offset) (\<lambda>indentationAfter.
     Inr (1000 - (indentationBefore + indentationAfter))))"

definition LineSequence :: "int list \<Rightarrow> utf16 list \<Rightarrow> ISequence" where
  "LineSequence trimmedHash lines =
     \<lparr>getElement = js_at trimmedHash, seqLength = int (length trimmedHash),
      isStronglyEqual = (\<lambda>offset1 offset2. js_at lines offset1 = js_at lines offset2),
      getBoundaryScore = Some (LineSequence_getBoundaryScore lines)\<rparr>"

text \<open>\<open>lines.slice(range.start, range.endExclusive).join('\n')\<close>.\<close>

fun join_lines :: "utf16 list \<Rightarrow> utf16" where
  "join_lines [] = []"
| "join_lines [l] = l"
| "join_lines (l # ls) = l @ 10 # join_lines ls"

definition LineSequence_getText :: "utf16 list \<Rightarrow> OffsetRange \<Rightarrow> utf16" where
  "LineSequence_getText lines rng = join_lines (js_slice lines (start rng) (endExclusive rng))"

definition originalSequence :: "utf16 list \<Rightarrow> utf16 list \<Rightarrow> ISequence" where
  "originalSequence originalLines modifiedLines = LineSequence (fst (lineHashes originalLines modifiedLines)) originalLines"

definition modifiedSequence :: "utf16 list \<Rightarrow> utf16 list \<Rightarrow> ISequence" where
  "modifiedSequence originalLines modifiedLines = LineSequence (snd (lineHashes originalLines modifiedLines)) modifiedLines"

lemma indentationAt_ok: "0 \<le> i \<Longrightarrow> i < int (length lines) \<Longrightarrow> \<exists>v. indentationAt lines i = Inr v"
  by (simp add: indentationAt_def js_at_def)

lemma LineSequence_score_ok: "scores_defined (LineSequence_getBoundaryScore lines) (int (length lines))"
  unfolding scores_defined_def
proof (intro allI impI)
  fix i assume i: "0 \<le> i" "i \<le> int (length lines)"
  obtain a where "(if i = 0 then Inr 0 else indentationAt lines (i - 1)) = Inr a"
    using indentationAt_ok [of "i - 1" lines] i by (cases "i = 0") auto
  moreover obtain b where "(if i = int (length lines) then Inr 0 else indentationAt lines i) = Inr b"
    using indentationAt_ok [of i lines] i by (cases "i = int (length lines)") auto
  ultimately show "\<exists>v. LineSequence_getBoundaryScore lines i = Inr v"
    unfolding LineSequence_getBoundaryScore_def by (simp only: bindr_Inr) blast
qed

text \<open>A sequence of lines keeps the laws when equal lines have equal numbers.\<close>

lemma sequence_LineSequence:
  assumes "length hs = length lines"
    and "\<And>i j. i < length lines \<Longrightarrow> j < length lines \<Longrightarrow> lines ! i = lines ! j \<Longrightarrow> hs ! i = hs ! j"
  shows "sequence (LineSequence hs lines)"
proof
  show "isStronglyEqual (LineSequence hs lines) i j \<Longrightarrow> 0 \<le> i \<Longrightarrow> i < seqLength (LineSequence hs lines) \<Longrightarrow>
      0 \<le> j \<Longrightarrow> j < seqLength (LineSequence hs lines) \<Longrightarrow>
      getElement (LineSequence hs lines) i = getElement (LineSequence hs lines) j" for i j
    using assms(1) assms(2) [of "nat i" "nat j"] by (simp add: LineSequence_def js_at_def split: if_splits)
qed (use LineSequence_score_ok assms(1) in \<open>auto simp: LineSequence_def js_at_def\<close>)

interpretation original_lines: sequence "originalSequence ls1 ls2" for ls1 ls2
  unfolding originalSequence_def
  by (cases "lineHashes ls1 ls2") (auto intro!: sequence_LineSequence simp: lineHashes_eq)

interpretation modified_lines: sequence "modifiedSequence ls1 ls2" for ls1 ls2
  unfolding modifiedSequence_def
  by (cases "lineHashes ls1 ls2") (auto intro!: sequence_LineSequence simp: lineHashes_eq)

end
