(* ===== verification/Diff_Removal.thy ===== *)
theory Diff_Removal
  imports Diff_Heuristics Diff_Lines
begin

text \<open>
  Joining diffs across short equal parts:
  \<open>removeShortMatches\<close> and \<open>removeVeryShortMatchingLinesBetweenDiffs\<close> of
  \<open>src/vs/editor/common/diff/defaultLinesDiffComputer/heuristicSequenceOptimizations.ts\<close>. Both replace
  two neighbours by their join, so the result stays a valid alignment (it may contain fewer equal
  elements), and neither throws.
\<close>

section \<open>Removing short matches\<close>

fun removeShortMatches_loop :: "SequenceDiff list \<Rightarrow> SequenceDiff list \<Rightarrow> SequenceDiff list result" where
  "removeShortMatches_loop result [] = Inr result"
| "removeShortMatches_loop result (s # rest) =
     (if result = [] then removeShortMatches_loop (result @ [s]) rest
      else let l = last result in
        if start (seq1Range s) - endExclusive (seq1Range l) \<le> 2 \<or> start (seq2Range s) - endExclusive (seq2Range l) \<le> 2
        then bindr (diff_of (OffsetRange_join (seq1Range l) (seq1Range s)) (OffsetRange_join (seq2Range l) (seq2Range s)))
               (\<lambda>joined. removeShortMatches_loop (butlast result @ [joined]) rest)
        else removeShortMatches_loop (result @ [s]) rest)"

definition removeShortMatches :: "ISequence \<Rightarrow> ISequence \<Rightarrow> SequenceDiff list \<Rightarrow> SequenceDiff list result" where
  "removeShortMatches sequence1 sequence2 sequenceDiffs = removeShortMatches_loop [] sequenceDiffs"

text \<open>One pass of \<open>removeVeryShortMatchingLinesBetweenDiffs\<close>: two diffs are joined when the text between
  them, without white space, has at most four characters and one of them is longer than five lines.
  The flag is \<open>shouldRepeat\<close>; the sequence is given by its lines.\<close>

definition shouldJoinDiffs :: "utf16 list \<Rightarrow> SequenceDiff \<Rightarrow> SequenceDiff \<Rightarrow> bool result" where
  "shouldJoinDiffs sequence1Lines before after =
     bindr (OffsetRange_new (endExclusive (seq1Range before)) (start (seq1Range after))) (\<lambda>unchangedRange.
     Inr (length (withoutWhiteSpace (LineSequence_getText sequence1Lines unchangedRange)) \<le> 4 \<and>
        (OffsetRange_length (seq1Range before) + OffsetRange_length (seq2Range before) > 5 \<or>
         OffsetRange_length (seq1Range after) + OffsetRange_length (seq2Range after) > 5)))"

fun veryShort_pass ::
  "utf16 list \<Rightarrow> SequenceDiff list \<Rightarrow> SequenceDiff list \<Rightarrow> bool \<Rightarrow> (SequenceDiff list \<times> bool) result" where
  "veryShort_pass sequence1Lines result [] shouldRepeat = Inr (result, shouldRepeat)"
| "veryShort_pass sequence1Lines result (cur # rest) shouldRepeat =
     (let lastResult = last result in
      bindr (shouldJoinDiffs sequence1Lines lastResult cur) (\<lambda>shouldJoin.
      if shouldJoin then
        bindr (SequenceDiff_join lastResult cur) (\<lambda>joined. veryShort_pass sequence1Lines (butlast result @ [joined]) rest True)
      else veryShort_pass sequence1Lines (result @ [cur]) rest shouldRepeat))"

text \<open>The loop \<open>do ... while (counter++ < 10 && shouldRepeat)\<close>; the argument counts the rounds left.\<close>

fun veryShort_rounds :: "utf16 list \<Rightarrow> nat \<Rightarrow> SequenceDiff list \<Rightarrow> SequenceDiff list result" where
  "veryShort_rounds sequence1Lines n [] = Inr []"
| "veryShort_rounds sequence1Lines n (d # ds) =
     bindr (veryShort_pass sequence1Lines [d] ds False) (\<lambda>(result, shouldRepeat).
     case n of
       Suc m \<Rightarrow> if shouldRepeat then veryShort_rounds sequence1Lines m result else Inr result
     | 0 \<Rightarrow> Inr result)"

definition removeVeryShortMatchingLinesBetweenDiffs ::
  "utf16 list \<Rightarrow> SequenceDiff list \<Rightarrow> SequenceDiff list result" where
  "removeVeryShortMatchingLinesBetweenDiffs sequence1Lines sequenceDiffs = veryShort_rounds sequence1Lines 10 sequenceDiffs"

section \<open>Joining neighbours keeps the alignment\<close>

lemma joined_valid:
  assumes "valid_diffs s1 s2 (xs @ l # c # rest)"
  obtains joined where "SequenceDiff_join l c = Inr joined" and "valid_diffs s1 s2 (xs @ joined # rest)"
    and "endExclusive (seq1Range l) \<le> start (seq1Range c)"
proof -
  obtain g i j where al: "alignment s1 s2 g i j (l # c # rest)" "0 \<le> g"
    using alignment_suffix [of s1 s2 0 0 0 xs "l # c # rest"] assms by (auto simp: valid_diffs_def)
  have "valid_diffs s1 s2 (xs @ SequenceDiff_new (OR (start (seq1Range l)) (endExclusive (seq1Range c)))
      (OR (start (seq2Range l)) (endExclusive (seq2Range c))) # rest)"
    unfolding valid_diffs_def by (rule alignment_replace [OF assms [unfolded valid_diffs_def]]) (auto intro: join_neighbours)
  moreover have "endExclusive (seq1Range l) \<le> start (seq1Range c)" using al by auto
  ultimately show ?thesis using that SequenceDiff_join_neighbours [OF al] by blast
qed

lemma removeShortMatches_loop_ok:
  "valid_diffs s1 s2 (result @ ds) \<Longrightarrow> \<exists>r. removeShortMatches_loop result ds = Inr r \<and> valid_diffs s1 s2 r"
proof (induction ds arbitrary: result)
  case (Cons s rest)
  show ?case
  proof (cases result rule: rev_cases)
    case Nil
    then show ?thesis using Cons by simp
  next
    case (snoc xs l)
    obtain joined where j: "SequenceDiff_join l s = Inr joined" "valid_diffs s1 s2 (xs @ joined # rest)"
      using joined_valid [of s1 s2 xs l s rest] Cons.prems by (auto simp: snoc)
    then show ?thesis
      using Cons.IH [of "xs @ [joined]"] Cons.IH [of "result @ [s]"] Cons.prems
      by (simp add: snoc Let_def SequenceDiff_join_def)
  qed
qed simp

lemma removeShortMatches_ok:
  "valid_diffs s1 s2 ds \<Longrightarrow> \<exists>r. removeShortMatches s1 s2 ds = Inr r \<and> valid_diffs s1 s2 r"
  using removeShortMatches_loop_ok [of s1 s2 "[]" ds] by (simp add: removeShortMatches_def)

lemma veryShort_pass_ok:
  "valid_diffs s1 s2 (result @ ds) \<Longrightarrow> result \<noteq> [] \<Longrightarrow>
   \<exists>r f. veryShort_pass ls result ds b = Inr (r, f) \<and> valid_diffs s1 s2 r"
proof (induction ds arbitrary: result b)
  case (Cons c rest)
  obtain xs l where snoc: "result = xs @ [l]" using Cons.prems(2) by (cases result rule: rev_cases) auto
  obtain joined where j: "SequenceDiff_join l c = Inr joined" "valid_diffs s1 s2 (xs @ joined # rest)"
    "endExclusive (seq1Range l) \<le> start (seq1Range c)"
    using joined_valid [of s1 s2 xs l c rest] Cons.prems by (auto simp: snoc)
  obtain should where "shouldJoinDiffs ls l c = Inr should"
    using j(3) by (simp add: shouldJoinDiffs_def)
  then show ?case
    using Cons.IH [of "xs @ [joined]" True] Cons.IH [of "result @ [c]" b] Cons.prems j
    by (cases should) (simp_all add: snoc Let_def)
qed simp

lemma veryShort_rounds_ok:
  "valid_diffs s1 s2 ds \<Longrightarrow> \<exists>r. veryShort_rounds ls n ds = Inr r \<and> valid_diffs s1 s2 r"
proof (induction n arbitrary: ds)
  case 0
  show ?case
  proof (cases ds)
    case (Cons d rest)
    then show ?thesis using veryShort_pass_ok [of s1 s2 "[d]" rest ls False] 0 by auto
  qed (use 0 in simp)
next
  case (Suc n)
  show ?case
  proof (cases ds)
    case (Cons d rest)
    obtain r f where "veryShort_pass ls [d] rest False = Inr (r, f)" "valid_diffs s1 s2 r"
      using veryShort_pass_ok [of s1 s2 "[d]" rest ls False] Suc.prems by (auto simp: Cons)
    then show ?thesis using Suc.IH [of r] by (simp add: Cons)
  qed (use Suc.prems in simp)
qed

lemma removeVeryShortMatchingLinesBetweenDiffs_ok:
  "valid_diffs s1 s2 ds \<Longrightarrow> \<exists>r. removeVeryShortMatchingLinesBetweenDiffs ls ds = Inr r \<and> valid_diffs s1 s2 r"
  unfolding removeVeryShortMatchingLinesBetweenDiffs_def by (rule veryShort_rounds_ok)

end
