(* ===== verification/Diff_Dynamic.thy ===== *)
theory Diff_Dynamic
  imports Diff_Sequence
begin

text \<open>
  The quadratic diff algorithm:
  \<open>src/vs/editor/common/diff/defaultLinesDiffComputer/algorithms/dynamicProgrammingDiffing.ts\<close> with
  \<open>Array2D\<close> of \<open>utils.ts\<close>. The three tables are filled row by row; every cell polls the timeout.
  Scores are of any ordered ring (the code adds floating point numbers; only comparisons matter
  here). Reading a cell that was never written is the error \<open>TypeErr\<close>, which never happens. The
  result is a valid alignment whatever the scores are, as long as they are not negative; it is not
  always the longest one, because the score of a diagonal grows with the diagonal before it.
\<close>

section \<open>Tables\<close>

record 'a Array2D =
  width :: int
  cells :: "'a option list"

definition Array2D_new :: "int \<Rightarrow> int \<Rightarrow> 'a Array2D" where
  "Array2D_new w h = \<lparr>width = w, cells = replicate (nat (w * h)) None\<rparr>"

definition Array2D_get :: "'a Array2D \<Rightarrow> int \<Rightarrow> int \<Rightarrow> 'a result" where
  "Array2D_get a x y =
     (let i = nat (x + y * width a)
      in if i < length (cells a) then (case cells a ! i of Some v \<Rightarrow> Inr v | None \<Rightarrow> Inl TypeErr) else Inl TypeErr)"

definition Array2D_set :: "'a Array2D \<Rightarrow> int \<Rightarrow> int \<Rightarrow> 'a \<Rightarrow> 'a Array2D" where
  "Array2D_set a x y v = a\<lparr>cells := (cells a)[nat (x + y * width a) := Some v]\<rparr>"

section \<open>Filling the tables\<close>

record 's dp =
  lcsLengths :: "'s Array2D"
  directions :: "nat Array2D"
  lengths :: "'s Array2D"

text \<open>\<open>equalityScore\<close> is optional and defaults to one.\<close>

definition extendedSeqScore ::
  "ISequence \<Rightarrow> ISequence \<Rightarrow> (int \<Rightarrow> int \<Rightarrow> 's) option \<Rightarrow> 's dp \<Rightarrow> int \<Rightarrow> int \<Rightarrow> 's :: linordered_idom result" where
  "extendedSeqScore seq1 seq2 equalityScore st s1 s2 =
     (if getElement seq1 s1 = getElement seq2 s2 then
        bindr (if s1 = 0 \<or> s2 = 0 then Inr 0 else Array2D_get (lcsLengths st) (s1 - 1) (s2 - 1)) (\<lambda>base.
        bindr (if s1 > 0 \<and> s2 > 0
               then bindr (Array2D_get (directions st) (s1 - 1) (s2 - 1)) (\<lambda>d.
                    if d = 3 then bindr (Array2D_get (lengths st) (s1 - 1) (s2 - 1)) (\<lambda>l. Inr (base + l)) else Inr base)
               else Inr base) (\<lambda>score.
        Inr (score + (case equalityScore of Some f \<Rightarrow> f s1 s2 | None \<Rightarrow> 1))))
      else Inr (- 1))"

definition dp_cell ::
  "ISequence \<Rightarrow> ISequence \<Rightarrow> (int \<Rightarrow> int \<Rightarrow> 's) option \<Rightarrow> 's dp \<Rightarrow> int \<Rightarrow> int \<Rightarrow> 's :: linordered_idom dp result" where
  "dp_cell seq1 seq2 equalityScore st s1 s2 =
     bindr (if s1 = 0 then Inr 0 else Array2D_get (lcsLengths st) (s1 - 1) s2) (\<lambda>horizontalLen.
     bindr (if s2 = 0 then Inr 0 else Array2D_get (lcsLengths st) s1 (s2 - 1)) (\<lambda>verticalLen.
     bindr (extendedSeqScore seq1 seq2 equalityScore st s1 s2) (\<lambda>extended.
     let newValue = max (max horizontalLen verticalLen) extended in
     bindr (if newValue = extended then
              bindr (if s1 > 0 \<and> s2 > 0 then Array2D_get (lengths st) (s1 - 1) (s2 - 1) else Inr 0) (\<lambda>prevLen.
              Inr (st\<lparr>lengths := Array2D_set (lengths st) s1 s2 (prevLen + 1),
                      directions := Array2D_set (directions st) s1 s2 3\<rparr>))
            else if newValue = horizontalLen then
              Inr (st\<lparr>lengths := Array2D_set (lengths st) s1 s2 0, directions := Array2D_set (directions st) s1 s2 1\<rparr>)
            else if newValue = verticalLen then
              Inr (st\<lparr>lengths := Array2D_set (lengths st) s1 s2 0, directions := Array2D_set (directions st) s1 s2 2\<rparr>)
            else Inr st) (\<lambda>st'.
     Inr (st'\<lparr>lcsLengths := Array2D_set (lcsLengths st') s1 s2 newValue\<rparr>)))))"

text \<open>The two loops; \<open>None\<close> when the timeout is reached.\<close>

function dp_fill ::
  "ISequence \<Rightarrow> ISequence \<Rightarrow> (int \<Rightarrow> int \<Rightarrow> 's) option \<Rightarrow> timeout \<Rightarrow> nat \<Rightarrow> int \<Rightarrow> int \<Rightarrow> 's dp \<Rightarrow>
   's :: linordered_idom dp option result" where
  "dp_fill seq1 seq2 equalityScore timeout polls s1 s2 st =
     (if s1 < seqLength seq1 then
        if s2 < seqLength seq2 then
          if \<not> timeout polls then Inr None
          else bindr (dp_cell seq1 seq2 equalityScore st s1 s2)
                 (\<lambda>st'. dp_fill seq1 seq2 equalityScore timeout (polls + 1) s1 (s2 + 1) st')
        else dp_fill seq1 seq2 equalityScore timeout polls (s1 + 1) 0 st
      else Inr (Some st))"
  by pat_completeness auto
termination
  by (relation "measures [\<lambda>(s, t, e, to, p, i, j, st). nat (seqLength s - i), \<lambda>(s, t, e, to, p, i, j, st). nat (seqLength t - j)]") auto

declare dp_fill.simps [simp del]

section \<open>Backtracking\<close>

text \<open>\<open>reportDecreasingAligningPositions\<close>, with the pushed result and the last aligning positions.\<close>

definition reportDecreasingAligningPositions ::
  "int \<Rightarrow> int \<Rightarrow> int \<Rightarrow> int \<Rightarrow> SequenceDiff list \<Rightarrow> SequenceDiff list result" where
  "reportDecreasingAligningPositions s1 s2 lastAligningPosS1 lastAligningPosS2 result =
     (if s1 + 1 \<noteq> lastAligningPosS1 \<or> s2 + 1 \<noteq> lastAligningPosS2
      then bindr (diff_of (OffsetRange_new (s1 + 1) lastAligningPosS1) (OffsetRange_new (s2 + 1) lastAligningPosS2))
             (\<lambda>d. Inr (result @ [d]))
      else Inr result)"

function dp_backtrack ::
  "nat Array2D \<Rightarrow> int \<Rightarrow> int \<Rightarrow> int \<Rightarrow> int \<Rightarrow> SequenceDiff list \<Rightarrow> SequenceDiff list result" where
  "dp_backtrack dirs s1 s2 l1 l2 result =
     (if s1 \<ge> 0 \<and> s2 \<ge> 0 then
        bindr (Array2D_get dirs s1 s2) (\<lambda>d.
        if d = 3 then bindr (reportDecreasingAligningPositions s1 s2 l1 l2 result)
                        (\<lambda>result'. dp_backtrack dirs (s1 - 1) (s2 - 1) s1 s2 result')
        else if d = 1 then dp_backtrack dirs (s1 - 1) s2 l1 l2 result
        else dp_backtrack dirs s1 (s2 - 1) l1 l2 result)
      else reportDecreasingAligningPositions (- 1) (- 1) l1 l2 result)"
  by pat_completeness auto
termination by (relation "measure (\<lambda>(d, i, j, l, m, r). nat (i + 1) + nat (j + 1))") auto

declare dp_backtrack.simps [simp del]

definition DynamicProgrammingDiffing_compute ::
  "ISequence \<Rightarrow> ISequence \<Rightarrow> timeout \<Rightarrow> (int \<Rightarrow> int \<Rightarrow> 's) option \<Rightarrow> 's :: linordered_idom itself \<Rightarrow> DiffAlgorithmResult result" where
  "DynamicProgrammingDiffing_compute sequence1 sequence2 timeout equalityScore scores =
     (if seqLength sequence1 = 0 \<or> seqLength sequence2 = 0 then DiffAlgorithmResult_trivial sequence1 sequence2
      else
        let st = \<lparr>lcsLengths = Array2D_new (seqLength sequence1) (seqLength sequence2),
                  directions = Array2D_new (seqLength sequence1) (seqLength sequence2),
                  lengths = Array2D_new (seqLength sequence1) (seqLength sequence2)\<rparr> :: 's dp
        in bindr (dp_fill sequence1 sequence2 equalityScore timeout 0 0 0 st) (\<lambda>filled.
           case filled of
             None \<Rightarrow> DiffAlgorithmResult_trivialTimedOut sequence1 sequence2
           | Some st' \<Rightarrow>
               bindr (dp_backtrack (directions st') (seqLength sequence1 - 1) (seqLength sequence2 - 1)
                        (seqLength sequence1) (seqLength sequence2) [])
                 (\<lambda>result. Inr \<lparr>diffs = rev result, hitTimeout = False\<rparr>)))"

section \<open>The tables are filled\<close>

definition table :: "int \<Rightarrow> int \<Rightarrow> 'a Array2D \<Rightarrow> bool" where
  "table w h a \<longleftrightarrow> width a = w \<and> length (cells a) = nat (w * h)"

lemma table_new [simp]: "table w h (Array2D_new w h)"
  by (simp add: table_def Array2D_new_def)

lemma table_set [simp]: "table w h (Array2D_set a x y v) = table w h a"
  by (simp add: table_def Array2D_set_def)

lemma cell_index_less:
  fixes x y w h :: int
  assumes "0 \<le> x" and "x < w" and "0 \<le> y" and "y < h"
  shows "0 \<le> x + y * w" and "x + y * w < w * h"
proof -
  have "(y + 1) * w \<le> h * w" using assms by (intro mult_right_mono) auto
  then show "x + y * w < w * h" using assms by (simp add: algebra_simps)
  show "0 \<le> x + y * w" using assms by simp
qed

lemma cell_index_eq:
  fixes x y w x' y' :: int
  assumes "0 \<le> x" and "x < w" and "0 \<le> x'" and "x' < w"
  shows "x + y * w = x' + y' * w \<longleftrightarrow> x = x' \<and> y = y'"
proof
  assume e: "x + y * w = x' + y' * w"
  have "(x + y * w) mod w = x" "(x' + y' * w) mod w = x'" using assms by (simp_all add: mod_pos_pos_trivial)
  then have "x = x'" using e by simp
  then show "x = x' \<and> y = y'" using e assms by simp
qed simp

lemma Array2D_get_set:
  assumes "table w h a" and "0 \<le> x" and "x < w" and "0 \<le> y" and "y < h" and "0 \<le> x'" and "x' < w" and "0 \<le> y'" and "y' < h"
  shows "Array2D_get (Array2D_set a x y v) x' y' = (if x' = x \<and> y' = y then Inr v else Array2D_get a x' y')"
proof -
  note b = cell_index_less [OF assms(2-5)] cell_index_less [OF assms(6-9)]
  have "nat (x' + y' * w) = nat (x + y * w) \<longleftrightarrow> x' = x \<and> y' = y"
    using eq_nat_nat_iff [OF b(3,1)] cell_index_eq [OF assms(6,7,2,3), of y' y] by simp
  then show ?thesis using assms(1) b
    by (cases "x' = x \<and> y' = y")
       (auto simp: Array2D_get_def Array2D_set_def table_def Let_def nth_list_update nat_less_iff)
qed

text \<open>What a processed cell holds.\<close>

definition cell_ok :: "ISequence \<Rightarrow> ISequence \<Rightarrow> 's :: linordered_idom dp \<Rightarrow> int \<Rightarrow> int \<Rightarrow> bool" where
  "cell_ok seq1 seq2 st i j \<longleftrightarrow>
     (\<exists>l d n. Array2D_get (lcsLengths st) i j = Inr l \<and> 0 \<le> l \<and> Array2D_get (directions st) i j = Inr d \<and>
        Array2D_get (lengths st) i j = Inr n \<and> 0 \<le> n \<and> (d = 3 \<longrightarrow> getElement seq1 i = getElement seq2 j))"

definition filled :: "ISequence \<Rightarrow> ISequence \<Rightarrow> 's :: linordered_idom dp \<Rightarrow> int \<Rightarrow> int \<Rightarrow> bool" where
  "filled seq1 seq2 st i j \<longleftrightarrow>
     table (seqLength seq1) (seqLength seq2) (lcsLengths st) \<and> table (seqLength seq1) (seqLength seq2) (directions st) \<and>
     table (seqLength seq1) (seqLength seq2) (lengths st) \<and>
     (\<forall>i' j'. 0 \<le> i' \<longrightarrow> i' < seqLength seq1 \<longrightarrow> 0 \<le> j' \<longrightarrow> j' < seqLength seq2 \<longrightarrow>
        i' < i \<or> (i' = i \<and> j' < j) \<longrightarrow> cell_ok seq1 seq2 st i' j')"

lemma filledD:
  "filled seq1 seq2 st i j \<Longrightarrow> 0 \<le> i' \<Longrightarrow> i' < seqLength seq1 \<Longrightarrow> 0 \<le> j' \<Longrightarrow> j' < seqLength seq2 \<Longrightarrow>
   i' < i \<or> (i' = i \<and> j' < j) \<Longrightarrow> cell_ok seq1 seq2 st i' j'"
  unfolding filled_def by blast

definition scores_ok :: "(int \<Rightarrow> int \<Rightarrow> 's :: linordered_idom) option \<Rightarrow> bool" where
  "scores_ok sc \<longleftrightarrow> (\<forall>f i j. sc = Some f \<longrightarrow> 0 \<le> f i j)"

text \<open>Writing the cell \<open>(i, j)\<close> with a direction that agrees with the elements.\<close>

lemma filled_write:
  assumes f: "filled seq1 seq2 st i j" and ij: "0 \<le> i" "i < seqLength seq1" "0 \<le> j" "j < seqLength seq2"
    and l: "0 \<le> l" "0 \<le> n" and d: "d = 3 \<longrightarrow> getElement seq1 i = getElement seq2 j"
  shows "filled seq1 seq2
    (st\<lparr>lcsLengths := Array2D_set (lcsLengths st) i j l, directions := Array2D_set (directions st) i j d,
        lengths := Array2D_set (lengths st) i j n\<rparr>) i (j + 1)"
  unfolding filled_def
proof (intro conjI allI impI)
  fix i' j' assume b: "0 \<le> i'" "i' < seqLength seq1" "0 \<le> j'" "j' < seqLength seq2" "i' < i \<or> (i' = i \<and> j' < j + 1)"
  have t: "table (seqLength seq1) (seqLength seq2) (lcsLengths st)" "table (seqLength seq1) (seqLength seq2) (directions st)"
    "table (seqLength seq1) (seqLength seq2) (lengths st)" using f by (simp_all add: filled_def)
  show "cell_ok seq1 seq2 (st\<lparr>lcsLengths := Array2D_set (lcsLengths st) i j l, directions := Array2D_set (directions st) i j d,
        lengths := Array2D_set (lengths st) i j n\<rparr>) i' j'"
  proof (cases "i' = i \<and> j' = j")
    case True
    then show ?thesis using l d by (simp add: cell_ok_def Array2D_get_set [OF t(1) ij ij] Array2D_get_set [OF t(2) ij ij] Array2D_get_set [OF t(3) ij ij])
  next
    case False
    then have "cell_ok seq1 seq2 st i' j'" using filledD [OF f b(1-4)] b(5) by auto
    moreover have "Array2D_get (Array2D_set (lcsLengths st) i j l) i' j' = Array2D_get (lcsLengths st) i' j'"
      "Array2D_get (Array2D_set (directions st) i j d) i' j' = Array2D_get (directions st) i' j'"
      "Array2D_get (Array2D_set (lengths st) i j n) i' j' = Array2D_get (lengths st) i' j'"
      using False Array2D_get_set [OF t(1) ij b(1-4)] Array2D_get_set [OF t(2) ij b(1-4)] Array2D_get_set [OF t(3) ij b(1-4)] by auto
    ultimately show ?thesis by (simp add: cell_ok_def)
  qed
qed (use f in \<open>simp_all add: filled_def\<close>)

lemma extendedSeqScore_ok:
  assumes f: "filled seq1 seq2 st i j" and ij: "0 \<le> i" "i < seqLength seq1" "0 \<le> j" "j < seqLength seq2" and sc: "scores_ok sc"
  shows "\<exists>x. extendedSeqScore seq1 seq2 sc st i j = Inr x \<and> (0 \<le> x \<longrightarrow> getElement seq1 i = getElement seq2 j)"
proof (cases "0 < i \<and> 0 < j")
  case True
  then have "cell_ok seq1 seq2 st (i - 1) (j - 1)" using ij by (intro filledD [OF f]) auto
  then show ?thesis by (auto simp: extendedSeqScore_def cell_ok_def)
next
  case False
  then show ?thesis using ij by (auto simp: extendedSeqScore_def)
qed

lemma dp_cell_ok:
  assumes f: "filled seq1 seq2 st i j" and ij: "0 \<le> i" "i < seqLength seq1" "0 \<le> j" "j < seqLength seq2" and sc: "scores_ok sc"
  shows "\<exists>st'. dp_cell seq1 seq2 sc st i j = Inr st' \<and> filled seq1 seq2 st' i (j + 1)"
proof -
  obtain h where h: "(if i = 0 then Inr 0 else Array2D_get (lcsLengths st) (i - 1) j) = Inr h" "0 \<le> h"
    using filledD [OF f, of "i - 1" j] ij by (cases "i = 0") (auto simp: cell_ok_def)
  obtain v where v: "(if j = 0 then Inr 0 else Array2D_get (lcsLengths st) i (j - 1)) = Inr v"
    using filledD [OF f, of i "j - 1"] ij by (cases "j = 0") (auto simp: cell_ok_def)
  obtain p where p: "(if i > 0 \<and> j > 0 then Array2D_get (lengths st) (i - 1) (j - 1) else Inr 0) = Inr p" "0 \<le> p"
    using filledD [OF f, of "i - 1" "j - 1"] ij by (cases "0 < i \<and> 0 < j") (auto simp: cell_ok_def)
  obtain x where x: "extendedSeqScore seq1 seq2 sc st i j = Inr x" "0 \<le> x \<longrightarrow> getElement seq1 i = getElement seq2 j"
    using extendedSeqScore_ok [OF f ij sc] by blast
  define w where "w = max (max h v) x"
  have w: "0 \<le> w" using h(2) by (simp add: w_def le_max_iff_disj)
  have "w = x \<or> w = h \<or> w = v" by (auto simp: w_def max_def)
  then have "dp_cell seq1 seq2 sc st i j =
      Inr (let d = (if w = x then 3 else if w = h then 1 else 2); n = (if w = x then p + 1 else 0)
           in st\<lparr>lcsLengths := Array2D_set (lcsLengths st) i j w, directions := Array2D_set (directions st) i j d,
                 lengths := Array2D_set (lengths st) i j n\<rparr>)"
    by (auto simp: dp_cell_def h(1) v p(1) x(1) Let_def w_def [symmetric])
  moreover have "filled seq1 seq2
      (let d = (if w = x then 3 else if w = h then 1 else 2); n = (if w = x then p + 1 else 0)
       in st\<lparr>lcsLengths := Array2D_set (lcsLengths st) i j w, directions := Array2D_set (directions st) i j d,
             lengths := Array2D_set (lengths st) i j n\<rparr>) i (j + 1)"
    unfolding Let_def by (rule filled_write [OF f ij w]) (use w x(2) p(2) in auto)
  ultimately show ?thesis by blast
qed

lemma filled_next_row:
  assumes "filled seq1 seq2 st i j" and "seqLength seq2 \<le> j"
  shows "filled seq1 seq2 st (i + 1) 0"
  unfolding filled_def
proof (intro conjI allI impI)
  fix i' j' assume "0 \<le> i'" "i' < seqLength seq1" "0 \<le> j'" "j' < seqLength seq2" "i' < i + 1 \<or> (i' = i + 1 \<and> j' < 0)"
  then show "cell_ok seq1 seq2 st i' j'" by (intro filledD [OF assms(1)]) (use assms(2) in auto)
qed (use assms(1) in \<open>simp_all add: filled_def\<close>)

lemma filled_all:
  "filled seq1 seq2 st i j \<Longrightarrow> seqLength seq1 \<le> i \<Longrightarrow> filled seq1 seq2 st (seqLength seq1) 0"
  unfolding filled_def by auto

lemma dp_fill_ok:
  "scores_ok sc \<Longrightarrow> filled seq1 seq2 st i j \<Longrightarrow> 0 \<le> i \<Longrightarrow> 0 \<le> j \<Longrightarrow>
    \<exists>r. dp_fill seq1 seq2 sc timeout polls i j st = Inr r \<and>
      (case r of None \<Rightarrow> \<exists>n. \<not> timeout n | Some st' \<Rightarrow> filled seq1 seq2 st' (seqLength seq1) 0)"
proof (induction seq1 seq2 sc timeout polls i j st rule: dp_fill.induct)
  case (1 seq1 seq2 sc timeout polls i j st)
  note sc = "1.prems"(1) and f = "1.prems"(2) and ij = "1.prems"(3,4)
  note eq = dp_fill.simps [of seq1 seq2 sc timeout polls i j st]
  consider "i \<ge> seqLength seq1" | "i < seqLength seq1" "seqLength seq2 \<le> j" | "i < seqLength seq1" "j < seqLength seq2" "\<not> timeout polls"
    | "i < seqLength seq1" "j < seqLength seq2" "timeout polls" by linarith
  then show ?case
  proof cases
    case 1
    then show ?thesis using filled_all [OF f] by (simp add: eq)
  next
    case 2
    then show ?thesis using "1.IH"(2) filled_next_row [OF f] sc ij by (simp add: eq)
  next
    case 3
    then show ?thesis by (auto simp: eq)
  next
    case 4
    obtain st' where "dp_cell seq1 seq2 sc st i j = Inr st'" "filled seq1 seq2 st' i (j + 1)"
      using dp_cell_ok [OF f ij(1) 4(1) ij(2) 4(2) sc] by blast
    then show ?thesis using "1.IH"(1) [of st'] 4 sc ij by (simp add: eq)
  qed
qed

section \<open>The result is an alignment\<close>

lemma report_ok:
  assumes "s1 < l1" and "s2 < l2" and "alignment seq1 seq2 1 l1 l2 (rev acc)"
  shows "\<exists>acc'. reportDecreasingAligningPositions s1 s2 l1 l2 acc = Inr acc' \<and> alignment seq1 seq2 0 (s1 + 1) (s2 + 1) (rev acc')"
proof (cases "s1 + 1 = l1 \<and> s2 + 1 = l2")
  case True
  then show ?thesis using alignment_weaken [OF assms(3), of 0] by (simp add: reportDecreasingAligningPositions_def)
next
  case False
  then show ?thesis using assms by (auto simp: reportDecreasingAligningPositions_def OffsetRange_new_def)
qed

lemma dp_backtrack_ok:
  "filled seq1 seq2 st (seqLength seq1) 0 \<Longrightarrow> - 1 \<le> s1 \<Longrightarrow> - 1 \<le> s2 \<Longrightarrow> s1 < l1 \<Longrightarrow> s2 < l2 \<Longrightarrow>
   l1 \<le> seqLength seq1 \<Longrightarrow> l2 \<le> seqLength seq2 \<Longrightarrow> alignment seq1 seq2 1 l1 l2 (rev acc) \<Longrightarrow>
   \<exists>ds. dp_backtrack (directions st) s1 s2 l1 l2 acc = Inr ds \<and> valid_diffs seq1 seq2 (rev ds)"
proof (induction "directions st" s1 s2 l1 l2 acc rule: dp_backtrack.induct)
  case (1 s1 s2 l1 l2 acc)
  note IH = "1.hyps" and f = "1.prems"(1) and s = "1.prems"(2-5) and l = "1.prems"(6,7) and al = "1.prems"(8)
  note eq = dp_backtrack.simps [of "directions st" s1 s2 l1 l2 acc]
  show ?case
  proof (cases "0 \<le> s1 \<and> 0 \<le> s2")
    case False
    obtain ds where "reportDecreasingAligningPositions (- 1) (- 1) l1 l2 acc = Inr ds" "alignment seq1 seq2 0 0 0 (rev ds)"
      using report_ok [of "- 1" l1 "- 1" l2, OF _ _ al] s by auto
    then show ?thesis using False by (auto simp: eq valid_diffs_def)
  next
    case True
    obtain d where d: "Array2D_get (directions st) s1 s2 = Inr d" "d = 3 \<Longrightarrow> getElement seq1 s1 = getElement seq2 s2"
      using filledD [OF f, of s1 s2] True s l by (auto simp: cell_ok_def)
    show ?thesis
    proof (cases "d = 3")
      case True3: True
      obtain acc' where acc': "reportDecreasingAligningPositions s1 s2 l1 l2 acc = Inr acc'"
        "alignment seq1 seq2 0 (s1 + 1) (s2 + 1) (rev acc')" using report_ok [OF s(3,4) al] by blast
      have "matching seq1 seq2 s1 s2 1" using d(2) [OF True3] by (simp add: matching_1)
      with acc'(2) have "alignment seq1 seq2 1 s1 s2 (rev acc')" using alignment_extend [of seq1 seq2 0 s1 1 s2 "rev acc'"] by simp
      then have "\<exists>ds. dp_backtrack (directions st) (s1 - 1) (s2 - 1) s1 s2 acc' = Inr ds \<and> valid_diffs seq1 seq2 (rev ds)"
        by (intro IH(1)) (use True True3 d(1) acc'(1) f s l in auto)
      then show ?thesis using True True3 d(1) acc'(1) by (simp add: eq)
    next
      case False3: False
      show ?thesis
      proof (cases "d = 1")
        case True1: True
        then show ?thesis using IH(2) [OF True d(1) False3 True1 f _ _ _ _ l al] s True d(1) False3 by (simp add: eq)
      next
        case False
        then show ?thesis using IH(3) [OF True d(1) False3 False f _ _ _ _ l al] s True d(1) False3 by (simp add: eq)
      qed
    qed
  qed
qed

lemma trivial_diff_ok:
  assumes "sequence seq1" and "sequence seq2"
  shows "\<exists>r. trivial_diff seq1 seq2 b = Inr r \<and> valid_diffs seq1 seq2 (diffs r) \<and> hitTimeout r = b"
  using sequence.length_nonneg [OF assms(1)] sequence.length_nonneg [OF assms(2)]
  by (auto simp: trivial_diff_def OffsetRange_ofLength_def OffsetRange_new_def valid_diffs_def)

lemma filled_new:
  "filled seq1 seq2 \<lparr>lcsLengths = Array2D_new (seqLength seq1) (seqLength seq2),
     directions = Array2D_new (seqLength seq1) (seqLength seq2), lengths = Array2D_new (seqLength seq1) (seqLength seq2)\<rparr> 0 0"
  by (simp add: filled_def)

lemma DynamicProgrammingDiffing_compute_ok:
  fixes sc :: "(int \<Rightarrow> int \<Rightarrow> 's :: linordered_idom) option"
  assumes "sequence seq1" and "sequence seq2" and "scores_ok sc"
  shows "\<exists>r. DynamicProgrammingDiffing_compute seq1 seq2 timeout sc TYPE('s) = Inr r \<and> valid_diffs seq1 seq2 (diffs r) \<and>
    (hitTimeout r \<longrightarrow> (\<exists>n. \<not> timeout n))"
proof (cases "seqLength seq1 = 0 \<or> seqLength seq2 = 0")
  case True
  then show ?thesis using trivial_diff_ok [OF assms(1,2), of False]
    by (auto simp: DynamicProgrammingDiffing_compute_def DiffAlgorithmResult_trivial_def)
next
  case False
  then have pos: "0 < seqLength seq1" "0 < seqLength seq2"
    using sequence.length_nonneg [OF assms(1)] sequence.length_nonneg [OF assms(2)] by simp_all
  let ?st = "\<lparr>lcsLengths = Array2D_new (seqLength seq1) (seqLength seq2),
     directions = Array2D_new (seqLength seq1) (seqLength seq2), lengths = Array2D_new (seqLength seq1) (seqLength seq2)\<rparr> :: 's dp"
  obtain r where r: "dp_fill seq1 seq2 sc timeout 0 0 0 ?st = Inr r"
    "case r of None \<Rightarrow> \<exists>n. \<not> timeout n | Some st' \<Rightarrow> filled seq1 seq2 st' (seqLength seq1) 0"
    using dp_fill_ok [OF assms(3) filled_new, where timeout = timeout and polls = 0] by auto
  show ?thesis
  proof (cases r)
    case None
    then show ?thesis using r trivial_diff_ok [OF assms(1,2), of True] False
      by (auto simp: DynamicProgrammingDiffing_compute_def DiffAlgorithmResult_trivialTimedOut_def)
  next
    case (Some st')
    obtain ds where "dp_backtrack (directions st') (seqLength seq1 - 1) (seqLength seq2 - 1) (seqLength seq1) (seqLength seq2) [] = Inr ds"
      "valid_diffs seq1 seq2 (rev ds)"
      using dp_backtrack_ok [of seq1 seq2 st' "seqLength seq1 - 1" "seqLength seq2 - 1" "seqLength seq1" "seqLength seq2" "[]"]
        r(2) pos by (auto simp: Some)
    then show ?thesis using r(1) False by (simp add: DynamicProgrammingDiffing_compute_def Some)
  qed
qed

end
