(* ===== verification/Diff_Myers.thy ===== *)
theory Diff_Myers
  imports Diff_Lines Diff_Dynamic
begin

text \<open>
  The algorithm for long inputs:
  \<open>src/vs/editor/common/diff/defaultLinesDiffComputer/algorithms/myersDiffAlgorithm.ts\<close>. A number that
  may be \<open>NaN\<close> or \<open>undefined\<close> is an \<open>int option\<close>: the typed arrays answer \<open>undefined\<close> beyond their
  end, and the minimum, the maximum and the sum of such a value are \<open>NaN\<close>. The loop over \<open>d\<close> is a
  partial function, \<open>None\<close> when it does not return. Reading one diagonal beyond the array loses a
  match (\<open>Myers_loses_match\<close>): the last \<open>k\<close> of a round is below \<open>upperBound\<close> when their parities
  differ, and then the diagonal \<open>k + 1\<close> was never written.
\<close>

section \<open>Arrays with negative indices\<close>

record FastInt32Array =
  positiveArr :: "int list"
  negativeArr :: "int list"

definition FastInt32Array_new :: FastInt32Array where
  "FastInt32Array_new = \<lparr>positiveArr = replicate 10 0, negativeArr = replicate 10 0\<rparr>"

definition FastInt32Array_get :: "FastInt32Array \<Rightarrow> int \<Rightarrow> int option" where
  "FastInt32Array_get V idx = (if idx < 0 then js_at (negativeArr V) (- idx - 1) else js_at (positiveArr V) idx)"

text \<open>Writing into a typed array converts \<open>NaN\<close> to zero and ignores an index beyond the end.\<close>

definition typed_write :: "int list \<Rightarrow> int \<Rightarrow> int option \<Rightarrow> int list" where
  "typed_write arr idx value =
     (let arr' = (if idx \<ge> int (length arr) then arr @ replicate (length arr) 0 else arr)
      in arr'[nat idx := (case value of None \<Rightarrow> 0 | Some v \<Rightarrow> toInt32 v)])"

definition FastInt32Array_set :: "FastInt32Array \<Rightarrow> int \<Rightarrow> int option \<Rightarrow> FastInt32Array" where
  "FastInt32Array_set V idx value =
     (if idx < 0 then V\<lparr>negativeArr := typed_write (negativeArr V) (- idx - 1) value\<rparr>
      else V\<lparr>positiveArr := typed_write (positiveArr V) idx value\<rparr>)"

text \<open>The paths: \<open>null\<close> and \<open>undefined\<close> are both the empty path. The two arrays of
  \<open>FastArrayNegativeIndices\<close> are one list of writes, the latest first.\<close>

datatype SnakePath = SnakePath "SnakePath option" "int option" "int option" "int option"

type_synonym snake_paths = "(int \<times> SnakePath option) list"

definition FastArrayNegativeIndices_get :: "snake_paths \<Rightarrow> int \<Rightarrow> SnakePath option" where
  "FastArrayNegativeIndices_get ps idx = (case map_of ps idx of Some p \<Rightarrow> p | None \<Rightarrow> None)"

definition FastArrayNegativeIndices_set :: "snake_paths \<Rightarrow> int \<Rightarrow> SnakePath option \<Rightarrow> snake_paths" where
  "FastArrayNegativeIndices_set ps idx p = (idx, p) # ps"

section \<open>The algorithm\<close>

definition js_max :: "int option \<Rightarrow> int option \<Rightarrow> int option" where
  "js_max a b = (case (a, b) of (Some x, Some y) \<Rightarrow> Some (max x y) | _ \<Rightarrow> None)"

definition js_min :: "int option \<Rightarrow> int option \<Rightarrow> int option" where
  "js_min a b = (case (a, b) of (Some x, Some y) \<Rightarrow> Some (min x y) | _ \<Rightarrow> None)"

function snake :: "ISequence \<Rightarrow> ISequence \<Rightarrow> int \<Rightarrow> int \<Rightarrow> int" where
  "snake seqX seqY x y =
     (if x < seqLength seqX \<and> y < seqLength seqY \<and> getElement seqX x = getElement seqY y
      then snake seqX seqY (x + 1) (y + 1) else x)"
  by pat_completeness auto
termination by (relation "measure (\<lambda>(s, t, x, y). nat (seqLength s - x))") auto

declare snake.simps [simp del]

definition getXAfterSnake :: "ISequence \<Rightarrow> ISequence \<Rightarrow> int option \<Rightarrow> int \<Rightarrow> int option" where
  "getXAfterSnake seqX seqY x k = (case x of None \<Rightarrow> None | Some x \<Rightarrow> Some (snake seqX seqY x (x - k)))"

record myers =
  V :: FastInt32Array
  paths :: snake_paths

text \<open>One diagonal: the new state, and whether the end of both sequences is reached.\<close>

definition myers_diagonal ::
  "ISequence \<Rightarrow> ISequence \<Rightarrow> int \<Rightarrow> int \<Rightarrow> int \<Rightarrow> myers \<Rightarrow> myers \<times> bool" where
  "myers_diagonal seqX seqY lowerBound upperBound k st =
     (let maxXofDLineTop = (if k = upperBound then Some (- 1) else FastInt32Array_get (V st) (k + 1));
          maxXofDLineLeft = (if k = lowerBound then Some (- 1) else map_option (\<lambda>v. v + 1) (FastInt32Array_get (V st) (k - 1)));
          x = js_min (js_max maxXofDLineTop maxXofDLineLeft) (Some (seqLength seqX));
          y = map_option (\<lambda>v. v - k) x
      in if (case x of Some v \<Rightarrow> v > seqLength seqX | None \<Rightarrow> False) \<or> (case y of Some v \<Rightarrow> v > seqLength seqY | None \<Rightarrow> False)
         then (st, False)
         else
           let newMaxX = getXAfterSnake seqX seqY x k;
               V1 = FastInt32Array_set (V st) k newMaxX;
               lastPath = (if x \<noteq> None \<and> x = maxXofDLineTop then FastArrayNegativeIndices_get (paths st) (k + 1)
                           else FastArrayNegativeIndices_get (paths st) (k - 1));
               path = (if newMaxX = None \<or> newMaxX \<noteq> x
                       then Some (SnakePath lastPath x y (case (newMaxX, x) of (Some n, Some v) \<Rightarrow> Some (n - v) | _ \<Rightarrow> None))
                       else lastPath)
           in (\<lparr>V = V1, paths = FastArrayNegativeIndices_set (paths st) k path\<rparr>,
               FastInt32Array_get V1 k = Some (seqLength seqX) \<and>
               map_option (\<lambda>v. v - k) (FastInt32Array_get V1 k) = Some (seqLength seqY)))"

function myers_round ::
  "ISequence \<Rightarrow> ISequence \<Rightarrow> int \<Rightarrow> int \<Rightarrow> int \<Rightarrow> myers \<Rightarrow> myers \<times> int option" where
  "myers_round seqX seqY lowerBound upperBound k st =
     (if k \<le> upperBound then
        (let (st', reached) = myers_diagonal seqX seqY lowerBound upperBound k st
         in if reached then (st', Some k) else myers_round seqX seqY lowerBound upperBound (k + 2) st')
      else (st, None))"
  by pat_completeness auto
termination by (relation "measure (\<lambda>(s, t, l, u, k, st). nat (u + 1 - k))") auto

declare myers_round.simps [simp del]

text \<open>The loop over \<open>d\<close>: the last state and the diagonal of the end, or \<open>None\<close> in a timeout.\<close>

definition lowerBound_at :: "ISequence \<Rightarrow> int \<Rightarrow> int" where
  "lowerBound_at seqY d = - min d (seqLength seqY + d mod 2)"

definition upperBound_at :: "ISequence \<Rightarrow> int \<Rightarrow> int" where
  "upperBound_at seqX d = min d (seqLength seqX + d mod 2)"

partial_function (option) myers_loop ::
  "ISequence \<Rightarrow> ISequence \<Rightarrow> timeout \<Rightarrow> nat \<Rightarrow> myers \<Rightarrow> (myers \<times> int) option option" where
  "myers_loop seqX seqY timeout polls st =
     (if \<not> timeout polls then Some None
      else
        (let (st', reached) = myers_round seqX seqY (lowerBound_at seqY (int polls + 1)) (upperBound_at seqX (int polls + 1))
                                (lowerBound_at seqY (int polls + 1)) st
         in if reached = None then myers_loop seqX seqY timeout (polls + 1) st' else Some (map_option (\<lambda>k. (st', k)) reached)))"

declare myers_loop.simps [code]

text \<open>Following the path back. A coordinate that is \<open>NaN\<close> differs from every number; a range from
  \<open>NaN\<close> does not occur in the results and is \<open>TypeErr\<close> here.\<close>

definition push_diff :: "int option \<Rightarrow> int option \<Rightarrow> int option \<Rightarrow> int option \<Rightarrow> SequenceDiff list \<Rightarrow> SequenceDiff list result" where
  "push_diff endX endY last1 last2 result =
     (case (endX, endY, last1, last2) of
        (Some a, Some b, Some c, Some d) \<Rightarrow>
          if a \<noteq> c \<or> b \<noteq> d
          then bindr (diff_of (OffsetRange_new a c) (OffsetRange_new b d)) (\<lambda>x. Inr (result @ [x]))
          else Inr result
      | _ \<Rightarrow> Inl TypeErr)"

definition js_add :: "int option \<Rightarrow> int option \<Rightarrow> int option" where
  "js_add a b = (case (a, b) of (Some x, Some y) \<Rightarrow> Some (x + y) | _ \<Rightarrow> None)"

fun myers_path :: "SnakePath option \<Rightarrow> int option \<Rightarrow> int option \<Rightarrow> SequenceDiff list \<Rightarrow> SequenceDiff list result" where
  "myers_path None last1 last2 result = push_diff (Some 0) (Some 0) last1 last2 result"
| "myers_path (Some (SnakePath prev x y len)) last1 last2 result =
     bindr (push_diff (js_add x len) (js_add y len) last1 last2 result) (\<lambda>result'. myers_path prev x y result')"

definition myers_init :: "ISequence \<Rightarrow> ISequence \<Rightarrow> myers" where
  "myers_init seqX seqY =
     (let V0 = FastInt32Array_set FastInt32Array_new 0 (Some (snake seqX seqY 0 0))
      in \<lparr>V = V0, paths = FastArrayNegativeIndices_set [] 0
            (if FastInt32Array_get V0 0 = Some 0 then None
             else Some (SnakePath None (Some 0) (Some 0) (FastInt32Array_get V0 0)))\<rparr>)"

definition MyersDiffAlgorithm_compute :: "ISequence \<Rightarrow> ISequence \<Rightarrow> timeout \<Rightarrow> DiffAlgorithmResult result option" where
  "MyersDiffAlgorithm_compute seq1 seq2 timeout =
     (if seqLength seq1 = 0 \<or> seqLength seq2 = 0 then Some (DiffAlgorithmResult_trivial seq1 seq2)
      else
        (case myers_loop seq1 seq2 timeout 0 (myers_init seq1 seq2) of
              None \<Rightarrow> None
            | Some None \<Rightarrow> Some (DiffAlgorithmResult_trivialTimedOut seq1 seq2)
            | Some (Some (st, k)) \<Rightarrow>
                Some (bindr (myers_path (FastArrayNegativeIndices_get (paths st) k) (Some (seqLength seq1)) (Some (seqLength seq2)) [])
                  (\<lambda>result. Inr \<lparr>diffs = rev result, hitTimeout = False\<rparr>))))"

section \<open>The arrays\<close>

lemma length_typed_write: "int (length (typed_write arr idx w)) \<ge> int (length arr)"
  by (simp add: typed_write_def Let_def)

lemma typed_write_grows:
  "0 \<le> idx \<Longrightarrow> idx < 2 * int (length arr) \<Longrightarrow> idx < int (length (typed_write arr idx w))"
  by (simp add: typed_write_def Let_def)

definition written :: "int option \<Rightarrow> int" where
  "written w = (case w of None \<Rightarrow> 0 | Some v \<Rightarrow> toInt32 v)"

lemma js_at_typed_write:
  assumes "js_at (typed_write arr idx w) i = Some v" and "0 \<le> idx"
  shows "(i = idx \<and> v = written w) \<or> (i \<noteq> idx \<and> js_at arr i = Some v) \<or> (i \<noteq> idx \<and> js_at arr i = None \<and> v = 0)"
proof -
  define arr' where "arr' = (if idx \<ge> int (length arr) then arr @ replicate (length arr) 0 else arr)"
  have w: "typed_write arr idx w = arr'[nat idx := written w]"
    by (simp add: typed_write_def arr'_def written_def Let_def)
  have b: "0 \<le> i" "nat i < length arr'" "v = arr'[nat idx := written w] ! nat i"
    using assms(1) by (auto simp: w js_at_def nat_less_iff split: if_splits)
  show ?thesis
  proof (cases "i = idx")
    case True
    then show ?thesis using b by simp
  next
    case False
    then have v: "v = arr' ! nat i" using b assms(2) by simp
    show ?thesis
    proof (cases "nat i < length arr")
      case True
      then have "arr' ! nat i = arr ! nat i" by (simp add: arr'_def nth_append)
      then show ?thesis using v True False b(1) by (simp add: js_at_def nat_less_iff)
    next
      case out: False
      then have "arr' ! nat i = 0" using b(2) by (auto simp: arr'_def nth_append split: if_splits)
      then show ?thesis using v out False b(1) by (simp add: js_at_def nat_less_iff)
    qed
  qed
qed

lemma js_at_typed_write_None:
  assumes "js_at (typed_write arr idx w) i = None" and "0 \<le> idx" and "idx < 2 * int (length arr)"
  shows "i \<noteq> idx \<and> js_at arr i = None"
  using assms typed_write_grows [OF assms(2,3), of w] length_typed_write [of arr idx w]
  by (auto simp: js_at_def split: if_splits)

definition neg_len :: "FastInt32Array \<Rightarrow> int" where
  "neg_len A = int (length (negativeArr A))"

definition pos_len :: "FastInt32Array \<Rightarrow> int" where
  "pos_len A = int (length (positiveArr A))"

lemmas fast_array_defs = FastInt32Array_get_def FastInt32Array_set_def neg_len_def pos_len_def

lemma get_set:
  "FastInt32Array_get (FastInt32Array_set A k w) i = Some v \<Longrightarrow>
   (i = k \<and> v = written w) \<or> (i \<noteq> k \<and> FastInt32Array_get A i = Some v) \<or> (i \<noteq> k \<and> FastInt32Array_get A i = None \<and> v = 0)"
  by (auto simp: fast_array_defs dest: js_at_typed_write split: if_splits)

lemma get_set_None:
  "FastInt32Array_get (FastInt32Array_set A k w) i = None \<Longrightarrow> - 2 * neg_len A \<le> k \<Longrightarrow> k < 2 * pos_len A \<Longrightarrow>
   i \<noteq> k \<and> FastInt32Array_get A i = None"
  by (auto simp: fast_array_defs dest: js_at_typed_write_None split: if_splits)

lemma get_defined: "FastInt32Array_get A k \<noteq> None \<longleftrightarrow> - neg_len A \<le> k \<and> k < pos_len A"
  by (auto simp: fast_array_defs js_at_def)

lemma set_lengths:
  "neg_len A \<le> neg_len (FastInt32Array_set A k w)" "pos_len A \<le> pos_len (FastInt32Array_set A k w)"
  using length_typed_write by (simp_all add: fast_array_defs)

lemma set_reaches:
  "- 2 * neg_len A \<le> k \<Longrightarrow> k < 2 * pos_len A \<Longrightarrow> FastInt32Array_get (FastInt32Array_set A k w) k \<noteq> None"
  using get_set_None [of A k w k] by blast

section \<open>Paths are alignments\<close>

text \<open>A path without \<open>NaN\<close> is a chain of stretches of equal elements that ends within the bounds.\<close>

fun path_within :: "ISequence \<Rightarrow> ISequence \<Rightarrow> SnakePath option \<Rightarrow> int \<Rightarrow> int \<Rightarrow> bool" where
  "path_within s1 s2 None a b \<longleftrightarrow> 0 \<le> a \<and> 0 \<le> b"
| "path_within s1 s2 (Some (SnakePath prev x y len)) a b \<longleftrightarrow>
     (case (x, y, len) of
        (Some x', Some y', Some l) \<Rightarrow>
          0 < l \<and> x' + l \<le> a \<and> y' + l \<le> b \<and> matching s1 s2 x' y' l \<and> path_within s1 s2 prev x' y'
      | _ \<Rightarrow> True)"

lemma path_within_mono:
  "path_within s1 s2 p a b \<Longrightarrow> a \<le> a' \<Longrightarrow> b \<le> b' \<Longrightarrow> path_within s1 s2 p a' b'"
  by (induction s1 s2 p a b rule: path_within.induct) (auto split: option.splits)

lemma push_diff_eq:
  "a \<le> l1 \<Longrightarrow> b \<le> l2 \<Longrightarrow> push_diff (Some a) (Some b) (Some l1) (Some l2) result =
   Inr (if a \<noteq> l1 \<or> b \<noteq> l2 then result @ [SequenceDiff_new (OR a l1) (OR b l2)] else result)"
  by (simp add: push_diff_def)

lemma push_alignment:
  assumes "alignment s1 s2 1 l1 l2 ds" and "a \<le> l1" and "b \<le> l2"
  shows "alignment s1 s2 0 a b (if a \<noteq> l1 \<or> b \<noteq> l2 then SequenceDiff_new (OR a l1) (OR b l2) # ds else ds)"
  using assms alignment_weaken [OF assms(1), of 0] by auto

lemma push_diff_rev:
  assumes "alignment s1 s2 1 l1 l2 (rev result)" and "a \<le> l1" and "b \<le> l2"
    and "push_diff (Some a) (Some b) (Some l1) (Some l2) result = Inr result'"
  shows "alignment s1 s2 0 a b (rev result')"
  using push_alignment [OF assms(1-3)] assms(4) by (auto simp: push_diff_eq [OF assms(2,3)] split: if_splits)

lemma myers_path_ok:
  "path_within s1 s2 p l1 l2 \<Longrightarrow> alignment s1 s2 1 l1 l2 (rev result) \<Longrightarrow>
   myers_path p (Some l1) (Some l2) result = Inr r \<Longrightarrow> valid_diffs s1 s2 (rev r)"
proof (induction s1 s2 p l1 l2 arbitrary: result rule: path_within.induct)
  case (1 s1 s2 a b)
  then show ?case using push_diff_rev [of s1 s2 a b result 0 0 r] by (simp add: valid_diffs_def)
next
  case (2 s1 s2 prev x y len a b)
  from "2.prems"(3) obtain res where push: "push_diff (js_add x len) (js_add y len) (Some a) (Some b) result = Inr res"
    and rest: "myers_path prev x y res = Inr r"
    by (auto simp: bindr_eq_Inr_iff)
  from push obtain xl yl where "js_add x len = Some xl" "js_add y len = Some yl"
    by (auto simp: push_diff_def split: option.splits)
  then obtain x' y' l where n: "x = Some x'" "y = Some y'" "len = Some l"
    by (auto simp: js_add_def split: option.splits)
  have w: "0 < l" "x' + l \<le> a" "y' + l \<le> b" "matching s1 s2 x' y' l" "path_within s1 s2 prev x' y'"
    using "2.prems"(1) by (simp_all add: n)
  have "alignment s1 s2 0 (x' + l) (y' + l) (rev res)"
    using push_diff_rev [OF "2.prems"(2) w(2,3)] push by (simp add: n js_add_def)
  then have "alignment s1 s2 1 x' y' (rev res)"
    using alignment_weaken [OF alignment_extend [OF _ w(4)], of 0 "rev res" 1] w(1) by simp
  then show ?case using "2.IH" w(5) rest by (simp add: n)
qed

section \<open>Every diagonal keeps the invariant\<close>

lemma snake_ok:
  "sequence s1 \<Longrightarrow> sequence s2 \<Longrightarrow> 0 \<le> x \<Longrightarrow> x \<le> snake s1 s2 x y \<and> matching s1 s2 x y (snake s1 s2 x y - x) \<and>
    (snake s1 s2 x y \<noteq> x \<longrightarrow> x < seqLength s1 \<and> 0 \<le> y \<and> snake s1 s2 x y \<le> seqLength s1 \<and>
       y + (snake s1 s2 x y - x) \<le> seqLength s2)"
proof (induction s1 s2 x y rule: snake.induct)
  case (1 s1 s2 x y)
  note eq = snake.simps [of s1 s2 x y] and seqs = "1.prems"(1,2)
  show ?case
  proof (cases "x < seqLength s1 \<and> y < seqLength s2 \<and> getElement s1 x = getElement s2 y")
    case True
    have y: "0 \<le> y"
      using True "1.prems" sequence.element_defined [OF seqs(1), of x] sequence.element_defined [OF seqs(2), of y] by metis
    let ?n = "snake s1 s2 (x + 1) (y + 1)"
    have n: "snake s1 s2 x y = ?n" using True by (simp add: eq)
    have ih: "x + 1 \<le> ?n" "matching s1 s2 (x + 1) (y + 1) (?n - (x + 1))"
      "?n \<noteq> x + 1 \<longrightarrow> ?n \<le> seqLength s1 \<and> y + 1 + (?n - (x + 1)) \<le> seqLength s2"
      using "1.IH" [OF True] "1.prems" by simp_all
    have "matching s1 s2 x y (1 + (?n - (x + 1)))"
      using True ih(2) by (intro matching_append) (simp_all add: matching_1)
    then show ?thesis using ih True y by (auto simp: n)
  next
    case False
    then have "snake s1 s2 x y = x" by (subst eq) (simp only: if_False)
    then show ?thesis by simp
  qed
qed

definition entry_ok :: "ISequence \<Rightarrow> ISequence \<Rightarrow> int \<Rightarrow> int \<Rightarrow> SnakePath option \<Rightarrow> bool" where
  "entry_ok s1 s2 k v p \<longleftrightarrow> 0 \<le> v \<and> v \<le> seqLength s1 \<and>
     path_within s1 s2 p v (if v < seqLength s1 then max 0 (v - k) else seqLength s2)"

definition myers_inv :: "ISequence \<Rightarrow> ISequence \<Rightarrow> myers \<Rightarrow> bool" where
  "myers_inv s1 s2 st \<longleftrightarrow> 10 \<le> pos_len (V st) \<and> 10 \<le> neg_len (V st) \<and>
     (\<forall>k. FastInt32Array_get (V st) k = None \<longrightarrow> FastArrayNegativeIndices_get (paths st) k = None) \<and>
     (\<forall>k v. FastInt32Array_get (V st) k = Some v \<longrightarrow> entry_ok s1 s2 k v (FastArrayNegativeIndices_get (paths st) k))"

lemma paths_get_set:
  "FastArrayNegativeIndices_get (FastArrayNegativeIndices_set ps k p) i = (if i = k then p else FastArrayNegativeIndices_get ps i)"
  by (simp add: FastArrayNegativeIndices_get_def FastArrayNegativeIndices_set_def)

lemma entry_ok_zero: "0 \<le> seqLength s1 \<Longrightarrow> 0 \<le> seqLength s2 \<Longrightarrow> entry_ok s1 s2 k 0 None"
  by (simp add: entry_ok_def)

text \<open>Writing an entry that keeps the invariant.\<close>

lemma myers_inv_write:
  assumes inv: "myers_inv s1 s2 st" and len: "0 \<le> seqLength s1" "0 \<le> seqLength s2"
    and k: "- 2 * neg_len (V st) \<le> k" "k < 2 * pos_len (V st)" and e: "entry_ok s1 s2 k (written w) p"
  shows "myers_inv s1 s2 \<lparr>V = FastInt32Array_set (V st) k w, paths = FastArrayNegativeIndices_set (paths st) k p\<rparr>"
proof -
  let ?V = "FastInt32Array_set (V st) k w"
  have "FastArrayNegativeIndices_get (FastArrayNegativeIndices_set (paths st) k p) i = None"
    if "FastInt32Array_get ?V i = None" for i
    using get_set_None [OF that k] inv by (simp add: paths_get_set myers_inv_def)
  moreover have "entry_ok s1 s2 i v (FastArrayNegativeIndices_get (FastArrayNegativeIndices_set (paths st) k p) i)"
    if "FastInt32Array_get ?V i = Some v" for i v
    using get_set [OF that] e inv entry_ok_zero [OF len] by (auto simp: paths_get_set myers_inv_def)
  moreover have "10 \<le> pos_len ?V" "10 \<le> neg_len ?V"
    using set_lengths [where A = "V st" and k = k and w = w] inv by (simp_all add: myers_inv_def)
  ultimately show ?thesis by (simp add: myers_inv_def)
qed

text \<open>The path that a diagonal continues ends within the point it continues from.\<close>

lemma source_within:
  assumes inv: "myers_inv s1 s2 st" and bounds: "lb < ub" and len: "0 \<le> seqLength s1" "0 \<le> seqLength s2"
    and mt: "mt = (if k = ub then Some (- 1) else FastInt32Array_get (V st) (k + 1))"
    and ml: "ml = (if k = lb then Some (- 1) else map_option (\<lambda>v. v + 1) (FastInt32Array_get (V st) (k - 1)))"
    and x: "js_min (js_max mt ml) (Some (seqLength s1)) = Some x" and y: "x - k \<le> seqLength s2"
  shows "0 \<le> x \<and> x \<le> seqLength s1 \<and>
    path_within s1 s2 (if Some x = mt then FastArrayNegativeIndices_get (paths st) (k + 1)
                       else FastArrayNegativeIndices_get (paths st) (k - 1)) x
      (if x < seqLength s1 then max 0 (x - k) else seqLength s2)"
proof -
  obtain t l where tl: "mt = Some t" "ml = Some l" "x = min (max t l) (seqLength s1)"
    using x by (auto simp: js_min_def js_max_def split: option.splits)
  have ok: "entry_ok s1 s2 i v (FastArrayNegativeIndices_get (paths st) i)" if "FastInt32Array_get (V st) i = Some v" for i v
    using inv that by (simp add: myers_inv_def)
  have t: "k \<noteq> ub \<Longrightarrow> entry_ok s1 s2 (k + 1) t (FastArrayNegativeIndices_get (paths st) (k + 1))" "k = ub \<Longrightarrow> t = - 1"
    using ok mt tl(1) by (auto split: if_splits)
  have l: "k \<noteq> lb \<Longrightarrow> entry_ok s1 s2 (k - 1) (l - 1) (FastArrayNegativeIndices_get (paths st) (k - 1))" "k = lb \<Longrightarrow> l = - 1"
    using ok ml tl(2) by (auto simp: eq_commute [of "Some l"] split: if_splits)
  have tM: "t \<le> seqLength s1" using t len by (cases "k = ub") (auto simp: entry_ok_def)
  have x0: "0 \<le> x" using t l tl(3) bounds len by (cases "k = ub"; cases "k = lb") (auto simp: entry_ok_def)
  show ?thesis
  proof (cases "x = t")
    case True
    then have "entry_ok s1 s2 (k + 1) x (FastArrayNegativeIndices_get (paths st) (k + 1))" using t x0 by (cases "k = ub") auto
    then show ?thesis using True tl(1) unfolding entry_ok_def by (auto elim!: path_within_mono)
  next
    case False
    then have xl: "x = min l (seqLength s1)" "k \<noteq> lb" using tl(3) tM l(2) x0 by auto
    note e = l(1) [OF xl(2), unfolded entry_ok_def]
    have "path_within s1 s2 (FastArrayNegativeIndices_get (paths st) (k - 1)) x
      (if x < seqLength s1 then max 0 (x - k) else seqLength s2)"
      by (rule path_within_mono [OF conjunct2 [OF conjunct2 [OF e]]]) (use e xl y len in \<open>auto split: if_splits\<close>)
    then show ?thesis using False tl(1,3) x0 by auto
  qed
qed

lemma myers_diagonal_ok:
  assumes seqs: "sequence s1" "sequence s2" and m: "int32 (seqLength s1)" and inv: "myers_inv s1 s2 st" and b: "lb < ub"
    and k: "lb \<le> k" "k \<le> ub" "0 < ub" "lb < 0" "- k \<le> neg_len (V st) + 2" "k \<le> pos_len (V st) + 2"
    and st': "myers_diagonal s1 s2 lb ub k st = (st', reached)"
  shows "myers_inv s1 s2 st' \<and> neg_len (V st) \<le> neg_len (V st') \<and> k \<le> pos_len (V st') \<and> - k - 1 \<le> neg_len (V st') \<and>
    (reached \<longrightarrow> path_within s1 s2 (FastArrayNegativeIndices_get (paths st') k) (seqLength s1) (seqLength s2))"
proof -
  note len = sequence.length_nonneg [OF seqs(1)] sequence.length_nonneg [OF seqs(2)]
  define t where "t = (if k = ub then Some (- 1) else FastInt32Array_get (V st) (k + 1))"
  define l where "l = (if k = lb then Some (- 1) else map_option (\<lambda>v. v + 1) (FastInt32Array_get (V st) (k - 1)))"
  define x where "x = js_min (js_max t l) (Some (seqLength s1))"
  define n where "n = getXAfterSnake s1 s2 x k"
  define lastp where "lastp = (if x \<noteq> None \<and> x = t then FastArrayNegativeIndices_get (paths st) (k + 1)
    else FastArrayNegativeIndices_get (paths st) (k - 1))"
  define p where "p = (if n = None \<or> n \<noteq> x
     then Some (SnakePath lastp x (map_option (\<lambda>v. v - k) x) (case (n, x) of (Some n, Some v) \<Rightarrow> Some (n - v) | _ \<Rightarrow> None)) else lastp)"
  define skip where "skip \<longleftrightarrow> (case x of Some v \<Rightarrow> v > seqLength s1 \<or> v - k > seqLength s2 | None \<Rightarrow> False)"
  define st1 where "st1 = \<lparr>V = FastInt32Array_set (V st) k n, paths = FastArrayNegativeIndices_set (paths st) k p\<rparr>"
  have st_eq: "(st', reached) = (if skip then (st, False) else
      (st1, FastInt32Array_get (V st1) k = Some (seqLength s1) \<and>
        map_option (\<lambda>v. v - k) (FastInt32Array_get (V st1) k) = Some (seqLength s2)))"
    using st' unfolding myers_diagonal_def Let_def t_def [symmetric] l_def [symmetric] x_def [symmetric] n_def [symmetric]
      lastp_def [symmetric] p_def [symmetric] st1_def [symmetric] skip_def
    by (cases x) (auto simp: st1_def split: if_splits)
  have lens: "10 \<le> pos_len (V st)" "10 \<le> neg_len (V st)" using inv by (simp_all add: myers_inv_def)
  show ?thesis
  proof (cases skip)
    case True
    then obtain v where "x = Some v" by (cases x) (auto simp: skip_def)
    then have "t \<noteq> None" "l \<noteq> None" by (auto simp: x_def js_min_def js_max_def split: option.splits)
    then have "k \<noteq> ub \<longrightarrow> FastInt32Array_get (V st) (k + 1) \<noteq> None" "k \<noteq> lb \<longrightarrow> FastInt32Array_get (V st) (k - 1) \<noteq> None"
      by (auto simp: t_def l_def)
    then have "- k - 1 \<le> neg_len (V st)" "k \<le> pos_len (V st)" using k lens unfolding get_defined by linarith+
    then show ?thesis using st_eq True inv by simp
  next
    case False
    have e: "entry_ok s1 s2 k (written n) p"
    proof (cases x)
      case None
      then have "n = None" by (simp add: n_def getXAfterSnake_def)
      then show ?thesis using len by (simp add: entry_ok_def written_def p_def None)
    next
      case (Some v)
      have v: "0 \<le> v" "v \<le> seqLength s1" "v - k \<le> seqLength s2"
        "path_within s1 s2 lastp v (if v < seqLength s1 then max 0 (v - k) else seqLength s2)"
        using source_within [OF inv b len t_def l_def, of v] False Some by (auto simp: skip_def x_def lastp_def)
      obtain w where w: "n = Some w" "w = snake s1 s2 v (v - k)" by (simp add: n_def getXAfterSnake_def Some)
      have sn: "v \<le> w" "matching s1 s2 v (v - k) (w - v)" "w \<noteq> v \<longrightarrow> v < seqLength s1 \<and> 0 \<le> v - k \<and> w \<le> seqLength s1 \<and> w - k \<le> seqLength s2"
        using snake_ok [OF seqs v(1), of "v - k"] by (auto simp: w(2))
      have wr: "written n = w" using sn v m len by (cases "w = v") (auto simp: written_def w(1) int32_def intro!: toInt32_id)
      show ?thesis
      proof (cases "w = v")
        case True
        then show ?thesis using v wr by (simp add: entry_ok_def p_def w(1) Some)
      next
        case neq: False
        then show ?thesis unfolding wr entry_ok_def using v sn by (auto simp: p_def w(1) Some)
      qed
    qed
    have kb: "- 2 * neg_len (V st) \<le> k" "k < 2 * pos_len (V st)" using k lens by simp_all
    have inv1: "myers_inv s1 s2 st1" unfolding st1_def by (rule myers_inv_write [OF inv len kb e])
    have "FastInt32Array_get (V st1) k \<noteq> None" using set_reaches [OF kb, of n] by (simp add: st1_def)
    then have "- k - 1 \<le> neg_len (V st1)" "k \<le> pos_len (V st1)" unfolding get_defined by simp_all
    moreover have "neg_len (V st) \<le> neg_len (V st1)" by (simp add: st1_def set_lengths)
    moreover have "path_within s1 s2 (FastArrayNegativeIndices_get (paths st1) k) (seqLength s1) (seqLength s2)"
      if "FastInt32Array_get (V st1) k = Some (seqLength s1)"
      using inv1 that unfolding myers_inv_def entry_ok_def by fastforce
    ultimately show ?thesis using st_eq False inv1 by auto
  qed
qed

lemma myers_round_ok:
  "sequence s1 \<Longrightarrow> sequence s2 \<Longrightarrow> int32 (seqLength s1) \<Longrightarrow> lb < 0 \<Longrightarrow> 0 < ub \<Longrightarrow> lb \<le> k \<Longrightarrow> myers_inv s1 s2 st \<Longrightarrow>
   - k \<le> neg_len (V st) + 2 \<Longrightarrow> k \<le> pos_len (V st) + 2 \<Longrightarrow> myers_round s1 s2 lb ub k st = (st', r) \<Longrightarrow>
   myers_inv s1 s2 st' \<and> neg_len (V st) \<le> neg_len (V st') \<and> (k \<le> ub \<longrightarrow> - k - 1 \<le> neg_len (V st')) \<and>
   (\<forall>k'. r = Some k' \<longrightarrow> path_within s1 s2 (FastArrayNegativeIndices_get (paths st') k') (seqLength s1) (seqLength s2))"
proof (induction s1 s2 lb ub k st rule: myers_round.induct)
  case (1 s1 s2 lb ub k st)
  show ?case
  proof (cases "k \<le> ub")
    case True
    obtain st1 reached where d: "myers_diagonal s1 s2 lb ub k st = (st1, reached)" by fastforce
    have one: "myers_inv s1 s2 st1 \<and> neg_len (V st) \<le> neg_len (V st1) \<and> k \<le> pos_len (V st1) \<and> - k - 1 \<le> neg_len (V st1) \<and>
      (reached \<longrightarrow> path_within s1 s2 (FastArrayNegativeIndices_get (paths st1) k) (seqLength s1) (seqLength s2))"
      using "1.prems" True by (intro myers_diagonal_ok [OF _ _ _ _ _ _ _ _ _ _ _ d]) auto
    show ?thesis
    proof (cases reached)
      case r: True
      then show ?thesis using one "1.prems"(10) True by (auto simp: myers_round.simps [of s1 s2 lb ub k st] d)
    next
      case r: False
      then have "myers_round s1 s2 lb ub (k + 2) st1 = (st', r)"
        using "1.prems"(10) True by (simp add: myers_round.simps [of s1 s2 lb ub k st] d)
      then show ?thesis using "1.IH" [OF True d [symmetric] _ r] "1.prems" one by auto
    qed
  next
    case False
    then show ?thesis using "1.prems" by (simp add: myers_round.simps [of s1 s2 lb ub k st])
  qed
qed

lemma bounds_signs:
  assumes "0 < seqLength s1" and "0 < seqLength s2" and "1 \<le> d"
  shows "lowerBound_at s2 d < 0" and "0 < upperBound_at s1 d"
proof -
  have "0 \<le> d mod 2" by simp
  then show "lowerBound_at s2 d < 0" "0 < upperBound_at s1 d"
    using assms unfolding lowerBound_at_def upperBound_at_def min_def by (simp_all add: add_pos_nonneg)
qed

lemma lowerBound_step: "- lowerBound_at s2 (d + 1) \<le> - lowerBound_at s2 d + 1"
proof -
  have "(d + 1) mod 2 \<le> d mod 2 + 1" by presburger
  then show ?thesis by (simp add: lowerBound_at_def min_def)
qed

lemma myers_loop_ok:
  assumes "myers_loop s1 s2 timeout polls st = Some r"
  shows "sequence s1 \<and> sequence s2 \<and> int32 (seqLength s1) \<and> 0 < seqLength s1 \<and> 0 < seqLength s2 \<and>
   myers_inv s1 s2 st \<and> - lowerBound_at s2 (int polls + 1) \<le> neg_len (V st) + 2 \<longrightarrow>
   (case r of None \<Rightarrow> \<exists>n. \<not> timeout n
    | Some (st', k) \<Rightarrow> path_within s1 s2 (FastArrayNegativeIndices_get (paths st') k) (seqLength s1) (seqLength s2))"
  using assms
proof (rule myers_loop.raw_induct [rotated], intro impI)
  fix rec :: "ISequence \<Rightarrow> ISequence \<Rightarrow> timeout \<Rightarrow> nat \<Rightarrow> myers \<Rightarrow> (myers \<times> int) option option"
    and s1 s2 timeout polls st r
  assume IH: "\<And>s1 s2 timeout polls st r. rec s1 s2 timeout polls st = Some r \<Longrightarrow>
     sequence s1 \<and> sequence s2 \<and> int32 (seqLength s1) \<and> 0 < seqLength s1 \<and> 0 < seqLength s2 \<and>
     myers_inv s1 s2 st \<and> - lowerBound_at s2 (int polls + 1) \<le> neg_len (V st) + 2 \<longrightarrow>
     (case r of None \<Rightarrow> \<exists>n. \<not> timeout n
      | Some (st', k) \<Rightarrow> path_within s1 s2 (FastArrayNegativeIndices_get (paths st') k) (seqLength s1) (seqLength s2))"
  let ?lb = "lowerBound_at s2 (int polls + 1)" and ?ub = "upperBound_at s1 (int polls + 1)"
  assume body: "(if \<not> timeout polls then Some None
     else let (st', reached) = myers_round s1 s2 ?lb ?ub ?lb st
          in if reached = None then rec s1 s2 timeout (polls + 1) st' else Some (map_option (\<lambda>k. (st', k)) reached)) = Some r"
  assume hyps: "sequence s1 \<and> sequence s2 \<and> int32 (seqLength s1) \<and> 0 < seqLength s1 \<and> 0 < seqLength s2 \<and>
     myers_inv s1 s2 st \<and> - ?lb \<le> neg_len (V st) + 2"
  then have p: "sequence s1" "sequence s2" "int32 (seqLength s1)" "0 < seqLength s1" "0 < seqLength s2" "myers_inv s1 s2 st"
    "- ?lb \<le> neg_len (V st) + 2" by blast+
  show "case r of None \<Rightarrow> \<exists>n. \<not> timeout n
    | Some (st', k) \<Rightarrow> path_within s1 s2 (FastArrayNegativeIndices_get (paths st') k) (seqLength s1) (seqLength s2)"
  proof (cases "timeout polls")
    case False
    then show ?thesis using body by auto
  next
    case True
    obtain st1 reached where d: "myers_round s1 s2 ?lb ?ub ?lb st = (st1, reached)" by fastforce
    note sg = bounds_signs [OF p(4,5), of "int polls + 1"]
    have one: "myers_inv s1 s2 st1 \<and> neg_len (V st) \<le> neg_len (V st1) \<and> - ?lb - 1 \<le> neg_len (V st1) \<and>
      (\<forall>k'. reached = Some k' \<longrightarrow> path_within s1 s2 (FastArrayNegativeIndices_get (paths st1) k') (seqLength s1) (seqLength s2))"
      using myers_round_ok [OF p(1-3) sg(1,2) order_refl p(6,7) _ d] sg p(6) by (simp add: myers_inv_def)
    show ?thesis
    proof (cases reached)
      case None
      then have "rec s1 s2 timeout (polls + 1) st1 = Some r" using body True by (simp add: d)
      moreover have "- lowerBound_at s2 (int (polls + 1) + 1) \<le> neg_len (V st1) + 2"
        using lowerBound_step [of s2 "int polls + 1"] one by (simp add: add.commute)
      ultimately show ?thesis using IH p one by blast
    next
      case (Some k)
      then have "r = Some (st1, k)" using body True by (simp add: d)
      then show ?thesis using one Some by simp
    qed
  qed
qed

lemma myers_init_ok:
  assumes "sequence s1" and "sequence s2" and "int32 (seqLength s1)" and "0 < seqLength s1" and "0 < seqLength s2"
  shows "myers_inv s1 s2 (myers_init s1 s2)"
proof -
  let ?st = "\<lparr>V = FastInt32Array_new, paths = []\<rparr>"
  define x0 where "x0 = snake s1 s2 0 0"
  define V0 where "V0 = FastInt32Array_set FastInt32Array_new 0 (Some x0)"
  have sn: "0 \<le> x0" "x0 \<le> seqLength s1" "x0 \<le> seqLength s2" "matching s1 s2 0 0 x0"
    using snake_ok [OF assms(1,2), of 0 0] assms(4,5) by (auto simp: x0_def)
  have lens: "pos_len FastInt32Array_new = 10" "neg_len FastInt32Array_new = 10"
    by (simp_all add: pos_len_def neg_len_def FastInt32Array_new_def)
  have "v = 0" if "FastInt32Array_get FastInt32Array_new k = Some v" for k v
    using that by (auto simp: FastInt32Array_get_def FastInt32Array_new_def js_at_def split: if_splits)
  then have inv: "myers_inv s1 s2 ?st"
    using entry_ok_zero [of s1 s2] assms(4,5) by (auto simp: myers_inv_def lens FastArrayNegativeIndices_get_def)
  have w: "written (Some x0) = x0" using sn assms(3) by (auto simp: written_def int32_def intro!: toInt32_id)
  have get: "FastInt32Array_get V0 0 = Some x0"
    using set_reaches [of FastInt32Array_new 0 "Some x0"] get_set [of FastInt32Array_new 0 "Some x0" 0] w
    by (auto simp: V0_def lens)
  have "entry_ok s1 s2 0 (written (Some x0)) (if x0 = 0 then None else Some (SnakePath None (Some 0) (Some 0) (Some x0)))"
    using sn assms(5) unfolding w by (auto simp: entry_ok_def)
  from myers_inv_write [OF inv _ _ _ _ this] show ?thesis
    using assms(4,5) unfolding myers_init_def Let_def x0_def [symmetric] V0_def [symmetric] get option.inject
    by (cases "x0 = 0") (simp_all add: lens V0_def)
qed

text \<open>Whatever the algorithm returns is a valid alignment.\<close>

lemma MyersDiffAlgorithm_compute_ok:
  assumes "sequence s1" and "sequence s2" and "int32 (seqLength s1)"
    and "MyersDiffAlgorithm_compute s1 s2 timeout = Some (Inr r)"
  shows "valid_diffs s1 s2 (diffs r) \<and> (hitTimeout r \<longrightarrow> (\<exists>n. \<not> timeout n))"
proof (cases "seqLength s1 = 0 \<or> seqLength s2 = 0")
  case True
  then show ?thesis using assms(4) trivial_diff_ok [OF assms(1,2), of False]
    by (auto simp: MyersDiffAlgorithm_compute_def DiffAlgorithmResult_trivial_def)
next
  case False
  then have pos: "0 < seqLength s1" "0 < seqLength s2"
    using sequence.length_nonneg [OF assms(1)] sequence.length_nonneg [OF assms(2)] by simp_all
  let ?st = "myers_init s1 s2"
  have inv: "myers_inv s1 s2 ?st" by (rule myers_init_ok [OF assms(1-3) pos])
  have lb: "- lowerBound_at s2 (int 0 + 1) \<le> neg_len (V ?st) + 2"
    using inv pos by (simp add: lowerBound_at_def myers_inv_def)
  obtain res where res: "myers_loop s1 s2 timeout 0 ?st = Some res"
    using assms(4) False by (auto simp: MyersDiffAlgorithm_compute_def split: option.splits)
  note ok = mp [OF myers_loop_ok [OF res] conjI [OF assms(1) conjI [OF assms(2) conjI [OF assms(3) conjI [OF pos(1) conjI [OF pos(2) conjI [OF inv lb]]]]]]]
  note eq = assms(4) [unfolded MyersDiffAlgorithm_compute_def res]
  show ?thesis
  proof (cases res)
    case None
    then show ?thesis using eq ok False trivial_diff_ok [OF assms(1,2), of True] by (auto simp: DiffAlgorithmResult_trivialTimedOut_def)
  next
    case (Some q)
    obtain st' k where q: "q = (st', k)" by fastforce
    obtain ds where ds: "myers_path (FastArrayNegativeIndices_get (paths st') k) (Some (seqLength s1)) (Some (seqLength s2)) [] = Inr ds"
      "r = \<lparr>diffs = rev ds, hitTimeout = False\<rparr>"
      using eq False by (auto simp: Some q bindr_eq_Inr_iff)
    then show ?thesis using myers_path_ok [OF _ _ ds(1)] ok by (simp add: Some q)
  qed
qed

section \<open>A match that is lost\<close>

text \<open>Eleven lines of which the last one is the single line of the second document.\<close>

lemma Myers_loses_match:
  "MyersDiffAlgorithm_compute (LineSequence [1, 2, 3, 4, 5, 6, 7, 8, 9, 10, 0] []) (LineSequence [0] []) InfiniteTimeout =
     Some (Inr \<lparr>diffs = [SequenceDiff_new (OR 0 11) (OR 0 1)], hitTimeout = False\<rparr>) \<and>
   valid_diffs (LineSequence [1, 2, 3, 4, 5, 6, 7, 8, 9, 10, 0] []) (LineSequence [0] [])
     [SequenceDiff_new (OR 0 10) (OR 0 0)]"
  by code_simp

end
