(* ===== verification/Diff_Compute.thy ===== *)
theory Diff_Compute
  imports Complex_Main Diff_Removal Diff_Myers
begin

text \<open>
  The line level of \<open>computeDiff\<close>, lines 47 to 141 of
  \<open>src/vs/editor/common/diff/defaultLinesDiffComputer/defaultLinesDiffComputer.ts\<close>: the trimmed lines
  are aligned (by dynamic programming below 1700 lines, by the Myers algorithm above), the alignment
  is optimised, and the stretches that differ are handed to \<open>refineDiff\<close>, together with the single
  lines that differ in white space only. The calls of \<open>refineDiff\<close>, in order, are the result of the
  model. Seen as replacements of whole lines they turn the original document into the modified one,
  exactly or up to the white space around the lines (\<open>computeDiff_lines_correct\<close>).
\<close>

section \<open>Aligning the lines\<close>

record LinesDiffComputerOptions =
  ignoreTrimWhitespace :: bool
  maxComputationTimeMs :: int

text \<open>The score of a pair of lines that are equal after trimming. The offsets are in range.\<close>

definition lineEqualityScore :: "utf16 list \<Rightarrow> utf16 list \<Rightarrow> int \<Rightarrow> int \<Rightarrow> real" where
  "lineEqualityScore originalLines modifiedLines o1 o2 =
     (if js_at originalLines o1 = js_at modifiedLines o2
      then (case js_at modifiedLines o2 of
              Some l \<Rightarrow> if length l = 0 then 1 / 10 else 1 + ln (1 + real (length l))
            | None \<Rightarrow> 0)
      else 99 / 100)"

definition diffTimeout :: "int \<Rightarrow> int \<Rightarrow> (nat \<Rightarrow> int) \<Rightarrow> timeout result" where
  "diffTimeout ms startTime now = (if ms = 0 then Inr InfiniteTimeout else DateTimeout_new startTime ms now)"

definition lineAlignmentResult :: "utf16 list \<Rightarrow> utf16 list \<Rightarrow> timeout \<Rightarrow> DiffAlgorithmResult result option" where
  "lineAlignmentResult originalLines modifiedLines timeout =
     (let sequence1 = originalSequence originalLines modifiedLines;
          sequence2 = modifiedSequence originalLines modifiedLines
      in if seqLength sequence1 + seqLength sequence2 < 1700
         then Some (DynamicProgrammingDiffing_compute sequence1 sequence2 timeout
                (Some (lineEqualityScore originalLines modifiedLines)) TYPE(real))
         else MyersDiffAlgorithm_compute sequence1 sequence2 timeout)"

definition optimizeLineAlignments :: "utf16 list \<Rightarrow> utf16 list \<Rightarrow> SequenceDiff list \<Rightarrow> SequenceDiff list result" where
  "optimizeLineAlignments originalLines modifiedLines lineAlignments =
     (let sequence1 = originalSequence originalLines modifiedLines;
          sequence2 = modifiedSequence originalLines modifiedLines
      in bindr (optimizeSequenceDiffs sequence1 sequence2 lineAlignments) (\<lambda>ds.
         removeVeryShortMatchingLinesBetweenDiffs originalLines ds))"

section \<open>The calls of refineDiff\<close>

text \<open>\<open>scanForWhitespaceChanges\<close>: the lines of an equal stretch that are not the same.\<close>

definition singleLines :: "int \<Rightarrow> int \<Rightarrow> int \<Rightarrow> SequenceDiff" where
  "singleLines seq1LastStart seq2LastStart i =
     SequenceDiff_new (OR (seq1LastStart + i) (seq1LastStart + i + 1)) (OR (seq2LastStart + i) (seq2LastStart + i + 1))"

definition scanForWhitespaceChanges ::
  "utf16 list \<Rightarrow> utf16 list \<Rightarrow> bool \<Rightarrow> int \<Rightarrow> int \<Rightarrow> int \<Rightarrow> SequenceDiff list" where
  "scanForWhitespaceChanges originalLines modifiedLines considerWhitespaceChanges seq1LastStart seq2LastStart equalLinesCount =
     (if \<not> considerWhitespaceChanges then []
      else map (singleLines seq1LastStart seq2LastStart)
             [i \<leftarrow> [0..equalLinesCount - 1]. js_at originalLines (seq1LastStart + i) \<noteq> js_at modifiedLines (seq2LastStart + i)])"

text \<open>The loop over the alignments. \<open>assertFn\<close> does not throw, it reports an unexpected error: the flag
  of the result says that an assertion failed.\<close>

fun refineCalls ::
  "utf16 list \<Rightarrow> utf16 list \<Rightarrow> bool \<Rightarrow> int \<Rightarrow> int \<Rightarrow> SequenceDiff list \<Rightarrow> SequenceDiff list \<times> bool" where
  "refineCalls originalLines modifiedLines considerWs seq1LastStart seq2LastStart [] =
     (scanForWhitespaceChanges originalLines modifiedLines considerWs seq1LastStart seq2LastStart
        (int (length originalLines) - seq1LastStart), False)"
| "refineCalls originalLines modifiedLines considerWs seq1LastStart seq2LastStart (diff # rest) =
     (let equalLinesCount = start (seq1Range diff) - seq1LastStart;
          (calls, failed) = refineCalls originalLines modifiedLines considerWs
            (endExclusive (seq1Range diff)) (endExclusive (seq2Range diff)) rest
      in (scanForWhitespaceChanges originalLines modifiedLines considerWs seq1LastStart seq2LastStart equalLinesCount @
            diff # calls,
          start (seq1Range diff) - seq1LastStart \<noteq> start (seq2Range diff) - seq2LastStart \<or> failed))"

record lines_plan =
  plan_calls :: "SequenceDiff list"
  plan_assertionFailed :: bool
  plan_hitTimeout :: bool

definition computeDiff_lines ::
  "utf16 list \<Rightarrow> utf16 list \<Rightarrow> LinesDiffComputerOptions \<Rightarrow> int \<Rightarrow> (nat \<Rightarrow> int) \<Rightarrow> lines_plan result option" where
  "computeDiff_lines originalLines modifiedLines options startTime now =
     (case diffTimeout (maxComputationTimeMs options) startTime now of
        Inl e \<Rightarrow> Some (Inl e)
      | Inr timeout \<Rightarrow>
          map_option (\<lambda>r. bindr r (\<lambda>lineAlignmentResult.
            bindr (optimizeLineAlignments originalLines modifiedLines (diffs lineAlignmentResult)) (\<lambda>lineAlignments.
            let (calls, failed) = refineCalls originalLines modifiedLines (\<not> ignoreTrimWhitespace options) 0 0 lineAlignments
            in Inr \<lparr>plan_calls = calls, plan_assertionFailed = failed, plan_hitTimeout = hitTimeout lineAlignmentResult\<rparr>)))
          (lineAlignmentResult originalLines modifiedLines timeout))"

section \<open>Replacing lines\<close>

definition line_splice :: "utf16 list \<Rightarrow> SequenceDiff \<Rightarrow> utf16 splice" where
  "line_splice modifiedLines d =
     (start (seq1Range d), endExclusive (seq1Range d),
      take (nat (endExclusive (seq2Range d) - start (seq2Range d))) (drop (nat (start (seq2Range d))) modifiedLines))"

definition map_splice :: "('a \<Rightarrow> 'b) \<Rightarrow> 'a splice \<Rightarrow> 'b splice" where
  "map_splice f e = (case e of (a, b, t) \<Rightarrow> (a, b, map f t))"

lemma out_map: "out p (map (map_splice f) es) (map f s) = map f (out p es s)"
  by (induction p es s rule: out.induct) (simp_all add: map_splice_def take_map drop_map)

lemma fits_map: "fits p n (map (map_splice f) es) \<longleftrightarrow> fits p n es"
  by (induction p n es rule: fits.induct) (simp_all add: map_splice_def)

lemma out_subset:
  "\<forall>(a, b, t) \<in> set es. set t \<subseteq> A \<Longrightarrow> set s \<subseteq> A \<Longrightarrow> set (out p es s) \<subseteq> A"
  by (induction p es s rule: out.induct) (auto dest!: in_set_takeD in_set_dropD)

lemma elements_of_LineSequence: "elements_of (LineSequence hs ls) = hs"
  by (rule nth_equalityI) (auto simp: elements_of_def LineSequence_def js_at_def)

lemma diff_splice_map:
  "elements_of s2 = map f ls \<Longrightarrow> diff_splice s2 d = map_splice f (line_splice ls d)"
  by (simp add: diff_splice_def line_splice_def map_splice_def take_map drop_map)

lemma seqLength_LineSequence [simp]: "seqLength (LineSequence hs ls) = int (length hs)"
  by (simp add: LineSequence_def)

text \<open>Aligned diffs of the hashed lines replace lines up to white space.\<close>

lemma alignment_lines:
  assumes "valid_diffs (originalSequence ls1 ls2) (modifiedSequence ls1 ls2) ds"
  shows "fits 0 (int (length ls1)) (map (line_splice ls2) ds) \<and>
    map js_trim (out 0 (map (line_splice ls2) ds) ls1) = map js_trim ls2"
proof -
  obtain h1 h2 where h: "lineHashes ls1 ls2 = (h1, h2)" by fastforce
  obtain m where m: "hashes_inv m" "map Some h1 = map (\<lambda>l. map_of m (js_trim l)) ls1"
    "map Some h2 = map (\<lambda>l. map_of m (js_trim l)) ls2"
    by (rule lineHashes_map [OF h])
  define f where "f l = the (map_of m (js_trim l))" for l
  have f: "h1 = map f ls1" "h2 = map f ls2"
    using arg_cong [OF m(2), of "map the"] arg_cong [OF m(3), of "map the"] by (simp_all add: f_def comp_def)
  have e: "elements_of (originalSequence ls1 ls2) = map f ls1" "elements_of (modifiedSequence ls1 ls2) = map f ls2"
    by (simp_all add: originalSequence_def modifiedSequence_def h elements_of_LineSequence f)
  have len: "seqLength (originalSequence ls1 ls2) = int (length ls1)"
    using lineHashes_eq(1) [OF h] by (simp add: originalSequence_def h)
  have sp: "map (diff_splice (modifiedSequence ls1 ls2)) ds = map (map_splice f) (map (line_splice ls2) ds)"
    by (simp add: diff_splice_map [OF e(2)])
  note al = assms [unfolded valid_diffs_def]
  have fit: "fits 0 (int (length ls1)) (map (line_splice ls2) ds)"
    using alignment_applies(1) [OF al] unfolding sp fits_map len by simp
  have eq: "map f (out 0 (map (line_splice ls2) ds) ls1) = map f ls2"
    using alignment_applies(2) [OF al] unfolding sp e out_map by simp
  have dom: "map_of m (js_trim l) \<noteq> None" if "l \<in> set ls1 \<union> set ls2" for l
  proof -
    have "map_of m (js_trim l) \<in> set (map Some h1) \<union> set (map Some h2)" using that m(2,3) by auto
    then show ?thesis by auto
  qed
  have inj: "js_trim x = js_trim y" if "f x = f y" "x \<in> set ls1 \<union> set ls2" "y \<in> set ls1 \<union> set ls2" for x y
    using hashes_inv_injective [OF m(1), of "js_trim x" "f x" "js_trim y"] dom [OF that(2)] dom [OF that(3)] that(1)
    by (auto simp: f_def)
  have sub: "set (out 0 (map (line_splice ls2) ds) ls1) \<subseteq> set ls1 \<union> set ls2"
    by (rule out_subset) (auto simp: line_splice_def dest: in_set_takeD in_set_dropD)
  have "map js_trim (out 0 (map (line_splice ls2) ds) ls1) = map js_trim ls2"
  proof (rule nth_equalityI)
    show "length (map js_trim (out 0 (map (line_splice ls2) ds) ls1)) = length (map js_trim ls2)"
      using map_eq_imp_length_eq [OF eq] by simp
    fix i assume i: "i < length (map js_trim (out 0 (map (line_splice ls2) ds) ls1))"
    then have j: "i < length (out 0 (map (line_splice ls2) ds) ls1)" "i < length ls2"
      using map_eq_imp_length_eq [OF eq] by simp_all
    then have "f (out 0 (map (line_splice ls2) ds) ls1 ! i) = f (ls2 ! i)"
      using arg_cong [OF eq, of "\<lambda>xs. xs ! i"] by simp
    then show "map js_trim (out 0 (map (line_splice ls2) ds) ls1) ! i = map js_trim ls2 ! i"
      using inj [of "out 0 (map (line_splice ls2) ds) ls1 ! i" "ls2 ! i"] nth_mem [OF j(1)] nth_mem [OF j(2)] sub j
      by (simp add: subset_eq)
  qed
  with fit show ?thesis by blast
qed

text \<open>Without the comparison of white space the calls are the alignments.\<close>

lemma refineCalls_plain:
  "alignment s1 s2 g i j ds \<Longrightarrow> refineCalls ls1 ls2 False i j ds = (ds, False)"
  by (induction ds arbitrary: g i j) (auto simp: scanForWhitespaceChanges_def Let_def split: prod.split)

text \<open>With it, an equal stretch is replaced line by line where the lines are not the same.\<close>

lemma scan_0 [simp]: "scanForWhitespaceChanges ls1 ls2 c i j 0 = []"
  by (simp add: scanForWhitespaceChanges_def)

lemma upto_Suc: "[0..int n] = 0 # map (\<lambda>i. i + 1) [0..int n - 1]"
proof -
  have "[0..int n] = 0 # [1..int n]" by (simp add: upto_rec1)
  moreover have "[1..int n] = map (\<lambda>i. i + 1) [0..int n - 1]"
    by (rule nth_equalityI) simp_all
  ultimately show ?thesis by simp
qed

lemma scan_Suc:
  "scanForWhitespaceChanges ls1 ls2 True i j (int (Suc n)) =
   (if js_at ls1 i \<noteq> js_at ls2 j then [singleLines i j 0] else []) @ scanForWhitespaceChanges ls1 ls2 True (i + 1) (j + 1) (int n)"
proof -
  have "singleLines i j (t + 1) = singleLines (i + 1) (j + 1) t" for t by (simp add: singleLines_def add.commute add.left_commute)
  then show ?thesis
    by (simp add: scanForWhitespaceChanges_def upto_Suc filter_map comp_def add.commute add.left_commute)
qed

lemma scan_applies:
  "0 \<le> i \<Longrightarrow> 0 \<le> j \<Longrightarrow> i + int n \<le> int (length ls1) \<Longrightarrow> j + int n \<le> int (length ls2) \<Longrightarrow>
   fits (i + int n) (int (length ls1)) es \<Longrightarrow>
   fits i (int (length ls1)) (map (line_splice ls2) (scanForWhitespaceChanges ls1 ls2 True i j (int n)) @ es) \<and>
   out i (map (line_splice ls2) (scanForWhitespaceChanges ls1 ls2 True i j (int n)) @ es) ls1 =
     take n (drop (nat j) ls2) @ out (i + int n) es ls1"
proof (induction n arbitrary: i j)
  case (Suc n)
  let ?rest = "map (line_splice ls2) (scanForWhitespaceChanges ls1 ls2 True (i + 1) (j + 1) (int n)) @ es"
  have ih: "fits (i + 1) (int (length ls1)) ?rest"
    "out (i + 1) ?rest ls1 = take n (drop (nat (j + 1)) ls2) @ out (i + 1 + int n) es ls1"
    using Suc.IH [of "i + 1" "j + 1"] Suc.prems by (simp_all add: add.assoc)
  have ji: "nat j < length ls2" "nat i < length ls1" using Suc.prems by simp_all
  have drops: "drop (nat j) ls2 = ls2 ! nat j # drop (nat (j + 1)) ls2" "drop (nat i) ls1 = ls1 ! nat i # drop (nat (i + 1)) ls1"
    using Cons_nth_drop_Suc [OF ji(1)] Cons_nth_drop_Suc [OF ji(2)] Suc.prems(1,2) by (simp_all add: nat_add_distrib)
  have step: "out i ((i, i + 1, [ls2 ! nat j]) # ?rest) ls1 = ls2 ! nat j # out (i + 1) ?rest ls1" by simp
  have skip: "out i ?rest ls1 = ls1 ! nat i # out (i + 1) ?rest ls1"
    using out_skip [OF Suc.prems(1) _ ih(1)] by (simp add: drops(2))
  have sp: "line_splice ls2 (singleLines i j 0) = (i, i + 1, [ls2 ! nat j])"
    by (simp add: line_splice_def singleLines_def OR_def drops(1))
  show ?case
  proof (cases "js_at ls1 i = js_at ls2 j")
    case True
    then have "ls1 ! nat i = ls2 ! nat j" using Suc.prems by (simp add: js_at_def split: if_splits)
    then show ?thesis using True ih skip fits_mono [OF ih(1), of i] unfolding scan_Suc by (simp add: drops(1) add.assoc)
  next
    case False
    then show ?thesis using ih step sp unfolding scan_Suc by (simp add: drops(1) add.assoc)
  qed
qed simp

lemma take_drop_between:
  "0 \<le> a \<Longrightarrow> a \<le> b \<Longrightarrow> take (nat (b - a)) (drop (nat a) xs) @ drop (nat b) xs = drop (nat a) xs"
  by (simp only: drop_nat_le [of a b] append_take_drop_id)

lemma refineCalls_applies:
  "alignment s1 s2 g i j ds \<Longrightarrow> seqLength s1 = int (length ls1) \<Longrightarrow> seqLength s2 = int (length ls2) \<Longrightarrow>
   0 \<le> i \<Longrightarrow> 0 \<le> j \<Longrightarrow> 0 \<le> g \<Longrightarrow>
   \<exists>calls. refineCalls ls1 ls2 True i j ds = (calls, False) \<and> fits i (int (length ls1)) (map (line_splice ls2) calls) \<and>
     out i (map (line_splice ls2) calls) ls1 = drop (nat j) ls2"
proof (induction ds arbitrary: g i j)
  case Nil
  let ?n = "nat (int (length ls1) - i)"
  have n: "int ?n = int (length ls1) - i" "i \<le> int (length ls1)" using Nil by simp_all
  have "j + int ?n = int (length ls2)" using Nil n by simp
  then show ?case using scan_applies [of i j ?n ls1 ls2 "[]"] Nil n by (simp add: nat_diff_distrib)
next
  case (Cons d ds)
  let ?r1 = "seq1Range d" and ?r2 = "seq2Range d"
  note b = alignment_bounds [OF Cons.prems(1,6)]
  obtain calls where ih: "refineCalls ls1 ls2 True (endExclusive ?r1) (endExclusive ?r2) ds = (calls, False)"
    "fits (endExclusive ?r1) (int (length ls1)) (map (line_splice ls2) calls)"
    "out (endExclusive ?r1) (map (line_splice ls2) calls) ls1 = drop (nat (endExclusive ?r2)) ls2"
    using Cons.IH [of 1 "endExclusive ?r1" "endExclusive ?r2"] Cons.prems by auto
  let ?n = "nat (start ?r1 - i)"
  have n: "int ?n = start ?r1 - i" "start ?r2 - j = start ?r1 - i" "start ?r1 \<le> endExclusive ?r1" "start ?r2 \<le> endExclusive ?r2"
    using Cons.prems by simp_all
  have len: "endExclusive ?r1 \<le> int (length ls1)" "endExclusive ?r2 \<le> int (length ls2)" using b Cons.prems by simp_all
  have sp: "line_splice ls2 d = (start ?r1, endExclusive ?r1, take (nat (endExclusive ?r2 - start ?r2)) (drop (nat (start ?r2)) ls2))"
    by (simp add: line_splice_def)
  have fd: "fits (i + int ?n) (int (length ls1)) (map (line_splice ls2) (d # calls))" using ih(2) n by (simp add: sp)
  have od: "out (i + int ?n) (map (line_splice ls2) (d # calls)) ls1 = drop (nat (start ?r2)) ls2"
    using take_drop_between [of "start ?r2" "endExclusive ?r2" ls2] n Cons.prems(5) by (simp add: sp ih(3))
  have split: "take ?n (drop (nat j) ls2) @ drop (nat (start ?r2)) ls2 = drop (nat j) ls2"
    using take_drop_between [of j "start ?r2" ls2] n Cons.prems(5) by simp
  have ok: "fits i (int (length ls1)) (map (line_splice ls2) (scanForWhitespaceChanges ls1 ls2 True i j (int ?n)) @ map (line_splice ls2) (d # calls))"
    "out i (map (line_splice ls2) (scanForWhitespaceChanges ls1 ls2 True i j (int ?n)) @ map (line_splice ls2) (d # calls)) ls1 = drop (nat j) ls2"
    using scan_applies [OF Cons.prems(4,5) _ _ fd, of ls2, unfolded od split] n len by linarith+
  have "refineCalls ls1 ls2 True i j (d # ds) = (scanForWhitespaceChanges ls1 ls2 True i j (int ?n) @ d # calls, False)"
    using n by (simp add: ih(1) Let_def)
  then show ?case using ok by simp
qed

section \<open>Correctness of the line level\<close>

lemma lineEqualityScore_ok: "scores_ok (Some (lineEqualityScore ls1 ls2))"
  by (auto simp: scores_ok_def lineEqualityScore_def split: option.split intro!: add_nonneg_nonneg ln_ge_zero)

lemma seqLengths [simp]:
  "seqLength (originalSequence ls1 ls2) = int (length ls1)" "seqLength (modifiedSequence ls1 ls2) = int (length ls2)"
  by (cases "lineHashes ls1 ls2"; simp add: originalSequence_def modifiedSequence_def lineHashes_eq)+

lemma line_dp_ok:
  "\<exists>r. DynamicProgrammingDiffing_compute (originalSequence ls1 ls2) (modifiedSequence ls1 ls2) timeout
     (Some (lineEqualityScore ls1 ls2)) TYPE(real) = Inr r \<and>
   valid_diffs (originalSequence ls1 ls2) (modifiedSequence ls1 ls2) (diffs r) \<and> (hitTimeout r \<longrightarrow> (\<exists>n. \<not> timeout n))"
  by (rule DynamicProgrammingDiffing_compute_ok [OF original_lines.sequence_axioms modified_lines.sequence_axioms lineEqualityScore_ok])

lemma lineAlignmentResult_ok:
  assumes "int32 (int (length ls1))" and "lineAlignmentResult ls1 ls2 timeout = Some (Inr r)"
  shows "valid_diffs (originalSequence ls1 ls2) (modifiedSequence ls1 ls2) (diffs r) \<and> (hitTimeout r \<longrightarrow> (\<exists>n. \<not> timeout n))"
proof (cases "length ls1 + length ls2 < 1700")
  case True
  then show ?thesis
    using line_dp_ok [of ls1 ls2 timeout] assms(2) by (auto simp: lineAlignmentResult_def Let_def)
next
  case False
  then show ?thesis
    using MyersDiffAlgorithm_compute_ok [OF original_lines.sequence_axioms modified_lines.sequence_axioms] assms
    by (simp add: lineAlignmentResult_def Let_def)
qed

lemma lineAlignmentResult_returns:
  assumes "length ls1 + length ls2 < 1700"
  shows "\<exists>r. lineAlignmentResult ls1 ls2 timeout = Some (Inr r)"
  using assms line_dp_ok [of ls1 ls2 timeout]
  by (auto simp: lineAlignmentResult_def Let_def)

lemma optimizeLineAlignments_ok:
  assumes "valid_diffs (originalSequence ls1 ls2) (modifiedSequence ls1 ls2) ds"
  shows "\<exists>r. optimizeLineAlignments ls1 ls2 ds = Inr r \<and> valid_diffs (originalSequence ls1 ls2) (modifiedSequence ls1 ls2) r"
proof -
  obtain r1 where r1: "optimizeSequenceDiffs (originalSequence ls1 ls2) (modifiedSequence ls1 ls2) ds = Inr r1"
    "valid_diffs (originalSequence ls1 ls2) (modifiedSequence ls1 ls2) r1"
    using optimizeSequenceDiffs_ok [OF original_lines.sequence_axioms modified_lines.sequence_axioms assms] by blast
  from removeVeryShortMatchingLinesBetweenDiffs_ok [OF r1(2)] show ?thesis by (simp add: optimizeLineAlignments_def r1(1))
qed

definition plan_ok :: "utf16 list \<Rightarrow> utf16 list \<Rightarrow> bool \<Rightarrow> lines_plan \<Rightarrow> bool" where
  "plan_ok ls1 ls2 ignoreWs p \<longleftrightarrow> \<not> plan_assertionFailed p \<and>
     fits 0 (int (length ls1)) (map (line_splice ls2) (plan_calls p)) \<and>
     (let result = out 0 (map (line_splice ls2) (plan_calls p)) ls1
      in if ignoreWs then map js_trim result = map js_trim ls2 else result = ls2)"

lemma refineCalls_plan:
  assumes "valid_diffs (originalSequence ls1 ls2) (modifiedSequence ls1 ls2) ds"
  shows "\<exists>calls. refineCalls ls1 ls2 (\<not> ignoreWs) 0 0 ds = (calls, False) \<and>
     plan_ok ls1 ls2 ignoreWs \<lparr>plan_calls = calls, plan_assertionFailed = False, plan_hitTimeout = h\<rparr>"
proof (cases ignoreWs)
  case True
  then show ?thesis
    using refineCalls_plain [OF assms [unfolded valid_diffs_def], of ls1 ls2] alignment_lines [OF assms]
    by (simp add: plan_ok_def)
next
  case False
  then show ?thesis
    using refineCalls_applies [OF assms [unfolded valid_diffs_def], of ls1 ls2] by (auto simp: plan_ok_def)
qed

lemma diffTimeout_ok: "0 \<le> ms \<Longrightarrow> \<exists>t. diffTimeout ms startTime now = Inr t"
  by (simp add: diffTimeout_def DateTimeout_new_def)

lemma computeDiff_lines_ok:
  assumes "int32 (int (length ls1))" and "computeDiff_lines ls1 ls2 opts startTime now = Some (Inr p)"
  shows "plan_ok ls1 ls2 (ignoreTrimWhitespace opts) p"
proof -
  obtain timeout r where r: "lineAlignmentResult ls1 ls2 timeout = Some (Inr r)"
    "bindr (optimizeLineAlignments ls1 ls2 (diffs r)) (\<lambda>lineAlignments.
       let (calls, failed) = refineCalls ls1 ls2 (\<not> ignoreTrimWhitespace opts) 0 0 lineAlignments
       in Inr \<lparr>plan_calls = calls, plan_assertionFailed = failed, plan_hitTimeout = hitTimeout r\<rparr>) = Inr p"
    using assms(2) by (auto simp: computeDiff_lines_def bindr_eq_Inr_iff split: sum.splits)
  obtain ds where ds: "optimizeLineAlignments ls1 ls2 (diffs r) = Inr ds"
    "valid_diffs (originalSequence ls1 ls2) (modifiedSequence ls1 ls2) ds"
    using optimizeLineAlignments_ok lineAlignmentResult_ok [OF assms(1) r(1)] by blast
  show ?thesis
    using refineCalls_plan [OF ds(2), of "ignoreTrimWhitespace opts" "hitTimeout r"] r(2) by (auto simp: ds(1))
qed

lemma computeDiff_lines_returns:
  assumes "length ls1 + length ls2 < 1700" and "0 \<le> maxComputationTimeMs opts"
  shows "\<exists>p. computeDiff_lines ls1 ls2 opts startTime now = Some (Inr p)"
proof -
  obtain timeout where t: "diffTimeout (maxComputationTimeMs opts) startTime now = Inr timeout"
    using diffTimeout_ok [OF assms(2)] by blast
  obtain r where r: "lineAlignmentResult ls1 ls2 timeout = Some (Inr r)" using lineAlignmentResult_returns [OF assms(1)] by blast
  have "int32 (int (length ls1))" using assms(1) by (simp add: int32_def)
  then obtain ds where "optimizeLineAlignments ls1 ls2 (diffs r) = Inr ds"
    using optimizeLineAlignments_ok lineAlignmentResult_ok [OF _ r] by blast
  then show ?thesis by (simp add: computeDiff_lines_def t r split: prod.split)
qed

end
