(* ===== verification/Diff_Correct.thy ===== *)
theory Diff_Correct
  imports Diff_Compute
begin

text \<open>
  The properties of the diff computer: the numbers of the lines, the two algorithms, the heuristics and
  the line level of \<open>computeDiff\<close>, each with a concrete input where it applies.
\<close>

text \<open>C28. The numbers \<open>computeDiff\<close> gives to the lines of the two documents are a perfect hash of the
  trimmed lines: two lines, of the same document or of both, get the same number exactly when they are
  equal after \<open>trim\<close>.\<close>

theorem lineHashes_perfect:
  assumes "lineHashes originalLines modifiedLines = (h1, h2)"
    and "i < length (originalLines @ modifiedLines)" and "j < length (originalLines @ modifiedLines)"
  shows "(h1 @ h2) ! i = (h1 @ h2) ! j \<longleftrightarrow>
    js_trim ((originalLines @ modifiedLines) ! i) = js_trim ((originalLines @ modifiedLines) ! j)"
proof -
  note eq = lineHashes_eq [OF assms(1)]
  show ?thesis
    using assms(2,3) eq(3) [of i "j - length originalLines"] eq(3) [of j "i - length originalLines"]
      eq(4) [of i j] eq(5) [of "i - length originalLines" "j - length originalLines"]
    by (auto simp: nth_append eq(1,2))
qed

theorem lineHashes_perfect_witness:
  "lineHashes [[97, 32], [98]] [[9, 97], [99]] = ([0, 1], [0, 2]) \<and>
   (([0, 1] @ [0, 2 :: int]) ! 0 = ([0, 1] @ [0, 2]) ! 2 \<longleftrightarrow> js_trim [97, 32] = js_trim [9, 97])"
proof -
  have h: "lineHashes [[97, 32], [98]] [[9, 97], [99]] = ([0, 1], [0, 2])" by code_simp
  show ?thesis using h lineHashes_perfect [OF h, of 0 2] by simp
qed

text \<open>C25. On sequences that keep their contract and with scores that are not negative, the dynamic
  programming algorithm always returns; its diffs, as replacements, turn the first sequence into the
  second one; and it reports a timeout only when the timeout has expired.\<close>

theorem DynamicProgrammingDiffing_compute_correct:
  fixes equalityScore :: "(int \<Rightarrow> int \<Rightarrow> 's :: linordered_idom) option"
  assumes "sequence seq1" and "sequence seq2" and "scores_ok equalityScore"
  shows "\<exists>r. DynamicProgrammingDiffing_compute seq1 seq2 timeout equalityScore TYPE('s) = Inr r \<and>
    fits 0 (seqLength seq1) (map (diff_splice seq2) (diffs r)) \<and>
    out 0 (map (diff_splice seq2) (diffs r)) (elements_of seq1) = elements_of seq2 \<and>
    (hitTimeout r \<longrightarrow> (\<exists>n. \<not> timeout n))"
proof -
  obtain r where "DynamicProgrammingDiffing_compute seq1 seq2 timeout equalityScore TYPE('s) = Inr r"
    "valid_diffs seq1 seq2 (diffs r)" "hitTimeout r \<longrightarrow> (\<exists>n. \<not> timeout n)"
    using DynamicProgrammingDiffing_compute_ok [OF assms] by blast
  then show ?thesis using alignment_applies [of seq1 seq2 0 0 0 "diffs r"] by (simp add: valid_diffs_def)
qed

theorem DynamicProgrammingDiffing_compute_correct_witness:
  "\<exists>r. DynamicProgrammingDiffing_compute (originalSequence [[97], [98]] [[98], [99]]) (modifiedSequence [[97], [98]] [[98], [99]])
      InfiniteTimeout (None :: (int \<Rightarrow> int \<Rightarrow> int) option) TYPE(int) = Inr r \<and>
    out 0 (map (diff_splice (modifiedSequence [[97], [98]] [[98], [99]])) (diffs r)) [0, 1] = [1, 2] \<and> \<not> hitTimeout r"
proof -
  have e: "elements_of (originalSequence [[97], [98]] [[98], [99]]) = [0, 1]"
    "elements_of (modifiedSequence [[97], [98]] [[98], [99]]) = [1, 2]" by code_simp+
  have "scores_ok (None :: (int \<Rightarrow> int \<Rightarrow> int) option)" by (simp add: scores_ok_def)
  from DynamicProgrammingDiffing_compute_correct [OF original_lines.sequence_axioms modified_lines.sequence_axioms this,
      of "[[97], [98]]" "[[98], [99]]" "[[97], [98]]" "[[98], [99]]" InfiniteTimeout]
  show ?thesis by (auto simp: e InfiniteTimeout_def)
qed



text \<open>C26. The heuristics keep an alignment valid and never throw: moving and joining diffs
  (\<open>optimizeSequenceDiffs\<close>), joining them across short matches (\<open>removeShortMatches\<close>) and across short
  lines (\<open>removeVeryShortMatchingLinesBetweenDiffs\<close>).\<close>

theorem heuristics_keep_alignment:
  assumes "sequence s1" and "sequence s2" and "valid_diffs s1 s2 ds"
  shows "(\<exists>r. optimizeSequenceDiffs s1 s2 ds = Inr r \<and> valid_diffs s1 s2 r) \<and>
    (\<exists>r. removeShortMatches s1 s2 ds = Inr r \<and> valid_diffs s1 s2 r) \<and>
    (\<exists>r. removeVeryShortMatchingLinesBetweenDiffs lines ds = Inr r \<and> valid_diffs s1 s2 r)"
  using optimizeSequenceDiffs_ok [OF assms] removeShortMatches_ok [OF assms(3)]
    removeVeryShortMatchingLinesBetweenDiffs_ok [OF assms(3)] by blast

theorem heuristics_keep_alignment_witness:
  "\<exists>r. optimizeSequenceDiffs (originalSequence [[97], [98], [97]] [[97]]) (modifiedSequence [[97], [98], [97]] [[97]])
      [SequenceDiff_new (OR 1 3) (OR 1 1)] = Inr r \<and>
     valid_diffs (originalSequence [[97], [98], [97]] [[97]]) (modifiedSequence [[97], [98], [97]] [[97]]) r"
proof -
  have "valid_diffs (originalSequence [[97], [98], [97]] [[97]]) (modifiedSequence [[97], [98], [97]] [[97]])
      [SequenceDiff_new (OR 1 3) (OR 1 1)]" by code_simp
  from heuristics_keep_alignment [OF original_lines.sequence_axioms modified_lines.sequence_axioms this]
  show ?thesis by blast
qed

text \<open>C5. The line level of \<open>computeDiff\<close>: when it returns, none of its assertions fails and the line ranges
  it refines, as replacements of whole lines, are sorted and turn the original document into the
  modified one, exactly when white space counts and up to the white space around the lines when it is
  ignored. Below 1700 lines it always returns.\<close>

theorem computeDiff_lines_correct:
  assumes "int32 (int (length originalLines))" and "0 \<le> maxComputationTimeMs options"
  shows "(\<forall>p. computeDiff_lines originalLines modifiedLines options startTime now = Some (Inr p) \<longrightarrow>
      plan_ok originalLines modifiedLines (ignoreTrimWhitespace options) p) \<and>
    (length originalLines + length modifiedLines < 1700 \<longrightarrow>
      (\<exists>p. computeDiff_lines originalLines modifiedLines options startTime now = Some (Inr p)))"
  using computeDiff_lines_ok [OF assms(1)] computeDiff_lines_returns [OF _ assms(2)] by blast

theorem computeDiff_lines_correct_witness:
  "\<exists>p. computeDiff_lines [[97], [32, 98], [99]] [[98], [99]] \<lparr>ignoreTrimWhitespace = False, maxComputationTimeMs = 0\<rparr> 0 (\<lambda>i. 0) = Some (Inr p) \<and>
     out 0 (map (line_splice [[98], [99]]) (plan_calls p)) [[97], [32, 98], [99]] = [[98], [99]]"
  using computeDiff_lines_correct [of "[[97], [32, 98], [99]]" "\<lparr>ignoreTrimWhitespace = False, maxComputationTimeMs = 0\<rparr>"
      "[[98], [99]]" 0 "\<lambda>i. 0"]
  by (auto simp: int32_def plan_ok_def)

section \<open>The score is not a length\<close>

text \<open>The table of the dynamic programming algorithm is documented as the lengths of longest common
  subsequences. The bonus for consecutive diagonals makes it something else: the result keeps two
  elements, although an alignment that keeps three exists.\<close>

lemma dynamic_programming_not_longest:
  "DynamicProgrammingDiffing_compute (LineSequence [2, 0, 2, 2] []) (LineSequence [2, 2, 3, 2, 0] []) InfiniteTimeout
     (None :: (int \<Rightarrow> int \<Rightarrow> int) option) TYPE(int) =
   Inr \<lparr>diffs = [SequenceDiff_new (OR 0 0) (OR 0 3), SequenceDiff_new (OR 2 4) (OR 5 5)], hitTimeout = False\<rparr>"
  by code_simp

lemma dynamic_programming_shorter_exists:
  "valid_diffs (LineSequence [2, 0, 2, 2] []) (LineSequence [2, 2, 3, 2, 0] [])
     [SequenceDiff_new (OR 1 2) (OR 1 1), SequenceDiff_new (OR 3 3) (OR 2 3), SequenceDiff_new (OR 4 4) (OR 4 5)]"
  by code_simp

end
