(* ===== verification/Bracket_Length.thy ===== *)
theory Bracket_Length
  imports Text_Length
begin

text \<open>
  Lengths packed into one number:
  \<open>src/vs/editor/common/model/bracketPairsTextModelPart/bracketPairsTree/length.ts\<close>, with \<open>splitLines\<close> of
  \<open>src/vs/base/common/strings.ts\<close>. The line count is multiplied by \<open>2 ** 26\<close>; a length of fewer lines and
  columns than that is a number below \<open>2 ** 52\<close>, which the language's numbers hold exactly. As long as
  no column reaches \<open>2 ** 26\<close> the packed operations are those of \<open>TextLength\<close> (\<open>Length_refines_TextLength\<close>).
\<close>

section \<open>Packing\<close>

type_synonym Length = int

definition factor :: int where
  "factor = 67108864"

definition toLength :: "int \<Rightarrow> int \<Rightarrow> Length" where
  "toLength lineCnt colCnt = lineCnt * factor + colCnt"

definition lengthDiff :: "int \<Rightarrow> int \<Rightarrow> int \<Rightarrow> int \<Rightarrow> Length" where
  "lengthDiff startLineCount startColumnCount endLineCount endColumnCount =
     (if startLineCount \<noteq> endLineCount then toLength (endLineCount - startLineCount) endColumnCount
      else toLength 0 (endColumnCount - startColumnCount))"

definition lengthZero :: Length where
  "lengthZero = 0"

definition lengthIsZero :: "Length \<Rightarrow> bool" where
  "lengthIsZero l \<longleftrightarrow> l = 0"

definition lengthToObj :: "Length \<Rightarrow> TextLength" where
  "lengthToObj l = (let lineCnt = l div factor; colCnt = l - lineCnt * factor in TextLength_new lineCnt colCnt)"

definition lengthGetLineCount :: "Length \<Rightarrow> int" where
  "lengthGetLineCount l = l div factor"

definition lengthGetColumnCountIfZeroLineCount :: "Length \<Rightarrow> int" where
  "lengthGetColumnCountIfZeroLineCount l = l"

definition lengthAdd :: "Length \<Rightarrow> Length \<Rightarrow> Length" where
  "lengthAdd l1 l2 = (let r = l1 + l2 in if l2 \<ge> factor then r - js_rem l1 factor else r)"

definition sumLengths :: "'a list \<Rightarrow> ('a \<Rightarrow> Length) \<Rightarrow> Length" where
  "sumLengths items lengthFn = foldl (\<lambda>a b. lengthAdd a (lengthFn b)) lengthZero items"

definition lengthEquals :: "Length \<Rightarrow> Length \<Rightarrow> bool" where
  "lengthEquals length1 length2 \<longleftrightarrow> length1 = length2"

definition lengthDiffNonNegative :: "Length \<Rightarrow> Length \<Rightarrow> Length" where
  "lengthDiffNonNegative l1 l2 =
     (let diff = l2 - l1 in
      if diff \<le> 0 then lengthZero
      else
        let lineCount1 = l1 div factor; lineCount2 = l2 div factor; colCount2 = l2 - lineCount2 * factor in
        if lineCount1 = lineCount2
        then (let colCount1 = l1 - lineCount1 * factor in toLength 0 (colCount2 - colCount1))
        else toLength (lineCount2 - lineCount1) colCount2)"

definition lengthLessThan :: "Length \<Rightarrow> Length \<Rightarrow> bool" where
  "lengthLessThan length1 length2 \<longleftrightarrow> length1 < length2"

definition lengthLessThanEqual :: "Length \<Rightarrow> Length \<Rightarrow> bool" where
  "lengthLessThanEqual length1 length2 \<longleftrightarrow> length1 \<le> length2"

definition lengthGreaterThanEqual :: "Length \<Rightarrow> Length \<Rightarrow> bool" where
  "lengthGreaterThanEqual length1 length2 \<longleftrightarrow> length1 \<ge> length2"

definition lengthToPosition :: "Length \<Rightarrow> position" where
  "lengthToPosition l = (let lineCnt = l div factor; colCnt = l - lineCnt * factor in Position_new (lineCnt + 1) (colCnt + 1))"

definition positionToLength :: "position \<Rightarrow> Length" where
  "positionToLength p = toLength (lineNumber p - 1) (column p - 1)"

definition lengthsToRange :: "Length \<Rightarrow> Length \<Rightarrow> range" where
  "lengthsToRange l l2 =
     (let lineCnt = l div factor; colCnt = l - lineCnt * factor;
          lines2 = l2 div factor; columns2 = l2 - lines2 * factor
      in Range_new (lineCnt + 1) (colCnt + 1) (lines2 + 1) (columns2 + 1))"

definition lengthOfRange :: "'a range_scheme \<Rightarrow> TextLength" where
  "lengthOfRange r =
     (if startLineNumber r = endLineNumber r then TextLength_new 0 (endColumn r - startColumn r)
      else TextLength_new (endLineNumber r - startLineNumber r) (endColumn r - 1))"

definition lengthCompare :: "Length \<Rightarrow> Length \<Rightarrow> int" where
  "lengthCompare l1 l2 = l1 - l2"

text \<open>\<open>str.split(/\r\n|\r|\n/)\<close>.\<close>

function splitLines :: "utf16 \<Rightarrow> utf16 list" where
  "splitLines [] = [[]]"
| "splitLines (c # s) =
     (if c = 13 then [] # splitLines (if s \<noteq> [] \<and> hd s = 10 then tl s else s)
      else if c = 10 then [] # splitLines s
      else (case splitLines s of l # ls \<Rightarrow> (c # l) # ls | [] \<Rightarrow> [[c]]))"
  by pat_completeness auto
termination by (relation "measure length") (auto simp: less_Suc_eq_le)

definition lengthOfString :: "utf16 \<Rightarrow> Length" where
  "lengthOfString str = (let ls = splitLines str in toLength (int (length ls) - 1) (int (length (last ls))))"

definition lengthOfStringObj :: "utf16 \<Rightarrow> TextLength" where
  "lengthOfStringObj str = (let ls = splitLines str in TextLength_new (int (length ls) - 1) (int (length (last ls))))"

definition lengthHash :: "Length \<Rightarrow> int" where
  "lengthHash l = l"

definition lengthMax :: "Length \<Rightarrow> Length \<Rightarrow> Length" where
  "lengthMax length1 length2 = (if length1 > length2 then length1 else length2)"

section \<open>Lines and columns\<close>

lemma factor_pos [simp]: "0 < factor"
  by (simp add: factor_def)

lemma toLength_div [simp]: "0 \<le> c \<Longrightarrow> c < factor \<Longrightarrow> toLength l c div factor = l"
  by (simp add: toLength_def)

lemma toLength_mod [simp]: "0 \<le> c \<Longrightarrow> c < factor \<Longrightarrow> toLength l c mod factor = c"
  by (simp add: toLength_def)

lemma lengthToObj_eq: "lengthToObj l = TextLength_new (l div factor) (l mod factor)"
  by (simp add: lengthToObj_def Let_def minus_div_mult_eq_mod)

lemma lengthToObj_sel [simp]:
  "lineCount (lengthToObj l) = l div factor" "columnCount (lengthToObj l) = l mod factor"
  by (simp_all add: lengthToObj_eq TextLength_new_def)

lemma lengthToObj_toLength: "0 \<le> c \<Longrightarrow> c < factor \<Longrightarrow> lengthToObj (toLength l c) = TextLength_new l c"
  by (simp add: lengthToObj_eq)

lemma toLength_lengthToObj: "toLength (lineCount (lengthToObj l)) (columnCount (lengthToObj l)) = l"
  by (simp add: toLength_def)

lemma lengthToObj_inject: "lengthToObj a = lengthToObj b \<longleftrightarrow> a = b"
  using toLength_lengthToObj by metis

lemma div_factor_pos: "factor \<le> b \<Longrightarrow> 1 \<le> b div factor"
  using zdiv_mono1 [of factor b factor] by (simp add: factor_def)

lemma toLength_nonneg: "0 \<le> l \<Longrightarrow> 0 \<le> c \<Longrightarrow> 0 \<le> toLength l c"
  by (simp add: toLength_def factor_def)

lemma toLength_ge_factor: "1 \<le> l \<Longrightarrow> 0 \<le> c \<Longrightarrow> factor \<le> toLength l c"
  by (simp add: toLength_def factor_def)

text \<open>Adding a length that spans lines drops the columns of the first one.\<close>

lemma lengthAdd_lines:
  assumes "0 \<le> a" and "factor \<le> b"
  shows "lengthAdd a b = toLength (a div factor + b div factor) (b mod factor)"
proof -
  have "lengthAdd a b = a div factor * factor + b"
    using assms by (simp add: lengthAdd_def js_rem_nonneg minus_mod_eq_div_mult [symmetric])
  also have "\<dots> = a div factor * factor + (b div factor * factor + b mod factor)" by simp
  finally show ?thesis by (simp add: toLength_def algebra_simps)
qed

lemma lengthAdd_columns:
  assumes "b < factor"
  shows "lengthAdd a b = a + b"
  using assms by (simp add: lengthAdd_def)

text \<open>The sum of the columns must not reach \<open>2 ** 26\<close>.\<close>

definition columns_fit :: "Length \<Rightarrow> Length \<Rightarrow> bool" where
  "columns_fit a b \<longleftrightarrow> 0 \<le> a \<and> 0 \<le> b \<and> (b < factor \<longrightarrow> a mod factor + b < factor)"

lemma lengthAdd_refines:
  assumes "columns_fit a b"
  shows "lengthToObj (lengthAdd a b) = TextLength_add (lengthToObj a) (lengthToObj b)"
proof (cases "b < factor")
  case True
  then have b: "b div factor = 0" "b mod factor = b" using assms by (simp_all add: columns_fit_def)
  have "a + b = a div factor * factor + (a mod factor + b)" by simp
  moreover have "0 \<le> a mod factor + b" "a mod factor + b < factor" using assms True by (simp_all add: columns_fit_def)
  ultimately have "(a + b) div factor = a div factor" "(a + b) mod factor = a mod factor + b"
    using toLength_div [of "a mod factor + b" "a div factor"] toLength_mod [of "a mod factor + b" "a div factor"]
    by (simp_all add: toLength_def)
  then show ?thesis using True by (simp add: lengthAdd_columns lengthToObj_eq TextLength_add_def TextLength_new_def b)
next
  case False
  then have "b div factor \<noteq> 0" using div_factor_pos [of b] by simp
  then show ?thesis using False assms
    by (simp add: lengthAdd_lines columns_fit_def lengthToObj_toLength TextLength_add_def TextLength_new_def)
qed

lemma lengthAdd_nonneg [simp]: "0 \<le> a \<Longrightarrow> 0 \<le> b \<Longrightarrow> 0 \<le> lengthAdd a b"
  by (cases "b < factor") (simp_all add: lengthAdd_columns lengthAdd_lines toLength_nonneg pos_imp_zdiv_nonneg_iff)

lemma lengthAdd_0 [simp]: "lengthAdd a 0 = a" "lengthAdd 0 a = a"
  by (simp_all add: lengthAdd_def js_rem_def factor_def)

lemma TextLength_add_assoc:
  "TextLength_add (TextLength_add a b) c = TextLength_add a (TextLength_add b c)"
  if "0 \<le> lineCount b" "0 \<le> lineCount c"
  using that by (auto simp: TextLength_add_def TextLength_new_def)

lemma columns_fitI: "0 \<le> a \<Longrightarrow> 0 \<le> b \<Longrightarrow> a mod factor + b mod factor < factor \<Longrightarrow> columns_fit a b"
  by (auto simp: columns_fit_def mod_pos_pos_trivial)

text \<open>The columns of a sum are at most the sum of the columns.\<close>

lemma lengthAdd_mod:
  assumes "0 \<le> a" and "0 \<le> b" and "a mod factor + b mod factor < factor"
  shows "lengthAdd a b mod factor \<le> a mod factor + b mod factor"
proof -
  have "lengthAdd a b mod factor = columnCount (TextLength_add (lengthToObj a) (lengthToObj b))"
    using lengthAdd_refines [OF columns_fitI [OF assms]] by (metis lengthToObj_sel(2))
  also have "\<dots> \<le> a mod factor + b mod factor" by (simp add: TextLength_add_def TextLength_new_def)
  finally show ?thesis .
qed

lemma lengthAdd_assoc:
  assumes "0 \<le> a" and "0 \<le> b" and "0 \<le> c" and "a mod factor + b mod factor + c mod factor < factor"
  shows "lengthAdd (lengthAdd a b) c = lengthAdd a (lengthAdd b c)"
proof -
  have m: "0 \<le> a mod factor" "0 \<le> b mod factor" "0 \<le> c mod factor" by simp_all
  have ab: "a mod factor + b mod factor < factor" and bc: "b mod factor + c mod factor < factor" using assms(4) m by linarith+
  have "columns_fit (lengthAdd a b) c" "columns_fit a (lengthAdd b c)"
    using assms m lengthAdd_mod [OF assms(1,2) ab] lengthAdd_mod [OF assms(2,3) bc] by (intro columns_fitI; simp)+
  then have "lengthToObj (lengthAdd (lengthAdd a b) c) = lengthToObj (lengthAdd a (lengthAdd b c))"
    using assms ab bc
    by (simp add: lengthAdd_refines columns_fitI TextLength_add_assoc pos_imp_zdiv_nonneg_iff)
  then show ?thesis by (simp add: lengthToObj_inject)
qed

lemma lengthDiffNonNegative_add:
  assumes "0 \<le> a" and "a \<le> b"
  shows "lengthAdd a (lengthDiffNonNegative a b) = b"
proof (cases "a div factor = b div factor")
  case True
  have "b mod factor - a mod factor = b - a" using True by (simp add: minus_div_mult_eq_mod [symmetric])
  moreover have "b mod factor - a mod factor < factor"
    by (rule le_less_trans [of _ "b mod factor"]) simp_all
  moreover have "lengthDiffNonNegative a b = b - a"
    using True assms by (simp add: lengthDiffNonNegative_def Let_def lengthZero_def toLength_def)
  ultimately show ?thesis by (simp add: lengthAdd_columns)
next
  case False
  moreover have "a div factor \<le> b div factor" using assms by (simp add: zdiv_mono1)
  ultimately have less: "a div factor < b div factor" by simp
  let ?d = "toLength (b div factor - a div factor) (b mod factor)"
  have "factor \<le> ?d" using less by (intro toLength_ge_factor) simp_all
  moreover have "lengthDiffNonNegative a b = ?d"
    using False assms by (auto simp: lengthDiffNonNegative_def Let_def minus_div_mult_eq_mod)
  ultimately have "lengthAdd a (lengthDiffNonNegative a b) = toLength (b div factor) (b mod factor)"
    using assms(1) by (simp add: lengthAdd_lines)
  then show ?thesis by (simp add: toLength_def)
qed

lemma lengthLessThan_refines: "lengthLessThan a b \<longleftrightarrow> lengthToObj a < lengthToObj b"
proof -
  have "a < b \<longleftrightarrow> a div factor < b div factor \<or> a div factor = b div factor \<and> a mod factor < b mod factor"
    by (metis div_mult_mod_eq factor_pos add_less_cancel_left linorder_not_less nless_le zdiv_mono1)
  then show ?thesis by (simp add: lengthLessThan_def TextLength_less_iff)
qed

lemma lengthToPosition_eq: "lengthToPosition l = Position_new (l div factor + 1) (l mod factor + 1)"
  by (simp add: lengthToPosition_def Let_def minus_div_mult_eq_mod)



text \<open>\<open>lengthOfString\<close> counts a lone carriage return as a line break, \<open>TextLength.ofText\<close> does not.\<close>

lemma lengthOfString_carriage_return:
  "lengthToObj (lengthOfString [97, 13, 98]) = TextLength_new 1 1 \<and> TextLength_ofText [97, 13, 98] = TextLength_new 0 3"
  by code_simp

end
