(* ===== verification/Small_Set.thy ===== *)
theory Small_Set
  imports Prelude
begin

text \<open>
  Immutable sets of small numbers as bit masks:
  \<open>src/vs/editor/common/model/bracketPairsTextModelPart/bracketPairsTree/smallImmutableSet.ts\<close>. The first 32
  elements are the bits of one 32-bit integer, further ones the bits of an array. The keys are those a
  key provider returns, natural numbers. The cache of small sets only saves allocations and is left
  out, and the test for the one shared empty array is a test for an empty array, since no other empty
  array is ever built. The operations are those of sets of numbers (\<open>SmallImmutableSet_refines_sets\<close>).
\<close>

unbundle bit_operations_syntax

record SmallImmutableSet =
  items :: "32 word"
  additionalItems :: "32 word list"

definition SmallImmutableSet_create :: "32 word \<Rightarrow> 32 word list \<Rightarrow> SmallImmutableSet" where
  "SmallImmutableSet_create i xs = \<lparr>items = i, additionalItems = xs\<rparr>"

definition SmallImmutableSet_getEmpty :: SmallImmutableSet where
  "SmallImmutableSet_getEmpty = SmallImmutableSet_create 0 []"

definition SmallImmutableSet_add :: "SmallImmutableSet \<Rightarrow> nat \<Rightarrow> SmallImmutableSet" where
  "SmallImmutableSet_add s key =
     (if key div 32 = 0 then
        (let newItem = push_bit key 1 OR items s
         in if newItem = items s then s else SmallImmutableSet_create newItem (additionalItems s))
      else
        let idx = key div 32 - 1;
            newItems = additionalItems s @ replicate (idx - length (additionalItems s)) 0;
            newBit = push_bit (key mod 32) 1
        in SmallImmutableSet_create (items s)
             (if idx < length newItems then newItems[idx := newItems ! idx OR newBit] else newItems @ [newBit]))"

definition SmallImmutableSet_has :: "SmallImmutableSet \<Rightarrow> nat \<Rightarrow> bool" where
  "SmallImmutableSet_has s key \<longleftrightarrow>
     (if key div 32 = 0 then items s AND push_bit key 1 \<noteq> 0
      else
        let idx = key div 32 - 1
        in (if idx < length (additionalItems s) then additionalItems s ! idx else 0) AND push_bit (key mod 32) 1 \<noteq> 0)"

definition item_or_0 :: "32 word list \<Rightarrow> nat \<Rightarrow> 32 word" where
  "item_or_0 xs i = (if i < length xs then xs ! i else 0)"

definition SmallImmutableSet_merge :: "SmallImmutableSet \<Rightarrow> SmallImmutableSet \<Rightarrow> SmallImmutableSet" where
  "SmallImmutableSet_merge s other =
     (let merged = items s OR items other in
      if additionalItems s = [] \<and> additionalItems other = [] then
        if merged = items s then s
        else if merged = items other then other
        else SmallImmutableSet_create merged []
      else
        SmallImmutableSet_create merged
          (map (\<lambda>i. item_or_0 (additionalItems s) i OR item_or_0 (additionalItems other) i)
             [0..<max (length (additionalItems s)) (length (additionalItems other))]))"

definition SmallImmutableSet_intersects :: "SmallImmutableSet \<Rightarrow> SmallImmutableSet \<Rightarrow> bool" where
  "SmallImmutableSet_intersects s other \<longleftrightarrow>
     items s AND items other \<noteq> 0 \<or>
     (\<exists>i \<in> set [0..<min (length (additionalItems s)) (length (additionalItems other))].
        additionalItems s ! i AND additionalItems other ! i \<noteq> 0)"

definition SmallImmutableSet_equals :: "SmallImmutableSet \<Rightarrow> SmallImmutableSet \<Rightarrow> bool" where
  "SmallImmutableSet_equals s other \<longleftrightarrow>
     items s = items other \<and> length (additionalItems s) = length (additionalItems other) \<and>
     (\<forall>i \<in> set [0..<length (additionalItems s)]. additionalItems s ! i = additionalItems other ! i)"

section \<open>The sets they stand for\<close>

definition masks :: "SmallImmutableSet \<Rightarrow> 32 word list" where
  "masks s = items s # additionalItems s"

definition elements :: "SmallImmutableSet \<Rightarrow> nat set" where
  "elements s = {k. k div 32 < length (masks s) \<and> bit (masks s ! (k div 32)) (k mod 32)}"

text \<open>The last mask of the array is not empty, so that equal sets have equal masks.\<close>

definition sis_inv :: "SmallImmutableSet \<Rightarrow> bool" where
  "sis_inv s \<longleftrightarrow> additionalItems s = [] \<or> last (additionalItems s) \<noteq> 0"

lemma word_nonzero: "w \<noteq> 0 \<longleftrightarrow> (\<exists>n < 32. bit w n)" for w :: "32 word"
proof
  assume "w \<noteq> 0"
  then obtain n where "bit w n" by (auto simp: bit_eq_iff)
  then show "\<exists>n < 32. bit w n" using bit_imp_le_length [of w n] by auto
qed auto

lemma bit_single: "n < 32 \<Longrightarrow> bit ((2 :: 32 word) ^ m) n \<longleftrightarrow> n = m"
  by (auto simp: bit_simps)

lemma mask_test: "m < 32 \<Longrightarrow> w AND 2 ^ m \<noteq> 0 \<longleftrightarrow> bit w m" for w :: "32 word"
  by (auto simp: word_nonzero bit_and_iff bit_single)

lemma elements_masks: "k \<in> elements s \<longleftrightarrow> bit (item_or_0 (masks s) (k div 32)) (k mod 32)"
  by (auto simp: elements_def item_or_0_def)

lemma elements_eqI:
  "(\<And>i b. b < 32 \<Longrightarrow> bit (item_or_0 (masks s) i) b \<longleftrightarrow> P (32 * i + b)) \<Longrightarrow> elements s = {k. P k}"
  by (auto simp: elements_masks)

lemma elements_iff: "b < 32 \<Longrightarrow> 32 * i + b \<in> elements s \<longleftrightarrow> bit (item_or_0 (masks s) i) b"
  by (simp add: elements_masks)

lemma item_or_0_Cons [simp]: "item_or_0 (x # xs) 0 = x" "item_or_0 (x # xs) (Suc i) = item_or_0 xs i"
  by (simp_all add: item_or_0_def)

lemma has_iff: "SmallImmutableSet_has s k \<longleftrightarrow> k \<in> elements s"
proof (cases "k div 32")
  case 0
  then have "k < 32" by simp
  then show ?thesis by (simp add: SmallImmutableSet_has_def elements_masks masks_def mask_test)
next
  case (Suc i)
  then show ?thesis
    by (simp add: SmallImmutableSet_has_def elements_masks masks_def mask_test item_or_0_def Let_def)
qed

lemma elements_empty [simp]: "elements SmallImmutableSet_getEmpty = {}"
  by (auto simp: elements_masks masks_def SmallImmutableSet_getEmpty_def SmallImmutableSet_create_def item_or_0_def split: if_splits)

text \<open>Setting one bit of one mask.\<close>

lemma block_iff: "m < 32 \<Longrightarrow> k = 32 * i + m \<longleftrightarrow> k div 32 = i \<and> k mod 32 = m" for k i m :: nat
  by auto

lemma elements_set_bit:
  assumes "m < 32"
    and "\<And>j. item_or_0 (masks t) j = (if j = i then item_or_0 (masks s) j OR 2 ^ m else item_or_0 (masks s) j)"
  shows "elements t = insert (32 * i + m) (elements s)"
proof (rule set_eqI)
  fix k :: nat
  have "bit ((2 :: 32 word) ^ m) (k mod 32) \<longleftrightarrow> k mod 32 = m" by (rule bit_single) simp
  then have "k \<in> elements t \<longleftrightarrow> k div 32 = i \<and> k mod 32 = m \<or> k \<in> elements s"
    unfolding elements_masks assms(2) by (auto simp: bit_or_iff)
  then show "k \<in> elements t \<longleftrightarrow> k \<in> insert (32 * i + m) (elements s)"
    unfolding insert_iff block_iff [OF assms(1)] .
qed

lemma add_elements: "elements (SmallImmutableSet_add s k) = insert k (elements s)"
proof (cases "k div 32")
  case 0
  then have k: "k < 32" by simp
  have "elements \<lparr>items = 2 ^ k OR items s, additionalItems = additionalItems s\<rparr> = insert (32 * 0 + k) (elements s)"
    by (rule elements_set_bit [OF k]) (auto simp: masks_def item_or_0_def or.commute nth_Cons split: nat.split)
  then show ?thesis using k
    by (cases s) (auto simp: SmallImmutableSet_add_def SmallImmutableSet_create_def Let_def)
next
  case (Suc i)
  let ?t = "SmallImmutableSet_add s k"
  have t: "items ?t = items s" "k = 32 * Suc i + k mod 32"
    using Suc by (simp_all add: SmallImmutableSet_add_def SmallImmutableSet_create_def Let_def) (metis Suc mult_div_mod_eq mult_Suc_right)
  have "item_or_0 (additionalItems ?t) j =
      (if j = i then item_or_0 (additionalItems s) j OR 2 ^ (k mod 32) else item_or_0 (additionalItems s) j)" for j
    using Suc by (auto simp: SmallImmutableSet_add_def SmallImmutableSet_create_def Let_def item_or_0_def nth_append nth_list_update)
  then have "item_or_0 (masks ?t) j =
      (if j = Suc i then item_or_0 (masks s) j OR 2 ^ (k mod 32) else item_or_0 (masks s) j)" for j
    by (cases j) (simp_all add: masks_def t(1))
  then have "elements ?t = insert (32 * Suc i + k mod 32) (elements s)"
    by (intro elements_set_bit) simp_all
  then show ?thesis using t(2) by simp
qed

lemma word_or_eq_0: "a OR b = 0 \<longleftrightarrow> a = 0 \<and> b = 0" for a b :: "32 word"
  by (auto simp: bit_eq_iff bit_or_iff)

lemma add_inv:
  assumes "sis_inv s"
  shows "sis_inv (SmallImmutableSet_add s k)"
proof (cases "k div 32")
  case 0
  then show ?thesis using assms by (simp add: SmallImmutableSet_add_def SmallImmutableSet_create_def sis_inv_def Let_def)
next
  case (Suc i)
  let ?xs = "additionalItems s"
  have bit: "(2 :: 32 word) ^ (k mod 32) \<noteq> 0" using bit_single [of "k mod 32" "k mod 32"] by auto
  show ?thesis
  proof (cases "i < length ?xs")
    case True
    then have "last (?xs[i := ?xs ! i OR 2 ^ (k mod 32)]) \<noteq> 0"
      using assms bit by (cases "?xs = []") (auto simp: sis_inv_def last_list_update word_or_eq_0)
    then show ?thesis using Suc True
      by (simp add: SmallImmutableSet_add_def SmallImmutableSet_create_def sis_inv_def Let_def nth_append)
  next
    case False
    then show ?thesis using Suc bit
      by (simp add: SmallImmutableSet_add_def SmallImmutableSet_create_def sis_inv_def Let_def)
  qed
qed

lemma merge_masks:
  "item_or_0 (masks (SmallImmutableSet_merge s t)) i = item_or_0 (masks s) i OR item_or_0 (masks t) i"
  by (cases i) (auto simp: SmallImmutableSet_merge_def SmallImmutableSet_create_def masks_def Let_def item_or_0_def)

lemma merge_elements: "elements (SmallImmutableSet_merge s t) = elements s \<union> elements t"
  by (auto simp: elements_masks merge_masks bit_or_iff)

lemma item_or_0_last: "xs \<noteq> [] \<Longrightarrow> item_or_0 xs (length xs - 1) = last xs"
  by (simp add: item_or_0_def last_conv_nth)

lemma merge_inv:
  assumes "sis_inv s" and "sis_inv t"
  shows "sis_inv (SmallImmutableSet_merge s t)"
proof (cases "additionalItems s = [] \<and> additionalItems t = []")
  case True
  then show ?thesis by (simp add: SmallImmutableSet_merge_def SmallImmutableSet_create_def sis_inv_def Let_def)
next
  case False
  let ?n = "max (length (additionalItems s)) (length (additionalItems t))"
  have n: "0 < ?n" using False by (auto simp: less_max_iff_disj)
  have "item_or_0 (additionalItems s) (?n - 1) \<noteq> 0 \<or> item_or_0 (additionalItems t) (?n - 1) \<noteq> 0"
  proof (cases "length (additionalItems s) \<le> length (additionalItems t)")
    case True
    then have "additionalItems t \<noteq> []" using False by auto
    then show ?thesis using assms True item_or_0_last [of "additionalItems t"] by (simp add: sis_inv_def max_def)
  next
    case neg: False
    then have "additionalItems s \<noteq> []" by auto
    then show ?thesis using assms neg item_or_0_last [of "additionalItems s"] by (simp add: sis_inv_def max_def)
  qed
  then show ?thesis using False n
    by (simp add: SmallImmutableSet_merge_def SmallImmutableSet_create_def sis_inv_def Let_def last_map last_conv_nth word_or_eq_0)
qed

lemma intersects_iff: "SmallImmutableSet_intersects s t \<longleftrightarrow> elements s \<inter> elements t \<noteq> {}"
proof -
  have "SmallImmutableSet_intersects s t \<longleftrightarrow> (\<exists>i. item_or_0 (masks s) i AND item_or_0 (masks t) i \<noteq> 0)"
  proof
    assume "SmallImmutableSet_intersects s t"
    then consider "items s AND items t \<noteq> 0"
      | i where "i < length (additionalItems s)" "i < length (additionalItems t)" "additionalItems s ! i AND additionalItems t ! i \<noteq> 0"
      by (auto simp: SmallImmutableSet_intersects_def)
    then show "\<exists>i. item_or_0 (masks s) i AND item_or_0 (masks t) i \<noteq> 0"
    proof cases
      case 1
      then show ?thesis by (intro exI [of _ 0]) (simp add: masks_def)
    next
      case (2 i)
      then show ?thesis by (intro exI [of _ "Suc i"]) (simp add: masks_def item_or_0_def)
    qed
  next
    assume "\<exists>i. item_or_0 (masks s) i AND item_or_0 (masks t) i \<noteq> 0"
    then obtain i where "item_or_0 (masks s) i AND item_or_0 (masks t) i \<noteq> 0" by blast
    then show "SmallImmutableSet_intersects s t"
      by (cases i) (auto simp: SmallImmutableSet_intersects_def masks_def item_or_0_def split: if_splits)
  qed
  also have "\<dots> \<longleftrightarrow> (\<exists>i. \<exists>b < 32. 32 * i + b \<in> elements s \<and> 32 * i + b \<in> elements t)"
    unfolding word_nonzero bit_and_iff using elements_iff by blast
  also have "\<dots> \<longleftrightarrow> elements s \<inter> elements t \<noteq> {}"
  proof
    assume "elements s \<inter> elements t \<noteq> {}"
    then obtain k where k: "k \<in> elements s" "k \<in> elements t" by blast
    have "k = 32 * (k div 32) + k mod 32" "k mod 32 < 32" by simp_all
    then show "\<exists>i. \<exists>b < 32. 32 * i + b \<in> elements s \<and> 32 * i + b \<in> elements t" using k by metis
  qed auto
  finally show ?thesis .
qed

text \<open>Equal sets have equal masks.\<close>

lemma elements_item:
  assumes "elements s = elements t"
  shows "item_or_0 (masks s) i = item_or_0 (masks t) i"
proof (rule bit_word_eqI)
  fix n assume "n < LENGTH(32)"
  then show "bit (item_or_0 (masks s) i) n \<longleftrightarrow> bit (item_or_0 (masks t) i) n"
    using elements_iff [of n i s] elements_iff [of n i t] assms by simp
qed

lemma longer_last:
  assumes "length xs < length ys" and "\<And>i. item_or_0 xs i = item_or_0 ys i"
  shows "last ys = 0"
proof -
  have "ys \<noteq> []" using assms(1) by auto
  moreover have "item_or_0 xs (length ys - 1) = 0" using assms(1) by (auto simp: item_or_0_def)
  ultimately show ?thesis using assms(2) [of "length ys - 1"] item_or_0_last [of ys] by metis
qed

lemma equals_iff:
  assumes "sis_inv s" and "sis_inv t"
  shows "SmallImmutableSet_equals s t \<longleftrightarrow> elements s = elements t"
proof
  assume "SmallImmutableSet_equals s t"
  then have "masks s = masks t" by (auto simp: SmallImmutableSet_equals_def masks_def intro: nth_equalityI)
  then show "elements s = elements t" by (simp add: elements_def)
next
  assume e: "elements s = elements t"
  have it: "item_or_0 (additionalItems s) i = item_or_0 (additionalItems t) i" for i
    using elements_item [OF e, of "Suc i"] by (simp add: masks_def)
  have "\<not> length (additionalItems s) < length (additionalItems t)" "\<not> length (additionalItems t) < length (additionalItems s)"
    using longer_last [of "additionalItems s" "additionalItems t"] longer_last [of "additionalItems t" "additionalItems s"] it assms
    by (auto simp: sis_inv_def)
  then have "length (additionalItems s) = length (additionalItems t)" by simp
  then show "SmallImmutableSet_equals s t"
    using elements_item [OF e, of 0] it [unfolded item_or_0_def]
    unfolding SmallImmutableSet_equals_def by (auto simp: masks_def) metis
qed

lemma sis_inv_empty [simp]: "sis_inv SmallImmutableSet_getEmpty"
  by (simp add: sis_inv_def SmallImmutableSet_getEmpty_def SmallImmutableSet_create_def)

text \<open>C24. The bit masks are sets of numbers: membership, insertion, union and the test for a common element
  are those of sets, insertion and union keep the masks canonical, and canonical masks are equal
  exactly when the sets are.\<close>

theorem SmallImmutableSet_refines_sets:
  assumes "sis_inv s" and "sis_inv t"
  shows "(SmallImmutableSet_has s k \<longleftrightarrow> k \<in> elements s) \<and>
    elements (SmallImmutableSet_add s k) = insert k (elements s) \<and> sis_inv (SmallImmutableSet_add s k) \<and>
    elements (SmallImmutableSet_merge s t) = elements s \<union> elements t \<and> sis_inv (SmallImmutableSet_merge s t) \<and>
    (SmallImmutableSet_intersects s t \<longleftrightarrow> elements s \<inter> elements t \<noteq> {}) \<and>
    (SmallImmutableSet_equals s t \<longleftrightarrow> elements s = elements t) \<and>
    elements SmallImmutableSet_getEmpty = {} \<and> sis_inv SmallImmutableSet_getEmpty"
  using has_iff [of s k] add_elements [of s k] add_inv [OF assms(1), of k] merge_elements [of s t] merge_inv [OF assms]
    intersects_iff [of s t] equals_iff [OF assms]
  by simp

theorem SmallImmutableSet_refines_sets_witness:
  "SmallImmutableSet_has (SmallImmutableSet_add (SmallImmutableSet_add SmallImmutableSet_getEmpty 3) 40) 40 \<and>
   elements (SmallImmutableSet_add (SmallImmutableSet_add SmallImmutableSet_getEmpty 3) 40) = {3, 40}"
proof -
  have e: "sis_inv SmallImmutableSet_getEmpty" by simp
  note one = SmallImmutableSet_refines_sets [OF e e, of 3]
  then have s: "sis_inv (SmallImmutableSet_add SmallImmutableSet_getEmpty 3)" by blast
  note two = SmallImmutableSet_refines_sets [OF s s, of 40]
  then have t: "sis_inv (SmallImmutableSet_add (SmallImmutableSet_add SmallImmutableSet_getEmpty 3) 40)" by blast
  show ?thesis using SmallImmutableSet_refines_sets [OF t t, of 40] one two by auto
qed

end
