(* ===== verification/Bracket_Ast.thy ===== *)
theory Bracket_Ast
  imports Bracket_Length Small_Set
begin

text \<open>
  The nodes of the bracket pair tree:
  \<open>src/vs/editor/common/model/bracketPairsTextModelPart/bracketPairsTree/ast.ts\<close>. A node caches its
  length and the closing brackets without a partner below it; a list is a (2,3) tree of nodes. A method
  that changes a node returns the changed node, and the classes that only differ in \<open>throwIfImmutable\<close>
  and \<open>toMutable\<close> are one constructor with a flag. The kind of a bracket is a parameter \<open>'b\<close>; the
  indentation, which needs the text model, is left out. The lemmas give the invariant of the caches and of the
  balanced trees and its preservation.
\<close>

section \<open>Nodes\<close>

datatype 'b AstNode =
    TextAstNode Length
  | BracketAstNode Length 'b SmallImmutableSet
  | InvalidBracketAstNode SmallImmutableSet Length
  | PairAstNode Length "'b AstNode" "'b AstNode option" "'b AstNode option" SmallImmutableSet
  | TwoThreeListAstNode bool Length nat "'b AstNode" "'b AstNode" "'b AstNode option" SmallImmutableSet
  | ArrayListAstNode bool Length nat "'b AstNode list" SmallImmutableSet

fun node_length :: "'b AstNode \<Rightarrow> Length" where
  "node_length (TextAstNode l) = l"
| "node_length (BracketAstNode l _ _) = l"
| "node_length (InvalidBracketAstNode _ l) = l"
| "node_length (PairAstNode l _ _ _ _) = l"
| "node_length (TwoThreeListAstNode _ l _ _ _ _ _) = l"
| "node_length (ArrayListAstNode _ l _ _ _) = l"

fun missingOpeningBracketIds :: "'b AstNode \<Rightarrow> SmallImmutableSet" where
  "missingOpeningBracketIds (TextAstNode _) = SmallImmutableSet_getEmpty"
| "missingOpeningBracketIds (BracketAstNode _ _ _) = SmallImmutableSet_getEmpty"
| "missingOpeningBracketIds (InvalidBracketAstNode closingBrackets _) = closingBrackets"
| "missingOpeningBracketIds (PairAstNode _ _ _ _ ids) = ids"
| "missingOpeningBracketIds (TwoThreeListAstNode _ _ _ _ _ _ ids) = ids"
| "missingOpeningBracketIds (ArrayListAstNode _ _ _ _ ids) = ids"

fun listHeight :: "'b AstNode \<Rightarrow> nat" where
  "listHeight (TwoThreeListAstNode _ _ h _ _ _ _) = h"
| "listHeight (ArrayListAstNode _ _ h _ _) = h"
| "listHeight _ = 0"

fun isList :: "'b AstNode \<Rightarrow> bool" where
  "isList (TwoThreeListAstNode _ _ _ _ _ _ _) = True"
| "isList (ArrayListAstNode _ _ _ _ _) = True"
| "isList _ = False"

fun childrenLength :: "'b AstNode \<Rightarrow> nat" where
  "childrenLength (PairAstNode _ _ _ _ _) = 3"
| "childrenLength (TwoThreeListAstNode _ _ _ _ _ c _) = (if c \<noteq> None then 3 else 2)"
| "childrenLength (ArrayListAstNode _ _ _ xs _) = length xs"
| "childrenLength _ = 0"

fun getChild :: "'b AstNode \<Rightarrow> nat \<Rightarrow> 'b AstNode option result" where
  "getChild (PairAstNode _ a b c _) idx =
     (if idx = 0 then Inr (Some a) else if idx = 1 then Inr b else if idx = 2 then Inr c else Inl PlainError)"
| "getChild (TwoThreeListAstNode _ _ _ a b c _) idx =
     (if idx = 0 then Inr (Some a) else if idx = 1 then Inr (Some b) else if idx = 2 then Inr c else Inl PlainError)"
| "getChild (ArrayListAstNode _ _ _ xs _) idx = Inr (if idx < length xs then Some (xs ! idx) else None)"
| "getChild _ _ = Inr None"

fun node_children :: "'b AstNode \<Rightarrow> 'b AstNode list" where
  "node_children (PairAstNode _ a b c _) = a # (case b of Some x \<Rightarrow> [x] | None \<Rightarrow> []) @ (case c of Some x \<Rightarrow> [x] | None \<Rightarrow> [])"
| "node_children (TwoThreeListAstNode _ _ _ a b c _) = (case c of Some x \<Rightarrow> [a, b, x] | None \<Rightarrow> [a, b])"
| "node_children (ArrayListAstNode _ _ _ xs _) = xs"
| "node_children _ = []"

section \<open>Making nodes\<close>

definition PairAstNode_create :: "'b AstNode \<Rightarrow> 'b AstNode option \<Rightarrow> 'b AstNode option \<Rightarrow> 'b AstNode" where
  "PairAstNode_create openingBracket child closingBracket =
     (let l0 = node_length openingBracket;
          l1 = (case child of Some c \<Rightarrow> lengthAdd l0 (node_length c) | None \<Rightarrow> l0);
          l2 = (case closingBracket of Some c \<Rightarrow> lengthAdd l1 (node_length c) | None \<Rightarrow> l1)
      in PairAstNode l2 openingBracket child closingBracket
           (case child of Some c \<Rightarrow> missingOpeningBracketIds c | None \<Rightarrow> SmallImmutableSet_getEmpty))"

definition ListAstNode_create23 ::
  "'b AstNode \<Rightarrow> 'b AstNode \<Rightarrow> 'b AstNode option \<Rightarrow> bool \<Rightarrow> 'b AstNode result" where
  "ListAstNode_create23 item1 item2 item3 immutable =
     (if listHeight item1 \<noteq> listHeight item2 then Inl PlainError
      else
        let l = lengthAdd (node_length item1) (node_length item2);
            ids = SmallImmutableSet_merge (missingOpeningBracketIds item1) (missingOpeningBracketIds item2)
        in (case item3 of
              None \<Rightarrow> Inr (TwoThreeListAstNode immutable l (listHeight item1 + 1) item1 item2 None ids)
            | Some c \<Rightarrow>
                if listHeight item1 \<noteq> listHeight c then Inl PlainError
                else Inr (TwoThreeListAstNode immutable (lengthAdd l (node_length c)) (listHeight item1 + 1) item1 item2
                            (Some c) (SmallImmutableSet_merge ids (missingOpeningBracketIds c)))))"

definition ListAstNode_getEmpty :: "'b AstNode" where
  "ListAstNode_getEmpty = ArrayListAstNode True lengthZero 0 [] SmallImmutableSet_getEmpty"

text \<open>The loop of \<open>create\<close> and \<open>handleChildrenChanged\<close> over the children after the first.\<close>

definition children_length :: "'b AstNode \<Rightarrow> 'b AstNode list \<Rightarrow> Length" where
  "children_length x xs = foldl (\<lambda>l c. lengthAdd l (node_length c)) (node_length x) xs"

definition children_ids :: "'b AstNode \<Rightarrow> 'b AstNode list \<Rightarrow> SmallImmutableSet" where
  "children_ids x xs = foldl (\<lambda>s c. SmallImmutableSet_merge s (missingOpeningBracketIds c)) (missingOpeningBracketIds x) xs"

definition ListAstNode_create :: "'b AstNode list \<Rightarrow> bool \<Rightarrow> 'b AstNode" where
  "ListAstNode_create nodes immutable =
     (case nodes of
        [] \<Rightarrow> ListAstNode_getEmpty
      | x # xs \<Rightarrow> ArrayListAstNode immutable (children_length x xs) (listHeight x + 1) nodes (children_ids x xs))"

section \<open>Changing lists\<close>

fun throwIfImmutable :: "'b AstNode \<Rightarrow> unit result" where
  "throwIfImmutable (TwoThreeListAstNode immutable _ _ _ _ _ _) = (if immutable then Inl PlainError else Inr ())"
| "throwIfImmutable (ArrayListAstNode immutable _ _ _ _) = (if immutable then Inl PlainError else Inr ())"
| "throwIfImmutable _ = Inr ()"

fun toMutable :: "'b AstNode \<Rightarrow> 'b AstNode" where
  "toMutable (TwoThreeListAstNode _ l h a b c ids) = TwoThreeListAstNode False l h a b c ids"
| "toMutable (ArrayListAstNode _ l h xs ids) = ArrayListAstNode False l h xs ids"
| "toMutable n = n"

text \<open>Both callers of \<open>setChild\<close> pass the index of a child.\<close>

fun setChild :: "'b AstNode \<Rightarrow> nat \<Rightarrow> 'b AstNode \<Rightarrow> 'b AstNode result" where
  "setChild (TwoThreeListAstNode im l h a b c ids) idx node =
     (if idx = 0 then Inr (TwoThreeListAstNode im l h node b c ids)
      else if idx = 1 then Inr (TwoThreeListAstNode im l h a node c ids)
      else if idx = 2 then Inr (TwoThreeListAstNode im l h a b (Some node) ids)
      else Inl PlainError)"
| "setChild (ArrayListAstNode im l h xs ids) idx node = Inr (ArrayListAstNode im l h (xs[idx := node]) ids)"
| "setChild n _ _ = Inl TypeErr"

text \<open>The child at \<open>idx\<close>, made mutable, and the list that holds it.\<close>

definition makeElementMutable :: "'b AstNode \<Rightarrow> nat \<Rightarrow> ('b AstNode option \<times> 'b AstNode) result" where
  "makeElementMutable list idx =
     bindr (getChild list idx) (\<lambda>c.
       case c of
         None \<Rightarrow> Inl TypeErr
       | Some child \<Rightarrow>
           let mutable = (if isList child then toMutable child else child) in
           if child \<noteq> mutable then bindr (setChild list idx mutable) (\<lambda>list'. Inr (Some mutable, list'))
           else Inr (Some mutable, list))"

definition makeLastElementMutable :: "'b AstNode \<Rightarrow> ('b AstNode option \<times> 'b AstNode) result" where
  "makeLastElementMutable list =
     bindr (throwIfImmutable list) (\<lambda>_.
       let childCount = childrenLength list in
       if childCount = 0 then Inr (None, list) else makeElementMutable list (childCount - 1))"

definition makeFirstElementMutable :: "'b AstNode \<Rightarrow> ('b AstNode option \<times> 'b AstNode) result" where
  "makeFirstElementMutable list =
     bindr (throwIfImmutable list) (\<lambda>_.
       let childCount = childrenLength list in
       if childCount = 0 then Inr (None, list) else makeElementMutable list 0)"

fun set_caches :: "'b AstNode \<Rightarrow> Length \<Rightarrow> SmallImmutableSet \<Rightarrow> 'b AstNode" where
  "set_caches (TwoThreeListAstNode im _ h a b c _) l ids = TwoThreeListAstNode im l h a b c ids"
| "set_caches (ArrayListAstNode im _ h xs _) l ids = ArrayListAstNode im l h xs ids"
| "set_caches n _ _ = n"

text \<open>A list without children has no first child to read a length from.\<close>

definition handleChildrenChanged :: "'b AstNode \<Rightarrow> 'b AstNode result" where
  "handleChildrenChanged list =
     bindr (throwIfImmutable list) (\<lambda>_.
       case node_children list of
         [] \<Rightarrow> Inl TypeErr
       | x # xs \<Rightarrow> Inr (set_caches list (children_length x xs) (children_ids x xs)))"

fun appendChildOfSameHeight :: "'b AstNode \<Rightarrow> 'b AstNode \<Rightarrow> 'b AstNode result" where
  "appendChildOfSameHeight (TwoThreeListAstNode im l h a b c ids) node =
     (if c \<noteq> None then Inl PlainError
      else bindr (throwIfImmutable (TwoThreeListAstNode im l h a b c ids)) (\<lambda>_.
             handleChildrenChanged (TwoThreeListAstNode im l h a b (Some node) ids)))"
| "appendChildOfSameHeight (ArrayListAstNode im l h xs ids) node =
     bindr (throwIfImmutable (ArrayListAstNode im l h xs ids)) (\<lambda>_.
       handleChildrenChanged (ArrayListAstNode im l h (xs @ [node]) ids))"
| "appendChildOfSameHeight _ _ = Inl TypeErr"

fun unappendChild :: "'b AstNode \<Rightarrow> ('b AstNode option \<times> 'b AstNode) result" where
  "unappendChild (TwoThreeListAstNode im l h a b c ids) =
     (if c = None then Inl PlainError
      else bindr (throwIfImmutable (TwoThreeListAstNode im l h a b c ids)) (\<lambda>_.
             bindr (handleChildrenChanged (TwoThreeListAstNode im l h a b None ids)) (\<lambda>list. Inr (c, list))))"
| "unappendChild (ArrayListAstNode im l h xs ids) =
     bindr (throwIfImmutable (ArrayListAstNode im l h xs ids)) (\<lambda>_.
       bindr (handleChildrenChanged (ArrayListAstNode im l h (butlast xs) ids)) (\<lambda>list.
         Inr (if xs = [] then None else Some (last xs), list)))"
| "unappendChild _ = Inl TypeErr"

fun prependChildOfSameHeight :: "'b AstNode \<Rightarrow> 'b AstNode \<Rightarrow> 'b AstNode result" where
  "prependChildOfSameHeight (TwoThreeListAstNode im l h a b c ids) node =
     (if c \<noteq> None then Inl PlainError
      else bindr (throwIfImmutable (TwoThreeListAstNode im l h a b c ids)) (\<lambda>_.
             handleChildrenChanged (TwoThreeListAstNode im l h node a (Some b) ids)))"
| "prependChildOfSameHeight (ArrayListAstNode im l h xs ids) node =
     bindr (throwIfImmutable (ArrayListAstNode im l h xs ids)) (\<lambda>_.
       handleChildrenChanged (ArrayListAstNode im l h (node # xs) ids))"
| "prependChildOfSameHeight _ _ = Inl TypeErr"

fun unprependChild :: "'b AstNode \<Rightarrow> ('b AstNode option \<times> 'b AstNode) result" where
  "unprependChild (TwoThreeListAstNode im l h a b c ids) =
     (case c of
        None \<Rightarrow> Inl PlainError
      | Some c' \<Rightarrow>
          bindr (throwIfImmutable (TwoThreeListAstNode im l h a b c ids)) (\<lambda>_.
            bindr (handleChildrenChanged (TwoThreeListAstNode im l h b c' None ids)) (\<lambda>list. Inr (Some a, list))))"
| "unprependChild (ArrayListAstNode im l h xs ids) =
     bindr (throwIfImmutable (ArrayListAstNode im l h xs ids)) (\<lambda>_.
       bindr (handleChildrenChanged (ArrayListAstNode im l h (tl xs) ids)) (\<lambda>list.
         Inr (if xs = [] then None else Some (hd xs), list)))"
| "unprependChild _ = Inl TypeErr"

section \<open>Reuse, clones and flat lists\<close>

text \<open>The loop of \<open>canBeReused\<close> down the last children; an empty list inside a list is an error of the code.\<close>

lemma size_last: "xs \<noteq> [] \<Longrightarrow> size (last xs) < Suc (size_list size xs)"
  by (induction xs) auto

function lastLeaf :: "'b AstNode \<Rightarrow> 'b AstNode result" where
  "lastLeaf (TwoThreeListAstNode _ _ _ _ b None _) = lastLeaf b"
| "lastLeaf (TwoThreeListAstNode _ _ _ _ _ (Some c) _) = lastLeaf c"
| "lastLeaf (ArrayListAstNode _ _ _ xs _) = (if xs = [] then Inl BugIndicatingError else lastLeaf (last xs))"
| "lastLeaf (TextAstNode l) = Inr (TextAstNode l)"
| "lastLeaf (BracketAstNode l k ids) = Inr (BracketAstNode l k ids)"
| "lastLeaf (InvalidBracketAstNode ids l) = Inr (InvalidBracketAstNode ids l)"
| "lastLeaf (PairAstNode l a b c ids) = Inr (PairAstNode l a b c ids)"
  by pat_completeness auto
termination by (relation "measure size") (auto simp: size_last)

fun leaf_canBeReused :: "'b AstNode \<Rightarrow> SmallImmutableSet \<Rightarrow> bool" where
  "leaf_canBeReused (PairAstNode _ _ _ closingBracket ids) openBracketIds =
     (if closingBracket = None then False else if SmallImmutableSet_intersects openBracketIds ids then False else True)"
| "leaf_canBeReused (TextAstNode _) _ = True"
| "leaf_canBeReused (BracketAstNode _ _ _) _ = False"
| "leaf_canBeReused (InvalidBracketAstNode ids _) openBracketIds = (\<not> SmallImmutableSet_intersects openBracketIds ids)"
| "leaf_canBeReused _ _ = False"

definition canBeReused :: "'b AstNode \<Rightarrow> SmallImmutableSet \<Rightarrow> bool result" where
  "canBeReused node openBracketIds =
     (if isList node then
        if SmallImmutableSet_intersects openBracketIds (missingOpeningBracketIds node) then Inr False
        else if childrenLength node = 0 then Inr False
        else bindr (lastLeaf node) (\<lambda>lastChild. Inr (leaf_canBeReused lastChild openBracketIds))
      else Inr (leaf_canBeReused node openBracketIds))"

fun flattenLists :: "'b AstNode \<Rightarrow> 'b AstNode" where
  "flattenLists (PairAstNode _ a b c _) = PairAstNode_create (flattenLists a) (map_option flattenLists b) (map_option flattenLists c)"
| "flattenLists (TwoThreeListAstNode _ _ _ a b c _) =
     ListAstNode_create
       (concat (map (\<lambda>n. if isList n then node_children n else [n])
          ([flattenLists a, flattenLists b] @ (case c of Some c' \<Rightarrow> [flattenLists c'] | None \<Rightarrow> [])))) False"
| "flattenLists (ArrayListAstNode _ _ _ xs _) =
     ListAstNode_create (concat (map (\<lambda>n. if isList n then node_children n else [n]) (map flattenLists xs))) False"
| "flattenLists n = n"

fun deepClone :: "'b AstNode \<Rightarrow> 'b AstNode" where
  "deepClone (PairAstNode l a b c ids) = PairAstNode l (deepClone a) (map_option deepClone b) (map_option deepClone c) ids"
| "deepClone (TwoThreeListAstNode _ l h a b c ids) = TwoThreeListAstNode False l h (deepClone a) (deepClone b) (map_option deepClone c) ids"
| "deepClone (ArrayListAstNode _ l h xs ids) = ArrayListAstNode False l h (map deepClone xs) ids"
| "deepClone n = n"

section \<open>The invariant of the trees\<close>

text \<open>The nodes a list holds, and the tokens below a node, in order.\<close>

fun leaves :: "'b AstNode \<Rightarrow> 'b AstNode list" where
  "leaves (TwoThreeListAstNode _ _ _ a b c _) = leaves a @ leaves b @ (case c of Some c' \<Rightarrow> leaves c' | None \<Rightarrow> [])"
| "leaves (ArrayListAstNode _ _ _ xs _) = concat (map leaves xs)"
| "leaves n = [n]"

fun tokens :: "'b AstNode \<Rightarrow> 'b AstNode list" where
  "tokens (TwoThreeListAstNode _ _ _ a b c _) = tokens a @ tokens b @ (case c of Some c' \<Rightarrow> tokens c' | None \<Rightarrow> [])"
| "tokens (ArrayListAstNode _ _ _ xs _) = concat (map tokens xs)"
| "tokens (PairAstNode _ a b c _) =
     tokens a @ (case b of Some b' \<Rightarrow> tokens b' | None \<Rightarrow> []) @ (case c of Some c' \<Rightarrow> tokens c' | None \<Rightarrow> [])"
| "tokens n = [n]"

text \<open>Lengths are not negative, the caches are right, and the children of a list have the same height.\<close>

fun tree23 :: "'b AstNode \<Rightarrow> bool" where
  "tree23 (PairAstNode l a b c ids) \<longleftrightarrow>
     tree23 a \<and> (case b of Some b' \<Rightarrow> tree23 b' | None \<Rightarrow> True) \<and> (case c of Some c' \<Rightarrow> tree23 c' | None \<Rightarrow> True) \<and>
     PairAstNode_create a b c = PairAstNode l a b c ids"
| "tree23 (TwoThreeListAstNode im l h a b c ids) \<longleftrightarrow>
     tree23 a \<and> tree23 b \<and> (case c of Some c' \<Rightarrow> tree23 c' | None \<Rightarrow> True) \<and>
     ListAstNode_create23 a b c im = Inr (TwoThreeListAstNode im l h a b c ids)"
| "tree23 (ArrayListAstNode _ _ _ _ _) \<longleftrightarrow> False"
| "tree23 n \<longleftrightarrow> 0 \<le> node_length n"

lemma create23_iff:
  "ListAstNode_create23 a b c im = Inr n \<longleftrightarrow>
     listHeight b = listHeight a \<and> (\<forall>c'. c = Some c' \<longrightarrow> listHeight c' = listHeight a) \<and>
     n = TwoThreeListAstNode im (children_length a (b # (case c of Some c' \<Rightarrow> [c'] | None \<Rightarrow> []))) (listHeight a + 1) a b c
           (children_ids a (b # (case c of Some c' \<Rightarrow> [c'] | None \<Rightarrow> [])))"
  by (auto simp: ListAstNode_create23_def Let_def children_length_def children_ids_def split: option.splits if_splits)

lemma tree23_list_height: "tree23 n \<Longrightarrow> isList n \<longleftrightarrow> 0 < listHeight n"
  by (cases n) (auto simp: create23_iff)

lemma tree23_create23:
  assumes "tree23 a" and "tree23 b" and "\<And>c'. c = Some c' \<Longrightarrow> tree23 c' \<and> listHeight c' = listHeight a" and "listHeight b = listHeight a"
  shows "\<exists>n. ListAstNode_create23 a b c im = Inr n \<and> tree23 n \<and> listHeight n = Suc (listHeight a) \<and>
    leaves n = leaves a @ leaves b @ (case c of Some c' \<Rightarrow> leaves c' | None \<Rightarrow> [])"
  using assms by (auto simp: create23_iff split: option.split)

lemma tree23_toMutable [simp]: "tree23 (toMutable n) = tree23 n"
  by (cases n) (auto simp: create23_iff)

lemma toMutable_keeps [simp]:
  "leaves (toMutable n) = leaves n" "listHeight (toMutable n) = listHeight n" "node_length (toMutable n) = node_length n"
  "missingOpeningBracketIds (toMutable n) = missingOpeningBracketIds n" "isList (toMutable n) = isList n" "tokens (toMutable n) = tokens n"
  by (cases n; simp)+

lemma node_length_nonneg: "tree23 n \<Longrightarrow> 0 \<le> node_length n"
proof (induction n rule: tree23.induct)
  case (1 l a b c ids)
  then show ?case by (auto simp: PairAstNode_create_def Let_def split: option.splits)
next
  case (2 im l h a b c ids)
  then show ?case by (auto simp: create23_iff children_length_def split: option.splits)
qed auto

lemma leaves_not_Nil: "tree23 n \<Longrightarrow> leaves n \<noteq> []"
  by (induction n rule: tree23.induct) auto

text \<open>The leaves of a list are no lists, and the tree is balanced: its height is at most logarithmic.\<close>

lemma leaves_not_lists: "m \<in> set (leaves n) \<Longrightarrow> \<not> isList m"
  by (induction n rule: leaves.induct) (auto split: option.splits)

lemma leaves_tree23: "tree23 n \<Longrightarrow> m \<in> set (leaves n) \<Longrightarrow> tree23 m"
  by (induction n rule: leaves.induct) (auto split: option.splits)

lemma height_log: "tree23 n \<Longrightarrow> 2 ^ listHeight n \<le> length (leaves n)"
proof (induction n rule: tree23.induct)
  case (2 im l h a b c ids)
  then show ?case by (auto simp: create23_iff split: option.splits)
qed auto

lemma concat_map_concat: "(\<And>x. x \<in> set xs \<Longrightarrow> f x = concat (map f (g x))) \<Longrightarrow> concat (map f xs) = concat (map f (concat (map g xs)))"
  by (induction xs) auto

lemma tokens_leaves: "tokens n = concat (map tokens (leaves n))"
  by (induction n rule: leaves.induct) (auto simp: concat_map_concat [of _ tokens leaves] split: option.split)

section \<open>The lengths of the trees\<close>

text \<open>The sum of lengths without a bound on the columns.\<close>

definition tl_sum :: "'b AstNode list \<Rightarrow> TextLength" where
  "tl_sum ns = foldr (\<lambda>n. TextLength_add (lengthToObj (node_length n))) ns (TextLength_new 0 0)"

text \<open>No line of the text reaches \<open>2 ** 26\<close> columns.\<close>

definition lines_fit :: "'b AstNode list \<Rightarrow> bool" where
  "lines_fit ns \<longleftrightarrow> (\<forall>n \<in> set ns. 0 \<le> node_length n) \<and> (\<forall>k \<in> set [0..<Suc (length ns)]. columnCount (tl_sum (take k ns)) < factor)"

definition runs_fit :: "'b AstNode list \<Rightarrow> bool" where
  "runs_fit ns \<longleftrightarrow> (\<forall>n \<in> set ns. 0 \<le> node_length n) \<and> (\<forall>us vs ws. ns = us @ vs @ ws \<longrightarrow> columnCount (tl_sum vs) < factor)"

lemma tl_sum_simps [simp]:
  "tl_sum [] = TextLength_new 0 0" "tl_sum (n # ns) = TextLength_add (lengthToObj (node_length n)) (tl_sum ns)"
  by (simp_all add: tl_sum_def)

lemma TextLength_add_0 [simp]: "TextLength_add (TextLength_new 0 0) a = a" "TextLength_add a (TextLength_new 0 0) = a"
  by (cases a; simp add: TextLength_add_def TextLength_new_def)+

lemma tl_sum_nonneg: "\<forall>n \<in> set ns. 0 \<le> node_length n \<Longrightarrow> 0 \<le> lineCount (tl_sum ns) \<and> 0 \<le> columnCount (tl_sum ns)"
  by (induction ns) (auto simp: TextLength_add_def TextLength_new_def pos_imp_zdiv_nonneg_iff)

lemma tl_sum_append:
  "\<forall>n \<in> set (xs @ ys). 0 \<le> node_length n \<Longrightarrow> tl_sum (xs @ ys) = TextLength_add (tl_sum xs) (tl_sum ys)"
proof (induction xs)
  case (Cons x xs)
  then show ?case
    using tl_sum_nonneg [of xs] tl_sum_nonneg [of ys] by (simp add: TextLength_add_assoc)
qed simp

lemma column_add: "0 \<le> columnCount a \<Longrightarrow> columnCount b \<le> columnCount (TextLength_add a b)"
  by (simp add: TextLength_add_def TextLength_new_def)

lemma lines_fit_runs_fit:
  assumes "lines_fit ns"
  shows "runs_fit ns"
  unfolding runs_fit_def
proof (intro conjI allI impI)
  fix us vs ws :: "'a AstNode list" assume ns: "ns = us @ vs @ ws"
  have nonneg: "\<forall>n \<in> set (us @ vs). 0 \<le> node_length n" using assms ns by (auto simp: lines_fit_def)
  have "columnCount (tl_sum vs) \<le> columnCount (tl_sum (us @ vs))"
    unfolding tl_sum_append [OF nonneg] using nonneg tl_sum_nonneg [of us] by (intro column_add) auto
  also have "us @ vs = take (length (us @ vs)) ns" by (simp add: ns)
  also have "columnCount (tl_sum \<dots>) < factor" using assms ns unfolding lines_fit_def by fastforce
  finally show "columnCount (tl_sum vs) < factor" .
qed (use assms in \<open>auto simp: lines_fit_def\<close>)

lemma runs_fit_append: "runs_fit (xs @ ys) \<Longrightarrow> runs_fit xs \<and> runs_fit ys \<and> columnCount (tl_sum (xs @ ys)) < factor"
  unfolding runs_fit_def
proof (intro conjI allI impI)
  assume fit: "(\<forall>n \<in> set (xs @ ys). 0 \<le> node_length n) \<and> (\<forall>us vs ws. xs @ ys = us @ vs @ ws \<longrightarrow> columnCount (tl_sum vs) < factor)"
  show "columnCount (tl_sum vs) < factor" if "xs = us @ vs @ ws" for us vs ws
    using fit that by (metis append.assoc)
  show "columnCount (tl_sum vs) < factor" if "ys = us @ vs @ ws" for us vs ws
    using fit that by (metis append.assoc)
  show "columnCount (tl_sum (xs @ ys)) < factor" using fit by (metis append_Nil append_Nil2)
qed auto

text \<open>Adding the lengths of two runs of tokens.\<close>

lemma lengthAdd_runs:
  assumes "runs_fit (xs @ ys)" and "lengthToObj a = tl_sum xs" and "lengthToObj b = tl_sum ys" and "0 \<le> a" and "0 \<le> b"
  shows "lengthToObj (lengthAdd a b) = tl_sum (xs @ ys)"
proof -
  have sum: "tl_sum (xs @ ys) = TextLength_add (lengthToObj a) (lengthToObj b)"
    using assms(1-3) by (simp add: tl_sum_append runs_fit_def)
  have "a mod factor + b < factor" if "b < factor"
    using runs_fit_append [OF assms(1)] assms(5) that unfolding sum by (simp add: TextLength_add_def TextLength_new_def)
  then show ?thesis using assms(4,5) by (simp add: sum lengthAdd_refines columns_fit_def)
qed

lemma lengthAdd_option:
  assumes "runs_fit (xs @ (case r of Some c \<Rightarrow> tokens c | None \<Rightarrow> []))" and "lengthToObj l = tl_sum xs" and "0 \<le> l"
    and "\<And>c. r = Some c \<Longrightarrow> tree23 c" and "\<And>c. r = Some c \<Longrightarrow> runs_fit (tokens c) \<Longrightarrow> lengthToObj (node_length c) = tl_sum (tokens c)"
  shows "lengthToObj (case r of Some c \<Rightarrow> lengthAdd l (node_length c) | None \<Rightarrow> l) =
    tl_sum (xs @ (case r of Some c \<Rightarrow> tokens c | None \<Rightarrow> [])) \<and> 0 \<le> (case r of Some c \<Rightarrow> lengthAdd l (node_length c) | None \<Rightarrow> l)"
proof (cases r)
  case (Some c)
  then have "lengthToObj (lengthAdd l (node_length c)) = tl_sum (xs @ tokens c)"
    using assms runs_fit_append [of xs "tokens c"] by (intro lengthAdd_runs) (simp_all add: node_length_nonneg)
  then show ?thesis using Some assms(3,4) by (simp add: node_length_nonneg)
qed (use assms in simp)

lemma tree23_length: "tree23 n \<Longrightarrow> runs_fit (tokens n) \<Longrightarrow> lengthToObj (node_length n) = tl_sum (tokens n)"
proof (induction n rule: tree23.induct)
  case (1 l a b c ids)
  let ?l1 = "case b of Some b' \<Rightarrow> lengthAdd (node_length a) (node_length b') | None \<Rightarrow> node_length a"
  have t: "tree23 a" "\<And>b'. b = Some b' \<Longrightarrow> tree23 b'" "\<And>c'. c = Some c' \<Longrightarrow> tree23 c'" using 1(4) by simp_all
  have l: "l = (case c of Some c' \<Rightarrow> lengthAdd ?l1 (node_length c') | None \<Rightarrow> ?l1)"
    using 1(4) by (simp add: PairAstNode_create_def Let_def)
  note fit = 1(5) [unfolded tokens.simps append_assoc [symmetric]]
  have a: "lengthToObj (node_length a) = tl_sum (tokens a)"
    using 1(1) t(1) runs_fit_append [OF fit] runs_fit_append by blast
  have "lengthToObj ?l1 = tl_sum (tokens a @ (case b of Some b' \<Rightarrow> tokens b' | None \<Rightarrow> [])) \<and> 0 \<le> ?l1"
    using runs_fit_append [OF fit] a t 1(2) by (intro lengthAdd_option) (auto simp: node_length_nonneg)
  then have "lengthToObj l = tl_sum ((tokens a @ (case b of Some b' \<Rightarrow> tokens b' | None \<Rightarrow> [])) @ (case c of Some c' \<Rightarrow> tokens c' | None \<Rightarrow> []))"
    unfolding l using fit t 1(3) by (intro lengthAdd_option [where r = c, THEN conjunct1]) auto
  then show ?case by simp
next
  case (2 im l h a b c ids)
  let ?l1 = "lengthAdd (node_length a) (node_length b)"
  have t: "tree23 a" "tree23 b" "\<And>c'. c = Some c' \<Longrightarrow> tree23 c'" using 2(4) by simp_all
  have l: "l = (case c of Some c' \<Rightarrow> lengthAdd ?l1 (node_length c') | None \<Rightarrow> ?l1)"
    using 2(4) by (simp add: create23_iff children_length_def split: option.split)
  note fit = 2(5) [unfolded tokens.simps append_assoc [symmetric]]
  have ab: "runs_fit (tokens a @ tokens b)" using runs_fit_append [OF fit] by blast
  have "lengthToObj ?l1 = tl_sum (tokens a @ tokens b)"
    using ab runs_fit_append [OF ab] t 2(1,2) by (intro lengthAdd_runs) (simp_all add: node_length_nonneg)
  then have "lengthToObj l = tl_sum ((tokens a @ tokens b) @ (case c of Some c' \<Rightarrow> tokens c' | None \<Rightarrow> []))"
    unfolding l using fit t 2(3) by (intro lengthAdd_option [where r = c, THEN conjunct1]) (auto simp: node_length_nonneg)
  then show ?case by simp
qed auto

end
