(* ===== verification/Bracket_Concat.thy ===== *)
theory Bracket_Concat
  imports Bracket_Ast
begin

text \<open>
  Concatenation of (2,3) trees:
  \<open>src/vs/editor/common/model/bracketPairsTextModelPart/bracketPairsTree/concat23Trees.ts\<close>. \<open>append\<close> and
  \<open>prepend\<close> go down one side of a tree and come back up with the subtree that did not fit; the list of
  parents the code keeps is the recursion here. The trees stay balanced and their caches right, no
  check of the code fails and the items of the result are those of the arguments in order
  (\<open>concat23Trees_correct\<close>).
\<close>

section \<open>The code\<close>

text \<open>One pass of the halving loop over the array.\<close>

fun concat_round :: "bool \<Rightarrow> 'b AstNode list \<Rightarrow> 'b AstNode list result" where
  "concat_round im [a, b, c] = bindr (ListAstNode_create23 a b (Some c) im) (\<lambda>n. Inr [n])"
| "concat_round im (a # b # xs) =
     bindr (ListAstNode_create23 a b None im) (\<lambda>n. bindr (concat_round im xs) (\<lambda>ns. Inr (n # ns)))"
| "concat_round im xs = Inr []"

lemma concat_round_length: "concat_round im xs = Inr ys \<Longrightarrow> length ys = length xs div 2"
  by (induction im xs arbitrary: ys rule: concat_round.induct) (auto simp: bindr_eq_Inr_iff)

function concat_rounds :: "bool \<Rightarrow> 'b AstNode list \<Rightarrow> 'b AstNode result" where
  "concat_rounds im xs =
     (if length xs > 3 then bindr (concat_round im xs) (concat_rounds im)
      else ListAstNode_create23 (xs ! 0) (xs ! 1) (if length xs \<ge> 3 then Some (xs ! 2) else None) im)"
  by pat_completeness auto
termination
  by (relation "measure (\<lambda>(im, xs). length xs)") (auto dest: concat_round_length)

definition concat23TreesOfSameHeight :: "'b AstNode list \<Rightarrow> bool \<Rightarrow> 'b AstNode option result" where
  "concat23TreesOfSameHeight nodes createImmutableLists =
     (if nodes = [] then Inr None
      else if length nodes = 1 then Inr (Some (hd nodes))
      else bindr (concat_rounds createImmutableLists nodes) (\<lambda>n. Inr (Some n)))"

definition heightDiff :: "'b AstNode \<Rightarrow> 'b AstNode \<Rightarrow> int" where
  "heightDiff node1 node2 = \<bar>int (listHeight node1) - int (listHeight node2)\<bar>"

text \<open>The way down, at a node and at the child it made mutable. The result is the changed node and the
  subtree of its height that did not fit, if any.\<close>

lemma size_member: "x \<in> set xs \<Longrightarrow> size x < Suc (size_list size xs)"
  by (induction xs) auto

lemma size_getChild: "getChild n i = Inr (Some c) \<Longrightarrow> size c < size n"
  by (cases "(n, i)" rule: getChild.cases) (auto simp: size_member split: if_splits)

lemma size_toMutable [simp]: "size (toMutable n) = size n"
  by (cases n) auto

lemma makeElementMutable_child:
  assumes "makeElementMutable n i = Inr (Some c, n')"
  shows "\<exists>child. getChild n i = Inr (Some child) \<and> c = (if isList child then toMutable child else child)"
proof (cases "getChild n i")
  case (Inr r)
  then show ?thesis using assms
    by (cases r) (auto simp: makeElementMutable_def Let_def bindr_eq_Inr_iff split: if_splits)
qed (use assms in \<open>simp add: makeElementMutable_def\<close>)

lemma size_makeElementMutable: "makeElementMutable n i = Inr (Some c, n') \<Longrightarrow> size c < size n"
  by (drule makeElementMutable_child) (auto dest: size_getChild)

lemma size_makeLastElementMutable: "makeLastElementMutable n = Inr (Some c, n') \<Longrightarrow> size c < size n"
  by (auto simp: makeLastElementMutable_def Let_def bindr_eq_Inr_iff dest: size_makeElementMutable split: if_splits)

lemma size_makeFirstElementMutable: "makeFirstElementMutable n = Inr (Some c, n') \<Longrightarrow> size c < size n"
  by (auto simp: makeFirstElementMutable_def Let_def bindr_eq_Inr_iff dest: size_makeElementMutable split: if_splits)

definition append_up ::
  "'b AstNode \<Rightarrow> 'b AstNode option \<Rightarrow> ('b AstNode \<times> 'b AstNode option) result" where
  "append_up parent ov =
     (case ov of
        Some node \<Rightarrow>
          if childrenLength parent \<ge> 3 then
            bindr (unappendChild parent) (\<lambda>(third, parent').
              case third of
                None \<Rightarrow> Inl TypeErr
              | Some t \<Rightarrow> bindr (ListAstNode_create23 t node None False) (\<lambda>n. Inr (parent', Some n)))
          else bindr (appendChildOfSameHeight parent node) (\<lambda>parent'. Inr (parent', None))
      | None \<Rightarrow> bindr (handleChildrenChanged parent) (\<lambda>parent'. Inr (parent', None)))"

function append_down :: "'b AstNode \<Rightarrow> 'b AstNode \<Rightarrow> ('b AstNode \<times> 'b AstNode option) result" where
  "append_down curNode nodeToAppend =
     (if listHeight nodeToAppend = listHeight curNode then Inr (curNode, Some nodeToAppend)
      else if \<not> isList curNode then Inl PlainError
      else
        bindr (makeLastElementMutable curNode) (\<lambda>(child, parent).
          case child of
            None \<Rightarrow> Inl TypeErr
          | Some c \<Rightarrow>
              bindr (append_down c nodeToAppend) (\<lambda>(c', ov).
                bindr (setChild parent (childrenLength parent - 1) c') (\<lambda>parent'. append_up parent' ov))))"
  by pat_completeness auto
termination
  by (relation "measure (\<lambda>(curNode, nodeToAppend). size curNode)") (auto dest: size_makeLastElementMutable)

definition ast_append :: "'b AstNode \<Rightarrow> 'b AstNode \<Rightarrow> 'b AstNode result" where
  "ast_append list nodeToAppend =
     bindr (append_down (toMutable list) nodeToAppend) (\<lambda>(list', ov).
       case ov of
         Some node \<Rightarrow> ListAstNode_create23 list' node None False
       | None \<Rightarrow> Inr list')"

definition prepend_up ::
  "'b AstNode \<Rightarrow> 'b AstNode option \<Rightarrow> ('b AstNode \<times> 'b AstNode option) result" where
  "prepend_up parent ov =
     (case ov of
        Some node \<Rightarrow>
          if childrenLength parent \<ge> 3 then
            bindr (unprependChild parent) (\<lambda>(first, parent').
              case first of
                None \<Rightarrow> Inl TypeErr
              | Some t \<Rightarrow> bindr (ListAstNode_create23 node t None False) (\<lambda>n. Inr (parent', Some n)))
          else bindr (prependChildOfSameHeight parent node) (\<lambda>parent'. Inr (parent', None))
      | None \<Rightarrow> bindr (handleChildrenChanged parent) (\<lambda>parent'. Inr (parent', None)))"

function prepend_down :: "'b AstNode \<Rightarrow> 'b AstNode \<Rightarrow> ('b AstNode \<times> 'b AstNode option) result" where
  "prepend_down curNode nodeToPrepend =
     (if listHeight nodeToPrepend = listHeight curNode then Inr (curNode, Some nodeToPrepend)
      else if \<not> isList curNode then Inl PlainError
      else
        bindr (makeFirstElementMutable curNode) (\<lambda>(child, parent).
          case child of
            None \<Rightarrow> Inl TypeErr
          | Some c \<Rightarrow>
              bindr (prepend_down c nodeToPrepend) (\<lambda>(c', ov).
                bindr (setChild parent 0 c') (\<lambda>parent'. prepend_up parent' ov))))"
  by pat_completeness auto
termination
  by (relation "measure (\<lambda>(curNode, nodeToPrepend). size curNode)") (auto dest: size_makeFirstElementMutable)

definition ast_prepend :: "'b AstNode \<Rightarrow> 'b AstNode \<Rightarrow> 'b AstNode result" where
  "ast_prepend list nodeToPrepend =
     bindr (prepend_down (toMutable list) nodeToPrepend) (\<lambda>(list', ov).
       case ov of
         Some node \<Rightarrow> ListAstNode_create23 node list' None False
       | None \<Rightarrow> Inr list')"

definition ast_concat :: "'b AstNode \<Rightarrow> 'b AstNode \<Rightarrow> 'b AstNode result" where
  "ast_concat node1 node2 =
     (if listHeight node1 = listHeight node2 then ListAstNode_create23 node1 node2 None False
      else if listHeight node1 > listHeight node2 then ast_append node1 node2
      else ast_prepend node2 node1)"

text \<open>\<open>readNode\<close>: the next run of nodes of the same height, as one node, and the rest.\<close>

definition readNode :: "'b AstNode list \<Rightarrow> ('b AstNode option \<times> 'b AstNode list) result" where
  "readNode nodes =
     (case nodes of
        [] \<Rightarrow> Inr (None, [])
      | x # xs \<Rightarrow>
          let same = takeWhile (\<lambda>n. listHeight n = listHeight x) xs;
              rest = dropWhile (\<lambda>n. listHeight n = listHeight x) xs
          in if same \<noteq> [] then bindr (concat23TreesOfSameHeight (x # same) False) (\<lambda>n. Inr (n, rest))
             else Inr (Some x, rest))"

lemma readNode_shorter: "readNode xs = Inr (Some n, rest) \<Longrightarrow> length rest < length xs"
  by (auto simp: readNode_def Let_def bindr_eq_Inr_iff less_Suc_eq_le length_dropWhile_le split: list.splits if_splits)

function merge_nodes :: "'b AstNode \<Rightarrow> 'b AstNode \<Rightarrow> 'b AstNode list \<Rightarrow> 'b AstNode result" where
  "merge_nodes first second nodes =
     bindr (readNode nodes) (\<lambda>(item, rest).
       case item of
         None \<Rightarrow> ast_concat first second
       | Some n \<Rightarrow>
           if heightDiff first second \<le> heightDiff second n
           then bindr (ast_concat first second) (\<lambda>f. merge_nodes f n rest)
           else bindr (ast_concat second n) (\<lambda>s. merge_nodes first s rest))"
  by pat_completeness auto
termination
  by (relation "measure (\<lambda>(f, s, nodes). length nodes)") (auto dest: readNode_shorter)

definition concat23Trees :: "'b AstNode list \<Rightarrow> 'b AstNode option result" where
  "concat23Trees nodes =
     (if nodes = [] then Inr None
      else if length nodes = 1 then Inr (Some (hd nodes))
      else
        bindr (readNode nodes) (\<lambda>(first, rest).
          case first of
            None \<Rightarrow> Inl TypeErr
          | Some f \<Rightarrow>
              bindr (readNode rest) (\<lambda>(second, rest').
                case second of
                  None \<Rightarrow> Inr (Some f)
                | Some s \<Rightarrow> bindr (merge_nodes f s rest') (\<lambda>n. Inr (Some n)))))"

declare concat_rounds.simps [simp del] append_down.simps [simp del] prepend_down.simps [simp del] merge_nodes.simps [simp del]

section \<open>Balanced trees\<close>

lemma handleChildrenChanged_23:
  assumes "listHeight b = listHeight a" and "case c of Some c' \<Rightarrow> listHeight c' = listHeight a | None \<Rightarrow> True"
    and "h = Suc (listHeight a)"
  shows "handleChildrenChanged (TwoThreeListAstNode False l h a b c ids) = ListAstNode_create23 a b c False"
  using assms by (cases c) (simp_all add: handleChildrenChanged_def create23_iff [symmetric] create23_iff [THEN iffD2])

lemma makeElementMutable_eq:
  assumes "getChild n i = Inr (Some c)" and "setChild n i c = Inr n"
  shows "makeElementMutable n i = bindr (setChild n i (toMutable c)) (\<lambda>n'. Inr (Some (toMutable c), n'))"
proof -
  have "\<not> isList c \<Longrightarrow> toMutable c = c" by (cases c) auto
  then show ?thesis using assms by (auto simp: makeElementMutable_def Let_def)
qed

lemma makeLast_23:
  "makeLastElementMutable (TwoThreeListAstNode False l h a b None ids) =
     Inr (Some (toMutable b), TwoThreeListAstNode False l h a (toMutable b) None ids)"
  "makeLastElementMutable (TwoThreeListAstNode False l h a b (Some c) ids) =
     Inr (Some (toMutable c), TwoThreeListAstNode False l h a b (Some (toMutable c)) ids)"
  by (simp_all add: makeLastElementMutable_def Let_def makeElementMutable_eq)

lemma makeFirst_23:
  "makeFirstElementMutable (TwoThreeListAstNode False l h a b c ids) =
     Inr (Some (toMutable a), TwoThreeListAstNode False l h (toMutable a) b c ids)"
  by (simp add: makeFirstElementMutable_def Let_def makeElementMutable_eq)

lemma tree23_listE:
  assumes "tree23 n" and "isList n" and "throwIfImmutable n = Inr ()"
  obtains l a b c ids where "n = TwoThreeListAstNode False l (Suc (listHeight a)) a b c ids" and "tree23 a" and "tree23 b"
    and "\<And>c'. c = Some c' \<Longrightarrow> tree23 c' \<and> listHeight c' = listHeight a" and "listHeight b = listHeight a"
proof (cases n)
  case (TwoThreeListAstNode im l h a b c ids)
  with assms that show thesis by (cases c) (auto simp: create23_iff split: if_splits)
qed (use assms in auto)

lemma throwIfImmutable_toMutable [simp]: "throwIfImmutable (toMutable n) = Inr ()"
  by (cases n) auto

text \<open>What a step down and up returns at a tree of height \<open>h\<close>: the changed tree, of the same height, and a tree of
  that height that did not fit.\<close>

definition overflow_ok :: "nat \<Rightarrow> 'b AstNode list \<Rightarrow> ('b AstNode \<times> 'b AstNode option) \<Rightarrow> bool" where
  "overflow_ok h ls p \<longleftrightarrow>
     tree23 (fst p) \<and> listHeight (fst p) = h \<and>
     (case snd p of
        None \<Rightarrow> leaves (fst p) = ls
      | Some n \<Rightarrow> tree23 n \<and> listHeight n = h \<and> leaves (fst p) @ leaves n = ls)"

lemma append_up_2:
  assumes "tree23 a" and "overflow_ok (listHeight a) ls (x, ov)"
  shows "\<exists>p. append_up (TwoThreeListAstNode False l (Suc (listHeight a)) a x None ids) ov = Inr p \<and>
    overflow_ok (Suc (listHeight a)) (leaves a @ ls) p"
proof (cases ov)
  case None
  obtain m where "ListAstNode_create23 a x None False = Inr m" "tree23 m" "listHeight m = Suc (listHeight a)" "leaves m = leaves a @ leaves x"
    using tree23_create23 [of a x None False] assms by (auto simp: overflow_ok_def)
  then show ?thesis using assms None
    by (intro exI [of _ "(m, None)"]) (simp add: append_up_def handleChildrenChanged_23 overflow_ok_def)
next
  case (Some n)
  obtain m where "ListAstNode_create23 a x (Some n) False = Inr m" "tree23 m" "listHeight m = Suc (listHeight a)"
    "leaves m = leaves a @ leaves x @ leaves n"
    using tree23_create23 [of a x "Some n" False] assms Some by (auto simp: overflow_ok_def)
  then show ?thesis using assms Some
    by (intro exI [of _ "(m, None)"]) (simp add: append_up_def handleChildrenChanged_23 overflow_ok_def)
qed

lemma append_up_3:
  assumes "tree23 a" and "tree23 b" and "listHeight b = listHeight a" and "overflow_ok (listHeight a) ls (x, ov)"
  shows "\<exists>p. append_up (TwoThreeListAstNode False l (Suc (listHeight a)) a b (Some x) ids) ov = Inr p \<and>
    overflow_ok (Suc (listHeight a)) (leaves a @ leaves b @ ls) p"
proof (cases ov)
  case None
  obtain m where "ListAstNode_create23 a b (Some x) False = Inr m" "tree23 m" "listHeight m = Suc (listHeight a)"
    "leaves m = leaves a @ leaves b @ leaves x"
    using tree23_create23 [of a b "Some x" False] assms None by (auto simp: overflow_ok_def)
  then show ?thesis using assms None
    by (intro exI [of _ "(m, None)"]) (simp add: append_up_def handleChildrenChanged_23 overflow_ok_def)
next
  case (Some n)
  obtain m where "ListAstNode_create23 a b None False = Inr m" "tree23 m" "listHeight m = Suc (listHeight a)" "leaves m = leaves a @ leaves b"
    using tree23_create23 [of a b None False] assms by auto
  moreover obtain k where "ListAstNode_create23 x n None False = Inr k" "tree23 k" "listHeight k = Suc (listHeight a)" "leaves k = ls"
    using tree23_create23 [of x n None False] assms Some by (auto simp: overflow_ok_def)
  ultimately show ?thesis using assms Some
    by (intro exI [of _ "(m, Some k)"]) (simp add: append_up_def handleChildrenChanged_23 overflow_ok_def)
qed

lemma append_down_ok:
  assumes "tree23 cur" and "tree23 node" and "listHeight node \<le> listHeight cur" and "throwIfImmutable cur = Inr ()"
  shows "\<exists>p. append_down cur node = Inr p \<and> overflow_ok (listHeight cur) (leaves cur @ leaves node) p"
  using assms
proof (induction "listHeight cur" arbitrary: cur)
  case 0
  then show ?case by (simp add: append_down.simps [of cur] overflow_ok_def)
next
  case (Suc h)
  show ?case
  proof (cases "listHeight node = listHeight cur")
    case True
    then show ?thesis using Suc.prems by (simp add: append_down.simps [of cur] overflow_ok_def)
  next
    case False
    have "isList cur" using tree23_list_height [OF Suc.prems(1)] Suc.hyps(2) by simp
    then obtain l a b c ids where cur: "cur = TwoThreeListAstNode False l (Suc (listHeight a)) a b c ids" and t: "tree23 a" "tree23 b"
      "\<And>c'. c = Some c' \<Longrightarrow> tree23 c' \<and> listHeight c' = listHeight a" "listHeight b = listHeight a"
      by (rule tree23_listE [OF Suc.prems(1) _ Suc.prems(4)]) (rule that)
    have h: "h = listHeight a" "listHeight node \<le> h" using Suc.hyps(2) Suc.prems(3) False cur by auto
    have IH: "\<exists>n ov. append_down (toMutable x) node = Inr (n, ov) \<and> overflow_ok (listHeight a) (leaves x @ leaves node) (n, ov)"
      if "tree23 x" "listHeight x = listHeight a" for x
      using Suc.hyps(1) [of "toMutable x"] that h Suc.prems(2) unfolding split_paired_Ex by simp
    show ?thesis
    proof (cases c)
      case None
      obtain x ov where x: "append_down (toMutable b) node = Inr (x, ov)" "overflow_ok (listHeight a) (leaves b @ leaves node) (x, ov)"
        using IH [OF t(2,4)] by blast
      have "append_down cur node = append_up (TwoThreeListAstNode False l (Suc (listHeight a)) a x None ids) ov"
        using False by (subst append_down.simps) (simp add: cur None makeLast_23 x)
      then show ?thesis using append_up_2 [OF t(1) x(2), of l ids] by (simp add: cur None)
    next
      case (Some c')
      obtain x ov where x: "append_down (toMutable c') node = Inr (x, ov)" "overflow_ok (listHeight a) (leaves c' @ leaves node) (x, ov)"
        using IH [of c'] t(3) [OF Some] by blast
      have "append_down cur node = append_up (TwoThreeListAstNode False l (Suc (listHeight a)) a b (Some x) ids) ov"
        using False by (subst append_down.simps) (simp add: cur Some makeLast_23 x)
      then show ?thesis using append_up_3 [OF t(1,2,4) x(2), of l ids] by (simp add: cur Some)
    qed
  qed
qed

text \<open>A tree that holds the leaves of two.\<close>

definition concat_ok :: "'b AstNode result \<Rightarrow> 'b AstNode list \<Rightarrow> bool" where
  "concat_ok r ls \<longleftrightarrow> (\<exists>n. r = Inr n \<and> tree23 n \<and> leaves n = ls)"

lemma create23_concat_ok:
  "tree23 a \<Longrightarrow> tree23 b \<Longrightarrow> listHeight b = listHeight a \<Longrightarrow> concat_ok (ListAstNode_create23 a b None im) (leaves a @ leaves b)"
  using tree23_create23 [of a b None im] by (auto simp: concat_ok_def)

lemma ast_append_ok:
  assumes "tree23 list" and "tree23 node" and "listHeight node \<le> listHeight list"
  shows "concat_ok (ast_append list node) (leaves list @ leaves node)"
proof -
  obtain n ov where p: "append_down (toMutable list) node = Inr (n, ov)" "overflow_ok (listHeight list) (leaves list @ leaves node) (n, ov)"
    using append_down_ok [of "toMutable list" node] assms by auto
  show ?thesis
  proof (cases ov)
    case None
    then show ?thesis using p by (simp add: ast_append_def overflow_ok_def concat_ok_def)
  next
    case (Some m)
    then show ?thesis
      using p create23_concat_ok [of n m False] by (simp add: ast_append_def overflow_ok_def concat_ok_def)
  qed
qed

text \<open>The same at the front.\<close>

definition overflow_left :: "nat \<Rightarrow> 'b AstNode list \<Rightarrow> ('b AstNode \<times> 'b AstNode option) \<Rightarrow> bool" where
  "overflow_left h ls p \<longleftrightarrow>
     tree23 (fst p) \<and> listHeight (fst p) = h \<and>
     (case snd p of
        None \<Rightarrow> leaves (fst p) = ls
      | Some n \<Rightarrow> tree23 n \<and> listHeight n = h \<and> leaves n @ leaves (fst p) = ls)"

lemma prepend_up_ok:
  assumes "tree23 b" and "\<And>c'. c = Some c' \<Longrightarrow> tree23 c' \<and> listHeight c' = listHeight x" and "listHeight b = listHeight x"
    and "overflow_left (listHeight x) ls (x, ov)"
  shows "\<exists>p. prepend_up (TwoThreeListAstNode False l (Suc (listHeight x)) x b c ids) ov = Inr p \<and>
    overflow_left (Suc (listHeight x)) (ls @ leaves b @ (case c of Some c' \<Rightarrow> leaves c' | None \<Rightarrow> [])) p"
proof (cases ov)
  case None
  have "handleChildrenChanged (TwoThreeListAstNode False l (Suc (listHeight x)) x b c ids) = ListAstNode_create23 x b c False"
    using assms(2,3) by (intro handleChildrenChanged_23) (auto split: option.split)
  moreover obtain m where "ListAstNode_create23 x b c False = Inr m" "tree23 m" "listHeight m = Suc (listHeight x)"
    "leaves m = leaves x @ leaves b @ (case c of Some c' \<Rightarrow> leaves c' | None \<Rightarrow> [])"
    using tree23_create23 [of x b c False] assms None by (auto simp: overflow_left_def)
  ultimately show ?thesis using assms(4) None
    by (intro exI [of _ "(m, None)"]) (simp add: prepend_up_def overflow_left_def)
next
  case (Some n)
  show ?thesis
  proof (cases c)
    case None
    obtain m where "ListAstNode_create23 n x (Some b) False = Inr m" "tree23 m" "listHeight m = Suc (listHeight x)"
      "leaves m = leaves n @ leaves x @ leaves b"
      using tree23_create23 [of n x "Some b" False] assms Some by (auto simp: overflow_left_def)
    then show ?thesis using assms Some None
      by (intro exI [of _ "(m, None)"]) (auto simp: prepend_up_def handleChildrenChanged_23 overflow_left_def)
  next
    case c: (Some c')
    obtain m where "ListAstNode_create23 b c' None False = Inr m" "tree23 m" "listHeight m = Suc (listHeight x)" "leaves m = leaves b @ leaves c'"
      using tree23_create23 [of b c' None False] assms(1-3) c by auto
    moreover obtain k where "ListAstNode_create23 n x None False = Inr k" "tree23 k" "listHeight k = Suc (listHeight x)" "leaves k = ls"
      using tree23_create23 [of n x None False] assms(4) Some by (auto simp: overflow_left_def)
    ultimately show ?thesis using assms(2,3) Some c
      by (intro exI [of _ "(m, Some k)"]) (simp add: prepend_up_def handleChildrenChanged_23 overflow_left_def)
  qed
qed

lemma prepend_down_ok:
  assumes "tree23 cur" and "tree23 node" and "listHeight node \<le> listHeight cur" and "throwIfImmutable cur = Inr ()"
  shows "\<exists>p. prepend_down cur node = Inr p \<and> overflow_left (listHeight cur) (leaves node @ leaves cur) p"
  using assms
proof (induction "listHeight cur" arbitrary: cur)
  case 0
  then show ?case by (simp add: prepend_down.simps [of cur] overflow_left_def)
next
  case (Suc h)
  show ?case
  proof (cases "listHeight node = listHeight cur")
    case True
    then show ?thesis using Suc.prems by (simp add: prepend_down.simps [of cur] overflow_left_def)
  next
    case False
    have "isList cur" using tree23_list_height [OF Suc.prems(1)] Suc.hyps(2) by simp
    then obtain l a b c ids where cur: "cur = TwoThreeListAstNode False l (Suc (listHeight a)) a b c ids" and t: "tree23 a" "tree23 b"
      "\<And>c'. c = Some c' \<Longrightarrow> tree23 c' \<and> listHeight c' = listHeight a" "listHeight b = listHeight a"
      by (rule tree23_listE [OF Suc.prems(1) _ Suc.prems(4)]) (rule that)
    have h: "h = listHeight a" "listHeight node \<le> h" using Suc.hyps(2) Suc.prems(3) False cur by auto
    obtain x ov where x: "prepend_down (toMutable a) node = Inr (x, ov)" "overflow_left (listHeight a) (leaves node @ leaves a) (x, ov)"
      using Suc.hyps(1) [of "toMutable a"] t(1) h Suc.prems(2) unfolding split_paired_Ex by auto
    have hx: "listHeight x = listHeight a" using x(2) by (simp add: overflow_left_def)
    have "prepend_down cur node = prepend_up (TwoThreeListAstNode False l (Suc (listHeight x)) x b c ids) ov"
      using False by (subst prepend_down.simps) (simp add: cur makeFirst_23 x hx)
    then show ?thesis using prepend_up_ok [of b c x "leaves node @ leaves a" ov l ids] t x(2) hx by (simp add: cur)
  qed
qed

lemma ast_prepend_ok:
  assumes "tree23 list" and "tree23 node" and "listHeight node \<le> listHeight list"
  shows "concat_ok (ast_prepend list node) (leaves node @ leaves list)"
proof -
  obtain n ov where p: "prepend_down (toMutable list) node = Inr (n, ov)" "overflow_left (listHeight list) (leaves node @ leaves list) (n, ov)"
    using prepend_down_ok [of "toMutable list" node] assms by auto
  show ?thesis
  proof (cases ov)
    case None
    then show ?thesis using p by (simp add: ast_prepend_def overflow_left_def concat_ok_def)
  next
    case (Some m)
    then show ?thesis
      using p create23_concat_ok [of m n False] by (simp add: ast_prepend_def overflow_left_def concat_ok_def)
  qed
qed

lemma ast_concat_ok:
  "tree23 a \<Longrightarrow> tree23 b \<Longrightarrow> concat_ok (ast_concat a b) (leaves a @ leaves b)"
  using create23_concat_ok [of a b False] ast_append_ok [of a b] ast_prepend_ok [of b a] by (simp add: ast_concat_def)

section \<open>Runs of nodes of the same height\<close>

definition level_ok :: "nat \<Rightarrow> 'b AstNode list \<Rightarrow> bool" where
  "level_ok h xs \<longleftrightarrow> (\<forall>x \<in> set xs. tree23 x \<and> listHeight x = h)"

lemma concat_round_ok:
  assumes "level_ok h xs" and "length xs \<noteq> 1"
  shows "\<exists>ys. concat_round im xs = Inr ys \<and> level_ok (Suc h) ys \<and> concat (map leaves ys) = concat (map leaves xs)"
  using assms
proof (induction im xs rule: concat_round.induct [case_names three two more])
  case (three im a b c)
  then show ?case using tree23_create23 [of a b "Some c" im] by (auto simp: level_ok_def)
next
  case (two im a b)
  then show ?case using tree23_create23 [of a b None im] by (auto simp: level_ok_def)
next
  case (more im a b c d xs)
  obtain m where "ListAstNode_create23 a b None im = Inr m" "tree23 m" "listHeight m = Suc h" "leaves m = leaves a @ leaves b"
    using tree23_create23 [of a b None im] more(2) by (auto simp: level_ok_def)
  then show ?case using more(1) [of m] more(2) by (auto simp: level_ok_def)
qed (auto simp: level_ok_def)

lemma concat_rounds_ok:
  assumes "level_ok h xs" and "2 \<le> length xs"
  shows "concat_ok (concat_rounds im xs) (concat (map leaves xs))"
  using assms
proof (induction im xs arbitrary: h rule: concat_rounds.induct)
  case (1 im xs)
  show ?case
  proof (cases "length xs > 3")
    case True
    then obtain ys where ys: "concat_round im xs = Inr ys" "level_ok (Suc h) ys" "concat (map leaves ys) = concat (map leaves xs)"
      using concat_round_ok [OF 1(2), of im] by auto
    have "2 \<le> length ys" using concat_round_length [OF ys(1)] True by simp
    then have "concat_ok (concat_rounds im ys) (concat (map leaves xs))" using 1(1) [OF True ys(1,2)] ys(3) by simp
    then show ?thesis using True ys(1) by (simp add: concat_rounds.simps [of im xs])
  next
    case False
    then consider a b where "xs = [a, b]" | a b c where "xs = [a, b, c]"
      using 1(3) by (cases xs; cases "tl xs"; cases "tl (tl xs)") auto
    then show ?thesis
    proof cases
      case (1 a b)
      then show ?thesis using "1.prems" create23_concat_ok [of a b im] by (simp add: concat_rounds.simps level_ok_def)
    next
      case (2 a b c)
      then show ?thesis using "1.prems" tree23_create23 [of a b "Some c" im]
        by (auto simp: concat_rounds.simps [of im "[a, b, c]"] level_ok_def concat_ok_def numeral_2_eq_2)
    qed
  qed
qed

text \<open>An optional tree that holds the given leaves.\<close>

definition concat_opt_ok :: "'b AstNode option result \<Rightarrow> 'b AstNode list \<Rightarrow> bool" where
  "concat_opt_ok r ls \<longleftrightarrow> (\<exists>n. r = Inr (Some n) \<and> tree23 n \<and> leaves n = ls)"

lemma concat_okE:
  assumes "concat_ok r ls"
  obtains n where "r = Inr n" and "tree23 n" and "leaves n = ls"
  using assms by (auto simp: concat_ok_def)

lemma concat23TreesOfSameHeight_ok:
  assumes "level_ok h xs" and "xs \<noteq> []"
  shows "concat_opt_ok (concat23TreesOfSameHeight xs im) (concat (map leaves xs))"
proof (cases "length xs = 1")
  case True
  then show ?thesis using assms by (auto simp: concat23TreesOfSameHeight_def concat_opt_ok_def level_ok_def length_Suc_conv)
next
  case False
  then have "concat_ok (concat_rounds im xs) (concat (map leaves xs))"
    using assms by (intro concat_rounds_ok) (auto simp: Suc_le_eq neq_Nil_conv)
  then show ?thesis using False assms(2)
    by (elim concat_okE) (simp add: concat23TreesOfSameHeight_def concat_opt_ok_def)
qed

lemma readNode_ok:
  assumes "\<forall>x \<in> set xs. tree23 x" and "xs \<noteq> []"
  shows "\<exists>n rest. readNode xs = Inr (Some n, rest) \<and> tree23 n \<and> (\<forall>x \<in> set rest. tree23 x) \<and>
    leaves n @ concat (map leaves rest) = concat (map leaves xs)"
proof -
  obtain y ys where xs: "xs = y # ys" using assms(2) by (cases xs) auto
  let ?P = "\<lambda>n. listHeight n = listHeight y"
  have parts: "leaves y @ concat (map leaves (takeWhile ?P ys)) @ concat (map leaves (dropWhile ?P ys)) = concat (map leaves xs)"
    by (simp add: xs flip: concat_append map_append)
  have rest: "\<forall>x \<in> set (dropWhile ?P ys). tree23 x" using assms(1) xs by (auto dest: set_dropWhileD)
  show ?thesis
  proof (cases "takeWhile ?P ys = []")
    case True
    then show ?thesis using assms(1) xs parts rest by (simp add: readNode_def)
  next
    case False
    have "level_ok (listHeight y) (y # takeWhile ?P ys)"
      using assms(1) xs by (auto simp: level_ok_def dest: set_takeWhileD)
    then have "concat_opt_ok (concat23TreesOfSameHeight (y # takeWhile ?P ys) False) (concat (map leaves (y # takeWhile ?P ys)))"
      by (rule concat23TreesOfSameHeight_ok) simp
    then show ?thesis using False xs parts rest by (auto simp: readNode_def concat_opt_ok_def)
  qed
qed

lemma merge_nodes_ok:
  assumes "tree23 a" and "tree23 b" and "\<forall>x \<in> set xs. tree23 x"
  shows "concat_ok (merge_nodes a b xs) (leaves a @ leaves b @ concat (map leaves xs))"
  using assms
proof (induction "length xs" arbitrary: a b xs rule: less_induct)
  case less
  show ?case
  proof (cases "xs = []")
    case True
    then show ?thesis using ast_concat_ok [OF less.prems(1,2)] by (simp add: merge_nodes.simps [of a b] readNode_def)
  next
    case False
    then obtain n rest where n: "readNode xs = Inr (Some n, rest)" "tree23 n" "\<forall>x \<in> set rest. tree23 x"
      "leaves n @ concat (map leaves rest) = concat (map leaves xs)"
      using readNode_ok less.prems(3) by blast
    have short: "length rest < length xs" using readNode_shorter [OF n(1)] .
    show ?thesis
    proof (cases "heightDiff a b \<le> heightDiff b n")
      case True
      obtain c where c: "ast_concat a b = Inr c" "tree23 c" "leaves c = leaves a @ leaves b"
        using ast_concat_ok [OF less.prems(1,2)] by (rule concat_okE)
      have "merge_nodes a b xs = merge_nodes c n rest" using True by (subst merge_nodes.simps) (simp add: n(1) c(1))
      then show ?thesis using less.hyps [OF short c(2) n(2,3)] c(3) n(4) by simp
    next
      case False
      obtain c where c: "ast_concat b n = Inr c" "tree23 c" "leaves c = leaves b @ leaves n"
        using ast_concat_ok [OF less.prems(2) n(2)] by (rule concat_okE)
      have "merge_nodes a b xs = merge_nodes a c rest" using False by (subst merge_nodes.simps) (simp add: n(1) c(1))
      then show ?thesis using less.hyps [OF short less.prems(1) c(2) n(3)] c(3) n(4) by simp
    qed
  qed
qed

lemma concat23Trees_ok:
  assumes "\<forall>x \<in> set xs. tree23 x" and "xs \<noteq> []"
  shows "concat_opt_ok (concat23Trees xs) (concat (map leaves xs))"
proof (cases "length xs = 1")
  case True
  then show ?thesis using assms by (auto simp: concat23Trees_def concat_opt_ok_def length_Suc_conv)
next
  case False
  obtain a rest where a: "readNode xs = Inr (Some a, rest)" "tree23 a" "\<forall>x \<in> set rest. tree23 x"
    "leaves a @ concat (map leaves rest) = concat (map leaves xs)"
    using readNode_ok [OF assms] by blast
  show ?thesis
  proof (cases "rest = []")
    case True
    then show ?thesis using a False assms(2) by (simp add: concat23Trees_def concat_opt_ok_def readNode_def [of "[]"])
  next
    case rest: False
    obtain b rest' where b: "readNode rest = Inr (Some b, rest')" "tree23 b" "\<forall>x \<in> set rest'. tree23 x"
      "leaves b @ concat (map leaves rest') = concat (map leaves rest)"
      using readNode_ok [OF a(3) rest] by blast
    obtain c where "merge_nodes a b rest' = Inr c" "tree23 c" "leaves c = leaves a @ leaves b @ concat (map leaves rest')"
      using merge_nodes_ok [OF a(2) b(2,3)] by (rule concat_okE)
    then show ?thesis using a b False assms(2) by (simp add: concat23Trees_def concat_opt_ok_def)
  qed
qed

text \<open>C20. Concatenation of balanced trees with right caches, of any heights: no check of the code fails and no
  immutable list is changed, the result is again balanced with right caches and holds the items of the
  arguments in order, and its height is at most logarithmic in their number.\<close>

theorem concat23Trees_correct:
  assumes "\<forall>x \<in> set xs. tree23 x" and "xs \<noteq> []"
  shows "\<exists>n. concat23Trees xs = Inr (Some n) \<and> tree23 n \<and> leaves n = concat (map leaves xs) \<and>
    2 ^ listHeight n \<le> length (leaves n)"
  using concat23Trees_ok [OF assms] height_log by (auto simp: concat_opt_ok_def)

text \<open>Two lists of height 1, the second immutable, and a single token.\<close>

theorem concat23Trees_correct_witness:
  "\<exists>n. concat23Trees
       [TwoThreeListAstNode False 3 1 (TextAstNode 1) (TextAstNode 2) None (SmallImmutableSet_getEmpty),
        TextAstNode 4 :: nat AstNode,
        TwoThreeListAstNode True 3 1 (TextAstNode 1) (TextAstNode 2) None (SmallImmutableSet_getEmpty)] = Inr (Some n) \<and>
     leaves n = [TextAstNode 1, TextAstNode 2, TextAstNode 4, TextAstNode 1, TextAstNode 2]"
  using concat23Trees_correct
    [of "[TwoThreeListAstNode False 3 1 (TextAstNode 1) (TextAstNode 2) None (SmallImmutableSet_getEmpty),
        TextAstNode 4 :: nat AstNode,
        TwoThreeListAstNode True 3 1 (TextAstNode 1) (TextAstNode 2) None (SmallImmutableSet_getEmpty)]"]
  by (auto simp: ListAstNode_create23_def lengthAdd_def factor_def js_rem_def SmallImmutableSet_merge_def
      SmallImmutableSet_getEmpty_def SmallImmutableSet_create_def Let_def)

end
