(* ===== verification/Bracket_Mapper.thy ===== *)
theory Bracket_Mapper
  imports Bracket_Length
begin

text \<open>
  Positions before an edit:
  \<open>src/vs/editor/common/model/bracketPairsTextModelPart/bracketPairsTree/beforeEditPositionMapper.ts\<close>. The
  mapper walks over sorted edits as the positions it is asked for grow, and keeps how lines, and the columns of
  one line, are shifted by the edits behind it. It agrees with a mapping that adds up lengths
  (\<open>BeforeEditPositionMapper_correct\<close>).
\<close>

section \<open>The code\<close>

record TextEditInfo =
  startOffset :: Length
  endOffset :: Length
  newLength :: Length

definition TextEditInfo_fromModelContentChanges :: "(position range_scheme \<times> utf16) list \<Rightarrow> TextEditInfo list" where
  "TextEditInfo_fromModelContentChanges changes =
     rev (map (\<lambda>(r, t). \<lparr>startOffset = positionToLength (Range_getStartPosition r),
        endOffset = positionToLength (Range_getEndPosition r), newLength = lengthOfString t\<rparr>) changes)"

record TextEditInfoCache =
  endOffsetBeforeObj :: TextLength
  endOffsetAfterObj :: TextLength
  offsetObj :: TextLength

definition TextEditInfoCache_from :: "TextEditInfo \<Rightarrow> TextEditInfoCache" where
  "TextEditInfoCache_from edit =
     \<lparr>endOffsetBeforeObj = lengthToObj (endOffset edit),
      endOffsetAfterObj = lengthToObj (lengthAdd (startOffset edit) (newLength edit)),
      offsetObj = lengthToObj (startOffset edit)\<rparr>"

record BeforeEditPositionMapper =
  nextEditIdx :: nat
  deltaOldToNewLineCount :: int
  deltaOldToNewColumnCount :: int
  deltaLineIdxInOld :: int
  mapper_edits :: "TextEditInfoCache list"

definition BeforeEditPositionMapper_new :: "TextEditInfo list \<Rightarrow> BeforeEditPositionMapper" where
  "BeforeEditPositionMapper_new edits =
     \<lparr>nextEditIdx = 0, deltaOldToNewLineCount = 0, deltaOldToNewColumnCount = 0, deltaLineIdxInOld = -1,
      mapper_edits = map TextEditInfoCache_from edits\<rparr>"

definition translateOldToCur :: "BeforeEditPositionMapper \<Rightarrow> TextLength \<Rightarrow> Length" where
  "translateOldToCur m oldOffsetObj =
     (if lineCount oldOffsetObj = deltaLineIdxInOld m
      then toLength (lineCount oldOffsetObj + deltaOldToNewLineCount m) (columnCount oldOffsetObj + deltaOldToNewColumnCount m)
      else toLength (lineCount oldOffsetObj + deltaOldToNewLineCount m) (columnCount oldOffsetObj))"

definition translateCurToOld :: "BeforeEditPositionMapper \<Rightarrow> Length \<Rightarrow> Length" where
  "translateCurToOld m newOffset =
     (let offsetObj = lengthToObj newOffset in
      if lineCount offsetObj - deltaOldToNewLineCount m = deltaLineIdxInOld m
      then toLength (lineCount offsetObj - deltaOldToNewLineCount m) (columnCount offsetObj - deltaOldToNewColumnCount m)
      else toLength (lineCount offsetObj - deltaOldToNewLineCount m) (columnCount offsetObj))"

text \<open>The body of the loop for an edit that lies before the position.\<close>

definition skipEdit :: "BeforeEditPositionMapper \<Rightarrow> TextEditInfoCache \<Rightarrow> BeforeEditPositionMapper" where
  "skipEdit m nextEdit =
     (let nextEditEndOffsetInCurObj = lengthToObj (translateOldToCur m (endOffsetAfterObj nextEdit));
          nextEditEndOffsetBeforeInCurObj = lengthToObj (translateOldToCur m (endOffsetBeforeObj nextEdit));
          lineDelta = lineCount nextEditEndOffsetInCurObj - lineCount nextEditEndOffsetBeforeInCurObj;
          previousColumnDelta =
            (if deltaLineIdxInOld m = lineCount (endOffsetBeforeObj nextEdit) then deltaOldToNewColumnCount m else 0);
          columnDelta = columnCount nextEditEndOffsetInCurObj - columnCount nextEditEndOffsetBeforeInCurObj
      in m\<lparr>nextEditIdx := nextEditIdx m + 1,
           deltaOldToNewLineCount := deltaOldToNewLineCount m + lineDelta,
           deltaOldToNewColumnCount := previousColumnDelta + columnDelta,
           deltaLineIdxInOld := lineCount (endOffsetBeforeObj nextEdit)\<rparr>)"

lemma skipEdit_idx [simp]: "nextEditIdx (skipEdit m e) = Suc (nextEditIdx m)" "mapper_edits (skipEdit m e) = mapper_edits m"
  by (simp_all add: skipEdit_def Let_def)

function adjustNextEdit :: "BeforeEditPositionMapper \<Rightarrow> Length \<Rightarrow> BeforeEditPositionMapper" where
  "adjustNextEdit m offset =
     (if nextEditIdx m < length (mapper_edits m) \<and>
         lengthLessThanEqual (translateOldToCur m (endOffsetAfterObj (mapper_edits m ! nextEditIdx m))) offset
      then adjustNextEdit (skipEdit m (mapper_edits m ! nextEditIdx m)) offset
      else m)"
  by pat_completeness auto
termination
  by (relation "measure (\<lambda>(m, offset). length (mapper_edits m) - nextEditIdx m)") auto

declare adjustNextEdit.simps [simp del]

definition getOffsetBeforeChange :: "BeforeEditPositionMapper \<Rightarrow> Length \<Rightarrow> Length \<times> BeforeEditPositionMapper" where
  "getOffsetBeforeChange m offset = (let m' = adjustNextEdit m offset in (translateCurToOld m' offset, m'))"

definition getDistanceToNextChange :: "BeforeEditPositionMapper \<Rightarrow> Length \<Rightarrow> Length option \<times> BeforeEditPositionMapper" where
  "getDistanceToNextChange m offset =
     (let m' = adjustNextEdit m offset in
      (if nextEditIdx m' < length (mapper_edits m')
       then Some (lengthDiffNonNegative offset (translateOldToCur m' (offsetObj (mapper_edits m' ! nextEditIdx m'))))
       else None, m'))"

section \<open>Adding up lengths\<close>

text \<open>The end of the last edit behind a position, before and after the edits.\<close>

fun edit_end :: "TextEditInfo list \<Rightarrow> Length \<times> Length \<Rightarrow> Length \<times> Length" where
  "edit_end [] p = p"
| "edit_end (e # es) (old, new) =
     edit_end es (endOffset e, lengthAdd (lengthAdd new (lengthDiffNonNegative old (startOffset e))) (newLength e))"

definition columns_ok :: "Length list \<Rightarrow> bool" where
  "columns_ok ls \<longleftrightarrow> sum_list (map (\<lambda>l. l mod factor) ls) < factor"

text \<open>Edits in order, none before \<open>old\<close>, with columns that stay below the limit.\<close>

fun edits_ok :: "TextEditInfo list \<Rightarrow> Length \<times> Length \<Rightarrow> bool" where
  "edits_ok [] (old, new) \<longleftrightarrow> 0 \<le> old \<and> 0 \<le> new"
| "edits_ok (e # es) (old, new) \<longleftrightarrow>
     0 \<le> old \<and> 0 \<le> new \<and> old \<le> startOffset e \<and> startOffset e \<le> endOffset e \<and> 0 \<le> newLength e \<and>
     columns_ok [startOffset e, newLength e, new] \<and> columns_ok [endOffset e, new] \<and>
     edits_ok es (endOffset e, lengthAdd (lengthAdd new (lengthDiffNonNegative old (startOffset e))) (newLength e))"

text \<open>The edits behind a position.\<close>

fun passed :: "TextEditInfo list \<Rightarrow> Length \<times> Length \<Rightarrow> Length \<Rightarrow> nat" where
  "passed [] p offset = 0"
| "passed (e # es) (old, new) offset =
     (let end' = lengthAdd (lengthAdd new (lengthDiffNonNegative old (startOffset e))) (newLength e) in
      if end' \<le> offset then Suc (passed es (endOffset e, end') offset) else 0)"

text \<open>The shifts that lead from \<open>old\<close> to \<open>new\<close>.\<close>

definition shifts :: "BeforeEditPositionMapper \<Rightarrow> Length \<Rightarrow> Length \<Rightarrow> bool" where
  "shifts m old new \<longleftrightarrow>
     deltaOldToNewLineCount m = new div factor - old div factor \<and>
     (deltaLineIdxInOld m = old div factor \<and> deltaOldToNewColumnCount m = new mod factor - old mod factor \<or>
      deltaLineIdxInOld m = -1 \<and> old = 0 \<and> new = 0)"

lemma length_le_iff: "a \<le> b \<longleftrightarrow> a div factor < b div factor \<or> a div factor = b div factor \<and> a mod factor \<le> b mod factor" for a b :: int
proof -
  have "\<not> b < a \<longleftrightarrow> \<not> lengthToObj b < lengthToObj a" using lengthLessThan_refines [of b a] by (simp add: lengthLessThan_def)
  then show ?thesis by (auto simp: TextLength_less_iff not_less)
qed

lemma length_eqI: "a div factor = b div factor \<Longrightarrow> a mod factor = b mod factor \<Longrightarrow> a = b" for a b :: int
  by (metis div_mult_mod_eq)

lemma toLength_eqI: "0 \<le> c \<Longrightarrow> c < factor \<Longrightarrow> a div factor = l \<Longrightarrow> a mod factor = c \<Longrightarrow> toLength l c = a"
  by (metis div_mult_mod_eq toLength_def)

lemma mod_factor [simp]: "0 \<le> a mod factor" "a mod factor < factor" for a :: int
  by simp_all

lemma line_nonneg: "0 \<le> a div factor \<longleftrightarrow> 0 \<le> a"
  by (simp add: pos_imp_zdiv_nonneg_iff)

text \<open>Lines and columns of a sum and of a difference.\<close>

lemma lengthAdd_parts:
  assumes "0 \<le> a" and "0 \<le> b" and "a mod factor + b mod factor < factor"
  shows "lengthAdd a b div factor = a div factor + b div factor"
    and "lengthAdd a b mod factor = (if b div factor = 0 then a mod factor + b mod factor else b mod factor)"
  using arg_cong [OF lengthAdd_refines [OF columns_fitI [OF assms]], of lineCount]
    arg_cong [OF lengthAdd_refines [OF columns_fitI [OF assms]], of columnCount]
  by (simp_all add: TextLength_add_def TextLength_new_def)

lemma lengthDiffNonNegative_parts:
  assumes "a \<le> b"
  shows "lengthDiffNonNegative a b div factor = b div factor - a div factor"
    and "lengthDiffNonNegative a b mod factor = (if a div factor = b div factor then b mod factor - a mod factor else b mod factor)"
    and "0 \<le> lengthDiffNonNegative a b"
proof -
  have le: "a div factor \<le> b div factor" "a div factor = b div factor \<Longrightarrow> a mod factor \<le> b mod factor"
    using assms length_le_iff [of a b] by auto
  have eq: "lengthDiffNonNegative a b =
      toLength (b div factor - a div factor) (if a div factor = b div factor then b mod factor - a mod factor else b mod factor)"
    using assms by (auto simp: lengthDiffNonNegative_def Let_def lengthZero_def toLength_def simp flip: minus_div_mult_eq_mod)
  have c: "0 \<le> (if a div factor = b div factor then b mod factor - a mod factor else b mod factor)"
    "(if a div factor = b div factor then b mod factor - a mod factor else b mod factor) < factor"
    using le(2) le_less_trans [of "b mod factor - a mod factor" "b mod factor" factor] by auto
  show "lengthDiffNonNegative a b div factor = b div factor - a div factor"
    "lengthDiffNonNegative a b mod factor = (if a div factor = b div factor then b mod factor - a mod factor else b mod factor)"
    unfolding eq using c by simp_all
  show "0 \<le> lengthDiffNonNegative a b" unfolding eq using le(1) c(1) by (intro toLength_nonneg) simp_all
qed

lemma lengthDiffNonNegative_mod: "a \<le> b \<Longrightarrow> lengthDiffNonNegative a b mod factor \<le> b mod factor"
  by (simp add: lengthDiffNonNegative_parts)

lemma lengthDiffNonNegative_0 [simp]: "0 \<le> a \<Longrightarrow> lengthDiffNonNegative 0 a = a"
  using lengthDiffNonNegative_add [of 0 a] by simp

text \<open>The translations add and subtract lengths.\<close>

lemma translateOldToCur_eq:
  assumes "shifts m old new" and "0 \<le> old" and "0 \<le> new" and "old \<le> p" and "p mod factor + new mod factor < factor"
  shows "translateOldToCur m (lengthToObj p) = lengthAdd new (lengthDiffNonNegative old p)"
proof -
  note d = lengthDiffNonNegative_parts [OF assms(4)]
  have cols: "new mod factor + lengthDiffNonNegative old p mod factor < factor"
    using assms(5) lengthDiffNonNegative_mod [OF assms(4)] by linarith
  note a = lengthAdd_parts [OF assms(3) d(3) cols]
  have p: "0 \<le> p div factor" using assms(2,4) by (simp add: line_nonneg)
  have le: "old div factor = p div factor \<Longrightarrow> old mod factor \<le> p mod factor" using assms(4) length_le_iff [of old p] by auto
  have new: "new mod factor + p mod factor < factor" using assms(5) by simp
  from assms(1) consider "deltaLineIdxInOld m = old div factor" "deltaOldToNewColumnCount m = new mod factor - old mod factor"
    | "deltaLineIdxInOld m = -1" "old = 0" "new = 0"
    unfolding shifts_def by blast
  then show ?thesis
  proof cases
    case 1
    have "lengthAdd new (lengthDiffNonNegative old p) mod factor =
        (if p div factor = old div factor then p mod factor + (new mod factor - old mod factor) else p mod factor)"
      unfolding a(2) d(1,2) by auto
    moreover have "0 \<le> p mod factor + (new mod factor - old mod factor)" if "p div factor = old div factor"
      using le that mod_factor(1) [of new] by linarith
    moreover have "p mod factor + (new mod factor - old mod factor) < factor"
      using new mod_factor(1) [of old] by linarith
    ultimately show ?thesis using 1 assms(1)
      by (auto simp: translateOldToCur_def a(1) d(1) shifts_def intro!: toLength_eqI)
  next
    case 2
    then show ?thesis using p assms(1,4) by (auto simp: translateOldToCur_def shifts_def intro!: toLength_eqI)
  qed
qed

lemma translateCurToOld_eq:
  assumes "shifts m old new" and "0 \<le> old" and "0 \<le> new" and "new \<le> q" and "q mod factor + old mod factor < factor"
  shows "translateCurToOld m q = lengthAdd old (lengthDiffNonNegative new q)"
proof -
  note d = lengthDiffNonNegative_parts [OF assms(4)]
  have cols: "old mod factor + lengthDiffNonNegative new q mod factor < factor"
    using assms(5) lengthDiffNonNegative_mod [OF assms(4)] by linarith
  note a = lengthAdd_parts [OF assms(2) d(3) cols]
  have q: "0 \<le> q div factor" using assms(3,4) by (simp add: line_nonneg)
  have le: "new div factor = q div factor \<Longrightarrow> new mod factor \<le> q mod factor" using assms(4) length_le_iff [of new q] by auto
  from assms(1) consider "deltaLineIdxInOld m = old div factor" "deltaOldToNewColumnCount m = new mod factor - old mod factor"
    | "deltaLineIdxInOld m = -1" "old = 0" "new = 0"
    unfolding shifts_def by blast
  then show ?thesis
  proof cases
    case 1
    have "lengthAdd old (lengthDiffNonNegative new q) mod factor =
        (if q div factor = new div factor then q mod factor - (new mod factor - old mod factor) else q mod factor)"
      unfolding a(2) d(1,2) by auto
    moreover have "0 \<le> q mod factor - (new mod factor - old mod factor)" if "q div factor = new div factor"
      using le that mod_factor(1) [of old] by linarith
    moreover have "q mod factor - (new mod factor - old mod factor) < factor"
      using assms(5) mod_factor(1) [of new] by linarith
    ultimately show ?thesis using 1 assms(1)
      by (auto simp: translateCurToOld_def Let_def a(1) d(1) shifts_def intro!: toLength_eqI)
  next
    case 2
    then show ?thesis using q assms(1,4) by (auto simp: translateCurToOld_def Let_def shifts_def intro!: toLength_eqI)
  qed
qed

section \<open>The walk over the edits\<close>

definition edit_new_start :: "Length \<times> Length \<Rightarrow> TextEditInfo \<Rightarrow> Length" where
  "edit_new_start p e = lengthAdd (snd p) (lengthDiffNonNegative (fst p) (startOffset e))"

text \<open>The end of an edit, whose start the code shifts after it has added the new length.\<close>

lemma edit_end_shift:
  assumes "0 \<le> old" and "0 \<le> new" and "old \<le> st" and "0 \<le> nl" and "st mod factor + nl mod factor + new mod factor < factor"
  shows "lengthAdd new (lengthDiffNonNegative old (lengthAdd st nl)) = lengthAdd (lengthAdd new (lengthDiffNonNegative old st)) nl"
    and "old \<le> lengthAdd st nl" and "lengthAdd st nl mod factor + new mod factor < factor"
proof -
  have st: "0 \<le> st" using assms(1,3) by simp
  have stnl: "st mod factor + nl mod factor < factor" using assms(5) mod_factor(1) [of new] by linarith
  note a = lengthAdd_parts [OF st assms(4) stnl]
  have nl: "0 \<le> nl div factor" using assms(4) by (simp add: line_nonneg)
  show le: "old \<le> lengthAdd st nl"
    using assms(3) nl mod_factor(1) [of nl] unfolding length_le_iff [of old] a by (auto split: if_splits intro: add_increasing2)
  show cols: "lengthAdd st nl mod factor + new mod factor < factor"
    using assms(5) lengthAdd_mod [OF st assms(4) stnl] by linarith
  note d = lengthDiffNonNegative_parts [OF le]
  note e = lengthDiffNonNegative_parts [OF assms(3)]
  have le': "old div factor \<le> st div factor" using assms(3) length_le_iff [of old st] by auto
  have c1: "new mod factor + lengthDiffNonNegative old (lengthAdd st nl) mod factor < factor"
    using cols lengthDiffNonNegative_mod [OF le] by linarith
  note f = lengthAdd_parts [OF assms(2) d(3) c1]
  have c2: "new mod factor + lengthDiffNonNegative old st mod factor < factor"
    using assms(5) lengthDiffNonNegative_mod [OF assms(3)] mod_factor(1) [of nl] by linarith
  note g = lengthAdd_parts [OF assms(2) e(3) c2]
  have n: "0 \<le> lengthAdd new (lengthDiffNonNegative old st)" using assms(2) e(3) by simp
  have c3: "lengthAdd new (lengthDiffNonNegative old st) mod factor + nl mod factor < factor"
    using assms(5) lengthAdd_mod [OF assms(2) e(3) c2] lengthDiffNonNegative_mod [OF assms(3)] by linarith
  note h = lengthAdd_parts [OF n assms(4) c3]
  show "lengthAdd new (lengthDiffNonNegative old (lengthAdd st nl)) = lengthAdd (lengthAdd new (lengthDiffNonNegative old st)) nl"
    by (rule length_eqI) (use nl le' in \<open>auto simp: f g h d(1,2) e(1,2) a\<close>)
qed

lemma skipEdit_shifts:
  assumes "shifts m old new" and "edits_ok (e # es) (old, new)"
  shows "shifts (skipEdit m (TextEditInfoCache_from e)) (endOffset e) (lengthAdd (edit_new_start (old, new) e) (newLength e))"
    and "translateOldToCur m (lengthToObj (lengthAdd (startOffset e) (newLength e))) = lengthAdd (edit_new_start (old, new) e) (newLength e)"
proof -
  from assms(2) have ok: "0 \<le> old" "0 \<le> new" "old \<le> startOffset e" "startOffset e \<le> endOffset e" "0 \<le> newLength e"
    "startOffset e mod factor + newLength e mod factor + new mod factor < factor" "endOffset e mod factor + new mod factor < factor"
    by (simp_all add: columns_ok_def add.assoc)
  note s = edit_end_shift [OF ok(1,2,3,5,6)]
  have le: "old \<le> endOffset e" using ok(3,4) by simp
  show *: "translateOldToCur m (lengthToObj (lengthAdd (startOffset e) (newLength e))) = lengthAdd (edit_new_start (old, new) e) (newLength e)"
    using translateOldToCur_eq [OF assms(1) ok(1,2) s(2,3)] by (simp add: s(1) edit_new_start_def)
  have b: "translateOldToCur m (lengthToObj (endOffset e)) = lengthAdd new (lengthDiffNonNegative old (endOffset e))"
    by (rule translateOldToCur_eq [OF assms(1) ok(1,2) le ok(7)])
  note d = lengthDiffNonNegative_parts [OF le]
  have "new mod factor + lengthDiffNonNegative old (endOffset e) mod factor < factor"
    using ok(7) lengthDiffNonNegative_mod [OF le] by linarith
  note a = lengthAdd_parts [OF ok(2) d(3) this]
  have line: "0 \<le> old div factor" "0 \<le> endOffset e div factor" using ok(1) le by (simp_all add: line_nonneg)
  show "shifts (skipEdit m (TextEditInfoCache_from e)) (endOffset e) (lengthAdd (edit_new_start (old, new) e) (newLength e))"
    using assms(1) line
    by (auto simp: shifts_def skipEdit_def Let_def TextEditInfoCache_from_def * b a d(1,2))
qed

lemma drop_cons:
  assumes "drop i xs = y # ys"
  shows "i < length xs" and "xs ! i = y" and "drop (Suc i) xs = ys"
proof -
  show i: "i < length xs" using assms by (metis drop_all list.simps(3) not_less)
  show "xs ! i = y" "drop (Suc i) xs = ys" using assms Cons_nth_drop_Suc [OF i] by simp_all
qed

lemma adjustNextEdit_passed:
  assumes "shifts m old new" and "edits_ok es (old, new)" and "drop (nextEditIdx m) (mapper_edits m) = map TextEditInfoCache_from es" and "new \<le> offset"
  shows "\<exists>old' new'. edit_end (take (passed es (old, new) offset) es) (old, new) = (old', new') \<and> shifts (adjustNextEdit m offset) old' new' \<and>
    edits_ok (drop (passed es (old, new) offset) es) (old', new') \<and> new' \<le> offset \<and>
    mapper_edits (adjustNextEdit m offset) = mapper_edits m \<and>
    nextEditIdx (adjustNextEdit m offset) = nextEditIdx m + passed es (old, new) offset"
  using assms
proof (induction es arbitrary: m old new)
  case Nil
  then show ?case by (simp add: adjustNextEdit.simps [of m] split: if_split)
next
  case (Cons e es)
  let ?fin = "lengthAdd (edit_new_start (old, new) e) (newLength e)"
  let ?m = "skipEdit m (TextEditInfoCache_from e)"
  have i: "nextEditIdx m < length (mapper_edits m)" "mapper_edits m ! nextEditIdx m = TextEditInfoCache_from e"
    "drop (Suc (nextEditIdx m)) (mapper_edits m) = map TextEditInfoCache_from es"
    using drop_cons [OF Cons.prems(3) [unfolded list.map]] by blast+
  note skip = skipEdit_shifts [OF Cons.prems(1,2)]
  have cur: "translateOldToCur m (endOffsetAfterObj (mapper_edits m ! nextEditIdx m)) = ?fin"
    by (simp add: i(2) TextEditInfoCache_from_def skip(2))
  have ok: "edits_ok es (endOffset e, ?fin)" using Cons.prems(2) by (simp add: edit_new_start_def)
  show ?case
  proof (cases "?fin \<le> offset")
    case True
    have "adjustNextEdit m offset = adjustNextEdit ?m offset"
      using True by (subst adjustNextEdit.simps) (simp add: i(1,2) cur [unfolded i(2)] lengthLessThanEqual_def)
    moreover have "passed (e # es) (old, new) offset = Suc (passed es (endOffset e, ?fin) offset)"
      using True by (simp add: edit_new_start_def)
    ultimately show ?thesis
      using Cons.IH [OF skip(1) ok _ True] i(3) by (simp add: edit_new_start_def)
  next
    case False
    then have "adjustNextEdit m offset = m" by (subst adjustNextEdit.simps) (simp add: cur lengthLessThanEqual_def)
    moreover have "passed (e # es) (old, new) offset = 0" using False by (simp add: edit_new_start_def)
    ultimately show ?thesis using Cons.prems by simp
  qed
qed

lemma adjustNextEdit_again:
  assumes "offset \<le> offset'"
  shows "adjustNextEdit (adjustNextEdit m offset) offset' = adjustNextEdit m offset'"
  using assms
proof (induction m offset rule: adjustNextEdit.induct)
  case (1 m offset)
  show ?case
  proof (cases "nextEditIdx m < length (mapper_edits m) \<and>
         lengthLessThanEqual (translateOldToCur m (endOffsetAfterObj (mapper_edits m ! nextEditIdx m))) offset")
    case True
    then have "lengthLessThanEqual (translateOldToCur m (endOffsetAfterObj (mapper_edits m ! nextEditIdx m))) offset'"
      using "1.prems" by (simp add: lengthLessThanEqual_def)
    then have "adjustNextEdit m offset' = adjustNextEdit (skipEdit m (mapper_edits m ! nextEditIdx m)) offset'"
      using True by (subst adjustNextEdit.simps) simp
    moreover have "adjustNextEdit m offset = adjustNextEdit (skipEdit m (mapper_edits m ! nextEditIdx m)) offset"
      using True by (subst adjustNextEdit.simps) simp
    ultimately show ?thesis using "1.IH" [OF True "1.prems"] by simp
  next
    case False
    then have "adjustNextEdit m offset = m" by (subst adjustNextEdit.simps) (simp only: if_False)
    then show ?thesis by simp
  qed
qed

lemma adjustNextEdit_earlier:
  "\<forall>q \<in> set earlier. q \<le> offset \<Longrightarrow> adjustNextEdit (foldl adjustNextEdit m earlier) offset = adjustNextEdit m offset"
  by (induction earlier rule: rev_induct) (simp_all add: adjustNextEdit_again)

lemma edits_ok_nonneg: "edits_ok es p \<Longrightarrow> 0 \<le> fst p \<and> 0 \<le> snd p"
  by (cases es; cases p) auto

lemma edit_end_old: "fst (edit_end es p) = fst p \<or> fst (edit_end es p) \<in> endOffset ` set es"
  by (induction es p rule: edit_end.induct) auto

text \<open>C22. The mapper answers as lengths add up. After any earlier questions about positions that are not larger,
  with \<open>k\<close> edits behind the position: the position before the edits lies as far behind the end of the \<open>k\<close>-th
  edit as the position lies behind its new end, and the next change is where the start of the next edit has
  moved to.\<close>

theorem BeforeEditPositionMapper_correct:
  assumes "edits_ok es (0, 0)" and "0 \<le> offset" and "\<forall>q \<in> set earlier. q \<le> offset"
    and "\<forall>e \<in> set es. columns_ok [offset, endOffset e]"
  shows "let m = foldl adjustNextEdit (BeforeEditPositionMapper_new es) earlier;
      k = passed es (0, 0) offset; (old, new) = edit_end (take k es) (0, 0)
    in fst (getOffsetBeforeChange m offset) = lengthAdd old (lengthDiffNonNegative new offset) \<and>
       fst (getDistanceToNextChange m offset) =
         (if k < length es then Some (lengthDiffNonNegative offset (edit_new_start (old, new) (es ! k))) else None)"
proof -
  let ?m = "adjustNextEdit (BeforeEditPositionMapper_new es) offset"
  let ?k = "passed es (0, 0) offset"
  have start: "shifts (BeforeEditPositionMapper_new es) 0 0" by (simp add: shifts_def BeforeEditPositionMapper_new_def)
  obtain old new where on: "edit_end (take ?k es) (0, 0) = (old, new)" and sh: "shifts ?m old new"
    and ok: "edits_ok (drop ?k es) (old, new)" and le: "new \<le> offset"
    and ed: "mapper_edits ?m = map TextEditInfoCache_from es" and idx: "nextEditIdx ?m = ?k"
    using adjustNextEdit_passed [OF start assms(1), of offset] assms(2) by (auto simp: BeforeEditPositionMapper_new_def)
  have nonneg: "0 \<le> old" "0 \<le> new" using edits_ok_nonneg [OF ok] by simp_all
  have "old = 0 \<or> old \<in> endOffset ` set es"
    using edit_end_old [of "take ?k es" "(0, 0)"] on set_take_subset [of ?k es] by auto
  then have "offset mod factor + old mod factor < factor" using assms(4) by (auto simp: columns_ok_def)
  then have before: "translateCurToOld ?m offset = lengthAdd old (lengthDiffNonNegative new offset)"
    by (rule translateCurToOld_eq [OF sh nonneg le])
  have next_start: "translateOldToCur ?m (offsetObj (mapper_edits ?m ! ?k)) = edit_new_start (old, new) (es ! ?k)" if "?k < length es"
  proof -
    have "edits_ok (es ! ?k # drop (Suc ?k) es) (old, new)" using ok that by (simp add: Cons_nth_drop_Suc)
    then have "old \<le> startOffset (es ! ?k)" "startOffset (es ! ?k) mod factor + newLength (es ! ?k) mod factor + new mod factor < factor"
      by (simp_all add: columns_ok_def add.assoc)
    then have "translateOldToCur ?m (lengthToObj (startOffset (es ! ?k))) = edit_new_start (old, new) (es ! ?k)"
      using translateOldToCur_eq [OF sh nonneg, of "startOffset (es ! ?k)"] mod_factor(1) [of "newLength (es ! ?k)"]
      by (simp add: edit_new_start_def)
    then show ?thesis using that by (simp add: ed TextEditInfoCache_from_def)
  qed
  show ?thesis
    using before next_start on adjustNextEdit_earlier [OF assms(3)] ed idx
    by (simp add: Let_def getOffsetBeforeChange_def getDistanceToNextChange_def)
qed

text \<open>A word on line 1 replaced by a line and a half: a position on that line behind it and the next edit.\<close>

theorem BeforeEditPositionMapper_correct_witness:
  "fst (getOffsetBeforeChange (BeforeEditPositionMapper_new
      [\<lparr>startOffset = toLength 1 2, endOffset = toLength 1 5, newLength = toLength 1 4\<rparr>,
       \<lparr>startOffset = toLength 3 0, endOffset = toLength 3 1, newLength = toLength 0 2\<rparr>]) (toLength 2 6)) = toLength 1 7 \<and>
   fst (getDistanceToNextChange (BeforeEditPositionMapper_new
      [\<lparr>startOffset = toLength 1 2, endOffset = toLength 1 5, newLength = toLength 1 4\<rparr>,
       \<lparr>startOffset = toLength 3 0, endOffset = toLength 3 1, newLength = toLength 0 2\<rparr>]) (toLength 2 6)) = Some (toLength 2 0)"
  using BeforeEditPositionMapper_correct [of "[\<lparr>startOffset = toLength 1 2, endOffset = toLength 1 5, newLength = toLength 1 4\<rparr>,
       \<lparr>startOffset = toLength 3 0, endOffset = toLength 3 1, newLength = toLength 0 2\<rparr>]" "toLength 2 6" "[]"]
  by (simp add: columns_ok_def toLength_def factor_def lengthAdd_def lengthDiffNonNegative_def Let_def js_rem_def edit_new_start_def lengthZero_def)

end
