(* ===== verification/Bracket_Reader.thy ===== *)
theory Bracket_Reader
  imports Bracket_Ast
begin

text \<open>
  The reader that finds reusable nodes of an old tree:
  \<open>src/vs/editor/common/model/bracketPairsTextModelPart/bracketPairsTree/nodeReader.ts\<close>. Its three stacks
  \<open>nextNodes\<close>, \<open>offsets\<close> and \<open>idxs\<close> are the current node and one list of the nodes above it here: an index
  is kept for every node but the last. The reader does what an algorithm on a list of the
  nodes still to visit does (\<open>NodeReader_refines_worklist\<close>).
\<close>

section \<open>The code\<close>

record 'b NodeReader =
  current :: "('b AstNode \<times> Length) option"
  parents :: "('b AstNode \<times> Length \<times> nat) list"
  lastOffset :: Length

definition NodeReader_new :: "'b AstNode \<Rightarrow> 'b NodeReader" where
  "NodeReader_new node = \<lparr>current = Some (node, lengthZero), parents = [], lastOffset = lengthZero\<rparr>"

definition childAt :: "'b AstNode \<Rightarrow> nat \<Rightarrow> 'b AstNode option" where
  "childAt node idx = (if idx < childrenLength node then (case getChild node idx of Inr c \<Rightarrow> c | Inl _ \<Rightarrow> None) else None)"

text \<open>The index of the first child at or after \<open>idx\<close>; the code is given the index before.\<close>

function getNextChildIdx :: "'b AstNode \<Rightarrow> nat \<Rightarrow> nat option" where
  "getNextChildIdx node idx =
     (if idx \<ge> childrenLength node then None
      else if childAt node idx \<noteq> None then Some idx
      else getNextChildIdx node (idx + 1))"
  by pat_completeness auto
termination by (relation "measure (\<lambda>(node, idx). childrenLength node - idx)") auto

declare getNextChildIdx.simps [simp del]

fun nextNodeAfter :: "'b AstNode \<times> Length \<Rightarrow> ('b AstNode \<times> Length \<times> nat) list \<Rightarrow>
    ('b AstNode \<times> Length) option \<times> ('b AstNode \<times> Length \<times> nat) list" where
  "nextNodeAfter (node, offset) [] = (None, [])"
| "nextNodeAfter (node, offset) ((parent, parentOffset, idx) # ps) =
     (case getNextChildIdx parent (idx + 1) of
        Some nextChildIdx \<Rightarrow>
          (map_option (\<lambda>c. (c, lengthAdd offset (node_length node))) (childAt parent nextChildIdx),
           (parent, parentOffset, nextChildIdx) # ps)
      | None \<Rightarrow> nextNodeAfter (parent, parentOffset) ps)"

definition nextNodeAfterCurrent :: "'b NodeReader \<Rightarrow> 'b NodeReader" where
  "nextNodeAfterCurrent r =
     (case current r of
        None \<Rightarrow> r
      | Some cur \<Rightarrow> let (c, ps) = nextNodeAfter cur (parents r) in r\<lparr>current := c, parents := ps\<rparr>)"

definition descend :: "'b NodeReader \<Rightarrow> 'b AstNode \<Rightarrow> Length \<Rightarrow> nat \<Rightarrow> 'b NodeReader" where
  "descend r node offset idx =
     r\<lparr>current := map_option (\<lambda>c. (c, offset)) (childAt node idx), parents := (node, offset, idx) # parents r\<rparr>"

section \<open>The work that is left\<close>

definition childOpts :: "'b AstNode \<Rightarrow> 'b AstNode option list" where
  "childOpts node = map (childAt node) [0..<childrenLength node]"

definition weight :: "'b AstNode \<Rightarrow> nat" where
  "weight n = 2 * size n + 1"

lemma weight_pos: "0 < weight n"
  by (simp add: weight_def)

definition opt_weight :: "'b AstNode option \<Rightarrow> nat" where
  "opt_weight c = (case c of Some n \<Rightarrow> weight n | None \<Rightarrow> 0)"

definition work :: "'b NodeReader \<Rightarrow> nat" where
  "work r = (case current r of None \<Rightarrow> 0
     | Some (n, _) \<Rightarrow> weight n + sum_list (map (\<lambda>(p, _, i). sum_list (map opt_weight (drop (Suc i) (childOpts p)))) (parents r)))"

lemma upt_2_3: "[0..<2] = [0, 1 :: nat]" "[0..<3] = [0, 1, 2 :: nat]"
  by (simp_all add: upt_rec)

lemma childOpts_Array: "childOpts (ArrayListAstNode im l h xs ids) = map Some xs"
  by (rule nth_equalityI) (simp_all add: childOpts_def childAt_def)

lemma childOpts_eq [simp]:
  "childOpts (PairAstNode l a b' c ids) = [Some a, b', c]"
  "childOpts (TwoThreeListAstNode im l h a b c ids) = (case c of Some c' \<Rightarrow> [Some a, Some b, Some c'] | None \<Rightarrow> [Some a, Some b])"
  "childOpts (ArrayListAstNode im l h xs ids) = map Some xs"
  "childOpts (TextAstNode l) = []" "childOpts (BracketAstNode l k ids) = []" "childOpts (InvalidBracketAstNode ids l) = []"
  by (simp_all add: childOpts_Array) (simp_all add: childOpts_def childAt_def upt_2_3 split: option.split)

lemma childOpts_weight: "sum_list (map opt_weight (childOpts n)) < weight n"
proof (cases n)
  case (ArrayListAstNode im l h xs ids)
  have "sum_list (map opt_weight (map Some xs)) \<le> 2 * size_list size xs"
    by (induction xs) (auto simp: opt_weight_def weight_def)
  then show ?thesis using ArrayListAstNode by (simp add: childOpts_eq weight_def)
qed (auto simp: childOpts_eq opt_weight_def weight_def split: option.split)

lemma childOpts_nth: "i < childrenLength n \<Longrightarrow> childOpts n ! i = childAt n i"
  by (simp add: childOpts_def)

lemma length_childOpts [simp]: "length (childOpts n) = childrenLength n"
  by (simp add: childOpts_def)

text \<open>The missing children are skipped.\<close>

lemma getNextChildIdx_Some: "getNextChildIdx n i = Some j \<Longrightarrow> j < childrenLength n \<and> childAt n j \<noteq> None"
  by (induction n i rule: getNextChildIdx.induct) (subst (asm) getNextChildIdx.simps, auto split: if_splits)

lemma getNextChildIdx_drop:
  "dropWhile ((=) None) (drop i (childOpts n)) = (case getNextChildIdx n i of None \<Rightarrow> [] | Some j \<Rightarrow> drop j (childOpts n))"
proof (induction n i rule: getNextChildIdx.induct)
  case (1 n i)
  show ?case
  proof (cases "i < childrenLength n")
    case True
    then have d: "drop i (childOpts n) = childAt n i # drop (Suc i) (childOpts n)"
      by (metis Cons_nth_drop_Suc childOpts_nth length_childOpts)
    then show ?thesis using 1 True by (cases "childAt n i") (simp_all add: getNextChildIdx.simps [of n i])
  next
    case False
    then show ?thesis by (simp add: getNextChildIdx.simps [of n i])
  qed
qed

lemma dropWhile_None_sum: "sum_list (map opt_weight (dropWhile ((=) None) xs)) = sum_list (map opt_weight xs)"
  by (induction xs) (auto simp: opt_weight_def)

lemma next_weight:
  "sum_list (map opt_weight (drop i (childOpts n))) =
     (case getNextChildIdx n i of
        None \<Rightarrow> 0
      | Some j \<Rightarrow> opt_weight (childAt n j) + sum_list (map opt_weight (drop (Suc j) (childOpts n))))"
proof -
  have "sum_list (map opt_weight (drop i (childOpts n))) =
      (case getNextChildIdx n i of None \<Rightarrow> 0 | Some j \<Rightarrow> sum_list (map opt_weight (drop j (childOpts n))))"
    using dropWhile_None_sum [of "drop i (childOpts n)"] by (simp add: getNextChildIdx_drop split: option.splits)
  also have "\<dots> = (case getNextChildIdx n i of None \<Rightarrow> 0
      | Some j \<Rightarrow> opt_weight (childAt n j) + sum_list (map opt_weight (drop (Suc j) (childOpts n))))"
    by (auto split: option.split dest!: getNextChildIdx_Some simp flip: Cons_nth_drop_Suc simp: childOpts_nth)
  finally show ?thesis .
qed

definition frames_work :: "('b AstNode \<times> Length \<times> nat) list \<Rightarrow> nat" where
  "frames_work ps = sum_list (map (\<lambda>(p, _, i). sum_list (map opt_weight (drop (Suc i) (childOpts p)))) ps)"

lemma frames_work_Cons [simp]: "frames_work ((p, po, i) # ps) = sum_list (map opt_weight (drop (Suc i) (childOpts p))) + frames_work ps"
  "frames_work [] = 0"
  by (simp_all add: frames_work_def)

lemma nextNodeAfter_work:
  "(case fst (nextNodeAfter cur ps) of None \<Rightarrow> 0 | Some (n, _) \<Rightarrow> weight n + frames_work (snd (nextNodeAfter cur ps))) \<le> frames_work ps"
proof (induction cur ps rule: nextNodeAfter.induct)
  case (2 node offset p po i ps)
  then show ?case
    using next_weight [of "Suc i" p] by (auto simp: opt_weight_def split: option.splits)
qed simp

lemma work_next: "current r = Some cur \<Longrightarrow> work (nextNodeAfterCurrent r) < work r"
  using nextNodeAfter_work [of cur "parents r"]
  by (cases cur) (auto simp: work_def nextNodeAfterCurrent_def Let_def weight_def frames_work_def split: option.splits prod.splits)

lemma work_descend:
  assumes "current r = Some (n, offset)" and "getNextChildIdx n 0 = Some i"
  shows "work (descend r n offset i) < work r"
proof -
  have "opt_weight (childAt n i) + sum_list (map opt_weight (drop (Suc i) (childOpts n))) < weight n"
    using childOpts_weight [of n] next_weight [of 0 n] assms(2) by simp
  then show ?thesis
    using assms(1) by (auto simp: work_def descend_def opt_weight_def split: option.splits)
qed

section \<open>The loop\<close>

function readLoop :: "Length \<Rightarrow> ('b AstNode \<Rightarrow> bool result) \<Rightarrow> 'b NodeReader \<Rightarrow> ('b AstNode option \<times> 'b NodeReader) result" where
  "readLoop offset predicate r =
     (case current r of
        None \<Rightarrow> Inr (None, r)
      | Some (curNode, curNodeOffset) \<Rightarrow>
          if lengthLessThan offset curNodeOffset then Inr (None, r)
          else if lengthLessThan curNodeOffset offset then
            if lengthAdd curNodeOffset (node_length curNode) \<le> offset
            then readLoop offset predicate (nextNodeAfterCurrent r)
            else (case getNextChildIdx curNode 0 of
                    Some nextChildIdx \<Rightarrow> readLoop offset predicate (descend r curNode curNodeOffset nextChildIdx)
                  | None \<Rightarrow> readLoop offset predicate (nextNodeAfterCurrent r))
          else
            bindr (predicate curNode) (\<lambda>b.
              if b then Inr (Some curNode, nextNodeAfterCurrent r)
              else (case getNextChildIdx curNode 0 of
                      None \<Rightarrow> Inr (None, nextNodeAfterCurrent r)
                    | Some nextChildIdx \<Rightarrow> readLoop offset predicate (descend r curNode curNodeOffset nextChildIdx))))"
  by pat_completeness auto
termination
  by (relation "measure (\<lambda>(offset, predicate, r). work r)") (auto simp: work_next work_descend)

declare readLoop.simps [simp del]

definition readLongestNodeAt ::
  "'b NodeReader \<Rightarrow> Length \<Rightarrow> ('b AstNode \<Rightarrow> bool result) \<Rightarrow> ('b AstNode option \<times> 'b NodeReader) result" where
  "readLongestNodeAt r offset predicate =
     (if lengthLessThan offset (lastOffset r) then Inl PlainError
      else readLoop offset predicate (r\<lparr>lastOffset := offset\<rparr>))"

section \<open>A list of nodes to visit\<close>

fun spread :: "Length \<Rightarrow> 'b AstNode option list \<Rightarrow> ('b AstNode \<times> Length) list" where
  "spread offset [] = []"
| "spread offset (None # cs) = spread offset cs"
| "spread offset (Some c # cs) = (c, offset) # spread (lengthAdd offset (node_length c)) cs"

fun pending_nodes :: "'b AstNode \<times> Length \<Rightarrow> ('b AstNode \<times> Length \<times> nat) list \<Rightarrow> ('b AstNode \<times> Length) list" where
  "pending_nodes (n, offset) [] = []"
| "pending_nodes (n, offset) ((p, po, i) # ps) =
     spread (lengthAdd offset (node_length n)) (drop (Suc i) (childOpts p)) @ pending_nodes (p, po) ps"

definition todo :: "'b NodeReader \<Rightarrow> ('b AstNode \<times> Length) list" where
  "todo r = (case current r of None \<Rightarrow> [] | Some cur \<Rightarrow> cur # pending_nodes cur (parents r))"

lemma spread_dropWhile: "spread offset (dropWhile ((=) None) cs) = spread offset cs"
  by (induction cs) auto

lemma spread_next:
  "spread offset (drop i (childOpts n)) =
     (case getNextChildIdx n i of
        None \<Rightarrow> []
      | Some j \<Rightarrow> (the (childAt n j), offset) # spread (lengthAdd offset (node_length (the (childAt n j)))) (drop (Suc j) (childOpts n)))"
proof -
  have "spread offset (drop i (childOpts n)) = spread offset (case getNextChildIdx n i of None \<Rightarrow> [] | Some j \<Rightarrow> drop j (childOpts n))"
    by (metis getNextChildIdx_drop spread_dropWhile)
  then show ?thesis
    by (auto split: option.split dest!: getNextChildIdx_Some simp flip: Cons_nth_drop_Suc simp: childOpts_nth)
qed

lemma todo_next: "current r = Some cur \<Longrightarrow> todo (nextNodeAfterCurrent r) = pending_nodes cur (parents r)"
proof -
  have *: "(case fst (nextNodeAfter cur ps) of None \<Rightarrow> [] | Some c \<Rightarrow> c # pending_nodes c (snd (nextNodeAfter cur ps))) = pending_nodes cur ps" for ps
  proof (induction cur ps rule: nextNodeAfter.induct)
    case (2 node offset p po i ps)
    then show ?case
      using spread_next [of "lengthAdd offset (node_length node)" "Suc i" p]
      by (auto split: option.splits dest!: getNextChildIdx_Some)
  qed simp
  assume "current r = Some cur"
  then show ?thesis using * [of "parents r"]
    by (cases "nextNodeAfter cur (parents r)"; cases "fst (nextNodeAfter cur (parents r))")
      (simp_all add: todo_def nextNodeAfterCurrent_def Let_def)
qed

lemma todo_descend:
  "getNextChildIdx n 0 = Some i \<Longrightarrow> todo (descend r n offset i) = spread offset (childOpts n) @ pending_nodes (n, offset) (parents r)"
  using spread_next [of offset 0 n] by (auto simp: todo_def descend_def dest!: getNextChildIdx_Some)

definition list_work :: "('b AstNode \<times> Length) list \<Rightarrow> nat" where
  "list_work xs = sum_list (map (\<lambda>(n, _). weight n) xs)"

lemma list_work_Cons [simp]: "list_work [] = 0" "list_work ((n, offset) # xs) = weight n + list_work xs"
  by (simp_all add: list_work_def)

lemma list_work_spread: "list_work (spread offset cs @ xs) = sum_list (map opt_weight cs) + list_work xs"
  by (induction offset cs rule: spread.induct) (auto simp: opt_weight_def list_work_def)

text \<open>A node that lies before the position and ends behind it, or that starts at the position and is refused,
  is replaced by its children.\<close>

function read_list :: "Length \<Rightarrow> ('b AstNode \<Rightarrow> bool result) \<Rightarrow> ('b AstNode \<times> Length) list \<Rightarrow>
    ('b AstNode option \<times> ('b AstNode \<times> Length) list) result" where
  "read_list offset predicate [] = Inr (None, [])"
| "read_list offset predicate ((n, o') # xs) =
     (if offset < o' then Inr (None, (n, o') # xs)
      else if o' < offset then
        read_list offset predicate (if lengthAdd o' (node_length n) \<le> offset then xs else spread o' (childOpts n) @ xs)
      else
        bindr (predicate n) (\<lambda>b.
          if b then Inr (Some n, xs)
          else if spread o' (childOpts n) = [] then Inr (None, xs)
          else read_list offset predicate (spread o' (childOpts n) @ xs)))"
  by pat_completeness auto
termination
  by (relation "measure (\<lambda>(offset, predicate, xs). list_work xs)") (auto simp: list_work_spread childOpts_weight weight_pos)

lemma getNextChildIdx_None_spread: "getNextChildIdx n 0 = None \<longleftrightarrow> spread offset (childOpts n) = []"
  using spread_next [of offset 0 n] by (auto split: option.splits)

lemma read_list_Cons:
  assumes "\<not> offset < o'"
  shows "read_list offset predicate ((n, o') # xs) =
     (if o' < offset then
        if lengthAdd o' (node_length n) \<le> offset then read_list offset predicate xs
        else (case getNextChildIdx n 0 of
                Some _ \<Rightarrow> read_list offset predicate (spread o' (childOpts n) @ xs)
              | None \<Rightarrow> read_list offset predicate xs)
      else
        bindr (predicate n) (\<lambda>b.
          if b then Inr (Some n, xs)
          else (case getNextChildIdx n 0 of
                  None \<Rightarrow> Inr (None, xs)
                | Some _ \<Rightarrow> read_list offset predicate (spread o' (childOpts n) @ xs))))"
  using assms getNextChildIdx_None_spread [of n o']
  by (cases "getNextChildIdx n 0") (auto intro!: arg_cong [where f = "bindr _"])

declare read_list.simps(2) [simp del]

lemma readLoop_refines:
  "bindr (readLoop offset predicate r) (\<lambda>(m, r'). Inr (m, todo r')) = read_list offset predicate (todo r)"
proof (induction offset predicate r rule: readLoop.induct)
  case (1 offset predicate r)
  show ?case
  proof (cases "current r")
    case None
    then show ?thesis by (simp add: readLoop.simps [of _ _ r] todo_def)
  next
    case (Some cur)
    obtain n o' where cur: "cur = (n, o')" by (cases cur)
    have t: "todo r = (n, o') # pending_nodes (n, o') (parents r)" using Some cur by (simp add: todo_def)
    note nxt = todo_next [OF Some [unfolded cur]]
    consider "offset < o'" | "o' < offset" "lengthAdd o' (node_length n) \<le> offset"
      | "o' < offset" "\<not> lengthAdd o' (node_length n) \<le> offset" | "o' = offset"
      by linarith
    then show ?thesis
    proof cases
      case 1
      then show ?thesis using t by (simp add: readLoop.simps [of _ _ r] read_list.simps(2) Some cur lengthLessThan_def)
    next
      case 2
      then have "readLoop offset predicate r = readLoop offset predicate (nextNodeAfterCurrent r)"
        by (subst readLoop.simps) (simp add: Some cur lengthLessThan_def)
      then show ?thesis using "1.IH"(1) [OF Some cur [symmetric]] 2 by (simp add: t nxt lengthLessThan_def read_list_Cons)
    next
      case 3
      have step: "readLoop offset predicate r = (case getNextChildIdx n 0 of
          Some i \<Rightarrow> readLoop offset predicate (descend r n o' i) | None \<Rightarrow> readLoop offset predicate (nextNodeAfterCurrent r))"
        using 3 by (subst readLoop.simps) (simp add: Some cur lengthLessThan_def)
      show ?thesis
      proof (cases "getNextChildIdx n 0")
        case None
        then show ?thesis using "1.IH"(2) [OF Some cur [symmetric]] 3 step by (simp add: t nxt lengthLessThan_def read_list_Cons)
      next
        case (Some i)
        then show ?thesis using "1.IH"(3) [OF \<open>current r = Some cur\<close> cur [symmetric]] 3 step todo_descend [OF Some, of r o']
          by (simp add: t lengthLessThan_def read_list_Cons)
      qed
    next
      case 4
      have step: "readLoop offset predicate r =
          bindr (predicate n) (\<lambda>b.
              if b then Inr (Some n, nextNodeAfterCurrent r)
              else (case getNextChildIdx n 0 of
                      None \<Rightarrow> Inr (None, nextNodeAfterCurrent r)
                    | Some i \<Rightarrow> readLoop offset predicate (descend r n o' i)))"
        using 4 by (subst readLoop.simps) (auto simp: Some cur lengthLessThan_def)
      show ?thesis
      proof (cases "predicate n")
        case (Inl e)
        then show ?thesis using 4 step by (simp add: t read_list_Cons)
      next
        case (Inr b)
        show ?thesis
        proof (cases "b \<or> getNextChildIdx n 0 = None")
          case True
          then show ?thesis using 4 step Inr nxt by (cases b) (simp_all add: t read_list_Cons)
        next
          case False
          then obtain i where i: "getNextChildIdx n 0 = Some i" "\<not> b" by auto
          then show ?thesis using "1.IH"(4) [OF Some cur [symmetric] _ _ Inr i(2,1)] 4 step Inr todo_descend [OF i(1), of r o']
            by (simp add: t lengthLessThan_def read_list_Cons)
        qed
      qed
    qed
  qed
qed

text \<open>All nodes of a tree with their offsets.\<close>

inductive node_at :: "('b AstNode \<times> Length) list \<Rightarrow> 'b AstNode \<Rightarrow> Length \<Rightarrow> bool" where
  here: "(n, offset) \<in> set xs \<Longrightarrow> node_at xs n offset"
| child: "node_at xs p offset \<Longrightarrow> node_at (spread offset (childOpts p)) n offset' \<Longrightarrow> node_at xs n offset'"

lemma node_at_mono: "node_at xs n offset \<Longrightarrow> set xs \<subseteq> set ys \<Longrightarrow> node_at ys n offset"
  by (induction arbitrary: ys rule: node_at.induct) (auto intro: node_at.intros)

lemma node_at_spread: "node_at (spread o' (childOpts p) @ xs) n offset \<Longrightarrow> node_at ((p, o') # xs) n offset"
proof (induction "spread o' (childOpts p) @ xs" n offset rule: node_at.induct)
  case (here n offset)
  have "node_at ((p, o') # xs) p o'" by (rule node_at.here) simp
  then show ?case using here by (auto intro: node_at.intros)
next
  case (child q offset n offset')
  then show ?case by (blast intro: node_at.intros)
qed

lemma read_list_node_at:
  "read_list offset predicate xs = Inr (Some m, ys) \<Longrightarrow> predicate m = Inr True \<and> node_at xs m offset"
proof (induction offset predicate xs rule: read_list.induct)
  case (2 offset predicate n o' xs)
  consider "o' < offset" | "o' = offset" using "2.prems" by (auto simp: read_list.simps(2) split: if_splits)
  then show ?case
  proof cases
    case 1
    then show ?thesis using 2 node_at_spread [of o' n xs m offset] node_at_mono [of xs m offset "(n, o') # xs"]
      by (auto simp: read_list.simps(2) split: if_splits)
  next
    case o: 2
    then obtain b where b: "predicate n = Inr b" using "2.prems" by (auto simp: read_list.simps(2) bindr_eq_Inr_iff)
    show ?thesis
    proof (cases b)
      case True
      then show ?thesis using "2.prems" o b by (auto simp: read_list.simps(2) intro: node_at.here)
    next
      case False
      then have "read_list offset predicate (spread o' (childOpts n) @ xs) = Inr (Some m, ys)" "spread o' (childOpts n) \<noteq> []"
        using "2.prems" o b by (auto simp: read_list.simps(2) split: if_splits)
      then show ?thesis using "2.IH"(2) o b False node_at_spread [of o' n xs m offset] by auto
    qed
  qed
qed simp

text \<open>C21. The reader with its stacks does what the algorithm on a list of nodes does: for positions that do not go back
  it returns the same node and leaves the same nodes to visit. A node it returns was left to visit or lies below one
  that was, starts exactly at the position, and satisfies the predicate.\<close>

theorem NodeReader_refines_worklist:
  assumes "lastOffset r \<le> offset"
  shows "bindr (readLongestNodeAt r offset predicate) (\<lambda>(m, r'). Inr (m, todo r')) = read_list offset predicate (todo r) \<and>
    (\<forall>m r'. readLongestNodeAt r offset predicate = Inr (Some m, r') \<longrightarrow> predicate m = Inr True \<and> node_at (todo r) m offset)"
proof -
  let ?r = "r\<lparr>lastOffset := offset\<rparr>"
  have "readLongestNodeAt r offset predicate = readLoop offset predicate ?r"
    using assms by (simp add: readLongestNodeAt_def lengthLessThan_def)
  moreover have "todo ?r = todo r" by (simp add: todo_def split: option.split)
  moreover have "read_list offset predicate (todo ?r) = Inr (Some m, todo r')" if "readLoop offset predicate ?r = Inr (Some m, r')" for m r'
    using readLoop_refines [of offset predicate ?r] that by simp
  ultimately show ?thesis using readLoop_refines [of offset predicate ?r] read_list_node_at by metis
qed

text \<open>The second child of a list, at an offset inside the list.\<close>

theorem NodeReader_refines_worklist_witness:
  "bindr (readLongestNodeAt (NodeReader_new (TwoThreeListAstNode False 5 1 (TextAstNode 2 :: nat AstNode) (TextAstNode 3) None
      SmallImmutableSet_getEmpty)) 2 (\<lambda>_. Inr True)) (\<lambda>(m, r'). Inr (m, todo r')) = Inr (Some (TextAstNode 3), [])"
  using NodeReader_refines_worklist [of "NodeReader_new (TwoThreeListAstNode False 5 1 (TextAstNode 2 :: nat AstNode) (TextAstNode 3) None
      SmallImmutableSet_getEmpty)" 2 "\<lambda>_. Inr True"]
  by (simp add: NodeReader_new_def todo_def read_list.simps(2) lengthZero_def lengthAdd_def factor_def)

end
