(* ===== verification/Bracket_Tokenizer.thy ===== *)
theory Bracket_Tokenizer
  imports Bracket_Ast "HOL-Library.AList" "HOL-Library.List_Lexorder"
begin

text \<open>
  Bracket tokens: \<open>brackets.ts\<close> and \<open>tokenizer.ts\<close> of
  \<open>src/vs/editor/common/model/bracketPairsTextModelPart/bracketPairsTree\<close>, and \<open>DenseKeyProvider\<close> of
  \<open>smallImmutableSet.ts\<close>. \<open>FastTokenizer\<close> splits a whole text with one regular expression, an alternative of the
  bracket texts; \<open>TextBufferTokenizer\<close> puts a peeked token in front of another reader. The language's case tables are
  the parameters \<open>canon\<close> (of a regular expression that ignores case) and \<open>toLowerCase\<close>. The tokens of a text
  have the length of the text (\<open>FastTokenizer_covers_text\<close>).
\<close>

section \<open>Tokens\<close>

datatype TokenKind = TextToken | OpeningBracket | ClosingBracket

record 'b BracketToken =
  token_length :: Length
  token_kind :: TokenKind
  bracketId :: int
  bracketIds :: SmallImmutableSet
  astNode :: "'b AstNode option"

definition BracketToken_new :: "Length \<Rightarrow> TokenKind \<Rightarrow> int \<Rightarrow> SmallImmutableSet \<Rightarrow> 'b AstNode option \<Rightarrow> 'b BracketToken" where
  "BracketToken_new l kind bid ids node = \<lparr>token_length = l, token_kind = kind, bracketId = bid, bracketIds = ids, astNode = node\<rparr>"

text \<open>The interface \<open>Tokenizer\<close>, over the states \<open>'s\<close> of an implementation.\<close>

record ('s, 'b) Tokenizer =
  tk_offset :: "'s \<Rightarrow> Length"
  tk_read :: "'s \<Rightarrow> 'b BracketToken option \<times> 's"
  tk_peek :: "'s \<Rightarrow> 'b BracketToken option \<times> 's"
  tk_skip :: "'s \<Rightarrow> Length \<Rightarrow> 's result"

text \<open>A token carries the node the parser uses for it.\<close>

definition token_ok :: "'b BracketToken \<Rightarrow> bool" where
  "token_ok t \<longleftrightarrow> 0 \<le> token_length t \<and>
     (case token_kind t of
        TextToken \<Rightarrow> astNode t = Some (TextAstNode (token_length t))
      | _ \<Rightarrow> (\<exists>k. astNode t = Some (BracketAstNode (token_length t) k (bracketIds t))) \<and>
          0 \<le> bracketId t \<and> nat (bracketId t) \<in> elements (bracketIds t))"

section \<open>The brackets of a language\<close>

type_synonym 'a DenseKeyProvider = "('a \<times> nat) list"

definition DenseKeyProvider_getKey :: "'a DenseKeyProvider \<Rightarrow> 'a \<Rightarrow> nat \<times> 'a DenseKeyProvider" where
  "DenseKeyProvider_getKey ks value =
     (case map_of ks value of
        Some existing \<Rightarrow> (existing, ks)
      | None \<Rightarrow> (length ks, AList.update value (length ks) ks))"

definition DenseKeyProvider_reverseLookup :: "'a DenseKeyProvider \<Rightarrow> nat \<Rightarrow> 'a option" where
  "DenseKeyProvider_reverseLookup ks value = map_option fst (find (\<lambda>(_, v). v = value) ks)"

record BracketKind =
  bracketText :: utf16
  languageId :: utf16

text \<open>A closing bracket with the opening brackets it closes.\<close>

record ClosingBracketKind = BracketKind +
  openingBrackets :: "BracketKind list"

type_synonym Brackets = "(utf16 \<times> BracketKind BracketToken) list"

text \<open>The keys are the strings \<open>${languageId}:::${bracketText}\<close>.\<close>

type_synonym BracketKeys = "utf16 DenseKeyProvider"

definition BracketTokens_getId :: "BracketKind \<Rightarrow> BracketKeys \<Rightarrow> nat \<times> BracketKeys" where
  "BracketTokens_getId info ks = DenseKeyProvider_getKey ks (languageId info @ [58, 58, 58] @ bracketText info)"

definition addOpening :: "BracketKind \<Rightarrow> Brackets \<times> BracketKeys \<Rightarrow> Brackets \<times> BracketKeys" where
  "addOpening b = (\<lambda>(m, ks).
     let l = toLength 0 (int (length (bracketText b)));
         (openingTextId, ks') = BracketTokens_getId b ks;
         ids = SmallImmutableSet_add SmallImmutableSet_getEmpty openingTextId
     in (AList.update (bracketText b)
           (BracketToken_new l OpeningBracket (int openingTextId) ids (Some (BracketAstNode l b ids))) m, ks'))"

fun closingIds :: "BracketKind list \<Rightarrow> SmallImmutableSet \<Rightarrow> BracketKeys \<Rightarrow> SmallImmutableSet \<times> BracketKeys" where
  "closingIds [] ids ks = (ids, ks)"
| "closingIds (b # bs) ids ks =
     (let (i, ks') = BracketTokens_getId b ks in closingIds bs (SmallImmutableSet_add ids i) ks')"

text \<open>The identifier of the first opening bracket; there is one for every closing bracket.\<close>

definition addClosing :: "ClosingBracketKind \<Rightarrow> Brackets \<times> BracketKeys \<Rightarrow> (Brackets \<times> BracketKeys) result" where
  "addClosing b = (\<lambda>(m, ks).
     let l = toLength 0 (int (length (bracketText b)));
         (ids, ks') = closingIds (openingBrackets b) SmallImmutableSet_getEmpty ks
     in if openingBrackets b = [] then Inl TypeErr
        else
          let (i, ks'') = BracketTokens_getId (hd (openingBrackets b)) ks'
          in Inr (AList.update (bracketText b)
               (BracketToken_new l ClosingBracket (int i) ids (Some (BracketAstNode l (BracketKind.truncate b) ids))) m, ks''))"

fun addClosings :: "ClosingBracketKind list \<Rightarrow> Brackets \<times> BracketKeys \<Rightarrow> (Brackets \<times> BracketKeys) result" where
  "addClosings [] s = Inr s"
| "addClosings (b # bs) s = bindr (addClosing b s) (addClosings bs)"

definition BracketTokens_createFromLanguage ::
  "BracketKind list \<Rightarrow> ClosingBracketKind list \<Rightarrow> BracketKeys \<Rightarrow> (Brackets \<times> BracketKeys) result" where
  "BracketTokens_createFromLanguage opening closing ks = addClosings closing (fold addOpening opening ([], ks))"

definition BracketTokens_getToken :: "(utf16 \<Rightarrow> utf16) \<Rightarrow> Brackets \<Rightarrow> utf16 \<Rightarrow> BracketKind BracketToken option" where
  "BracketTokens_getToken toLowerCase m value = map_of m (toLowerCase value)"

definition BracketTokens_findClosingTokenText :: "Brackets \<Rightarrow> SmallImmutableSet \<Rightarrow> utf16 option" where
  "BracketTokens_findClosingTokenText m openingBracketIds =
     map_option fst (find (\<lambda>(_, info). token_kind info = ClosingBracket \<and> SmallImmutableSet_intersects (bracketIds info) openingBracketIds) m)"

text \<open>The alternatives of the regular expression, the longer of two texts with a common prefix first;
  none when there is no bracket.\<close>

definition BracketTokens_alternatives :: "Brackets \<Rightarrow> utf16 list option" where
  "BracketTokens_alternatives m = (if m = [] then None else Some (rev (sort (map fst m))))"

section \<open>The regular expression\<close>

definition word_char :: "16 word \<Rightarrow> bool" where
  "word_char c \<longleftrightarrow> 48 \<le> c \<and> c \<le> 57 \<or> 65 \<le> c \<and> c \<le> 90 \<or> c = 95 \<or> 97 \<le> c \<and> c \<le> 122"

text \<open>\<open>\b\<close> before the character at a position.\<close>

definition word_boundary :: "utf16 \<Rightarrow> nat \<Rightarrow> bool" where
  "word_boundary content i \<longleftrightarrow>
     (0 < i \<and> i \<le> length content \<and> word_char (content ! (i - 1))) \<noteq> (i < length content \<and> word_char (content ! i))"

text \<open>\<open>prepareBracketForRegExp\<close>: a bracket text that starts or ends with a letter or a blank must not go on with a
  letter.\<close>

definition starts_with_letter :: "utf16 \<Rightarrow> bool" where
  "starts_with_letter str \<longleftrightarrow> str \<noteq> [] \<and> (word_char (hd str) \<or> hd str = 32)"

definition ends_with_letter :: "utf16 \<Rightarrow> bool" where
  "ends_with_letter str \<longleftrightarrow> str \<noteq> [] \<and> (word_char (last str) \<or> last str = 32)"

definition matches_at :: "(16 word \<Rightarrow> 16 word) \<Rightarrow> utf16 \<Rightarrow> nat \<Rightarrow> utf16 \<Rightarrow> bool" where
  "matches_at canon content i str \<longleftrightarrow>
     i + length str \<le> length content \<and>
     map canon (take (length str) (drop i content)) = map canon str \<and>
     (starts_with_letter str \<longrightarrow> word_boundary content i) \<and>
     (ends_with_letter str \<longrightarrow> word_boundary content (i + length str))"

text \<open>The expression ends with the alternative of a line feed.\<close>

definition match_at :: "(16 word \<Rightarrow> 16 word) \<Rightarrow> utf16 list \<Rightarrow> utf16 \<Rightarrow> nat \<Rightarrow> utf16 option" where
  "match_at canon alts content i =
     map_option (\<lambda>str. take (length str) (drop i content)) (find (matches_at canon content i) (alts @ [[10]]))"

function regexp_exec :: "(16 word \<Rightarrow> 16 word) \<Rightarrow> utf16 list \<Rightarrow> utf16 \<Rightarrow> nat \<Rightarrow> (nat \<times> utf16) option" where
  "regexp_exec canon alts content i =
     (if i > length content then None
      else
        case match_at canon alts content i of
          Some v \<Rightarrow> Some (i, v)
        | None \<Rightarrow> regexp_exec canon alts content (i + 1))"
  by pat_completeness auto
termination by (relation "measure (\<lambda>(_, _, content, i). Suc (length content) - i)") auto

declare regexp_exec.simps [simp del]

lemma match_at_Some:
  assumes "match_at canon alts content i = Some v" and "i \<le> length content"
  shows "i + length v \<le> length content \<and> v = take (length v) (drop i content) \<and>
    ((\<exists>str \<in> set alts. matches_at canon content i str \<and> length v = length str) \<or> map canon v = [canon 10])"
proof -
  obtain str where str: "find (matches_at canon content i) (alts @ [[10]]) = Some str" "v = take (length str) (drop i content)"
    using assms(1) by (auto simp: match_at_def)
  then have m: "matches_at canon content i str" "str \<in> set (alts @ [[10]])"
    unfolding find_Some_iff by (metis nth_mem)+
  then have l: "length v = length str" "i + length str \<le> length content" using str(2) by (auto simp: matches_at_def)
  then show ?thesis using m str(2) by (auto simp: matches_at_def)
qed

text \<open>The first match at or after a position.\<close>

lemma regexp_exec_Some:
  "regexp_exec canon alts content i = Some (j, v) \<Longrightarrow>
     i \<le> j \<and> j \<le> length content \<and> match_at canon alts content j = Some v \<and> (\<forall>k. i \<le> k \<longrightarrow> k < j \<longrightarrow> match_at canon alts content k = None)"
proof (induction canon alts content i rule: regexp_exec.induct)
  case (1 canon alts content i)
  show ?case
  proof (cases "match_at canon alts content i")
    case None
    then have "\<not> i > length content" "regexp_exec canon alts content (i + 1) = Some (j, v)"
      using "1.prems" by (auto simp: regexp_exec.simps [of canon alts content i] split: if_splits)
    then show ?thesis using "1.IH" None by (metis Suc_eq_plus1 Suc_leI Suc_leD le_neq_implies_less)
  next
    case (Some w)
    then show ?thesis using "1.prems" by (auto simp: regexp_exec.simps [of canon alts content i] split: if_splits)
  qed
qed

lemma regexp_exec_None:
  "regexp_exec canon alts content i = None \<Longrightarrow> i \<le> k \<Longrightarrow> k \<le> length content \<Longrightarrow> match_at canon alts content k = None"
proof (induction canon alts content i rule: regexp_exec.induct)
  case (1 canon alts content i)
  have i: "match_at canon alts content i = None" "regexp_exec canon alts content (i + 1) = None"
    using "1.prems" by (auto simp: regexp_exec.simps [of canon alts content i] split: if_splits option.splits)
  show ?case
  proof (cases "i = k")
    case False
    then show ?thesis using "1.IH" "1.prems" i by auto
  qed (use i in simp)
qed

section \<open>The tokenizer of a text\<close>

text \<open>The variables of the constructor's loop. A token that \<open>getToken\<close> does not find is pushed as an undefined value.\<close>

record FastState =
  fs_tokens :: "BracketKind BracketToken option list"
  curLineCount :: int
  lastLineBreakOffset :: int
  lastTokenEndOffset :: int
  lastTokenEndLine :: int

definition text_token :: "Length \<Rightarrow> BracketKind BracketToken" where
  "text_token l = BracketToken_new l TextToken (-1) SmallImmutableSet_getEmpty (Some (TextAstNode l))"

definition FastTokenizer_step :: "(utf16 \<Rightarrow> utf16) \<Rightarrow> Brackets \<Rightarrow> FastState \<Rightarrow> int \<Rightarrow> utf16 \<Rightarrow> FastState" where
  "FastTokenizer_step toLowerCase m s curOffset value =
     (if value = [10] then s\<lparr>curLineCount := curLineCount s + 1, lastLineBreakOffset := curOffset + 1\<rparr>
      else
        let ts = (if lastTokenEndOffset s \<noteq> curOffset then
                    fs_tokens s @ [Some (text_token
                      (if lastTokenEndLine s = curLineCount s then toLength 0 (curOffset - lastTokenEndOffset s)
                       else toLength (curLineCount s - lastTokenEndLine s) (curOffset - lastLineBreakOffset s)))]
                  else fs_tokens s)
        in s\<lparr>fs_tokens := ts @ [BracketTokens_getToken toLowerCase m value],
             lastTokenEndOffset := curOffset + int (length value), lastTokenEndLine := curLineCount s\<rparr>)"

text \<open>An empty match is found again at the same position for ever, which is the result \<open>None\<close>.\<close>

function FastTokenizer_loop ::
  "(16 word \<Rightarrow> 16 word) \<Rightarrow> (utf16 \<Rightarrow> utf16) \<Rightarrow> Brackets \<Rightarrow> utf16 list \<Rightarrow> utf16 \<Rightarrow> nat \<Rightarrow> FastState \<Rightarrow> FastState option" where
  "FastTokenizer_loop canon toLowerCase m alts content lastIndex s =
     (case regexp_exec canon alts content lastIndex of
        None \<Rightarrow> Some s
      | Some (i, value) \<Rightarrow>
          if value = [] then None
          else FastTokenizer_loop canon toLowerCase m alts content (i + length value) (FastTokenizer_step toLowerCase m s (int i) value))"
  by pat_completeness auto
termination
  by (relation "measure (\<lambda>(_, _, _, _, content, i, _). Suc (length content) - i)")
    (auto dest!: regexp_exec_Some dest: match_at_Some simp: diff_less_mono2 length_greater_0_conv [symmetric] simp del: length_greater_0_conv)

declare FastTokenizer_loop.simps [simp del]

record FastTokenizer =
  ft_tokens :: "BracketKind BracketToken option list"
  ft_idx :: nat
  ft_offset :: Length
  ft_length :: Length

definition FastTokenizer_new ::
  "(16 word \<Rightarrow> 16 word) \<Rightarrow> (utf16 \<Rightarrow> utf16) \<Rightarrow> utf16 \<Rightarrow> Brackets \<Rightarrow> FastTokenizer option" where
  "FastTokenizer_new canon toLowerCase content m =
     (let s0 = \<lparr>fs_tokens = [], curLineCount = 0, lastLineBreakOffset = 0, lastTokenEndOffset = 0, lastTokenEndLine = 0\<rparr>;
          final = (case BracketTokens_alternatives m of
                     None \<Rightarrow> Some s0
                   | Some alts \<Rightarrow> FastTokenizer_loop canon toLowerCase m alts content 0 s0);
          offset = int (length content)
      in case final of
           None \<Rightarrow> None
         | Some s \<Rightarrow>
             Some \<lparr>ft_tokens =
                (if lastTokenEndOffset s \<noteq> offset then
                   fs_tokens s @ [Some (text_token
                     (if lastTokenEndLine s = curLineCount s then toLength 0 (offset - lastTokenEndOffset s)
                      else toLength (curLineCount s - lastTokenEndLine s) (offset - lastLineBreakOffset s)))]
                 else fs_tokens s),
              ft_idx = 0, ft_offset = lengthZero, ft_length = toLength (curLineCount s) (offset - lastLineBreakOffset s)\<rparr>)"

definition FastTokenizer_peek :: "FastTokenizer \<Rightarrow> BracketKind BracketToken option \<times> FastTokenizer" where
  "FastTokenizer_peek t = ((if ft_idx t < length (ft_tokens t) then ft_tokens t ! ft_idx t else None), t)"

definition FastTokenizer_read :: "FastTokenizer \<Rightarrow> BracketKind BracketToken option \<times> FastTokenizer" where
  "FastTokenizer_read t = (fst (FastTokenizer_peek t), t\<lparr>ft_idx := ft_idx t + 1\<rparr>)"

definition FastTokenizer_skip :: "FastTokenizer \<Rightarrow> Length \<Rightarrow> FastTokenizer result" where
  "FastTokenizer_skip t l = Inl PlainError"

definition FastTokenizer_interface :: "(FastTokenizer, BracketKind) Tokenizer" where
  "FastTokenizer_interface =
     \<lparr>tk_offset = ft_offset, tk_read = FastTokenizer_read, tk_peek = FastTokenizer_peek, tk_skip = FastTokenizer_skip\<rparr>"

section \<open>The tokenizer of a text model\<close>

text \<open>\<open>TextBufferTokenizer\<close> over the states \<open>'r\<close> of a reader that cannot peek.\<close>

record ('r, 'b) TokenReader =
  rd_read :: "'r \<Rightarrow> 'b BracketToken option \<times> 'r"
  rd_setPosition :: "'r \<Rightarrow> int \<Rightarrow> int \<Rightarrow> 'r"

record ('r, 'b) TextBufferTokenizer =
  tb_reader :: 'r
  tb_offset :: Length
  didPeek :: bool
  peeked :: "'b BracketToken option"

definition TextBufferTokenizer_new :: "'r \<Rightarrow> ('r, 'b) TextBufferTokenizer" where
  "TextBufferTokenizer_new r = \<lparr>tb_reader = r, tb_offset = lengthZero, didPeek = False, peeked = None\<rparr>"

definition TextBufferTokenizer_skip ::
  "('r, 'b) TokenReader \<Rightarrow> ('r, 'b) TextBufferTokenizer \<Rightarrow> Length \<Rightarrow> ('r, 'b) TextBufferTokenizer" where
  "TextBufferTokenizer_skip R t l =
     (let offset = lengthAdd (tb_offset t) l; obj = lengthToObj offset
      in t\<lparr>didPeek := False, tb_offset := offset,
           tb_reader := rd_setPosition R (tb_reader t) (lineCount obj) (columnCount obj)\<rparr>)"

definition TextBufferTokenizer_read ::
  "('r, 'b) TokenReader \<Rightarrow> ('r, 'b) TextBufferTokenizer \<Rightarrow> 'b BracketToken option \<times> ('r, 'b) TextBufferTokenizer" where
  "TextBufferTokenizer_read R t =
     (let (token, t') =
        (if peeked t \<noteq> None then (peeked t, t\<lparr>didPeek := False\<rparr>)
         else (let (token, r) = rd_read R (tb_reader t) in (token, t\<lparr>tb_reader := r\<rparr>)))
      in (token, case token of Some tok \<Rightarrow> t'\<lparr>tb_offset := lengthAdd (tb_offset t') (token_length tok)\<rparr> | None \<Rightarrow> t'))"

definition TextBufferTokenizer_peek ::
  "('r, 'b) TokenReader \<Rightarrow> ('r, 'b) TextBufferTokenizer \<Rightarrow> 'b BracketToken option \<times> ('r, 'b) TextBufferTokenizer" where
  "TextBufferTokenizer_peek R t =
     (let t' = (if \<not> didPeek t then
                  (let (token, r) = rd_read R (tb_reader t) in t\<lparr>tb_reader := r, peeked := token, didPeek := True\<rparr>)
                else t)
      in (peeked t', t'))"

definition TextBufferTokenizer_interface :: "('r, 'b) TokenReader \<Rightarrow> (('r, 'b) TextBufferTokenizer, 'b) Tokenizer" where
  "TextBufferTokenizer_interface R =
     \<lparr>tk_offset = tb_offset, tk_read = TextBufferTokenizer_read R, tk_peek = TextBufferTokenizer_peek R,
      tk_skip = (\<lambda>t l. Inr (TextBufferTokenizer_skip R t l))\<rparr>"

section \<open>The contract of a tokenizer\<close>

text \<open>\<open>rest\<close> lists the tokens that are still to come. A token is read after it was peeked, as the parser does.\<close>

locale token_source =
  fixes T :: "('s, 'b) Tokenizer" and rest :: "'s \<Rightarrow> 'b BracketToken list"
  assumes peek_token: "fst (tk_peek T s) = (case rest s of [] \<Rightarrow> None | t # _ \<Rightarrow> Some t)"
    and peek_rest: "rest (snd (tk_peek T s)) = rest s"
    and read_token: "rest s = t # ts \<Longrightarrow> fst (tk_read T (snd (tk_peek T s))) = Some t"
    and read_rest: "rest s = t # ts \<Longrightarrow> rest (snd (tk_read T (snd (tk_peek T s)))) = ts"

definition FastTokenizer_rest :: "FastTokenizer \<Rightarrow> BracketKind BracketToken list" where
  "FastTokenizer_rest t = map the (takeWhile (\<lambda>tok. tok \<noteq> None) (drop (ft_idx t) (ft_tokens t)))"

lemma FastTokenizer_rest_cases:
  "FastTokenizer_rest t = (case fst (FastTokenizer_peek t) of None \<Rightarrow> [] | Some tok \<Rightarrow> tok # FastTokenizer_rest (t\<lparr>ft_idx := ft_idx t + 1\<rparr>))"
  by (cases "ft_idx t < length (ft_tokens t)")
    (auto simp: FastTokenizer_rest_def FastTokenizer_peek_def Cons_nth_drop_Suc [symmetric] split: option.split)

interpretation fast: token_source FastTokenizer_interface FastTokenizer_rest
proof unfold_locales
  fix t tok ts
  show "fst (tk_peek FastTokenizer_interface t) = (case FastTokenizer_rest t of [] \<Rightarrow> None | t # _ \<Rightarrow> Some t)"
    using FastTokenizer_rest_cases [of t] by (auto simp: FastTokenizer_interface_def split: option.splits)
  show "FastTokenizer_rest (snd (tk_peek FastTokenizer_interface t)) = FastTokenizer_rest t"
    by (simp add: FastTokenizer_interface_def FastTokenizer_peek_def)
  assume "FastTokenizer_rest t = tok # ts"
  then show "fst (tk_read FastTokenizer_interface (snd (tk_peek FastTokenizer_interface t))) = Some tok"
    "FastTokenizer_rest (snd (tk_read FastTokenizer_interface (snd (tk_peek FastTokenizer_interface t)))) = ts"
    using FastTokenizer_rest_cases [of t]
    by (auto simp: FastTokenizer_interface_def FastTokenizer_read_def FastTokenizer_peek_def split: option.splits if_splits)
qed

text \<open>A reader that returns the tokens \<open>rest\<close> lists.\<close>

definition reader_lists :: "('r, 'b) TokenReader \<Rightarrow> ('r \<Rightarrow> 'b BracketToken list) \<Rightarrow> bool" where
  "reader_lists R rest \<longleftrightarrow>
     (\<forall>r. case rest r of
            [] \<Rightarrow> fst (rd_read R r) = None
          | t # ts \<Rightarrow> fst (rd_read R r) = Some t \<and> rest (snd (rd_read R r)) = ts)"

definition TextBufferTokenizer_rest :: "('r \<Rightarrow> 'b BracketToken list) \<Rightarrow> ('r, 'b) TextBufferTokenizer \<Rightarrow> 'b BracketToken list" where
  "TextBufferTokenizer_rest rest t =
     (if didPeek t then (case peeked t of None \<Rightarrow> [] | Some tok \<Rightarrow> tok # rest (tb_reader t)) else rest (tb_reader t))"

lemma TextBufferTokenizer_source:
  assumes "reader_lists R rest"
  shows "token_source (TextBufferTokenizer_interface R) (TextBufferTokenizer_rest rest)"
proof unfold_locales
  fix t :: "('a, 'b) TextBufferTokenizer" and tok ts
  have r: "rest (tb_reader t) = [] \<Longrightarrow> fst (rd_read R (tb_reader t)) = None"
    "rest (tb_reader t) = x # xs \<Longrightarrow> fst (rd_read R (tb_reader t)) = Some x \<and> rest (snd (rd_read R (tb_reader t))) = xs" for x xs
    using assms unfolding reader_lists_def by (auto split: list.splits)
  show "fst (tk_peek (TextBufferTokenizer_interface R) t) = (case TextBufferTokenizer_rest rest t of [] \<Rightarrow> None | t # _ \<Rightarrow> Some t)"
    using r by (cases "rest (tb_reader t)")
      (auto simp: TextBufferTokenizer_interface_def TextBufferTokenizer_peek_def TextBufferTokenizer_rest_def split: prod.split option.split)
  show "TextBufferTokenizer_rest rest (snd (tk_peek (TextBufferTokenizer_interface R) t)) = TextBufferTokenizer_rest rest t"
    using r by (cases "rest (tb_reader t)")
      (auto simp: TextBufferTokenizer_interface_def TextBufferTokenizer_peek_def TextBufferTokenizer_rest_def split: prod.split option.split)
  assume "TextBufferTokenizer_rest rest t = tok # ts"
  then show "fst (tk_read (TextBufferTokenizer_interface R) (snd (tk_peek (TextBufferTokenizer_interface R) t))) = Some tok"
    "TextBufferTokenizer_rest rest (snd (tk_read (TextBufferTokenizer_interface R) (snd (tk_peek (TextBufferTokenizer_interface R) t)))) = ts"
    using r by (auto simp: TextBufferTokenizer_interface_def TextBufferTokenizer_peek_def TextBufferTokenizer_read_def
        TextBufferTokenizer_rest_def split: prod.split option.splits if_splits)
qed

text \<open>\<open>read\<close> keeps the peeked token: a second \<open>read\<close> without a \<open>peek\<close> returns it again.\<close>

lemma TextBufferTokenizer_reads_twice:
  assumes "fst (TextBufferTokenizer_peek R t) = Some tok"
  shows "fst (TextBufferTokenizer_read R (snd (TextBufferTokenizer_read R (snd (TextBufferTokenizer_peek R t))))) = Some tok"
  using assms by (auto simp: TextBufferTokenizer_peek_def TextBufferTokenizer_read_def Let_def split: prod.split option.split)

section \<open>The tokens cover the text\<close>

text \<open>Lines, which line feeds end, and columns of a text.\<close>

definition tl_units :: "utf16 \<Rightarrow> TextLength" where
  "tl_units xs = foldr (\<lambda>c. TextLength_add (if c = 10 then TextLength_new 1 0 else TextLength_new 0 1)) xs (TextLength_new 0 0)"

lemma tl_units_simps [simp]:
  "tl_units [] = TextLength_new 0 0"
  "tl_units (c # xs) = TextLength_add (if c = 10 then TextLength_new 1 0 else TextLength_new 0 1) (tl_units xs)"
  by (simp_all add: tl_units_def)

declare TextLength_add_sel [simp]

lemma tl_units_nonneg [simp]: "0 \<le> lineCount (tl_units xs)" "0 \<le> columnCount (tl_units xs)"
  by (induction xs) auto

lemma tl_units_append: "tl_units (xs @ ys) = TextLength_add (tl_units xs) (tl_units ys)"
  by (induction xs) (simp_all add: TextLength_add_assoc)

lemma tl_units_line: "lineCount (tl_units xs) = 0 \<Longrightarrow> columnCount (tl_units xs) = int (length xs)"
proof (induction xs)
  case (Cons c xs)
  then show ?case using tl_units_nonneg(1) [of xs] by (auto simp del: tl_units_nonneg split: if_splits)
qed simp

lemma tl_units_no_line: "10 \<notin> set xs \<Longrightarrow> lineCount (tl_units xs) = 0"
  by (induction xs) auto

text \<open>The lines and columns at a position.\<close>

definition tl_at :: "utf16 \<Rightarrow> nat \<Rightarrow> TextLength" where
  "tl_at xs i = tl_units (take i xs)"

lemma tl_at_split: "i \<le> j \<Longrightarrow> tl_at xs j = TextLength_add (tl_at xs i) (tl_units (take (j - i) (drop i xs)))"
  by (metis le_add_diff_inverse take_add tl_at_def tl_units_append)

lemma tl_at_no_line:
  assumes "i \<le> j" and "j \<le> length xs" and "10 \<notin> set (take (j - i) (drop i xs))"
  shows "tl_at xs j = TextLength_new (lineCount (tl_at xs i)) (columnCount (tl_at xs i) + int (j - i))"
  using tl_at_split [OF assms(1), of xs] tl_units_no_line [OF assms(3)] tl_units_line [of "take (j - i) (drop i xs)"] assms(1,2)
  by (intro TextLength.equality) simp_all

text \<open>The length of the text token between two positions, as the code computes it.\<close>

lemma tl_between:
  assumes "i \<le> j" and "j \<le> length xs"
  shows "tl_units (take (j - i) (drop i xs)) =
    (if lineCount (tl_at xs i) = lineCount (tl_at xs j) then TextLength_new 0 (int j - int i)
     else TextLength_new (lineCount (tl_at xs j) - lineCount (tl_at xs i)) (columnCount (tl_at xs j)))"
  using tl_at_split [OF assms(1), of xs] tl_units_line [of "take (j - i) (drop i xs)"] assms
  by (intro TextLength.equality) (auto simp: of_nat_diff)

text \<open>What is assumed of the bracket texts and of the case tables: a match of a bracket text is found in the map, with the length
  of the match, and holds no line feed; a bracket text is not empty.\<close>

definition brackets_ok :: "(16 word \<Rightarrow> 16 word) \<Rightarrow> (utf16 \<Rightarrow> utf16) \<Rightarrow> Brackets \<Rightarrow> bool" where
  "brackets_ok canon toLowerCase m \<longleftrightarrow>
     (\<forall>c. canon c = canon 10 \<longrightarrow> c = 10) \<and>
     (\<forall>str \<in> fst ` set m. str \<noteq> [] \<and> 10 \<notin> set str \<and>
        (\<forall>v. map canon v = map canon str \<longrightarrow>
           (\<exists>t. BracketTokens_getToken toLowerCase m v = Some t \<and> token_ok t \<and> token_length t = toLength 0 (int (length str)))))"

text \<open>Lines shorter than the limit of the packed columns.\<close>

definition text_fits :: "utf16 \<Rightarrow> bool" where
  "text_fits xs \<longleftrightarrow> (\<forall>i \<in> set [0..<Suc (length xs)]. columnCount (tl_at xs i) < factor)"

definition tokens_length :: "'b BracketToken option list \<Rightarrow> TextLength" where
  "tokens_length ts = foldr (\<lambda>t. TextLength_add (case t of Some t' \<Rightarrow> lengthToObj (token_length t') | None \<Rightarrow> TextLength_new 0 0)) ts (TextLength_new 0 0)"

definition token_real :: "'b BracketToken option \<Rightarrow> bool" where
  "token_real t \<longleftrightarrow> (case t of Some t' \<Rightarrow> token_ok t' | None \<Rightarrow> False)"

lemma token_ok_length: "token_ok t \<Longrightarrow> 0 \<le> token_length t"
  by (simp add: token_ok_def)

lemma token_real_text: "0 \<le> l \<Longrightarrow> token_real (Some (text_token l))"
  by (simp add: token_real_def token_ok_def text_token_def BracketToken_new_def)

lemma tokens_length_append:
  "(\<forall>t \<in> set ys. token_real t) \<Longrightarrow> (\<forall>t \<in> set xs. token_real t) \<Longrightarrow> tokens_length (xs @ ys) = TextLength_add (tokens_length xs) (tokens_length ys)"
proof (induction xs)
  case (Cons x xs)
  have nonneg: "0 \<le> lineCount (tokens_length zs)" if "\<forall>t \<in> set zs. token_real t" for zs :: "'a BracketToken option list"
    using that by (induction zs) (auto simp: tokens_length_def token_real_def pos_imp_zdiv_nonneg_iff token_ok_length split: option.splits)
  have "0 \<le> lineCount (tokens_length xs)" "0 \<le> lineCount (tokens_length ys)" using Cons.prems nonneg by auto
  moreover have "tokens_length ((x # xs) @ ys) =
      TextLength_add (case x of Some t' \<Rightarrow> lengthToObj (token_length t') | None \<Rightarrow> TextLength_new 0 0) (tokens_length (xs @ ys))"
    "tokens_length (x # xs) =
      TextLength_add (case x of Some t' \<Rightarrow> lengthToObj (token_length t') | None \<Rightarrow> TextLength_new 0 0) (tokens_length xs)"
    by (simp_all add: tokens_length_def)
  ultimately show ?case using Cons by (simp add: TextLength_add_assoc)
qed (simp add: tokens_length_def)

text \<open>No run of tokens from the start ends in a column beyond the limit.\<close>

definition prefixes_fit :: "'b BracketToken option list \<Rightarrow> bool" where
  "prefixes_fit ts \<longleftrightarrow> (\<forall>k. columnCount (tokens_length (take k ts)) < factor)"

lemma prefixes_fit_snoc: "prefixes_fit ts \<Longrightarrow> columnCount (tokens_length (ts @ [t])) < factor \<Longrightarrow> prefixes_fit (ts @ [t])"
  by (auto simp: prefixes_fit_def take_append take_Cons split: nat.split)

text \<open>The variables of the loop when the text before a position has been read.\<close>

definition fast_inv :: "utf16 \<Rightarrow> nat \<Rightarrow> FastState \<Rightarrow> bool" where
  "fast_inv xs i s \<longleftrightarrow>
     i \<le> length xs \<and> tl_at xs i = TextLength_new (curLineCount s) (int i - lastLineBreakOffset s) \<and>
     (\<exists>e \<le> i. lastTokenEndOffset s = int e \<and> lastTokenEndLine s = lineCount (tl_at xs e) \<and> tokens_length (fs_tokens s) = tl_at xs e) \<and>
     (\<forall>t \<in> set (fs_tokens s). token_real t) \<and> prefixes_fit (fs_tokens s)"

lemma gap_no_line:
  assumes "regexp_exec canon alts xs i = Some (j, v) \<or> regexp_exec canon alts xs i = None \<and> j = length xs"
  shows "10 \<notin> set (take (j - i) (drop i xs))"
proof
  assume "10 \<in> set (take (j - i) (drop i xs))"
  then obtain k where k: "k < j - i" "i + k < length xs" "xs ! (i + k) = 10"
    by (auto simp: in_set_conv_nth)
  then have "match_at canon alts xs (i + k) = None"
    using assms regexp_exec_Some [of canon alts xs i j v] regexp_exec_None [of canon alts xs i "i + k"] by auto
  moreover have "matches_at canon xs (i + k) [10]"
    using k(2,3) by (simp add: matches_at_def starts_with_letter_def ends_with_letter_def word_char_def take_Suc hd_drop_conv_nth)
  ultimately show False by (auto simp: match_at_def find_None_iff)
qed

lemma slice_token:
  assumes "e \<le> j" and "j \<le> length xs" and "text_fits xs"
  shows "lengthToObj (if lineCount (tl_at xs e) = lineCount (tl_at xs j) then toLength 0 (int j - int e)
      else toLength (lineCount (tl_at xs j) - lineCount (tl_at xs e)) (columnCount (tl_at xs j))) = tl_units (take (j - e) (drop e xs))"
    and "0 \<le> (if lineCount (tl_at xs e) = lineCount (tl_at xs j) then toLength 0 (int j - int e)
      else toLength (lineCount (tl_at xs j) - lineCount (tl_at xs e)) (columnCount (tl_at xs j)))"
proof -
  let ?d = "tl_units (take (j - e) (drop e xs))"
  have "columnCount ?d \<le> columnCount (tl_at xs j)"
    unfolding tl_at_split [OF assms(1)] by (auto simp: tl_at_def)
  also have "\<dots> < factor" using assms(2,3) by (auto simp: text_fits_def)
  finally have c: "0 \<le> columnCount ?d" "columnCount ?d < factor" by simp_all
  have eq: "(if lineCount (tl_at xs e) = lineCount (tl_at xs j) then toLength 0 (int j - int e)
      else toLength (lineCount (tl_at xs j) - lineCount (tl_at xs e)) (columnCount (tl_at xs j))) = toLength (lineCount ?d) (columnCount ?d)"
    unfolding tl_between [OF assms(1,2)] by simp
  show "lengthToObj (if lineCount (tl_at xs e) = lineCount (tl_at xs j) then toLength 0 (int j - int e)
      else toLength (lineCount (tl_at xs j) - lineCount (tl_at xs e)) (columnCount (tl_at xs j))) = ?d"
    unfolding eq lengthToObj_toLength [OF c] by (rule TextLength.equality) simp_all
  show "0 \<le> (if lineCount (tl_at xs e) = lineCount (tl_at xs j) then toLength 0 (int j - int e)
      else toLength (lineCount (tl_at xs j) - lineCount (tl_at xs e)) (columnCount (tl_at xs j)))"
    unfolding eq using c by (intro toLength_nonneg) simp_all
qed

text \<open>The text token in front of a bracket or of the end, pushed unless it is empty.\<close>

lemma push_text_token:
  assumes "\<forall>t \<in> set ts. token_real t" and "tokens_length ts = tl_at xs e" and "e \<le> j"
    and "lengthToObj l = tl_units (take (j - e) (drop e xs))" and "0 \<le> l" and "prefixes_fit ts" and "columnCount (tl_at xs j) < factor"
    and "ts' = (if int e \<noteq> int j then ts @ [Some (text_token l)] else ts)"
  shows "(\<forall>t \<in> set ts'. token_real t) \<and> tokens_length ts' = tl_at xs j \<and> prefixes_fit ts'"
proof (cases "e = j")
  case False
  have real: "token_real (Some (text_token l))" using assms(5) by (rule token_real_text)
  have "tokens_length [Some (text_token l)] = tl_units (take (j - e) (drop e xs))"
    using assms(4) by (simp add: tokens_length_def text_token_def BracketToken_new_def)
  then have "tokens_length (ts @ [Some (text_token l)]) = tl_at xs j"
    using tokens_length_append [of "[Some (text_token l)]" ts] real assms(1) by (simp add: assms(2) tl_at_split [OF assms(3)])
  then show ?thesis using False assms(1,6,7,8) real prefixes_fit_snoc [of ts] by simp
qed (use assms in simp)

lemma match_cases:
  assumes "brackets_ok canon toLowerCase m" and "match_at canon (rev (sort (map fst m))) xs j = Some v" and "j \<le> length xs"
  shows "v = [10] \<or> v \<noteq> [] \<and> 10 \<notin> set v \<and> (\<exists>t. BracketTokens_getToken toLowerCase m v = Some t \<and> token_ok t \<and> token_length t = toLength 0 (int (length v)))"
proof -
  note ms = match_at_Some [OF assms(2,3)]
  then consider "map canon v = [canon 10]" | str where "str \<in> fst ` set m" "matches_at canon xs j str" "length v = length str"
    by auto
  then show ?thesis
  proof cases
    case 1
    then have "v = [10]" using assms(1) by (auto simp: brackets_ok_def)
    then show ?thesis by simp
  next
    case (2 str)
    then have canon: "map canon v = map canon str" using ms by (simp add: matches_at_def)
    have str: "str \<noteq> []" "10 \<notin> set str" using assms(1) 2(1) by (auto simp: brackets_ok_def)
    have "canon 10 \<notin> set (map canon str)" using str(2) assms(1) by (auto simp: brackets_ok_def)
    then have "10 \<notin> set v" using canon by (metis imageI list.set_map)
    then show ?thesis using assms(1) 2(1,3) canon str(1) by (auto simp: brackets_ok_def)
  qed
qed

lemma FastTokenizer_step_inv:
  assumes "fast_inv xs i s" and "regexp_exec canon (rev (sort (map fst m))) xs i = Some (j, v)"
    and "brackets_ok canon toLowerCase m" and "text_fits xs"
  shows "v \<noteq> [] \<and> fast_inv xs (j + length v) (FastTokenizer_step toLowerCase m s (int j) v)"
proof -
  let ?alts = "rev (sort (map fst m))"
  note ex = regexp_exec_Some [OF assms(2)]
  then have j: "i \<le> j" "j \<le> length xs" "match_at canon ?alts xs j = Some v" by auto
  have v: "j + length v \<le> length xs" "v = take (length v) (drop j xs)" using match_at_Some [OF j(3,2)] by auto
  have at_j: "tl_at xs j = TextLength_new (curLineCount s) (int j - lastLineBreakOffset s)"
    using tl_at_no_line [OF j(1,2) gap_no_line [OF disjI1 [OF assms(2)]]] assms(1) j(1)
    by (simp add: fast_inv_def of_nat_diff)
  have at_v: "tl_at xs (j + length v) = TextLength_add (tl_at xs j) (tl_units v)"
    using tl_at_split [of j "j + length v" xs] v(2) by simp
  obtain e where e: "e \<le> i" "lastTokenEndOffset s = int e" "lastTokenEndLine s = lineCount (tl_at xs e)" "tokens_length (fs_tokens s) = tl_at xs e"
    using assms(1) by (auto simp: fast_inv_def)
  consider "v = [10]" | t where "v \<noteq> [10]" "v \<noteq> []" "10 \<notin> set v" "BracketTokens_getToken toLowerCase m v = Some t" "token_length t = toLength 0 (int (length v))" "token_ok t"
    using match_cases [OF assms(3) j(3,2)] by fastforce
  then show ?thesis
  proof cases
    case 1
    then show ?thesis
      using assms(1) v(1) at_v at_j e j(1)
      by (auto simp: fast_inv_def FastTokenizer_step_def TextLength_add_def TextLength_new_def intro!: exI [of _ e])
  next
    case (2 t)
    let ?text = "if lastTokenEndLine s = curLineCount s then toLength 0 (int j - lastTokenEndOffset s)
                       else toLength (curLineCount s - lastTokenEndLine s) (int j - lastLineBreakOffset s)"
    let ?ts = "if lastTokenEndOffset s \<noteq> int j then fs_tokens s @ [Some (text_token ?text)] else fs_tokens s"
    have real: "\<forall>t \<in> set (fs_tokens s). token_real t" and fit: "prefixes_fit (fs_tokens s)" using assms(1) by (simp_all add: fast_inv_def)
    have col_j: "columnCount (tl_at xs j) < factor" using j(2) assms(4) by (auto simp: text_fits_def)
    have ej: "e \<le> j" using e(1) j(1) by simp
    have "lengthToObj ?text = tl_units (take (j - e) (drop e xs))" "0 \<le> ?text"
      using slice_token [OF ej j(2) assms(4)] unfolding at_j e(2,3) TextLength_new_sel by simp_all
    then have ts: "(\<forall>t \<in> set ?ts. token_real t) \<and> tokens_length ?ts = tl_at xs j \<and> prefixes_fit ?ts"
      by (intro push_text_token [OF real e(4) ej _ _ fit col_j]) (simp_all only: e(2))
    have line: "lineCount (tl_units v) = 0" "columnCount (tl_units v) = int (length v)"
      using tl_units_no_line [OF 2(3)] tl_units_line [of v] by auto
    have col_v: "columnCount (tl_at xs (j + length v)) < factor" using v(1) assms(4) by (auto simp: text_fits_def)
    moreover have "0 \<le> columnCount (tl_at xs j)" by (simp add: tl_at_def)
    ultimately have "int (length v) < factor" unfolding at_v using line by simp
    then have "lengthToObj (token_length t) = tl_units v" "0 \<le> token_length t"
      using line by (auto simp: 2(5) lengthToObj_toLength toLength_nonneg intro!: TextLength.equality)
    then have "token_real (Some t)" "tokens_length [Some t] = tl_units v" using 2(6) by (simp_all add: token_real_def tokens_length_def)
    then have new: "\<forall>t \<in> set (?ts @ [Some t]). token_real t" "tokens_length (?ts @ [Some t]) = tl_at xs (j + length v)"
      using ts tokens_length_append [of "[Some t]" ?ts] unfolding at_v by (auto simp del: tokens_length_append)
    moreover have "prefixes_fit (?ts @ [Some t])" using ts col_v by (intro prefixes_fit_snoc) (simp_all only: new(2))
    moreover have "tl_at xs (j + length v) = TextLength_new (curLineCount s) (int (j + length v) - lastLineBreakOffset s)"
      unfolding at_v at_j using line by (intro TextLength.equality) simp_all
    moreover have "FastTokenizer_step toLowerCase m s (int j) v = s\<lparr>fs_tokens := ?ts @ [Some t],
        lastTokenEndOffset := int (j + length v), lastTokenEndLine := curLineCount s\<rparr>"
      using 2(1,4) by (simp add: FastTokenizer_step_def Let_def)
    ultimately show ?thesis using v(1) 2(2) unfolding fast_inv_def by (auto intro!: exI [of _ "j + length v"])
  qed
qed

lemma FastTokenizer_loop_inv:
  assumes "brackets_ok canon toLowerCase m" and "text_fits xs" and "fast_inv xs i s"
  shows "\<exists>s'. FastTokenizer_loop canon toLowerCase m (rev (sort (map fst m))) xs i s = Some s' \<and> fast_inv xs (length xs) s'"
  using assms(3)
proof (induction "Suc (length xs) - i" arbitrary: i s rule: less_induct)
  case less
  let ?alts = "rev (sort (map fst m))"
  show ?case
  proof (cases "regexp_exec canon ?alts xs i")
    case None
    have i: "i \<le> length xs" using less.prems by (simp add: fast_inv_def)
    have "tl_at xs (length xs) = TextLength_new (curLineCount s) (int (length xs) - lastLineBreakOffset s)"
      using tl_at_no_line [OF i order_refl gap_no_line [OF disjI2 [OF conjI [OF None refl]]]] less.prems i
      by (simp add: fast_inv_def of_nat_diff)
    then have "fast_inv xs (length xs) s" using less.prems i by (auto simp: fast_inv_def)
    then show ?thesis by (simp add: FastTokenizer_loop.simps [of _ _ _ _ _ i] None)
  next
    case (Some p)
    obtain j v where p: "p = (j, v)" by (cases p)
    have step: "v \<noteq> []" "fast_inv xs (j + length v) (FastTokenizer_step toLowerCase m s (int j) v)"
      using FastTokenizer_step_inv [OF less.prems Some [unfolded p] assms(1,2)] by auto
    have ij: "i \<le> j" using regexp_exec_Some [OF Some [unfolded p]] by simp
    have "j + length v \<le> length xs" using step(2) by (simp add: fast_inv_def)
    then have "Suc (length xs) - (j + length v) < Suc (length xs) - i" using ij step(1) by (cases v) auto
    from less.hyps [OF this step(2)] show ?thesis
      using step(1) by (simp add: FastTokenizer_loop.simps [of _ _ _ _ _ i] Some p)
  qed
qed

lemma FastTokenizer_new_ok:
  assumes "m \<noteq> []" and "brackets_ok canon toLowerCase m" and "text_fits xs"
  shows "\<exists>t. FastTokenizer_new canon toLowerCase xs m = Some t \<and> ft_idx t = 0 \<and> (\<forall>tok \<in> set (ft_tokens t). token_real tok) \<and>
    tokens_length (ft_tokens t) = tl_units xs \<and> lengthToObj (ft_length t) = tl_units xs \<and> prefixes_fit (ft_tokens t)"
proof -
  let ?s0 = "\<lparr>fs_tokens = [], curLineCount = 0, lastLineBreakOffset = 0, lastTokenEndOffset = 0, lastTokenEndLine = 0\<rparr> :: FastState"
  have "fast_inv xs 0 ?s0" by (simp add: fast_inv_def tl_at_def tokens_length_def prefixes_fit_def)
  then obtain s where s: "FastTokenizer_loop canon toLowerCase m (rev (sort (map fst m))) xs 0 ?s0 = Some s" "fast_inv xs (length xs) s"
    using FastTokenizer_loop_inv [OF assms(2,3)] by blast
  obtain e where e: "e \<le> length xs" "lastTokenEndOffset s = int e" "lastTokenEndLine s = lineCount (tl_at xs e)" "tokens_length (fs_tokens s) = tl_at xs e"
    and real: "\<forall>t \<in> set (fs_tokens s). token_real t" and fit: "prefixes_fit (fs_tokens s)"
    and at: "tl_at xs (length xs) = TextLength_new (curLineCount s) (int (length xs) - lastLineBreakOffset s)"
    using s(2) by (auto simp: fast_inv_def)
  let ?text = "if lastTokenEndLine s = curLineCount s then toLength 0 (int (length xs) - lastTokenEndOffset s)
                      else toLength (curLineCount s - lastTokenEndLine s) (int (length xs) - lastLineBreakOffset s)"
  let ?ts = "if lastTokenEndOffset s \<noteq> int (length xs) then fs_tokens s @ [Some (text_token ?text)] else fs_tokens s"
  have "lengthToObj ?text = tl_units (take (length xs - e) (drop e xs))" "0 \<le> ?text"
    using slice_token [OF e(1) order_refl assms(3)] unfolding at e(2,3) TextLength_new_sel by simp_all
  moreover have "columnCount (tl_at xs (length xs)) < factor" using assms(3) by (simp add: text_fits_def)
  ultimately have "(\<forall>t \<in> set ?ts. token_real t) \<and> tokens_length ?ts = tl_at xs (length xs) \<and> prefixes_fit ?ts"
    by (intro push_text_token [OF real e(4,1) _ _ fit]) (simp_all only: e(2))
  moreover have "lengthToObj (toLength (curLineCount s) (int (length xs) - lastLineBreakOffset s)) = tl_at xs (length xs)"
  proof -
    have "columnCount (tl_at xs (length xs)) < factor" using assms(3) by (simp add: text_fits_def)
    moreover have "0 \<le> columnCount (tl_at xs (length xs))" by (simp add: tl_at_def)
    ultimately show ?thesis by (simp add: at lengthToObj_toLength)
  qed
  moreover have "tl_at xs (length xs) = tl_units xs" by (simp add: tl_at_def)
  ultimately show ?thesis
    using assms(1) s(1) by (simp add: FastTokenizer_new_def BracketTokens_alternatives_def Let_def)
qed

text \<open>With some bracket, lower-case bracket texts that are matched with their own length, and lines below the column
  limit, the constructor returns, every token is defined, and the lengths of the tokens add up to the length of the text,
  which is also the length the tokenizer reports.\<close>

theorem FastTokenizer_covers_text:
  assumes "m \<noteq> []" and "brackets_ok canon toLowerCase m" and "text_fits xs"
  shows "\<exists>t. FastTokenizer_new canon toLowerCase xs m = Some t \<and> ft_idx t = 0 \<and> (\<forall>tok \<in> set (ft_tokens t). token_real tok) \<and>
    tokens_length (ft_tokens t) = tl_units xs \<and> lengthToObj (ft_length t) = tl_units xs"
  using FastTokenizer_new_ok [OF assms] by blast

text \<open>Case tables of the letters of ASCII.\<close>

definition ascii_lower :: "16 word \<Rightarrow> 16 word" where
  "ascii_lower c = (if 65 \<le> c \<and> c \<le> 90 then c + 32 else c)"

lemma ascii_lower_other:
  assumes "k < 97 \<or> 122 < k" and "ascii_lower c = k"
  shows "c = k"
proof -
  have "97 \<le> c + 32 \<and> c + 32 \<le> 122" if "65 \<le> c" "c \<le> 90" using that by (unat_arith, auto)
  then show ?thesis using assms by (auto simp: ascii_lower_def split: if_splits)
qed

theorem FastTokenizer_covers_text_witness:
  "\<exists>t. FastTokenizer_new ascii_lower (map ascii_lower) [97, 123, 10, 98, 125] 
       [([123], BracketToken_new (toLength 0 1) OpeningBracket 0 (SmallImmutableSet_create 1 [])
           (Some (BracketAstNode (toLength 0 1) \<lparr>bracketText = [123], languageId = [99]\<rparr> (SmallImmutableSet_create 1 [])))),
        ([125], BracketToken_new (toLength 0 1) ClosingBracket 0 (SmallImmutableSet_create 1 [])
           (Some (BracketAstNode (toLength 0 1) \<lparr>bracketText = [125], languageId = [99]\<rparr> (SmallImmutableSet_create 1 []))))] = Some t \<and>
     tokens_length (ft_tokens t) = TextLength_new 1 2"
proof -
  let ?m = "[([123], BracketToken_new (toLength 0 1) OpeningBracket 0 (SmallImmutableSet_create 1 [])
           (Some (BracketAstNode (toLength 0 1) \<lparr>bracketText = [123], languageId = [99]\<rparr> (SmallImmutableSet_create 1 [])))),
        ([125], BracketToken_new (toLength 0 1) ClosingBracket 0 (SmallImmutableSet_create 1 [])
           (Some (BracketAstNode (toLength 0 1) \<lparr>bracketText = [125], languageId = [99]\<rparr> (SmallImmutableSet_create 1 []))))] :: Brackets"
  have fixed: "ascii_lower 10 = 10" "ascii_lower 123 = 123" "ascii_lower 125 = 125" by (simp_all add: ascii_lower_def)
  then have canon: "ascii_lower c = 10 \<longleftrightarrow> c = 10" "ascii_lower c = 123 \<longleftrightarrow> c = 123" "ascii_lower c = 125 \<longleftrightarrow> c = 125" for c
    using ascii_lower_other [of 10 c] ascii_lower_other [of 123 c] ascii_lower_other [of 125 c] by auto
  have "brackets_ok ascii_lower (map ascii_lower) ?m"
    by (auto simp: brackets_ok_def fixed canon map_eq_Cons_conv BracketTokens_getToken_def BracketToken_new_def token_ok_def toLength_nonneg elements_masks masks_def item_or_0_def SmallImmutableSet_create_def)
  moreover have "text_fits [97, 123, 10, 98, 125]"
    by (simp add: text_fits_def tl_at_def upt_rec numeral_nat factor_def)
  ultimately show ?thesis
    using FastTokenizer_covers_text [of ?m ascii_lower "map ascii_lower" "[97, 123, 10, 98, 125]"]
    by (auto simp: TextLength_add_def TextLength_new_def)
qed

text \<open>With no bracket there is no regular expression, and the line feeds are not counted.\<close>

lemma FastTokenizer_no_brackets:
  "\<exists>t. FastTokenizer_new canon toLowerCase [97, 10, 98] [] = Some t \<and> lengthToObj (ft_length t) = TextLength_new 0 3 \<and>
     tl_units [97, 10, 98] = TextLength_new 1 1"
  by (simp add: FastTokenizer_new_def BracketTokens_alternatives_def Let_def lengthToObj_toLength factor_def
      TextLength_add_def TextLength_new_def)

text \<open>A bracket text with an upper-case letter is matched but not found: the token is undefined.\<close>

lemma FastTokenizer_upper_case:
  "map_option ft_tokens (FastTokenizer_new ascii_lower (map ascii_lower) [73, 102]
      [([73, 102], BracketToken_new (toLength 0 2) OpeningBracket 0 (SmallImmutableSet_create 1 []) None)]) = Some [None]"
  by code_simp

section \<open>The tokens of a configuration\<close>

text \<open>What the two loops of \<open>createFromLanguage\<close> put into the map.\<close>

definition entries_ok :: "Brackets \<Rightarrow> bool" where
  "entries_ok m \<longleftrightarrow> (\<forall>(str, t) \<in> set m. token_ok t \<and> token_length t = toLength 0 (int (length str)))"

lemma set_update: "set (AList.update k v m) \<subseteq> insert (k, v) (set m)"
  by (induction m) auto

lemma entries_ok_update: "entries_ok m \<Longrightarrow> token_ok t \<Longrightarrow> token_length t = toLength 0 (int (length str)) \<Longrightarrow> entries_ok (AList.update str t m)"
  using set_update [of str t m] by (auto simp: entries_ok_def)

lemma map_of_update: "map_of (AList.update k v m) = (map_of m)(k \<mapsto> v)"
  by (rule update_conv')

lemma fold_addOpening_ok: "entries_ok (fst s) \<Longrightarrow> entries_ok (fst (fold addOpening bs s))"
proof (induction bs arbitrary: s)
  case (Cons b bs)
  have "entries_ok (fst (addOpening b s))"
    using Cons.prems by (cases s)
      (auto simp: addOpening_def Let_def token_ok_def BracketToken_new_def add_elements toLength_nonneg intro!: entries_ok_update split: prod.split)
  then show ?case using Cons.IH by simp
qed simp

text \<open>A key keeps its number.\<close>

lemma getKey_keeps: "map_of ks k = Some i \<Longrightarrow> map_of (snd (DenseKeyProvider_getKey ks v)) k = Some i"
  by (auto simp: DenseKeyProvider_getKey_def map_of_update split: option.split)

lemma getKey_known: "map_of ks v = Some i \<Longrightarrow> DenseKeyProvider_getKey ks v = (i, ks)"
  by (simp add: DenseKeyProvider_getKey_def)

lemma getKey_sets: "map_of (snd (DenseKeyProvider_getKey ks v)) v = Some (fst (DenseKeyProvider_getKey ks v))"
  by (auto simp: DenseKeyProvider_getKey_def map_of_update split: option.split)

lemma closingIds_keeps:
  "map_of ks k = Some i \<Longrightarrow> map_of (snd (closingIds bs ids ks)) k = Some i"
  "elements ids \<subseteq> elements (fst (closingIds bs ids ks))"
proof (induction bs arbitrary: ids ks)
  case (Cons b bs)
  {
    case 1
    obtain j ks1 where g: "BracketTokens_getId b ks = (j, ks1)" by (cases "BracketTokens_getId b ks")
    have "snd (DenseKeyProvider_getKey ks (languageId b @ [58, 58, 58] @ bracketText b)) = ks1" using g by (simp add: BracketTokens_getId_def)
    then have "map_of ks1 k = Some i" using getKey_keeps [OF 1, of "languageId b @ [58, 58, 58] @ bracketText b"] by simp
    then show ?case using Cons.IH(1) g by simp
  next
    case 2
    obtain j ks1 where g: "BracketTokens_getId b ks = (j, ks1)" by (cases "BracketTokens_getId b ks")
    then show ?case using Cons.IH(2) [of "SmallImmutableSet_add ids j" ks1] g by (simp add: add_elements)
  }
qed simp_all

lemma addClosing_ok:
  assumes "addClosing b s = Inr s'" and "entries_ok (fst s)"
  shows "entries_ok (fst s')"
proof -
  obtain m ks where s: "s = (m, ks)" by (cases s)
  obtain o' os where os: "openingBrackets b = o' # os" using assms(1) s by (cases "openingBrackets b") (auto simp: addClosing_def split: prod.splits)
  define i where "i = fst (BracketTokens_getId o' ks)"
  define ks1 where "ks1 = snd (BracketTokens_getId o' ks)"
  have first: "BracketTokens_getId o' ks = (i, ks1)" by (simp add: i_def ks1_def)
  define ids where "ids = fst (closingIds (openingBrackets b) SmallImmutableSet_getEmpty ks)"
  define ks2 where "ks2 = snd (closingIds (openingBrackets b) SmallImmutableSet_getEmpty ks)"
  have all: "closingIds (openingBrackets b) SmallImmutableSet_getEmpty ks = (ids, ks2)" by (simp add: ids_def ks2_def)
  have rest: "closingIds os (SmallImmutableSet_add SmallImmutableSet_getEmpty i) ks1 = (ids, ks2)" using all os first by simp
  have "i \<in> elements ids"
    using closingIds_keeps(2) [of "SmallImmutableSet_add SmallImmutableSet_getEmpty i" os ks1] rest by (simp add: add_elements)
  moreover have "map_of ks2 (languageId o' @ [58, 58, 58] @ bracketText o') = Some i"
    using closingIds_keeps(1) [of ks1 "languageId o' @ [58, 58, 58] @ bracketText o'" i os "SmallImmutableSet_add SmallImmutableSet_getEmpty i"] rest
      getKey_sets [of ks "languageId o' @ [58, 58, 58] @ bracketText o'"] first by (simp add: BracketTokens_getId_def)
  then have "BracketTokens_getId o' ks2 = (i, ks2)" by (simp add: BracketTokens_getId_def getKey_known)
  ultimately show ?thesis
    using assms all os s
    by (auto simp: addClosing_def Let_def token_ok_def BracketToken_new_def toLength_nonneg intro!: entries_ok_update)
qed

lemma addClosings_ok: "addClosings bs s = Inr s' \<Longrightarrow> entries_ok (fst s) \<Longrightarrow> entries_ok (fst s')"
  by (induction bs arbitrary: s) (auto simp: bindr_eq_Inr_iff dest: addClosing_ok)

lemma createFromLanguage_ok: "BracketTokens_createFromLanguage opening closing ks = Inr (m, ks') \<Longrightarrow> entries_ok m"
  using addClosings_ok [of "closing" "fold addOpening opening ([], ks)" "(m, ks')"] fold_addOpening_ok [of "([], ks)" "opening"]
  by (simp add: BracketTokens_createFromLanguage_def entries_ok_def)

text \<open>The case tables fit the bracket texts: what matches a text without regard to case is that text in lower case.\<close>

definition case_tables_fit :: "(16 word \<Rightarrow> 16 word) \<Rightarrow> (utf16 \<Rightarrow> utf16) \<Rightarrow> Brackets \<Rightarrow> bool" where
  "case_tables_fit canon toLowerCase m \<longleftrightarrow>
     (\<forall>c. canon c = canon 10 \<longrightarrow> c = 10) \<and>
     (\<forall>str \<in> fst ` set m. str \<noteq> [] \<and> 10 \<notin> set str \<and> (\<forall>v. map canon v = map canon str \<longrightarrow> toLowerCase v = str))"

lemma brackets_okI: "entries_ok m \<Longrightarrow> case_tables_fit canon toLowerCase m \<Longrightarrow> brackets_ok canon toLowerCase m"
proof -
  assume e: "entries_ok m" and c: "case_tables_fit canon toLowerCase m"
  have "\<exists>t. map_of m str = Some t \<and> token_ok t \<and> token_length t = toLength 0 (int (length str))" if "str \<in> fst ` set m" for str
  proof -
    obtain t where "map_of m str = Some t" using \<open>str \<in> fst ` set m\<close> by (metis domD dom_map_of_conv_image_fst)
    then show ?thesis using e by (auto simp: entries_ok_def dest: map_of_SomeD)
  qed
  then show ?thesis using c by (auto simp: brackets_ok_def case_tables_fit_def BracketTokens_getToken_def)
qed

end
