(* ===== verification/Bracket_Parser.thy ===== *)
theory Bracket_Parser
  imports Bracket_Concat Bracket_Mapper Bracket_Reader Bracket_Tokenizer
begin

text \<open>
  The parser of bracket pairs:
  \<open>src/vs/editor/common/model/bracketPairsTextModelPart/bracketPairsTree/parser.ts\<close>. It reads tokens through the
  interface \<open>Tokenizer\<close> and, when it is given an old tree, takes nodes of that tree. The fuel bounds the
  calls; enough fuel is three for every token left. Without an old tree the parser never fails, keeps every token and
  nests the brackets (\<open>BracketParser_parseDocument_correct\<close>).
\<close>

section \<open>The code\<close>

record ('s, 'b) BracketParser =
  tokenizer :: 's
  oldNodeReader :: "'b NodeReader option"
  positionMapper :: BeforeEditPositionMapper
  itemsConstructed :: int
  itemsFromCache :: int

definition BracketParser_new :: "'s \<Rightarrow> TextEditInfo list \<Rightarrow> 'b AstNode option \<Rightarrow> bool \<Rightarrow> ('s, 'b) BracketParser result" where
  "BracketParser_new tk edits oldNode createImmutableLists =
     (if oldNode \<noteq> None \<and> createImmutableLists then Inl PlainError
      else Inr \<lparr>tokenizer = tk, oldNodeReader = map_option NodeReader_new oldNode,
                positionMapper = BeforeEditPositionMapper_new edits, itemsConstructed = 0, itemsFromCache = 0\<rparr>)"

text \<open>The predicate of \<open>tryReadChildFromCache\<close>.\<close>

definition reusable :: "Length option \<Rightarrow> SmallImmutableSet \<Rightarrow> 'b AstNode \<Rightarrow> bool result" where
  "reusable maxCacheableLength openedBracketIds curNode =
     (case maxCacheableLength of
        Some l \<Rightarrow> if \<not> lengthLessThan (node_length curNode) l then Inr False else canBeReused curNode openedBracketIds
      | None \<Rightarrow> canBeReused curNode openedBracketIds)"

definition tryReadChildFromCache ::
  "('s, 'b) Tokenizer \<Rightarrow> SmallImmutableSet \<Rightarrow> ('s, 'b) BracketParser \<Rightarrow> ('b AstNode option \<times> ('s, 'b) BracketParser) result" where
  "tryReadChildFromCache T openedBracketIds p =
     (case oldNodeReader p of
        None \<Rightarrow> Inr (None, p)
      | Some reader \<Rightarrow>
          let offset = tk_offset T (tokenizer p);
              (maxCacheableLength, mapper) = getDistanceToNextChange (positionMapper p) offset
          in if (case maxCacheableLength of None \<Rightarrow> True | Some l \<Rightarrow> \<not> lengthIsZero l) then
               let (oldOffset, mapper') = getOffsetBeforeChange mapper offset in
               bindr (readLongestNodeAt reader oldOffset (reusable maxCacheableLength openedBracketIds)) (\<lambda>(cachedNode, reader').
                 let p' = p\<lparr>positionMapper := mapper', oldNodeReader := Some reader'\<rparr> in
                 case cachedNode of
                   None \<Rightarrow> Inr (None, p')
                 | Some node \<Rightarrow>
                     bindr (tk_skip T (tokenizer p') (node_length node)) (\<lambda>tk.
                       Inr (Some node, p'\<lparr>itemsFromCache := itemsFromCache p' + 1, tokenizer := tk\<rparr>)))
             else Inr (None, p\<lparr>positionMapper := mapper\<rparr>))"

definition as_child :: "'b AstNode option \<Rightarrow> 'b AstNode result" where
  "as_child n = (case n of None \<Rightarrow> Inl TypeErr | Some c \<Rightarrow> Inr c)"

definition empty_list :: "'b AstNode \<Rightarrow> bool" where
  "empty_list child \<longleftrightarrow> isList child \<and> childrenLength child = 0"

definition closes :: "'b BracketToken \<Rightarrow> 'b BracketToken option \<Rightarrow> bool" where
  "closes token nextToken \<longleftrightarrow>
     (case nextToken of
        None \<Rightarrow> False
      | Some t \<Rightarrow> token_kind t = ClosingBracket \<and>
          (bracketId t = bracketId token \<or> SmallImmutableSet_intersects (bracketIds t) (bracketIds token)))"

definition stops :: "'b BracketToken option \<Rightarrow> SmallImmutableSet \<Rightarrow> bool" where
  "stops token openedBracketIds \<longleftrightarrow>
     (case token of
        None \<Rightarrow> True
      | Some t \<Rightarrow> token_kind t = ClosingBracket \<and> SmallImmutableSet_intersects (bracketIds t) openedBracketIds)"

text \<open>The next token, if it closes the pair, is read; the pair is made either way.\<close>

definition finishPair ::
  "('s, 'b) Tokenizer \<Rightarrow> 'b BracketToken \<Rightarrow> 'b AstNode option \<Rightarrow> ('s, 'b) BracketParser \<Rightarrow> ('b AstNode \<times> ('s, 'b) BracketParser) result" where
  "finishPair T token child p =
     (let (nextToken, tk) = tk_peek T (tokenizer p) in
      bindr (as_child (astNode token)) (\<lambda>openingBracket.
        if closes token nextToken then
          Inr (PairAstNode_create openingBracket child (astNode (the nextToken)), p\<lparr>tokenizer := snd (tk_read T tk)\<rparr>)
        else Inr (PairAstNode_create openingBracket child None, p\<lparr>tokenizer := tk\<rparr>)))"

definition concatItems :: "bool \<Rightarrow> ('s, 'b) BracketParser \<Rightarrow> 'b AstNode list \<Rightarrow> 'b AstNode option result" where
  "concatItems createImmutableLists p nodes =
     (if oldNodeReader p \<noteq> None then concat23Trees nodes else concat23TreesOfSameHeight nodes createImmutableLists)"

text \<open>\<open>parseItems\<close> is the loop of \<open>parseList\<close>.\<close>

fun parseList :: "nat \<Rightarrow> ('s, 'b) Tokenizer \<Rightarrow> bool \<Rightarrow> SmallImmutableSet \<Rightarrow> nat \<Rightarrow> ('s, 'b) BracketParser \<Rightarrow>
      ('b AstNode option \<times> ('s, 'b) BracketParser) result"
and parseItems :: "nat \<Rightarrow> ('s, 'b) Tokenizer \<Rightarrow> bool \<Rightarrow> SmallImmutableSet \<Rightarrow> nat \<Rightarrow> 'b AstNode list \<Rightarrow> ('s, 'b) BracketParser \<Rightarrow>
      ('b AstNode list \<times> ('s, 'b) BracketParser) result"
and parseChild :: "nat \<Rightarrow> ('s, 'b) Tokenizer \<Rightarrow> bool \<Rightarrow> SmallImmutableSet \<Rightarrow> nat \<Rightarrow> ('s, 'b) BracketParser \<Rightarrow>
      ('b AstNode \<times> ('s, 'b) BracketParser) result" where
  "parseList 0 T im openedBracketIds level p = Inl OutOfFuel"
| "parseItems 0 T im openedBracketIds level nodes p = Inl OutOfFuel"
| "parseChild 0 T im openedBracketIds level p = Inl OutOfFuel"
| "parseList (Suc n) T im openedBracketIds level p =
     bindr (parseItems n T im openedBracketIds level [] p) (\<lambda>(nodes, p').
       bindr (concatItems im p' nodes) (\<lambda>result. Inr (result, p')))"
| "parseItems (Suc n) T im openedBracketIds level nodes p =
     bindr (tryReadChildFromCache T openedBracketIds p) (\<lambda>(cached, p1).
       case cached of
         Some child \<Rightarrow> parseItems n T im openedBracketIds level (if empty_list child then nodes else nodes @ [child]) p1
       | None \<Rightarrow>
           let (token, tk) = tk_peek T (tokenizer p1); p2 = p1\<lparr>tokenizer := tk\<rparr> in
           if stops token openedBracketIds then Inr (nodes, p2)
           else
             bindr (parseChild n T im openedBracketIds (level + 1) p2) (\<lambda>(child, p3).
               parseItems n T im openedBracketIds level (if empty_list child then nodes else nodes @ [child]) p3))"
| "parseChild (Suc n) T im openedBracketIds level p =
     (let (read, tk) = tk_read T (tokenizer p); p1 = p\<lparr>itemsConstructed := itemsConstructed p + 1, tokenizer := tk\<rparr> in
      case read of
        None \<Rightarrow> Inl TypeErr
      | Some token \<Rightarrow>
          (case token_kind token of
             ClosingBracket \<Rightarrow> Inr (InvalidBracketAstNode (bracketIds token) (token_length token), p1)
           | TextToken \<Rightarrow> bindr (as_child (astNode token)) (\<lambda>c. Inr (c, p1))
           | OpeningBracket \<Rightarrow>
               if level > 300 then Inr (TextAstNode (token_length token), p1)
               else
                 bindr (parseList n T im (SmallImmutableSet_merge openedBracketIds (bracketIds token)) (level + 1) p1) (\<lambda>(child, p2).
                   finishPair T token child p2)))"

definition BracketParser_parseDocument :: "nat \<Rightarrow> ('s, 'b) Tokenizer \<Rightarrow> bool \<Rightarrow> ('s, 'b) BracketParser \<Rightarrow> ('b AstNode \<times> ('s, 'b) BracketParser) result" where
  "BracketParser_parseDocument n T createImmutableLists p =
     bindr (parseList n T createImmutableLists SmallImmutableSet_getEmpty 0 (p\<lparr>itemsConstructed := 0, itemsFromCache := 0\<rparr>)) (\<lambda>(result, p').
       Inr (case result of None \<Rightarrow> ListAstNode_getEmpty | Some r \<Rightarrow> r, p'))"

definition parseDocument :: "nat \<Rightarrow> ('s, 'b) Tokenizer \<Rightarrow> 's \<Rightarrow> TextEditInfo list \<Rightarrow> 'b AstNode option \<Rightarrow> bool \<Rightarrow> 'b AstNode result" where
  "parseDocument n T tk edits oldNode createImmutableLists =
     bindr (BracketParser_new tk edits oldNode createImmutableLists) (\<lambda>p.
       bindr (BracketParser_parseDocument n T createImmutableLists p) (\<lambda>(result, p'). Inr result))"

section \<open>Nesting\<close>

text \<open>Brackets are nested below the open brackets \<open>S\<close>: a closing bracket without a partner matches no open bracket, and the closing
  bracket of a pair matches its opening bracket.\<close>

fun nested :: "nat set \<Rightarrow> 'b AstNode \<Rightarrow> bool" where
  "nested S (InvalidBracketAstNode ids l) \<longleftrightarrow> elements ids \<inter> S = {}"
| "nested S (PairAstNode l a b c ids) \<longleftrightarrow>
     (case a of
        BracketAstNode _ _ oids \<Rightarrow>
          (case b of Some b' \<Rightarrow> nested (S \<union> elements oids) b' | None \<Rightarrow> True) \<and>
          (case c of Some c' \<Rightarrow> (case c' of BracketAstNode _ _ cids \<Rightarrow> elements cids \<inter> elements oids \<noteq> {} | _ \<Rightarrow> False) | None \<Rightarrow> True)
      | _ \<Rightarrow> False)"
| "nested S (TwoThreeListAstNode _ _ _ a b c _) \<longleftrightarrow>
     nested S a \<and> nested S b \<and> (case c of Some c' \<Rightarrow> nested S c' | None \<Rightarrow> True)"
| "nested S (ArrayListAstNode _ _ _ xs _) \<longleftrightarrow> (\<forall>x \<in> set xs. nested S x)"
| "nested S (TextAstNode _) \<longleftrightarrow> True"
| "nested S (BracketAstNode _ _ _) \<longleftrightarrow> True"

lemma nested_leaves: "nested S n \<longleftrightarrow> (\<forall>m \<in> set (leaves n). nested S m)"
  by (induction n rule: leaves.induct) (auto split: option.split)

lemma merge_all_elements:
  "elements (children_ids x xs) = (\<Union>n \<in> set (x # xs). elements (missingOpeningBracketIds n))"
proof -
  have "elements (foldl (\<lambda>s c. SmallImmutableSet_merge s (missingOpeningBracketIds c)) s xs) = elements s \<union> (\<Union>n \<in> set xs. elements (missingOpeningBracketIds n))" for s
    by (induction xs arbitrary: s) (auto simp: merge_elements)
  then show ?thesis by (simp add: children_ids_def)
qed

text \<open>The cached identifiers are disjoint from the open brackets, and a node can be moved below other brackets that are disjoint from
  them, which is what \<open>canBeReused\<close> checks.\<close>

lemma nested_pair:
  "nested S (PairAstNode l a b c ids) \<longleftrightarrow>
     (\<exists>la k oids. a = BracketAstNode la k oids \<and> (\<forall>b'. b = Some b' \<longrightarrow> nested (S \<union> elements oids) b') \<and>
        (\<forall>c'. c = Some c' \<longrightarrow> (\<exists>lc k' cids. c' = BracketAstNode lc k' cids \<and> elements cids \<inter> elements oids \<noteq> {})))"
  by (auto split: AstNode.split option.split)

declare nested.simps(2) [simp del]

lemma tree23_pair_ids:
  "tree23 (PairAstNode l a b c ids) \<Longrightarrow> ids = (case b of Some b' \<Rightarrow> missingOpeningBracketIds b' | None \<Rightarrow> SmallImmutableSet_getEmpty)"
  by (simp add: PairAstNode_create_def Let_def)

lemma nested_missing: "tree23 n \<Longrightarrow> nested S n \<Longrightarrow> elements (missingOpeningBracketIds n) \<inter> S = {}"
proof (induction n arbitrary: S rule: tree23.induct)
  case (1 l a b c ids)
  obtain la k oids where n: "a = BracketAstNode la k oids" "\<forall>b'. b = Some b' \<longrightarrow> nested (S \<union> elements oids) b'"
    using 1(5) unfolding nested_pair by blast
  show ?case
  proof (cases b)
    case None
    then show ?thesis using tree23_pair_ids [OF 1(4)] by simp
  next
    case (Some b')
    then have "elements (missingOpeningBracketIds b') \<inter> (S \<union> elements oids) = {}" using 1(2) [OF Some, of "S \<union> elements oids"] 1(4) n(2) by simp
    then show ?thesis using tree23_pair_ids [OF 1(4)] Some by auto
  qed
next
  case (2 im l h a b c ids)
  have "ids = children_ids a (b # (case c of Some c' \<Rightarrow> [c'] | None \<Rightarrow> []))" using 2(4) by (simp add: create23_iff)
  then have ids: "elements ids = elements (missingOpeningBracketIds a) \<union> elements (missingOpeningBracketIds b) \<union>
      (case c of Some c' \<Rightarrow> elements (missingOpeningBracketIds c') | None \<Rightarrow> {})"
    by (cases c) (auto simp: merge_all_elements)
  have ab: "elements (missingOpeningBracketIds a) \<inter> S = {}" "elements (missingOpeningBracketIds b) \<inter> S = {}"
    using 2(4,5) by (simp_all add: 2(1,2))
  show ?case
  proof (cases c)
    case None
    then show ?thesis using ab ids by (simp add: Int_Un_distrib2)
  next
    case (Some c')
    then have "elements (missingOpeningBracketIds c') \<inter> S = {}" using 2(4,5) by (intro 2(3)) simp_all
    then show ?thesis using ab ids Some by (simp add: Int_Un_distrib2)
  qed
qed auto

lemma nested_move:
  "tree23 n \<Longrightarrow> nested S n \<Longrightarrow> elements (missingOpeningBracketIds n) \<inter> S' = {} \<Longrightarrow> nested S' n"
proof (induction n arbitrary: S S' rule: tree23.induct)
  case (1 l a b c ids)
  obtain la k oids where n: "a = BracketAstNode la k oids" "\<forall>b'. b = Some b' \<longrightarrow> nested (S \<union> elements oids) b'"
    "\<forall>c'. c = Some c' \<longrightarrow> (\<exists>lc k' cids. c' = BracketAstNode lc k' cids \<and> elements cids \<inter> elements oids \<noteq> {})"
    using 1(5) unfolding nested_pair by blast
  have "nested (S' \<union> elements oids) b'" if b: "b = Some b'" for b'
  proof (rule 1(2) [OF b])
    show t: "tree23 b'" using 1(4) b by simp
    show ne: "nested (S \<union> elements oids) b'" using n(2) b by simp
    show "elements (missingOpeningBracketIds b') \<inter> (S' \<union> elements oids) = {}"
      using nested_missing [OF t ne] 1(6) tree23_pair_ids [OF 1(4)] b by auto
  qed
  then show ?case unfolding nested_pair using n by blast
next
  case (2 im l h a b c ids)
  have "ids = children_ids a (b # (case c of Some c' \<Rightarrow> [c'] | None \<Rightarrow> []))" using 2(4) by (simp add: create23_iff)
  then have ids: "elements ids = elements (missingOpeningBracketIds a) \<union> elements (missingOpeningBracketIds b) \<union>
      (case c of Some c' \<Rightarrow> elements (missingOpeningBracketIds c') | None \<Rightarrow> {})"
    by (cases c) (auto simp: merge_all_elements)
  then have parts: "elements (missingOpeningBracketIds a) \<inter> S' = {}" "elements (missingOpeningBracketIds b) \<inter> S' = {}"
    "c = Some c' \<Longrightarrow> elements (missingOpeningBracketIds c') \<inter> S' = {}" for c'
    using 2(6) by (auto split: option.splits)
  have ab: "nested S' a" "nested S' b"
    using 2(1) [of S S'] 2(2) [of S S'] 2(4,5) parts(1,2) by simp_all
  have "nested S' c'" if "c = Some c'" for c'
    using 2(3) [OF that, of S S'] 2(4,5) parts(3) [OF that] that by simp
  then show ?case using ab by (simp split: option.split)
qed auto

section \<open>Parsing without an old tree\<close>

text \<open>A node made from the tokens \<open>ts\<close> below the open brackets \<open>S\<close>.\<close>

definition parsed :: "nat set \<Rightarrow> 'b BracketToken list \<Rightarrow> 'b AstNode \<Rightarrow> bool" where
  "parsed S ts n \<longleftrightarrow> tree23 n \<and> nested S n \<and> map node_length (tokens n) = map token_length ts"

definition parsed_items :: "nat set \<Rightarrow> 'b BracketToken list \<Rightarrow> 'b AstNode list \<Rightarrow> bool" where
  "parsed_items S ts ns \<longleftrightarrow>
     (\<forall>n \<in> set ns. tree23 n \<and> nested S n \<and> \<not> isList n) \<and> map node_length (concat (map tokens ns)) = map token_length ts"

definition parsed_opt :: "nat set \<Rightarrow> 'b BracketToken list \<Rightarrow> 'b AstNode option \<Rightarrow> bool" where
  "parsed_opt S ts r \<longleftrightarrow> (case r of None \<Rightarrow> ts = [] | Some n \<Rightarrow> parsed S ts n)"

lemma parsed_items_snoc:
  "parsed_items S ts ns \<Longrightarrow> parsed S us n \<Longrightarrow> \<not> isList n \<Longrightarrow> parsed_items S (ts @ us) (ns @ [n])"
  by (auto simp: parsed_items_def parsed_def)

lemma concat_parsed:
  assumes "parsed_items S ts ns" and "oldNodeReader p = None"
  shows "\<exists>r. concatItems im p ns = Inr r \<and> parsed_opt S ts r"
proof (cases "ns = []")
  case True
  then show ?thesis using assms by (auto simp: concatItems_def concat23TreesOfSameHeight_def parsed_opt_def parsed_items_def)
next
  case False
  have "level_ok 0 ns" using assms(1) tree23_list_height by (auto simp: level_ok_def parsed_items_def)
  then obtain n where n: "concat23TreesOfSameHeight ns im = Inr (Some n)" "tree23 n" "leaves n = concat (map leaves ns)"
    using concat23TreesOfSameHeight_ok False unfolding concat_opt_ok_def by blast
  have "leaves m = [m]" if "m \<in> set ns" for m
    using assms(1) that by (cases m) (auto simp: parsed_items_def)
  then have l: "leaves n = ns" using n(3) by (simp add: map_idI cong: map_cong)
  have "parsed S ts n"
    using assms(1) n(2) l nested_leaves [of S n] tokens_leaves [of n] by (simp add: parsed_def parsed_items_def)
  then show ?thesis using n(1) assms(2) by (simp add: concatItems_def parsed_opt_def)
qed

definition list_post :: "('s \<Rightarrow> 'b BracketToken list) \<Rightarrow> SmallImmutableSet \<Rightarrow> 's \<Rightarrow> ('b BracketToken list \<Rightarrow> 'a \<Rightarrow> bool) \<Rightarrow>
    ('a \<times> ('s, 'b) BracketParser) result \<Rightarrow> bool" where
  "list_post rest ids s Q r \<longleftrightarrow>
     (\<exists>x p' ts us. r = Inr (x, p') \<and> rest s = ts @ us \<and> rest (tokenizer p') = us \<and> Q ts x \<and> oldNodeReader p' = None \<and>
        (us \<noteq> [] \<longrightarrow> stops (Some (hd us)) ids))"

definition child_post :: "('s \<Rightarrow> 'b BracketToken list) \<Rightarrow> nat set \<Rightarrow> 's \<Rightarrow> ('b AstNode \<times> ('s, 'b) BracketParser) result \<Rightarrow> bool" where
  "child_post rest S s r \<longleftrightarrow>
     (\<exists>c p' ts us. r = Inr (c, p') \<and> rest s = ts @ us \<and> ts \<noteq> [] \<and> rest (tokenizer p') = us \<and> parsed S ts c \<and> \<not> isList c \<and>
        oldNodeReader p' = None)"

lemma not_stops_nested:
  "\<not> stops (Some t) ids \<Longrightarrow> token_kind t = ClosingBracket \<Longrightarrow> elements (bracketIds t) \<inter> elements ids = {}"
  by (auto simp: stops_def intersects_iff)

lemma closes_intersects:
  assumes "closes token (Some t)" and "token_ok token" and "token_ok t" and "token_kind token = OpeningBracket"
  shows "token_kind t = ClosingBracket \<and> elements (bracketIds t) \<inter> elements (bracketIds token) \<noteq> {}"
  using assms by (auto simp: closes_def intersects_iff token_ok_def)

lemma tree23_PairAstNode_create:
  "tree23 a \<Longrightarrow> (\<And>b'. b = Some b' \<Longrightarrow> tree23 b') \<Longrightarrow> (\<And>c'. c = Some c' \<Longrightarrow> tree23 c') \<Longrightarrow> tree23 (PairAstNode_create a b c)"
  by (auto simp: PairAstNode_create_def Let_def split: option.split)

lemma PairAstNode_create_eq: "\<exists>l ids. PairAstNode_create a b c = PairAstNode l a b c ids"
  by (simp add: PairAstNode_create_def Let_def)

text \<open>A pair whose child was parsed below the opening bracket.\<close>

lemma parsed_pair:
  assumes "token_ok t" and "token_kind t = OpeningBracket" and "parsed_opt (S \<union> elements (bracketIds t)) ts child"
    and "\<And>u. closing = Some u \<Longrightarrow> token_ok u \<and> closes t (Some u)"
    and "us = (case closing of None \<Rightarrow> [] | Some u \<Rightarrow> [u])"
    and "node = PairAstNode_create (the (astNode t)) child (case closing of None \<Rightarrow> None | Some u \<Rightarrow> astNode u)"
  shows "parsed S (t # ts @ us) node \<and> \<not> isList node"
proof -
  obtain k where a: "astNode t = Some (BracketAstNode (token_length t) k (bracketIds t))" "0 \<le> token_length t"
    using assms(1,2) by (auto simp: token_ok_def)
  have c: "\<exists>k'. astNode u = Some (BracketAstNode (token_length u) k' (bracketIds u)) \<and> 0 \<le> token_length u \<and>
      elements (bracketIds u) \<inter> elements (bracketIds t) \<noteq> {}" if "closing = Some u" for u
    using closes_intersects [of t u] assms(1,2,4) that by (auto simp: token_ok_def)
  obtain l ids where node: "node = PairAstNode l (the (astNode t)) child (case closing of None \<Rightarrow> None | Some u \<Rightarrow> astNode u) ids"
    using PairAstNode_create_eq assms(6) by metis
  have child: "child = None \<and> ts = [] \<or> (\<exists>n. child = Some n \<and> parsed (S \<union> elements (bracketIds t)) ts n)"
    using assms(3) by (auto simp: parsed_opt_def split: option.splits)
  have "tree23 node"
    unfolding assms(6) using a c child by (intro tree23_PairAstNode_create) (auto simp: parsed_def split: option.splits)
  moreover have "nested S node"
    unfolding node nested_pair using a c child by (auto simp: parsed_def disjoint_iff split: option.splits) (metis disjoint_iff)+
  moreover have "map node_length (tokens node) = map token_length (t # ts @ us)"
    using a c child by (auto simp: node assms(5) parsed_def split: option.splits)
  ultimately show ?thesis by (simp add: parsed_def node)
qed

context token_source
begin

lemma finishPair_ok:
  assumes "token_ok t" and "token_kind t = OpeningBracket" and "parsed_opt (S \<union> elements (bracketIds t)) ts child"
    and "\<forall>u \<in> set (rest (tokenizer p)). token_ok u" and "oldNodeReader p = None" and "rest s = t # ts @ rest (tokenizer p)"
  shows "child_post rest S s (finishPair T t child p)"
proof -
  obtain k where a: "astNode t = Some (BracketAstNode (token_length t) k (bracketIds t))"
    using assms(1,2) by (auto simp: token_ok_def)
  obtain tok tk where pk: "tk_peek T (tokenizer p) = (tok, tk)" by (cases "tk_peek T (tokenizer p)")
  have tok: "tok = (case rest (tokenizer p) of [] \<Rightarrow> None | t # _ \<Rightarrow> Some t)" "rest tk = rest (tokenizer p)"
    using peek_token [of "tokenizer p"] peek_rest [of "tokenizer p"] pk by simp_all
  show ?thesis
  proof (cases "closes t tok")
    case True
    then obtain u us where u: "rest (tokenizer p) = u # us" "tok = Some u"
      using tok(1) by (cases "rest (tokenizer p)") (auto simp: closes_def)
    have read: "rest (snd (tk_read T tk)) = us" using read_rest [OF u(1)] pk by simp
    have "parsed S (t # ts @ [u]) (PairAstNode_create (the (astNode t)) child (astNode u)) \<and>
        \<not> isList (PairAstNode_create (the (astNode t)) child (astNode u))"
      using parsed_pair [OF assms(1,2,3), of "Some u"] u assms(4) True by simp
    then show ?thesis
      using True pk read u a assms(5,6)
      by (auto simp: child_post_def finishPair_def as_child_def intro!: exI [of _ "t # ts @ [u]"])
  next
    case False
    have "parsed S (t # ts) (PairAstNode_create (the (astNode t)) child None) \<and> \<not> isList (PairAstNode_create (the (astNode t)) child None)"
      using parsed_pair [OF assms(1,2,3), of None] by simp
    then show ?thesis
      using False pk tok(2) a assms(5,6) by (auto simp: child_post_def finishPair_def as_child_def intro!: exI [of _ "t # ts"])
  qed
qed

lemma parse_ok:
  "\<lbrakk>oldNodeReader p = None; \<forall>t \<in> set (rest (tokenizer p)). token_ok t; 3 * length (rest (tokenizer p)) + 2 \<le> n\<rbrakk>
     \<Longrightarrow> list_post rest ids (tokenizer p) (parsed_opt (elements ids)) (parseList n T im ids level p)" (is "\<lbrakk>_; _; _\<rbrakk> \<Longrightarrow> ?list n p ids level")
  "\<lbrakk>oldNodeReader p = None; \<forall>t \<in> set (rest (tokenizer p)). token_ok t; 3 * length (rest (tokenizer p)) + 1 \<le> n;
      parsed_items (elements ids) pre nodes\<rbrakk>
     \<Longrightarrow> list_post rest ids (tokenizer p) (\<lambda>ts ns. parsed_items (elements ids) (pre @ ts) ns) (parseItems n T im ids level nodes p)"
  "\<lbrakk>oldNodeReader p = None; tokenizer p = snd (tk_peek T s); rest s = t # us; \<not> stops (Some t) ids;
      \<forall>t \<in> set (rest s). token_ok t; 3 * length (rest s) \<le> n\<rbrakk>
     \<Longrightarrow> child_post rest (elements ids) s (parseChild n T im ids level p)"
proof (induction n arbitrary: p ids level nodes pre s t us)
  case (Suc n)
  {
    case 1
    have "list_post rest ids (tokenizer p) (\<lambda>ts ns. parsed_items (elements ids) ([] @ ts) ns) (parseItems n T im ids level [] p)"
      using 1 by (intro Suc.IH(2)) (auto simp: parsed_items_def)
    then obtain ns p' ts us where i: "parseItems n T im ids level [] p = Inr (ns, p')" "rest (tokenizer p) = ts @ us" "rest (tokenizer p') = us"
      "parsed_items (elements ids) ts ns" "oldNodeReader p' = None" "us \<noteq> [] \<longrightarrow> stops (Some (hd us)) ids"
      by (auto simp: list_post_def)
    obtain r where "concatItems im p' ns = Inr r" "parsed_opt (elements ids) ts r" using concat_parsed [OF i(4,5)] by blast
    then show ?case using i by (auto simp: list_post_def intro!: exI [of _ ts])
  next
    case 2
    obtain tok tk where pk: "tk_peek T (tokenizer p) = (tok, tk)" by (cases "tk_peek T (tokenizer p)")
    have tok: "tok = (case rest (tokenizer p) of [] \<Rightarrow> None | t # _ \<Rightarrow> Some t)" "rest tk = rest (tokenizer p)"
      using peek_token [of "tokenizer p"] peek_rest [of "tokenizer p"] pk by simp_all
    have cache: "tryReadChildFromCache T ids p = Inr (None, p)" using 2(1) by (simp add: tryReadChildFromCache_def)
    show ?case
    proof (cases "stops tok ids")
      case True
      have "parseItems (Suc n) T im ids level nodes p = Inr (nodes, p\<lparr>tokenizer := tk\<rparr>)" using True by (simp add: cache pk)
      then show ?thesis using 2 True tok by (auto simp: list_post_def intro!: exI [of _ "[]"] split: list.splits)
    next
      case False
      then obtain t us where r: "rest (tokenizer p) = t # us" "tok = Some t"
        using tok(1) by (cases "rest (tokenizer p)") (auto simp: stops_def)
      let ?p = "p\<lparr>tokenizer := tk\<rparr>"
      have "child_post rest (elements ids) (tokenizer p) (parseChild n T im ids (level + 1) ?p)"
        using 2 False r pk by (intro Suc.IH(3)) auto
      then obtain c p3 ts1 us1 where c: "parseChild n T im ids (level + 1) ?p = Inr (c, p3)" "rest (tokenizer p) = ts1 @ us1" "ts1 \<noteq> []"
        "rest (tokenizer p3) = us1" "parsed (elements ids) ts1 c" "\<not> isList c" "oldNodeReader p3 = None"
        by (auto simp: child_post_def)
      have "length us1 < length (rest (tokenizer p))" using c(2,3) by simp
      then have "3 * length us1 + 1 \<le> n" using 2(3) by simp
      then have "list_post rest ids (tokenizer p3) (\<lambda>ts ns. parsed_items (elements ids) ((pre @ ts1) @ ts) ns)
          (parseItems n T im ids level (nodes @ [c]) p3)"
        using 2 c by (intro Suc.IH(2) parsed_items_snoc) auto
      moreover have "parseItems (Suc n) T im ids level nodes p = parseItems n T im ids level (nodes @ [c]) p3"
        using False c(1,6) by (simp add: cache pk empty_list_def)
      ultimately show ?thesis using c(2,4) by (auto simp: list_post_def)
    qed
  next
    case 3
    obtain tk where rd: "tk_read T (tokenizer p) = (Some t, tk)" "rest tk = us"
      using read_token [OF 3(3)] read_rest [OF 3(3)] 3(2) by (cases "tk_read T (tokenizer p)") simp
    let ?p = "p\<lparr>itemsConstructed := itemsConstructed p + 1, tokenizer := tk\<rparr>"
    have ok: "token_ok t" using 3(3,5) by simp
    show ?case
    proof (cases "token_kind t")
      case TextToken
      then have "astNode t = Some (TextAstNode (token_length t))" "0 \<le> token_length t" using ok by (auto simp: token_ok_def)
      then show ?thesis using TextToken 3 rd
        by (auto simp: child_post_def parsed_def as_child_def split: prod.splits intro!: exI [of _ "[t]"])
    next
      case ClosingBracket
      then show ?thesis using 3 rd ok not_stops_nested [OF 3(4)]
        by (auto simp: child_post_def parsed_def token_ok_def split: prod.splits intro!: exI [of _ "[t]"])
    next
      case OpeningBracket
      show ?thesis
      proof (cases "level > 300")
        case True
        then show ?thesis using OpeningBracket 3 rd ok
          by (auto simp: child_post_def parsed_def token_ok_def split: prod.splits intro!: exI [of _ "[t]"])
      next
        case False
        let ?ids = "SmallImmutableSet_merge ids (bracketIds t)"
        have "list_post rest ?ids (tokenizer ?p) (parsed_opt (elements ?ids)) (parseList n T im ?ids (level + 1) ?p)"
          using 3 rd by (intro Suc.IH(1)) auto
        then obtain child p2 ts us2 where l: "parseList n T im ?ids (level + 1) ?p = Inr (child, p2)" "us = ts @ us2" "rest (tokenizer p2) = us2"
          "parsed_opt (elements ids \<union> elements (bracketIds t)) ts child" "oldNodeReader p2 = None"
          using rd(2) by (auto simp: list_post_def merge_elements)
        have "child_post rest (elements ids) s (finishPair T t child p2)"
        proof (rule finishPair_ok [OF ok OpeningBracket l(4) _ l(5)])
          show "rest s = t # ts @ rest (tokenizer p2)" using 3(3) l(2,3) by simp
          then show "\<forall>u \<in> set (rest (tokenizer p2)). token_ok u" using 3(5) by simp
        qed
        moreover have "parseChild (Suc n) T im ids level p = finishPair T t child p2"
          using False OpeningBracket l(1) by (simp add: rd(1) Let_def)
        ultimately show ?thesis by simp
      qed
    qed
  }
qed auto

end

lemma not_stops_empty: "\<not> stops (Some t) SmallImmutableSet_getEmpty"
  by (simp add: stops_def intersects_iff)

lemma parseDocument_ok:
  assumes "token_source T rest" and "\<forall>t \<in> set (rest s). token_ok t" and "3 * length (rest s) + 2 \<le> n"
  shows "\<exists>r. parseDocument n T s edits None im = Inr (case r of None \<Rightarrow> ListAstNode_getEmpty | Some d \<Rightarrow> d) \<and> parsed_opt {} (rest s) r"
proof -
  obtain p :: "('a, 'b) BracketParser" where p: "BracketParser_new s edits None im = Inr p" "tokenizer p = s" "oldNodeReader p = None"
    by (simp add: BracketParser_new_def)
  let ?p = "p\<lparr>itemsConstructed := 0, itemsFromCache := 0\<rparr>"
  have "list_post rest SmallImmutableSet_getEmpty (tokenizer ?p) (parsed_opt (elements SmallImmutableSet_getEmpty))
      (parseList n T im SmallImmutableSet_getEmpty 0 ?p)"
    by (rule token_source.parse_ok(1) [OF assms(1)]) (use assms(2,3) p in simp_all)
  then obtain r p' ts us where r: "parseList n T im SmallImmutableSet_getEmpty 0 ?p = Inr (r, p')" "rest s = ts @ us" "parsed_opt {} ts r"
    "us \<noteq> [] \<longrightarrow> stops (Some (hd us)) SmallImmutableSet_getEmpty"
    using p(2) by (auto simp: list_post_def)
  then have "us = []" using not_stops_empty by blast
  then show ?thesis using r p(1) by (auto simp: parseDocument_def BracketParser_parseDocument_def)
qed

text \<open>C18. Parsing without an old tree, from any tokenizer that keeps its contract: with three units of fuel for every token the
  parser returns, its tree is balanced and its caches are right (or it is the empty list), the brackets are nested, and the nodes
  below it have the lengths of the tokens in order: none is lost, none is added.\<close>

theorem BracketParser_parseDocument_correct:
  assumes "token_source T rest" and "\<forall>t \<in> set (rest s). token_ok t" and "3 * length (rest s) + 2 \<le> n"
  shows "\<exists>tree. parseDocument n T s edits None im = Inr tree \<and> (if rest s = [] then tree = ListAstNode_getEmpty else tree23 tree) \<and>
    nested {} tree \<and> map node_length (tokens tree) = map token_length (rest s)"
proof -
  obtain r where r: "parseDocument n T s edits None im = Inr (case r of None \<Rightarrow> ListAstNode_getEmpty | Some d \<Rightarrow> d)" "parsed_opt {} (rest s) r"
    using parseDocument_ok [OF assms] by blast
  have "tokens d \<noteq> []" if "tree23 d" for d :: "'b AstNode"
    using that by (induction d rule: tokens.induct) auto
  then show ?thesis using r
    by (cases r) (auto simp: parsed_opt_def parsed_def ListAstNode_getEmpty_def)
qed

text \<open>An interface to the tokens of a text with one pair of brackets.\<close>

definition one_pair :: Brackets where
  "one_pair =
     [([123], BracketToken_new (toLength 0 1) OpeningBracket 0 (SmallImmutableSet_create 1 [])
         (Some (BracketAstNode (toLength 0 1) \<lparr>bracketText = [123], languageId = [99]\<rparr> (SmallImmutableSet_create 1 [])))),
      ([125], BracketToken_new (toLength 0 1) ClosingBracket 0 (SmallImmutableSet_create 1 [])
         (Some (BracketAstNode (toLength 0 1) \<lparr>bracketText = [125], languageId = [99]\<rparr> (SmallImmutableSet_create 1 []))))]"

text \<open>A closing bracket, a pair and an unclosed pair.\<close>

lemma one_pair_tokens:
  "map_option FastTokenizer_rest (FastTokenizer_new ascii_lower (map ascii_lower) [125, 123, 97, 125, 123] one_pair) =
     Some (map the [map_of one_pair [125], map_of one_pair [123], Some (text_token 1), map_of one_pair [125], map_of one_pair [123]])"
  by code_simp

theorem BracketParser_parseDocument_correct_witness:
  "\<exists>t tree. FastTokenizer_new ascii_lower (map ascii_lower) [125, 123, 97, 125, 123] one_pair = Some t \<and>
     parseDocument 20 FastTokenizer_interface t [] None True = Inr tree \<and> map node_length (tokens tree) = [1, 1, 1, 1, 1]"
proof -
  obtain t where t: "FastTokenizer_new ascii_lower (map ascii_lower) [125, 123, 97, 125, 123] one_pair = Some t"
    "FastTokenizer_rest t = map the [map_of one_pair [125], map_of one_pair [123], Some (text_token 1), map_of one_pair [125], map_of one_pair [123]]"
    using one_pair_tokens by auto
  have "\<forall>tok \<in> set (FastTokenizer_rest t). token_ok tok"
    by (simp add: t(2) one_pair_def token_ok_def text_token_def BracketToken_new_def toLength_nonneg elements_masks masks_def item_or_0_def SmallImmutableSet_create_def)
  then obtain tree where "parseDocument 20 FastTokenizer_interface t [] None True = Inr tree" "map node_length (tokens tree) = map token_length (FastTokenizer_rest t)"
    using BracketParser_parseDocument_correct [OF fast.token_source_axioms, of t 20 "[]" True] by (auto simp: t(2))
  then show ?thesis using t by (auto simp: one_pair_def BracketToken_new_def toLength_def text_token_def)
qed

section \<open>Parsing a text\<close>

text \<open>The lengths of tokens as a sum of lengths of nodes.\<close>

lemma tokens_length_tl_sum:
  assumes "map node_length ns = map token_length ts"
  shows "tokens_length (map Some ts) = tl_sum ns"
  using assms by (induction ns arbitrary: ts) (auto simp: tokens_length_def Cons_eq_map_conv)

lemma prefixes_fit_lines_fit:
  assumes "map node_length ns = map token_length ts" and "prefixes_fit (map Some ts)" and "\<forall>t \<in> set ts. token_ok t"
  shows "lines_fit ns"
proof -
  have "columnCount (tl_sum (take k ns)) < factor" for k
  proof -
    have "map node_length (take k ns) = map token_length (take k ts)" using assms(1) by (metis take_map)
    then have "tokens_length (take k (map Some ts)) = tl_sum (take k ns)" using tokens_length_tl_sum [of "take k ns" "take k ts"] by (simp add: take_map)
    then show ?thesis using assms(2) unfolding prefixes_fit_def by metis
  qed
  moreover have "0 \<le> node_length n" if "n \<in> set ns" for n
  proof -
    have "node_length n \<in> token_length ` set ts" using that assms(1) by (metis image_eqI list.set_map)
    then obtain t where "t \<in> set ts" "node_length n = token_length t" by blast
    then show ?thesis using assms(3) by (simp add: token_ok_def)
  qed
  ultimately show ?thesis by (simp add: lines_fit_def)
qed

lemma FastTokenizer_rest_all:
  "ft_idx t = 0 \<Longrightarrow> \<forall>tok \<in> set (ft_tokens t). token_real tok \<Longrightarrow>
     ft_tokens t = map Some (FastTokenizer_rest t) \<and> (\<forall>tok \<in> set (FastTokenizer_rest t). token_ok tok)"
proof -
  assume t: "ft_idx t = 0" "\<forall>tok \<in> set (ft_tokens t). token_real tok"
  then have all: "takeWhile (\<lambda>tok. tok \<noteq> None) (ft_tokens t) = ft_tokens t"
    by (auto simp: takeWhile_eq_all_conv token_real_def split: option.splits)
  have "map Some (map the (ft_tokens t)) = ft_tokens t"
    using t(2) by (auto simp: token_real_def intro!: map_idI split: option.splits)
  moreover have "FastTokenizer_rest t = map the (ft_tokens t)" unfolding FastTokenizer_rest_def t(1) drop_0 all ..
  ultimately show ?thesis using t(2) by (auto simp: token_real_def split: option.splits)
qed


lemma ascii_lower_fixed: "ascii_lower c = 10 \<longleftrightarrow> c = 10" "ascii_lower c = 123 \<longleftrightarrow> c = 123" "ascii_lower c = 125 \<longleftrightarrow> c = 125"
  using ascii_lower_other [of 10 c] ascii_lower_other [of 123 c] ascii_lower_other [of 125 c] by (auto simp: ascii_lower_def)


end
