(* ===== verification/Spec2Isabelle.thy ===== *)
theory Spec2Isabelle
  imports Text_Length Selections String_Edit Prefix_Sum Keybinding_Correct When_Roundtrip Diff_Correct Bracket_Parser
begin

text \<open>
  Verification library for the core logic of the editor platform under \<open>src/src/vs\<close>.

  The program is a code editor: a user interface of some hundred thousand lines around a core that
  does the actual computing. The development models parts of that core, each as the code has it, and
  proves what makes it correct. Four groups of components are covered.

  The \<^bold>\<open>text model\<close> of \<open>editor/common\<close>. Positions, ranges and selections address text by line and column
  (\<open>core/position.ts\<close>, \<open>range.ts\<close>, \<open>selection.ts\<close>); offset ranges and line ranges and the sets of them
  (\<open>core/ranges\<close>) are what edits and diffs are made of; the sets search with the binary searches of
  \<open>base/common/arraysFind.ts\<close>; text lengths (\<open>core/text\<close>) connect positions and texts; string edits
  (\<open>core/edits\<close>) are composed, rebased, inverted and normalized; prefix sums (\<open>model/prefixSumComputer.ts\<close>)
  map offsets to lines.

  The \<^bold>\<open>diff computer\<close> of \<open>editor/common/diff/defaultLinesDiffComputer\<close>. Two documents become sequences
  of numbered lines, one of two algorithms aligns them, heuristics move and join the differences, and
  the line level of \<open>computeDiff\<close> hands the stretches that differ to the character level.

  The \<^bold>\<open>keyboard\<close> path of \<open>platform\<close>. A key press goes to the dispatch state machine
  (\<open>keybinding/common/abstractKeybindingService.ts\<close>), which asks the resolver (\<open>keybindingResolver.ts\<close>) for
  the rule that answers the pressed chords; the rules carry \<open>when\<close> clauses, which are scanned and
  parsed (\<open>contextkey/common/scanner.ts\<close>, \<open>contextkey.ts\<close>), normalized to disjunctive normal form,
  evaluated in a context, and compared by a sound but incomplete implication test when the resolver
  decides which rules another one hides.

  The \<^bold>\<open>bracket pair tree\<close> of \<open>editor/common/model/bracketPairsTextModelPart/bracketPairsTree\<close>, from which the
  editor colours matching brackets. A tokenizer cuts the text at its brackets; the parser makes pairs of
  them and puts the nodes of a level into balanced 2-3 lists; after an edit it takes nodes of the old
  tree again, which the node reader finds at the position that the position mapper translates. Lengths
  of text are packed into single numbers, sets of bracket ids into bit masks.

  \<^bold>\<open>Theories and sources.\<close>
  \<^item> \<open>Prelude\<close>: results (an error or a value), the string and array primitives of the language.
  \<^item> \<open>Arrays_Find\<close>: \<open>base/common/arraysFind.ts\<close>.
  \<^item> \<open>Interval_Lists\<close>: the locale of half-open intervals that offset ranges and line ranges share, and
    the laws of sorted lists of intervals that do not touch.
  \<^item> \<open>Position_Range\<close>, \<open>Selections\<close>: \<open>core/position.ts\<close>, \<open>core/range.ts\<close>, \<open>core/selection.ts\<close>.
  \<^item> \<open>Offset_Range\<close>, \<open>Line_Range\<close>: \<open>core/ranges/offsetRange.ts\<close>, \<open>core/ranges/lineRange.ts\<close>.
  \<^item> \<open>Text_Length\<close>: \<open>core/text/textLength.ts\<close>.
  \<^item> \<open>Edit_Model\<close>: the specification of an edit, a list of splices applied at once. \<open>Base_Edit\<close>:
    \<open>core/edits/edit.ts\<close> over the locale of a replacement class. \<open>String_Edit\<close>: \<open>core/edits/stringEdit.ts\<close>,
    which interprets that locale for plain and for annotated replacements.
  \<^item> \<open>Prefix_Sum\<close>: \<open>model/prefixSumComputer.ts\<close>, \<open>base/common/uint.ts\<close>.
  \<^item> \<open>Diff_Sequence\<close>: \<open>algorithms/diffAlgorithm.ts\<close>, the locale of sequences and what an alignment is.
    \<open>Diff_Dynamic\<close>, \<open>Diff_Myers\<close>: the two algorithms. \<open>Diff_Heuristics\<close>, \<open>Diff_Removal\<close>:
    \<open>heuristicSequenceOptimizations.ts\<close>. \<open>Diff_Lines\<close>: \<open>lineSequence.ts\<close> and the numbering of lines, which
    interpret the locale. \<open>Diff_Compute\<close>: the line level of \<open>defaultLinesDiffComputer.ts\<close>.
    \<open>Diff_Correct\<close>: their properties.
  \<^item> \<open>Js_Values\<close>: the values of context keys and their coercions. \<open>Context_Key\<close>: the expression classes
    of \<open>contextkey.ts\<close>; \<open>Context_Key_Normal\<close>: their normalization; \<open>Context_Key_Laws\<close>: every operation
    preserves the meaning; \<open>Context_Key_DNF\<close>: normalization returns on normal forms.
  \<^item> \<open>When_Scanner\<close>, \<open>When_Lexing\<close>: \<open>scanner.ts\<close> and its laws. \<open>When_Parser\<close>, \<open>When_Parsing\<close>,
    \<open>When_Roundtrip\<close>: the parser of \<open>contextkey.ts\<close>, its outcome, and reading back what was printed.
  \<^item> \<open>Keybinding_Resolver\<close>, \<open>Keybinding_Laws\<close>: \<open>keybindingResolver.ts\<close>, \<open>resolvedKeybindingItem.ts\<close>.
    \<open>Keybinding_Service\<close>: \<open>abstractKeybindingService.ts\<close>. \<open>Keybinding_Correct\<close>: their properties.
  \<^item> \<open>Small_Set\<close>: \<open>smallImmutableSet.ts\<close>. \<open>Bracket_Length\<close>: \<open>length.ts\<close>. \<open>Bracket_Ast\<close>: \<open>ast.ts\<close>, with what a
    balanced tree with right caches is. \<open>Bracket_Concat\<close>: \<open>concat23Trees.ts\<close>. \<open>Bracket_Mapper\<close>:
    \<open>beforeEditPositionMapper.ts\<close>. \<open>Bracket_Reader\<close>: \<open>nodeReader.ts\<close>. \<open>Bracket_Tokenizer\<close>: \<open>brackets.ts\<close> and
    \<open>tokenizer.ts\<close>, with the locale of tokenizers that the parser rests on. \<open>Bracket_Parser\<close>: \<open>parser.ts\<close>.

  \<^bold>\<open>How the code is translated.\<close> A class is a record or a datatype, a method a function that returns the
  changed record; a thrown error is \<open>Inl\<close>; \<open>null\<close> and \<open>undefined\<close> are \<open>None\<close>; integral numbers are
  \<open>int\<close> or \<open>nat\<close>, and typed arrays and the coercion \<open>x | 0\<close> wrap around where the code relies on it. A method
  that a subclass overrides is a field of a record of methods. Names are those of the code.

  \<^bold>\<open>What the lemmas show.\<close> The set classes keep their invariant (sorted, not touching) and compute
  union, difference and intersection of the sets of integers they stand for; the binary searches
  agree with linear ones. Edits are stated through the text they produce: composition, sequential
  composition, normalization, trimming, splitting and inversion, and two rebased edits converge. The
  prefix sums equal the sums of the values after every update. The diff algorithms and heuristics
  return valid alignments, so that replacing the differing lines of the original document gives the
  modified one. Every operation on \<open>when\<close> clauses
  preserves their meaning and \<open>implies\<close> is sound; tokens tile the clause; the parser returns, and a
  printed clause is read back with the same meaning. The resolver answers like a reference search
  over the rules, a rule it hides is not the one that runs, and the dispatch machine keeps its
  invariant, runs only the resolver's answer, and runs the command of a chord sequence that is pressed.
  The tokens of a text cover it, the parser returns a balanced tree whose brackets are nested and whose
  leaves are the tokens in order, balanced trees of any height are concatenated to one, the reader
  finds a node exactly where the list of remaining nodes has one, and a position before the edits is
  what the lengths of the edits add up to.

  \<^bold>\<open>Bounds and fuel.\<close> The normalizing constructors of \<open>when\<close> clauses call each other through \<open>negate\<close>;
  \<open>ck_ops h n\<close> allows \<open>n\<close> nested calls, and four are enough for operands in disjunctive normal form
  (\<open>Context_Key_DNF\<close>), which is what the constructors return; results are right for every fuel. The three
  functions of the bracket parser that call each other take fuel, and three units for every token and
  two more are enough (\<open>Bracket_Parser\<close>). The
  recursion of the parser takes one unit per nested parenthesis and \<open>Parser_parse\<close> gives it the number
  of tokens plus one, which is enough (\<open>When_Parsing\<close>). The outer loop of the Myers algorithm is a partial function that is
  not shown to return: what it returns is right. All other loops are total functions.

  \<^bold>\<open>Parameters.\<close> The regular expression engine, the printing of numbers, \<open>toLowerCase\<close> and the platform
  constants (record \<open>host\<close>), the constructor of regular expressions (\<open>parser_env\<close>), and what the abstract
  methods of the keybinding service return (the events of its machine). The case tables of the letters
  (for the flag \<open>i\<close> of regular expressions and for \<open>toLowerCase\<close>), and the reader of a text buffer under
  the tokenizer of the bracket parser.

  \<^bold>\<open>Not modelled.\<close> Numbers in \<open>when\<close> clauses are exact rationals, not rounded doubles, and clauses are
  strings of 8-bit code units. Logging, telemetry, localization (the English text is used),
  \<open>toString\<close> methods for debugging and run-time type tests are left out. Parses that reuse nodes of
  an old tree are modelled, but what is proved of whole parses is proved for parses without one; the
  service around the bracket pair tree (\<open>bracketPairsTree.ts\<close>, \<open>combineTextEditInfos.ts\<close>) and the reader of
  text buffer lines are left out. Of the rest of the program nothing is modelled: the piece tree and the text model with its decorations and undo stack,
  the character level of the diff computer and its moved lines, the view layout, the cursor, language services, synchronization, the inter
  process protocol, and the user interface, extensions, build and test code. \<open>PROJECT.json\<close> lists them.
\<close>

end
